(* ===== verification/Prelude.thy ===== *)
theory Prelude
  imports Main "HOL-Library.Word"
begin

text \<open>
  Shared vocabulary of the development: the machine types of the 32-bit big-endian OpenRISC
  target, the flat byte-addressed memory the boot monitor runs in (there is no MMU protection:
  every address is readable and writable), NUL-terminated strings in that memory, the conversion
  between bytes and 32-bit words, and the generic list, word and memory lemmas that the component
  theories share.
\<close>

unbundle bit_operations_syntax

section \<open>Machine types\<close>

type_synonym u8 = "8 word"
type_synonym u16 = "16 word"
type_synonym u32 = "32 word"
type_synonym u64 = "64 word"

text \<open>Addresses are 32-bit words; memory is total, as on the bare machine.\<close>

type_synonym addr = u32
type_synonym mem = "addr \<Rightarrow> u8"

text \<open>The bytes of a string constant, without the zero that ends it.\<close>

definition ascii :: "string \<Rightarrow> u8 list" where
  "ascii s = map of_char s"

abbreviation (input) NULL :: addr where
  "NULL \<equiv> 0"

text \<open>Collections: unfolding facts of the components, and frame facts on memory.\<close>

named_theorems frame_simps
named_theorems model_defs

section \<open>Lists\<close>

text \<open>Splitting a list into its full blocks of length \<open>n\<close>; the remainder is left out.\<close>

function blocks :: "nat \<Rightarrow> 'a list \<Rightarrow> 'a list list" where
  "blocks n xs = (if 0 < n \<and> n \<le> length xs then take n xs # blocks n (drop n xs) else [])"
  by pat_completeness auto
termination
  by (relation "measure (\<lambda>(n, xs). length xs)") auto

declare blocks.simps [simp del]

definition leftover :: "nat \<Rightarrow> 'a list \<Rightarrow> 'a list" where
  "leftover n xs = drop (n * (length xs div n)) xs"

lemma blocks_short [simp]: "length xs < n \<Longrightarrow> blocks n xs = []"
  by (subst blocks.simps) simp

lemma blocks_Nil [simp]: "blocks n [] = []"
  by (subst blocks.simps) auto

lemma blocks_append_block [simp]:
  assumes "length b = n" and "0 < n"
  shows "blocks n (b @ xs) = b # blocks n xs"
  using assms by (subst blocks.simps) simp

lemma length_leftover: "length (leftover n xs) = length xs mod n"
  by (simp add: leftover_def minus_mult_div_eq_mod)

lemma leftover_less: "0 < n \<Longrightarrow> length (leftover n xs) < n"
  by (simp add: length_leftover)

lemma leftover_short [simp]: "length xs < n \<Longrightarrow> leftover n xs = xs"
  by (simp add: leftover_def)

lemma leftover_append_block [simp]:
  assumes "length b = n" and "0 < n"
  shows "leftover n (b @ xs) = leftover n xs"
proof -
  have "(n + length xs) div n = Suc (length xs div n)"
    using assms(2) by (simp add: div_add_self1)
  then show ?thesis
    using assms by (simp add: leftover_def)
qed

text \<open>Induction that peels one full block off the front.\<close>

lemma block_induct [consumes 1, case_names short block]:
  assumes "0 < (n :: nat)"
    and "\<And>xs. length xs < n \<Longrightarrow> P xs"
    and "\<And>b xs. length b = n \<Longrightarrow> P xs \<Longrightarrow> P (b @ xs)"
  shows "P xs"
proof (induction xs rule: length_induct)
  case (1 xs)
  show ?case
  proof (cases "length xs < n")
    case True
    then show ?thesis by (rule assms(2))
  next
    case False
    with assms(1) have "length (drop n xs) < length xs" and "length (take n xs) = n"
      by auto
    with "1" have "P (take n xs @ drop n xs)"
      by (intro assms(3)) auto
    then show ?thesis by simp
  qed
qed

lemma blocks_append_leftover:
  assumes "0 < n"
  shows "blocks n (xs @ ys) = blocks n xs @ blocks n (leftover n xs @ ys)"
  using assms by (induction xs rule: block_induct) (simp_all add: assms)

lemma leftover_append:
  assumes "0 < n"
  shows "leftover n (xs @ ys) = leftover n (leftover n xs @ ys)"
  using assms by (induction xs rule: block_induct) (simp_all add: assms)

lemma blocks_leftover_concat:
  assumes "0 < n"
  shows "concat (blocks n xs) @ leftover n xs = xs"
  using assms by (induction xs rule: block_induct) (simp_all add: assms)

lemma length_block_in_blocks:
  assumes "0 < n"
  shows "b \<in> set (blocks n xs) \<Longrightarrow> length b = n"
  using assms by (induction xs rule: block_induct) (auto simp: assms)

lemma take_append_drop_overwrite [simp]:
  "length p = k \<Longrightarrow> take k (p @ drop k xs) = p"
  by simp

section \<open>Bytes and 32-bit words\<close>

text \<open>
  A 32-bit word from four bytes, most significant first, and back: the byte order of the target
  and of network and image-header fields.
\<close>

definition be32 :: "u8 \<Rightarrow> u8 \<Rightarrow> u8 \<Rightarrow> u8 \<Rightarrow> u32" where
  "be32 b0 b1 b2 b3 =
     push_bit 24 (ucast b0) OR push_bit 16 (ucast b1) OR push_bit 8 (ucast b2) OR ucast b3"

definition bytes_be32 :: "u32 \<Rightarrow> u8 list" where
  "bytes_be32 w = [ucast (drop_bit 24 w), ucast (drop_bit 16 w), ucast (drop_bit 8 w), ucast w]"

lemma length_bytes_be32 [simp]: "length (bytes_be32 w) = 4"
  by (simp add: bytes_be32_def)


lemma bit_u8_bound: "bit (b :: u8) n \<Longrightarrow> n < 8"
  using bit_imp_le_length [of b n] by simp

lemma bit_be32:
  "bit (be32 b0 b1 b2 b3) n \<longleftrightarrow>
     (if n < 8 then bit b3 n else if n < 16 then bit b2 (n - 8)
      else if n < 24 then bit b1 (n - 16) else if n < 32 then bit b0 (n - 24) else False)"
  by (auto simp: be32_def bit_or_iff bit_push_bit_iff bit_ucast_iff dest: bit_u8_bound)

lemma be32_bytes_be32 [simp]:
  "be32 (ucast (drop_bit 24 w)) (ucast (drop_bit 16 w)) (ucast (drop_bit 8 w)) (ucast w) = w"
  by (rule bit_word_eqI) (auto simp: bit_be32 bit_ucast_iff bit_drop_bit_eq)

lemma bytes_be32_be32 [simp]: "bytes_be32 (be32 b0 b1 b2 b3) = [b0, b1, b2, b3]"
  unfolding bytes_be32_def
  by (simp add: bit_eq_iff bit_be32 bit_ucast_iff bit_drop_bit_eq)

text \<open>Rotations written as two shifts.\<close>

lemma ones_and [simp]: "(x :: u32) AND 0xFFFFFFFF = x"
proof -
  have ones: "(0xFFFFFFFF :: u32) = - 1" by simp
  show ?thesis unfolding ones by simp
qed

lemma rotl_shifts:
  assumes "n < 32"
  shows "push_bit n (x :: u32) OR drop_bit (32 - n) x = word_rotl n x"
proof (rule bit_word_eqI)
  fix i assume i: "i < LENGTH(32)"
  show "bit (push_bit n x OR drop_bit (32 - n) x) i = bit (word_rotl n x) i"
  proof (cases "n \<le> i")
    case True
    then have "(i + 32 - n) mod 32 = i - n"
      using i by (simp add: mod_if)
    moreover have "\<not> bit x (32 - n + i)"
      using True assms by (intro impossible_bit) simp
    ultimately show ?thesis
      using i True by (simp add: bit_or_iff bit_push_bit_iff bit_drop_bit_eq bit_word_rotl_iff)
  next
    case False
    then have "(i + 32 - n mod 32) mod 32 = 32 - n + i"
      using assms by simp
    then show ?thesis
      using i False
      by (simp add: bit_or_iff bit_push_bit_iff bit_drop_bit_eq bit_word_rotl_iff del: mod_less)
  qed
qed

lemma rotr_shifts:
  assumes "0 < n" and "n < 32"
  shows "drop_bit n (x :: u32) OR push_bit (32 - n) x = word_rotr n x"
proof (rule bit_word_eqI)
  fix i assume i: "i < LENGTH(32)"
  show "bit (drop_bit n x OR push_bit (32 - n) x) i = bit (word_rotr n x) i"
  proof (cases "i + n < 32")
    case True
    then have "\<not> 32 - n \<le> i"
      by simp
    then show ?thesis
      using i True
      by (simp add: bit_or_iff bit_push_bit_iff bit_drop_bit_eq bit_word_rotr_iff add.commute)
  next
    case False
    then have "(i + n) mod 32 = i - (32 - n)"
      using i assms by (simp add: mod_if)
    moreover have "\<not> bit x (n + i)"
      using False by (intro impossible_bit) simp
    moreover have "32 - n \<le> i"
      using False by simp
    ultimately show ?thesis
      using i by (simp add: bit_or_iff bit_push_bit_iff bit_drop_bit_eq bit_word_rotr_iff)
  qed
qed

section \<open>Tables of functions that are linear over exclusive-or\<close>

text \<open>
  A table \<open>[f 0, f 1, \<dots>, f (2 ^ k - 1)]\<close> of a linear \<open>f\<close> is built by \<open>k\<close> doublings, which keeps
  the comparison of a literal table with its generator cheap.
\<close>

definition xor_double :: "'b::len word \<Rightarrow> 'b word list \<Rightarrow> 'b word list" where
  "xor_double c t = t @ map (\<lambda>x. x XOR c) t"

lemma of_nat_plus_exp_xor:
  assumes "n < 2 ^ j" and "j < LENGTH('a)"
  shows "(of_nat (2 ^ j + n) :: 'a::len word) = of_nat n XOR 2 ^ j"
proof -
  have "\<not> bit n j"
    using assms(1) by (simp add: bit_iff_odd)
  then have "\<not> bit (of_nat n :: 'a word) j"
    by (simp add: bit_of_nat_iff)
  then have "(of_nat n :: 'a word) AND 2 ^ j = 0"
    by (simp add: and_exp_eq_0_iff_not_bit)
  then show ?thesis
    by (simp add: disjunctive_add_eq_xor [symmetric] add.commute)
qed

lemma linear_table_double:
  fixes f :: "'a::len word \<Rightarrow> 'b::len word"
  assumes lin: "\<And>a b. f (a XOR b) = f a XOR f b" and "j < LENGTH('a)"
  shows "map (\<lambda>n. f (of_nat n)) [0..<2 ^ Suc j] =
    (let t = map (\<lambda>n. f (of_nat n)) [0..<2 ^ j] in t @ map (\<lambda>x. x XOR f (2 ^ j)) t)"
proof -
  have *: "f (of_nat (2 ^ j + n)) = f (of_nat n) XOR f (2 ^ j)" if "n < 2 ^ j" for n
    using that assms(2) by (subst of_nat_plus_exp_xor) (auto simp: lin)
  show ?thesis
    unfolding Let_def
  proof (rule nth_equalityI)
    fix i assume "i < length (map (\<lambda>n. f (of_nat n)) [0..<2 ^ Suc j])"
    then have i: "i < 2 ^ j + 2 ^ j"
      by simp
    show "map (\<lambda>n. f (of_nat n)) [0..<2 ^ Suc j] ! i =
      (map (\<lambda>n. f (of_nat n)) [0..<2 ^ j] @
        map (\<lambda>x. x XOR f (2 ^ j)) (map (\<lambda>n. f (of_nat n)) [0..<2 ^ j])) ! i"
      using i * [of "i - 2 ^ j"] by (cases "i < 2 ^ j") (auto simp: nth_append)
  qed simp
qed

lemma linear_table:
  fixes f :: "'a::len word \<Rightarrow> 'b::len word"
  assumes lin: "\<And>a b. f (a XOR b) = f a XOR f b" and "k \<le> LENGTH('a)"
  shows "map (\<lambda>n. f (of_nat n)) [0..<2 ^ k] = fold (\<lambda>j. xor_double (f (2 ^ j))) [0..<k] [f 0]"
  using assms(2)
proof (induction k)
  case (Suc k)
  then have "k < LENGTH('a)" by simp
  from linear_table_double [where f = f, OF lin this] Suc show ?case
    by (simp add: xor_double_def Let_def del: power_Suc upt_Suc) (simp add: xor_double_def)
qed simp

text \<open>Two bytes are equal when their eight bits are.\<close>

lemma u8_eq:
  "a = (b :: u8) \<longleftrightarrow> bit a 0 = bit b 0 \<and> bit a 1 = bit b 1 \<and> bit a 2 = bit b 2 \<and> bit a 3 = bit b 3 \<and>
    bit a 4 = bit b 4 \<and> bit a 5 = bit b 5 \<and> bit a 6 = bit b 6 \<and> bit a 7 = bit b 7"
proof -
  have "(\<forall>n<8. P n) \<longleftrightarrow> P 0 \<and> P 1 \<and> P 2 \<and> P 3 \<and> P 4 \<and> P 5 \<and> P 6 \<and> P (7 :: nat)" for P
    by (simp add: numeral_eq_Suc All_less_Suc) auto
  from this [of "\<lambda>n. bit a n = bit b n"] show ?thesis
    unfolding bit_eq_iff by simp
qed

end
