(* ===== verification/Chunked.thy ===== *)
theory Chunked
  imports Prelude
begin

text \<open>
  The chunk loop that \<^verbatim>\<open>crc32_wd\<close>, \<^verbatim>\<open>md5_wd\<close> and \<^verbatim>\<open>sha1_csum_wd\<close> share: the input is fed to an
  update function in pieces of at most \<open>chunk_sz\<close> bytes so that the watchdog can be triggered in
  between. The loop is written once, over the update function, and its total correctness is proved
  once, in the locale of the update functions that represent the message fed so far; the three
  routines interpret it.
\<close>

text \<open>
  One turn: \<open>chunk = end - curr; if (chunk > chunk_sz) chunk = chunk_sz;\<close> then the update with the
  first \<open>chunk\<close> bytes of what is left. With \<open>chunk_sz = 0\<close> the loop makes no progress and does not
  return (\<open>None\<close>).
\<close>

partial_function (option) wd_loop ::
  "('s \<Rightarrow> u8 list \<Rightarrow> 's) \<Rightarrow> 's \<Rightarrow> u8 list \<Rightarrow> u32 \<Rightarrow> 's option" where
  "wd_loop upd s buf chunk_sz =
     (if buf \<noteq> [] then
        (let chunk = (if of_nat (length buf) > chunk_sz then unat chunk_sz else length buf)
         in wd_loop upd (upd s (take chunk buf)) (drop chunk buf) chunk_sz)
      else Some s)"

text \<open>
  The contract of an incremental update: \<open>rep s m\<close> says that the state \<open>s\<close> stands for the message
  \<open>m\<close>, and feeding more bytes extends the message, up to a length bound \<open>max_len\<close>.
\<close>

locale incremental =
  fixes rep :: "'s \<Rightarrow> u8 list \<Rightarrow> bool"
    and upd :: "'s \<Rightarrow> u8 list \<Rightarrow> 's"
    and ok_len :: "nat \<Rightarrow> bool"
  assumes rep_upd: "rep s m \<Longrightarrow> ok_len (length b) \<Longrightarrow> rep (upd s b) (m @ b)"
    and ok_len_mono: "ok_len n \<Longrightarrow> k \<le> n \<Longrightarrow> ok_len k"
begin

lemma wd_loop_rep:
  assumes "rep s m" and "ok_len (length buf)" and "length buf < 2 ^ 32" and "chunk_sz \<noteq> 0"
  shows "\<exists>s'. wd_loop upd s buf chunk_sz = Some s' \<and> rep s' (m @ buf)"
  using assms(1-3)
proof (induction buf arbitrary: s m rule: length_induct)
  case (1 buf)
  show ?case
  proof (cases "buf = []")
    case True
    with "1.prems" show ?thesis
      by (subst wd_loop.simps) simp
  next
    case False
    define chunk where
      "chunk = (if of_nat (length buf) > chunk_sz then unat chunk_sz else length buf)"
    have "unat chunk_sz \<noteq> 0"
      using assms(4) by (simp add: unat_eq_zero)
    then have pos: "0 < chunk"
      using False by (simp add: chunk_def)
    have "unat (of_nat (length buf) :: u32) = length buf"
      using "1.prems"(3) by (simp add: unat_of_nat)
    then have le: "chunk \<le> length buf"
      by (auto simp: chunk_def word_less_nat_alt)
    have rep': "rep (upd s (take chunk buf)) (m @ take chunk buf)"
      using "1.prems"(1,2) le by (intro rep_upd) (auto intro: ok_len_mono)
    have "length (drop chunk buf) < length buf"
      using pos False by simp
    moreover have "ok_len (length (drop chunk buf))"
      using "1.prems"(2) by (rule ok_len_mono) simp
    moreover have "length (drop chunk buf) < 2 ^ 32"
      using "1.prems"(3) by simp
    ultimately obtain s' where
      "wd_loop upd (upd s (take chunk buf)) (drop chunk buf) chunk_sz = Some s'"
      and "rep s' ((m @ take chunk buf) @ drop chunk buf)"
      using "1.IH" rep' by blast
    then show ?thesis
      using False by (subst wd_loop.simps) (simp add: chunk_def Let_def)
  qed
qed

end

text \<open>Without progress there is no result: the loop is stuck for every update function.\<close>

lemma wd_loop_stuck:
  assumes "wd_loop upd s buf 0 = Some r" and "length buf < 2 ^ 32"
  shows "buf = []"
proof -
  have "c = 0 \<longrightarrow> length b < 2 ^ 32 \<longrightarrow> b = []" if "wd_loop upd t b c = Some r" for t b c
    using that
  proof (rule wd_loop.raw_induct
      [where P = "\<lambda>_ _ b c _. c = 0 \<longrightarrow> length b < 2 ^ 32 \<longrightarrow> b = []", rotated])
    fix f :: "('a \<Rightarrow> u8 list \<Rightarrow> 'a) \<Rightarrow> 'a \<Rightarrow> u8 list \<Rightarrow> u32 \<Rightarrow> 'a option"
      and upd s buf chunk_sz r
    assume IH: "\<And>upd s buf c r. f upd s buf c = Some r \<Longrightarrow>
        c = 0 \<longrightarrow> length buf < 2 ^ 32 \<longrightarrow> buf = []"
      and eq: "(if buf \<noteq> [] then
        (let chunk = (if of_nat (length buf) > chunk_sz then unat chunk_sz else length buf)
         in f upd (upd s (take chunk buf)) (drop chunk buf) chunk_sz)
      else Some s) = Some r"
    show "chunk_sz = 0 \<longrightarrow> length buf < 2 ^ 32 \<longrightarrow> buf = []"
    proof (intro impI, rule ccontr)
      assume zero: "chunk_sz = 0" and len: "length buf < 2 ^ 32" and "buf \<noteq> []"
      then have "0 < (of_nat (length buf) :: u32)"
        by (simp add: word_less_nat_alt unat_of_nat)
      with eq zero \<open>buf \<noteq> []\<close> have "f upd (upd s []) buf 0 = Some r"
        by (simp add: Let_def)
      with IH len \<open>buf \<noteq> []\<close> show False by blast
    qed
  qed
  then show ?thesis using assms by blast
qed

end
