(* ===== verification/Lib_Crc.thy ===== *)
theory Lib_Crc
  imports Prelude Chunked
begin

text \<open>
  The checksums of the monitor: \<^verbatim>\<open>lib_generic/crc32.c\<close> (image headers, image data, the saved
  environment) and \<^verbatim>\<open>lib_generic/crc16.c\<close> (the serial download protocols). A read-only buffer
  \<open>(buf, len)\<close> is the list of its \<open>len\<close> bytes. The table-driven loops are shown equal to the
  bit-serial division registers that define the two codes, the built-in table is shown to be the
  one \<^verbatim>\<open>make_crc_table\<close> generates, and the code is shown to detect every error burst of at most
  32 bits.
\<close>

section \<open>CRC-32\<close>

definition crc_table :: "u32 list" where
  "crc_table =
    [0x00000000, 0x77073096, 0xee0e612c, 0x990951ba, 0x076dc419, 0x706af48f,
     0xe963a535, 0x9e6495a3, 0x0edb8832, 0x79dcb8a4, 0xe0d5e91e, 0x97d2d988,
     0x09b64c2b, 0x7eb17cbd, 0xe7b82d07, 0x90bf1d91, 0x1db71064, 0x6ab020f2,
     0xf3b97148, 0x84be41de, 0x1adad47d, 0x6ddde4eb, 0xf4d4b551, 0x83d385c7,
     0x136c9856, 0x646ba8c0, 0xfd62f97a, 0x8a65c9ec, 0x14015c4f, 0x63066cd9,
     0xfa0f3d63, 0x8d080df5, 0x3b6e20c8, 0x4c69105e, 0xd56041e4, 0xa2677172,
     0x3c03e4d1, 0x4b04d447, 0xd20d85fd, 0xa50ab56b, 0x35b5a8fa, 0x42b2986c,
     0xdbbbc9d6, 0xacbcf940, 0x32d86ce3, 0x45df5c75, 0xdcd60dcf, 0xabd13d59,
     0x26d930ac, 0x51de003a, 0xc8d75180, 0xbfd06116, 0x21b4f4b5, 0x56b3c423,
     0xcfba9599, 0xb8bda50f, 0x2802b89e, 0x5f058808, 0xc60cd9b2, 0xb10be924,
     0x2f6f7c87, 0x58684c11, 0xc1611dab, 0xb6662d3d, 0x76dc4190, 0x01db7106,
     0x98d220bc, 0xefd5102a, 0x71b18589, 0x06b6b51f, 0x9fbfe4a5, 0xe8b8d433,
     0x7807c9a2, 0x0f00f934, 0x9609a88e, 0xe10e9818, 0x7f6a0dbb, 0x086d3d2d,
     0x91646c97, 0xe6635c01, 0x6b6b51f4, 0x1c6c6162, 0x856530d8, 0xf262004e,
     0x6c0695ed, 0x1b01a57b, 0x8208f4c1, 0xf50fc457, 0x65b0d9c6, 0x12b7e950,
     0x8bbeb8ea, 0xfcb9887c, 0x62dd1ddf, 0x15da2d49, 0x8cd37cf3, 0xfbd44c65,
     0x4db26158, 0x3ab551ce, 0xa3bc0074, 0xd4bb30e2, 0x4adfa541, 0x3dd895d7,
     0xa4d1c46d, 0xd3d6f4fb, 0x4369e96a, 0x346ed9fc, 0xad678846, 0xda60b8d0,
     0x44042d73, 0x33031de5, 0xaa0a4c5f, 0xdd0d7cc9, 0x5005713c, 0x270241aa,
     0xbe0b1010, 0xc90c2086, 0x5768b525, 0x206f85b3, 0xb966d409, 0xce61e49f,
     0x5edef90e, 0x29d9c998, 0xb0d09822, 0xc7d7a8b4, 0x59b33d17, 0x2eb40d81,
     0xb7bd5c3b, 0xc0ba6cad, 0xedb88320, 0x9abfb3b6, 0x03b6e20c, 0x74b1d29a,
     0xead54739, 0x9dd277af, 0x04db2615, 0x73dc1683, 0xe3630b12, 0x94643b84,
     0x0d6d6a3e, 0x7a6a5aa8, 0xe40ecf0b, 0x9309ff9d, 0x0a00ae27, 0x7d079eb1,
     0xf00f9344, 0x8708a3d2, 0x1e01f268, 0x6906c2fe, 0xf762575d, 0x806567cb,
     0x196c3671, 0x6e6b06e7, 0xfed41b76, 0x89d32be0, 0x10da7a5a, 0x67dd4acc,
     0xf9b9df6f, 0x8ebeeff9, 0x17b7be43, 0x60b08ed5, 0xd6d6a3e8, 0xa1d1937e,
     0x38d8c2c4, 0x4fdff252, 0xd1bb67f1, 0xa6bc5767, 0x3fb506dd, 0x48b2364b,
     0xd80d2bda, 0xaf0a1b4c, 0x36034af6, 0x41047a60, 0xdf60efc3, 0xa867df55,
     0x316e8eef, 0x4669be79, 0xcb61b38c, 0xbc66831a, 0x256fd2a0, 0x5268e236,
     0xcc0c7795, 0xbb0b4703, 0x220216b9, 0x5505262f, 0xc5ba3bbe, 0xb2bd0b28,
     0x2bb45a92, 0x5cb36a04, 0xc2d7ffa7, 0xb5d0cf31, 0x2cd99e8b, 0x5bdeae1d,
     0x9b64c2b0, 0xec63f226, 0x756aa39c, 0x026d930a, 0x9c0906a9, 0xeb0e363f,
     0x72076785, 0x05005713, 0x95bf4a82, 0xe2b87a14, 0x7bb12bae, 0x0cb61b38,
     0x92d28e9b, 0xe5d5be0d, 0x7cdcefb7, 0x0bdbdf21, 0x86d3d2d4, 0xf1d4e242,
     0x68ddb3f8, 0x1fda836e, 0x81be16cd, 0xf6b9265b, 0x6fb077e1, 0x18b74777,
     0x88085ae6, 0xff0f6a70, 0x66063bca, 0x11010b5c, 0x8f659eff, 0xf862ae69,
     0x616bffd3, 0x166ccf45, 0xa00ae278, 0xd70dd2ee, 0x4e048354, 0x3903b3c2,
     0xa7672661, 0xd06016f7, 0x4969474d, 0x3e6e77db, 0xaed16a4a, 0xd9d65adc,
     0x40df0b66, 0x37d83bf0, 0xa9bcae53, 0xdebb9ec5, 0x47b2cf7f, 0x30b5ffe9,
     0xbdbdf21c, 0xcabac28a, 0x53b39330, 0x24b4a3a6, 0xbad03605, 0xcdd70693,
     0x54de5729, 0x23d967bf, 0xb3667a2e, 0xc4614ab8, 0x5d681b02, 0x2a6f2b94,
     0xb40bbe37, 0xc30c8ea1, 0x5a05df1b, 0x2d02ef8d]"

text \<open>
  \<open>make_crc_table\<close>: the generator of the table, with the exclusive-or pattern assembled from the
  terms of the polynomial and eight shift steps per entry.
\<close>

definition crc_poly_terms :: "nat list" where
  "crc_poly_terms = [0, 1, 2, 4, 5, 7, 8, 10, 11, 12, 16, 22, 23, 26]"

definition crc_poly :: u32 where
  "crc_poly = fold (\<lambda>p poly. poly OR push_bit (31 - p) 1) crc_poly_terms 0"

definition crc_shift :: "u32 \<Rightarrow> u32" where
  "crc_shift c = (if c AND 1 \<noteq> 0 then crc_poly XOR drop_bit 1 c else drop_bit 1 c)"

definition crc_table_entry :: "u32 \<Rightarrow> u32" where
  "crc_table_entry n = (crc_shift ^^ 8) n"

definition make_crc_table :: "u32 list" where
  "make_crc_table = map (\<lambda>n. crc_table_entry (of_nat n)) [0..<256]"

text \<open>The macros \<open>DO1\<close> and \<open>DO8\<close>, and the two loops of \<open>crc32\<close>.\<close>

definition DO1 :: "u32 \<Rightarrow> u8 \<Rightarrow> u32" where
  "DO1 crc b = crc_table ! unat ((crc XOR ucast b) AND 0xff) XOR drop_bit 8 crc"

definition DO8 :: "u32 \<Rightarrow> u8 list \<Rightarrow> u32" where
  "DO8 crc buf =
     DO1 (DO1 (DO1 (DO1 (DO1 (DO1 (DO1 (DO1 crc (buf ! 0)) (buf ! 1)) (buf ! 2)) (buf ! 3))
       (buf ! 4)) (buf ! 5)) (buf ! 6)) (buf ! 7)"

fun crc_tail :: "u32 \<Rightarrow> u8 list \<Rightarrow> u32" where
  "crc_tail crc [] = crc"
| "crc_tail crc (b # buf) = crc_tail (DO1 crc b) buf"

function crc_loop :: "u32 \<Rightarrow> u8 list \<Rightarrow> u32" where
  "crc_loop crc buf =
     (if 8 \<le> length buf then crc_loop (DO8 crc buf) (drop 8 buf) else crc_tail crc buf)"
  by pat_completeness auto
termination
  by (relation "measure (\<lambda>(crc, buf). length buf)") auto

declare crc_loop.simps [simp del]

definition crc32 :: "u32 \<Rightarrow> u8 list \<Rightarrow> u32" where
  "crc32 crc buf = crc_loop (crc XOR 0xffffffff) buf XOR 0xffffffff"

text \<open>The variant without the ones complement, for JFFS2 and NAND.\<close>

definition crc32_no_comp :: "u32 \<Rightarrow> u8 list \<Rightarrow> u32" where
  "crc32_no_comp crc buf = crc_loop crc buf"

text \<open>
  \<open>crc32_wd\<close> as compiled with a watchdog: the chunk loop of \<open>Chunked\<close>. Without a watchdog
  (the board's configuration) it is one call of \<open>crc32\<close>.
\<close>

definition crc32_wd :: "bool \<Rightarrow> u32 \<Rightarrow> u8 list \<Rightarrow> u32 \<Rightarrow> u32 option" where
  "crc32_wd has_watchdog crc buf chunk_sz =
     (if has_watchdog then wd_loop crc32 crc buf chunk_sz else Some (crc32 crc buf))"

section \<open>CRC-16\<close>

definition crc16_tab :: "u16 list" where
  "crc16_tab =
    [0x0000, 0x1021, 0x2042, 0x3063, 0x4084, 0x50a5, 0x60c6, 0x70e7,
     0x8108, 0x9129, 0xa14a, 0xb16b, 0xc18c, 0xd1ad, 0xe1ce, 0xf1ef,
     0x1231, 0x0210, 0x3273, 0x2252, 0x52b5, 0x4294, 0x72f7, 0x62d6,
     0x9339, 0x8318, 0xb37b, 0xa35a, 0xd3bd, 0xc39c, 0xf3ff, 0xe3de,
     0x2462, 0x3443, 0x0420, 0x1401, 0x64e6, 0x74c7, 0x44a4, 0x5485,
     0xa56a, 0xb54b, 0x8528, 0x9509, 0xe5ee, 0xf5cf, 0xc5ac, 0xd58d,
     0x3653, 0x2672, 0x1611, 0x0630, 0x76d7, 0x66f6, 0x5695, 0x46b4,
     0xb75b, 0xa77a, 0x9719, 0x8738, 0xf7df, 0xe7fe, 0xd79d, 0xc7bc,
     0x48c4, 0x58e5, 0x6886, 0x78a7, 0x0840, 0x1861, 0x2802, 0x3823,
     0xc9cc, 0xd9ed, 0xe98e, 0xf9af, 0x8948, 0x9969, 0xa90a, 0xb92b,
     0x5af5, 0x4ad4, 0x7ab7, 0x6a96, 0x1a71, 0x0a50, 0x3a33, 0x2a12,
     0xdbfd, 0xcbdc, 0xfbbf, 0xeb9e, 0x9b79, 0x8b58, 0xbb3b, 0xab1a,
     0x6ca6, 0x7c87, 0x4ce4, 0x5cc5, 0x2c22, 0x3c03, 0x0c60, 0x1c41,
     0xedae, 0xfd8f, 0xcdec, 0xddcd, 0xad2a, 0xbd0b, 0x8d68, 0x9d49,
     0x7e97, 0x6eb6, 0x5ed5, 0x4ef4, 0x3e13, 0x2e32, 0x1e51, 0x0e70,
     0xff9f, 0xefbe, 0xdfdd, 0xcffc, 0xbf1b, 0xaf3a, 0x9f59, 0x8f78,
     0x9188, 0x81a9, 0xb1ca, 0xa1eb, 0xd10c, 0xc12d, 0xf14e, 0xe16f,
     0x1080, 0x00a1, 0x30c2, 0x20e3, 0x5004, 0x4025, 0x7046, 0x6067,
     0x83b9, 0x9398, 0xa3fb, 0xb3da, 0xc33d, 0xd31c, 0xe37f, 0xf35e,
     0x02b1, 0x1290, 0x22f3, 0x32d2, 0x4235, 0x5214, 0x6277, 0x7256,
     0xb5ea, 0xa5cb, 0x95a8, 0x8589, 0xf56e, 0xe54f, 0xd52c, 0xc50d,
     0x34e2, 0x24c3, 0x14a0, 0x0481, 0x7466, 0x6447, 0x5424, 0x4405,
     0xa7db, 0xb7fa, 0x8799, 0x97b8, 0xe75f, 0xf77e, 0xc71d, 0xd73c,
     0x26d3, 0x36f2, 0x0691, 0x16b0, 0x6657, 0x7676, 0x4615, 0x5634,
     0xd94c, 0xc96d, 0xf90e, 0xe92f, 0x99c8, 0x89e9, 0xb98a, 0xa9ab,
     0x5844, 0x4865, 0x7806, 0x6827, 0x18c0, 0x08e1, 0x3882, 0x28a3,
     0xcb7d, 0xdb5c, 0xeb3f, 0xfb1e, 0x8bf9, 0x9bd8, 0xabbb, 0xbb9a,
     0x4a75, 0x5a54, 0x6a37, 0x7a16, 0x0af1, 0x1ad0, 0x2ab3, 0x3a92,
     0xfd2e, 0xed0f, 0xdd6c, 0xcd4d, 0xbdaa, 0xad8b, 0x9de8, 0x8dc9,
     0x7c26, 0x6c07, 0x5c64, 0x4c45, 0x3ca2, 0x2c83, 0x1ce0, 0x0cc1,
     0xef1f, 0xff3e, 0xcf5d, 0xdf7c, 0xaf9b, 0xbfba, 0x8fd9, 0x9ff8,
     0x6e17, 0x7e36, 0x4e55, 0x5e74, 0x2e93, 0x3eb2, 0x0ed1, 0x1ef0]"

definition crc16_step :: "u16 \<Rightarrow> u8 \<Rightarrow> u16" where
  "crc16_step cksum b =
     crc16_tab ! unat ((drop_bit 8 cksum XOR ucast b) AND 0xff) XOR push_bit 8 cksum"

definition cyg_crc16 :: "u8 list \<Rightarrow> u16" where
  "cyg_crc16 buf = foldl crc16_step 0 buf"

section \<open>The reference registers\<close>

text \<open>
  The reference: a division register fed one message bit at a time, least significant bit of each
  byte first, as the comment of \<open>make_crc_table\<close> describes it.
\<close>

definition serial_bit :: "u32 \<Rightarrow> bool \<Rightarrow> u32" where
  "serial_bit r d = (if bit r 0 \<noteq> d then 0xedb88320 XOR drop_bit 1 r else drop_bit 1 r)"

definition message_bits :: "u8 list \<Rightarrow> bool list" where
  "message_bits buf = concat (map (\<lambda>b. map (bit b) [0..<8]) buf)"

text \<open>CRC-16, most significant bit first, and the table entry of a byte.\<close>

definition crc16_shift :: "u16 \<Rightarrow> u16" where
  "crc16_shift c = (if bit c 15 then push_bit 1 c XOR 0x1021 else push_bit 1 c)"

definition serial16_bit :: "u16 \<Rightarrow> bool \<Rightarrow> u16" where
  "serial16_bit r d = (if bit r 15 \<noteq> d then push_bit 1 r XOR 0x1021 else push_bit 1 r)"

definition message_bits_msb :: "u8 list \<Rightarrow> bool list" where
  "message_bits_msb buf = concat (map (\<lambda>b. map (\<lambda>i. bit b (7 - i)) [0..<8]) buf)"

definition crc16_entry :: "u16 \<Rightarrow> u16" where
  "crc16_entry n = (crc16_shift ^^ 8) (push_bit 8 n)"

text \<open>Up to four bytes enter the register as one little-endian word.\<close>

fun le_word :: "u8 list \<Rightarrow> u32" where
  "le_word [] = 0"
| "le_word (b # bs) = ucast b XOR push_bit 8 (le_word bs)"

section \<open>Linear shift registers\<close>

text \<open>
  Both codes shift a register that is linear over exclusive-or and loses no information; the
  consequences are proved once.
\<close>

locale linear_register =
  fixes sh :: "'a::len word \<Rightarrow> 'a word"
  assumes sh_xor: "sh (a XOR b) = sh a XOR sh b"
    and sh_kernel: "sh a = 0 \<Longrightarrow> a = 0"
begin

lemma shn_xor: "(sh ^^ n) (a XOR b) = (sh ^^ n) a XOR (sh ^^ n) b"
  by (induction n) (simp_all add: sh_xor)

lemma sh_inj: "sh a = sh b \<longleftrightarrow> a = b"
proof
  assume "sh a = sh b"
  then have "sh (a XOR b) = 0"
    by (simp add: sh_xor)
  then have "a XOR b = 0"
    by (rule sh_kernel)
  then have "a = a XOR (a XOR b)"
    by simp
  then show "a = b"
    by (simp add: xor.assoc [symmetric])
qed simp

lemma shn_inj: "(sh ^^ n) a = (sh ^^ n) b \<longleftrightarrow> a = b"
  by (induction n) (simp_all add: sh_inj)

lemma feed_inj:
  "foldl (\<lambda>r x. (sh ^^ n) (r XOR f x)) a xs = foldl (\<lambda>r x. (sh ^^ n) (r XOR f x)) b xs
     \<longleftrightarrow> a = b"
proof (induction xs arbitrary: a b)
  case (Cons x xs)
  have "a XOR f x = b XOR f x \<longleftrightarrow> a = b"
    by (metis xor.assoc xor_self_eq xor.right_neutral)
  with Cons show ?case
    by (simp add: shn_inj)
qed simp

end

lemma odd_and_one: "(c :: 'a::len word) AND 1 \<noteq> 0 \<longleftrightarrow> bit c 0"
  by (simp add: and_one_eq odd_iff_mod_2_eq_one bit_0)

lemma crc_poly_eq: "crc_poly = 0xedb88320"
  by (simp add: crc_poly_def crc_poly_terms_def)

lemma crc_shift_alt:
  "crc_shift c = (if bit c 0 then 0xedb88320 XOR drop_bit 1 c else drop_bit 1 c)"
  by (simp add: crc_shift_def odd_and_one crc_poly_eq)

lemma bit_crc_shift_31: "bit (crc_shift c) 31 \<longleftrightarrow> bit c 0"
  by (simp add: crc_shift_alt bit_xor_iff bit_drop_bit_eq impossible_bit)

lemma crc_shift_xor: "crc_shift (a XOR b) = crc_shift a XOR crc_shift b"
  by (simp add: crc_shift_alt bit_xor_iff drop_bit_xor ac_simps)

lemma crc_shift_kernel:
  assumes "crc_shift a = 0"
  shows "a = 0"
proof -
  have b0: "\<not> bit a 0"
    using bit_crc_shift_31 [of a] assms by simp
  then have "drop_bit 1 a = 0"
    using assms by (simp add: crc_shift_alt)
  then have "\<not> bit a (Suc n)" for n
    using bit_drop_bit_eq [of 1 a] by (auto simp: fun_eq_iff)
  with b0 show ?thesis
    by (intro bit_word_eqI) (metis bit_0_eq bot_apply bot_bool_def not0_implies_Suc)
qed

interpretation crc32_reg: linear_register crc_shift
  by unfold_locales (auto simp: crc_shift_xor crc_shift_kernel)

lemma crc_shift_low_zero:
  assumes "\<And>i. i < k \<Longrightarrow> \<not> bit c i"
  shows "(crc_shift ^^ k) c = drop_bit k c"
  using assms
proof (induction k)
  case (Suc k)
  then have "(crc_shift ^^ Suc k) c = crc_shift (drop_bit k c)"
    by simp
  also have "\<dots> = drop_bit (Suc k) c"
    using Suc.prems [of k] by (simp add: crc_shift_alt bit_drop_bit_eq)
  finally show ?case .
qed simp

lemma funpow_8: "(f ^^ 8) x = f (f (f (f (f (f (f (f x)))))))"
  by (simp add: eval_nat_numeral)

lemma upt_8: "[0..<8] = [0, 1, 2, 3, 4, 5, 6, 7]"
  by (simp add: upt_rec)

lemma crc_table_entry_powers:
    "crc_table_entry 0 = 0" 
    "crc_table_entry 1 = 0x77073096" 
    "crc_table_entry 2 = 0xee0e612c" 
    "crc_table_entry 4 = 0x76dc419" 
    "crc_table_entry 8 = 0xedb8832" 
    "crc_table_entry 16 = 0x1db71064" 
    "crc_table_entry 32 = 0x3b6e20c8" 
    "crc_table_entry 64 = 0x76dc4190" 
    "crc_table_entry 128 = 0xedb88320"
  by (simp_all add: crc_table_entry_def funpow_8 crc_shift_alt)

lemma crc_table_generated: "crc_table = make_crc_table"
proof -
  have "make_crc_table = fold (\<lambda>j. xor_double (crc_table_entry (2 ^ j))) [0..<8] [crc_table_entry 0]"
    using linear_table [where f = crc_table_entry and k = 8]
    by (simp add: make_crc_table_def crc_table_entry_def crc32_reg.shn_xor)
  also have "\<dots> = crc_table"
    unfolding upt_8 by (simp add: crc_table_def crc_table_entry_powers xor_double_def)
  finally show ?thesis by simp
qed

section \<open>The table-driven loop against the bit-serial register\<close>

lemma crc_table_nth:
  assumes "unat x < 256"
  shows "crc_table ! unat x = (crc_shift ^^ 8) x"
  using assms by (simp add: crc_table_generated make_crc_table_def crc_table_entry_def)

lemma unat_and_ff: "unat (x AND 0xff :: 'a::len word) < 256"
proof -
  have "unat (x AND 0xff) \<le> unat (0xff :: 'a word)"
    by (rule word_and_le1 [THEN word_le_nat_alt [THEN iffD1]])
  also have "\<dots> \<le> 255"
    by (simp add: unsigned_numeral take_bit_nat_eq_self_iff mod_less_eq_dividend
        take_bit_eq_mod)
  finally show ?thesis by simp
qed

lemma bit_0xff: "bit (0xff :: u32) i \<longleftrightarrow> i < 8"
proof -
  have ff: "(0xff :: u32) = mask 8"
    by (simp add: mask_eq_exp_minus_1)
  show ?thesis unfolding ff bit_mask_iff by auto
qed

lemma DO1_shift: "DO1 crc b = (crc_shift ^^ 8) (crc XOR ucast b)"
proof -
  define m :: u32 where "m = 0xff"
  have bit_m: "bit m i \<longleftrightarrow> i < 8" for i
    by (simp only: m_def bit_0xff)
  let ?x = "crc XOR ucast b"
  have split: "?x = (?x AND m) XOR (?x AND NOT m)"
    by (rule bit_word_eqI) (auto simp: bit_and_iff bit_not_iff bit_xor_iff)
  have "(crc_shift ^^ 8) (?x AND NOT m) = drop_bit 8 (?x AND NOT m)"
    by (rule crc_shift_low_zero) (simp add: bit_and_iff bit_not_iff bit_m)
  also have "\<dots> = drop_bit 8 crc"
    by (rule bit_word_eqI)
      (auto simp: bit_drop_bit_eq bit_and_iff bit_not_iff bit_xor_iff bit_ucast_iff bit_m
        dest: bit_u8_bound bit_imp_le_length)
  finally have "(crc_shift ^^ 8) ?x = (crc_shift ^^ 8) (?x AND m) XOR drop_bit 8 crc"
    by (subst split) (simp add: crc32_reg.shn_xor)
  then show ?thesis
    by (simp add: DO1_def crc_table_nth [OF unat_and_ff] m_def)
qed

lemma crc_tail_foldl: "crc_tail crc buf = foldl DO1 crc buf"
  by (induction crc buf rule: crc_tail.induct) simp_all

lemma DO8_foldl:
  assumes "length b = 8"
  shows "DO8 crc (b @ buf) = foldl DO1 crc b"
proof -
  obtain b0 b1 b2 b3 b4 b5 b6 b7 where "b = [b0, b1, b2, b3, b4, b5, b6, b7]"
    using assms by (auto simp: numeral_eq_Suc length_Suc_conv)
  then show ?thesis by (simp add: DO8_def)
qed

lemma crc_loop_foldl: "crc_loop crc buf = foldl DO1 crc buf"
proof -
  have "0 < (8 :: nat)" by simp
  then show ?thesis
  proof (induction buf arbitrary: crc rule: block_induct)
    case (short xs)
    then show ?case by (subst crc_loop.simps) (simp add: crc_tail_foldl)
  next
    case (block b xs)
    then show ?case by (subst crc_loop.simps) (simp add: DO8_foldl)
  qed
qed

lemma crc_loop_append: "crc_loop crc (xs @ ys) = crc_loop (crc_loop crc xs) ys"
  by (simp add: crc_loop_foldl)

lemma crc32_Nil [simp]: "crc32 crc [] = crc"
  by (simp add: crc32_def crc_loop_foldl xor.assoc)

lemma crc32_append: "crc32 crc (xs @ ys) = crc32 (crc32 crc xs) ys"
  by (simp add: crc32_def crc_loop_append xor.assoc)

lemma serial_prefix:
  assumes "n \<le> 8"
  shows "(crc_shift ^^ n) (r XOR ucast b) =
    foldl serial_bit r (map (bit b) [0..<n]) XOR drop_bit n (ucast (b :: u8))"
  using assms
proof (induction n)
  case (Suc n)
  let ?r = "foldl serial_bit r (map (bit b) [0..<n])"
  from Suc have "(crc_shift ^^ Suc n) (r XOR ucast b) = crc_shift (?r XOR drop_bit n (ucast b))"
    by simp
  also have "\<dots> = serial_bit ?r (bit b n) XOR drop_bit (Suc n) (ucast b)"
    using Suc.prems
    by (auto simp: crc_shift_alt serial_bit_def bit_xor_iff bit_drop_bit_eq bit_ucast_iff
        drop_bit_xor xor.assoc)
  finally show ?case by simp
qed simp

lemma DO1_serial: "DO1 r b = foldl serial_bit r (map (bit b) [0..<8])"
proof -
  have "drop_bit 8 (ucast b :: u32) = 0"
    by (rule bit_word_eqI) (auto simp: bit_drop_bit_eq bit_ucast_iff dest: bit_u8_bound)
  then show ?thesis
    using serial_prefix [of 8 r b] by (simp add: DO1_shift)
qed

lemma foldl_DO1_serial: "foldl DO1 r buf = foldl serial_bit r (message_bits buf)"
  by (induction buf arbitrary: r) (simp_all add: DO1_serial message_bits_def)

lemma crc32_serial:
  "crc32 crc buf = NOT (foldl serial_bit (NOT crc) (message_bits buf))"
proof -
  have ones: "(0xffffffff :: u32) = - 1"
    by simp
  have "x XOR 0xffffffff = NOT x" for x :: u32
    unfolding ones by (rule bit_word_eqI) (simp add: bit_xor_iff bit_not_iff)
  then show ?thesis
    by (simp add: crc32_def crc_loop_foldl foldl_DO1_serial)
qed

section \<open>Error detection\<close>

lemma bit_le_word_bound: "bit (le_word bs) i \<Longrightarrow> i < 8 * length bs"
proof (induction bs arbitrary: i)
  case (Cons b bs)
  show ?case
    using Cons.prems Cons.IH [of "i - 8"]
    by (cases "i < 8") (auto simp: bit_xor_iff bit_push_bit_iff bit_ucast_iff dest: bit_u8_bound)
qed simp

lemma feed_le_word:
  assumes "length bs \<le> 4"
  shows "foldl DO1 r bs = (crc_shift ^^ (8 * length bs)) (r XOR le_word bs)"
  using assms
proof (induction bs arbitrary: r)
  case (Cons b bs)
  have "(crc_shift ^^ 8) (push_bit 8 (le_word bs)) = drop_bit 8 (push_bit 8 (le_word bs))"
    by (rule crc_shift_low_zero) (simp add: bit_push_bit_iff)
  also have "\<dots> = le_word bs"
    using Cons.prems
    by (intro bit_word_eqI)
      (auto simp: bit_drop_bit_eq bit_push_bit_iff dest: bit_le_word_bound)
  finally have low: "(crc_shift ^^ 8) (push_bit 8 (le_word bs)) = le_word bs" .
  have "foldl DO1 r (b # bs) = (crc_shift ^^ (8 * length bs)) (DO1 r b XOR le_word bs)"
    using Cons by simp
  also have "DO1 r b XOR le_word bs = (crc_shift ^^ 8) (r XOR le_word (b # bs))"
    by (simp add: DO1_shift low crc32_reg.shn_xor xor.assoc)
  finally show ?case
    by (simp add: funpow_add [symmetric, THEN fun_cong, unfolded comp_def] add.commute)
qed simp

lemma le_word_inj:
  assumes "length xs = length ys" and "length xs \<le> 4" and "le_word xs = le_word ys"
  shows "xs = ys"
  using assms
proof (induction xs ys rule: list_induct2)
  case (Cons x xs y ys)
  have low: "ucast (le_word (b # bs)) = b" for b bs
    by (rule bit_word_eqI) (simp add: bit_ucast_iff bit_xor_iff bit_push_bit_iff)
  have high: "drop_bit 8 (le_word (b # bs)) = le_word bs" if "length bs \<le> 3" for b bs
    using that
    by (intro bit_word_eqI)
      (auto simp: bit_drop_bit_eq bit_xor_iff bit_push_bit_iff bit_ucast_iff
        dest: bit_u8_bound bit_le_word_bound)
  have len: "length xs \<le> 3" "length ys \<le> 3"
    using Cons.hyps Cons.prems(1) by simp_all
  have "x = y"
    using Cons.prems(2) low [of x xs] low [of y ys] by argo
  moreover have "le_word xs = le_word ys"
    using Cons.prems(2) high [OF len(1), of x] high [OF len(2), of y] by argo
  ultimately show ?case
    using Cons.IH len by simp
qed simp

lemma crc32_fields: "crc32 crc buf = foldl DO1 (crc XOR 0xffffffff) buf XOR 0xffffffff"
  by (simp add: crc32_def crc_loop_foldl)

lemma xor_right_cancel: "(a :: 'a::len word) XOR c = b XOR c \<longleftrightarrow> a = b"
  by (metis xor.assoc xor_self_eq xor.right_neutral)

lemma xor_left_cancel: "c XOR (a :: 'a::len word) = c XOR b \<longleftrightarrow> a = b"
  by (metis xor.commute xor_right_cancel)

lemma crc32_burst:
  assumes "length xs = length ys" and "length xs \<le> 4"
  shows "crc32 crc (pre @ xs @ post) = crc32 crc (pre @ ys @ post) \<longleftrightarrow> xs = ys"
proof -
  have "DO1 = (\<lambda>r x. (crc_shift ^^ 8) (r XOR ucast x))"
    by (intro ext) (rule DO1_shift)
  then have post: "foldl DO1 a post = foldl DO1 b post \<longleftrightarrow> a = b" for a b
    using crc32_reg.feed_inj [where n = 8 and f = ucast and xs = post] by simp
  have "foldl DO1 r xs = foldl DO1 r ys \<longleftrightarrow> xs = ys" for r
    using assms le_word_inj [OF assms]
    by (auto simp: feed_le_word crc32_reg.shn_inj xor_left_cancel)
  then show ?thesis
    by (simp add: crc32_fields post xor_right_cancel)
qed

section \<open>The chunk loop\<close>

text \<open>The register represents the message it was fed, from the initial value \<open>c\<close>.\<close>

interpretation crc32_stream: incremental "\<lambda>r m. r = crc32 c m" crc32 "\<lambda>_. True" for c
  by unfold_locales (simp_all add: crc32_append)

lemma crc32_wd_chunks:
  assumes "length buf < 2 ^ 32" and "chunk_sz \<noteq> 0"
  shows "wd_loop crc32 crc buf chunk_sz = Some (crc32 crc buf)"
  using crc32_stream.wd_loop_rep [of crc crc "[]" buf chunk_sz] assms by simp

section \<open>CRC-16 against its bit-serial register\<close>

lemma crc16_shift_xor: "crc16_shift (a XOR b) = crc16_shift a XOR crc16_shift b"
  by (simp add: crc16_shift_def bit_xor_iff push_bit_xor ac_simps)

lemma crc16_shift_kernel:
  assumes "crc16_shift a = 0"
  shows "a = 0"
proof -
  have "\<not> bit (push_bit 1 a) 0"
    unfolding bit_push_bit_iff by simp
  then have "bit (crc16_shift a) 0 \<longleftrightarrow> bit a 15"
    by (simp only: crc16_shift_def bit_xor_iff split: if_split) simp
  with assms have b15: "\<not> bit a 15" by simp
  with assms have "push_bit 1 a = 0" by (simp add: crc16_shift_def)
  then have *: "\<not> bit (push_bit 1 a) n" for n by simp
  show ?thesis
  proof (rule bit_word_eqI)
    fix n assume "n < LENGTH(16)"
    then show "bit a n = bit 0 n"
      using * [of "Suc n", unfolded bit_push_bit_iff] b15 by (cases "n = 15") auto
  qed
qed

interpretation crc16_reg: linear_register crc16_shift
  by unfold_locales (auto simp: crc16_shift_xor crc16_shift_kernel)

lemma crc16_entry_powers:
  "crc16_entry 0 = 0" "crc16_entry 1 = 0x1021" "crc16_entry 2 = 0x2042" "crc16_entry 4 = 0x4084"
  "crc16_entry 8 = 0x8108" "crc16_entry 16 = 0x1231" "crc16_entry 32 = 0x2462"
  "crc16_entry 64 = 0x48c4" "crc16_entry 128 = 0x9188"
  by (simp_all add: crc16_entry_def funpow_8 crc16_shift_def)

lemma crc16_tab_generated: "crc16_tab = map (\<lambda>n. crc16_entry (of_nat n)) [0..<256]"
proof -
  have "map (\<lambda>n. crc16_entry (of_nat n)) [0..<256] =
      fold (\<lambda>j. xor_double (crc16_entry (2 ^ j))) [0..<8] [crc16_entry 0]"
    using linear_table [where f = crc16_entry and k = 8]
    by (simp add: crc16_entry_def push_bit_xor crc16_reg.shn_xor)
  also have "\<dots> = crc16_tab"
    unfolding upt_8 by (simp add: crc16_tab_def crc16_entry_powers xor_double_def)
  finally show ?thesis by simp
qed

lemma crc16_prefix:
  assumes "n \<le> 8"
  shows "(crc16_shift ^^ n) (r XOR push_bit 8 (ucast b)) =
    foldl serial16_bit r (map (\<lambda>i. bit b (7 - i)) [0..<n]) XOR push_bit (8 + n) (ucast (b :: u8))"
  using assms
proof (induction n)
  case (Suc n)
  let ?r = "foldl serial16_bit r (map (\<lambda>i. bit b (7 - i)) [0..<n])"
  from Suc have "(crc16_shift ^^ Suc n) (r XOR push_bit 8 (ucast b)) =
      crc16_shift (?r XOR push_bit (8 + n) (ucast b))"
    by simp
  also have "\<dots> = serial16_bit ?r (bit b (7 - n)) XOR push_bit (8 + Suc n) (ucast b)"
    using Suc.prems
    by (auto simp: crc16_shift_def serial16_bit_def bit_xor_iff bit_push_bit_iff bit_ucast_iff
        push_bit_xor xor.assoc xor.commute xor.left_commute)
  finally show ?case by simp
qed simp

lemma crc16_shift_high_zero:
  assumes "\<And>i. 16 - k \<le> i \<Longrightarrow> \<not> bit c i" and "k \<le> 16"
  shows "(crc16_shift ^^ k) c = push_bit k c"
  using assms
proof (induction k)
  case (Suc k)
  have "(crc16_shift ^^ k) c = push_bit k c"
    using Suc.prems by (intro Suc.IH) (metis Suc_leD diff_le_mono2 le_SucI order_refl order_trans)+
  moreover have "\<not> bit (push_bit k c) 15"
    using Suc.prems by (auto simp: bit_push_bit_iff)
  ultimately have "(crc16_shift ^^ Suc k) c = push_bit 1 (push_bit k c)"
    by (simp add: crc16_shift_def [of "push_bit k c"])
  also have "\<dots> = push_bit (Suc k) c"
    by (simp only: push_bit_push_bit plus_1_eq_Suc)
  finally show ?case .
qed simp

lemma bit_0xff_u16: "bit (0xff :: u16) i \<longleftrightarrow> i < 8"
proof -
  have ff: "(0xff :: u16) = mask 8"
    by (simp add: mask_eq_exp_minus_1)
  show ?thesis unfolding ff bit_mask_iff by auto
qed

lemma crc16_step_shift: "crc16_step r b = (crc16_shift ^^ 8) (r XOR push_bit 8 (ucast b))"
proof -
  define m :: u16 where "m = 0xff"
  have bit_m: "bit m i \<longleftrightarrow> i < 8" for i
    by (simp only: m_def bit_0xff_u16)
  let ?x = "(drop_bit 8 r XOR ucast b) AND m"
  have tab: "crc16_tab ! unat ?x = crc16_entry ?x"
    using unat_and_ff [of "drop_bit 8 r XOR ucast b"] by (simp add: crc16_tab_generated m_def)
  have split: "r XOR push_bit 8 (ucast b) = push_bit 8 ?x XOR (r AND m)"
    by (rule bit_word_eqI)
      (auto simp: bit_push_bit_iff bit_and_iff bit_xor_iff bit_drop_bit_eq bit_ucast_iff bit_m)
  have "(crc16_shift ^^ 8) (r AND m) = push_bit 8 (r AND m)"
    by (rule crc16_shift_high_zero) (auto simp: bit_and_iff bit_m)
  also have "\<dots> = push_bit 8 r"
    by (rule bit_word_eqI) (auto simp: bit_push_bit_iff bit_and_iff bit_m)
  finally have "(crc16_shift ^^ 8) (r XOR push_bit 8 (ucast b)) = crc16_entry ?x XOR push_bit 8 r"
    by (simp add: split crc16_reg.shn_xor crc16_entry_def)
  then show ?thesis
    by (simp add: crc16_step_def tab m_def [symmetric])
qed

lemma crc16_step_serial:
  "crc16_step r b = foldl serial16_bit r (map (\<lambda>i. bit b (7 - i)) [0..<8])"
proof -
  have "push_bit 16 (ucast b :: u16) = 0"
    by (rule bit_word_eqI) (simp add: bit_push_bit_iff)
  then show ?thesis
    using crc16_prefix [of 8 r b] by (simp add: crc16_step_shift)
qed

lemma foldl_crc16_serial: "foldl crc16_step r buf = foldl serial16_bit r (message_bits_msb buf)"
  by (induction buf arbitrary: r) (simp_all add: crc16_step_serial message_bits_msb_def)

section \<open>Properties\<close>

text \<open>
  C26: for every initial value and every buffer, \<open>crc32\<close> (the unrolled table-driven loop with the
  complements at both ends) computes what the bit-serial division register for the polynomial
  0xedb88320 computes.
\<close>

theorem crc32_is_bit_serial:
  "crc32 crc buf = NOT (foldl serial_bit (NOT crc) (message_bits buf))"
  by (rule crc32_serial)

text \<open>
  The literal table compiled into the monitor is exactly the table that \<open>make_crc_table\<close>
  generates from the terms of the polynomial.
\<close>

lemma crc_table_is_generated: "crc_table = make_crc_table"
  by (rule crc_table_generated)

text \<open>
  C27: a change confined to at most four consecutive bytes is always detected: two buffers that
  agree outside such a window have the same \<open>crc32\<close> only if they agree inside it.
\<close>

theorem crc32_detects_burst:
  assumes "length xs = length ys" and "length xs \<le> 4"
  shows "crc32 crc (pre @ xs @ post) = crc32 crc (pre @ ys @ post) \<longleftrightarrow> xs = ys"
  using assms by (rule crc32_burst)

theorem crc32_detects_burst_witness:
  "crc32 0 ([1] @ [2, 3] @ [4]) = crc32 0 ([1] @ [2, 7] @ [4]) \<longleftrightarrow> [2, 3] = [2, 7 :: u8]"
  by (rule crc32_detects_burst) simp_all

text \<open>
  C36: with a watchdog, feeding the buffer in chunks of any nonzero size ends and returns the
  checksum of the whole buffer; without one, so does the single call.
\<close>

theorem crc32_wd_correct:
  assumes "length buf < 2 ^ 32" and "chunk_sz \<noteq> 0"
  shows "crc32_wd has_watchdog crc buf chunk_sz = Some (crc32 crc buf)"
  using assms by (simp add: crc32_wd_def crc32_wd_chunks)

theorem crc32_wd_correct_witness:
  "crc32_wd True 0 [1, 2, 3, 4, 5] 2 = Some (crc32 0 [1, 2, 3, 4, 5])"
  by (rule crc32_wd_correct) simp_all

text \<open>
  \<open>cyg_crc16\<close> computes what the bit-serial register for x^16+x^12+x^5+1, most significant
  bit first, computes.
\<close>

lemma cyg_crc16_is_bit_serial:
  "cyg_crc16 buf = foldl serial16_bit 0 (message_bits_msb buf)"
  by (simp add: cyg_crc16_def foldl_crc16_serial)

end
