(* ===== verification/Block_Hash.thy ===== *)
theory Block_Hash
  imports Chunked
begin

text \<open>
  What the three digests of the monitor (\<^verbatim>\<open>md5.c\<close>, \<^verbatim>\<open>sha1.c\<close>, \<^verbatim>\<open>sha256.c\<close>) share: a 64-byte block
  buffer in front of a compression function, a 64-bit message counter kept in two 32-bit words, and
  the final padding to a whole number of blocks. This theory holds the abstract specification of a
  padded message, the list facts behind the buffering code, the counter arithmetic, and the locale
  of a digest: an incremental update with a final step whose result depends on the message only.
\<close>

section \<open>Specification of the padding\<close>

text \<open>
  A one bit, the least number of zero bits that leaves eight bytes of the last block, and the
  eight bytes \<open>lenf\<close> makes of the message length.
\<close>

definition pad_zeros :: "nat \<Rightarrow> nat" where
  "pad_zeros n = (119 - n mod 64) mod 64"

definition md_pad :: "(nat \<Rightarrow> u8 list) \<Rightarrow> u8 list \<Rightarrow> u8 list" where
  "md_pad lenf m = m @ 0x80 # replicate (pad_zeros (length m)) 0 @ lenf (length m)"

text \<open>The bit length as a 64-bit big-endian number.\<close>

definition be_bitlen :: "nat \<Rightarrow> u8 list" where
  "be_bitlen n = bytes_be32 (of_nat (8 * n div 2 ^ 32)) @ bytes_be32 (of_nat (8 * n))"

text \<open>
  The state of a block-buffered digest after the message \<open>m\<close>: the full blocks are compressed, the
  rest is at the front of the 64-byte buffer, whose other bytes are arbitrary.
\<close>

definition buf_rep ::
  "('h \<Rightarrow> u8 list \<Rightarrow> 'h) \<Rightarrow> 'h \<Rightarrow> 'h \<Rightarrow> u8 list \<Rightarrow> u8 list \<Rightarrow> bool" where
  "buf_rep compress h0 h buf m \<longleftrightarrow>
     h = foldl compress h0 (blocks 64 m) \<and> length buf = 64 \<and>
     take (length m mod 64) buf = leftover 64 m"

text \<open>The buffering discipline of \<open>sha1_update\<close> and \<open>sha256_update\<close> on state and buffer.\<close>

definition absorb ::
  "('h \<Rightarrow> u8 list \<Rightarrow> 'h) \<Rightarrow> 'h \<Rightarrow> u8 list \<Rightarrow> nat \<Rightarrow> u8 list \<Rightarrow> 'h \<times> u8 list" where
  "absorb compress h buf left input =
     (let (h1, buf1, input1, left1) =
        (if left \<noteq> 0 \<and> 64 - left \<le> length input then
           let b = take left buf @ take (64 - left) input @ drop 64 buf
           in (compress h b, b, drop (64 - left) input, 0)
         else (h, buf, input, left));
        rest = leftover 64 input1
      in (foldl compress h1 (blocks 64 input1),
          if rest \<noteq> [] then take left1 buf1 @ rest @ drop (left1 + length rest) buf1 else buf1))"

lemma length_be_bitlen [simp]: "length (be_bitlen n) = 8"
  by (simp add: be_bitlen_def)

lemma pad_zeros_less: "pad_zeros n < 64"
  by (simp add: pad_zeros_def)

lemma pad_zeros_cases:
  "pad_zeros n = (if n mod 64 < 56 then 55 - n mod 64 else 119 - n mod 64)"
proof -
  have "n mod 64 < 64" by simp
  show ?thesis
  proof (cases "n mod 64 < 56")
    case True
    then have "119 - n mod 64 = 64 + (55 - n mod 64)" by simp
    then show ?thesis
      using True unfolding pad_zeros_def by (simp only: mod_add_self1) simp
  next
    case False
    with \<open>n mod 64 < 64\<close> show ?thesis
      unfolding pad_zeros_def by simp
  qed
qed

section \<open>Buffering\<close>

text \<open>Completing the buffered block, and leaving it incomplete.\<close>

lemma blocks_fill:
  assumes "length (leftover 64 m) + length a = 64"
  shows "blocks 64 (m @ a @ b) = blocks 64 m @ (leftover 64 m @ a) # blocks 64 b"
    and "leftover 64 (m @ a @ b) = leftover 64 b"
proof -
  have "blocks 64 (leftover 64 m @ a @ b) = (leftover 64 m @ a) # blocks 64 b"
    using assms by (subst append_assoc [symmetric], subst blocks_append_block) simp_all
  then show "blocks 64 (m @ a @ b) = blocks 64 m @ (leftover 64 m @ a) # blocks 64 b"
    by (subst blocks_append_leftover) simp_all
  have "leftover 64 (leftover 64 m @ a @ b) = leftover 64 b"
    using assms by (subst append_assoc [symmetric], subst leftover_append_block) simp_all
  then show "leftover 64 (m @ a @ b) = leftover 64 b"
    by (subst leftover_append) simp_all
qed

lemma blocks_short_append:
  assumes "length m mod 64 + length a < 64"
  shows "blocks 64 (m @ a) = blocks 64 m" and "leftover 64 (m @ a) = leftover 64 m @ a"
  using assms
  by (subst blocks_append_leftover, simp_all add: length_leftover)
     (subst leftover_append, simp_all add: length_leftover)

lemma blocks_aligned:
  assumes "length m mod 64 = 0"
  shows "blocks 64 (m @ a) = blocks 64 m @ blocks 64 a" and "leftover 64 (m @ a) = leftover 64 a"
proof -
  have "leftover 64 m = []"
    using assms by (metis length_0_conv length_leftover)
  then show "blocks 64 (m @ a) = blocks 64 m @ blocks 64 a"
    and "leftover 64 (m @ a) = leftover 64 a"
    by (subst blocks_append_leftover, simp_all) (subst leftover_append, simp_all)
qed

lemma buf_rep_fill:
  assumes "buf_rep compress h0 h buf m" and "length m mod 64 + length a = 64"
  shows "buf_rep compress h0 (compress h (take (length m mod 64) buf @ a @ drop 64 buf))
    (take (length m mod 64) buf @ a @ drop 64 buf) (m @ a)"
proof -
  have len: "length (leftover 64 m) + length a = 64"
    using assms(2) by (simp add: length_leftover)
  have "(length m + length a) mod 64 = 0"
    using assms(2) by (metis mod_add_left_eq mod_self)
  then show ?thesis
    using assms len blocks_fill(1) [OF len, of "[]"] blocks_fill(2) [OF len, of "[]"]
    by (simp add: buf_rep_def)
qed

lemma buf_rep_blocks:
  assumes "buf_rep compress h0 h buf m" and "length m mod 64 = 0" and "length x mod 64 = 0"
  shows "buf_rep compress h0 (foldl compress h (blocks 64 x)) buf (m @ x)"
proof -
  have "leftover 64 x = []"
    using assms(3) by (metis length_0_conv length_leftover)
  moreover have "(length m + length x) mod 64 = 0"
    using assms(2,3) by (simp add: mod_add_eq [symmetric, of "length m"])
  ultimately show ?thesis
    using assms by (simp add: buf_rep_def blocks_aligned)
qed

lemma buf_rep_store:
  assumes "buf_rep compress h0 h buf m" and "length m mod 64 + length a < 64"
  shows "buf_rep compress h0 h
    (take (length m mod 64) buf @ a @ drop (length m mod 64 + length a) buf) (m @ a)"
proof -
  have "(length m + length a) mod 64 = length m mod 64 + length a"
    using assms(2) by (metis mod_add_left_eq mod_less)
  then show ?thesis
    using assms by (simp add: buf_rep_def blocks_short_append length_leftover)
qed

lemma buf_rep_tail:
  assumes "buf_rep compress h0 h buf m" and "length m mod 64 = 0"
  shows "buf_rep compress h0 (foldl compress h (blocks 64 x))
    (if leftover 64 x \<noteq> [] then leftover 64 x @ drop (length (leftover 64 x)) buf else buf) (m @ x)"
proof -
  let ?c = "concat (blocks 64 x)" and ?r = "leftover 64 x"
  have x: "?c @ ?r = x"
    by (rule blocks_leftover_concat) simp
  have "length x = length ?c + length ?r"
    by (metis x length_append)
  then have c: "length ?c = 64 * (length x div 64)"
    using mult_div_mod_eq [of 64 "length x"] length_leftover [of 64 x] by linarith
  have "blocks 64 (?c @ ?r) = blocks 64 ?c @ blocks 64 ?r"
    using c by (simp add: blocks_aligned)
  then have bc: "blocks 64 ?c = blocks 64 x"
    by (simp add: x leftover_less)
  have rep: "buf_rep compress h0 (foldl compress h (blocks 64 x)) buf (m @ ?c)"
    using buf_rep_blocks [OF assms, of ?c] c by (simp add: bc)
  have len: "length (m @ ?c) mod 64 = 0"
    using assms(2) c by simp
  have "length ?r < 64" by (simp add: leftover_less)
  with buf_rep_store [OF rep, of ?r] len
  have "buf_rep compress h0 (foldl compress h (blocks 64 x)) (?r @ drop (length ?r) buf) (m @ ?c @ ?r)"
    by simp
  moreover have "?c = x" if "?r = []"
    using x that by simp
  ultimately show ?thesis
    using rep by (cases "?r = []") (simp_all add: x)
qed

lemma absorb_rep:
  assumes "buf_rep compress h0 h buf m" and "absorb compress h buf (length m mod 64) input = (h', buf')"
  shows "buf_rep compress h0 h' buf' (m @ input)"
proof -
  let ?left = "length m mod 64"
  have left: "?left < 64" by simp
  consider (fill) "?left \<noteq> 0" "64 - ?left \<le> length input" | (aligned) "?left = 0"
    | (short) "?left \<noteq> 0" "length input < 64 - ?left"
    by linarith
  then show ?thesis
  proof cases
    case fill
    let ?a = "take (64 - ?left) input" and ?x = "drop (64 - ?left) input"
    let ?b = "take ?left buf @ ?a @ drop 64 buf"
    have "?left + length ?a = 64" using fill left by simp
    note rep = buf_rep_fill [OF assms(1) this]
    have "length (m @ ?a) mod 64 = 0"
      using \<open>?left + length ?a = 64\<close> by (metis length_append mod_add_left_eq mod_self)
    from buf_rep_tail [OF rep this, of ?x] show ?thesis
      using assms(2) fill by (auto simp: absorb_def Let_def split: if_splits)
  next
    case aligned
    from buf_rep_tail [OF assms(1) this, of input] show ?thesis
      using assms(2) aligned by (auto simp: absorb_def Let_def split: if_splits)
  next
    case short
    then have "?left + length input < 64" by simp
    from buf_rep_store [OF assms(1) this] show ?thesis
      using assms short by (auto simp: absorb_def Let_def split: if_splits)
  qed
qed

section \<open>Counters\<close>

lemma and_3f_mod: "unat ((of_nat n :: u32) AND 0x3f) = n mod 64"
proof -
  have "(0x3f :: u32) = mask 6"
    by (simp add: mask_eq_exp_minus_1)
  then have "(of_nat n :: u32) AND 0x3f = take_bit 6 (of_nat n)"
    by (simp only: take_bit_eq_mask)
  also have "\<dots> = of_nat (take_bit 6 n)"
    by (simp add: take_bit_of_nat)
  finally show ?thesis
    by (simp add: unat_of_nat take_bit_eq_mod mod_mod_cancel)
qed

lemma add_wrap:
  assumes "x < d" and "k < (d :: nat)"
  shows "(x + k) mod d < k \<longleftrightarrow> d \<le> x + k" and "(x + k) div d = (if d \<le> x + k then 1 else 0)"
proof -
  have "(x + k) mod d = x + k - d \<and> (x + k) div d = 1" if "d \<le> x + k"
  proof -
    from that obtain r where r: "x + k = d + r" by (metis le_iff_add)
    with assms have "r < d" by simp
    with r show ?thesis by (simp add: div_add_self1)
  qed
  moreover have "(x + k) mod d = x + k \<and> (x + k) div d = 0" if "\<not> d \<le> x + k"
    using that by simp
  ultimately show "(x + k) mod d < k \<longleftrightarrow> d \<le> x + k"
    and "(x + k) div d = (if d \<le> x + k then 1 else 0)"
    using assms by (cases "d \<le> x + k"; force)+
qed

text \<open>
  Adding \<open>k\<close> to a counter whose low word holds \<open>n\<close>: the low word wrapped exactly when it is
  smaller than what was added.
\<close>

lemma counter_carry:
  assumes "k < 2 ^ 32"
  shows "of_nat ((n + k) div 2 ^ 32) =
    (of_nat (n div 2 ^ 32) :: u32) + (if (of_nat (n + k) :: u32) < of_nat k then 1 else 0)"
proof -
  define d :: nat where "d = 2 ^ 32"
  have k: "k < d" and x: "n mod d < d"
    using assms by (simp_all add: d_def)
  have "(of_nat (n + k) :: u32) < of_nat k \<longleftrightarrow> (n + k) mod d < k mod d"
    unfolding word_less_nat_alt unat_of_nat d_def by simp
  also have "\<dots> \<longleftrightarrow> (n mod d + k) mod d < k"
    using k by (simp add: mod_add_left_eq)
  also have "\<dots> \<longleftrightarrow> d \<le> n mod d + k"
    using x k by (rule add_wrap)
  finally have wrap: "(of_nat (n + k) :: u32) < of_nat k \<longleftrightarrow> d \<le> n mod d + k" .
  have "(n + k) div d = n div d + (n mod d + k) div d"
    using div_add1_eq [of n k d] k by simp
  also have "\<dots> = n div d + (if d \<le> n mod d + k then 1 else 0)"
    using add_wrap(2) [OF x k] by simp
  finally show ?thesis
    unfolding wrap d_def [symmetric] by simp
qed

lemma bitlen_high:
  "drop_bit 29 (of_nat n :: u32) OR push_bit 3 (of_nat (n div 2 ^ 32)) = of_nat (8 * n div 2 ^ 32)"
proof (rule bit_word_eqI)
  fix i assume i: "i < LENGTH(32)"
  have "8 * n div 2 ^ 32 = drop_bit 29 n"
    by (simp add: drop_bit_eq_div div_mult2_eq)
  moreover have "n div 2 ^ 32 = drop_bit 32 n"
    by (simp add: drop_bit_eq_div)
  ultimately show "bit (drop_bit 29 (of_nat n :: u32) OR push_bit 3 (of_nat (n div 2 ^ 32))) i =
      bit (of_nat (8 * n div 2 ^ 32) :: u32) i"
    using i by (auto simp: bit_or_iff bit_drop_bit_eq bit_push_bit_iff bit_of_nat_iff)
qed

lemma bitlen_low: "push_bit 3 (of_nat n :: u32) = of_nat (8 * n)"
  by (simp add: push_bit_eq_mult)

section \<open>The contract of a digest\<close>

locale digest = incremental rep upd ok_len
  for rep :: "'s \<Rightarrow> u8 list \<Rightarrow> bool" and upd and ok_len +
  fixes fresh :: "'s \<Rightarrow> bool"
    and fin :: "'s \<Rightarrow> u8 list"
    and H :: "u8 list \<Rightarrow> u8 list"
  assumes rep_fresh: "fresh s \<Longrightarrow> rep s []"
    and rep_fin: "rep s m \<Longrightarrow> fin s = H m"
begin

lemma one_shot: "fresh s \<Longrightarrow> ok_len (length m) \<Longrightarrow> fin (upd s m) = H m"
  using rep_upd [OF rep_fresh] rep_fin by fastforce

lemma two_updates:
  "fresh s \<Longrightarrow> ok_len (length a) \<Longrightarrow> ok_len (length b) \<Longrightarrow> fin (upd (upd s a) b) = H (a @ b)"
  using rep_upd [OF rep_fresh] rep_upd rep_fin by (metis append_Nil)

lemma chunked:
  assumes "fresh s" and "ok_len (length m)" and "length m < 2 ^ 32" and "chunk_sz \<noteq> 0"
  shows "map_option fin (wd_loop upd s m chunk_sz) = Some (H m)"
  using wd_loop_rep [OF rep_fresh [OF assms(1)] assms(2-4)] rep_fin by auto

end

end
