(* ===== verification/Lib_Sha1.thy ===== *)
theory Lib_Sha1
  imports Block_Hash
begin

text \<open>
  SHA-1 and HMAC-SHA-1 of \<^verbatim>\<open>lib_generic/sha1.c\<close>, which \<^verbatim>\<open>bootm\<close> uses for the hashes of FIT images.
  The context is a record of its two counter words, five state words and 64-byte buffer; the
  unrolled compression function with its rotating variable roles and its 16-word circular schedule
  is kept as the code has it. The digest is proved equal to a direct transcription of the FIPS 180
  definition for every message, however it is split over the update calls.
\<close>

section \<open>The code\<close>

record sha1_context =
  sha1_total0 :: u32
  sha1_total1 :: u32
  sha1_state :: "u32 list"
  sha1_buffer :: "u8 list"

definition GET_UINT32_BE :: "u8 list \<Rightarrow> nat \<Rightarrow> u32" where
  "GET_UINT32_BE b i = be32 (b ! i) (b ! (i + 1)) (b ! (i + 2)) (b ! (i + 3))"

definition PUT_UINT32_BE :: "u32 \<Rightarrow> u8 list" where
  "PUT_UINT32_BE n = bytes_be32 n"

definition sha1_starts :: "sha1_context \<Rightarrow> sha1_context" where
  "sha1_starts ctx = ctx\<lparr>sha1_total0 := 0, sha1_total1 := 0,
     sha1_state := [0x67452301, 0xEFCDAB89, 0x98BADCFE, 0x10325476, 0xC3D2E1F0]\<rparr>"

text \<open>The macros \<open>S\<close>, \<open>F\<close> and \<open>K\<close>: \<open>F\<close> and \<open>K\<close> are redefined every twenty rounds.\<close>

definition sha1_S :: "u32 \<Rightarrow> nat \<Rightarrow> u32" where
  "sha1_S x n = push_bit n x OR drop_bit (32 - n) (x AND 0xFFFFFFFF)"

definition sha1_F :: "nat \<Rightarrow> u32 \<Rightarrow> u32 \<Rightarrow> u32 \<Rightarrow> u32" where
  "sha1_F t x y z =
     (if t < 20 then z XOR (x AND (y XOR z))
      else if t < 40 then x XOR y XOR z
      else if t < 60 then (x AND y) OR (z AND (x OR y))
      else x XOR y XOR z)"

definition sha1_K :: "nat \<Rightarrow> u32" where
  "sha1_K t =
     (if t < 20 then 0x5A827999 else if t < 40 then 0x6ED9EBA1
      else if t < 60 then 0x8F1BBCDC else 0xCA62C1D6)"

text \<open>\<open>R(t)\<close>: the next schedule word, stored over the one that is sixteen rounds old.\<close>

definition sha1_R :: "nat \<Rightarrow> u32 list \<Rightarrow> u32 list" where
  "sha1_R t W =
     (let temp = W ! ((t - 3) mod 16) XOR W ! ((t - 8) mod 16) XOR
                 W ! ((t - 14) mod 16) XOR W ! (t mod 16)
      in W[t mod 16 := sha1_S temp 1])"

text \<open>
  \<open>P(a,b,c,d,e,x)\<close> updates the variables in the roles \<open>e\<close> and \<open>b\<close>. The eighty calls pass
  the five variables in five rotations, in turn.
\<close>

definition sha1_P ::
  "nat \<Rightarrow> nat \<times> nat \<times> nat \<times> nat \<times> nat \<Rightarrow> u32 \<Rightarrow> u32 list \<Rightarrow> u32 list" where
  "sha1_P t roles x v =
     (case roles of (a, b, c, d, e) \<Rightarrow>
        let v' = v[e := v ! e + (sha1_S (v ! a) 5 + sha1_F t (v ! b) (v ! c) (v ! d) + sha1_K t + x)]
        in v'[b := sha1_S (v' ! b) 30])"

definition sha1_roles :: "(nat \<times> nat \<times> nat \<times> nat \<times> nat) list" where
  "sha1_roles =
     [(0, 1, 2, 3, 4), (4, 0, 1, 2, 3), (3, 4, 0, 1, 2), (2, 3, 4, 0, 1), (1, 2, 3, 4, 0)]"

definition sha1_round :: "nat \<Rightarrow> u32 list \<times> u32 list \<Rightarrow> u32 list \<times> u32 list" where
  "sha1_round t = (\<lambda>(v, W).
     let W' = (if t < 16 then W else sha1_R t W)
     in (sha1_P t (sha1_roles ! (t mod 5)) (W' ! (t mod 16)) v, W'))"

definition sha1_process :: "sha1_context \<Rightarrow> u8 list \<Rightarrow> sha1_context" where
  "sha1_process ctx data =
     (let W = map (\<lambda>i. GET_UINT32_BE data (4 * i)) [0..<16];
          v = fst (fold sha1_round [0..<80] (sha1_state ctx, W))
      in ctx\<lparr>sha1_state := map2 (+) (sha1_state ctx) v\<rparr>)"

text \<open>\<open>while (ilen >= 64)\<close>: the blocks that need no buffering; returns what is left of the input.\<close>

function sha1_update_blocks :: "sha1_context \<Rightarrow> u8 list \<Rightarrow> sha1_context \<times> u8 list" where
  "sha1_update_blocks ctx input =
     (if 64 \<le> length input then sha1_update_blocks (sha1_process ctx (take 64 input)) (drop 64 input)
      else (ctx, input))"
  by pat_completeness auto
termination
  by (relation "measure (\<lambda>(ctx, input). length input)") auto

declare sha1_update_blocks.simps [simp del]

definition sha1_update :: "sha1_context \<Rightarrow> u8 list \<Rightarrow> sha1_context" where
  "sha1_update ctx input =
     (if input = [] then ctx
      else
        let left = unat (sha1_total0 ctx AND 0x3F);
            fill = 64 - left;
            ctx1 = ctx\<lparr>sha1_total0 := (sha1_total0 ctx + of_nat (length input)) AND 0xFFFFFFFF\<rparr>;
            ctx2 = (if sha1_total0 ctx1 < of_nat (length input)
                    then ctx1\<lparr>sha1_total1 := sha1_total1 ctx1 + 1\<rparr> else ctx1);
            (ctx3, input3, left3) =
              (if left \<noteq> 0 \<and> fill \<le> length input then
                 let buf = take left (sha1_buffer ctx2) @ take fill input @ drop 64 (sha1_buffer ctx2)
                 in (sha1_process (ctx2\<lparr>sha1_buffer := buf\<rparr>) buf, drop fill input, 0)
               else (ctx2, input, left));
            (ctx4, input4) = sha1_update_blocks ctx3 input3
        in if 0 < length input4
           then ctx4\<lparr>sha1_buffer := take left3 (sha1_buffer ctx4) @ input4 @
                       drop (left3 + length input4) (sha1_buffer ctx4)\<rparr>
           else ctx4)"

definition sha1_padding :: "u8 list" where
  "sha1_padding = 0x80 # replicate 63 0"

definition sha1_finish :: "sha1_context \<Rightarrow> u8 list" where
  "sha1_finish ctx =
     (let high = drop_bit 29 (sha1_total0 ctx) OR push_bit 3 (sha1_total1 ctx);
          low = push_bit 3 (sha1_total0 ctx);
          msglen = PUT_UINT32_BE high @ PUT_UINT32_BE low;
          last = unat (sha1_total0 ctx AND 0x3F);
          padn = (if last < 56 then 56 - last else 120 - last);
          ctx1 = sha1_update ctx (take padn sha1_padding);
          ctx2 = sha1_update ctx1 msglen
      in concat (map PUT_UINT32_BE (sha1_state ctx2)))"

definition sha1_csum :: "sha1_context \<Rightarrow> u8 list \<Rightarrow> u8 list" where
  "sha1_csum ctx input = sha1_finish (sha1_update (sha1_starts ctx) input)"

definition sha1_csum_wd :: "bool \<Rightarrow> sha1_context \<Rightarrow> u8 list \<Rightarrow> u32 \<Rightarrow> u8 list option" where
  "sha1_csum_wd has_watchdog ctx input chunk_sz =
     (if has_watchdog
      then map_option sha1_finish (wd_loop sha1_update (sha1_starts ctx) input chunk_sz)
      else Some (sha1_finish (sha1_update (sha1_starts ctx) input)))"

text \<open>
  \<open>sha1_hmac\<close>: only the first 64 bytes of the key are mixed into the pads. The context, a
  stack variable that is used uninitialised by \<open>sha1_starts\<close>, is a parameter.
\<close>

definition sha1_key_pad :: "u8 \<Rightarrow> u8 list \<Rightarrow> u8 list" where
  "sha1_key_pad c key =
     fold (\<lambda>i k. if i \<ge> 64 then k else k[i := k ! i XOR key ! i]) [0..<length key] (replicate 64 c)"

definition sha1_hmac :: "sha1_context \<Rightarrow> u8 list \<Rightarrow> u8 list \<Rightarrow> u8 list" where
  "sha1_hmac ctx key input =
     (let k_ipad = sha1_key_pad 0x36 key;
          k_opad = sha1_key_pad 0x5C key;
          tmpbuf = sha1_finish (sha1_update (sha1_update (sha1_starts ctx) k_ipad) input)
      in sha1_finish (sha1_update (sha1_update (sha1_starts ctx) k_opad) tmpbuf))"

section \<open>The FIPS 180 definition\<close>

definition fips_f1 :: "nat \<Rightarrow> u32 \<Rightarrow> u32 \<Rightarrow> u32 \<Rightarrow> u32" where
  "fips_f1 t x y z =
     (if t \<le> 19 then (x AND y) XOR (NOT x AND z)
      else if t \<le> 39 then x XOR y XOR z
      else if t \<le> 59 then (x AND y) XOR (x AND z) XOR (y AND z)
      else x XOR y XOR z)"

definition fips_k1 :: "nat \<Rightarrow> u32" where
  "fips_k1 t =
     (if t \<le> 19 then 0x5a827999 else if t \<le> 39 then 0x6ed9eba1
      else if t \<le> 59 then 0x8f1bbcdc else 0xca62c1d6)"

fun fips_w1 :: "u32 list \<Rightarrow> nat \<Rightarrow> u32" where
  "fips_w1 M t =
     (if t < 16 then M ! t
      else word_rotl 1 (fips_w1 M (t - 3) XOR fips_w1 M (t - 8) XOR
                        fips_w1 M (t - 14) XOR fips_w1 M (t - 16)))"

declare fips_w1.simps [simp del]

definition fips_step1 ::
  "u32 list \<Rightarrow> nat \<Rightarrow> u32 \<times> u32 \<times> u32 \<times> u32 \<times> u32 \<Rightarrow> u32 \<times> u32 \<times> u32 \<times> u32 \<times> u32" where
  "fips_step1 M t = (\<lambda>(a, b, c, d, e).
     (word_rotl 5 a + fips_f1 t b c d + e + fips_k1 t + fips_w1 M t, a, word_rotl 30 b, c, d))"

definition fips_words :: "u8 list \<Rightarrow> u32 list" where
  "fips_words block = map (\<lambda>i. be32 (block ! (4 * i)) (block ! (4 * i + 1))
     (block ! (4 * i + 2)) (block ! (4 * i + 3))) [0..<16]"

definition fips_compress1 :: "u32 list \<Rightarrow> u8 list \<Rightarrow> u32 list" where
  "fips_compress1 h block =
     (case fold (fips_step1 (fips_words block)) [0..<80] (h ! 0, h ! 1, h ! 2, h ! 3, h ! 4) of
        (a, b, c, d, e) \<Rightarrow> [h ! 0 + a, h ! 1 + b, h ! 2 + c, h ! 3 + d, h ! 4 + e])"

definition fips_init1 :: "u32 list" where
  "fips_init1 = [0x67452301, 0xefcdab89, 0x98badcfe, 0x10325476, 0xc3d2e1f0]"

definition fips_sha1 :: "u8 list \<Rightarrow> u8 list" where
  "fips_sha1 m =
     concat (map bytes_be32 (foldl fips_compress1 fips_init1 (blocks 64 (md_pad be_bitlen m))))"

definition rfc_hmac_sha1 :: "u8 list \<Rightarrow> u8 list \<Rightarrow> u8 list" where
  "rfc_hmac_sha1 key m =
     (let k0 = (if 64 < length key then fips_sha1 key else key);
          k = k0 @ replicate (64 - length k0) 0
      in fips_sha1 (map (\<lambda>b. b XOR 0x5c) k @ fips_sha1 (map (\<lambda>b. b XOR 0x36) k @ m)))"

section \<open>Representation\<close>

text \<open>
  The circular schedule holds the last sixteen words of the FIPS schedule; a context represents a
  message; a context is fresh after \<open>sha1_starts\<close> on any uninitialised context, whose buffer has
  64 bytes, whatever they are.
\<close>

definition sha1_window :: "u32 list \<Rightarrow> nat \<Rightarrow> u32 list \<Rightarrow> bool" where
  "sha1_window M n W \<longleftrightarrow> length W = 16 \<and>
     (\<forall>k. k < max 16 n \<and> max 16 n \<le> k + 16 \<longrightarrow> W ! (k mod 16) = fips_w1 M k)"

definition sha1_rep :: "sha1_context \<Rightarrow> u8 list \<Rightarrow> bool" where
  "sha1_rep ctx m \<longleftrightarrow>
     sha1_total0 ctx = of_nat (length m) \<and> sha1_total1 ctx = of_nat (length m div 2 ^ 32) \<and>
     buf_rep fips_compress1 fips_init1 (sha1_state ctx) (sha1_buffer ctx) m"

definition sha1_fresh :: "sha1_context \<Rightarrow> bool" where
  "sha1_fresh ctx \<longleftrightarrow> sha1_starts ctx = ctx \<and> length (sha1_buffer ctx) = 64"

definition sha1_blank :: sha1_context where
  "sha1_blank = \<lparr>sha1_total0 = 0, sha1_total1 = 0, sha1_state = [], sha1_buffer = replicate 64 0\<rparr>"

section \<open>The compression function\<close>

lemma sha1_S_rotl: "n < 32 \<Longrightarrow> sha1_S x n = word_rotl n x"
  by (simp add: sha1_S_def rotl_shifts)

lemma choose_forms: "z XOR (x AND (y XOR z)) = (x AND y) XOR (NOT x AND (z :: 'a::len word))"
  by (rule bit_word_eqI) (auto simp: bit_simps)

lemma majority_forms:
  "(x AND y) OR (z AND (x OR y)) = (x AND y) XOR (x AND z) XOR (y AND (z :: 'a::len word))"
  by (rule bit_word_eqI) (auto simp: bit_simps)

lemma sha1_F_fips: "sha1_F t x y z = fips_f1 t x y z"
  by (auto simp: sha1_F_def fips_f1_def choose_forms majority_forms)

lemma sha1_K_fips: "sha1_K t = fips_k1 t"
  by (auto simp: sha1_K_def fips_k1_def)

text \<open>One call of \<open>P\<close> on variables rotated by \<open>t\<close> is one FIPS step on the unrotated ones.\<close>

lemma rotate_5:
  "rotate 0 [a, b, c, d, e] = [a, b, c, d, e]" "rotate 1 [a, b, c, d, e] = [b, c, d, e, a]"
  "rotate 2 [a, b, c, d, e] = [c, d, e, a, b]" "rotate 3 [a, b, c, d, e] = [d, e, a, b, c]"
  "rotate 4 [a, b, c, d, e] = [e, a, b, c, d]"
  by (simp_all add: numeral_eq_Suc)

lemma sha1_P_roles:
  "sha1_P t (sha1_roles ! 0) x [a, b, c, d, e] =
    [a, sha1_S b 30, c, d, e + (sha1_S a 5 + sha1_F t b c d + sha1_K t + x)]"
  "sha1_P t (sha1_roles ! 1) x [b, c, d, e, a] =
    [sha1_S b 30, c, d, e + (sha1_S a 5 + sha1_F t b c d + sha1_K t + x), a]"
  "sha1_P t (sha1_roles ! 2) x [c, d, e, a, b] =
    [c, d, e + (sha1_S a 5 + sha1_F t b c d + sha1_K t + x), a, sha1_S b 30]"
  "sha1_P t (sha1_roles ! 3) x [d, e, a, b, c] =
    [d, e + (sha1_S a 5 + sha1_F t b c d + sha1_K t + x), a, sha1_S b 30, c]"
  "sha1_P t (sha1_roles ! 4) x [e, a, b, c, d] =
    [e + (sha1_S a 5 + sha1_F t b c d + sha1_K t + x), a, sha1_S b 30, c, d]"
  by (simp_all add: sha1_P_def sha1_roles_def numeral_eq_Suc)

lemma sha1_P_rotate:
  assumes "x = fips_w1 M t"
  shows "sha1_P t (sha1_roles ! (t mod 5)) x (rotate t [a, b, c, d, e]) =
    (case fips_step1 M t (a, b, c, d, e) of (a', b', c', d', e') \<Rightarrow>
       rotate (Suc t) [a', b', c', d', e'])"
proof -
  have rot: "rotate n [p, q, r, s, u] = rotate (n mod 5) [p, q, r, s, u]" for n and p q r s u :: u32
    by (subst rotate_conv_mod) simp
  define e' where "e' = e + (sha1_S a 5 + sha1_F t b c d + sha1_K t + x)"
  have step: "fips_step1 M t (a, b, c, d, e) = (e', a, sha1_S b 30, c, d)"
    using assms by (simp add: fips_step1_def e'_def sha1_S_rotl sha1_F_fips sha1_K_fips ac_simps)
  consider "t mod 5 = 0" "Suc t mod 5 = 1" | "t mod 5 = 1" "Suc t mod 5 = 2"
    | "t mod 5 = 2" "Suc t mod 5 = 3" | "t mod 5 = 3" "Suc t mod 5 = 4"
    | "t mod 5 = 4" "Suc t mod 5 = 0"
    by (auto simp: mod_Suc split: if_splits) arith
  then show ?thesis
    by cases (simp_all only: rot [of t] rot [of "Suc t"] rotate_5 step sha1_P_roles
      e'_def [symmetric] prod.case)
qed

lemma sha1_window_init:
  assumes "length M = 16" and "n \<le> 16"
  shows "sha1_window M n M"
  using assms by (simp add: sha1_window_def fips_w1.simps)

lemma sha1_window_R:
  assumes "sha1_window M t W" and "16 \<le> t"
  shows "sha1_window M (Suc t) (sha1_R t W)" and "sha1_R t W ! (t mod 16) = fips_w1 M t"
proof -
  have len: "length W = 16" and win: "\<And>k. k < t \<Longrightarrow> t \<le> k + 16 \<Longrightarrow> W ! (k mod 16) = fips_w1 M k"
    using assms by (auto simp: sha1_window_def max_def)
  have "(t - 16) mod 16 = t mod 16"
    using assms(2) by (metis le_mod_geq)
  with win [of "t - 16"] assms(2) have old: "W ! (t mod 16) = fips_w1 M (t - 16)"
    by simp
  have R: "sha1_R t W = W[t mod 16 := fips_w1 M t]"
    using assms(2) win [of "t - 3"] win [of "t - 8"] win [of "t - 14"] old
    by (simp add: sha1_R_def sha1_S_rotl fips_w1.simps [of M t])
  then show "sha1_R t W ! (t mod 16) = fips_w1 M t"
    by (simp add: len)
  have "k mod 16 \<noteq> t mod 16" if "k < t" and "t < k + 16" for k
  proof
    assume "k mod 16 = t mod 16"
    then have "16 dvd t - k"
      using that(1) by (metis less_imp_le_nat mod_eq_dvd_iff_nat)
    moreover have "0 < t - k" and "t - k < 16" using that by simp_all
    ultimately show False by (metis nat_dvd_not_less)
  qed
  then show "sha1_window M (Suc t) (sha1_R t W)"
    unfolding sha1_window_def R using assms(2) win len
    by (fastforce simp: max_def nth_list_update less_Suc_eq)
qed

lemma sha1_rounds:
  assumes "length M = 16" and "n \<le> 80"
    and "fold (fips_step1 M) [0..<n] (h0, h1, h2, h3, h4) = (a, b, c, d, e)"
  shows "\<exists>W. fold sha1_round [0..<n] ([h0, h1, h2, h3, h4], M) = (rotate n [a, b, c, d, e], W) \<and>
    sha1_window M n W"
  using assms(2,3)
proof (induction n arbitrary: a b c d e)
  case 0
  then show ?case
    using assms(1) by (simp add: sha1_window_init)
next
  case (Suc n)
  obtain p q r s u where s: "fold (fips_step1 M) [0..<n] (h0, h1, h2, h3, h4) = (p, q, r, s, u)"
    by (metis prod_cases5)
  with Suc obtain W where
    W: "fold sha1_round [0..<n] ([h0, h1, h2, h3, h4], M) = (rotate n [p, q, r, s, u], W)"
    and win: "sha1_window M n W"
    by (metis Suc_leD)
  define W' where "W' = (if n < 16 then W else sha1_R n W)"
  have W': "sha1_window M (Suc n) W'" "W' ! (n mod 16) = fips_w1 M n"
    using win sha1_window_R [OF win]
    by (auto simp: W'_def sha1_window_def max_def split: if_splits)
  have step: "fips_step1 M n (p, q, r, s, u) = (a, b, c, d, e)"
    using Suc.prems s by simp
  have "fold sha1_round [0..<Suc n] ([h0, h1, h2, h3, h4], M) =
      (sha1_P n (sha1_roles ! (n mod 5)) (W' ! (n mod 16)) (rotate n [p, q, r, s, u]), W')"
    by (simp add: W sha1_round_def W'_def Let_def)
  also have "\<dots> = (rotate (Suc n) [a, b, c, d, e], W')"
    using sha1_P_rotate [OF W'(2), of p q r s u] by (simp add: step)
  finally show ?case using W'(1) by blast
qed

lemma length_fips_words [simp]: "length (fips_words block) = 16"
  by (simp add: fips_words_def)

lemma sha1_process_state:
  assumes "length (sha1_state ctx) = 5"
  shows "sha1_process ctx block = ctx\<lparr>sha1_state := fips_compress1 (sha1_state ctx) block\<rparr>"
proof -
  obtain h0 h1 h2 h3 h4 where h: "sha1_state ctx = [h0, h1, h2, h3, h4]"
    using assms by (auto simp: numeral_eq_Suc length_Suc_conv)
  have W: "map (\<lambda>i. GET_UINT32_BE block (4 * i)) [0..<16] = fips_words block"
    by (simp add: GET_UINT32_BE_def fips_words_def)
  obtain a b c d e where
    s: "fold (fips_step1 (fips_words block)) [0..<80] (h0, h1, h2, h3, h4) = (a, b, c, d, e)"
    by (metis prod_cases5)
  have "rotate 80 [a, b, c, d, e] = [a, b, c, d, e]"
    by (subst rotate_conv_mod) simp
  then have "fst (fold sha1_round [0..<80] ([h0, h1, h2, h3, h4], fips_words block)) = [a, b, c, d, e]"
    using sha1_rounds [OF length_fips_words order_refl s] by auto
  then show ?thesis
    unfolding sha1_process_def fips_compress1_def Let_def W h s by (simp add: s)
qed

lemma length_fips_compress1 [simp]: "length (fips_compress1 h block) = 5"
  by (simp add: fips_compress1_def split: prod.split)

section \<open>Streaming\<close>

lemma length_foldl_compress1 [simp]: "length h = 5 \<Longrightarrow> length (foldl fips_compress1 h bs) = 5"
  by (induction bs arbitrary: h) simp_all

lemma sha1_update_blocks_eq:
  assumes "length (sha1_state ctx) = 5"
  shows "sha1_update_blocks ctx input =
    (ctx\<lparr>sha1_state := foldl fips_compress1 (sha1_state ctx) (blocks 64 input)\<rparr>, leftover 64 input)"
proof -
  have "0 < (64 :: nat)" by simp
  then show ?thesis
    using assms
  proof (induction input arbitrary: ctx rule: block_induct)
    case (short xs)
    then show ?case by (subst sha1_update_blocks.simps) simp
  next
    case (block b xs)
    then show ?case by (subst sha1_update_blocks.simps) (simp add: sha1_process_state)
  qed
qed

text \<open>An update touches the counters, and state and buffer as \<open>absorb\<close> says.\<close>

lemma sha1_update_absorb:
  assumes "length (sha1_state ctx) = 5" and "input \<noteq> []"
    and "absorb fips_compress1 (sha1_state ctx) (sha1_buffer ctx)
      (unat (sha1_total0 ctx AND 0x3F)) input = (h, buf)"
  shows "sha1_update ctx input =
    ctx\<lparr>sha1_total0 := sha1_total0 ctx + of_nat (length input),
        sha1_total1 := sha1_total1 ctx +
          (if sha1_total0 ctx + of_nat (length input) < of_nat (length input) then 1 else 0),
        sha1_state := h, sha1_buffer := buf\<rparr>"
  using assms
  by (cases ctx)
    (auto simp: sha1_update_def absorb_def Let_def sha1_process_state sha1_update_blocks_eq
      split: if_splits)

lemma length_fips_init1 [simp]: "length fips_init1 = 5"
  by (simp add: fips_init1_def)

lemma sha1_rep_state_len: "sha1_rep ctx m \<Longrightarrow> length (sha1_state ctx) = 5"
  by (simp add: sha1_rep_def buf_rep_def)

lemma sha1_rep_update:
  assumes "sha1_rep ctx m" and "length input < 2 ^ 31"
  shows "sha1_rep (sha1_update ctx input) (m @ input)"
proof (cases "input = []")
  case True
  then show ?thesis using assms by (simp add: sha1_update_def)
next
  case False
  obtain h buf where a: "absorb fips_compress1 (sha1_state ctx) (sha1_buffer ctx)
      (unat (sha1_total0 ctx AND 0x3F)) input = (h, buf)"
    by fastforce
  have left: "unat (sha1_total0 ctx AND 0x3F) = length m mod 64"
    using assms(1) by (simp only: sha1_rep_def and_3f_mod)
  have "buf_rep fips_compress1 fips_init1 (sha1_state ctx) (sha1_buffer ctx) m"
    using assms(1) by (simp add: sha1_rep_def)
  then have rep: "buf_rep fips_compress1 fips_init1 h buf (m @ input)"
    using a unfolding left by (rule absorb_rep)
  have "length input < 2 ^ 32"
    using assms(2) by simp
  from counter_carry [OF this, of "length m"] rep show ?thesis
    using assms(1) sha1_update_absorb [OF sha1_rep_state_len [OF assms(1)] False a]
    by (simp add: sha1_rep_def)
qed

lemma sha1_rep_starts:
  assumes "length (sha1_buffer ctx) = 64"
  shows "sha1_rep (sha1_starts ctx) []"
  using assms by (simp add: sha1_rep_def sha1_starts_def buf_rep_def fips_init1_def)

lemma take_sha1_padding:
  "take (if n mod 64 < 56 then 56 - n mod 64 else 120 - n mod 64) sha1_padding =
    0x80 # replicate (pad_zeros n) 0"
proof -
  have "n mod 64 < 64" by simp
  then show ?thesis
    by (auto simp: sha1_padding_def pad_zeros_cases take_Cons' min_def)
qed

lemma PUT_UINT32_BE_eq: "PUT_UINT32_BE = bytes_be32"
  by (intro ext) (simp add: PUT_UINT32_BE_def)

lemma sha1_rep_finish:
  assumes "sha1_rep ctx m"
  shows "sha1_finish ctx = fips_sha1 m"
proof -
  have t0: "sha1_total0 ctx = of_nat (length m)" and t1: "sha1_total1 ctx = of_nat (length m div 2 ^ 32)"
    using assms by (simp_all add: sha1_rep_def)
  let ?pad = "0x80 # replicate (pad_zeros (length m)) 0" and ?len = "be_bitlen (length m)"
  have pad: "length ?pad < 2 ^ 31"
    using pad_zeros_less [of "length m"] by simp
  have len: "length ?len < 2 ^ 31" by simp
  have fin: "sha1_finish ctx =
      concat (map PUT_UINT32_BE (sha1_state (sha1_update (sha1_update ctx ?pad) ?len)))"
    unfolding sha1_finish_def Let_def t0 t1 and_3f_mod take_sha1_padding bitlen_high
    unfolding bitlen_low be_bitlen_def PUT_UINT32_BE_def ..
  have "sha1_rep (sha1_update (sha1_update ctx ?pad) ?len) ((m @ ?pad) @ ?len)"
    by (intro sha1_rep_update assms pad len)
  then show ?thesis
    unfolding fin PUT_UINT32_BE_eq by (simp add: fips_sha1_def md_pad_def sha1_rep_def buf_rep_def)
qed

text \<open>
  SHA-1 is a digest in the sense of the interface.
\<close>

lemma sha1_fresh_starts:
  "length (sha1_buffer ctx) = 64 \<Longrightarrow> sha1_fresh (sha1_starts ctx)"
  by (simp add: sha1_fresh_def sha1_starts_def)

interpretation sha1: digest sha1_rep sha1_update "\<lambda>n. n < 2 ^ 31" sha1_fresh sha1_finish fips_sha1
proof unfold_locales
  fix ctx assume "sha1_fresh ctx"
  then show "sha1_rep ctx []"
    using sha1_rep_starts [of ctx] by (simp add: sha1_fresh_def)
qed (auto intro: sha1_rep_update sha1_rep_finish)

lemma sha1_csum_fips:
  assumes "length (sha1_buffer ctx) = 64" and "length m < 2 ^ 31"
  shows "sha1_csum ctx m = fips_sha1 m"
  unfolding sha1_csum_def using assms by (intro sha1.one_shot sha1_fresh_starts)

lemma length_fips_sha1 [simp]: "length (fips_sha1 m) = 20"
proof -
  have "length (concat (map bytes_be32 ws)) = 4 * length ws" for ws
    by (induction ws) simp_all
  then show ?thesis
    by (simp add: fips_sha1_def)
qed

section \<open>HMAC\<close>

lemma sha1_key_pad_prefix:
  assumes "n \<le> length key"
  shows "fold (\<lambda>i k. if i \<ge> 64 then k else k[i := k ! i XOR key ! i]) [0..<n] (replicate 64 c) =
    map (\<lambda>i. if i < n then c XOR key ! i else c) [0..<64]"
  using assms
proof (induction n)
  case 0
  show ?case by (rule nth_equalityI) simp_all
next
  case (Suc n)
  then show ?case
    by (auto intro!: nth_equalityI simp: nth_list_update)
qed

lemma sha1_key_pad_short:
  assumes "length key \<le> 64"
  shows "sha1_key_pad c key = map (\<lambda>b. b XOR c) (key @ replicate (64 - length key) 0)"
  unfolding sha1_key_pad_def sha1_key_pad_prefix [OF order_refl]
  using assms by (auto intro!: nth_equalityI simp: nth_append xor.commute)

lemma sha1_key_pad_truncates: "sha1_key_pad c key = sha1_key_pad c (take 64 key)"
  unfolding sha1_key_pad_def sha1_key_pad_prefix [OF order_refl]
  by (rule nth_equalityI) auto

lemma length_sha1_key_pad [simp]: "length (sha1_key_pad c key) = 64"
  unfolding sha1_key_pad_def sha1_key_pad_prefix [OF order_refl] by simp

lemma sha1_hmac_nested:
  assumes "length (sha1_buffer ctx) = 64" and "length m < 2 ^ 31"
  shows "sha1_hmac ctx key m =
    fips_sha1 (sha1_key_pad 0x5C key @ fips_sha1 (sha1_key_pad 0x36 key @ m))"
proof -
  note fresh = sha1_fresh_starts [OF assms(1)]
  have inner: "sha1_finish (sha1_update (sha1_update (sha1_starts ctx) (sha1_key_pad 0x36 key)) m) =
      fips_sha1 (sha1_key_pad 0x36 key @ m)"
    using fresh assms(2) by (intro sha1.two_updates) simp_all
  have "sha1_finish (sha1_update (sha1_update (sha1_starts ctx) (sha1_key_pad 0x5C key)) t) =
      fips_sha1 (sha1_key_pad 0x5C key @ t)" if "length t = 20" for t
    using fresh that by (intro sha1.two_updates) simp_all
  then show ?thesis
    by (simp add: sha1_hmac_def Let_def inner)
qed

section \<open>Properties\<close>

text \<open>
  C29: for every message shorter than 2^31 bytes, and whatever the uninitialised context held,
  \<open>sha1_csum\<close> returns the FIPS 180 SHA-1 digest of the message.
\<close>

theorem sha1_csum_correct:
  assumes "length (sha1_buffer ctx) = 64" and "length m < 2 ^ 31"
  shows "sha1_csum ctx m = fips_sha1 m"
  using assms by (rule sha1_csum_fips)

theorem sha1_csum_correct_witness: "sha1_csum sha1_blank [0x61, 0x62, 0x63] = fips_sha1 [0x61, 0x62, 0x63]"
  by (rule sha1_csum_correct) (simp_all add: sha1_blank_def)

text \<open>
  The watchdog variant ends for every nonzero chunk size and returns the same digest.
\<close>

lemma sha1_csum_wd_correct:
  assumes "length (sha1_buffer ctx) = 64" and "length m < 2 ^ 31" and "chunk_sz \<noteq> 0"
  shows "sha1_csum_wd has_watchdog ctx m chunk_sz = Some (sha1_csum ctx m)"
proof -
  have "map_option sha1_finish (wd_loop sha1_update (sha1_starts ctx) m chunk_sz) = Some (fips_sha1 m)"
    using assms by (intro sha1.chunked sha1_fresh_starts) simp_all
  then show ?thesis
    using assms by (simp add: sha1_csum_wd_def sha1_csum_fips sha1_csum_def [symmetric])
qed

text \<open>
  For keys of at most 64 bytes, \<open>sha1_hmac\<close> is the HMAC of RFC 2104 over SHA-1.
\<close>

lemma sha1_hmac_correct:
  assumes "length (sha1_buffer ctx) = 64" and "length m < 2 ^ 31" and "length key \<le> 64"
  shows "sha1_hmac ctx key m = rfc_hmac_sha1 key m"
  using assms
  by (simp add: sha1_hmac_nested sha1_key_pad_short rfc_hmac_sha1_def Let_def)

text \<open>
  A longer key is truncated: \<open>sha1_hmac\<close> cannot tell it from its first 64 bytes, where
  RFC 2104 hashes it first.
\<close>

lemma sha1_hmac_truncates_key: "sha1_hmac ctx key m = sha1_hmac ctx (take 64 key) m"
  by (simp add: sha1_hmac_def sha1_key_pad_truncates [of _ key])

end
