(* ===== verification/Lib_Sha256.thy ===== *)
theory Lib_Sha256
  imports Lib_Sha1
begin

text \<open>
  SHA-256 of \<^verbatim>\<open>lib_generic/sha256.c\<close>. The structure is that of the SHA-1 theory: the context as a
  record, the unrolled compression function with its eight rotating variable roles, the update with
  its block buffer, and the proof that the digest is the one FIPS 180 defines. The literal round
  constants are shown to be the cube-root constants the standard prescribes. The array \<open>W\<close> is the
  list of the words written to it so far, so that no uninitialised word can be read.
\<close>

section \<open>The code\<close>

record sha256_context =
  sha256_total0 :: u32
  sha256_total1 :: u32
  sha256_state :: "u32 list"
  sha256_buffer :: "u8 list"

definition sha256_starts :: "sha256_context \<Rightarrow> sha256_context" where
  "sha256_starts ctx = ctx\<lparr>sha256_total0 := 0, sha256_total1 := 0,
     sha256_state := [0x6A09E667, 0xBB67AE85, 0x3C6EF372, 0xA54FF53A,
                      0x510E527F, 0x9B05688C, 0x1F83D9AB, 0x5BE0CD19]\<rparr>"

definition SHR :: "u32 \<Rightarrow> nat \<Rightarrow> u32" where
  "SHR x n = drop_bit n (x AND 0xFFFFFFFF)"

definition ROTR :: "u32 \<Rightarrow> nat \<Rightarrow> u32" where
  "ROTR x n = SHR x n OR push_bit (32 - n) x"

definition sha256_S0 :: "u32 \<Rightarrow> u32" where
  "sha256_S0 x = ROTR x 7 XOR ROTR x 18 XOR SHR x 3"

definition sha256_S1 :: "u32 \<Rightarrow> u32" where
  "sha256_S1 x = ROTR x 17 XOR ROTR x 19 XOR SHR x 10"

definition sha256_S2 :: "u32 \<Rightarrow> u32" where
  "sha256_S2 x = ROTR x 2 XOR ROTR x 13 XOR ROTR x 22"

definition sha256_S3 :: "u32 \<Rightarrow> u32" where
  "sha256_S3 x = ROTR x 6 XOR ROTR x 11 XOR ROTR x 25"

definition sha256_F0 :: "u32 \<Rightarrow> u32 \<Rightarrow> u32 \<Rightarrow> u32" where
  "sha256_F0 x y z = (x AND y) OR (z AND (x OR y))"

definition sha256_F1 :: "u32 \<Rightarrow> u32 \<Rightarrow> u32 \<Rightarrow> u32" where
  "sha256_F1 x y z = z XOR (x AND (y XOR z))"

text \<open>The constants of the sixty-four calls of \<open>P\<close>, in order.\<close>

definition sha256_K :: "u32 list" where
  "sha256_K =
     [0x428A2F98, 0x71374491, 0xB5C0FBCF, 0xE9B5DBA5, 0x3956C25B, 0x59F111F1,
      0x923F82A4, 0xAB1C5ED5, 0xD807AA98, 0x12835B01, 0x243185BE, 0x550C7DC3,
      0x72BE5D74, 0x80DEB1FE, 0x9BDC06A7, 0xC19BF174, 0xE49B69C1, 0xEFBE4786,
      0x0FC19DC6, 0x240CA1CC, 0x2DE92C6F, 0x4A7484AA, 0x5CB0A9DC, 0x76F988DA,
      0x983E5152, 0xA831C66D, 0xB00327C8, 0xBF597FC7, 0xC6E00BF3, 0xD5A79147,
      0x06CA6351, 0x14292967, 0x27B70A85, 0x2E1B2138, 0x4D2C6DFC, 0x53380D13,
      0x650A7354, 0x766A0ABB, 0x81C2C92E, 0x92722C85, 0xA2BFE8A1, 0xA81A664B,
      0xC24B8B70, 0xC76C51A3, 0xD192E819, 0xD6990624, 0xF40E3585, 0x106AA070,
      0x19A4C116, 0x1E376C08, 0x2748774C, 0x34B0BCB5, 0x391C0CB3, 0x4ED8AA4A,
      0x5B9CCA4F, 0x682E6FF3, 0x748F82EE, 0x78A5636F, 0x84C87814, 0x8CC70208,
      0x90BEFFFA, 0xA4506CEB, 0xBEF9A3F7, 0xC67178F2]"

definition sha256_R :: "nat \<Rightarrow> u32 list \<Rightarrow> u32 list" where
  "sha256_R t W =
     W @ [sha256_S1 (W ! (t - 2)) + W ! (t - 7) + sha256_S0 (W ! (t - 15)) + W ! (t - 16)]"

definition sha256_temp1 :: "nat \<Rightarrow> u32 \<Rightarrow> u32 \<Rightarrow> u32 \<Rightarrow> u32 \<Rightarrow> u32 \<Rightarrow> u32" where
  "sha256_temp1 t e f g h x = h + sha256_S3 e + sha256_F1 e f g + sha256_K ! t + x"

definition sha256_temp2 :: "u32 \<Rightarrow> u32 \<Rightarrow> u32 \<Rightarrow> u32" where
  "sha256_temp2 a b c = sha256_S2 a + sha256_F0 a b c"

definition sha256_P :: "nat \<Rightarrow> nat list \<Rightarrow> u32 \<Rightarrow> u32 list \<Rightarrow> u32 list" where
  "sha256_P t roles x v =
     (let a = roles ! 0; b = roles ! 1; c = roles ! 2; d = roles ! 3;
          e = roles ! 4; f = roles ! 5; g = roles ! 6; h = roles ! 7;
          temp1 = sha256_temp1 t (v ! e) (v ! f) (v ! g) (v ! h) x;
          temp2 = sha256_temp2 (v ! a) (v ! b) (v ! c);
          v1 = v[d := v ! d + temp1]
      in v1[h := temp1 + temp2])"

text \<open>The order in which the variables A to H (0 to 7) are passed, in eight rotations.\<close>

definition sha256_roles :: "nat list list" where
  "sha256_roles =
     [[0, 1, 2, 3, 4, 5, 6, 7],
      [7, 0, 1, 2, 3, 4, 5, 6],
      [6, 7, 0, 1, 2, 3, 4, 5],
      [5, 6, 7, 0, 1, 2, 3, 4],
      [4, 5, 6, 7, 0, 1, 2, 3],
      [3, 4, 5, 6, 7, 0, 1, 2],
      [2, 3, 4, 5, 6, 7, 0, 1],
      [1, 2, 3, 4, 5, 6, 7, 0]]"

definition sha256_round :: "nat \<Rightarrow> u32 list \<times> u32 list \<Rightarrow> u32 list \<times> u32 list" where
  "sha256_round t = (\<lambda>(v, W).
     let W' = (if t < 16 then W else sha256_R t W)
     in (sha256_P t (sha256_roles ! (t mod 8)) (W' ! t) v, W'))"

definition sha256_process :: "sha256_context \<Rightarrow> u8 list \<Rightarrow> sha256_context" where
  "sha256_process ctx data =
     (let W = map (\<lambda>i. GET_UINT32_BE data (4 * i)) [0..<16];
          v = fst (fold sha256_round [0..<64] (sha256_state ctx, W))
      in ctx\<lparr>sha256_state := map2 (+) (sha256_state ctx) v\<rparr>)"

function sha256_update_blocks :: "sha256_context \<Rightarrow> u8 list \<Rightarrow> sha256_context \<times> u8 list" where
  "sha256_update_blocks ctx input =
     (if 64 \<le> length input
      then sha256_update_blocks (sha256_process ctx (take 64 input)) (drop 64 input)
      else (ctx, input))"
  by pat_completeness auto
termination
  by (relation "measure (\<lambda>(ctx, input). length input)") auto

declare sha256_update_blocks.simps [simp del]

definition sha256_update :: "sha256_context \<Rightarrow> u8 list \<Rightarrow> sha256_context" where
  "sha256_update ctx input =
     (if input = [] then ctx
      else
        let left = unat (sha256_total0 ctx AND 0x3F);
            fill = 64 - left;
            ctx1 = ctx\<lparr>sha256_total0 := (sha256_total0 ctx + of_nat (length input)) AND 0xFFFFFFFF\<rparr>;
            ctx2 = (if sha256_total0 ctx1 < of_nat (length input)
                    then ctx1\<lparr>sha256_total1 := sha256_total1 ctx1 + 1\<rparr> else ctx1);
            (ctx3, input3, left3) =
              (if left \<noteq> 0 \<and> fill \<le> length input then
                 let buf = take left (sha256_buffer ctx2) @ take fill input @ drop 64 (sha256_buffer ctx2)
                 in (sha256_process (ctx2\<lparr>sha256_buffer := buf\<rparr>) buf, drop fill input, 0)
               else (ctx2, input, left));
            (ctx4, input4) = sha256_update_blocks ctx3 input3
        in if input4 \<noteq> []
           then ctx4\<lparr>sha256_buffer := take left3 (sha256_buffer ctx4) @ input4 @
                       drop (left3 + length input4) (sha256_buffer ctx4)\<rparr>
           else ctx4)"

definition sha256_padding :: "u8 list" where
  "sha256_padding = 0x80 # replicate 63 0"

definition sha256_finish :: "sha256_context \<Rightarrow> u8 list" where
  "sha256_finish ctx =
     (let high = drop_bit 29 (sha256_total0 ctx) OR push_bit 3 (sha256_total1 ctx);
          low = push_bit 3 (sha256_total0 ctx);
          msglen = PUT_UINT32_BE high @ PUT_UINT32_BE low;
          last = unat (sha256_total0 ctx AND 0x3F);
          padn = (if last < 56 then 56 - last else 120 - last);
          ctx1 = sha256_update ctx (take padn sha256_padding);
          ctx2 = sha256_update ctx1 msglen
      in concat (map PUT_UINT32_BE (sha256_state ctx2)))"

section \<open>The FIPS 180 definition\<close>

text \<open>The first sixty-four primes; the round constants are cut out of their cube roots.\<close>

definition primes64 :: "nat list" where
  "primes64 =
     [2, 3, 5, 7, 11, 13, 17, 19, 23, 29, 31, 37, 41, 43, 47, 53,
      59, 61, 67, 71, 73, 79, 83, 89, 97, 101, 103, 107, 109, 113, 127, 131,
      137, 139, 149, 151, 157, 163, 167, 173, 179, 181, 191, 193, 197, 199, 211, 223,
      227, 229, 233, 239, 241, 251, 257, 263, 269, 271, 277, 281, 283, 293, 307, 311]"

text \<open>The integer part of the cube root of a prime below 343.\<close>

definition icbrt :: "nat \<Rightarrow> nat" where
  "icbrt p = (if p < 8 then 1 else if p < 27 then 2 else if p < 64 then 3
     else if p < 125 then 4 else if p < 216 then 5 else 6)"

definition ch :: "u32 \<Rightarrow> u32 \<Rightarrow> u32 \<Rightarrow> u32" where
  "ch x y z = (x AND y) XOR (NOT x AND z)"

definition maj :: "u32 \<Rightarrow> u32 \<Rightarrow> u32 \<Rightarrow> u32" where
  "maj x y z = (x AND y) XOR (x AND z) XOR (y AND z)"

definition big_sigma0 :: "u32 \<Rightarrow> u32" where
  "big_sigma0 x = word_rotr 2 x XOR word_rotr 13 x XOR word_rotr 22 x"

definition big_sigma1 :: "u32 \<Rightarrow> u32" where
  "big_sigma1 x = word_rotr 6 x XOR word_rotr 11 x XOR word_rotr 25 x"

definition small_sigma0 :: "u32 \<Rightarrow> u32" where
  "small_sigma0 x = word_rotr 7 x XOR word_rotr 18 x XOR drop_bit 3 x"

definition small_sigma1 :: "u32 \<Rightarrow> u32" where
  "small_sigma1 x = word_rotr 17 x XOR word_rotr 19 x XOR drop_bit 10 x"

fun fips_w256 :: "u32 list \<Rightarrow> nat \<Rightarrow> u32" where
  "fips_w256 M t =
     (if t < 16 then M ! t
      else small_sigma1 (fips_w256 M (t - 2)) + fips_w256 M (t - 7) +
           small_sigma0 (fips_w256 M (t - 15)) + fips_w256 M (t - 16))"

declare fips_w256.simps [simp del]

type_synonym regs8 = "u32 \<times> u32 \<times> u32 \<times> u32 \<times> u32 \<times> u32 \<times> u32 \<times> u32"

definition fips_step256 :: "u32 list \<Rightarrow> nat \<Rightarrow> regs8 \<Rightarrow> regs8" where
  "fips_step256 M t = (\<lambda>(a, b, c, d, e, f, g, h).
     let T1 = h + big_sigma1 e + ch e f g + sha256_K ! t + fips_w256 M t;
         T2 = big_sigma0 a + maj a b c
     in (T1 + T2, a, b, c, d + T1, e, f, g))"

definition fips_compress256 :: "u32 list \<Rightarrow> u8 list \<Rightarrow> u32 list" where
  "fips_compress256 s block =
     (case fold (fips_step256 (fips_words block)) [0..<64]
            (s ! 0, s ! 1, s ! 2, s ! 3, s ! 4, s ! 5, s ! 6, s ! 7) of
        (a, b, c, d, e, f, g, h) \<Rightarrow>
          [s ! 0 + a, s ! 1 + b, s ! 2 + c, s ! 3 + d, s ! 4 + e, s ! 5 + f, s ! 6 + g, s ! 7 + h])"

definition fips_init256 :: "u32 list" where
  "fips_init256 = [0x6a09e667, 0xbb67ae85, 0x3c6ef372, 0xa54ff53a,
                   0x510e527f, 0x9b05688c, 0x1f83d9ab, 0x5be0cd19]"

definition fips_sha256 :: "u8 list \<Rightarrow> u8 list" where
  "fips_sha256 m =
     concat (map bytes_be32 (foldl fips_compress256 fips_init256 (blocks 64 (md_pad be_bitlen m))))"

section \<open>Representation\<close>

definition sha256_window :: "u32 list \<Rightarrow> nat \<Rightarrow> u32 list \<Rightarrow> bool" where
  "sha256_window M n W \<longleftrightarrow> length W = max 16 n \<and> (\<forall>k < max 16 n. W ! k = fips_w256 M k)"

definition sha256_rep :: "sha256_context \<Rightarrow> u8 list \<Rightarrow> bool" where
  "sha256_rep ctx m \<longleftrightarrow>
     sha256_total0 ctx = of_nat (length m) \<and> sha256_total1 ctx = of_nat (length m div 2 ^ 32) \<and>
     buf_rep fips_compress256 fips_init256 (sha256_state ctx) (sha256_buffer ctx) m"

definition sha256_fresh :: "sha256_context \<Rightarrow> bool" where
  "sha256_fresh ctx \<longleftrightarrow> sha256_starts ctx = ctx \<and> length (sha256_buffer ctx) = 64"

definition sha256_blank :: sha256_context where
  "sha256_blank =
     \<lparr>sha256_total0 = 0, sha256_total1 = 0, sha256_state = [], sha256_buffer = replicate 64 0\<rparr>"

section \<open>The compression function\<close>

lemma ROTR_rotr: "0 < n \<Longrightarrow> n < 32 \<Longrightarrow> ROTR x n = word_rotr n x"
  by (simp add: ROTR_def SHR_def rotr_shifts)

lemma sha256_sigmas:
  "sha256_S0 = small_sigma0" "sha256_S1 = small_sigma1"
  "sha256_S2 = big_sigma0" "sha256_S3 = big_sigma1"
  by (auto simp: fun_eq_iff sha256_S0_def sha256_S1_def sha256_S2_def sha256_S3_def SHR_def
      small_sigma0_def small_sigma1_def big_sigma0_def big_sigma1_def ROTR_rotr)

lemma sha256_choices: "sha256_F0 = maj" "sha256_F1 = ch"
  by (auto simp: fun_eq_iff sha256_F0_def sha256_F1_def maj_def ch_def choose_forms majority_forms)

lemma rotate_8:
  "rotate 0 [a, b, c, d, e, f, g, h] = [a, b, c, d, e, f, g, h]"
  "rotate 1 [a, b, c, d, e, f, g, h] = [b, c, d, e, f, g, h, a]"
  "rotate 2 [a, b, c, d, e, f, g, h] = [c, d, e, f, g, h, a, b]"
  "rotate 3 [a, b, c, d, e, f, g, h] = [d, e, f, g, h, a, b, c]"
  "rotate 4 [a, b, c, d, e, f, g, h] = [e, f, g, h, a, b, c, d]"
  "rotate 5 [a, b, c, d, e, f, g, h] = [f, g, h, a, b, c, d, e]"
  "rotate 6 [a, b, c, d, e, f, g, h] = [g, h, a, b, c, d, e, f]"
  "rotate 7 [a, b, c, d, e, f, g, h] = [h, a, b, c, d, e, f, g]"
  by (simp_all add: numeral_eq_Suc)

lemma sha256_P_roles:
  "sha256_P t (sha256_roles ! 0) x [a, b, c, d, e, f, g, h] =
    [a, b, c, d + sha256_temp1 t e f g h x, e, f, g, sha256_temp1 t e f g h x + sha256_temp2 a b c]"
  "sha256_P t (sha256_roles ! 1) x [b, c, d, e, f, g, h, a] =
    [b, c, d + sha256_temp1 t e f g h x, e, f, g, sha256_temp1 t e f g h x + sha256_temp2 a b c, a]"
  "sha256_P t (sha256_roles ! 2) x [c, d, e, f, g, h, a, b] =
    [c, d + sha256_temp1 t e f g h x, e, f, g, sha256_temp1 t e f g h x + sha256_temp2 a b c, a, b]"
  "sha256_P t (sha256_roles ! 3) x [d, e, f, g, h, a, b, c] =
    [d + sha256_temp1 t e f g h x, e, f, g, sha256_temp1 t e f g h x + sha256_temp2 a b c, a, b, c]"
  "sha256_P t (sha256_roles ! 4) x [e, f, g, h, a, b, c, d] =
    [e, f, g, sha256_temp1 t e f g h x + sha256_temp2 a b c, a, b, c, d + sha256_temp1 t e f g h x]"
  "sha256_P t (sha256_roles ! 5) x [f, g, h, a, b, c, d, e] =
    [f, g, sha256_temp1 t e f g h x + sha256_temp2 a b c, a, b, c, d + sha256_temp1 t e f g h x, e]"
  "sha256_P t (sha256_roles ! 6) x [g, h, a, b, c, d, e, f] =
    [g, sha256_temp1 t e f g h x + sha256_temp2 a b c, a, b, c, d + sha256_temp1 t e f g h x, e, f]"
  "sha256_P t (sha256_roles ! 7) x [h, a, b, c, d, e, f, g] =
    [sha256_temp1 t e f g h x + sha256_temp2 a b c, a, b, c, d + sha256_temp1 t e f g h x, e, f, g]"
  by (simp_all add: sha256_P_def sha256_roles_def Let_def numeral_eq_Suc)

lemma sha256_P_rotate:
  assumes "x = fips_w256 M t"
  shows "sha256_P t (sha256_roles ! (t mod 8)) x (rotate t [a, b, c, d, e, f, g, h]) =
    (case fips_step256 M t (a, b, c, d, e, f, g, h) of (a', b', c', d', e', f', g', h') \<Rightarrow>
       rotate (Suc t) [a', b', c', d', e', f', g', h'])"
proof -
  have rot: "rotate n [p, q, r, s, u, v, w, y] = rotate (n mod 8) [p, q, r, s, u, v, w, y]"
    for n and p q r s u v w y :: u32
    by (subst rotate_conv_mod) simp
  have step: "fips_step256 M t (a, b, c, d, e, f, g, h) =
      (sha256_temp1 t e f g h x + sha256_temp2 a b c, a, b, c, d + sha256_temp1 t e f g h x, e, f, g)"
    using assms
    by (simp add: fips_step256_def sha256_temp1_def sha256_temp2_def sha256_sigmas sha256_choices Let_def)
  consider "t mod 8 = 0" "Suc t mod 8 = 1"
    | "t mod 8 = 1" "Suc t mod 8 = 2"
    | "t mod 8 = 2" "Suc t mod 8 = 3"
    | "t mod 8 = 3" "Suc t mod 8 = 4"
    | "t mod 8 = 4" "Suc t mod 8 = 5"
    | "t mod 8 = 5" "Suc t mod 8 = 6"
    | "t mod 8 = 6" "Suc t mod 8 = 7"
    | "t mod 8 = 7" "Suc t mod 8 = 0"
    by (auto simp: mod_Suc split: if_splits) arith
  then show ?thesis
    by cases (simp_all only: rot [of t] rot [of "Suc t"] rotate_8 step sha256_P_roles prod.case)
qed

lemma sha256_window_R:
  assumes "sha256_window M t W" and "16 \<le> t"
  shows "sha256_window M (Suc t) (sha256_R t W)"
proof -
  have len: "length W = t" and win: "\<And>k. k < t \<Longrightarrow> W ! k = fips_w256 M k"
    using assms by (auto simp: sha256_window_def max_def)
  have "sha256_R t W = W @ [fips_w256 M t]"
    using assms(2) win by (simp add: sha256_R_def sha256_sigmas fips_w256.simps [of M t])
  then show ?thesis
    using len win assms(2) by (auto simp: sha256_window_def max_def nth_append less_Suc_eq)
qed

lemma regs8_cases:
  obtains a b c d e f g h where "(r :: regs8) = (a, b, c, d, e, f, g, h)"
proof -
  obtain a b c d e f p where "r = (a, b, c, d, e, f, p)" by (cases r)
  moreover obtain g h where "p = (g, h)" by (cases p)
  ultimately show ?thesis using that by simp
qed

lemma sha256_rounds:
  assumes "length M = 16" and "n \<le> 64"
    and "fold (fips_step256 M) [0..<n] (s0, s1, s2, s3, s4, s5, s6, s7) = (a, b, c, d, e, f, g, h)"
  shows "\<exists>W. fold sha256_round [0..<n] ([s0, s1, s2, s3, s4, s5, s6, s7], M) =
      (rotate n [a, b, c, d, e, f, g, h], W) \<and> sha256_window M n W"
  using assms(2,3)
proof (induction n arbitrary: a b c d e f g h)
  case 0
  then show ?case
    using assms(1) by (simp add: sha256_window_def fips_w256.simps)
next
  case (Suc n)
  obtain p q r s u v w y where
    s: "fold (fips_step256 M) [0..<n] (s0, s1, s2, s3, s4, s5, s6, s7) = (p, q, r, s, u, v, w, y)"
    by (rule regs8_cases)
  with Suc obtain W where
    W: "fold sha256_round [0..<n] ([s0, s1, s2, s3, s4, s5, s6, s7], M) =
      (rotate n [p, q, r, s, u, v, w, y], W)"
    and win: "sha256_window M n W"
    by (metis Suc_leD)
  define W' where "W' = (if n < 16 then W else sha256_R n W)"
  have win': "sha256_window M (Suc n) W'"
    using win sha256_window_R [OF win] by (auto simp: W'_def sha256_window_def max_def split: if_splits)
  then have W': "W' ! n = fips_w256 M n"
    by (simp add: sha256_window_def)
  have step: "fips_step256 M n (p, q, r, s, u, v, w, y) = (a, b, c, d, e, f, g, h)"
    using Suc.prems s by simp
  have "fold sha256_round [0..<Suc n] ([s0, s1, s2, s3, s4, s5, s6, s7], M) =
      (sha256_P n (sha256_roles ! (n mod 8)) (W' ! n) (rotate n [p, q, r, s, u, v, w, y]), W')"
    by (simp add: W sha256_round_def W'_def Let_def)
  also have "\<dots> = (rotate (Suc n) [a, b, c, d, e, f, g, h], W')"
    using sha256_P_rotate [OF W', of p q r s u v w y] by (simp add: step)
  finally show ?case using win' by blast
qed

lemma sha256_process_state:
  assumes "length (sha256_state ctx) = 8"
  shows "sha256_process ctx block = ctx\<lparr>sha256_state := fips_compress256 (sha256_state ctx) block\<rparr>"
proof -
  obtain s0 s1 s2 s3 s4 s5 s6 s7 where h: "sha256_state ctx = [s0, s1, s2, s3, s4, s5, s6, s7]"
    using assms by (auto simp: numeral_eq_Suc length_Suc_conv)
  have W: "map (\<lambda>i. GET_UINT32_BE block (4 * i)) [0..<16] = fips_words block"
    by (simp add: GET_UINT32_BE_def fips_words_def)
  obtain a b c d e f g h where
    s: "fold (fips_step256 (fips_words block)) [0..<64] (s0, s1, s2, s3, s4, s5, s6, s7) =
      (a, b, c, d, e, f, g, h)"
    by (rule regs8_cases)
  have "rotate 64 [a, b, c, d, e, f, g, h] = [a, b, c, d, e, f, g, h]"
    by (subst rotate_conv_mod) simp
  then have "fst (fold sha256_round [0..<64] ([s0, s1, s2, s3, s4, s5, s6, s7], fips_words block)) =
      [a, b, c, d, e, f, g, h]"
    using sha256_rounds [OF length_fips_words order_refl s] by auto
  moreover have "fips_compress256 [s0, s1, s2, s3, s4, s5, s6, s7] block =
      [s0 + a, s1 + b, s2 + c, s3 + d, s4 + e, s5 + f, s6 + g, s7 + h]"
    by (simp add: fips_compress256_def s)
  ultimately show ?thesis
    unfolding sha256_process_def Let_def W h by simp
qed

lemma length_fips_compress256 [simp]: "length (fips_compress256 h block) = 8"
  by (simp add: fips_compress256_def split: prod.split)

section \<open>Streaming\<close>

lemma length_foldl_compress256 [simp]:
  "length h = 8 \<Longrightarrow> length (foldl fips_compress256 h bs) = 8"
  by (induction bs arbitrary: h) simp_all

lemma sha256_update_blocks_eq:
  assumes "length (sha256_state ctx) = 8"
  shows "sha256_update_blocks ctx input =
    (ctx\<lparr>sha256_state := foldl fips_compress256 (sha256_state ctx) (blocks 64 input)\<rparr>,
     leftover 64 input)"
proof -
  have "0 < (64 :: nat)" by simp
  then show ?thesis
    using assms
  proof (induction input arbitrary: ctx rule: block_induct)
    case (short xs)
    then show ?case by (subst sha256_update_blocks.simps) simp
  next
    case (block b xs)
    then show ?case by (subst sha256_update_blocks.simps) (simp add: sha256_process_state)
  qed
qed

lemma sha256_update_absorb:
  assumes "length (sha256_state ctx) = 8" and "input \<noteq> []"
    and "absorb fips_compress256 (sha256_state ctx) (sha256_buffer ctx)
      (unat (sha256_total0 ctx AND 0x3F)) input = (h, buf)"
  shows "sha256_update ctx input =
    ctx\<lparr>sha256_total0 := sha256_total0 ctx + of_nat (length input),
        sha256_total1 := sha256_total1 ctx +
          (if sha256_total0 ctx + of_nat (length input) < of_nat (length input) then 1 else 0),
        sha256_state := h, sha256_buffer := buf\<rparr>"
  using assms
  by (cases ctx)
    (auto simp: sha256_update_def absorb_def Let_def sha256_process_state sha256_update_blocks_eq
      split: if_splits)

lemma length_fips_init256 [simp]: "length fips_init256 = 8"
  by (simp add: fips_init256_def)

lemma sha256_rep_state_len: "sha256_rep ctx m \<Longrightarrow> length (sha256_state ctx) = 8"
  by (simp add: sha256_rep_def buf_rep_def)

lemma sha256_rep_update:
  assumes "sha256_rep ctx m" and "length input < 2 ^ 32"
  shows "sha256_rep (sha256_update ctx input) (m @ input)"
proof (cases "input = []")
  case True
  then show ?thesis using assms by (simp add: sha256_update_def)
next
  case False
  obtain h buf where a: "absorb fips_compress256 (sha256_state ctx) (sha256_buffer ctx)
      (unat (sha256_total0 ctx AND 0x3F)) input = (h, buf)"
    by fastforce
  have left: "unat (sha256_total0 ctx AND 0x3F) = length m mod 64"
    using assms(1) by (simp only: sha256_rep_def and_3f_mod)
  have "buf_rep fips_compress256 fips_init256 (sha256_state ctx) (sha256_buffer ctx) m"
    using assms(1) by (simp add: sha256_rep_def)
  then have rep: "buf_rep fips_compress256 fips_init256 h buf (m @ input)"
    using a unfolding left by (rule absorb_rep)
  from counter_carry [OF assms(2), of "length m"] rep show ?thesis
    using assms(1) sha256_update_absorb [OF sha256_rep_state_len [OF assms(1)] False a]
    by (simp add: sha256_rep_def)
qed

lemma sha256_rep_starts:
  assumes "length (sha256_buffer ctx) = 64"
  shows "sha256_rep (sha256_starts ctx) []"
  using assms by (simp add: sha256_rep_def sha256_starts_def buf_rep_def fips_init256_def)

lemma sha256_rep_finish:
  assumes "sha256_rep ctx m"
  shows "sha256_finish ctx = fips_sha256 m"
proof -
  have t0: "sha256_total0 ctx = of_nat (length m)"
    and t1: "sha256_total1 ctx = of_nat (length m div 2 ^ 32)"
    using assms by (simp_all add: sha256_rep_def)
  have padding: "sha256_padding = sha1_padding"
    by (simp add: sha256_padding_def sha1_padding_def)
  let ?pad = "0x80 # replicate (pad_zeros (length m)) 0" and ?len = "be_bitlen (length m)"
  have pad: "length ?pad < 2 ^ 32"
    using pad_zeros_less [of "length m"] by simp
  have len: "length ?len < 2 ^ 32" by simp
  have fin: "sha256_finish ctx =
      concat (map PUT_UINT32_BE (sha256_state (sha256_update (sha256_update ctx ?pad) ?len)))"
    unfolding sha256_finish_def Let_def t0 t1 and_3f_mod padding take_sha1_padding bitlen_high
    unfolding bitlen_low be_bitlen_def PUT_UINT32_BE_def ..
  have "sha256_rep (sha256_update (sha256_update ctx ?pad) ?len) ((m @ ?pad) @ ?len)"
    by (intro sha256_rep_update assms pad len)
  then show ?thesis
    unfolding fin PUT_UINT32_BE_eq by (simp add: fips_sha256_def md_pad_def sha256_rep_def buf_rep_def)
qed

lemma sha256_fresh_starts:
  "length (sha256_buffer ctx) = 64 \<Longrightarrow> sha256_fresh (sha256_starts ctx)"
  by (simp add: sha256_fresh_def sha256_starts_def)

interpretation sha256: digest sha256_rep sha256_update "\<lambda>n. n < 2 ^ 32" sha256_fresh sha256_finish fips_sha256
proof unfold_locales
  fix ctx assume "sha256_fresh ctx"
  then show "sha256_rep ctx []"
    using sha256_rep_starts [of ctx] by (simp add: sha256_fresh_def)
qed (auto intro: sha256_rep_update sha256_rep_finish)

section \<open>The round constants\<close>

lemma sha256_K_cube_root_list:
  "list_all2 (\<lambda>k p. (icbrt p * 2 ^ 32 + unat k) ^ 3 \<le> p * 2 ^ 96 \<and>
     p * 2 ^ 96 < (icbrt p * 2 ^ 32 + unat k + 1) ^ 3) sha256_K primes64"
  by (simp add: sha256_K_def primes64_def icbrt_def)

section \<open>Properties\<close>

text \<open>
  C28: the three calls \<open>sha256_starts\<close>, \<open>sha256_update\<close>, \<open>sha256_finish\<close>, with the message split
  over two updates in any way, return the FIPS 180 SHA-256 digest of the message.
\<close>

theorem sha256_correct:
  assumes "length (sha256_buffer ctx) = 64" and "length a < 2 ^ 32" and "length b < 2 ^ 32"
  shows "sha256_finish (sha256_update (sha256_update (sha256_starts ctx) a) b) = fips_sha256 (a @ b)"
  using assms by (intro sha256.two_updates sha256_fresh_starts)

theorem sha256_correct_witness:
  "sha256_finish (sha256_update (sha256_update (sha256_starts sha256_blank) [0x61]) [0x62, 0x63]) =
    fips_sha256 ([0x61] @ [0x62, 0x63])"
  by (rule sha256_correct) (simp_all add: sha256_blank_def)

text \<open>
  Each of the sixty-four literal round constants is the first 32 bits of the fractional part of
  the cube root of the corresponding prime, as FIPS 180 prescribes.
\<close>

lemma sha256_K_cube_roots:
  "list_all2 (\<lambda>k p. \<exists>q. (q * 2 ^ 32 + unat k) ^ 3 \<le> p * 2 ^ 96 \<and>
     p * 2 ^ 96 < (q * 2 ^ 32 + unat k + 1) ^ 3) sha256_K primes64"
  by (rule list_all2_mono [OF sha256_K_cube_root_list]) blast

end
