(* ===== verification/Md5_Sines.thy ===== *)
theory Md5_Sines
  imports Complex_Main Prelude
begin

text \<open>
  The additive constants of RFC 1321, section 3.4: element i of the table, counted from 1, is the
  integer part of 4294967296 times the absolute value of sin i, i in radians. The table is written
  out as the RFC prints it, independently of the code, and is proved to have that value: sine and
  cosine are computed in fixed point, from Taylor sums for 1 and by the addition theorems, with a
  bound on the error of each step.
\<close>

section \<open>The table and the fixed-point computation\<close>

definition rfc_Ts :: "u32 list" where
  "rfc_Ts =
     [0xd76aa478, 0xe8c7b756, 0x242070db, 0xc1bdceee, 0xf57c0faf, 0x4787c62a,
      0xa8304613, 0xfd469501, 0x698098d8, 0x8b44f7af, 0xffff5bb1, 0x895cd7be,
      0x6b901122, 0xfd987193, 0xa679438e, 0x49b40821, 0xf61e2562, 0xc040b340,
      0x265e5a51, 0xe9b6c7aa, 0xd62f105d, 0x02441453, 0xd8a1e681, 0xe7d3fbc8,
      0x21e1cde6, 0xc33707d6, 0xf4d50d87, 0x455a14ed, 0xa9e3e905, 0xfcefa3f8,
      0x676f02d9, 0x8d2a4c8a, 0xfffa3942, 0x8771f681, 0x6d9d6122, 0xfde5380c,
      0xa4beea44, 0x4bdecfa9, 0xf6bb4b60, 0xbebfbc70, 0x289b7ec6, 0xeaa127fa,
      0xd4ef3085, 0x04881d05, 0xd9d4d039, 0xe6db99e5, 0x1fa27cf8, 0xc4ac5665,
      0xf4292244, 0x432aff97, 0xab9423a7, 0xfc93a039, 0x655b59c3, 0x8f0ccc92,
      0xffeff47d, 0x85845dd1, 0x6fa87e4f, 0xfe2ce6e0, 0xa3014314, 0x4e0811a1,
      0xf7537e82, 0xbd3af235, 0x2ad7d2bb, 0xeb86d391]"

definition sine_scale :: int where
  "sine_scale = 2 ^ 110"

definition sine_1 :: int where
  "sine_1 = 1092291787741562174090748123836740"

definition cosine_1 :: int where
  "cosine_1 = 701352491354566354475726777211420"

fun sines :: "nat \<Rightarrow> int \<Rightarrow> int \<Rightarrow> int list" where
  "sines 0 s c = []"
| "sines (Suc n) s c =
     drop_bit 110 (s * cosine_1 + c * sine_1) #
       sines n (drop_bit 110 (s * cosine_1 + c * sine_1)) (drop_bit 110 (c * cosine_1 - s * sine_1))"

section \<open>The error of the computation\<close>

lemma sine_1_bound: "\<bar>sine_1 - sine_scale * sin 1\<bar> \<le> 1"
proof -
  have "\<bar>sin 1 - (\<Sum>m<40. sin_coeff m * 1 ^ m)\<bar> \<le> inverse (fact 40) * \<bar>1\<bar> ^ (40 :: nat)"
    by (rule Maclaurin_sin_bound)
  then have "\<bar>sin 1 - (\<Sum>m<40. sin_coeff m)\<bar> \<le> 1 / 2 ^ 112"
    by (simp add: fact_numeral)
  moreover have "\<bar>sine_1 / sine_scale - (\<Sum>m<40. sin_coeff m)\<bar> \<le> 1 / 2 ^ 111"
    by (simp add: sin_coeff_def sum.lessThan_Suc lessThan_nat_numeral fact_numeral sine_1_def sine_scale_def)
  ultimately have "\<bar>sine_1 / sine_scale - sin 1\<bar> \<le> 1 / 2 ^ 112 + 1 / 2 ^ 111"
    by linarith
  then show ?thesis
    by (simp add: sine_scale_def field_simps)
qed

lemma cosine_1_bound: "\<bar>cosine_1 - sine_scale * cos 1\<bar> \<le> 1"
proof -
  obtain t where "cos (1 :: real) = (\<Sum>m<40. cos_coeff m * 1 ^ m) + cos (t + 1 / 2 * real 40 * pi) / fact 40 * 1 ^ 40"
    using Maclaurin_cos_expansion [of 1 40] by blast
  moreover have "\<bar>cos (t + 1 / 2 * real 40 * pi) / fact 40 * 1 ^ 40\<bar> \<le> 1 / fact 40"
    by (simp add: divide_right_mono)
  ultimately have "\<bar>cos 1 - (\<Sum>m<40. cos_coeff m)\<bar> \<le> 1 / fact 40"
    by simp
  also have "1 / fact 40 \<le> (1 / 2 ^ 112 :: real)"
    by (simp add: fact_numeral)
  finally have "\<bar>cos 1 - (\<Sum>m<40. cos_coeff m)\<bar> \<le> 1 / 2 ^ 112" .
  moreover have "\<bar>cosine_1 / sine_scale - (\<Sum>m<40. cos_coeff m)\<bar> \<le> 1 / 2 ^ 111"
    by (simp add: cos_coeff_def sum.lessThan_Suc lessThan_nat_numeral fact_numeral cosine_1_def sine_scale_def)
  ultimately have "\<bar>cosine_1 / sine_scale - cos 1\<bar> \<le> 1 / 2 ^ 112 + 1 / 2 ^ 111"
    by linarith
  then show ?thesis
    by (simp add: sine_scale_def field_simps)
qed

lemma addition_error:
  fixes S C c1 s1 :: int and N :: int and a b c d e :: real
  assumes S: "\<bar>S - N * a\<bar> \<le> e" and C: "\<bar>C - N * b\<bar> \<le> e" and c: "\<bar>c1 - N * c\<bar> \<le> 1" and d: "\<bar>s1 - N * d\<bar> \<le> 1"
    and le: "\<bar>c1\<bar> \<le> N" "\<bar>s1\<bar> \<le> N" "\<bar>a\<bar> \<le> 1" "\<bar>b\<bar> \<le> 1" and N: "0 < N"
  shows "\<bar>(S * c1 + C * s1) div N - N * (a * c + b * d)\<bar> \<le> 2 * e + 3"
proof -
  have part: "\<bar>X * y - N * N * (x * z)\<bar> \<le> N * (e + 1)" if "\<bar>X - N * x\<bar> \<le> e" "\<bar>y - N * z\<bar> \<le> 1" "\<bar>y\<bar> \<le> N" "\<bar>x\<bar> \<le> 1" for X y :: int and x z :: real
  proof -
    have "X * y - N * N * (x * z) = (X - N * x) * y + N * x * (y - N * z)"
      by (simp add: algebra_simps)
    moreover have "\<bar>(X - N * x) * y\<bar> \<le> e * N"
      unfolding abs_mult using that by (intro mult_mono) auto
    moreover have "\<bar>N * x * (y - N * z)\<bar> \<le> real_of_int N * 1 * 1"
      unfolding abs_mult using that N by (intro mult_mono) auto
    ultimately show ?thesis by (simp add: algebra_simps)
  qed
  define M where "M = S * c1 + C * s1"
  have "\<bar>M - N * N * (a * c + b * d)\<bar> \<le> N * (2 * e + 2)"
    using part [OF S c le(1,3)] part [OF C d le(2,4)] by (simp add: M_def algebra_simps abs_le_iff)
  then have "\<bar>(M / N - N * (a * c + b * d)) * N\<bar> \<le> (2 * e + 2) * N"
    using N by (simp add: algebra_simps)
  then have "\<bar>M / N - N * (a * c + b * d)\<bar> \<le> 2 * e + 2"
    using N by (simp add: abs_mult)
  moreover have "\<bar>(M div N) - M / N\<bar> \<le> 1"
    using floor_correct [of "M / N"] by (simp add: floor_divide_of_int_eq abs_le_iff)
  ultimately show ?thesis by (simp add: M_def)
qed

lemma sines_bound:
  assumes "\<bar>s - sine_scale * sin x\<bar> \<le> 3 * (2 ^ k - 1)" and "\<bar>c - sine_scale * cos x\<bar> \<le> 3 * (2 ^ k - 1)" and "i < n"
  shows "\<bar>sines n s c ! i - sine_scale * sin (x + real (Suc i))\<bar> \<le> 3 * 2 ^ (k + Suc i)"
  using assms
proof (induction n s c arbitrary: x k i rule: sines.induct)
  case (2 n s c)
  let ?s = "drop_bit 110 (s * cosine_1 + c * sine_1)" and ?c = "drop_bit 110 (c * cosine_1 - s * sine_1)"
  have le: "\<bar>cosine_1\<bar> \<le> sine_scale" "\<bar>sine_1\<bar> \<le> sine_scale" "\<bar>sin x\<bar> \<le> 1" "\<bar>cos x\<bar> \<le> 1" "0 < sine_scale"
    "\<bar>- sine_1\<bar> \<le> sine_scale"
    by (simp_all add: cosine_1_def sine_1_def sine_scale_def)
  have m: "\<bar>(- sine_1) - sine_scale * (- sin 1)\<bar> \<le> 1"
    using sine_1_bound by simp
  have k: "2 * (3 * (2 ^ k - 1)) + 3 = (3 * (2 ^ Suc k - 1) :: real)"
    by simp
  have s: "\<bar>?s - sine_scale * sin (x + 1)\<bar> \<le> 3 * (2 ^ Suc k - 1)"
    using addition_error [OF "2.prems"(1,2) cosine_1_bound sine_1_bound le(1,2,3,4,5), folded sin_add]
    unfolding k by (simp add: drop_bit_eq_div sine_scale_def)
  have c: "\<bar>?c - sine_scale * cos (x + 1)\<bar> \<le> 3 * (2 ^ Suc k - 1)"
    using addition_error [OF "2.prems"(2,1) cosine_1_bound m le(1,6,4,3,5)]
    unfolding k by (simp add: drop_bit_eq_div sine_scale_def cos_add)
  show ?case
  proof (cases i)
    case 0
    then show ?thesis using s by simp
  next
    case (Suc j)
    then show ?thesis
      using "2.IH" [OF s c, of j] "2.prems"(3) by (simp add: add.assoc)
  qed
qed simp

section \<open>The table is the table of sines\<close>

lemma rfc_Ts_near:
  "list_all2 (\<lambda>T s. uint T * sine_scale \<le> 2 ^ 32 * (\<bar>s\<bar> - 3 * 2 ^ 64) \<and>
     2 ^ 32 * (\<bar>s\<bar> + 3 * 2 ^ 64) < (uint T + 1) * sine_scale) rfc_Ts (sines 64 0 sine_scale)"
  by code_simp

lemma rfc_Ts_sines:
  assumes "i < 64"
  shows "uint (rfc_Ts ! i) = \<lfloor>2 ^ 32 * \<bar>sin (real (i + 1))\<bar>\<rfloor>"
proof -
  let ?s = "sines 64 0 sine_scale ! i" and ?T = "rfc_Ts ! i"
  have "\<bar>?s - sine_scale * sin (real (i + 1))\<bar> \<le> 3 * 2 ^ Suc i"
    using sines_bound [of 0 0 0 sine_scale i 64] assms by simp
  also have "\<dots> \<le> (3 * 2 ^ 64 :: real)"
    using assms power_increasing [of "Suc i" 64 "2 :: real"] by simp
  finally have "\<bar>\<bar>?s\<bar> - sine_scale * \<bar>sin (real (i + 1))\<bar>\<bar> \<le> 3 * 2 ^ 64"
    by (simp add: sine_scale_def)
  moreover have "uint ?T * sine_scale \<le> 2 ^ 32 * (\<bar>?s\<bar> - 3 * 2 ^ 64)"
    "2 ^ 32 * (\<bar>?s\<bar> + 3 * 2 ^ 64) < (uint ?T + 1) * sine_scale"
    using list_all2_nthD [OF rfc_Ts_near, of i] assms by (auto simp: rfc_Ts_def)
  then have "real_of_int (uint ?T * sine_scale) \<le> real_of_int (2 ^ 32 * (\<bar>?s\<bar> - 3 * 2 ^ 64))"
    "real_of_int (2 ^ 32 * (\<bar>?s\<bar> + 3 * 2 ^ 64)) < real_of_int ((uint ?T + 1) * sine_scale)"
    by (simp_all only: of_int_le_iff of_int_less_iff)
  ultimately have "real_of_int (uint ?T) * sine_scale \<le> 2 ^ 32 * (sine_scale * \<bar>sin (real (i + 1))\<bar>)"
    "2 ^ 32 * (sine_scale * \<bar>sin (real (i + 1))\<bar>) < (real_of_int (uint ?T) + 1) * sine_scale"
    unfolding abs_le_iff of_int_mult of_int_diff of_int_add of_int_abs by simp_all
  then show ?thesis
    by (intro floor_unique [symmetric]) (simp_all add: sine_scale_def)
qed

end
