(* ===== verification/Lib_Md5.thy ===== *)
theory Lib_Md5
  imports Block_Hash Md5_Sines
begin

text \<open>
  MD5 of \<^verbatim>\<open>lib_generic/md5.c\<close>, the other hash of FIT images. The code keeps the block in a byte
  buffer that it reverses word by word in place and then reads as an array of 32-bit words; both
  views are modelled for the big-endian target. The digest is proved equal to a transcription of
  RFC 1321, whose words are little-endian.
\<close>

section \<open>The code\<close>

record MD5Context =
  md5_buf :: "u32 list"
  md5_bits0 :: u32
  md5_bits1 :: u32
  md5_in :: "u8 list"

text \<open>
  \<open>byteReverse\<close>: a \<open>do\<close> loop over \<open>longs\<close> words; each is assembled from its bytes and stored
  in the byte order of the target.
\<close>

fun byteReverse :: "u8 list \<Rightarrow> u32 \<Rightarrow> u8 list" where
  "byteReverse (b0 # b1 # b2 # b3 # buf) longs =
     (let t = push_bit 16 (push_bit 8 (ucast b3) OR ucast b2) OR (push_bit 8 (ucast b1) OR ucast b0)
      in bytes_be32 t @ (if longs - 1 \<noteq> 0 then byteReverse buf (longs - 1) else buf))"
| "byteReverse buf longs = buf"

text \<open>A byte array read as an array of words, and a word array as bytes.\<close>

definition u32_array :: "u8 list \<Rightarrow> u32 list" where
  "u32_array bytes = map (\<lambda>b. be32 (b ! 0) (b ! 1) (b ! 2) (b ! 3)) (blocks 4 bytes)"

definition byte_array :: "u32 list \<Rightarrow> u8 list" where
  "byte_array ws = concat (map bytes_be32 ws)"

text \<open>\<open>memmove(dst + off, src, length src)\<close> into a separate array.\<close>

definition store :: "u8 list \<Rightarrow> nat \<Rightarrow> u8 list \<Rightarrow> u8 list" where
  "store dst off src = take off dst @ src @ drop (off + length src) dst"

definition MD5Init :: "MD5Context \<Rightarrow> MD5Context" where
  "MD5Init ctx = ctx\<lparr>md5_buf := [0x67452301, 0xefcdab89, 0x98badcfe, 0x10325476],
     md5_bits0 := 0, md5_bits1 := 0\<rparr>"

definition md5_F1 :: "u32 \<Rightarrow> u32 \<Rightarrow> u32 \<Rightarrow> u32" where
  "md5_F1 x y z = z XOR (x AND (y XOR z))"

definition md5_F2 :: "u32 \<Rightarrow> u32 \<Rightarrow> u32 \<Rightarrow> u32" where
  "md5_F2 x y z = md5_F1 z x y"

definition md5_F3 :: "u32 \<Rightarrow> u32 \<Rightarrow> u32 \<Rightarrow> u32" where
  "md5_F3 x y z = x XOR y XOR z"

definition md5_F4 :: "u32 \<Rightarrow> u32 \<Rightarrow> u32 \<Rightarrow> u32" where
  "md5_F4 x y z = y XOR (x OR NOT z)"

definition MD5STEP ::
  "(u32 \<Rightarrow> u32 \<Rightarrow> u32 \<Rightarrow> u32) \<Rightarrow> nat \<times> nat \<times> nat \<times> nat \<Rightarrow> u32 \<Rightarrow> nat \<Rightarrow> u32 list \<Rightarrow> u32 list" where
  "MD5STEP f roles data s v =
     (case roles of (w, x, y, z) \<Rightarrow>
        let w1 = v ! w + (f (v ! x) (v ! y) (v ! z) + data);
            w2 = push_bit s w1 OR drop_bit (32 - s) w1
        in v[w := w2 + v ! x])"

text \<open>
  The sixty-four steps: the index into \<open>in\<close>, the constant and the shift count of each. The
  function changes every sixteen steps, the variables a to d (0 to 3) are passed in four rotations.
\<close>

definition md5_steps :: "(nat \<times> u32 \<times> nat) list" where
  "md5_steps =
     [(0, 0xd76aa478, 7), (1, 0xe8c7b756, 12), (2, 0x242070db, 17), (3, 0xc1bdceee, 22),
      (4, 0xf57c0faf, 7), (5, 0x4787c62a, 12), (6, 0xa8304613, 17), (7, 0xfd469501, 22),
      (8, 0x698098d8, 7), (9, 0x8b44f7af, 12), (10, 0xffff5bb1, 17), (11, 0x895cd7be, 22),
      (12, 0x6b901122, 7), (13, 0xfd987193, 12), (14, 0xa679438e, 17), (15, 0x49b40821, 22),
      (1, 0xf61e2562, 5), (6, 0xc040b340, 9), (11, 0x265e5a51, 14), (0, 0xe9b6c7aa, 20),
      (5, 0xd62f105d, 5), (10, 0x02441453, 9), (15, 0xd8a1e681, 14), (4, 0xe7d3fbc8, 20),
      (9, 0x21e1cde6, 5), (14, 0xc33707d6, 9), (3, 0xf4d50d87, 14), (8, 0x455a14ed, 20),
      (13, 0xa9e3e905, 5), (2, 0xfcefa3f8, 9), (7, 0x676f02d9, 14), (12, 0x8d2a4c8a, 20),
      (5, 0xfffa3942, 4), (8, 0x8771f681, 11), (11, 0x6d9d6122, 16), (14, 0xfde5380c, 23),
      (1, 0xa4beea44, 4), (4, 0x4bdecfa9, 11), (7, 0xf6bb4b60, 16), (10, 0xbebfbc70, 23),
      (13, 0x289b7ec6, 4), (0, 0xeaa127fa, 11), (3, 0xd4ef3085, 16), (6, 0x04881d05, 23),
      (9, 0xd9d4d039, 4), (12, 0xe6db99e5, 11), (15, 0x1fa27cf8, 16), (2, 0xc4ac5665, 23),
      (0, 0xf4292244, 6), (7, 0x432aff97, 10), (14, 0xab9423a7, 15), (5, 0xfc93a039, 21),
      (12, 0x655b59c3, 6), (3, 0x8f0ccc92, 10), (10, 0xffeff47d, 15), (1, 0x85845dd1, 21),
      (8, 0x6fa87e4f, 6), (15, 0xfe2ce6e0, 10), (6, 0xa3014314, 15), (13, 0x4e0811a1, 21),
      (4, 0xf7537e82, 6), (11, 0xbd3af235, 10), (2, 0x2ad7d2bb, 15), (9, 0xeb86d391, 21)]"

definition md5_roles :: "(nat \<times> nat \<times> nat \<times> nat) list" where
  "md5_roles = [(0, 1, 2, 3), (3, 0, 1, 2), (2, 3, 0, 1), (1, 2, 3, 0)]"

definition md5_F :: "nat \<Rightarrow> u32 \<Rightarrow> u32 \<Rightarrow> u32 \<Rightarrow> u32" where
  "md5_F i = (if i < 16 then md5_F1 else if i < 32 then md5_F2 else if i < 48 then md5_F3 else md5_F4)"

definition md5_step :: "u32 list \<Rightarrow> nat \<Rightarrow> u32 list \<Rightarrow> u32 list" where
  "md5_step inw i v =
     (case md5_steps ! i of (k, c, s) \<Rightarrow> MD5STEP (md5_F i) (md5_roles ! (i mod 4)) (inw ! k + c) s v)"

definition MD5Transform :: "u32 list \<Rightarrow> u32 list \<Rightarrow> u32 list" where
  "MD5Transform buf inw = map2 (+) buf (fold (md5_step inw) [0..<64] buf)"

text \<open>Reversing the buffer in place and feeding it to the transform, as every call site does.\<close>

definition md5_block :: "MD5Context \<Rightarrow> MD5Context" where
  "md5_block ctx =
     (let inb = byteReverse (md5_in ctx) 16
      in ctx\<lparr>md5_in := inb, md5_buf := MD5Transform (md5_buf ctx) (u32_array inb)\<rparr>)"

function md5_update_blocks :: "MD5Context \<Rightarrow> u8 list \<Rightarrow> MD5Context \<times> u8 list" where
  "md5_update_blocks ctx buf =
     (if 64 \<le> length buf
      then md5_update_blocks (md5_block (ctx\<lparr>md5_in := store (md5_in ctx) 0 (take 64 buf)\<rparr>)) (drop 64 buf)
      else (ctx, buf))"
  by pat_completeness auto
termination
  by (relation "measure (\<lambda>(ctx, buf). length buf)") auto

declare md5_update_blocks.simps [simp del]

definition md5_count :: "MD5Context \<Rightarrow> nat \<Rightarrow> MD5Context" where
  "md5_count ctx len =
     (let t = md5_bits0 ctx;
          b0 = t + push_bit 3 (of_nat len);
          b1 = (if b0 < t then md5_bits1 ctx + 1 else md5_bits1 ctx)
      in ctx\<lparr>md5_bits0 := b0, md5_bits1 := b1 + drop_bit 29 (of_nat len)\<rparr>)"

definition MD5Update :: "MD5Context \<Rightarrow> u8 list \<Rightarrow> MD5Context" where
  "MD5Update ctx buf =
     (let t = unat (drop_bit 3 (md5_bits0 ctx) AND 0x3f);
          ctx1 = md5_count ctx (length buf)
      in if t \<noteq> 0 \<and> length buf < 64 - t
         then ctx1\<lparr>md5_in := store (md5_in ctx1) t buf\<rparr>
         else
           let (ctx2, buf2) =
                 (if t \<noteq> 0
                  then (md5_block (ctx1\<lparr>md5_in := store (md5_in ctx1) t (take (64 - t) buf)\<rparr>),
                        drop (64 - t) buf)
                  else (ctx1, buf));
               (ctx3, buf3) = md5_update_blocks ctx2 buf2
           in ctx3\<lparr>md5_in := store (md5_in ctx3) 0 buf3\<rparr>)"

definition MD5Final :: "MD5Context \<Rightarrow> u8 list" where
  "MD5Final ctx =
     (let count = unat (drop_bit 3 (md5_bits0 ctx) AND 0x3F);
          ctx1 = ctx\<lparr>md5_in := store (md5_in ctx) count [0x80]\<rparr>;
          p = count + 1;
          count1 = 64 - 1 - count;
          ctx2 =
            (if count1 < 8 then
               let c = md5_block (ctx1\<lparr>md5_in := store (md5_in ctx1) p (replicate count1 0)\<rparr>)
               in c\<lparr>md5_in := store (md5_in c) 0 (replicate 56 0)\<rparr>
             else ctx1\<lparr>md5_in := store (md5_in ctx1) p (replicate (count1 - 8) 0)\<rparr>);
          in3 = byteReverse (md5_in ctx2) 14;
          in4 = store in3 56 (bytes_be32 (md5_bits0 ctx2));
          in5 = store in4 60 (bytes_be32 (md5_bits1 ctx2));
          out = MD5Transform (md5_buf ctx2) (u32_array in5)
      in byteReverse (byte_array out) 4)"

definition md5 :: "MD5Context \<Rightarrow> u8 list \<Rightarrow> u8 list" where
  "md5 context input = MD5Final (MD5Update (MD5Init context) input)"

definition md5_wd :: "bool \<Rightarrow> MD5Context \<Rightarrow> u8 list \<Rightarrow> u32 \<Rightarrow> u8 list option" where
  "md5_wd has_watchdog context input chunk_sz =
     (if has_watchdog
      then map_option MD5Final (wd_loop MD5Update (MD5Init context) input chunk_sz)
      else Some (MD5Final (MD5Update (MD5Init context) input)))"

section \<open>The RFC 1321 definition\<close>

definition rfc_f :: "nat \<Rightarrow> u32 \<Rightarrow> u32 \<Rightarrow> u32 \<Rightarrow> u32" where
  "rfc_f i x y z =
     (if i < 16 then (x AND y) OR (NOT x AND z)
      else if i < 32 then (x AND z) OR (y AND NOT z)
      else if i < 48 then x XOR y XOR z
      else y XOR (x OR NOT z))"

definition rfc_k :: "nat \<Rightarrow> nat" where
  "rfc_k i =
     (if i < 16 then i else if i < 32 then (5 * i + 1) mod 16
      else if i < 48 then (3 * i + 5) mod 16 else (7 * i) mod 16)"

definition rfc_s :: "nat \<Rightarrow> nat" where
  "rfc_s i =
     ([[7, 12, 17, 22], [5, 9, 14, 20], [4, 11, 16, 23], [6, 10, 15, 21]] ! (i div 16)) ! (i mod 4)"

text \<open>The additive constants, in step order: the table of sines of the RFC.\<close>

definition rfc_T :: "nat \<Rightarrow> u32" where
  "rfc_T i = rfc_Ts ! i"

definition rfc_step :: "u32 list \<Rightarrow> nat \<Rightarrow> u32 \<times> u32 \<times> u32 \<times> u32 \<Rightarrow> u32 \<times> u32 \<times> u32 \<times> u32" where
  "rfc_step X i = (\<lambda>(a, b, c, d).
     (d, b + word_rotl (rfc_s i) (a + rfc_f i b c d + X ! rfc_k i + rfc_T i), b, c))"

definition le_words :: "u8 list \<Rightarrow> u32 list" where
  "le_words block = map (\<lambda>b. be32 (b ! 3) (b ! 2) (b ! 1) (b ! 0)) (blocks 4 block)"

definition rfc_compress :: "u32 list \<Rightarrow> u8 list \<Rightarrow> u32 list" where
  "rfc_compress h block =
     (case fold (rfc_step (le_words block)) [0..<64] (h ! 0, h ! 1, h ! 2, h ! 3) of
        (a, b, c, d) \<Rightarrow> [h ! 0 + a, h ! 1 + b, h ! 2 + c, h ! 3 + d])"

definition rfc_init :: "u32 list" where
  "rfc_init = [0x67452301, 0xefcdab89, 0x98badcfe, 0x10325476]"

definition le_bitlen :: "nat \<Rightarrow> u8 list" where
  "le_bitlen n = rev (bytes_be32 (of_nat (8 * n))) @ rev (bytes_be32 (of_nat (8 * n div 2 ^ 32)))"

definition rfc_md5 :: "u8 list \<Rightarrow> u8 list" where
  "rfc_md5 m =
     concat (map (\<lambda>w. rev (bytes_be32 w))
       (foldl rfc_compress rfc_init (blocks 64 (md_pad le_bitlen m))))"

section \<open>Representation\<close>

definition md5_rep :: "MD5Context \<Rightarrow> u8 list \<Rightarrow> bool" where
  "md5_rep ctx m \<longleftrightarrow>
     md5_bits0 ctx = of_nat (8 * length m) \<and> md5_bits1 ctx = of_nat (8 * length m div 2 ^ 32) \<and>
     buf_rep rfc_compress rfc_init (md5_buf ctx) (md5_in ctx) m"

abbreviation md5_state :: "MD5Context \<Rightarrow> u8 list \<Rightarrow> bool" where
  "md5_state ctx m \<equiv> buf_rep rfc_compress rfc_init (md5_buf ctx) (md5_in ctx) m"

definition md5_fresh :: "MD5Context \<Rightarrow> bool" where
  "md5_fresh ctx \<longleftrightarrow> MD5Init ctx = ctx \<and> length (md5_in ctx) = 64"

definition md5_blank :: MD5Context where
  "md5_blank = \<lparr>md5_buf = [], md5_bits0 = 0, md5_bits1 = 0, md5_in = replicate 64 0\<rparr>"

text \<open>The last step of \<open>MD5Final\<close>: the counter stored, the block transformed, the state written out.\<close>

definition md5_wrap :: "MD5Context \<Rightarrow> u8 list" where
  "md5_wrap ctx =
     byteReverse (byte_array (MD5Transform (md5_buf ctx)
       (u32_array (store (store (byteReverse (md5_in ctx) 14) 56 (bytes_be32 (md5_bits0 ctx)))
          60 (bytes_be32 (md5_bits1 ctx)))))) 4"

section \<open>The transform\<close>

lemma md5_F_rfc: "md5_F i x y z = rfc_f i x y z"
proof -
  have f1: "z XOR (x AND (y XOR z)) = (x AND y) OR (NOT x AND z)" for x y z :: u32
    by (rule bit_word_eqI) (auto simp: bit_simps)
  show ?thesis
    by (simp add: md5_F_def rfc_f_def md5_F1_def md5_F2_def md5_F3_def md5_F4_def f1 and.commute)
qed

lemma md5_steps_table: "md5_steps = map (\<lambda>i. (rfc_k i, rfc_T i, rfc_s i)) [0..<64]"
  by (simp add: md5_steps_def upt_rec rfc_k_def rfc_s_def rfc_T_def rfc_Ts_def)

lemma md5_steps_nth: "i < 64 \<Longrightarrow> md5_steps ! i = (rfc_k i, rfc_T i, rfc_s i)"
  by (simp add: md5_steps_table)

lemma rfc_s_less: "i < 64 \<Longrightarrow> rfc_s i < 32"
proof -
  assume "i < 64"
  then have "i div 16 = 0 \<or> i div 16 = 1 \<or> i div 16 = 2 \<or> i div 16 = 3" by arith
  moreover have "i mod 4 = 0 \<or> i mod 4 = 1 \<or> i mod 4 = 2 \<or> i mod 4 = 3" by arith
  ultimately show ?thesis
    by (elim disjE) (simp_all add: rfc_s_def)
qed

lemma rotate_4:
  "rotate 0 [a, b, c, d] = [a, b, c, d]" "rotate 1 [a, b, c, d] = [b, c, d, a]"
  "rotate 2 [a, b, c, d] = [c, d, a, b]" "rotate 3 [a, b, c, d] = [d, a, b, c]"
  by (simp_all add: numeral_eq_Suc)

lemma MD5STEP_roles:
  "MD5STEP f (md5_roles ! 0) x s [a, b, c, d] =
    [(let w = a + (f b c d + x) in push_bit s w OR drop_bit (32 - s) w) + b, b, c, d]"
  "MD5STEP f (md5_roles ! 1) x s [b, c, d, a] =
    [b, c, d, (let w = a + (f b c d + x) in push_bit s w OR drop_bit (32 - s) w) + b]"
  "MD5STEP f (md5_roles ! 2) x s [c, d, a, b] =
    [c, d, (let w = a + (f b c d + x) in push_bit s w OR drop_bit (32 - s) w) + b, b]"
  "MD5STEP f (md5_roles ! 3) x s [d, a, b, c] =
    [d, (let w = a + (f b c d + x) in push_bit s w OR drop_bit (32 - s) w) + b, b, c]"
  by (simp_all add: MD5STEP_def md5_roles_def Let_def numeral_eq_Suc)

lemma md5_step_rotate:
  assumes "i < 64"
  shows "md5_step X i (rotate i [a, b, c, d]) =
    (case rfc_step X i (a, b, c, d) of (a', b', c', d') \<Rightarrow> rotate (Suc i) [a', b', c', d'])"
proof -
  have rot: "rotate n [p, q, r, s] = rotate (n mod 4) [p, q, r, s]" for n and p q r s :: u32
    by (subst rotate_conv_mod) simp
  define w where "w = (let w = a + (md5_F i b c d + (X ! rfc_k i + rfc_T i))
    in push_bit (rfc_s i) w OR drop_bit (32 - rfc_s i) w) + b"
  have step: "rfc_step X i (a, b, c, d) = (d, w, b, c)"
    using rotl_shifts [OF rfc_s_less [OF assms]]
    by (simp add: w_def rfc_step_def md5_F_rfc Let_def ac_simps)
  consider "i mod 4 = 0" "Suc i mod 4 = 1" | "i mod 4 = 1" "Suc i mod 4 = 2"
    | "i mod 4 = 2" "Suc i mod 4 = 3" | "i mod 4 = 3" "Suc i mod 4 = 0"
    by (auto simp: mod_Suc split: if_splits) arith
  then show ?thesis
    unfolding md5_step_def md5_steps_nth [OF assms]
    by cases (simp_all only: rot [of i] rot [of "Suc i"] rotate_4 step MD5STEP_roles
      w_def [symmetric] prod.case)
qed

lemma md5_rounds:
  assumes "n \<le> 64" and "fold (rfc_step X) [0..<n] (h0, h1, h2, h3) = (a, b, c, d)"
  shows "fold (md5_step X) [0..<n] [h0, h1, h2, h3] = rotate n [a, b, c, d]"
  using assms
proof (induction n arbitrary: a b c d)
  case (Suc n)
  obtain p q r s where s: "fold (rfc_step X) [0..<n] (h0, h1, h2, h3) = (p, q, r, s)"
    by (metis prod_cases4)
  with Suc have "fold (md5_step X) [0..<n] [h0, h1, h2, h3] = rotate n [p, q, r, s]"
    by simp
  moreover have "rfc_step X n (p, q, r, s) = (a, b, c, d)"
    using Suc.prems s by simp
  ultimately show ?case
    using md5_step_rotate [of n X p q r s] Suc.prems(1) by simp
qed simp

lemma MD5Transform_rfc:
  assumes "length h = 4"
  shows "MD5Transform h (le_words block) = rfc_compress h block"
proof -
  obtain h0 h1 h2 h3 where h: "h = [h0, h1, h2, h3]"
    using assms by (auto simp: numeral_eq_Suc length_Suc_conv)
  obtain a b c d where s: "fold (rfc_step (le_words block)) [0..<64] (h0, h1, h2, h3) = (a, b, c, d)"
    by (metis prod_cases4)
  have "rotate 64 [a, b, c, d] = [a, b, c, d]"
    by (subst rotate_conv_mod) simp
  then have "fold (md5_step (le_words block)) [0..<64] [h0, h1, h2, h3] = [a, b, c, d]"
    using md5_rounds [OF order_refl s] by simp
  moreover have "rfc_compress [h0, h1, h2, h3] block = [h0 + a, h1 + b, h2 + c, h3 + d]"
    by (simp add: rfc_compress_def s)
  ultimately show ?thesis
    unfolding MD5Transform_def h by simp
qed

section \<open>Byte order\<close>

lemma reverse_word:
  "push_bit 16 (push_bit 8 (ucast b3) OR ucast b2) OR (push_bit 8 (ucast b1) OR ucast (b0 :: u8)) =
    be32 b3 b2 b1 b0"
  by (simp add: be32_def push_bit_or or.assoc)

lemma byteReverse_step:
  "byteReverse (b0 # b1 # b2 # b3 # buf) longs =
    [b3, b2, b1, b0] @ (if longs - 1 \<noteq> 0 then byteReverse buf (longs - 1) else buf)"
  by (simp only: byteReverse.simps Let_def reverse_word bytes_be32_be32)

lemma byteReverse_blocks:
  assumes "length xs = 4 * n" and "0 < n" and "n < 2 ^ 32"
  shows "byteReverse (xs @ rest) (of_nat n) = concat (map rev (blocks 4 xs)) @ rest"
  using assms
proof (induction n arbitrary: xs)
  case (Suc n)
  obtain b0 b1 b2 b3 ys where xs: "xs = [b0, b1, b2, b3] @ ys" and ys: "length ys = 4 * n"
    using Suc.prems(1) by (auto simp: numeral_eq_Suc length_Suc_conv)
  have "blocks 4 xs = [b0, b1, b2, b3] # blocks 4 ys"
    unfolding xs by (rule blocks_append_block) simp_all
  moreover have "(of_nat n :: u32) = 0 \<longleftrightarrow> n = 0"
    using Suc.prems(3) by (auto simp: word_of_nat_eq_0_iff nat_dvd_not_less)
  moreover have "byteReverse (xs @ rest) (of_nat (Suc n)) =
      [b3, b2, b1, b0] @ (if (of_nat n :: u32) \<noteq> 0 then byteReverse (ys @ rest) (of_nat n) else ys @ rest)"
    unfolding xs append_Cons append_Nil byteReverse_step by simp
  ultimately show ?case
    using Suc.IH [OF ys] Suc.prems(3) ys by (cases n) simp_all
qed simp

lemma blocks_concat:
  assumes "0 < n" and "\<And>b. b \<in> set bs \<Longrightarrow> length b = n"
  shows "blocks n (concat bs) = bs"
  using assms(2) by (induction bs) (simp_all add: assms(1))

lemma u32_array_reversed:
  assumes "\<And>b. b \<in> set bs \<Longrightarrow> length b = 4"
  shows "u32_array (concat (map rev bs)) = map (\<lambda>b. be32 (b ! 3) (b ! 2) (b ! 1) (b ! 0)) bs"
proof -
  have "u32_array (concat (map rev bs)) =
      map (\<lambda>b. be32 (b ! 0) (b ! 1) (b ! 2) (b ! 3)) (map rev bs)"
    unfolding u32_array_def using assms by (subst blocks_concat) auto
  then show ?thesis
    using assms by (simp add: rev_nth)
qed

lemma u32_array_byteReverse:
  assumes "length xs = 64"
  shows "u32_array (byteReverse xs 16) = le_words xs" and "length (byteReverse xs 16) = 64"
proof -
  have rev: "byteReverse xs 16 = concat (map rev (blocks 4 xs))"
    using byteReverse_blocks [of xs 16 "[]"] assms by simp
  have len: "\<And>b. b \<in> set (blocks 4 xs) \<Longrightarrow> length b = 4"
    by (rule length_block_in_blocks) simp_all
  show "u32_array (byteReverse xs 16) = le_words xs"
    unfolding rev le_words_def by (rule u32_array_reversed) (rule len)
  have "leftover 4 xs = []"
    using assms length_leftover [of 4 xs] by simp
  then have "length (concat (blocks 4 xs)) = 64"
    using assms blocks_leftover_concat [of 4 xs] by (metis append_Nil2 zero_less_numeral)
  then show "length (byteReverse xs 16) = 64"
    unfolding rev by (simp add: length_concat comp_def)
qed

lemma u32_array_append:
  assumes "length xs mod 4 = 0"
  shows "u32_array (xs @ ys) = u32_array xs @ u32_array ys"
    and "le_words (xs @ ys) = le_words xs @ le_words ys"
proof -
  have "leftover 4 xs = []"
    using assms by (metis length_0_conv length_leftover)
  then have "blocks 4 (xs @ ys) = blocks 4 xs @ blocks 4 ys"
    by (subst blocks_append_leftover) simp_all
  then show "u32_array (xs @ ys) = u32_array xs @ u32_array ys"
    and "le_words (xs @ ys) = le_words xs @ le_words ys"
    by (simp_all add: u32_array_def le_words_def)
qed

lemma word_blocks: "blocks 4 (bytes_be32 w) = [bytes_be32 w]" "blocks 4 (rev (bytes_be32 w)) = [rev (bytes_be32 w)]"
  using blocks_append_block [of "bytes_be32 w" 4 "[]"] blocks_append_block [of "rev (bytes_be32 w)" 4 "[]"]
  by simp_all

lemma u32_array_word [simp]: "u32_array (bytes_be32 w) = [w]" "le_words (rev (bytes_be32 w)) = [w]"
  by (simp_all add: u32_array_def le_words_def word_blocks) (simp_all add: bytes_be32_def)

text \<open>The last block: fourteen words reversed in place, then the two counter words stored.\<close>

lemma final_block_words:
  assumes "length xs = 64"
  shows "u32_array (store (store (byteReverse xs 14) 56 (bytes_be32 b0)) 60 (bytes_be32 b1)) =
    le_words (take 56 xs @ rev (bytes_be32 b0) @ rev (bytes_be32 b1))"
proof -
  let ?x = "take 56 xs"
  have x: "length ?x = 56" using assms by simp
  have len: "\<And>b. b \<in> set (blocks 4 ?x) \<Longrightarrow> length b = 4"
    by (rule length_block_in_blocks) simp_all
  let ?r = "concat (map rev (blocks 4 ?x))"
  have "byteReverse (?x @ drop 56 xs) 14 = ?r @ drop 56 xs"
    using byteReverse_blocks [of ?x 14 "drop 56 xs"] x by simp
  then have rev: "byteReverse xs 14 = ?r @ drop 56 xs"
    by simp
  have "leftover 4 ?x = []"
    using x length_leftover [of 4 ?x] by simp
  then have "concat (blocks 4 ?x) = ?x"
    using blocks_leftover_concat [of 4 ?x] by simp
  then have lr: "length ?r = 56"
    using x by (metis (no_types, lifting) length_concat length_rev map_map comp_def map_eq_conv)
  have "store (store (byteReverse xs 14) 56 (bytes_be32 b0)) 60 (bytes_be32 b1) =
      ?r @ bytes_be32 b0 @ bytes_be32 b1"
    using lr assms by (simp add: rev store_def)
  then show ?thesis
    using lr x u32_array_reversed [OF len]
    by (simp add: u32_array_append le_words_def [of ?x])
qed

section \<open>Streaming\<close>

lemma length_rfc_compress [simp]: "length (rfc_compress h block) = 4"
  by (simp add: rfc_compress_def split: prod.split)

lemma length_foldl_rfc_compress [simp]:
  "length h = 4 \<Longrightarrow> length (foldl rfc_compress h bs) = 4"
  by (induction bs arbitrary: h) simp_all

lemma length_rfc_init [simp]: "length rfc_init = 4"
  by (simp add: rfc_init_def)

lemma md5_state_lengths: "md5_state ctx m \<Longrightarrow> length (md5_buf ctx) = 4 \<and> length (md5_in ctx) = 64"
  by (simp add: buf_rep_def)

lemma md5_block_eq:
  assumes "length (md5_in ctx) = 64" and "length (md5_buf ctx) = 4"
  shows "md5_block ctx = ctx\<lparr>md5_in := byteReverse (md5_in ctx) 16,
    md5_buf := rfc_compress (md5_buf ctx) (md5_in ctx)\<rparr>"
  using assms by (simp add: md5_block_def Let_def u32_array_byteReverse MD5Transform_rfc)

lemma buf_rep_any_buffer:
  assumes "buf_rep compress h0 h buf m" and "length m mod 64 = 0" and "length buf' = 64"
  shows "buf_rep compress h0 h buf' m"
  using assms by (simp add: buf_rep_def)

lemma aligned_sum:
  assumes "length m mod 64 + length a = (64 :: nat)"
  shows "length (m @ a) mod 64 = 0"
  using assms by (metis length_append mod_add_left_eq mod_self)

text \<open>Completing a block: the buffer is left reversed, which no later step reads.\<close>

lemma md5_fill:
  assumes "md5_state ctx m" and "length m mod 64 + length a = 64"
  defines "ctx' \<equiv> md5_block (ctx\<lparr>md5_in := store (md5_in ctx) (length m mod 64) a\<rparr>)"
  shows "md5_state ctx' (m @ a)"
    and "md5_bits0 ctx' = md5_bits0 ctx" and "md5_bits1 ctx' = md5_bits1 ctx"
proof -
  note len = md5_state_lengths [OF assms(1)]
  let ?in = "store (md5_in ctx) (length m mod 64) a"
  have st: "?in = take (length m mod 64) (md5_in ctx) @ a @ drop 64 (md5_in ctx)"
    using assms(2) by (simp add: store_def)
  have "length (take (length m mod 64) (md5_in ctx)) = length m mod 64"
    using len by simp
  then have "length ?in = 64"
    using len assms(2) by (simp add: st)
  then have ctx': "ctx' = ctx\<lparr>md5_in := byteReverse ?in 16, md5_buf := rfc_compress (md5_buf ctx) ?in\<rparr>"
    using len by (simp add: ctx'_def md5_block_eq)
  show "md5_state ctx' (m @ a)"
    using buf_rep_any_buffer [OF buf_rep_fill [OF assms(1,2)] aligned_sum [OF assms(2)]]
      u32_array_byteReverse(2) [OF \<open>length ?in = 64\<close>]
    by (simp add: ctx' st)
  show "md5_bits0 ctx' = md5_bits0 ctx" and "md5_bits1 ctx' = md5_bits1 ctx"
    by (simp_all add: ctx')
qed

lemma md5_update_blocks_state:
  assumes "md5_state ctx m" and "length m mod 64 = 0" and "md5_update_blocks ctx buf = (ctx', rest)"
  shows "\<exists>done. buf = done @ rest \<and> length rest < 64 \<and> length (m @ done) mod 64 = 0 \<and>
    md5_state ctx' (m @ done) \<and> md5_bits0 ctx' = md5_bits0 ctx \<and> md5_bits1 ctx' = md5_bits1 ctx"
  using assms
proof (induction ctx buf arbitrary: m rule: md5_update_blocks.induct)
  case (1 ctx buf)
  show ?case
  proof (cases "64 \<le> length buf")
    case True
    let ?c = "md5_block (ctx\<lparr>md5_in := store (md5_in ctx) 0 (take 64 buf)\<rparr>)"
    have sum: "length m mod 64 + length (take 64 buf) = 64"
      using True "1.prems"(2) by simp
    note fill = md5_fill [OF "1.prems"(1) sum, unfolded "1.prems"(2)]
    have "md5_update_blocks ?c (drop 64 buf) = (ctx', rest)"
      using True "1.prems"(3) by (subst (asm) md5_update_blocks.simps) simp
    from "1.IH" [OF True fill(1) aligned_sum [OF sum] this] obtain d where
      "drop 64 buf = d @ rest" "length rest < 64" "length ((m @ take 64 buf) @ d) mod 64 = 0"
      "md5_state ctx' ((m @ take 64 buf) @ d)"
      "md5_bits0 ctx' = md5_bits0 ctx" "md5_bits1 ctx' = md5_bits1 ctx"
      using fill(2,3) by auto
    then show ?thesis
      by (intro exI [of _ "take 64 buf @ d"]) (simp, metis append_take_drop_id)
  next
    case False
    with "1.prems" show ?thesis
      by (subst (asm) md5_update_blocks.simps) auto
  qed
qed

text \<open>The bit counter: the shifted low word, its carry and the three bits shifted out of it.\<close>

lemma md5_bits_mod: "unat (drop_bit 3 (of_nat (8 * n) :: u32) AND 0x3f) = n mod 64"
proof -
  have "drop_bit 3 (of_nat (8 * n) :: u32) AND mask 6 = of_nat (n mod 64)"
  proof (rule bit_word_eqI)
    fix i assume "i < LENGTH(32)"
    have "8 * n = push_bit 3 n" and "n mod 64 = take_bit 6 n"
      by (simp_all add: push_bit_eq_mult take_bit_eq_mod)
    then show "bit (drop_bit 3 (of_nat (8 * n) :: u32) AND mask 6) i = bit (of_nat (n mod 64) :: u32) i"
      by (auto simp: bit_and_iff bit_mask_iff bit_drop_bit_eq bit_of_nat_iff bit_push_bit_iff bit_take_bit_iff)
  qed
  moreover have "(0x3f :: u32) = mask 6"
    by (simp add: mask_eq_exp_minus_1)
  ultimately have "drop_bit 3 (of_nat (8 * n) :: u32) AND 0x3f = of_nat (n mod 64)"
    by (simp only:)
  moreover have "n mod 64 < 64" by simp
  then have "n mod 64 < 2 ^ LENGTH(32)" by simp
  ultimately show ?thesis
    by (simp add: unat_of_nat)
qed

lemma counter_carry_wide:
  shows "of_nat ((n + k) div 2 ^ 32) =
    (of_nat (n div 2 ^ 32) :: u32) + (if (of_nat (n + k) :: u32) < of_nat n then 1 else 0) +
    of_nat (k div 2 ^ 32)"
proof -
  define d :: nat where "d = 2 ^ 32"
  have x: "k mod d < d" "n mod d < d"
    by (simp_all add: d_def)
  have "(of_nat (n + k) :: u32) < of_nat n \<longleftrightarrow> (n + k) mod d < n mod d"
    unfolding word_less_nat_alt unat_of_nat d_def by simp
  also have "\<dots> \<longleftrightarrow> (k mod d + n mod d) mod d < n mod d"
    by (simp add: mod_add_eq add.commute)
  also have "\<dots> \<longleftrightarrow> d \<le> k mod d + n mod d"
    using x by (rule add_wrap)
  finally have wrap: "(of_nat (n + k) :: u32) < of_nat n \<longleftrightarrow> d \<le> k mod d + n mod d" .
  have "(n + k) div d = n div d + k div d + (k mod d + n mod d) div d"
    using div_add1_eq [of n k d] by (simp add: add.commute)
  also have "\<dots> = n div d + k div d + (if d \<le> k mod d + n mod d then 1 else 0)"
    using add_wrap(2) [OF x] by simp
  finally show ?thesis
    unfolding wrap d_def [symmetric] by simp
qed

lemma md5_count_bits:
  assumes "md5_bits0 ctx = of_nat (8 * n)" and "md5_bits1 ctx = of_nat (8 * n div 2 ^ 32)"
    and "len < 2 ^ 32"
  shows "md5_bits0 (md5_count ctx len) = of_nat (8 * (n + len))"
    and "md5_bits1 (md5_count ctx len) = of_nat (8 * (n + len) div 2 ^ 32)"
proof -
  have low: "of_nat (8 * n) + push_bit 3 (of_nat len) = (of_nat (8 * n + 8 * len) :: u32)"
    unfolding bitlen_low by simp
  have "len div 2 ^ 32 = 0"
    using assms(3) by simp
  then have high: "drop_bit 29 (of_nat len :: u32) = of_nat (8 * len div 2 ^ 32)"
    using bitlen_high [of len] by (simp only: semiring_1_class.of_nat_0 push_bit_of_0 or.right_neutral)
  show "md5_bits0 (md5_count ctx len) = of_nat (8 * (n + len))"
    by (simp add: md5_count_def Let_def assms(1) low [simplified] distrib_left push_bit_eq_mult)
  have "md5_bits1 (md5_count ctx len) =
      of_nat (8 * n div 2 ^ 32) + (if (of_nat (8 * n + 8 * len) :: u32) < of_nat (8 * n) then 1 else 0) +
      of_nat (8 * len div 2 ^ 32)"
    unfolding md5_count_def Let_def assms(1,2) low high by simp
  also have "\<dots> = of_nat (8 * (n + len) div 2 ^ 32)"
    unfolding counter_carry_wide [symmetric] distrib_left ..
  finally show "md5_bits1 (md5_count ctx len) = of_nat (8 * (n + len) div 2 ^ 32)" .
qed

lemma md5_count_frame [simp]:
  "md5_buf (md5_count ctx len) = md5_buf ctx" "md5_in (md5_count ctx len) = md5_in ctx"
  by (simp_all add: md5_count_def Let_def)

lemma md5_update_state:
  assumes "md5_state ctx m" and "unat (drop_bit 3 (md5_bits0 ctx) AND 0x3f) = length m mod 64"
  shows "md5_state (MD5Update ctx buf) (m @ buf)"
    and "md5_bits0 (MD5Update ctx buf) = md5_bits0 (md5_count ctx (length buf))"
    and "md5_bits1 (MD5Update ctx buf) = md5_bits1 (md5_count ctx (length buf))"
proof -
  let ?t = "length m mod 64" and ?c1 = "md5_count ctx (length buf)"
  have c1: "md5_state ?c1 m" using assms(1) by simp
  have "md5_state (MD5Update ctx buf) (m @ buf) \<and> md5_bits0 (MD5Update ctx buf) = md5_bits0 ?c1 \<and>
    md5_bits1 (MD5Update ctx buf) = md5_bits1 ?c1"
  proof (cases "?t \<noteq> 0 \<and> length buf < 64 - ?t")
    case True
    then have "?t + length buf < 64" by linarith
    from buf_rep_store [OF c1 this] show ?thesis
      using True unfolding MD5Update_def Let_def assms(2) by (simp add: store_def)
  next
    case False
    let ?p = "if ?t \<noteq> 0 then (md5_block (?c1\<lparr>md5_in := store (md5_in ?c1) ?t (take (64 - ?t) buf)\<rparr>),
      drop (64 - ?t) buf) else (?c1, buf)"
    obtain c2 buf2 where p: "?p = (c2, buf2)" by fastforce
    obtain c3 buf3 where blocks: "md5_update_blocks c2 buf2 = (c3, buf3)" by fastforce
    have upd: "MD5Update ctx buf = c3\<lparr>md5_in := store (md5_in c3) 0 buf3\<rparr>"
      unfolding MD5Update_def Let_def assms(2) p prod.case blocks if_not_P [OF False] ..
    have "?t < 64" by simp
    have "\<exists>a. buf = a @ buf2 \<and> md5_state c2 (m @ a) \<and> length (m @ a) mod 64 = 0 \<and>
      md5_bits0 c2 = md5_bits0 ?c1 \<and> md5_bits1 c2 = md5_bits1 ?c1"
    proof (cases "?t = 0")
      case True
      then have "c2 = ?c1" "buf2 = buf" using p by auto
      then show ?thesis using c1 True by (intro exI [of _ "[]"]) simp
    next
      case nz: False
      let ?a = "take (64 - ?t) buf"
      have sum: "?t + length ?a = 64"
        using False nz \<open>?t < 64\<close> by simp
      have c2: "c2 = md5_block (?c1\<lparr>md5_in := store (md5_in ?c1) ?t ?a\<rparr>)" and "buf2 = drop (64 - ?t) buf"
        using p unfolding if_P [OF nz] by (simp_all only: prod.inject)
      then have "buf = ?a @ buf2" by (simp only: append_take_drop_id)
      then show ?thesis
        using md5_fill [OF c1 sum, folded c2] aligned_sum [OF sum] by (intro exI [of _ ?a] conjI)
    qed
    then obtain a where a: "buf = a @ buf2" "md5_state c2 (m @ a)" "length (m @ a) mod 64 = 0"
      "md5_bits0 c2 = md5_bits0 ?c1" "md5_bits1 c2 = md5_bits1 ?c1"
      by (elim exE conjE) (rule that)
    from md5_update_blocks_state [OF a(2,3) blocks] obtain d where
      d: "buf2 = d @ buf3" "length buf3 < 64" "length ((m @ a) @ d) mod 64 = 0"
      "md5_state c3 ((m @ a) @ d)" "md5_bits0 c3 = md5_bits0 c2" "md5_bits1 c3 = md5_bits1 c2"
      by (elim exE conjE) (rule that)
    have "length ((m @ a) @ d) mod 64 + length buf3 < 64"
      using d(2,3) by (simp only: add_0)
    note st = buf_rep_store [OF d(4) this, unfolded d(3)]
    have "m @ buf = ((m @ a) @ d) @ buf3"
      unfolding a(1) d(1) by (simp only: append_assoc)
    then have "md5_state (MD5Update ctx buf) (m @ buf)"
      using st unfolding upd by (simp add: store_def)
    moreover have "md5_bits0 (MD5Update ctx buf) = md5_bits0 ?c1"
      using d(5) a(4) unfolding upd by simp
    moreover have "md5_bits1 (MD5Update ctx buf) = md5_bits1 ?c1"
      using d(6) a(5) unfolding upd by simp
    ultimately show ?thesis by blast
  qed
  then show "md5_state (MD5Update ctx buf) (m @ buf)"
    and "md5_bits0 (MD5Update ctx buf) = md5_bits0 ?c1"
    and "md5_bits1 (MD5Update ctx buf) = md5_bits1 ?c1"
    by simp_all
qed

lemma md5_rep_bits: "md5_rep ctx m \<Longrightarrow> unat (drop_bit 3 (md5_bits0 ctx) AND 0x3f) = length m mod 64"
  by (simp only: md5_rep_def md5_bits_mod)

lemma md5_rep_update:
  assumes "md5_rep ctx m" and "length buf < 2 ^ 32"
  shows "md5_rep (MD5Update ctx buf) (m @ buf)"
proof -
  have state: "md5_state ctx m"
    and bits: "md5_bits0 ctx = of_nat (8 * length m)" "md5_bits1 ctx = of_nat (8 * length m div 2 ^ 32)"
    using assms(1) by (simp_all add: md5_rep_def)
  note upd = md5_update_state [OF state md5_rep_bits [OF assms(1)], of buf]
  show ?thesis
    unfolding md5_rep_def length_append upd(2,3)
    using upd(1) md5_count_bits [OF bits assms(2)] by blast
qed

text \<open>The padding of the last block, or of the last two.\<close>

lemma store_store: "store (store buf t [x]) (t + 1) xs = store buf t (x # xs)" if "t < length buf"
  using that by (simp add: store_def add.commute)

lemma byteReverse_byte_array:
  assumes "length out = 4"
  shows "byteReverse (byte_array out) 4 = concat (map (\<lambda>w. rev (bytes_be32 w)) out)"
proof -
  have "blocks 4 (byte_array out) = map bytes_be32 out"
    unfolding byte_array_def by (rule blocks_concat) auto
  moreover obtain a b c d where "out = [a, b, c, d]"
    using assms by (auto simp: numeral_eq_Suc length_Suc_conv)
  then have "length (byte_array out) = 16"
    by (simp add: byte_array_def)
  ultimately show ?thesis
    using byteReverse_blocks [of "byte_array out" 4 "[]"] by (simp add: comp_def)
qed

lemma md5_wrap_rfc:
  assumes "md5_buf ctx = foldl rfc_compress rfc_init bs" and "length (md5_in ctx) = 64"
  shows "md5_wrap ctx = concat (map (\<lambda>w. rev (bytes_be32 w)) (foldl rfc_compress rfc_init
    (bs @ [take 56 (md5_in ctx) @ rev (bytes_be32 (md5_bits0 ctx)) @ rev (bytes_be32 (md5_bits1 ctx))])))"
  using assms by (simp add: md5_wrap_def final_block_words MD5Transform_rfc byteReverse_byte_array)

lemma MD5Final_wrap:
  assumes "unat (drop_bit 3 (md5_bits0 ctx) AND 0x3f) = t" and "t < length (md5_in ctx)"
  shows "MD5Final ctx = md5_wrap
    (if 64 - 1 - t < 8 then
       let c = md5_block (ctx\<lparr>md5_in := store (md5_in ctx) t (0x80 # replicate (64 - 1 - t) 0)\<rparr>)
       in c\<lparr>md5_in := store (md5_in c) 0 (replicate 56 0)\<rparr>
     else ctx\<lparr>md5_in := store (md5_in ctx) t (0x80 # replicate (64 - 1 - t - 8) 0)\<rparr>)"
  unfolding MD5Final_def md5_wrap_def Let_def assms(1)
  using assms(2) by (simp add: store_store [simplified])

lemma md5_rep_final:
  assumes "md5_rep ctx m"
  shows "MD5Final ctx = rfc_md5 m"
proof -
  let ?t = "length m mod 64"
  let ?len = "rev (bytes_be32 (md5_bits0 ctx)) @ rev (bytes_be32 (md5_bits1 ctx))"
  have state: "md5_state ctx m" and len: "?len = le_bitlen (length m)"
    using assms by (simp_all add: md5_rep_def le_bitlen_def)
  have l: "length (md5_in ctx) = 64" and t: "?t < 64"
    using md5_state_lengths [OF state] by simp_all
  have l8: "length (le_bitlen (length m)) = 8"
    by (simp add: le_bitlen_def)
  note fin = MD5Final_wrap [OF md5_rep_bits [OF assms], unfolded l, OF t]
  show ?thesis
  proof (cases "64 - 1 - ?t < 8")
    case True
    let ?a = "0x80 # replicate (64 - 1 - ?t) 0"
    let ?c = "md5_block (ctx\<lparr>md5_in := store (md5_in ctx) ?t ?a\<rparr>)"
    have sum: "?t + length ?a = 64" using t by simp
    note fill = md5_fill [OF state sum]
    have l': "length (md5_in ?c) = 64"
      using md5_state_lengths [OF fill(1)] by simp
    have pad: "md_pad le_bitlen m = (m @ ?a) @ (replicate 56 0 @ le_bitlen (length m))"
      using True t by (simp add: md_pad_def pad_zeros_cases replicate_add [symmetric])
    have "blocks 64 (md_pad le_bitlen m) = blocks 64 (m @ ?a) @ [replicate 56 0 @ le_bitlen (length m)]"
      unfolding pad blocks_aligned(1) [OF aligned_sum [OF sum]]
      using blocks_append_block [of "replicate 56 0 @ le_bitlen (length m)" 64 "[]"] l8 by simp
    moreover have "md5_buf ?c = foldl rfc_compress rfc_init (blocks 64 (m @ ?a))"
      using fill(1) by (simp add: buf_rep_def)
    ultimately show ?thesis
      using True l' fill(2,3) len by (simp add: fin Let_def rfc_md5_def md5_wrap_rfc store_def)
  next
    case False
    let ?a = "0x80 # replicate (64 - 1 - ?t - 8) 0"
    have sum: "length (leftover 64 m) + length (?a @ le_bitlen (length m)) = 64"
      using False l8 by (simp add: length_leftover)
    have pad: "md_pad le_bitlen m = m @ (?a @ le_bitlen (length m)) @ []"
      using False t by (simp add: md_pad_def pad_zeros_cases)
    have "blocks 64 (md_pad le_bitlen m) = blocks 64 m @ [leftover 64 m @ ?a @ le_bitlen (length m)]"
      unfolding pad blocks_fill(1) [OF sum] by simp
    moreover have "take ?t (md5_in ctx) = leftover 64 m" "length (leftover 64 m) = ?t"
      and "md5_buf ctx = foldl rfc_compress rfc_init (blocks 64 m)"
      using state by (simp_all add: buf_rep_def length_leftover)
    moreover have "56 - ?t = Suc (55 - ?t)"
      using False by linarith
    ultimately show ?thesis
      using False l len by (simp add: fin rfc_md5_def md5_wrap_rfc store_def)
  qed
qed

lemma md5_fresh_init: "length (md5_in ctx) = 64 \<Longrightarrow> md5_fresh (MD5Init ctx)"
  by (simp add: md5_fresh_def MD5Init_def)

lemma md5_rep_init: "length (md5_in ctx) = 64 \<Longrightarrow> md5_rep (MD5Init ctx) []"
  by (simp add: md5_rep_def MD5Init_def buf_rep_def rfc_init_def)

interpretation md5: digest md5_rep MD5Update "\<lambda>n. n < 2 ^ 32" md5_fresh MD5Final rfc_md5
proof unfold_locales
  fix ctx assume "md5_fresh ctx"
  then show "md5_rep ctx []"
    using md5_rep_init [of ctx] by (simp add: md5_fresh_def)
qed (auto intro: md5_rep_update md5_rep_final)

section \<open>Properties\<close>

text \<open>
  C30: for every message below 4 GB and whatever the uninitialised context holds, \<open>md5\<close> returns the
  RFC 1321 digest of the message, on the big-endian target. The constants of the reference are the
  integer parts of \<open>2 ^ 32 * |sin i|\<close> (\<open>rfc_Ts_sines\<close>), not those of the code.
\<close>

theorem md5_correct:
  assumes "length (md5_in context) = 64" and "length input < 2 ^ 32"
  shows "md5 context input = rfc_md5 input"
  using assms unfolding md5_def by (intro md5.one_shot md5_fresh_init)

theorem md5_correct_witness: "md5 md5_blank [0x61, 0x62, 0x63] = rfc_md5 [0x61, 0x62, 0x63]"
  by (rule md5_correct) (simp_all add: md5_blank_def)

text \<open>
  \<open>md5_wd\<close> terminates for every nonzero chunk size, with and without a watchdog configured, and
  returns the same RFC 1321 digest.
\<close>

lemma md5_wd_correct:
  assumes "length (md5_in context) = 64" and "length input < 2 ^ 32" and "chunk_sz \<noteq> 0"
  shows "md5_wd has_watchdog context input chunk_sz = Some (rfc_md5 input)"
  using assms md5.chunked [OF md5_fresh_init] md5.one_shot [OF md5_fresh_init]
  by (simp add: md5_wd_def)

end
