(* ===== verification/C_Memory.thy ===== *)
theory C_Memory
  imports Prelude
begin

text \<open>
  The byte-addressed memory of the target as the string routines see it: a function from 32-bit
  addresses to bytes, whose address arithmetic wraps. The theory holds the vocabulary in which the
  contracts of the memory routines are stated (areas, their contents, strings that end in a zero
  byte) and the lemmas that carry their proofs.
\<close>

section \<open>Areas and strings\<close>

text \<open>The \<open>n\<close> bytes that start at \<open>p\<close>.\<close>

definition load :: "mem \<Rightarrow> addr \<Rightarrow> nat \<Rightarrow> u8 list" where
  "load m p n = map (\<lambda>i. m (p + of_nat i)) [0..<n]"

text \<open>The offset of \<open>a\<close> from \<open>p\<close>, and the area of \<open>n\<close> bytes at \<open>p\<close>.\<close>

definition offset :: "addr \<Rightarrow> addr \<Rightarrow> nat" where
  "offset p a = unat (a - p)"

definition area :: "addr \<Rightarrow> nat \<Rightarrow> addr set" where
  "area p n = {a. offset p a < n}"

definition overwrite :: "mem \<Rightarrow> addr \<Rightarrow> u8 list \<Rightarrow> mem" where
  "overwrite m p xs = (\<lambda>a. if offset p a < length xs then xs ! offset p a else m a)"

text \<open>The string at \<open>p\<close> is \<open>xs\<close>, without its terminating zero.\<close>

fun str_at :: "mem \<Rightarrow> addr \<Rightarrow> u8 list \<Rightarrow> bool" where
  "str_at m p [] = (m p = 0)"
| "str_at m p (x # xs) = (x \<noteq> 0 \<and> m p = x \<and> str_at m (p + 1) xs)"

section \<open>Offsets\<close>

lemma offset_self [simp]: "offset p p = 0"
  by (simp add: offset_def)

lemma offset_plus [simp]: "n < 2 ^ 32 \<Longrightarrow> offset p (p + of_nat n) = n"
  by (simp add: offset_def unat_of_nat)

lemma of_nat_eq32: "a < 2 ^ 32 \<Longrightarrow> b < 2 ^ 32 \<Longrightarrow> (of_nat a :: u32) = of_nat b \<longleftrightarrow> a = b"
  by (simp add: word_unat_eq_iff unat_of_nat)

lemma offset_less: "offset p a < 2 ^ 32"
  using unsigned_less [of "a - p", where ?'a = nat] by (simp add: offset_def)

lemma offset_inverse [simp]: "p + of_nat (offset p a) = a"
  by (simp add: offset_def)

lemma offset_eq_0 [simp]: "offset p a = 0 \<longleftrightarrow> a = p"
  by (auto simp: offset_def unat_eq_zero)

lemma offset_step:
  assumes "a \<noteq> p"
  shows "offset p a = Suc (offset (p + 1) a)"
proof -
  have "a - p \<noteq> 0" using assms by simp
  then have "unat (a - p) = Suc (unat (a - p - 1))"
    by (simp add: unat_minus_one unat_gt_0)
  then show ?thesis
    by (simp add: offset_def diff_diff_eq)
qed

lemma offset_Suc_self: "offset (p + 1) p = 2 ^ 32 - 1"
  by (simp add: offset_def unsigned_minus_1_eq_mask mask_eq_exp_minus_1)

text \<open>Between non-wrapping areas offsets are differences of the addresses.\<close>

lemma offset_unat: "unat p \<le> unat a \<Longrightarrow> offset p a = unat a - unat p"
  by (simp add: offset_def unat_sub word_le_nat_alt)

lemma unat_plus_of_nat: "unat p + n < 2 ^ 32 \<Longrightarrow> unat (p + of_nat n :: addr) = unat p + n"
proof -
  assume a: "unat p + n < 2 ^ 32"
  then have "unat (of_nat n :: addr) = n"
    by (simp add: unat_of_nat)
  with a show ?thesis
    by (subst unat_add_lem [THEN iffD1]) simp_all
qed

lemma area_nowrap:
  assumes "unat p + n \<le> 2 ^ 32"
  shows "a \<in> area p n \<longleftrightarrow> unat p \<le> unat a \<and> unat a < unat p + n"
proof (cases "unat p \<le> unat a")
  case True
  then show ?thesis by (auto simp: area_def offset_unat)
next
  case False
  have "unat a = unat p + offset p a" if "offset p a < n"
    using unat_plus_of_nat [of p "offset p a"] assms that by simp
  with False show ?thesis by (auto simp: area_def)
qed

section \<open>Contents\<close>

lemma length_load [simp]: "length (load m p n) = n"
  by (simp add: load_def)

lemma load_0 [simp]: "load m p 0 = []"
  by (simp add: load_def)

lemma nth_load [simp]: "i < n \<Longrightarrow> load m p n ! i = m (p + of_nat i)"
  by (simp add: load_def)

lemma load_Suc: "load m p (Suc n) = m p # load m (p + 1) n"
  by (rule nth_equalityI) (auto simp: nth_Cons ac_simps split: nat.splits)

lemma load_add: "load m p (a + b) = load m p a @ load m (p + of_nat a) b"
  by (rule nth_equalityI) (auto simp: nth_append ac_simps of_nat_diff)

lemma overwrite_Nil [simp]: "overwrite m p [] = m"
  by (simp add: overwrite_def fun_eq_iff)

lemma overwrite_Cons:
  assumes "length xs < 2 ^ 32"
  shows "overwrite m p (x # xs) = overwrite (m(p := x)) (p + 1) xs"
proof
  fix a
  show "overwrite m p (x # xs) a = overwrite (m(p := x)) (p + 1) xs a"
  proof (cases "a = p")
    case True
    then show ?thesis using assms by (simp add: overwrite_def offset_Suc_self)
  next
    case False
    then show ?thesis by (simp add: overwrite_def offset_step)
  qed
qed

lemma load_overwrite:
  assumes "length xs \<le> 2 ^ 32"
  shows "load (overwrite m p xs) p (length xs) = xs"
  using assms by (intro nth_equalityI) (auto simp: overwrite_def)

lemma overwrite_outside: "a \<notin> area p (length xs) \<Longrightarrow> overwrite m p xs a = m a"
  by (simp add: overwrite_def area_def)

lemma load_cong: "(\<And>a. a \<in> area p n \<Longrightarrow> m a = m' a) \<Longrightarrow> n \<le> 2 ^ 32 \<Longrightarrow> load m p n = load m' p n"
  by (intro nth_equalityI) (auto simp: area_def)

lemma overwrite_snoc:
  assumes "length xs < 2 ^ 32"
  shows "overwrite m p (xs @ [x]) = overwrite (m(p + of_nat (length xs) := x)) p xs"
proof
  fix a
  have "offset p a = length xs \<longleftrightarrow> a = p + of_nat (length xs)"
    using assms by (metis offset_inverse offset_plus)
  then show "overwrite m p (xs @ [x]) a = overwrite (m(p + of_nat (length xs) := x)) p xs a"
    by (auto simp: overwrite_def nth_append)
qed

lemma load_upd_outside: "a \<notin> area p n \<Longrightarrow> n \<le> 2 ^ 32 \<Longrightarrow> load (m(a := x)) p n = load m p n"
  by (rule load_cong) auto

lemma area_shift: "a \<in> area (p + 1) n \<Longrightarrow> n < 2 ^ 32 \<Longrightarrow> a \<in> area p (Suc n)"
  by (cases "a = p") (simp_all add: area_def offset_step offset_Suc_self)

lemma area_mono: "a \<in> area p n \<Longrightarrow> n \<le> k \<Longrightarrow> a \<in> area p k"
  by (simp add: area_def)

lemma area_plus: "i < n \<Longrightarrow> n \<le> 2 ^ 32 \<Longrightarrow> p + of_nat i \<in> area p n"
  by (simp add: area_def)

section \<open>Strings\<close>

lemma str_at_nonzero: "str_at m p xs \<Longrightarrow> 0 \<notin> set xs"
  by (induction m p xs rule: str_at.induct) auto

lemma str_at_iff: "str_at m p xs \<longleftrightarrow> load m p (length xs) = xs \<and> 0 \<notin> set xs \<and> m (p + of_nat (length xs)) = 0"
  by (induction m p xs rule: str_at.induct) (auto simp: load_Suc ac_simps)

lemma str_at_nth: "str_at m p xs \<Longrightarrow> i < length xs \<Longrightarrow> m (p + of_nat i) = xs ! i"
  by (metis nth_load str_at_iff)

lemma str_at_end: "str_at m p xs \<Longrightarrow> m (p + of_nat (length xs)) = 0"
  by (simp add: str_at_iff)

text \<open>A string does not cover the whole address space: it has a zero byte.\<close>

lemma str_at_length:
  assumes "str_at m p xs"
  shows "length xs < 2 ^ 32"
proof (rule ccontr)
  assume "\<not> length xs < 2 ^ 32"
  then have "offset p (p + of_nat (length xs)) < length xs"
    using offset_less [of p] by (metis linorder_not_le order_less_le_trans)
  from str_at_nth [OF assms this] have "xs ! offset p (p + of_nat (length xs)) = 0"
    using str_at_end [OF assms] by simp
  then show False
    using str_at_nonzero [OF assms] \<open>offset p _ < _\<close> by (metis nth_mem)
qed

lemma str_at_drop: "str_at m p xs \<Longrightarrow> i \<le> length xs \<Longrightarrow> str_at m (p + of_nat i) (drop i xs)"
proof (induction i arbitrary: p xs)
  case (Suc i)
  then obtain x ys where "xs = x # ys" by (cases xs) auto
  with Suc.IH [of "p + 1" ys] Suc.prems show ?case by (simp add: add.assoc)
qed simp

lemma str_at_unique: "str_at m p xs \<Longrightarrow> str_at m p ys \<Longrightarrow> xs = ys"
proof (induction xs arbitrary: p ys)
  case Nil
  then show ?case by (cases ys) auto
next
  case (Cons x xs)
  then show ?case by (cases ys) auto
qed

lemma str_at_cong:
  assumes "str_at m p xs" and "\<And>a. a \<in> area p (Suc (length xs)) \<Longrightarrow> m' a = m a"
  shows "str_at m' p xs"
proof -
  have len: "length xs < 2 ^ 32" using assms(1) by (rule str_at_length)
  have "load m' p (length xs) = load m p (length xs)"
    using assms(2) len by (intro load_cong) (auto simp: area_def)
  then show ?thesis
    using assms len by (simp add: str_at_iff area_def)
qed

lemma str_at_overwrite:
  assumes "0 \<notin> set xs" and "length xs < 2 ^ 32"
  shows "str_at (overwrite m p (xs @ [0])) p xs"
proof -
  have len: "length (xs @ [0]) \<le> 2 ^ 32" using assms(2) by simp
  have "load (overwrite m p (xs @ [0])) p (length xs) @ [overwrite m p (xs @ [0]) (p + of_nat (length xs))] =
      xs @ [0]"
    using load_overwrite [OF len, of m p] load_add [of _ p "length xs" 1]
    by (simp add: load_Suc del: load_add)
  then show ?thesis
    using assms by (simp add: str_at_iff)
qed

section \<open>Parts of an area\<close>

lemma load_prefix:
  assumes "load m p (length (xs @ ys)) = xs @ ys"
  shows "load m p (length xs) = xs" "load m (p + of_nat (length xs)) (length ys) = ys"
  using assms by (simp_all add: load_add)

lemma load_nth_eq: "load m p n = xs \<Longrightarrow> i < n \<Longrightarrow> m (p + of_nat i) = xs ! i"
  by (metis nth_load)

lemma load_take: "load m p n = xs \<Longrightarrow> k \<le> n \<Longrightarrow> load m p k = take k xs"
  using load_add [of m p k "n - k"] by auto

lemma offset_between:
  assumes "i < 2 ^ 32" and "k < 2 ^ 32"
  shows "offset (p + of_nat k) (p + of_nat i) = (if k \<le> i then i - k else 2 ^ 32 - (k - i))"
proof (cases "k \<le> i")
  case True
  then have "p + of_nat i = (p + of_nat k) + of_nat (i - k)" by (simp add: of_nat_diff)
  then show ?thesis using assms(1) True by (simp only: offset_plus [OF le_less_trans [OF diff_le_self assms(1)]]) simp
next
  case False
  have z: "(of_nat (2 ^ 32) :: u32) = 0" by (rule word_uint_eqI) simp
  have "(2 ^ 32 - (k - i)) + k = 2 ^ 32 + i" using False assms by simp
  then have "(of_nat ((2 ^ 32 - (k - i)) + k) :: u32) = of_nat (2 ^ 32 + i)" by (simp only:)
  then have "(of_nat (2 ^ 32 - (k - i)) :: u32) + of_nat k = of_nat i" by (simp only: of_nat_add z) simp
  then have "p + of_nat i = (p + of_nat k) + of_nat (2 ^ 32 - (k - i))" by (simp only: ac_simps)
  moreover have "2 ^ 32 - (k - i) < (2 ^ 32 :: nat)" using False by simp
  ultimately show ?thesis using False by (simp only: offset_plus) simp
qed

lemma load_overwrite_mid:
  assumes "k + length ys \<le> n" and "n \<le> 2 ^ 32"
  shows "load (overwrite m (p + of_nat k) ys) p n = take k (load m p n) @ ys @ drop (k + length ys) (load m p n)"
    (is "?l = ?r")
proof (cases "ys = []")
  case False
  show ?thesis
  proof (rule nth_equalityI)
    show "length ?l = length ?r" using assms(1) by simp
    fix i assume "i < length ?l"
    then have i: "i < n" by simp
    then have i32: "i < 2 ^ 32" using assms(2) by (rule less_le_trans)
    have "0 < length ys" using False by simp
    then have "k < n" using assms(1) by linarith
    then have k32: "k < 2 ^ 32" using assms(2) by (rule less_le_trans)
    consider "i < k" | "k \<le> i" "i < k + length ys" | "k + length ys \<le> i" by linarith
    then show "?l ! i = ?r ! i"
    proof cases
      case 1
      then have "\<not> offset (p + of_nat k) (p + of_nat i) < length ys"
        using assms i k32 by (simp only: offset_between [OF i32 k32]) simp
      then show ?thesis using 1 i by (simp add: nth_append overwrite_def)
    next
      case 2
      then have "offset (p + of_nat k) (p + of_nat i) = i - k"
        by (simp only: offset_between [OF i32 k32]) simp
      moreover have "i - k < length ys" using 2 by linarith
      ultimately show ?thesis using 2 i \<open>k < n\<close> by (simp add: nth_append overwrite_def)
    next
      case 3
      then have "offset (p + of_nat k) (p + of_nat i) = i - k"
        by (simp only: offset_between [OF i32 k32]) simp
      then have "overwrite m (p + of_nat k) ys (p + of_nat i) = m (p + of_nat i)"
        using 3 by (auto simp: overwrite_def)
      moreover have "\<not> i - k < length ys" using 3 by linarith
      ultimately show ?thesis using 3 i \<open>k < n\<close> by (simp add: nth_append of_nat_diff)
    qed
  qed
qed simp

lemma load_part: "k + l \<le> n \<Longrightarrow> load m (p + of_nat k) l = take l (drop k (load m p n))"
  by (rule nth_equalityI) (simp_all add: ac_simps)

lemma load_overwrite_disjoint:
  assumes "area p n \<inter> area q (length ys) = {}" and "n \<le> 2 ^ 32"
  shows "load (overwrite m q ys) p n = load m p n"
  using assms by (intro load_cong) (auto intro: overwrite_outside)

end
