(* ===== verification/Lib_String.thy ===== *)
theory Lib_String
  imports C_Memory "HOL-Library.Monad_Syntax" "HOL-Library.Sublist"
begin

text \<open>
  The string and memory routines of \<^verbatim>\<open>lib_generic/string.c\<close>, over the explicit memory of
  \<^verbatim>\<open>C_Memory\<close>. Loops bounded by a count are recursive on that count; loops that run until a zero
  byte are partial functions, \<open>None\<close> meaning that the loop does not end, so every theorem on them
  also states that they return. A routine that writes returns the memory it leaves.
\<close>

section \<open>The code\<close>

text \<open>\<open>while ((*dest++ = *src++) != '\0')\<close>, the loop of \<open>strcpy\<close> and the second one of \<open>strcat\<close>.\<close>

partial_function (option) strcpy_loop :: "mem \<Rightarrow> addr \<Rightarrow> addr \<Rightarrow> mem option" where
  "strcpy_loop m dest src =
     (let c = m src; m' = m(dest := c)
      in if c \<noteq> 0 then strcpy_loop m' (dest + 1) (src + 1) else Some m')"

definition strcpy :: "mem \<Rightarrow> addr \<Rightarrow> addr \<Rightarrow> (addr \<times> mem) option" where
  "strcpy m dest src = do { m' \<leftarrow> strcpy_loop m dest src; Some (dest, m') }"

fun strncpy_loop :: "mem \<Rightarrow> addr \<Rightarrow> addr \<Rightarrow> nat \<Rightarrow> mem" where
  "strncpy_loop m dest src 0 = m"
| "strncpy_loop m dest src (Suc count) =
     (let c = m src; m' = m(dest := c)
      in if c \<noteq> 0 then strncpy_loop m' (dest + 1) (src + 1) count else m')"

definition strncpy :: "mem \<Rightarrow> addr \<Rightarrow> addr \<Rightarrow> u32 \<Rightarrow> addr \<times> mem" where
  "strncpy m dest src count = (dest, strncpy_loop m dest src (unat count))"

text \<open>The scan for the end of a string in \<open>strcat\<close>, \<open>strncat\<close> and \<open>strlen\<close>.\<close>

partial_function (option) str_end :: "mem \<Rightarrow> addr \<Rightarrow> addr option" where
  "str_end m p = (if m p \<noteq> 0 then str_end m (p + 1) else Some p)"

definition strcat :: "mem \<Rightarrow> addr \<Rightarrow> addr \<Rightarrow> (addr \<times> mem) option" where
  "strcat m dest src = do {
     dest' \<leftarrow> str_end m dest;
     m' \<leftarrow> strcpy_loop m dest' src;
     Some (dest, m') }"

text \<open>The copy loop of \<open>strncat\<close>, entered with a positive count only.\<close>

fun strncat_loop :: "mem \<Rightarrow> addr \<Rightarrow> addr \<Rightarrow> nat \<Rightarrow> mem" where
  "strncat_loop m dest src 0 = m"
| "strncat_loop m dest src (Suc count) =
     (let c = m src; m' = m(dest := c)
      in if c \<noteq> 0 then
           if count = 0 then m'(dest + 1 := 0)
           else strncat_loop m' (dest + 1) (src + 1) count
         else m')"

definition strncat :: "mem \<Rightarrow> addr \<Rightarrow> addr \<Rightarrow> u32 \<Rightarrow> (addr \<times> mem) option" where
  "strncat m dest src count =
     (if count \<noteq> 0 then do {
        dest' \<leftarrow> str_end m dest;
        Some (dest, strncat_loop m dest' src (unat count)) }
      else Some (dest, m))"

text \<open>
  The comparisons keep the difference in a \<open>signed char\<close>: the subtraction is taken modulo 256
  whatever the signedness of \<open>char\<close>, and read as a signed number on return.
\<close>

partial_function (option) strcmp_loop :: "mem \<Rightarrow> addr \<Rightarrow> addr \<Rightarrow> u8 option" where
  "strcmp_loop m cs ct =
     (let res = m cs - m ct
      in if res \<noteq> 0 \<or> m cs = 0 then Some res else strcmp_loop m (cs + 1) (ct + 1))"

definition strcmp :: "mem \<Rightarrow> addr \<Rightarrow> addr \<Rightarrow> int option" where
  "strcmp m cs ct = map_option sint (strcmp_loop m cs ct)"

fun strncmp_loop :: "mem \<Rightarrow> addr \<Rightarrow> addr \<Rightarrow> nat \<Rightarrow> u8 \<Rightarrow> u8" where
  "strncmp_loop m cs ct 0 res = res"
| "strncmp_loop m cs ct (Suc count) res =
     (let res = m cs - m ct
      in if res \<noteq> 0 \<or> m cs = 0 then res else strncmp_loop m (cs + 1) (ct + 1) count res)"

definition strncmp :: "mem \<Rightarrow> addr \<Rightarrow> addr \<Rightarrow> u32 \<Rightarrow> int" where
  "strncmp m cs ct count = sint (strncmp_loop m cs ct (unat count) 0)"

partial_function (option) strchr_loop :: "mem \<Rightarrow> addr \<Rightarrow> u8 \<Rightarrow> addr option" where
  "strchr_loop m s c =
     (if m s \<noteq> c then if m s = 0 then Some NULL else strchr_loop m (s + 1) c else Some s)"

definition strchr :: "mem \<Rightarrow> addr \<Rightarrow> int \<Rightarrow> addr option" where
  "strchr m s c = strchr_loop m s (word_of_int c)"

definition strlen :: "mem \<Rightarrow> addr \<Rightarrow> u32 option" where
  "strlen m s = do { sc \<leftarrow> str_end m s; Some (sc - s) }"

text \<open>\<open>do ... while (--p >= s)\<close>; at address 0 the decrement wraps and the loop goes on.\<close>

partial_function (option) strrchr_loop :: "mem \<Rightarrow> addr \<Rightarrow> addr \<Rightarrow> u8 \<Rightarrow> addr option" where
  "strrchr_loop m s p c =
     (if m p = c then Some p
      else if p - 1 \<ge> s then strrchr_loop m s (p - 1) c else Some NULL)"

definition strrchr :: "mem \<Rightarrow> addr \<Rightarrow> int \<Rightarrow> addr option" where
  "strrchr m s c = do { n \<leftarrow> strlen m s; strrchr_loop m s (s + n) (word_of_int c) }"

fun strnlen_loop :: "mem \<Rightarrow> addr \<Rightarrow> nat \<Rightarrow> addr" where
  "strnlen_loop m sc 0 = sc"
| "strnlen_loop m sc (Suc count) = (if m sc \<noteq> 0 then strnlen_loop m (sc + 1) count else sc)"

definition strnlen :: "mem \<Rightarrow> addr \<Rightarrow> u32 \<Rightarrow> u32" where
  "strnlen m s count = strnlen_loop m s (unat count) - s"

text \<open>The allocator is a parameter: it returns an address, \<open>NULL\<close> when it has no room, and the memory.\<close>

definition strdup :: "(u32 \<Rightarrow> mem \<Rightarrow> addr \<times> mem) \<Rightarrow> mem \<Rightarrow> addr \<Rightarrow> (addr \<times> mem) option" where
  "strdup malloc m s =
     (if s = NULL then Some (NULL, m)
      else do {
        n \<leftarrow> strlen m s;
        let (new, m1) = malloc (n + 1) m;
        if new = NULL then Some (NULL, m1)
        else do { (_, m2) \<leftarrow> strcpy m1 new s; Some (new, m2) } })"

text \<open>
  The inner loops of \<open>strspn\<close> and \<open>strpbrk\<close>: where in the set string the character \<open>x\<close> is, or the
  end of the set.
\<close>

partial_function (option) set_scan :: "mem \<Rightarrow> u8 \<Rightarrow> addr \<Rightarrow> addr option" where
  "set_scan m x a = (if m a \<noteq> 0 \<and> x \<noteq> m a then set_scan m x (a + 1) else Some a)"

partial_function (option) strspn_loop :: "mem \<Rightarrow> addr \<Rightarrow> addr \<Rightarrow> u32 \<Rightarrow> u32 option" where
  "strspn_loop m p accept count =
     (if m p \<noteq> 0 then do {
        a \<leftarrow> set_scan m (m p) accept;
        if m a = 0 then Some count else strspn_loop m (p + 1) accept (count + 1) }
      else Some count)"

definition strspn :: "mem \<Rightarrow> addr \<Rightarrow> addr \<Rightarrow> u32 option" where
  "strspn m s accept = strspn_loop m s accept 0"

partial_function (option) strpbrk :: "mem \<Rightarrow> addr \<Rightarrow> addr \<Rightarrow> addr option" where
  "strpbrk m sc1 ct =
     (if m sc1 \<noteq> 0 then do {
        sc2 \<leftarrow> set_scan m (m sc1) ct;
        if m sc2 \<noteq> 0 then Some sc1 else strpbrk m (sc1 + 1) ct }
      else Some NULL)"

text \<open>\<open>strtok\<close> keeps its position in the global \<open>___strtok\<close>: an argument, and the second result.\<close>

definition strtok :: "mem \<Rightarrow> addr \<Rightarrow> addr \<Rightarrow> addr \<Rightarrow> (addr \<times> addr \<times> mem) option" where
  "strtok m saved s ct =
     (let sbegin = (if s \<noteq> NULL then s else saved)
      in if sbegin = NULL then Some (NULL, saved, m)
         else do {
           n \<leftarrow> strspn m sbegin ct;
           let sbegin = sbegin + n;
           if m sbegin = 0 then Some (NULL, NULL, m)
           else do {
             send \<leftarrow> strpbrk m sbegin ct;
             Some (if send \<noteq> NULL \<and> m send \<noteq> 0 then (sbegin, send + 1, m(send := 0))
                   else (sbegin, send, m)) } })"

text \<open>\<open>strsep\<close> gets the value of \<open>*s\<close> and returns the new one next to the token.\<close>

definition strsep :: "mem \<Rightarrow> addr \<Rightarrow> addr \<Rightarrow> (addr \<times> addr \<times> mem) option" where
  "strsep m s ct =
     (if s = NULL then Some (NULL, s, m)
      else do {
        end \<leftarrow> strpbrk m s ct;
        Some (if end \<noteq> NULL then (s, end + 1, m(end := 0)) else (s, end, m)) })"

partial_function (option) strswab_loop :: "mem \<Rightarrow> addr \<Rightarrow> addr \<Rightarrow> mem option" where
  "strswab_loop m p q =
     (if m p \<noteq> 0 \<and> m q \<noteq> 0 then strswab_loop (m(p := m q, q := m p)) (p + 2) (q + 2) else Some m)"

definition strswab :: "mem \<Rightarrow> addr \<Rightarrow> (addr \<times> mem) option" where
  "strswab m s =
     (if s = NULL \<or> m s = 0 then Some (NULL, m)
      else do { m' \<leftarrow> strswab_loop m s (s + 1); Some (s, m') })"

fun memset_loop :: "mem \<Rightarrow> addr \<Rightarrow> u8 \<Rightarrow> nat \<Rightarrow> mem" where
  "memset_loop m xs c 0 = m"
| "memset_loop m xs c (Suc count) = memset_loop (m(xs := c)) (xs + 1) c count"

definition memset :: "mem \<Rightarrow> addr \<Rightarrow> int \<Rightarrow> u32 \<Rightarrow> addr \<times> mem" where
  "memset m s c count = (s, memset_loop m s (word_of_int c) (unat count))"

text \<open>\<open>while (count--) *tmp++ = *s++;\<close> and the descending \<open>while (count--) *--tmp = *--s;\<close>\<close>

fun copy_up :: "mem \<Rightarrow> addr \<Rightarrow> addr \<Rightarrow> nat \<Rightarrow> mem" where
  "copy_up m tmp s 0 = m"
| "copy_up m tmp s (Suc count) = copy_up (m(tmp := m s)) (tmp + 1) (s + 1) count"

fun copy_down :: "mem \<Rightarrow> addr \<Rightarrow> addr \<Rightarrow> nat \<Rightarrow> mem" where
  "copy_down m tmp s 0 = m"
| "copy_down m tmp s (Suc count) = copy_down (m(tmp - 1 := m (s - 1))) (tmp - 1) (s - 1) count"

definition memcpy :: "mem \<Rightarrow> addr \<Rightarrow> addr \<Rightarrow> u32 \<Rightarrow> addr \<times> mem" where
  "memcpy m dest src count = (dest, copy_up m dest src (unat count))"

definition bcopy :: "mem \<Rightarrow> addr \<Rightarrow> addr \<Rightarrow> u32 \<Rightarrow> addr \<times> mem" where
  "bcopy m src dest count = (dest, copy_up m dest src (unat count))"

definition memmove :: "mem \<Rightarrow> addr \<Rightarrow> addr \<Rightarrow> u32 \<Rightarrow> addr \<times> mem" where
  "memmove m dest src count =
     (if dest \<le> src then (dest, copy_up m dest src (unat count))
      else (dest, copy_down m (dest + count) (src + count) (unat count)))"

fun memcmp_loop :: "mem \<Rightarrow> addr \<Rightarrow> addr \<Rightarrow> nat \<Rightarrow> int \<Rightarrow> int" where
  "memcmp_loop m su1 su2 0 res = res"
| "memcmp_loop m su1 su2 (Suc count) res =
     (let res = uint (m su1) - uint (m su2)
      in if res \<noteq> 0 then res else memcmp_loop m (su1 + 1) (su2 + 1) count res)"

definition memcmp :: "mem \<Rightarrow> addr \<Rightarrow> addr \<Rightarrow> u32 \<Rightarrow> int" where
  "memcmp m cs ct count = memcmp_loop m cs ct (unat count) 0"

fun memscan_loop :: "mem \<Rightarrow> addr \<Rightarrow> int \<Rightarrow> nat \<Rightarrow> addr" where
  "memscan_loop m p c 0 = p"
| "memscan_loop m p c (Suc n) = (if uint (m p) = c then p else memscan_loop m (p + 1) c n)"

definition memscan :: "mem \<Rightarrow> addr \<Rightarrow> int \<Rightarrow> u32 \<Rightarrow> addr" where
  "memscan m addr c sz = memscan_loop m addr c (unat sz)"

text \<open>The lengths in \<open>strstr\<close> are signed.\<close>

partial_function (option) strstr_loop :: "mem \<Rightarrow> addr \<Rightarrow> addr \<Rightarrow> int \<Rightarrow> int \<Rightarrow> addr option" where
  "strstr_loop m s1 s2 l1 l2 =
     (if l1 \<ge> l2 then
        if memcmp m s1 s2 (word_of_int l2) = 0 then Some s1
        else strstr_loop m (s1 + 1) s2 (l1 - 1) l2
      else Some NULL)"

definition strstr :: "mem \<Rightarrow> addr \<Rightarrow> addr \<Rightarrow> addr option" where
  "strstr m s1 s2 = do {
     l2 \<leftarrow> strlen m s2;
     if l2 = 0 then Some s1
     else do {
       l1 \<leftarrow> strlen m s1;
       strstr_loop m s1 s2 (sint l1) (sint l2) } }"

fun memchr_loop :: "mem \<Rightarrow> addr \<Rightarrow> u8 \<Rightarrow> nat \<Rightarrow> addr" where
  "memchr_loop m p c 0 = NULL"
| "memchr_loop m p c (Suc n) = (if c = m p then p else memchr_loop m (p + 1) c n)"

definition memchr :: "mem \<Rightarrow> addr \<Rightarrow> int \<Rightarrow> u32 \<Rightarrow> addr" where
  "memchr m s c n = memchr_loop m s (word_of_int c) (unat n)"

section \<open>File names\<close>

fun copy_name :: "nat \<Rightarrow> u8 list \<Rightarrow> u8 list" where
  "copy_name (Suc (Suc n)) (c # src) = (if c \<noteq> 0 \<and> c \<noteq> 0x22 then c # copy_name (Suc n) src else [0])"
| "copy_name _ _ = [0]"

text \<open>\<open>copy_filename\<close> of \<^verbatim>\<open>net/net.c\<close>: the bytes stored from \<open>dst\<close> on.\<close>

definition copy_filename :: "u8 list \<Rightarrow> nat \<Rightarrow> u8 list" where
  "copy_filename src sz =
     (case src of c # src' \<Rightarrow> if c = 0x22 then copy_name (sz - 1) src' else copy_name sz src | [] \<Rightarrow> copy_name sz src)"

section \<open>Specifications\<close>

text \<open>The difference at the first place where two strings differ, as unsigned characters.\<close>

fun first_diff :: "u8 list \<Rightarrow> u8 list \<Rightarrow> int" where
  "first_diff [] [] = 0"
| "first_diff (x # xs) [] = uint x"
| "first_diff [] (y # ys) = - uint y"
| "first_diff (x # xs) (y # ys) = (if x = y then first_diff xs ys else uint x - uint y)"

text \<open>Where a nonempty string occurs first in another.\<close>

fun first_sub :: "u8 list \<Rightarrow> u8 list \<Rightarrow> nat option" where
  "first_sub ys xs =
     (if prefix ys xs then Some 0
      else case xs of [] \<Rightarrow> None | _ # xs' \<Rightarrow> map_option Suc (first_sub ys xs'))"

declare first_sub.simps [simp del]

text \<open>Every pair of neighbours exchanged.\<close>

fun swab :: "u8 list \<Rightarrow> u8 list" where
  "swab (a # b # xs) = b # a # swab xs"
| "swab [a] = [a]"
| "swab [] = []"

text \<open>When an ascending copy of \<open>n\<close> bytes is right, and when an area does not wrap.\<close>

definition ascending_safe :: "addr \<Rightarrow> addr \<Rightarrow> nat \<Rightarrow> bool" where
  "ascending_safe dest src n \<longleftrightarrow> dest = src \<or> offset src dest \<ge> n"

definition no_wrap :: "addr \<Rightarrow> addr \<Rightarrow> nat \<Rightarrow> bool" where
  "no_wrap dest src n \<longleftrightarrow> unat dest + n \<le> 2 ^ 32 \<and> unat src + n \<le> 2 ^ 32"

section \<open>Copying areas\<close>

lemma u32_count_le [simp]: "unat (count :: u32) \<le> 4294967296"
  using unsigned_less [of count, where ?'a = nat] by simp

text \<open>
  An ascending copy is right when the destination does not start inside the source, a descending
  one when the source does not start inside the destination.
\<close>

lemma copy_up_overwrite:
  assumes "dest = src \<or> dest \<notin> area src n" and "n \<le> 2 ^ 32"
  shows "copy_up m dest src n = overwrite m dest (load m src n)"
  using assms
proof (induction n arbitrary: m dest src)
  case (Suc n)
  let ?m = "m(dest := m src)"
  have n: "n < 2 ^ 32" using Suc.prems(2) by simp
  have "dest + 1 = src + 1 \<or> dest + 1 \<notin> area (src + 1) n"
    using Suc.prems(1) by (auto simp: area_def offset_def)
  moreover have "load ?m (src + 1) n = load m (src + 1) n"
    using Suc.prems(1) area_shift [of dest src n] n by (cases "dest = src") (auto intro: load_upd_outside)
  ultimately have "copy_up ?m (dest + 1) (src + 1) n = overwrite ?m (dest + 1) (load m (src + 1) n)"
    using Suc.IH [of "dest + 1" "src + 1" ?m] n by (simp only: less_imp_le)
  then show ?case
    using n by (simp add: load_Suc overwrite_Cons)
qed simp

lemma copy_down_overwrite:
  assumes "src = dest \<or> src \<notin> area dest n" and "n \<le> 2 ^ 32"
  shows "copy_down m (dest + of_nat n) (src + of_nat n) n = overwrite m dest (load m src n)"
  using assms
proof (induction n arbitrary: m)
  case (Suc n)
  let ?m = "m(dest + of_nat n := m (src + of_nat n))"
  have n: "n < 2 ^ 32" using Suc.prems(2) by simp
  have same: "load ?m src n = load m src n"
  proof (cases "src = dest")
    case False
    have "dest + of_nat n \<notin> area src n"
    proof
      assume "dest + of_nat n \<in> area src n"
      then have *: "unat (dest + of_nat n - src) < n" by (simp add: area_def offset_def)
      have "unat (src - dest) = n - unat (dest + of_nat n - src)"
      proof -
        have "src - dest = of_nat (n - unat (dest + of_nat n - src))"
          using * by (simp add: of_nat_diff)
        then show ?thesis using n by (simp add: unat_of_nat)
      qed
      then show False
        using Suc.prems(1) False by (auto simp: area_def offset_def)
    qed
    then show ?thesis using n by (simp add: load_upd_outside)
  qed auto
  have "copy_down m (dest + of_nat (Suc n)) (src + of_nat (Suc n)) (Suc n) =
      copy_down ?m (dest + of_nat n) (src + of_nat n) n"
    by (simp add: algebra_simps)
  also have "src = dest \<or> src \<notin> area dest n"
    using Suc.prems(1) by (auto simp: area_def)
  then have "copy_down ?m (dest + of_nat n) (src + of_nat n) n = overwrite ?m dest (load m src n)"
    using Suc.IH [of ?m] n by (simp only: same less_imp_le)
  also have "\<dots> = overwrite m dest (load m src n @ [m (src + of_nat n)])"
    using n by (simp add: overwrite_snoc)
  also have "\<dots> = overwrite m dest (load m src (Suc n))"
    using load_add [of m src n 1] by (simp add: load_Suc)
  finally show ?case .
qed simp

text \<open>The contract of a block copy, and what a caller gets from it.\<close>

locale block_copy =
  fixes copy :: "mem \<Rightarrow> addr \<Rightarrow> addr \<Rightarrow> u32 \<Rightarrow> addr \<times> mem"
    and safe :: "addr \<Rightarrow> addr \<Rightarrow> nat \<Rightarrow> bool"
  assumes copy_overwrite:
    "safe dest src (unat count) \<Longrightarrow>
      copy m dest src count = (dest, overwrite m dest (load m src (unat count)))"
begin

lemma copied:
  "safe dest src (unat count) \<Longrightarrow>
    load (snd (copy m dest src count)) dest (unat count) = load m src (unat count)"
  using load_overwrite [of "load m src (unat count)" m dest]
  by (simp add: copy_overwrite)

lemma untouched:
  "safe dest src (unat count) \<Longrightarrow> a \<notin> area dest (unat count) \<Longrightarrow> snd (copy m dest src count) a = m a"
  by (simp add: copy_overwrite overwrite_outside)

lemma copied_string:
  assumes "safe dest src (unat count)" and "str_at m src xs" and "unat count = Suc (length xs)"
  shows "str_at (snd (copy m dest src count)) dest xs"
proof -
  have "load m src (Suc (length xs)) = xs @ [0]"
    using assms(2) load_add [of m src "length xs" 1] by (simp add: str_at_iff load_Suc)
  then show ?thesis
    using assms str_at_overwrite [of xs m dest] str_at_length [OF assms(2)]
    by (simp add: copy_overwrite str_at_nonzero)
qed

end

lemma memmove_overwrite:
  assumes "no_wrap dest src (unat count)"
  shows "memmove m dest src count = (dest, overwrite m dest (load m src (unat count)))"
proof (cases "dest \<le> src")
  case True
  then have "dest = src \<or> dest \<notin> area src (unat count)"
    using assms area_nowrap [of src "unat count" dest]
    by (auto simp: no_wrap_def word_le_nat_alt word_unat_eq_iff)
  then show ?thesis
    using True by (simp add: memmove_def copy_up_overwrite)
next
  case False
  then have "src \<notin> area dest (unat count)"
    using assms area_nowrap [of dest "unat count" src] by (auto simp: no_wrap_def word_le_nat_alt)
  then show ?thesis
    using False copy_down_overwrite [of src dest "unat count" m]
    by (simp add: memmove_def)
qed

interpretation memcpy: block_copy memcpy ascending_safe
  by unfold_locales
    (auto simp: memcpy_def ascending_safe_def area_def copy_up_overwrite)

interpretation bcopy: block_copy "\<lambda>m dest src. bcopy m src dest" ascending_safe
  by unfold_locales
    (auto simp: bcopy_def ascending_safe_def area_def copy_up_overwrite)

interpretation memmove: block_copy memmove no_wrap
  by unfold_locales (rule memmove_overwrite)

lemma memset_overwrite:
  "memset m s c count = (s, overwrite m s (replicate (unat count) (word_of_int c)))"
proof -
  have "memset_loop m p b n = overwrite m p (replicate n b)" if "n \<le> 2 ^ 32" for m p b n
    using that
  proof (induction n arbitrary: m p)
    case (Suc n)
    then show ?case by (simp add: overwrite_Cons)
  qed simp
  then show ?thesis by (simp add: memset_def)
qed

section \<open>Length, copy and concatenation\<close>

lemma str_end_eq: "str_at m p xs \<Longrightarrow> str_end m p = Some (p + of_nat (length xs))"
  by (induction m p xs rule: str_at.induct) (subst str_end.simps, simp add: ac_simps)+

lemma strlen_eq: "str_at m s xs \<Longrightarrow> strlen m s = Some (of_nat (length xs))"
  by (simp add: strlen_def str_end_eq)

lemma strnlen_eq:
  assumes "str_at m s xs"
  shows "strnlen m s count = of_nat (min (length xs) (unat count))"
proof -
  have "strnlen_loop m p n = p + of_nat (min (length ys) n)" if "str_at m p ys" for p ys n
    using that
  proof (induction n arbitrary: p ys)
    case (Suc n)
    then show ?case by (cases ys) (auto simp: ac_simps)
  qed simp
  then show ?thesis using assms by (simp add: strnlen_def)
qed

lemma str_at_upd: "str_at m p xs \<Longrightarrow> a \<notin> area p (Suc (length xs)) \<Longrightarrow> str_at (m(a := x)) p xs"
  by (erule str_at_cong) auto

text \<open>Advancing both ends of an ascending copy keeps it safe, and the rest of the source intact.\<close>

lemma ascending_safe_step:
  assumes "ascending_safe dest src (Suc n)"
  shows "ascending_safe (dest + 1) (src + 1) n"
  using assms by (auto simp: ascending_safe_def offset_def)

lemma ascending_safe_str:
  assumes "ascending_safe dest src (Suc (Suc (length xs)))" and "str_at m (src + 1) xs"
  shows "str_at (m(dest := m src)) (src + 1) xs"
proof (cases "dest = src")
  case False
  then have "dest \<notin> area (src + 1) (Suc (length xs))"
    using assms by (auto simp: ascending_safe_def area_def offset_step)
  then show ?thesis using assms(2) by (rule str_at_upd [rotated])
qed (use assms(2) in simp)

lemma strcpy_loop_eq:
  assumes "str_at m src xs" and "ascending_safe dest src (Suc (length xs))"
  shows "strcpy_loop m dest src = Some (overwrite m dest (xs @ [0]))"
  using assms
proof (induction xs arbitrary: m dest src)
  case Nil
  then show ?case by (subst strcpy_loop.simps) (simp add: overwrite_Cons)
next
  case (Cons x xs)
  let ?m = "m(dest := x)"
  have len: "length (xs @ [0]) < 2 ^ 32"
    using str_at_length [OF Cons.prems(1)] by simp
  have x: "x = m src" "x \<noteq> 0"
    using Cons.prems(1) by simp_all
  have "str_at ?m (src + 1) xs"
    using Cons.prems ascending_safe_str [of dest src xs m] x by simp
  moreover have "ascending_safe (dest + 1) (src + 1) (Suc (length xs))"
    using Cons.prems(2) by (intro ascending_safe_step) simp
  ultimately have "strcpy_loop ?m (dest + 1) (src + 1) = Some (overwrite ?m (dest + 1) (xs @ [0]))"
    by (rule Cons.IH)
  moreover have "strcpy_loop m dest src = strcpy_loop ?m (dest + 1) (src + 1)"
    using x by (subst strcpy_loop.simps) (simp add: Let_def)
  ultimately show ?case
    using overwrite_Cons [OF len] by simp
qed

lemma strcpy_eq:
  assumes "str_at m src xs" and "ascending_safe dest src (Suc (length xs))"
  shows "strcpy m dest src = Some (dest, overwrite m dest (xs @ [0]))"
  by (simp add: strcpy_def strcpy_loop_eq [OF assms])

lemma strcpy_string:
  assumes "str_at m src xs" and "ascending_safe dest src (Suc (length xs))"
  shows "\<exists>m'. strcpy m dest src = Some (dest, m') \<and> str_at m' dest xs"
  using strcpy_eq [OF assms] str_at_overwrite [OF str_at_nonzero str_at_length, OF assms(1,1)] by blast

lemma strncpy_eq:
  assumes "str_at m src xs" and "ascending_safe dest src (Suc (length xs))"
  shows "strncpy m dest src count = (dest, overwrite m dest (take (unat count) (xs @ [0])))"
proof -
  have "strncpy_loop m dest src n = overwrite m dest (take n (xs @ [0]))" for n
    using assms
  proof (induction n arbitrary: m dest src xs)
    case (Suc n)
    show ?case
    proof (cases xs)
      case Nil
      with Suc.prems show ?thesis by (simp add: overwrite_Cons)
    next
      case (Cons x ys)
      have "length (take n (ys @ [0])) < 2 ^ 32"
        using str_at_length [OF Suc.prems(1)] by (simp add: Cons)
      note ov = overwrite_Cons [OF this]
      have "str_at (m(dest := x)) (src + 1) ys" "ascending_safe (dest + 1) (src + 1) (Suc (length ys))"
        using Suc.prems ascending_safe_str [of dest src ys m] ascending_safe_step [of dest src "Suc (length ys)"]
        by (simp_all add: Cons)
      then have IH: "strncpy_loop (m(dest := x)) (dest + 1) (src + 1) n =
          overwrite (m(dest := x)) (dest + 1) (take n (ys @ [0]))"
        by (rule Suc.IH)
      have "strncpy_loop m dest src (Suc n) = strncpy_loop (m(dest := x)) (dest + 1) (src + 1) n"
        using Suc.prems(1) by (simp add: Cons Let_def)
      then show ?thesis
        by (simp only: IH ov Cons append_Cons take_Suc_Cons)
    qed
  qed simp
  then show ?thesis by (simp add: strncpy_def)
qed

text \<open>Appending at the end of a string: the bytes before the end are kept.\<close>

lemma exp32_zero: "(4294967296 :: u32) = 0"
  by (rule word_uint_eqI) simp

lemma overwrite_append:
  assumes "length xs + length ys \<le> 2 ^ 32"
  shows "load (overwrite m (p + of_nat (length xs)) ys) p (length xs) = load m p (length xs)"
proof (rule load_cong)
  fix a assume "a \<in> area p (length xs)"
  then have a: "a = p + of_nat (offset p a)" "offset p a < length xs"
    by (simp_all add: area_def)
  have "offset (p + of_nat (length xs)) a = 2 ^ 32 - (length xs - offset p a)"
  proof -
    have "p + of_nat (length xs) + of_nat (2 ^ 32 - (length xs - offset p a)) =
        p + of_nat (offset p a + 2 ^ 32)"
      using a(2) assms by (simp add: of_nat_diff)
    also have "\<dots> = a" by (simp add: exp32_zero)
    finally have "a = p + of_nat (length xs) + of_nat (2 ^ 32 - (length xs - offset p a))" ..
    moreover have "2 ^ 32 - (length xs - offset p a) < (2 ^ 32 :: nat)"
      using a(2) by simp
    ultimately show ?thesis
      by (metis offset_plus)
  qed
  moreover have "length ys \<le> 2 ^ 32 - (length xs - offset p a)"
    using assms a(2) by simp
  ultimately show "overwrite m (p + of_nat (length xs)) ys a = m a"
    by (simp only: overwrite_def not_less [symmetric] if_False)
qed (use assms in simp)

lemma str_at_append:
  assumes "str_at m p xs" and "0 \<notin> set ys" and "length xs + length ys < 2 ^ 32"
  shows "str_at (overwrite m (p + of_nat (length xs)) (ys @ [0])) p (xs @ ys)"
proof -
  let ?q = "p + of_nat (length xs)"
  let ?m = "overwrite m ?q (ys @ [0])"
  have "str_at ?m ?q ys"
    using assms by (intro str_at_overwrite) simp_all
  moreover have "load ?m p (length xs) = xs"
    using assms overwrite_append [of xs "ys @ [0]" m p] by (simp add: str_at_iff)
  ultimately show ?thesis
    using assms by (auto simp: str_at_iff load_add ac_simps)
qed

lemma strcat_eq:
  assumes "str_at m dest xs" and "str_at m src ys"
    and "ascending_safe (dest + of_nat (length xs)) src (Suc (length ys))"
  shows "strcat m dest src = Some (dest, overwrite m (dest + of_nat (length xs)) (ys @ [0]))"
  by (simp add: strcat_def str_end_eq [OF assms(1)] strcpy_loop_eq [OF assms(2,3)])

lemma strncat_loop_eq:
  assumes "str_at m src ys" and "ascending_safe dest src (Suc (length ys))" and "0 < n"
  shows "strncat_loop m dest src n = overwrite m dest (take n ys @ [0])"
  using assms
proof (induction n arbitrary: m dest src ys)
  case (Suc n)
  show ?case
  proof (cases ys)
    case Nil
    with Suc.prems show ?thesis by (simp add: overwrite_Cons)
  next
    case (Cons x xs)
    have "length (take n xs @ [0]) < 2 ^ 32"
      using str_at_length [OF Suc.prems(1)] by (simp add: Cons)
    note ov = overwrite_Cons [OF this]
    have "str_at (m(dest := x)) (src + 1) xs" "ascending_safe (dest + 1) (src + 1) (Suc (length xs))"
      using Suc.prems ascending_safe_str [of dest src xs m] ascending_safe_step [of dest src "Suc (length xs)"]
      by (simp_all add: Cons)
    then have IH: "0 < n \<Longrightarrow> strncat_loop (m(dest := x)) (dest + 1) (src + 1) n =
        overwrite (m(dest := x)) (dest + 1) (take n xs @ [0])"
      by (rule Suc.IH)
    have "strncat_loop m dest src (Suc n) =
        (if n = 0 then m(dest := x, dest + 1 := 0) else strncat_loop (m(dest := x)) (dest + 1) (src + 1) n)"
      using Suc.prems(1) by (simp add: Cons Let_def)
    also have "\<dots> = overwrite (m(dest := x)) (dest + 1) (take n xs @ [0])"
      using IH by (simp add: overwrite_Cons)
    finally show ?thesis
      by (simp only: ov Cons append_Cons take_Suc_Cons)
  qed
qed simp

lemma strncat_eq:
  assumes "str_at m dest xs" and "str_at m src ys" and "count \<noteq> 0"
    and "ascending_safe (dest + of_nat (length xs)) src (Suc (length ys))"
  shows "strncat m dest src count =
    Some (dest, overwrite m (dest + of_nat (length xs)) (take (unat count) ys @ [0]))"
  using assms(3) str_end_eq [OF assms(1)] strncat_loop_eq [OF assms(2,4)]
  by (simp add: strncat_def unat_gt_0)

section \<open>Comparison\<close>

lemma uint_u8: "uint (x :: u8) < 256" "0 \<le> uint x"
  using uint_bounded [of x] by simp_all

lemma uint_u8_pos: "(x :: u8) \<noteq> 0 \<Longrightarrow> 0 < uint x"
  using uint_u8(2) [of x] by (simp add: order.order_iff_strict uint_0_iff)

lemma first_diff_bounds: "- 256 < first_diff xs ys \<and> first_diff xs ys < 256"
proof (induction xs ys rule: first_diff.induct)
  case (2 x xs)
  show ?case using uint_u8 [of x] unfolding first_diff.simps by linarith
next
  case (3 y ys)
  show ?case using uint_u8 [of y] unfolding first_diff.simps by linarith
next
  case (4 x xs y ys)
  show ?case using 4 uint_u8 [of x] uint_u8 [of y] unfolding first_diff.simps by (cases "x = y") (simp, simp only: if_False, linarith)
qed simp

lemma first_diff_eq_0:
  assumes "0 \<notin> set xs" and "0 \<notin> set ys"
  shows "first_diff xs ys = 0 \<longleftrightarrow> xs = ys"
  using assms
proof (induction xs ys rule: first_diff.induct)
  case (2 x xs)
  then show ?case using uint_u8_pos [of x] by auto
next
  case (3 y ys)
  then show ?case using uint_u8_pos [of y] by auto
qed (auto dest: word_uint_eqI)

lemma first_diff_eq_0_same_length:
  "length xs = length ys \<Longrightarrow> first_diff xs ys = 0 \<longleftrightarrow> xs = ys"
  by (induction xs ys rule: first_diff.induct) (auto dest: word_uint_eqI)

lemma first_diff_ascii:
  assumes "\<forall>x\<in>set xs \<union> set ys. x < 128"
  shows "- 128 \<le> first_diff xs ys \<and> first_diff xs ys < 128"
  using assms
proof (induction xs ys rule: first_diff.induct)
  case (2 x xs)
  then have "uint x < 128" by (simp add: word_less_def)
  then show ?case using uint_u8(2) [of x] unfolding first_diff.simps by linarith
next
  case (3 y ys)
  then have "uint y < 128" by (simp add: word_less_def)
  then show ?case using uint_u8(2) [of y] unfolding first_diff.simps by linarith
next
  case (4 x xs y ys)
  then have "uint x < 128" "uint y < 128" by (simp_all add: word_less_def)
  then show ?case
    using 4 uint_u8(2) [of x] uint_u8(2) [of y] unfolding first_diff.simps
    by (cases "x = y") (simp, simp only: if_False, linarith)
qed simp

lemma small_of_int_eq_0:
  assumes "- 256 < d" and "d < 256"
  shows "(word_of_int d :: u8) = 0 \<longleftrightarrow> d = 0"
proof -
  have "(word_of_int d :: u8) = 0 \<longleftrightarrow> 256 dvd d"
    by (simp add: word_of_int_eq_0_iff)
  also have "\<dots> \<longleftrightarrow> d = 0"
    using assms by presburger
  finally show ?thesis .
qed

lemma sint_of_int_u8: "- 128 \<le> d \<Longrightarrow> d < 128 \<Longrightarrow> sint (word_of_int d :: u8) = d"
  by (simp add: sint_sbintrunc' signed_take_bit_int_eq_self)

lemma u8_diff: "(x :: u8) - y = word_of_int (uint x - uint y)"
  by simp

lemma strcmp_loop_eq:
  assumes "str_at m cs xs" and "str_at m ct ys"
  shows "strcmp_loop m cs ct = Some (word_of_int (first_diff xs ys))"
  using assms
proof (induction xs ys arbitrary: cs ct rule: first_diff.induct)
  case (4 x xs y ys)
  then show ?case
    by (subst strcmp_loop.simps) (auto simp: Let_def)
qed (subst strcmp_loop.simps, simp add: Let_def)+

lemma strcmp_eq:
  assumes "str_at m cs xs" and "str_at m ct ys"
  shows "strcmp m cs ct = Some (sint (word_of_int (first_diff xs ys) :: u8))"
  by (simp add: strcmp_def strcmp_loop_eq [OF assms])

lemma sint_first_diff_eq_0:
  assumes "0 \<notin> set xs" and "0 \<notin> set ys"
  shows "sint (word_of_int (first_diff xs ys) :: u8) = 0 \<longleftrightarrow> xs = ys"
  using assms first_diff_bounds [of xs ys]
  by (simp add: signed_eq_0_iff small_of_int_eq_0 first_diff_eq_0)

lemma strncmp_eq:
  assumes "str_at m cs xs" and "str_at m ct ys"
  shows "strncmp m cs ct count =
    sint (word_of_int (first_diff (take (unat count) xs) (take (unat count) ys)) :: u8)"
proof -
  have "strncmp_loop m cs ct n 0 = word_of_int (first_diff (take n xs) (take n ys))" for n
    using assms
  proof (induction n arbitrary: cs ct xs ys)
    case (Suc n)
    then show ?case by (cases xs; cases ys) (auto simp: Let_def)
  qed simp
  then show ?thesis by (simp add: strncmp_def)
qed

lemma memcmp_eq: "memcmp m cs ct count = first_diff (load m cs (unat count)) (load m ct (unat count))"
proof -
  have "memcmp_loop m p q n 0 = first_diff (load m p n) (load m q n)" for p q n
    by (induction n arbitrary: p q) (auto simp: Let_def load_Suc dest: word_uint_eqI)
  then show ?thesis by (simp add: memcmp_def)
qed

lemma memcmp_eq_0: "memcmp m cs ct count = 0 \<longleftrightarrow> load m cs (unat count) = load m ct (unat count)"
  by (simp add: memcmp_eq first_diff_eq_0_same_length)

section \<open>Searching\<close>

lemma strchr_loop_eq:
  assumes "str_at m s xs"
  shows "strchr_loop m s c =
    Some (if c \<in> set (xs @ [0]) then s + of_nat (length (takeWhile (\<lambda>x. x \<noteq> c) (xs @ [0]))) else NULL)"
  using assms
  by (induction xs arbitrary: s) (subst strchr_loop.simps, auto simp: ac_simps)+

lemma memchr_loop_eq:
  "memchr_loop m p c n =
    (if c \<in> set (load m p n) then p + of_nat (length (takeWhile (\<lambda>x. x \<noteq> c) (load m p n))) else NULL)"
  by (induction n arbitrary: p) (auto simp: load_Suc ac_simps)

lemma memscan_loop_eq:
  "memscan_loop m p c n = p + of_nat (length (takeWhile (\<lambda>x. uint x \<noteq> c) (load m p n)))"
  by (induction n arbitrary: p) (auto simp: load_Suc ac_simps)

lemma strrchr_loop_eq:
  assumes "s \<noteq> NULL" and "unat s + k < 2 ^ 32"
  shows "\<exists>r. strrchr_loop m s (s + of_nat k) c = Some r \<and>
    (if \<exists>i\<le>k. m (s + of_nat i) = c
     then \<exists>i\<le>k. r = s + of_nat i \<and> m (s + of_nat i) = c \<and> (\<forall>j. i < j \<and> j \<le> k \<longrightarrow> m (s + of_nat j) \<noteq> c)
     else r = NULL)"
  using assms(2)
proof (induction k)
  case 0
  have "\<not> s \<le> s - 1"
    using assms(1) by (simp add: word_le_nat_alt unat_minus_one unat_gt_0 not_le)
  then show ?case
    by (subst strrchr_loop.simps) auto
next
  case (Suc k)
  have p: "s + of_nat (Suc k) - 1 = s + of_nat k" by simp
  have "s \<le> s + of_nat k"
    using Suc.prems by (simp add: word_le_nat_alt unat_plus_of_nat)
  then have step: "strrchr_loop m s (s + of_nat (Suc k)) c =
      (if m (s + of_nat (Suc k)) = c then Some (s + of_nat (Suc k)) else strrchr_loop m s (s + of_nat k) c)"
    by (subst strrchr_loop.simps) (simp only: p if_True)
  show ?case
  proof (cases "m (s + of_nat (Suc k)) = c")
    case True
    then show ?thesis
      by (intro exI [of _ "s + of_nat (Suc k)"] conjI) (auto simp: step simp del: of_nat_Suc)
  next
    case False
    have *: "(\<exists>i\<le>Suc k. m (s + of_nat i) = c) \<longleftrightarrow> (\<exists>i\<le>k. m (s + of_nat i) = c)"
      using False le_Suc_eq by auto
    from Suc obtain r where r: "strrchr_loop m s (s + of_nat k) c = Some r"
      "if \<exists>i\<le>k. m (s + of_nat i) = c
       then \<exists>i\<le>k. r = s + of_nat i \<and> m (s + of_nat i) = c \<and> (\<forall>j. i < j \<and> j \<le> k \<longrightarrow> m (s + of_nat j) \<noteq> c)
       else r = NULL"
      by auto
    show ?thesis
      unfolding step * using False r
      by (intro exI [of _ r] conjI) (auto simp: le_Suc_eq split: if_splits)
  qed
qed

lemma set_scan_eq:
  assumes "str_at m a ds" and "x \<noteq> 0"
  shows "\<exists>q. set_scan m x a = Some q \<and> (m q = 0 \<longleftrightarrow> x \<notin> set ds)"
  using assms
  by (induction ds arbitrary: a) (subst set_scan.simps, auto)+

lemma strspn_loop_eq:
  assumes "str_at m p xs" and "str_at m a ds"
  shows "strspn_loop m p a n = Some (n + of_nat (length (takeWhile (\<lambda>x. x \<in> set ds) xs)))"
  using assms(1)
proof (induction xs arbitrary: p n)
  case Nil
  then show ?case by (subst strspn_loop.simps) simp
next
  case (Cons x xs)
  obtain q where "set_scan m x a = Some q" "m q = 0 \<longleftrightarrow> x \<notin> set ds"
    using set_scan_eq [OF assms(2), of x] Cons.prems by auto
  then show ?case
    using Cons by (subst strspn_loop.simps) (auto simp: ac_simps)
qed

lemma strspn_eq:
  assumes "str_at m s xs" and "str_at m accept ds"
  shows "strspn m s accept = Some (of_nat (length (takeWhile (\<lambda>x. x \<in> set ds) xs)))"
  by (simp add: strspn_def strspn_loop_eq [OF assms])

lemma strpbrk_eq:
  assumes "str_at m s xs" and "str_at m ct ds"
  shows "strpbrk m s ct =
    Some (if set xs \<inter> set ds = {} then NULL
          else s + of_nat (length (takeWhile (\<lambda>x. x \<notin> set ds) xs)))"
  using assms(1)
proof (induction xs arbitrary: s)
  case Nil
  then show ?case by (subst strpbrk.simps) simp
next
  case (Cons x xs)
  obtain q where "set_scan m x ct = Some q" "m q = 0 \<longleftrightarrow> x \<notin> set ds"
    using set_scan_eq [OF assms(2), of x] Cons.prems by auto
  then show ?case
    using Cons by (subst strpbrk.simps) (auto simp: ac_simps)
qed

section \<open>Splitting\<close>

text \<open>Ending a string early: what is before the new zero byte, and what is after it.\<close>

lemma str_at_cut:
  assumes "str_at m p xs" and "i < length xs"
  shows "str_at (m(p + of_nat i := 0)) p (take i xs)"
    and "str_at (m(p + of_nat i := 0)) (p + of_nat (Suc i)) (drop (Suc i) xs)"
proof -
  have len: "length xs < 2 ^ 32" using assms(1) by (rule str_at_length)
  let ?m = "m(p + of_nat i := 0)"
  have "p + of_nat i \<notin> area p i"
    using assms(2) len by (simp add: area_def)
  then have "load ?m p i = take i xs"
    using assms len load_upd_outside [of "p + of_nat i" p i m 0]
    by (intro nth_equalityI) (simp_all add: str_at_nth)
  then show "str_at ?m p (take i xs)"
    using assms str_at_nonzero [OF assms(1)] by (auto simp: str_at_iff dest: in_set_takeD)
  have "p + of_nat i \<notin> area (p + of_nat (Suc i)) (Suc (length (drop (Suc i) xs)))"
  proof -
    have "offset (p + of_nat i + 1) (p + of_nat i) = 2 ^ 32 - 1"
      by (rule offset_Suc_self)
    then show ?thesis
      using assms(2) len by (simp add: area_def ac_simps)
  qed
  moreover have "str_at m (p + of_nat (Suc i)) (drop (Suc i) xs)"
    using assms by (intro str_at_drop) simp_all
  ultimately show "str_at ?m (p + of_nat (Suc i)) (drop (Suc i) xs)"
    by (intro str_at_upd)
qed

text \<open>
  The first token of \<open>xs\<close>: separators skipped, then everything up to the next separator, and the
  place in \<open>xs\<close> where the search for the next token resumes.
\<close>

lemma takeWhile_length_less:
  "\<exists>x\<in>set xs. \<not> P x \<Longrightarrow> length (takeWhile P xs) < length xs"
  by (induction xs) auto

lemma dropWhile_as_drop: "dropWhile P xs = drop (length (takeWhile P xs)) xs"
  by (simp add: dropWhile_eq_drop)

lemma strtok_eq:
  assumes "str_at m p xs" and "str_at m ct ds" and "NULL \<notin> area p (Suc (length xs))"
    and "s = p \<or> s = NULL \<and> saved = p"
  defines "skip \<equiv> length (takeWhile (\<lambda>x. x \<in> set ds) xs)"
    and "rest \<equiv> dropWhile (\<lambda>x. x \<in> set ds) xs"
  defines "tok \<equiv> takeWhile (\<lambda>x. x \<notin> set ds) rest"
  defines "q \<equiv> p + of_nat skip + of_nat (length tok)"
  shows "strtok m saved s ct = Some
    (if rest = [] then (NULL, NULL, m)
     else if tok = rest then (p + of_nat skip, NULL, m)
     else (p + of_nat skip, q + 1, m(q := 0)))"
proof -
  have "p \<noteq> NULL" using assms(3) by (auto simp: area_def)
  have rest: "str_at m (p + of_nat skip) rest"
    unfolding rest_def dropWhile_as_drop skip_def
    using assms(1) by (rule str_at_drop) (rule length_takeWhile_le)
  have span: "strspn m p ct = Some (of_nat skip)"
    using strspn_eq [OF assms(1,2)] by (simp add: skip_def)
  have brk: "strpbrk m (p + of_nat skip) ct = Some (if tok = rest then NULL else q)"
    using strpbrk_eq [OF rest assms(2)]
    by (auto simp: tok_def q_def takeWhile_eq_all_conv)
  have start: "(if s \<noteq> NULL then s else saved) = p"
    using \<open>p \<noteq> NULL\<close> assms(4) by auto
  have "m (p + of_nat skip) = 0 \<longleftrightarrow> rest = []"
    using rest by (cases rest) auto
  moreover have "q \<noteq> NULL"
  proof -
    have "xs = takeWhile (\<lambda>x. x \<in> set ds) xs @ tok @ dropWhile (\<lambda>x. x \<notin> set ds) rest"
      by (simp add: tok_def rest_def)
    then have "skip + length tok < Suc (length xs)"
      unfolding skip_def by (metis length_append le_add1 add.assoc less_Suc_eq_le)
    then show ?thesis
      using assms(3) str_at_length [OF assms(1)] area_plus [of "skip + length tok" "Suc (length xs)" p]
      by (auto simp: q_def add.assoc)
  qed
  moreover have "m q \<noteq> 0" if "tok \<noteq> rest"
  proof -
    have "length tok < length rest"
      using that takeWhile_length_less [of rest "\<lambda>x. x \<notin> set ds"]
      by (auto simp: tok_def takeWhile_eq_all_conv)
    then show ?thesis
      using str_at_nth [OF rest, of "length tok"] str_at_nonzero [OF rest]
      by (metis nth_mem q_def)
  qed
  ultimately show ?thesis
    unfolding strtok_def start Let_def using \<open>p \<noteq> NULL\<close> by (simp add: span brk)
qed

lemma strsep_eq:
  assumes "str_at m s xs" and "str_at m ct ds" and "NULL \<notin> area s (Suc (length xs))"
  defines "tok \<equiv> takeWhile (\<lambda>x. x \<notin> set ds) xs"
  shows "strsep m s ct = Some
    (if tok = xs then (s, NULL, m)
     else (s, s + of_nat (Suc (length tok)), m(s + of_nat (length tok) := 0)))"
proof -
  have "length tok \<le> length xs"
    unfolding tok_def by (rule length_takeWhile_le)
  then have "s + of_nat (length tok) \<noteq> NULL"
    using assms(3) str_at_length [OF assms(1)] area_plus [of "length tok" "Suc (length xs)" s] by auto
  moreover have "s \<noteq> NULL" using assms(3) by (auto simp: area_def)
  ultimately show ?thesis
    using strpbrk_eq [OF assms(1,2)]
    by (auto simp: strsep_def tok_def takeWhile_eq_all_conv ac_simps)
qed

lemma length_swab [simp]: "length (swab xs) = length xs"
  by (induction xs rule: swab.induct) simp_all

lemma set_swab [simp]: "set (swab xs) = set xs"
  by (induction xs rule: swab.induct) auto

lemma strswab_loop_eq:
  assumes "str_at m p xs"
  shows "strswab_loop m p (p + 1) = Some (overwrite m p (swab xs))"
  using assms
proof (induction xs arbitrary: m p rule: swab.induct)
  case (1 a b xs)
  let ?m = "m(p := b, p + 1 := a)"
  have len: "Suc (Suc (length xs)) < 2 ^ 32"
    using str_at_length [OF "1.prems"] by simp
  have m: "m p = a" "m (p + 1) = b" "a \<noteq> 0" "b \<noteq> 0"
    using "1.prems" by simp_all
  have out: "p \<notin> area (p + 2) (Suc (length xs))" "p + 1 \<notin> area (p + 2) (Suc (length xs))"
    using len offset_Suc_self [of "p + 1"] offset_step [of p "p + 1"] offset_Suc_self [of p]
    by (auto simp: area_def add.assoc)
  have "str_at m (p + 2) xs"
    using "1.prems" by (simp add: add.assoc)
  then have "str_at ?m (p + 2) xs"
    using out by (intro str_at_upd) auto
  then have IH: "strswab_loop ?m (p + 2) (p + 2 + 1) = Some (overwrite ?m (p + 2) (swab xs))"
    by (rule "1.IH")
  have "strswab_loop m p (p + 1) = strswab_loop ?m (p + 2) (p + 2 + 1)"
    using m by (subst strswab_loop.simps) (simp add: add.assoc add.commute [of 2])
  also have "\<dots> = Some (overwrite m p (b # a # swab xs))"
    unfolding IH using len by (simp add: overwrite_Cons add.assoc)
  finally show ?case by simp
next
  case (2 a)
  then have "overwrite m p [a] = m"
    by (auto simp: overwrite_Cons)
  with 2 show ?case by (subst strswab_loop.simps) simp
next
  case 3
  then show ?case by (subst strswab_loop.simps) simp
qed

lemma strswab_string:
  assumes "str_at m s xs" and "s \<noteq> NULL" and "xs \<noteq> []"
  shows "\<exists>m'. strswab m s = Some (s, m') \<and> str_at m' s (swab xs)"
proof -
  have "m s \<noteq> 0" using assms by (cases xs) auto
  moreover have "str_at (overwrite m s (swab xs)) s (swab xs)"
  proof -
    have len: "length (swab xs) < 2 ^ 32" using str_at_length [OF assms(1)] by simp
    have "overwrite m s (swab xs) (s + of_nat (length xs)) = 0"
      using len str_at_end [OF assms(1)] by (simp add: overwrite_def)
    then show ?thesis
      using len load_overwrite [of "swab xs" m s] str_at_nonzero [OF assms(1)] by (simp add: str_at_iff)
  qed
  ultimately show ?thesis
    using strswab_loop_eq [OF assms(1)] assms(2) by (simp add: strswab_def)
qed

section \<open>Substrings\<close>

lemma strstr_loop_eq:
  assumes "str_at m s1 xs" and "load m s2 (length ys) = ys" and "ys \<noteq> []" and "length ys < 2 ^ 31"
  shows "strstr_loop m s1 s2 (int (length xs)) (int (length ys)) =
    Some (case first_sub ys xs of None \<Rightarrow> NULL | Some i \<Rightarrow> s1 + of_nat i)"
  using assms(1)
proof (induction xs arbitrary: s1)
  case Nil
  then show ?case
    using assms(3) by (subst strstr_loop.simps) (simp add: first_sub.simps)
next
  case (Cons x xs)
  have n: "unat (word_of_int (int (length ys)) :: u32) = length ys"
    using assms(4) by (simp add: unat_of_nat)
  have cmp: "memcmp m s1 s2 (word_of_int (int (length ys))) = 0 \<longleftrightarrow> prefix ys (x # xs)"
    if "length ys \<le> length (x # xs)"
  proof -
    have "load m s1 (length ys) = take (length ys) (x # xs)"
      using str_at_nth [OF Cons.prems] that by (intro nth_equalityI) simp_all
    then show ?thesis
      unfolding memcmp_eq_0 n assms(2) using that by (auto simp: prefix_def) (metis append_take_drop_id)
  qed
  have IH: "strstr_loop m (s1 + 1) s2 (int (length xs)) (int (length ys)) =
      Some (case first_sub ys xs of None \<Rightarrow> NULL | Some i \<Rightarrow> s1 + 1 + of_nat i)"
    using Cons by simp
  show ?case
  proof (cases "length ys \<le> length (x # xs)")
    case True
    then show ?thesis
      using IH cmp by (subst strstr_loop.simps) (auto simp: first_sub.simps [of ys "x # xs"] ac_simps split: option.split)
  next
    case False
    have "first_sub ys zs = None" if "length zs < length ys" for zs
      using that by (induction zs) (subst first_sub.simps, auto dest: prefix_length_le)+
    then show ?thesis
      using False by (subst strstr_loop.simps) simp
  qed
qed

lemma strlen_sint:
  assumes "str_at m s xs" and "length xs < 2 ^ 31"
  shows "\<exists>n. strlen m s = Some n \<and> sint n = int (length xs) \<and> (n = 0 \<longleftrightarrow> xs = [])"
proof -
  have "sint (of_nat (length xs) :: u32) = int (length xs)"
    using assms(2) sint_sbintrunc' [of "int (length xs)", where ?'a = 32]
    by (simp add: signed_take_bit_int_eq_self)
  moreover have "(of_nat (length xs) :: u32) = 0 \<longleftrightarrow> xs = []"
    using assms(2) by (auto simp: word_of_nat_eq_0_iff nat_dvd_not_less)
  ultimately show ?thesis
    by (simp add: strlen_eq [OF assms(1)])
qed

lemma strdup_string:
  assumes "str_at m s xs" and "s \<noteq> NULL" and "malloc (of_nat (length xs) + 1) m = (new, m1)"
    and "new \<noteq> NULL" and "str_at m1 s xs" and "ascending_safe new s (Suc (length xs))"
  shows "\<exists>m'. strdup malloc m s = Some (new, m') \<and> str_at m' new xs"
  using strcpy_string [OF assms(5,6)] assms(2-4) strlen_eq [OF assms(1)] by (auto simp: strdup_def)

section \<open>Properties\<close>

text \<open>
  C24: \<open>memmove\<close> copies correctly however source and destination overlap, when neither area runs over
  the end of the address space: every destination byte gets the byte the source had before the
  call, every other byte is kept, and the destination is returned.
\<close>

theorem memmove_correct:
  assumes "unat dest + unat count \<le> 2 ^ 32" and "unat src + unat count \<le> 2 ^ 32"
  shows "memmove m dest src count =
    (dest, \<lambda>a. if a \<in> area dest (unat count) then m (src + (a - dest)) else m a)"
proof -
  have "no_wrap dest src (unat count)" using assms by (simp add: no_wrap_def)
  then show ?thesis
    by (auto simp: memmove.copy_overwrite overwrite_def area_def fun_eq_iff offset_def)
qed

theorem memmove_correct_witness:
  "memmove ucast 0x1002 0x1000 4 =
    (0x1002, \<lambda>a. if a \<in> area 0x1002 (unat (4 :: u32)) then ucast (0x1000 + (a - 0x1002)) else ucast a)"
  by (rule memmove_correct) simp_all

text \<open>
  \<open>strcat\<close> returns; the string at the destination is then the concatenation of the two, and
  nothing outside the appended bytes and their terminating zero changed. The source may lie
  anywhere except where the copy would overwrite bytes of it that it still has to read.
\<close>

lemma strcat_correct:
  assumes "str_at m dest xs" and "str_at m src ys" and "length xs + length ys < 2 ^ 32"
    and "dest + of_nat (length xs) \<notin> area src (Suc (length ys))"
  shows "\<exists>m'. strcat m dest src = Some (dest, m') \<and> str_at m' dest (xs @ ys) \<and>
    (\<forall>a. a \<notin> area (dest + of_nat (length xs)) (Suc (length ys)) \<longrightarrow> m' a = m a)"
proof -
  have "ascending_safe (dest + of_nat (length xs)) src (Suc (length ys))"
    using assms(4) by (auto simp: ascending_safe_def area_def)
  note eq = strcat_eq [OF assms(1,2) this]
  show ?thesis
    using str_at_append [OF assms(1) str_at_nonzero [OF assms(2)] assms(3)]
    by (auto simp: eq overwrite_outside)
qed

text \<open>
  \<open>strcmp\<close> returns for any two strings, zero exactly when they are equal; on 7-bit characters
  the result is the difference of the first characters that differ, so its sign is the
  lexicographic order.
\<close>

lemma strcmp_correct:
  assumes "str_at m cs xs" and "str_at m ct ys"
  shows "\<exists>r. strcmp m cs ct = Some r \<and> (r = 0 \<longleftrightarrow> xs = ys) \<and>
    ((\<forall>x\<in>set xs \<union> set ys. x < 128) \<longrightarrow> r = first_diff xs ys)"
  using strcmp_eq [OF assms] sint_first_diff_eq_0 [OF str_at_nonzero str_at_nonzero, OF assms]
    first_diff_ascii [of xs ys] sint_of_int_u8 by auto

text \<open>
  One call of \<open>strtok\<close> on the string \<open>xs\<close> (given, or resumed at the saved position): leading
  separators are skipped; when nothing is left the call returns \<open>NULL\<close> and clears the position;
  otherwise it returns the place of the token, which is then a string of its own in memory, and
  leaves the position behind the separator that ended it, where the rest of \<open>xs\<close> is intact, or
  clears it when the token was the last.
\<close>

lemma strtok_correct:
  assumes "str_at m p xs" and "str_at m ct ds" and "NULL \<notin> area p (Suc (length xs))"
    and "s = p \<or> s = NULL \<and> saved = p"
    and "rest = dropWhile (\<lambda>x. x \<in> set ds) xs" and "tok = takeWhile (\<lambda>x. x \<notin> set ds) rest"
  shows "\<exists>t saved' m'. strtok m saved s ct = Some (t, saved', m') \<and>
    (if rest = [] then t = NULL \<and> saved' = NULL \<and> m' = m
     else t = p + of_nat (length xs - length rest) \<and> str_at m' t tok \<and>
       (if tok = rest then saved' = NULL
        else saved' = t + of_nat (Suc (length tok)) \<and> str_at m' saved' (drop (Suc (length tok)) rest)))"
proof -
  let ?skip = "length (takeWhile (\<lambda>x. x \<in> set ds) xs)"
  have skip: "?skip = length xs - length rest"
    unfolding assms(5) by (metis add_diff_cancel_right' length_append takeWhile_dropWhile_id)
  have rest: "str_at m (p + of_nat ?skip) rest"
    unfolding assms(5) dropWhile_as_drop using assms(1) by (rule str_at_drop) (rule length_takeWhile_le)
  have tok: "tok = take (length tok) rest" "length tok < length rest" if "tok \<noteq> rest"
    using that assms(6) takeWhile_eq_take [of "\<lambda>x. x \<notin> set ds" rest]
      takeWhile_length_less [of rest "\<lambda>x. x \<notin> set ds"]
    by (auto simp: takeWhile_eq_all_conv)
  note eq = strtok_eq [OF assms(1-4), folded assms(5), folded assms(6)]
  show ?thesis
  proof (cases "tok = rest")
    case True
    then have "strtok m saved s ct = Some (if rest = [] then (NULL, NULL, m) else (p + of_nat ?skip, NULL, m))"
      unfolding eq by (simp only: if_True refl)
    then show ?thesis
      using rest True unfolding skip by (cases "rest = []") simp_all
  next
    case False
    let ?t = "p + of_nat ?skip"
    let ?q = "?t + of_nat (length tok)"
    have "rest \<noteq> []" using tok(2) [OF False] by auto
    then have ret: "strtok m saved s ct = Some (?t, ?q + 1, m(?q := 0))"
      unfolding eq by (simp only: False if_False)
    have "str_at (m(?q := 0)) ?t tok"
      using str_at_cut(1) [OF rest tok(2) [OF False]] tok(1) [OF False] by (simp only:)
    moreover have "?q + 1 = ?t + of_nat (Suc (length tok))" by simp
    moreover note str_at_cut(2) [OF rest tok(2) [OF False]]
    ultimately show ?thesis
      using False \<open>rest \<noteq> []\<close> unfolding ret skip by (simp only: if_False) blast
  qed
qed

text \<open>
  \<open>strstr\<close> returns for strings below 2 GB and gives the first place where the second occurs in
  the first, or \<open>NULL\<close> when it does not occur.
\<close>

lemma strstr_correct:
  assumes "str_at m s1 xs" and "str_at m s2 ys" and "length xs < 2 ^ 31" and "length ys < 2 ^ 31"
  shows "strstr m s1 s2 = Some (case first_sub ys xs of None \<Rightarrow> NULL | Some i \<Rightarrow> s1 + of_nat i)"
proof (cases "ys = []")
  case True
  then show ?thesis
    using strlen_sint [OF assms(2,4)] by (auto simp: strstr_def first_sub.simps)
next
  case False
  have "load m s2 (length ys) = ys" using assms(2) by (simp add: str_at_iff)
  from strstr_loop_eq [OF assms(1) this False assms(4)] show ?thesis
    using False strlen_sint [OF assms(1,3)] strlen_sint [OF assms(2,4)] by (auto simp: strstr_def)
qed

text \<open>
  \<open>strrchr\<close> on a string that does not start at address 0 and does not run over the end of the
  address space returns: the last place of the character (the terminating zero included), or
  \<open>NULL\<close> when it does not occur.
\<close>

lemma strrchr_correct:
  assumes "str_at m s xs" and "s \<noteq> NULL" and "unat s + length xs < 2 ^ 32"
  shows "\<exists>r. strrchr m s (uint c) = Some r \<and>
    (if c \<in> set (xs @ [0])
     then \<exists>i \<le> length xs. r = s + of_nat i \<and> (xs @ [0]) ! i = c \<and>
            (\<forall>j. i < j \<and> j \<le> length xs \<longrightarrow> (xs @ [0]) ! j \<noteq> c)
     else r = NULL)"
proof -
  have nth: "m (s + of_nat i) = (xs @ [0]) ! i" if "i \<le> length xs" for i
    using that str_at_nth [OF assms(1)] str_at_end [OF assms(1)]
    by (cases "i = length xs") (auto simp: nth_append)
  have mem: "(\<exists>i \<le> length xs. m (s + of_nat i) = c) \<longleftrightarrow> c \<in> set (xs @ [0])"
    using nth by (auto simp: in_set_conv_nth less_Suc_eq_le simp del: set_append)
  obtain r where r: "strrchr_loop m s (s + of_nat (length xs)) c = Some r"
    "if \<exists>i\<le>length xs. m (s + of_nat i) = c
     then \<exists>i\<le>length xs. r = s + of_nat i \<and> m (s + of_nat i) = c \<and>
       (\<forall>j. i < j \<and> j \<le> length xs \<longrightarrow> m (s + of_nat j) \<noteq> c)
     else r = NULL"
    using strrchr_loop_eq [OF assms(2,3)] by blast
  moreover have "strrchr m s (uint c) = Some r"
    using r(1) strlen_eq [OF assms(1)] by (simp add: strrchr_def)
  ultimately show ?thesis
    unfolding mem using nth by (auto split: if_splits)
qed

end
