(* ===== verification/Lib_Lmb.thy ===== *)
theory Lib_Lmb
  imports Prelude "HOL-Library.Monad_Syntax"
begin

text \<open>
  The logical memory blocks of \<^verbatim>\<open>lib_generic/lmb.c\<close>: two tables of memory regions, the memory there is
  and what of it is reserved, with which the image loader places ramdisks and device trees. A table
  is an array of nine entries of which the first \<open>cnt\<close> are in use, kept sorted by address, with
  neighbours merged. Every array access is checked: \<open>None\<close> stands for an access outside the array
  (or a loop that does not end), so a theorem that a routine returns also says that it stays inside
  its table.
\<close>

section \<open>The code\<close>

record lmb_property =
  pbase :: u32
  psize :: u32

record lmb_region =
  rcnt :: u32
  rsize :: u32
  region :: "lmb_property list"

record lmb =
  lmb_memory :: lmb_region
  lmb_reserved :: lmb_region

definition MAX_LMB_REGIONS :: u32 where
  "MAX_LMB_REGIONS = 8"

text \<open>Reading and writing an array element.\<close>

definition rd :: "lmb_region \<Rightarrow> nat \<Rightarrow> lmb_property option" where
  "rd rgn i = (if i < length (region rgn) then Some (region rgn ! i) else None)"

definition wr :: "lmb_region \<Rightarrow> nat \<Rightarrow> lmb_property \<Rightarrow> lmb_region option" where
  "wr rgn i p = (if i < length (region rgn) then Some (rgn\<lparr>region := (region rgn)[i := p]\<rparr>) else None)"

definition lmb_addrs_overlap :: "u32 \<Rightarrow> u32 \<Rightarrow> u32 \<Rightarrow> u32 \<Rightarrow> bool" where
  "lmb_addrs_overlap base1 size1 base2 size2 \<longleftrightarrow> base1 < base2 + size2 \<and> base2 < base1 + size1"

definition lmb_addrs_adjacent :: "u32 \<Rightarrow> u32 \<Rightarrow> u32 \<Rightarrow> u32 \<Rightarrow> int" where
  "lmb_addrs_adjacent base1 size1 base2 size2 =
     (if base2 = base1 + size1 then 1 else if base1 = base2 + size2 then - 1 else 0)"

definition lmb_regions_adjacent :: "lmb_region \<Rightarrow> nat \<Rightarrow> nat \<Rightarrow> int option" where
  "lmb_regions_adjacent rgn r1 r2 = do {
     p1 \<leftarrow> rd rgn r1;
     p2 \<leftarrow> rd rgn r2;
     Some (lmb_addrs_adjacent (pbase p1) (psize p1) (pbase p2) (psize p2)) }"

text \<open>The loop of \<open>lmb_remove_region\<close> with the bound \<open>n = cnt - 1\<close>.\<close>

function lmb_shift_down :: "lmb_region \<Rightarrow> nat \<Rightarrow> nat \<Rightarrow> lmb_region option" where
  "lmb_shift_down rgn i n =
     (if i < n then do {
        p \<leftarrow> rd rgn (i + 1);
        rgn' \<leftarrow> wr rgn i p;
        lmb_shift_down rgn' (i + 1) n }
      else Some rgn)"
  by pat_completeness auto
termination
  by (relation "measure (\<lambda>(rgn, i, n). n - i)") auto

declare lmb_shift_down.simps [simp del]

definition lmb_remove_region :: "lmb_region \<Rightarrow> nat \<Rightarrow> lmb_region option" where
  "lmb_remove_region rgn r = do {
     rgn' \<leftarrow> lmb_shift_down rgn r (unat (rcnt rgn - 1));
     Some (rgn'\<lparr>rcnt := rcnt rgn' - 1\<rparr>) }"

definition lmb_coalesce_regions :: "lmb_region \<Rightarrow> nat \<Rightarrow> nat \<Rightarrow> lmb_region option" where
  "lmb_coalesce_regions rgn r1 r2 = do {
     p1 \<leftarrow> rd rgn r1;
     p2 \<leftarrow> rd rgn r2;
     rgn' \<leftarrow> wr rgn r1 (p1\<lparr>psize := psize p1 + psize p2\<rparr>);
     lmb_remove_region rgn' r2 }"

definition lmb_init :: "lmb \<Rightarrow> lmb option" where
  "lmb_init lmb = do {
     mm \<leftarrow> wr (lmb_memory lmb) 0 \<lparr>pbase = 0, psize = 0\<rparr>;
     rr \<leftarrow> wr (lmb_reserved lmb) 0 \<lparr>pbase = 0, psize = 0\<rparr>;
     Some \<lparr>lmb_memory = mm\<lparr>rcnt := 1, rsize := 0\<rparr>, lmb_reserved = rr\<lparr>rcnt := 1, rsize := 0\<rparr>\<rparr> }"

text \<open>
  The first loop of \<open>lmb_add_region\<close>, from index \<open>i\<close>: \<open>Inl ()\<close> when the region is in the table
  already, otherwise the table, the index the loop stopped at and the number of merges (0 or 1).
\<close>

function lmb_try_coalesce ::
  "lmb_region \<Rightarrow> u32 \<Rightarrow> u32 \<Rightarrow> nat \<Rightarrow> (unit + lmb_region \<times> nat \<times> int) option" where
  "lmb_try_coalesce rgn base sz i =
     (if i < unat (rcnt rgn) then do {
        p \<leftarrow> rd rgn i;
        if pbase p = base \<and> psize p = sz then Some (Inl ())
        else
          let adjacent = lmb_addrs_adjacent base sz (pbase p) (psize p)
          in if adjacent > 0 then do {
               rgn' \<leftarrow> wr rgn i (p\<lparr>pbase := pbase p - sz, psize := psize p + sz\<rparr>);
               Some (Inr (rgn', i, 1)) }
             else if adjacent < 0 then do {
               rgn' \<leftarrow> wr rgn i (p\<lparr>psize := psize p + sz\<rparr>);
               Some (Inr (rgn', i, 1)) }
             else lmb_try_coalesce rgn base sz (i + 1) }
      else Some (Inr (rgn, i, 0)))"
  by pat_completeness auto
termination
  by (relation "measure (\<lambda>(rgn, base, sz, i). unat (rcnt rgn) - i)") auto

declare lmb_try_coalesce.simps [simp del]

text \<open>The insertion loop; the argument is one more than the loop variable, 0 ends the loop.\<close>

fun lmb_insert :: "lmb_region \<Rightarrow> u32 \<Rightarrow> u32 \<Rightarrow> nat \<Rightarrow> lmb_region option" where
  "lmb_insert rgn base sz 0 = Some rgn"
| "lmb_insert rgn base sz (Suc i) = do {
     p \<leftarrow> rd rgn i;
     if base < pbase p then do {
       rgn' \<leftarrow> wr rgn (i + 1) p;
       lmb_insert rgn' base sz i }
     else wr rgn (i + 1) \<lparr>pbase = base, psize = sz\<rparr> }"

text \<open>The part of \<open>lmb_add_region\<close> after the first loop has stopped at \<open>i\<close>.\<close>

definition lmb_add_rest :: "lmb_region \<Rightarrow> u32 \<Rightarrow> u32 \<Rightarrow> nat \<Rightarrow> int \<Rightarrow> (int \<times> lmb_region) option" where
  "lmb_add_rest rgn base sz i coalesced = do {
     (rgn, coalesced) \<leftarrow>
       (if of_nat i < rcnt rgn - 1 then do {
          adjacent \<leftarrow> lmb_regions_adjacent rgn i (i + 1);
          if adjacent \<noteq> 0 then do {
            rgn' \<leftarrow> lmb_coalesce_regions rgn i (i + 1);
            Some (rgn', coalesced + 1) }
          else Some (rgn, coalesced) }
        else Some (rgn, coalesced));
     if coalesced \<noteq> 0 then Some (coalesced, rgn)
     else if rcnt rgn \<ge> MAX_LMB_REGIONS then Some (- 1, rgn)
     else do {
       rgn1 \<leftarrow> lmb_insert rgn base sz (unat (rcnt rgn));
       p0 \<leftarrow> rd rgn1 0;
       rgn2 \<leftarrow> (if base < pbase p0 then wr rgn1 0 \<lparr>pbase = base, psize = sz\<rparr> else Some rgn1);
       Some (0, rgn2\<lparr>rcnt := rcnt rgn2 + 1\<rparr>) } }"

definition lmb_add_region :: "lmb_region \<Rightarrow> u32 \<Rightarrow> u32 \<Rightarrow> (int \<times> lmb_region) option" where
  "lmb_add_region rgn base sz = do {
     p0 \<leftarrow> rd rgn 0;
     if rcnt rgn = 1 \<and> psize p0 = 0 then do {
       rgn' \<leftarrow> wr rgn 0 \<lparr>pbase = base, psize = sz\<rparr>;
       Some (0, rgn') }
     else do {
       res \<leftarrow> lmb_try_coalesce rgn base sz 0;
       case res of
         Inl _ \<Rightarrow> Some (0, rgn)
       | Inr (rgn', i, coalesced) \<Rightarrow> lmb_add_rest rgn' base sz i coalesced } }"

definition lmb_add :: "lmb \<Rightarrow> u32 \<Rightarrow> u32 \<Rightarrow> (int \<times> lmb) option" where
  "lmb_add lmb base sz = do {
     (r, rgn) \<leftarrow> lmb_add_region (lmb_memory lmb) base sz;
     Some (r, lmb\<lparr>lmb_memory := rgn\<rparr>) }"

definition lmb_reserve :: "lmb \<Rightarrow> u32 \<Rightarrow> u32 \<Rightarrow> (int \<times> lmb) option" where
  "lmb_reserve lmb base sz = do {
     (r, rgn) \<leftarrow> lmb_add_region (lmb_reserved lmb) base sz;
     Some (r, lmb\<lparr>lmb_reserved := rgn\<rparr>) }"

text \<open>The search loop of \<open>lmb_free\<close>: the index it stops at.\<close>

function lmb_find :: "lmb_region \<Rightarrow> u32 \<Rightarrow> u32 \<Rightarrow> nat \<Rightarrow> nat option" where
  "lmb_find rgn base end i =
     (if i < unat (rcnt rgn) then do {
        p \<leftarrow> rd rgn i;
        if pbase p \<le> base \<and> end \<le> pbase p + psize p then Some i
        else lmb_find rgn base end (i + 1) }
      else Some i)"
  by pat_completeness auto
termination
  by (relation "measure (\<lambda>(rgn, base, end, i). unat (rcnt rgn) - i)") auto

declare lmb_find.simps [simp del]

definition lmb_free_region :: "lmb_region \<Rightarrow> u32 \<Rightarrow> u32 \<Rightarrow> (int \<times> lmb_region) option" where
  "lmb_free_region rgn base sz =
     (let end = base + sz
      in do {
        i \<leftarrow> lmb_find rgn base end 0;
        if i = unat (rcnt rgn) then Some (- 1, rgn)
        else do {
          p \<leftarrow> rd rgn i;
          let rgnbegin = pbase p;
          let rgnend = pbase p + psize p;
          if rgnbegin = base \<and> rgnend = end then do {
            rgn' \<leftarrow> lmb_remove_region rgn i;
            Some (0, rgn') }
          else if rgnbegin = base then do {
            rgn' \<leftarrow> wr rgn i (p\<lparr>pbase := end, psize := psize p - sz\<rparr>);
            Some (0, rgn') }
          else if rgnend = end then do {
            rgn' \<leftarrow> wr rgn i (p\<lparr>psize := psize p - sz\<rparr>);
            Some (0, rgn') }
          else do {
            rgn' \<leftarrow> wr rgn i (p\<lparr>psize := base - pbase p\<rparr>);
            lmb_add_region rgn' end (rgnend - end) } } })"

definition lmb_free :: "lmb \<Rightarrow> u32 \<Rightarrow> u32 \<Rightarrow> (int \<times> lmb) option" where
  "lmb_free lmb base sz = do {
     (r, rgn) \<leftarrow> lmb_free_region (lmb_reserved lmb) base sz;
     Some (r, lmb\<lparr>lmb_reserved := rgn\<rparr>) }"

function lmb_overlaps_from :: "lmb_region \<Rightarrow> u32 \<Rightarrow> u32 \<Rightarrow> nat \<Rightarrow> int option" where
  "lmb_overlaps_from rgn base sz i =
     (if i < unat (rcnt rgn) then do {
        p \<leftarrow> rd rgn i;
        if lmb_addrs_overlap base sz (pbase p) (psize p) then Some (int i)
        else lmb_overlaps_from rgn base sz (i + 1) }
      else Some (- 1))"
  by pat_completeness auto
termination
  by (relation "measure (\<lambda>(rgn, base, sz, i). unat (rcnt rgn) - i)") auto

declare lmb_overlaps_from.simps [simp del]

definition lmb_overlaps_region :: "lmb_region \<Rightarrow> u32 \<Rightarrow> u32 \<Rightarrow> int option" where
  "lmb_overlaps_region rgn base sz = lmb_overlaps_from rgn base sz 0"

definition lmb_align_down :: "u32 \<Rightarrow> u32 \<Rightarrow> u32" where
  "lmb_align_down addr sz = addr AND NOT (sz - 1)"

definition lmb_align_up :: "u32 \<Rightarrow> u32 \<Rightarrow> u32" where
  "lmb_align_up addr sz = (addr + (sz - 1)) AND NOT (sz - 1)"

text \<open>
  The inner loop of \<open>__lmb_alloc_base\<close> in the region that starts at \<open>lmbbase\<close>: \<open>Inl\<close> is a return
  from the function, \<open>Inr ()\<close> the end of the loop.
\<close>

partial_function (option) lmb_alloc_down ::
  "lmb \<Rightarrow> u32 \<Rightarrow> u32 \<Rightarrow> u32 \<Rightarrow> u32 \<Rightarrow> (u32 \<times> lmb + unit) option" where
  "lmb_alloc_down lmb sz align lmbbase base =
     (if base \<noteq> 0 \<and> lmbbase \<le> base then do {
        j \<leftarrow> lmb_overlaps_region (lmb_reserved lmb) base sz;
        if j < 0 then do {
          (r, rgn) \<leftarrow> lmb_add_region (lmb_reserved lmb) base (lmb_align_up sz align);
          Some (Inl (if r < 0 then 0 else base, lmb\<lparr>lmb_reserved := rgn\<rparr>)) }
        else do {
          p \<leftarrow> rd (lmb_reserved lmb) (nat j);
          if pbase p < sz then Some (Inr ())
          else lmb_alloc_down lmb sz align lmbbase (lmb_align_down (pbase p - sz) align) } }
      else Some (Inr ()))"

text \<open>The outer loop; the argument is one more than the loop variable.\<close>

fun lmb_alloc_regions :: "lmb \<Rightarrow> u32 \<Rightarrow> u32 \<Rightarrow> u32 \<Rightarrow> nat \<Rightarrow> (u32 \<times> lmb) option" where
  "lmb_alloc_regions lmb sz align max_addr 0 = Some (0, lmb)"
| "lmb_alloc_regions lmb sz align max_addr (Suc i) = do {
     p \<leftarrow> rd (lmb_memory lmb) i;
     let lmbbase = pbase p;
     let lmbsize = psize p;
     if lmbsize < sz \<or> (max_addr \<noteq> 0 \<and> \<not> lmbbase < max_addr)
     then lmb_alloc_regions lmb sz align max_addr i
     else do {
       let base = (if max_addr = 0 then lmb_align_down (lmbbase + lmbsize - sz) align
                   else lmb_align_down (min (lmbbase + lmbsize) max_addr - sz) align);
       res \<leftarrow> lmb_alloc_down lmb sz align lmbbase base;
       case res of Inl ret \<Rightarrow> Some ret | Inr _ \<Rightarrow> lmb_alloc_regions lmb sz align max_addr i } }"

definition lmb_alloc_base' :: "lmb \<Rightarrow> u32 \<Rightarrow> u32 \<Rightarrow> u32 \<Rightarrow> (u32 \<times> lmb) option" where
  "lmb_alloc_base' lmb sz align max_addr =
     lmb_alloc_regions lmb sz align max_addr (nat (sint (rcnt (lmb_memory lmb) - 1) + 1))"

text \<open>\<open>lmb_alloc_base\<close> adds a message on failure, \<open>lmb_alloc\<close> allows any address.\<close>

definition lmb_alloc_base :: "lmb \<Rightarrow> u32 \<Rightarrow> u32 \<Rightarrow> u32 \<Rightarrow> (u32 \<times> lmb \<times> bool) option" where
  "lmb_alloc_base lmb sz align max_addr = do {
     (alloc, lmb') \<leftarrow> lmb_alloc_base' lmb sz align max_addr;
     Some (alloc, lmb', alloc = 0) }"

definition lmb_alloc :: "lmb \<Rightarrow> u32 \<Rightarrow> u32 \<Rightarrow> (u32 \<times> lmb \<times> bool) option" where
  "lmb_alloc lmb sz align = lmb_alloc_base lmb sz align 0"

function lmb_is_reserved_from :: "lmb_region \<Rightarrow> u32 \<Rightarrow> nat \<Rightarrow> bool option" where
  "lmb_is_reserved_from rgn addr i =
     (if i < unat (rcnt rgn) then do {
        p \<leftarrow> rd rgn i;
        let upper = pbase p + psize p - 1;
        if pbase p \<le> addr \<and> addr \<le> upper then Some True
        else lmb_is_reserved_from rgn addr (i + 1) }
      else Some False)"
  by pat_completeness auto
termination
  by (relation "measure (\<lambda>(rgn, addr, i). unat (rcnt rgn) - i)") auto

declare lmb_is_reserved_from.simps [simp del]

definition lmb_is_reserved :: "lmb \<Rightarrow> u32 \<Rightarrow> bool option" where
  "lmb_is_reserved lmb addr = lmb_is_reserved_from (lmb_reserved lmb) addr 0"

section \<open>The abstract table\<close>

text \<open>
  The entries in use, the addresses an entry covers, and the well-formedness of a table: one to
  eight entries, none empty and none reaching the end of the address space, in ascending order and
  disjoint. A freshly initialised table holds a single empty entry instead.
\<close>

definition entries :: "lmb_region \<Rightarrow> lmb_property list" where
  "entries rgn = take (unat (rcnt rgn)) (region rgn)"

definition pend :: "lmb_property \<Rightarrow> nat" where
  "pend p = unat (pbase p) + unat (psize p)"

definition span :: "lmb_property \<Rightarrow> nat set" where
  "span p = {unat (pbase p)..<pend p}"

definition cover :: "lmb_property list \<Rightarrow> nat set" where
  "cover es = (\<Union>p\<in>set es. span p)"

definition proper :: "lmb_property \<Rightarrow> bool" where
  "proper p \<longleftrightarrow> 0 < psize p \<and> pend p < 2 ^ 32"

definition below :: "lmb_property \<Rightarrow> lmb_property \<Rightarrow> bool" where
  "below p q \<longleftrightarrow> pend p \<le> unat (pbase q)"

definition table :: "lmb_property list \<Rightarrow> bool" where
  "table es \<longleftrightarrow> (\<forall>p\<in>set es. proper p) \<and> sorted_wrt below es"

definition region_ok :: "lmb_region \<Rightarrow> bool" where
  "region_ok rgn \<longleftrightarrow>
     length (region rgn) = 9 \<and> 1 \<le> rcnt rgn \<and> rcnt rgn \<le> 8 \<and>
     (table (entries rgn) \<or> rcnt rgn = 1 \<and> region rgn ! 0 = \<lparr>pbase = 0, psize = 0\<rparr>)"

text \<open>The state of a table that is in use.\<close>

definition in_use :: "lmb_region \<Rightarrow> bool" where
  "in_use rgn \<longleftrightarrow> length (region rgn) = 9 \<and> 1 \<le> unat (rcnt rgn) \<and> unat (rcnt rgn) \<le> 8 \<and> table (entries rgn)"

abbreviation upd_entry :: "lmb_region \<Rightarrow> nat \<Rightarrow> lmb_property \<Rightarrow> lmb_region" where
  "upd_entry rgn i p \<equiv> rgn\<lparr>region := (region rgn)[i := p]\<rparr>"

definition disjoint_from :: "lmb_property list \<Rightarrow> lmb_property \<Rightarrow> bool" where
  "disjoint_from es p \<longleftrightarrow> (\<forall>q\<in>set es. pend p \<le> unat (pbase q) \<or> pend q \<le> unat (pbase p))"

definition reserved_set :: "lmb_region \<Rightarrow> nat set" where
  "reserved_set rgn = cover (entries rgn)"

text \<open>
  An allocation: the address is aligned and not zero, the area was free and is reserved now, and
  nothing else changed.
\<close>

definition granted :: "lmb \<Rightarrow> u32 \<Rightarrow> u32 \<Rightarrow> u32 \<Rightarrow> lmb \<Rightarrow> bool" where
  "granted lmb sz align b lmb' \<longleftrightarrow>
     b \<noteq> 0 \<and> b AND (align - 1) = 0 \<and> lmb_memory lmb' = lmb_memory lmb \<and> in_use (lmb_reserved lmb') \<and>
     {unat b..<unat b + unat sz} \<inter> reserved_set (lmb_reserved lmb) = {} \<and>
     reserved_set (lmb_reserved lmb') = reserved_set (lmb_reserved lmb) \<union> {unat b..<unat b + unat sz}"

text \<open>A table for the witnesses: given by its entries, and a blank pair of tables.\<close>

definition blank_lmb :: lmb where
  "blank_lmb =
     (let r = \<lparr>rcnt = 0, rsize = 0, region = replicate 9 \<lparr>pbase = 0, psize = 0\<rparr>\<rparr>
      in \<lparr>lmb_memory = r, lmb_reserved = r\<rparr>)"

definition table_of :: "(u32 \<times> u32) list \<Rightarrow> lmb_region" where
  "table_of xs = \<lparr>rcnt = of_nat (length xs), rsize = 0,
     region = map (\<lambda>(b, s). \<lparr>pbase = b, psize = s\<rparr>) xs @ replicate (9 - length xs) \<lparr>pbase = 0, psize = 0\<rparr>\<rparr>"

section \<open>Array accesses\<close>

lemma rd_Some [simp]: "i < length (region rgn) \<Longrightarrow> rd rgn i = Some (region rgn ! i)"
  by (simp add: rd_def)

lemma wr_Some [simp]:
  "i < length (region rgn) \<Longrightarrow> wr rgn i p = Some (rgn\<lparr>region := (region rgn)[i := p]\<rparr>)"
  by (simp add: wr_def)

lemma entries_nth: "i < unat (rcnt rgn) \<Longrightarrow> entries rgn ! i = region rgn ! i"
  by (simp add: entries_def)

lemma length_entries [simp]:
  "unat (rcnt rgn) \<le> length (region rgn) \<Longrightarrow> length (entries rgn) = unat (rcnt rgn)"
  by (simp add: entries_def)

text \<open>Shifting the entries after \<open>r\<close> down removes entry \<open>r\<close>.\<close>

lemma lmb_shift_down_eq:
  assumes "i \<le> n" and "n < length (region rgn)"
  shows "lmb_shift_down rgn i n = Some (rgn\<lparr>region :=
    take i (region rgn) @ take (n - i) (drop (Suc i) (region rgn)) @ drop n (region rgn)\<rparr>)"
  using assms
proof (induction rgn i n rule: lmb_shift_down.induct)
  case (1 rgn i n)
  show ?case
  proof (cases "i < n")
    case True
    let ?a = "region rgn"
    let ?rgn = "rgn\<lparr>region := ?a[i := ?a ! Suc i]\<rparr>"
    have step: "lmb_shift_down rgn i n = lmb_shift_down ?rgn (i + 1) n"
      using True "1.prems" by (subst lmb_shift_down.simps) simp
    have "lmb_shift_down ?rgn (i + 1) n = Some (?rgn\<lparr>region := take (i + 1) (region ?rgn) @
        take (n - (i + 1)) (drop (Suc (i + 1)) (region ?rgn)) @ drop n (region ?rgn)\<rparr>)"
      using True "1.prems" by (intro "1.IH") simp_all
    moreover have "take (i + 1) (region ?rgn) = take i ?a @ [?a ! Suc i]"
      using True "1.prems" by (simp add: take_Suc_conv_app_nth)
    moreover obtain k where "n = Suc (i + k)"
      using True less_iff_Suc_add by blast
    then have "take (n - i) (drop (Suc i) ?a) =
        ?a ! Suc i # take (n - (i + 1)) (drop (Suc (Suc i)) ?a)"
      using "1.prems" by (simp add: Cons_nth_drop_Suc [symmetric] Suc_diff_le)
    ultimately show ?thesis
      using True unfolding step by simp
  next
    case False
    with "1.prems" show ?thesis
      by (subst lmb_shift_down.simps) simp
  qed
qed

lemma unat_cnt_minus_1: "(c :: u32) \<noteq> 0 \<Longrightarrow> unat (c - 1) = unat c - 1"
  by (simp add: unat_minus_one)

lemma lmb_remove_region_entries:
  assumes "r < unat (rcnt rgn)" and "unat (rcnt rgn) \<le> length (region rgn)"
  shows "\<exists>rgn'. lmb_remove_region rgn r = Some rgn' \<and> length (region rgn') = length (region rgn) \<and>
    rcnt rgn' = rcnt rgn - 1 \<and> entries rgn' = take r (entries rgn) @ drop (Suc r) (entries rgn)"
proof -
  let ?n = "unat (rcnt rgn) - 1" and ?a = "region rgn"
  let ?b = "take r ?a @ take (?n - r) (drop (Suc r) ?a) @ drop ?n ?a"
  have c: "rcnt rgn \<noteq> 0" using assms(1) by auto
  have "lmb_remove_region rgn r = Some (rgn\<lparr>region := ?b, rcnt := rcnt rgn - 1\<rparr>)"
    using assms c lmb_shift_down_eq [of r ?n rgn]
    by (simp add: lmb_remove_region_def unat_cnt_minus_1)
  moreover have "length ?b = length ?a"
    using assms by simp
  moreover have "take ?n ?b = take r (take (unat (rcnt rgn)) ?a) @ drop (Suc r) (take (unat (rcnt rgn)) ?a)"
  proof -
    obtain k where "unat (rcnt rgn) = Suc (r + k)"
      using assms(1) less_iff_Suc_add by blast
    then show ?thesis using assms(2) by (simp add: drop_take)
  qed
  ultimately show ?thesis
    using c by (simp add: entries_def unat_cnt_minus_1)
qed

section \<open>Order and cover\<close>

lemma proper_unfold: "proper p \<Longrightarrow> 0 < unat (psize p) \<and> unat (pbase p) + unat (psize p) < 2 ^ 32"
  by (simp add: proper_def pend_def unat_gt_0 word_gt_0)

lemma properI: "0 < unat (psize p) \<Longrightarrow> pend p < 2 ^ 32 \<Longrightarrow> proper p"
  by (simp add: proper_def unat_gt_0 word_gt_0)

lemma unat_base_plus_size:
  "unat (b :: u32) + unat (s :: u32) < 2 ^ 32 \<Longrightarrow> unat (b + s) = unat b + unat s"
  by (subst unat_add_lem [THEN iffD1]) simp_all

lemma cover_append [simp]: "cover (xs @ ys) = cover xs \<union> cover ys"
  by (auto simp: cover_def)

lemma cover_Cons [simp]: "cover (p # ps) = span p \<union> cover ps"
  by (auto simp: cover_def)

lemma cover_Nil [simp]: "cover [] = {}"
  by (simp add: cover_def)

lemma table_append:
  "table (xs @ ys) \<longleftrightarrow> table xs \<and> table ys \<and> (\<forall>p\<in>set xs. \<forall>q\<in>set ys. below p q)"
  by (auto simp: table_def sorted_wrt_append)

lemma table_Cons:
  "table (p # ps) \<longleftrightarrow> proper p \<and> table ps \<and> (\<forall>q\<in>set ps. below p q)"
  by (auto simp: table_def)

lemma split_at: "i < length es \<Longrightarrow> es = take i es @ es ! i # drop (Suc i) es"
  by (rule id_take_nth_drop)

text \<open>Replacing one entry of a table by another that fits between its neighbours.\<close>

lemma table_replace:
  assumes "table es" and "i < length es" and "proper q"
    and "\<And>p. p \<in> set (take i es) \<Longrightarrow> below p q" and "\<And>p. p \<in> set (drop (Suc i) es) \<Longrightarrow> below q p"
  shows "table (take i es @ q # drop (Suc i) es)"
proof -
  have "table (take i es @ es ! i # drop (Suc i) es)"
    using assms(1) split_at [OF assms(2)] by simp
  then show ?thesis
    using assms(3-) by (auto simp: table_append table_Cons)
qed

lemma table_nth:
  assumes "table es" and "i < length es"
  shows "proper (es ! i)"
    and "\<And>p. p \<in> set (take i es) \<Longrightarrow> proper p \<and> below p (es ! i)"
    and "\<And>p. p \<in> set (drop (Suc i) es) \<Longrightarrow> proper p \<and> below (es ! i) p"
proof -
  have t: "table (take i es @ es ! i # drop (Suc i) es)"
    using assms(1) split_at [OF assms(2)] by simp
  then show "proper (es ! i)"
    by (simp add: table_append table_Cons)
  show "proper p \<and> below p (es ! i)" if "p \<in> set (take i es)" for p
    using t that by (auto simp: table_def sorted_wrt_append)
  show "proper p \<and> below (es ! i) p" if "p \<in> set (drop (Suc i) es)" for p
    using t that by (auto simp: table_def sorted_wrt_append)
qed

lemma table_remove:
  assumes "table es" and "i < length es"
  shows "table (take i es @ drop (Suc i) es)"
    and "cover (take i es @ drop (Suc i) es) = cover es - span (es ! i)"
proof -
  have t: "table (take i es @ es ! i # drop (Suc i) es)"
    using assms(1) split_at [OF assms(2)] by simp
  then show "table (take i es @ drop (Suc i) es)"
    by (auto simp: table_append table_Cons)
  have c: "cover es = cover (take i es) \<union> (span (es ! i) \<union> cover (drop (Suc i) es))"
    by (subst split_at [OF assms(2)]) (simp only: cover_append cover_Cons)
  have "span p \<inter> span (es ! i) = {}" if "p \<in> set (take i es @ drop (Suc i) es)" for p
  proof -
    from that have "below p (es ! i) \<or> below (es ! i) p"
      using table_nth [OF assms] by auto
    then show ?thesis by (auto simp: span_def below_def)
  qed
  then have "cover (take i es @ drop (Suc i) es) \<inter> span (es ! i) = {}"
    unfolding cover_def by blast
  then show "cover (take i es @ drop (Suc i) es) = cover es - span (es ! i)"
    unfolding c by auto
qed

section \<open>Adding a region\<close>

text \<open>How the first loop ends: the region is known, or it is glued to an entry, or to none.\<close>

lemma lmb_try_coalesce_cases:
  assumes "unat (rcnt rgn) \<le> length (region rgn)" and "i \<le> unat (rcnt rgn)"
  obtains
    (known) j where "j < unat (rcnt rgn)" "pbase (region rgn ! j) = base" "psize (region rgn ! j) = sz"
      "lmb_try_coalesce rgn base sz i = Some (Inl ())"
  | (before) j where "j < unat (rcnt rgn)" "pbase (region rgn ! j) = base + sz"
      "lmb_try_coalesce rgn base sz i =
        Some (Inr (upd_entry rgn j ((region rgn ! j)\<lparr>pbase := pbase (region rgn ! j) - sz,
          psize := psize (region rgn ! j) + sz\<rparr>), j, 1))"
  | (behind) j where "j < unat (rcnt rgn)" "base = pbase (region rgn ! j) + psize (region rgn ! j)"
      "lmb_try_coalesce rgn base sz i =
        Some (Inr (upd_entry rgn j ((region rgn ! j)\<lparr>psize := psize (region rgn ! j) + sz\<rparr>), j, 1))"
  | (apart) "lmb_try_coalesce rgn base sz i = Some (Inr (rgn, unat (rcnt rgn), 0))"
  using assms
proof (induction "unat (rcnt rgn) - i" arbitrary: i thesis)
  case 0
  then have "lmb_try_coalesce rgn base sz i = Some (Inr (rgn, unat (rcnt rgn), 0))"
    by (subst lmb_try_coalesce.simps) simp
  then show ?case by (rule "0.prems"(4))
next
  case (Suc k)
  let ?p = "region rgn ! i"
  have i: "i < unat (rcnt rgn)" "i < length (region rgn)" using Suc by auto
  note step = lmb_try_coalesce.simps [of rgn base sz i]
  consider "pbase ?p = base \<and> psize ?p = sz"
    | "\<not> (pbase ?p = base \<and> psize ?p = sz)" "pbase ?p = base + sz"
    | "\<not> (pbase ?p = base \<and> psize ?p = sz)" "pbase ?p \<noteq> base + sz" "base = pbase ?p + psize ?p"
    | "\<not> (pbase ?p = base \<and> psize ?p = sz)" "pbase ?p \<noteq> base + sz" "base \<noteq> pbase ?p + psize ?p"
    by blast
  then show ?case
  proof cases
    case 1
    then show ?thesis using i step by (intro Suc.prems(1) [of i]) simp_all
  next
    case 2
    then show ?thesis
      using i step by (intro Suc.prems(2) [of i]) (simp_all add: lmb_addrs_adjacent_def)
  next
    case 3
    then show ?thesis
      using i step by (intro Suc.prems(3) [of i]) (simp_all add: lmb_addrs_adjacent_def)
  next
    case 4
    then have eq: "lmb_try_coalesce rgn base sz i = lmb_try_coalesce rgn base sz (i + 1)"
      using i by (subst step) (auto simp: lmb_addrs_adjacent_def Let_def)
    have k: "k = unat (rcnt rgn) - (i + 1)" "i + 1 \<le> unat (rcnt rgn)"
      using Suc.hyps(2) i by simp_all
    note prems = Suc.prems(1-4) [unfolded eq]
    show ?thesis
      by (rule Suc.hyps(1) [OF k(1) _ _ _ _ Suc.prems(5) k(2)])
        ((rule prems(1); assumption) | (rule prems(2); assumption) | (rule prems(3); assumption) | (rule prems(4)))+
  qed
qed

text \<open>The insertion loop opens a gap before the entries above \<open>base\<close>, unless that is all of them.\<close>

lemma lmb_insert_spec:
  assumes "k < length (region rgn)"
  shows "\<exists>j\<le>k. (\<forall>i\<in>{j..<k}. base < pbase (region rgn ! i)) \<and>
    (0 < j \<longrightarrow> \<not> base < pbase (region rgn ! (j - 1))) \<and>
    lmb_insert rgn base sz k = Some (rgn\<lparr>region :=
      (if j = 0 then take 1 (region rgn) @ take k (region rgn)
       else take j (region rgn) @ \<lparr>pbase = base, psize = sz\<rparr> # drop j (take k (region rgn))) @
      drop (Suc k) (region rgn)\<rparr>)"
  using assms
proof (induction k arbitrary: rgn)
  case 0
  then show ?case by (intro exI [of _ 0]) (cases "region rgn"; simp)
next
  case (Suc k)
  let ?a = "region rgn" and ?new = "\<lparr>pbase = base, psize = sz\<rparr>"
  show ?case
  proof (cases "base < pbase (?a ! k)")
    case True
    let ?rgn = "upd_entry rgn (Suc k) (?a ! k)"
    have "k < length (region ?rgn)" using Suc.prems by simp
    from Suc.IH [OF this] obtain j where j: "j \<le> k"
      "\<forall>i\<in>{j..<k}. base < pbase (region ?rgn ! i)" "0 < j \<longrightarrow> \<not> base < pbase (region ?rgn ! (j - 1))"
      "lmb_insert ?rgn base sz k = Some (?rgn\<lparr>region :=
        (if j = 0 then take 1 (region ?rgn) @ take k (region ?rgn)
         else take j (region ?rgn) @ ?new # drop j (take k (region ?rgn))) @ drop (Suc k) (region ?rgn)\<rparr>)"
      by blast
    have "drop j (take (Suc k) ?a) = drop j (take k ?a) @ [?a ! k]"
      using j(1) Suc.prems by (simp add: take_Suc_conv_app_nth)
    moreover have "drop (Suc k) (?a[Suc k := ?a ! k]) = ?a ! k # drop (Suc (Suc k)) ?a"
      using Suc.prems by (simp add: Cons_nth_drop_Suc [symmetric] drop_update_cancel)
    ultimately have "lmb_insert rgn base sz (Suc k) = Some (rgn\<lparr>region :=
        (if j = 0 then take 1 ?a @ take (Suc k) ?a else take j ?a @ ?new # drop j (take (Suc k) ?a)) @
        drop (Suc (Suc k)) ?a\<rparr>)"
      using True Suc.prems j(1,4) by (cases "j = 0") simp_all
    moreover have "\<forall>i\<in>{j..<Suc k}. base < pbase (?a ! i)"
      using j(1,2) True by (auto simp: less_Suc_eq)
    moreover have "0 < j \<longrightarrow> \<not> base < pbase (?a ! (j - 1))"
      using j(1,3) by auto
    ultimately show ?thesis
      using j(1) by (intro exI [of _ j]) simp
  next
    case False
    have "?a[Suc k := ?new] = take (Suc k) ?a @ ?new # drop (Suc (Suc k)) ?a"
      using Suc.prems by (rule upd_conv_take_nth_drop)
    then show ?thesis
      using False Suc.prems by (intro exI [of _ "Suc k"]) simp
  qed
qed

lemma entries_upd: "entries (upd_entry rgn i p) = (entries rgn)[i := p]"
  by (simp add: entries_def take_update_swap)

lemma lmb_coalesce_regions_entries:
  assumes "Suc i < unat (rcnt rgn)" and "unat (rcnt rgn) \<le> length (region rgn)"
  shows "\<exists>rgn'. lmb_coalesce_regions rgn i (i + 1) = Some rgn' \<and>
    length (region rgn') = length (region rgn) \<and> rcnt rgn' = rcnt rgn - 1 \<and>
    entries rgn' = take i (entries rgn) @
      (entries rgn ! i)\<lparr>psize := psize (entries rgn ! i) + psize (entries rgn ! Suc i)\<rparr> #
      drop (Suc (Suc i)) (entries rgn)"
proof -
  let ?p = "(entries rgn ! i)\<lparr>psize := psize (entries rgn ! i) + psize (entries rgn ! Suc i)\<rparr>"
  let ?rgn = "upd_entry rgn i ?p"
  have "lmb_coalesce_regions rgn i (i + 1) = lmb_remove_region ?rgn (Suc i)"
    using assms by (simp add: lmb_coalesce_regions_def entries_nth)
  moreover have "take (Suc i) ((entries rgn)[i := ?p]) = take i (entries rgn) @ [?p]"
    using assms by (simp add: take_Suc_conv_app_nth)
  ultimately show ?thesis
    using assms lmb_remove_region_entries [of "Suc i" ?rgn] by (auto simp: entries_upd)
qed

lemma in_use_len: "in_use rgn \<Longrightarrow> length (entries rgn) = unat (rcnt rgn)"
  by (simp add: in_use_def)

lemma cnt_minus_1:
  assumes "1 \<le> unat (c :: u32)"
  shows "unat (c - 1) = unat c - 1" and "i < 2 ^ 32 \<Longrightarrow> (of_nat i :: u32) < c - 1 \<longleftrightarrow> Suc i < unat c"
proof -
  have "c \<noteq> 0" using assms by auto
  then show u: "unat (c - 1) = unat c - 1" by (rule unat_cnt_minus_1)
  show "(of_nat i :: u32) < c - 1 \<longleftrightarrow> Suc i < unat c" if "i < 2 ^ 32"
    using that assms by (auto simp: word_less_nat_alt u unat_of_nat)
qed

lemma proper_sum:
  assumes "proper p" and "proper q" and "pbase q = pbase p + psize p"
  shows "pend (p\<lparr>psize := psize p + psize q\<rparr>) = pend q" and "proper (p\<lparr>psize := psize p + psize q\<rparr>)"
    and "span (p\<lparr>psize := psize p + psize q\<rparr>) = span p \<union> span q" and "pend p = unat (pbase q)"
proof -
  have q: "unat (pbase q) = unat (pbase p) + unat (psize p)"
    using assms proper_unfold [OF assms(1)] by (simp add: unat_base_plus_size)
  then have s: "unat (psize p + psize q) = unat (psize p) + unat (psize q)"
    using proper_unfold [OF assms(2)] by (intro unat_base_plus_size) linarith
  show e: "pend (p\<lparr>psize := psize p + psize q\<rparr>) = pend q" and "pend p = unat (pbase q)"
    by (simp_all add: pend_def s q)
  show "proper (p\<lparr>psize := psize p + psize q\<rparr>)"
    using assms(2) e s proper_unfold [OF assms(1)] by (simp add: proper_def word_gt_0 unat_gt_0 [symmetric])
  show "span (p\<lparr>psize := psize p + psize q\<rparr>) = span p \<union> span q"
    using proper_unfold [OF assms(1)] proper_unfold [OF assms(2)] e q by (auto simp: span_def pend_def)
qed

lemma lmb_add_rest_merged:
  assumes "in_use rgn" and "i < unat (rcnt rgn)"
  shows "\<exists>r rgn'. lmb_add_rest rgn base sz i 1 = Some (r, rgn') \<and> 0 < r \<and> in_use rgn' \<and>
    cover (entries rgn') = cover (entries rgn)"
proof -
  let ?es = "entries rgn"
  have len: "length (region rgn) = 9" "unat (rcnt rgn) \<le> 8" and t: "table ?es"
    and les: "length ?es = unat (rcnt rgn)"
    using assms(1) in_use_len by (auto simp: in_use_def)
  have lt: "(of_nat i :: u32) < rcnt rgn - 1 \<longleftrightarrow> Suc i < unat (rcnt rgn)"
    using assms(2) len by (intro cnt_minus_1(2)) simp_all
  show ?thesis
  proof (cases "Suc i < unat (rcnt rgn) \<and> pbase (?es ! Suc i) = pbase (?es ! i) + psize (?es ! i)")
    case True
    let ?p = "?es ! i" and ?q = "?es ! Suc i"
    let ?m = "?p\<lparr>psize := psize ?p + psize ?q\<rparr>"
    have i: "Suc i < length ?es" using True les by simp
    have es: "?es = take i ?es @ ?p # ?q # drop (Suc (Suc i)) ?es"
      using i by (metis Cons_nth_drop_Suc Suc_lessD id_take_nth_drop)
    obtain rgn' where rgn': "lmb_coalesce_regions rgn i (i + 1) = Some rgn'"
      "length (region rgn') = length (region rgn)" "rcnt rgn' = rcnt rgn - 1"
      "entries rgn' = take i ?es @ ?m # drop (Suc (Suc i)) ?es"
      using lmb_coalesce_regions_entries [of i rgn] True len by auto
    have tt: "table (take i ?es @ ?p # ?q # drop (Suc (Suc i)) ?es)"
      using t es by simp
    then have pq: "proper ?p" "proper ?q" by (simp_all add: table_append table_Cons)
    note sum = proper_sum [OF pq] 
    have m: "pend ?m = pend ?q" "proper ?m" "span ?m = span ?p \<union> span ?q" "pbase ?m = pbase ?p"
      using True sum by simp_all
    then have "table (entries rgn')"
      using tt by (auto simp: rgn' table_append table_Cons below_def)
    moreover have "cover (entries rgn') = cover (take i ?es @ ?p # ?q # drop (Suc (Suc i)) ?es)"
      by (simp add: rgn' m Un_assoc)
    moreover have "lmb_regions_adjacent rgn i (i + 1) = Some 1"
      using True len by (auto simp: lmb_regions_adjacent_def lmb_addrs_adjacent_def entries_nth)
    then have "lmb_add_rest rgn base sz i 1 = Some (2, rgn')"
      using True lt rgn'(1) by (simp add: lmb_add_rest_def)
    ultimately show ?thesis
      using rgn' len True cnt_minus_1(1) [of "rcnt rgn"] es [symmetric] by (auto simp: in_use_def)
  next
    case False
    have "lmb_add_rest rgn base sz i 1 = Some (1, rgn)"
    proof (cases "Suc i < unat (rcnt rgn)")
      case True
      let ?p = "?es ! i" and ?q = "?es ! Suc i"
      have "?q \<in> set (drop (Suc i) ?es)"
        using True les by (metis Cons_nth_drop_Suc list.set_intros(1))
      then have pq: "proper ?p" "proper ?q" "below ?p ?q"
        using table_nth [OF t, of i] True les by auto
      then have "pbase ?p \<noteq> pbase ?q + psize ?q"
        using proper_unfold [OF pq(1)] proper_unfold [OF pq(2)] unat_base_plus_size [of "pbase ?q" "psize ?q"]
        by (auto simp: below_def pend_def)
      then show ?thesis
        using True False lt len by (simp add: lmb_add_rest_def lmb_regions_adjacent_def
            lmb_addrs_adjacent_def entries_nth)
    qed (simp add: lmb_add_rest_def lt)
    then show ?thesis using assms(1) by simp
  qed
qed

lemma disjoint_from_nth: "disjoint_from es p \<Longrightarrow> i < length es \<Longrightarrow> pend p \<le> unat (pbase (es ! i)) \<or> pend (es ! i) \<le> unat (pbase p)"
  by (simp add: disjoint_from_def)

text \<open>Growing an entry downwards or upwards by a region that touches it.\<close>

lemma grow_table:
  assumes "table es" and "i < length es" and "disjoint_from es new" and "proper new" and "proper q"
    and "unat (pbase q) = min (unat (pbase (es ! i))) (unat (pbase new))"
    and "pend q = max (pend (es ! i)) (pend new)"
    and "pbase (es ! i) = pbase new + psize new \<or> pbase new = pbase (es ! i) + psize (es ! i)"
  shows "table (es[i := q])" and "cover (es[i := q]) = cover es \<union> span new"
proof -
  let ?p = "es ! i"
  note nth = table_nth [OF assms(1,2)]
  have touch: "unat (pbase ?p) = pend new \<or> unat (pbase new) = pend ?p"
    using assms(8) unat_base_plus_size proper_unfold [OF assms(4)] proper_unfold [OF nth(1)]
    by (auto simp: pend_def)
  have upd: "es[i := q] = take i es @ q # drop (Suc i) es"
    using assms(2) by (rule upd_conv_take_nth_drop)
  have pos: "unat (pbase r) < pend r" if "proper r" for r
    using proper_unfold [OF that] by (simp add: pend_def)
  have disj: "pend new \<le> unat (pbase r) \<or> pend r \<le> unat (pbase new)" if "r \<in> set es" for r
    using assms(3) that by (auto simp: disjoint_from_def)
  have "table (take i es @ q # drop (Suc i) es)"
  proof (rule table_replace [OF assms(1,2,5)])
    fix r assume r: "r \<in> set (take i es)"
    then have "proper r" "below r ?p" using nth(2) by auto
    moreover have "r \<in> set es" using r by (rule in_set_takeD)
    ultimately show "below r q"
      using disj [of r] touch pos [of r] pos [OF nth(1)] pos [OF assms(4)] assms(6) by (auto simp: below_def)
  next
    fix r assume r: "r \<in> set (drop (Suc i) es)"
    then have "proper r" "below ?p r" using nth(3) by auto
    moreover have "r \<in> set es" using r by (rule in_set_dropD)
    ultimately show "below q r"
      using disj [of r] touch pos [of r] pos [OF nth(1)] pos [OF assms(4)] assms(7) by (auto simp: below_def)
  qed
  then show "table (es[i := q])" by (simp add: upd)
  have "span q = span ?p \<union> span new"
    using touch pos [OF nth(1)] pos [OF assms(4)] assms(6,7) by (auto simp: span_def)
  moreover have "cover es = cover (take i es) \<union> (span ?p \<union> cover (drop (Suc i) es))"
    by (subst split_at [OF assms(2)]) (simp only: cover_append cover_Cons)
  ultimately show "cover (es[i := q]) = cover es \<union> span new"
    by (auto simp: upd)
qed

lemma in_use_upd:
  "in_use rgn \<Longrightarrow> table ((entries rgn)[i := q]) \<Longrightarrow> in_use (upd_entry rgn i q)"
  by (simp add: in_use_def entries_upd)

lemma insert_table:
  assumes "table es" and "disjoint_from es new" and "proper new" and "j \<le> length es"
    and "\<And>i. j \<le> i \<Longrightarrow> i < length es \<Longrightarrow> pbase new < pbase (es ! i)"
    and "0 < j \<Longrightarrow> \<not> pbase new < pbase (es ! (j - 1))"
  shows "table (take j es @ new # drop j es)" and "cover (take j es @ new # drop j es) = cover es \<union> span new"
proof -
  have tt: "table (take j es @ drop j es)" using assms(1) by simp
  have pos: "unat (pbase r) < pend r" if "proper r" for r
    using proper_unfold [OF that] by (simp add: pend_def)
  have disj: "pend new \<le> unat (pbase r) \<or> pend r \<le> unat (pbase new)" if "r \<in> set es" for r
    using assms(2) that by (auto simp: disjoint_from_def)
  have "below new r" if r: "r \<in> set (drop j es)" for r
  proof -
    obtain i where "i < length es - j" "r = es ! (j + i)"
      using r assms(4) by (auto simp: in_set_conv_nth)
    then have "pbase new < pbase r" "r \<in> set es" using assms(5) [of "j + i"] by auto
    then show ?thesis
      using disj [of r] pos [of r] assms(1) by (auto simp: below_def word_less_nat_alt table_def)
  qed
  moreover have "below r new" if r: "r \<in> set (take j es)" for r
  proof -
    have j: "0 < j" using r by (cases j) auto
    then have last: "\<not> pbase new < pbase (es ! (j - 1))" and "j - 1 < length es"
      using assms(4,6) by simp_all
    have "r = es ! (j - 1) \<or> below r (es ! (j - 1))"
    proof -
      obtain k where k: "j = Suc k" using j by (cases j) auto
      then have "take j es = take k es @ [es ! k]"
        using \<open>j - 1 < length es\<close> by (simp add: take_Suc_conv_app_nth)
      then show ?thesis
        using r k table_nth(2) [OF assms(1) \<open>j - 1 < length es\<close>, of r] by auto
    qed
    moreover have "r \<in> set es" "proper r" using in_set_takeD [OF r] assms(1) by (auto simp: table_def)
    ultimately show ?thesis
      using disj [of r] last pos [of r] pos [OF assms(3)] by (auto simp: below_def word_less_nat_alt)
  qed
  ultimately show "table (take j es @ new # drop j es)"
    using tt [unfolded table_append] assms(3) by (auto simp: table_append table_Cons)
  have "cover es = cover (take j es) \<union> cover (drop j es)"
    by (metis append_take_drop_id cover_append)
  then show "cover (take j es @ new # drop j es) = cover es \<union> span new"
    by auto
qed

lemma lmb_add_rest_apart:
  assumes "in_use rgn" and "disjoint_from (entries rgn) new" and "proper new" and "new = \<lparr>pbase = base, psize = sz\<rparr>"
  shows "\<exists>r rgn'. lmb_add_rest rgn base sz (unat (rcnt rgn)) 0 = Some (r, rgn') \<and>
    (if rcnt rgn = 8 then r = - 1 \<and> rgn' = rgn
     else r = 0 \<and> in_use rgn' \<and> cover (entries rgn') = cover (entries rgn) \<union> span new)"
proof -
  let ?es = "entries rgn" and ?n = "unat (rcnt rgn)" and ?a = "region rgn"
  have len: "length ?a = 9" "?n \<le> 8" "1 \<le> ?n" and t: "table ?es" and les: "length ?es = ?n"
    using assms(1) in_use_len by (auto simp: in_use_def)
  have no: "\<not> of_nat ?n < rcnt rgn - 1"
    using len cnt_minus_1(1) [OF len(3)] by (simp add: word_less_nat_alt)
  show ?thesis
  proof (cases "rcnt rgn = 8")
    case True
    then show ?thesis
      using no by (simp add: lmb_add_rest_def MAX_LMB_REGIONS_def)
  next
    case False
    then have n8: "?n < 8" using len(2) by (auto simp: word_unat_eq_iff)
    then have max: "\<not> MAX_LMB_REGIONS \<le> rcnt rgn"
      by (simp add: MAX_LMB_REGIONS_def word_le_nat_alt)
    have "?n < length ?a" using n8 len by simp
    from lmb_insert_spec [OF this, of base sz] obtain j where j: "j \<le> ?n"
      "\<forall>i\<in>{j..<?n}. base < pbase (?a ! i)" "0 < j \<longrightarrow> \<not> base < pbase (?a ! (j - 1))"
      and ins: "lmb_insert rgn base sz ?n = Some (rgn\<lparr>region :=
        (if j = 0 then take 1 ?a @ take ?n ?a else take j ?a @ new # drop j (take ?n ?a)) @
        drop (Suc ?n) ?a\<rparr>)"
      unfolding assms(4) by blast
    let ?b = "take j ?a @ new # drop j (take ?n ?a) @ drop (Suc ?n) ?a"
    let ?rgn = "rgn\<lparr>region := ?b, rcnt := rcnt rgn + 1\<rparr>"
    have lb: "length ?b = 9" using len j(1) n8 by simp
    have ret: "lmb_add_rest rgn base sz ?n 0 = Some (0, ?rgn)"
    proof (cases "j = 0")
      case True
      obtain x xs where a: "?a = x # xs" using len by (cases ?a) auto
      then have "base < pbase x" using j(2) True len(3) by force
      then show ?thesis
        using True ins no max len by (simp add: lmb_add_rest_def a rd_def wr_def assms(4))
    next
      case False
      then obtain x xs where a: "?a = x # xs" using len by (cases ?a) auto
      have "\<not> base < pbase (?b ! 0)"
      proof -
        have "\<not> base < pbase (?a ! 0)"
        proof (cases "j = 1")
          case False
          have "0 < length (take (j - 1) ?es)"
            using \<open>j \<noteq> 0\<close> False j(1) les by simp
          then have "take (j - 1) ?es ! 0 \<in> set (take (j - 1) ?es)"
            by (rule nth_mem)
          then have "?es ! 0 \<in> set (take (j - 1) ?es)"
            using \<open>j \<noteq> 0\<close> False by simp
          then have "below (?es ! 0) (?es ! (j - 1))" "proper (?es ! 0)"
            using table_nth(2) [OF t, of "j - 1"] j(1) les \<open>j \<noteq> 0\<close> by auto
          then show ?thesis
            using j(1,3) \<open>j \<noteq> 0\<close> len by (auto simp: below_def pend_def entries_nth word_less_nat_alt)
        qed (use j in simp)
        moreover have "?b ! 0 = ?a ! 0" using False a by (cases j) simp_all
        ultimately show ?thesis by simp
      qed
      then show ?thesis
        using False ins no max lb by (simp add: lmb_add_rest_def rd_def)
    qed
    have un: "unat (rcnt rgn + 1) = Suc ?n"
      using n8 by (subst unat_add_lem [THEN iffD1]) simp_all
    have ent: "entries ?rgn = take j ?es @ new # drop j ?es"
      using j(1) len n8 un by (simp add: entries_def min_def Suc_diff_le)
    have j': "\<And>i. j \<le> i \<Longrightarrow> i < length ?es \<Longrightarrow> pbase new < pbase (?es ! i)"
      "0 < j \<Longrightarrow> \<not> pbase new < pbase (?es ! (j - 1))"
      using j les by (auto simp: entries_nth assms(4))
    note tab = insert_table [OF t assms(2,3) _ j']
    have "in_use ?rgn \<and> cover (entries ?rgn) = cover ?es \<union> span new"
      using tab j(1) les lb un n8 by (simp add: in_use_def ent)
    then show ?thesis
      using ret False by auto
  qed
qed

text \<open>
  Adding a region that is disjoint from the table: it is added, or the table is full and unchanged.
\<close>

lemma lmb_add_region_in_use:
  assumes "in_use rgn" and "disjoint_from (entries rgn) new" and "proper new"
    and "new = \<lparr>pbase = base, psize = sz\<rparr>"
  shows "\<exists>r rgn'. lmb_add_region rgn base sz = Some (r, rgn') \<and>
    (r = - 1 \<and> rgn' = rgn \<and> rcnt rgn = 8 \<or>
     0 \<le> r \<and> in_use rgn' \<and> cover (entries rgn') = cover (entries rgn) \<union> span new)"
proof -
  let ?es = "entries rgn" and ?a = "region rgn"
  have len: "length ?a = 9" "unat (rcnt rgn) \<le> 8" "1 \<le> unat (rcnt rgn)" and t: "table ?es"
    and les: "length ?es = unat (rcnt rgn)"
    using assms(1) in_use_len by (auto simp: in_use_def)
  have "proper (?a ! 0)"
    using table_nth(1) [OF t, of 0] les len by (simp add: entries_nth)
  then have "psize (?a ! 0) \<noteq> 0" by (auto simp: proper_def)
  then have start: "lmb_add_region rgn base sz =
      lmb_try_coalesce rgn base sz 0 \<bind> (\<lambda>res. case res of Inl _ \<Rightarrow> Some (0, rgn)
        | Inr (rgn', i, coalesced) \<Rightarrow> lmb_add_rest rgn' base sz i coalesced)"
    using len by (simp add: lmb_add_region_def)
  have new: "pbase new = base" "psize new = sz" using assms(4) by simp_all
  note pn = proper_unfold [OF assms(3), unfolded new]
  have le9: "unat (rcnt rgn) \<le> length ?a" using len by simp
  show ?thesis
  proof (cases rule: lmb_try_coalesce_cases [OF le9, of 0 base sz, case_names bound known before behind apart])
    case bound
    show ?case by simp
  next
    case (known j)
    then have "new = ?es ! j"
      using assms(4) by (simp add: entries_nth)
    then have "pend new \<le> unat (pbase new)"
      using disjoint_from_nth [OF assms(2), of j] known(1) les by auto
    then show ?thesis using pn by (simp add: pend_def new)
  next
    case (before j)
    let ?p = "?es ! j"
    let ?q = "?p\<lparr>pbase := pbase ?p - sz, psize := psize ?p + sz\<rparr>"
    have p: "?a ! j = ?p" using before(1) by (simp add: entries_nth)
    have j: "j < length ?es" using before(1) les by simp
    note pp = proper_unfold [OF table_nth(1) [OF t j]]
    have b: "unat (pbase ?p) = unat base + unat sz"
      using before(2) pn by (simp add: p unat_base_plus_size)
    have s: "unat (psize ?p + sz) = unat (psize ?p) + unat sz"
      using pp b by (intro unat_base_plus_size) linarith
    have q: "pbase ?q = base" "pend ?q = pend ?p"
      using before(2) b s by (simp_all add: p pend_def)
    have "proper ?q"
      using pp q s by (simp add: proper_def pend_def word_gt_0 unat_gt_0 [symmetric])
    note grow = grow_table [OF t j assms(2,3) this]
    have g: "table (?es[j := ?q])" "cover (?es[j := ?q]) = cover ?es \<union> span new"
      using grow q b pp before(2) by (simp_all add: new p pend_def)
    have "in_use (upd_entry rgn j ?q)" using assms(1) g(1) by (rule in_use_upd)
    from lmb_add_rest_merged [OF this, of j base sz] before(1) show ?thesis
      unfolding start before(3) p by (auto simp: entries_upd g)
  next
    case (behind j)
    let ?p = "?es ! j"
    let ?q = "?p\<lparr>psize := psize ?p + sz\<rparr>"
    have p: "?a ! j = ?p" using behind(1) by (simp add: entries_nth)
    have j: "j < length ?es" using behind(1) les by simp
    have pr: "proper ?p" using table_nth(1) [OF t j] .
    have "pbase new = pbase ?p + psize ?p" using behind(2) by (simp add: new p)
    note sum = proper_sum [OF pr assms(3) this, unfolded new]
    note grow = grow_table [OF t j assms(2,3) sum(2)]
    have g: "table (?es[j := ?q])" "cover (?es[j := ?q]) = cover ?es \<union> span new"
      using grow sum behind(2) proper_unfold [OF pr] by (simp_all add: new p pend_def)
    have "in_use (upd_entry rgn j ?q)" using assms(1) g(1) by (rule in_use_upd)
    from lmb_add_rest_merged [OF this, of j base sz] behind(1) show ?thesis
      unfolding start behind(3) p by (auto simp: entries_upd g)
  next
    case apart
    from lmb_add_rest_apart [OF assms] show ?thesis
      unfolding start apart by (auto split: if_splits)
  qed
qed

lemma lmb_add_region_empty:
  assumes "length (region rgn) = 9" and "rcnt rgn = 1" and "psize (region rgn ! 0) = 0" and "proper new"
    and "new = \<lparr>pbase = base, psize = sz\<rparr>"
  shows "\<exists>rgn'. lmb_add_region rgn base sz = Some (0, rgn') \<and> in_use rgn' \<and> entries rgn' = [new]"
proof -
  obtain x xs where "region rgn = x # xs" using assms(1) by (cases "region rgn") auto
  with assms show ?thesis
    by (simp add: lmb_add_region_def in_use_def entries_def table_def)
qed

lemma disjoint_from_span:
  assumes "\<forall>q\<in>set es. proper q" and "proper p"
  shows "disjoint_from es p \<longleftrightarrow> span p \<inter> cover es = {}"
proof -
  have pos: "unat (pbase r) < pend r" if "proper r" for r
    using proper_unfold [OF that] by (simp add: pend_def)
  have "span p \<inter> span q = {} \<longleftrightarrow> pend p \<le> unat (pbase q) \<or> pend q \<le> unat (pbase p)" if "q \<in> set es" for q
    using pos [OF assms(2)] pos [of q] assms(1) that by (auto simp: span_def not_le)
  then show ?thesis
    unfolding disjoint_from_def cover_def by blast
qed

lemma region_ok_cases:
  assumes "region_ok rgn"
  obtains (used) "in_use rgn"
    | (fresh) "length (region rgn) = 9" "rcnt rgn = 1" "entries rgn = [\<lparr>pbase = 0, psize = 0\<rparr>]" "reserved_set rgn = {}"
proof (cases "table (entries rgn)")
  case True
  then have "in_use rgn"
    using assms by (auto simp: region_ok_def in_use_def word_le_nat_alt)
  then show ?thesis by (rule used)
next
  case False
  then have f: "length (region rgn) = 9" "rcnt rgn = 1" "region rgn ! 0 = \<lparr>pbase = 0, psize = 0\<rparr>"
    using assms by (auto simp: region_ok_def)
  then have "entries rgn = [\<lparr>pbase = 0, psize = 0\<rparr>]"
    by (cases "region rgn") (auto simp: entries_def)
  then show ?thesis
    using f by (intro fresh) (auto simp: reserved_set_def span_def pend_def)
qed

lemma in_use_region_ok: "in_use rgn \<Longrightarrow> region_ok rgn"
  by (simp add: in_use_def region_ok_def word_le_nat_alt)

lemma lmb_add_region_ok:
  assumes "region_ok rgn" and "proper \<lparr>pbase = base, psize = sz\<rparr>"
    and "span \<lparr>pbase = base, psize = sz\<rparr> \<inter> reserved_set rgn = {}"
  shows "\<exists>r rgn'. lmb_add_region rgn base sz = Some (r, rgn') \<and>
    (r = - 1 \<and> rgn' = rgn \<and> rcnt rgn = 8 \<or>
     0 \<le> r \<and> in_use rgn' \<and> reserved_set rgn' = reserved_set rgn \<union> span \<lparr>pbase = base, psize = sz\<rparr>)"
  using assms(1)
proof (cases rule: region_ok_cases)
  case used
  then have "disjoint_from (entries rgn) \<lparr>pbase = base, psize = sz\<rparr>"
    using assms(2,3) by (subst disjoint_from_span) (auto simp: in_use_def table_def reserved_set_def)
  from lmb_add_region_in_use [OF used this assms(2) refl] show ?thesis
    by (simp add: reserved_set_def)
next
  case fresh
  have "psize (region rgn ! 0) = 0"
    using fresh(1-3) by (cases "region rgn") (auto simp: entries_def)
  from lmb_add_region_empty [OF fresh(1,2) this assms(2) refl] show ?thesis
    using fresh(4) by (auto simp: reserved_set_def)
qed

section \<open>Freeing\<close>

lemma lmb_find_eq:
  assumes "in_use rgn" and "j < unat (rcnt rgn)" and "i \<le> j"
    and "unat (pbase (entries rgn ! j)) \<le> unat base" and "unat base + unat sz \<le> pend (entries rgn ! j)"
    and "sz \<noteq> 0"
  shows "lmb_find rgn base (base + sz) i = Some j"
  using assms(3)
proof (induction "j - i" arbitrary: i)
  case 0
  let ?p = "entries rgn ! j"
  have len: "length (region rgn) = 9" "unat (rcnt rgn) \<le> 8" and t: "table (entries rgn)"
    and les: "length (entries rgn) = unat (rcnt rgn)"
    using assms(1) in_use_len by (auto simp: in_use_def)
  note pp = proper_unfold [OF table_nth(1) [OF t, of j]]
  have "unat (base + sz) = unat base + unat sz" "unat (pbase ?p + psize ?p) = pend ?p"
    using pp assms(2,5) les by (auto intro!: unat_base_plus_size simp: pend_def)
  then show ?case
    using 0 assms(2,4,5) len by (subst lmb_find.simps) (simp add: entries_nth word_le_nat_alt)
next
  case (Suc k)
  let ?p = "entries rgn ! j" and ?q = "entries rgn ! i"
  have len: "length (region rgn) = 9" "unat (rcnt rgn) \<le> 8" and t: "table (entries rgn)"
    and les: "length (entries rgn) = unat (rcnt rgn)"
    using assms(1) in_use_len by (auto simp: in_use_def)
  have i: "i < j" using Suc by simp
  have "?q \<in> set (take j (entries rgn))"
    using i assms(2) les by (metis in_set_conv_nth length_take min.absorb4 nth_take)
  then have "proper ?q" "below ?q ?p"
    using table_nth(2) [OF t, of j] assms(2) les by auto
  then have "pend ?q \<le> unat base" "unat (pbase ?q + psize ?q) = pend ?q"
    using assms(4) proper_unfold [of ?q] by (auto simp: below_def pend_def unat_base_plus_size)
  moreover have "unat (base + sz) = unat base + unat sz" "0 < unat sz"
    using proper_unfold [OF table_nth(1) [OF t, of j]] assms(2,5,6) les
    by (auto intro!: unat_base_plus_size simp: pend_def unat_gt_0)
  ultimately have "\<not> base + sz \<le> pbase ?q + psize ?q"
    by (simp add: word_le_nat_alt)
  then have "lmb_find rgn base (base + sz) i = lmb_find rgn base (base + sz) (i + 1)"
    using i assms(2) len by (subst lmb_find.simps) (simp add: entries_nth)
  then show ?case
    using Suc.hyps(1) [of "i + 1"] Suc.hyps(2) i by simp
qed

lemma shrink_table:
  assumes "table es" and "i < length es" and "proper q"
    and "unat (pbase (es ! i)) \<le> unat (pbase q)" and "pend q \<le> pend (es ! i)"
  shows "table (es[i := q])" and "cover (es[i := q]) = cover es - span (es ! i) \<union> span q"
proof -
  note nth = table_nth [OF assms(1,2)]
  have upd: "es[i := q] = take i es @ q # drop (Suc i) es"
    using assms(2) by (rule upd_conv_take_nth_drop)
  have "table (take i es @ q # drop (Suc i) es)"
    by (rule table_replace [OF assms(1-3)]) (use nth(2,3) assms(4,5) in \<open>force simp: below_def\<close>)+
  then show "table (es[i := q])" by (simp add: upd)
  show "cover (es[i := q]) = cover es - span (es ! i) \<union> span q"
    using table_remove(2) [OF assms(1,2)] by (auto simp: upd)
qed

text \<open>Freeing a part of one entry.\<close>

lemma lmb_free_region_ok:
  fixes base sz :: u32
  assumes "in_use rgn" and "j < unat (rcnt rgn)" and "sz \<noteq> 0"
    and "unat (pbase (entries rgn ! j)) \<le> unat base" and "unat base + unat sz \<le> pend (entries rgn ! j)"
    and "rcnt rgn \<noteq> 1 \<or> psize (entries rgn ! j) \<noteq> sz" and "rcnt rgn \<noteq> 8"
  shows "\<exists>r rgn'. lmb_free_region rgn base sz = Some (r, rgn') \<and> 0 \<le> r \<and> in_use rgn' \<and>
    reserved_set rgn' = reserved_set rgn - {unat base..<unat base + unat sz}"
proof -
  let ?es = "entries rgn" and ?a = "region rgn"
  let ?p = "?es ! j"
  have len: "length ?a = 9" "unat (rcnt rgn) \<le> 8" "1 \<le> unat (rcnt rgn)" and t: "table ?es"
    and les: "length ?es = unat (rcnt rgn)"
    using assms(1) in_use_len by (auto simp: in_use_def)
  have j: "j < length ?es" "j < length ?a" "?a ! j = ?p" and jc: "j \<noteq> unat (rcnt rgn)"
    using assms(2) les len by (auto simp: entries_nth)
  have pr: "proper ?p" and pp: "0 < unat (psize ?p)" "pend ?p < 2 ^ 32"
    using table_nth(1) [OF t j(1)] proper_unfold [of ?p] by (auto simp: pend_def)
  have sz: "0 < unat sz" using assms(3) by (simp add: unat_gt_0)
  have ee: "unat (base + sz) = unat base + unat sz" "unat (pbase ?p + psize ?p) = pend ?p"
    using pp assms(5) by (auto intro!: unat_base_plus_size simp: pend_def)
  have find: "lmb_find rgn base (base + sz) 0 = Some j"
    by (rule lmb_find_eq [OF assms(1,2) _ assms(4,5,3)]) simp
  have rest: "span ?p \<inter> cover (take j ?es @ drop (Suc j) ?es) = {}"
    using table_remove(2) [OF t j(1)] by auto
  have inside: "span ?p \<subseteq> cover ?es" using nth_mem [OF j(1)] by (auto simp: cover_def)
  have shrink: "\<exists>r rgn'. lmb_free_region rgn base sz = Some (r, rgn') \<and> 0 \<le> r \<and> in_use rgn' \<and>
      reserved_set rgn' = reserved_set rgn - {unat base..<unat base + unat sz}"
    if q: "lmb_free_region rgn base sz = Some (0, upd_entry rgn j q)" "proper q"
      "unat (pbase ?p) \<le> unat (pbase q)" "pend q \<le> pend ?p" "span q = span ?p - {unat base..<unat base + unat sz}"
    for q
  proof -
    note sh = shrink_table [OF t j(1) q(2-4)]
    have "{unat base..<unat base + unat sz} \<subseteq> span ?p"
      using assms(4,5) by (auto simp: span_def)
    then show ?thesis
      using q(1,5) sh in_use_upd [OF assms(1) sh(1)] inside by (auto simp: reserved_set_def entries_upd)
  qed
  have pu: "unat (pbase ?p) \<le> unat base" "unat base + unat sz \<le> unat (pbase ?p) + unat (psize ?p)"
    using assms(4,5) by (simp_all add: pend_def)
  consider (all) "pbase ?p = base" "pbase ?p + psize ?p = base + sz"
    | (front) "pbase ?p = base" "pbase ?p + psize ?p \<noteq> base + sz"
    | (rear) "pbase ?p \<noteq> base" "pbase ?p + psize ?p = base + sz"
    | (mid) "pbase ?p \<noteq> base" "pbase ?p + psize ?p \<noteq> base + sz"
    by blast
  then show ?thesis
  proof cases
    case all
    then have "psize ?p = sz" by simp
    then have c: "unat (rcnt rgn) \<noteq> 1" using assms(6) by (auto simp: word_unat_eq_iff)
    obtain rgn' where rgn': "lmb_remove_region rgn j = Some rgn'" "length (region rgn') = 9"
      "rcnt rgn' = rcnt rgn - 1" "entries rgn' = take j ?es @ drop (Suc j) ?es"
      using lmb_remove_region_entries [OF assms(2)] len by auto
    have "lmb_free_region rgn base sz = Some (0, rgn')"
      using all rgn'(1) by (simp add: lmb_free_region_def find j jc Let_def)
    moreover have "in_use rgn'"
      using rgn' table_remove(1) [OF t j(1)] len c cnt_minus_1(1) [OF len(3)]
      by (simp add: in_use_def) linarith
    moreover have "span ?p = {unat base..<unat base + unat sz}"
      using all \<open>psize ?p = sz\<close> by (simp add: span_def pend_def)
    ultimately show ?thesis
      using table_remove(2) [OF t j(1)] by (simp add: reserved_set_def rgn'(4) del: cover_append)
  next
    case front
    let ?q = "?p\<lparr>pbase := base + sz, psize := psize ?p - sz\<rparr>"
    have "unat sz \<noteq> unat (psize ?p)" using front by (auto simp: word_unat_eq_iff [symmetric])
    then have s: "unat sz < unat (psize ?p)" using pu front(1) by simp
    then have u: "unat (psize ?p - sz) = unat (psize ?p) - unat sz"
      by (simp add: unat_sub word_le_nat_alt)
    have "lmb_free_region rgn base sz = Some (0, upd_entry rgn j ?q)"
      using front by (simp add: lmb_free_region_def find j jc Let_def)
    moreover have "pend ?q = pend ?p"
      using s front(1) by (simp add: pend_def u ee)
    moreover have "proper ?q"
      using s u pp \<open>pend ?q = pend ?p\<close> by (intro properI) simp_all
    ultimately show ?thesis
      using front(1) ee sz pu by (intro shrink [of ?q]) (auto simp: span_def)
  next
    case rear
    let ?q = "?p\<lparr>psize := psize ?p - sz\<rparr>"
    have "unat (pbase ?p) \<noteq> unat base" using rear by (auto simp: word_unat_eq_iff [symmetric])
    moreover have e: "pend ?p = unat base + unat sz" using rear(2) ee by simp
    ultimately have s: "unat sz < unat (psize ?p)" using pu by (simp add: pend_def)
    then have u: "unat (psize ?p - sz) = unat (psize ?p) - unat sz"
      by (simp add: unat_sub word_le_nat_alt)
    have "lmb_free_region rgn base sz = Some (0, upd_entry rgn j ?q)"
      using rear by (simp add: lmb_free_region_def find j jc Let_def)
    moreover have "pend ?q = unat base"
      using s e by (simp add: pend_def u)
    moreover have "proper ?q"
      using s u pp \<open>pend ?q = unat base\<close> e by (intro properI) simp_all
    ultimately show ?thesis
      using e sz pu by (intro shrink [of ?q]) (auto simp: span_def)
  next
    case mid
    let ?q = "?p\<lparr>psize := base - pbase ?p\<rparr>" and ?new = "\<lparr>pbase = base + sz, psize = pbase ?p + psize ?p - (base + sz)\<rparr>"
    have "unat (pbase ?p) \<noteq> unat base" "unat base + unat sz \<noteq> pend ?p"
      using mid ee by (auto simp: word_unat_eq_iff)
    then have s: "unat (pbase ?p) < unat base" "unat base + unat sz < pend ?p"
      using pu assms(5) by simp_all
    have q: "pend ?q = unat base" "proper ?q"
      using s pp by (simp_all add: pend_def proper_def unat_sub word_le_nat_alt word_less_nat_alt)
    have n: "unat (pbase ?new) = unat base + unat sz" "pend ?new = pend ?p"
      using s ee by (simp_all add: pend_def unat_sub word_le_nat_alt)
    then have pn: "proper ?new"
      using s pp ee by (intro properI) (simp_all add: unat_sub word_le_nat_alt)
    have start: "lmb_free_region rgn base sz = lmb_add_region (upd_entry rgn j ?q) (pbase ?new) (psize ?new)"
      using mid by (simp add: lmb_free_region_def find j jc Let_def)
    note sh = shrink_table [OF t j(1) q(2)]
    have sq: "table (?es[j := ?q])" "cover (?es[j := ?q]) = cover ?es - span ?p \<union> span ?q"
      using sh q(1) s by simp_all
    have use: "in_use (upd_entry rgn j ?q)" using assms(1) sq(1) by (rule in_use_upd)
    have rs: "reserved_set (upd_entry rgn j ?q) = reserved_set rgn - span ?p \<union> span ?q"
      by (simp add: reserved_set_def entries_upd sq(2))
    have disj: "span ?new \<inter> reserved_set (upd_entry rgn j ?q) = {}"
      unfolding rs using n q(1) s by (auto simp: span_def)
    have pn': "proper \<lparr>pbase = pbase ?new, psize = psize ?new\<rparr>" using pn by simp
    have ne: "\<not> rcnt (upd_entry rgn j ?q) = 8" using assms(7) by simp
    obtain r rgn' where r: "lmb_free_region rgn base sz = Some (r, rgn')" "0 \<le> r" "in_use rgn'"
      "reserved_set rgn' = reserved_set (upd_entry rgn j ?q) \<union> span ?new"
      using lmb_add_region_ok [OF in_use_region_ok [OF use] pn'] disj ne unfolding start by auto
    have "reserved_set rgn - span ?p \<union> span ?q \<union> span ?new =
        reserved_set rgn - {unat base..<unat base + unat sz}"
      using inside n q(1) s by (auto simp: span_def reserved_set_def)
    then show ?thesis
      using r unfolding rs by auto
  qed
qed

section \<open>Allocating\<close>

lemma lmb_overlaps_from_eq:
  assumes "unat (rcnt rgn) \<le> length (region rgn)"
  shows "\<exists>j. lmb_overlaps_from rgn base sz i = Some j \<and>
    (if j < 0 then \<forall>k. i \<le> k \<and> k < unat (rcnt rgn) \<longrightarrow>
         \<not> lmb_addrs_overlap base sz (pbase (entries rgn ! k)) (psize (entries rgn ! k))
     else nat j < unat (rcnt rgn) \<and>
       lmb_addrs_overlap base sz (pbase (entries rgn ! nat j)) (psize (entries rgn ! nat j)))"
proof (induction "unat (rcnt rgn) - i" arbitrary: i)
  case 0
  then show ?case by (subst lmb_overlaps_from.simps) auto
next
  case (Suc k)
  then have i: "i < unat (rcnt rgn)" by simp
  let ?o = "lmb_addrs_overlap base sz (pbase (region rgn ! i)) (psize (region rgn ! i))"
  have step: "lmb_overlaps_from rgn base sz i = (if ?o then Some (int i) else lmb_overlaps_from rgn base sz (i + 1))"
    using i assms by (subst lmb_overlaps_from.simps) simp
  show ?case
  proof (cases ?o)
    case True
    then show ?thesis using i by (simp add: step entries_nth)
  next
    case False
    have "k = unat (rcnt rgn) - (i + 1)" using Suc.hyps(2) by simp
    from Suc.hyps(1) [OF this] obtain j where
      j: "lmb_overlaps_from rgn base sz (i + 1) = Some j"
      "if j < 0 then \<forall>k. i + 1 \<le> k \<and> k < unat (rcnt rgn) \<longrightarrow>
         \<not> lmb_addrs_overlap base sz (pbase (entries rgn ! k)) (psize (entries rgn ! k))
       else nat j < unat (rcnt rgn) \<and>
         lmb_addrs_overlap base sz (pbase (entries rgn ! nat j)) (psize (entries rgn ! nat j))"
      by blast
    have "\<not> lmb_addrs_overlap base sz (pbase (entries rgn ! k)) (psize (entries rgn ! k))"
      if "j < 0" "i \<le> k" "k < unat (rcnt rgn)" for k
      using that j(2) False i by (cases "k = i") (auto simp: entries_nth)
    then show ?thesis
      using False j by (auto simp: step)
  qed
qed

lemma overlap_span:
  assumes "proper p" and "proper q"
  shows "lmb_addrs_overlap (pbase p) (psize p) (pbase q) (psize q) \<longleftrightarrow> span p \<inter> span q \<noteq> {}"
proof -
  note pp = proper_unfold [OF assms(1)] proper_unfold [OF assms(2)]
  have "unat (pbase p + psize p) = pend p" "unat (pbase q + psize q) = pend q"
    using pp by (simp_all add: pend_def unat_base_plus_size)
  moreover have "span p \<inter> span q \<noteq> {} \<longleftrightarrow> unat (pbase p) < pend q \<and> unat (pbase q) < pend p"
  proof -
    have "span p \<inter> span q = {max (unat (pbase p)) (unat (pbase q))..<min (pend p) (pend q)}"
      by (auto simp: span_def)
    then show ?thesis using pp by (auto simp: pend_def)
  qed
  ultimately show ?thesis
    by (simp add: lmb_addrs_overlap_def word_less_nat_alt)
qed

text \<open>Either the area is free, or an entry in use overlaps it.\<close>

lemma lmb_overlaps_region_cases:
  assumes "region_ok rgn" and "proper \<lparr>pbase = base, psize = sz\<rparr>"
  obtains (free) j where "lmb_overlaps_region rgn base sz = Some j" "j < 0"
      "span \<lparr>pbase = base, psize = sz\<rparr> \<inter> reserved_set rgn = {}"
  | (taken) j where "lmb_overlaps_region rgn base sz = Some j" "0 \<le> j" "nat j < length (region rgn)"
      "unat (pbase (region rgn ! nat j)) < unat base + unat sz"
proof -
  let ?new = "\<lparr>pbase = base, psize = sz\<rparr>"
  have le: "unat (rcnt rgn) \<le> length (region rgn)"
    using assms(1) by (simp add: region_ok_def word_le_nat_alt)
  from lmb_overlaps_from_eq [OF le, of base sz 0] obtain j where
    j: "lmb_overlaps_region rgn base sz = Some j"
    "if j < 0 then \<forall>k. k < unat (rcnt rgn) \<longrightarrow>
       \<not> lmb_addrs_overlap base sz (pbase (entries rgn ! k)) (psize (entries rgn ! k))
     else nat j < unat (rcnt rgn) \<and>
       lmb_addrs_overlap base sz (pbase (entries rgn ! nat j)) (psize (entries rgn ! nat j))"
    by (auto simp: lmb_overlaps_region_def)
  show ?thesis
  proof (cases "j < 0")
    case True
    have "span ?new \<inter> reserved_set rgn = {}"
      using assms(1)
    proof (cases rule: region_ok_cases)
      case used
      have "span ?new \<inter> span q = {}" if q: "q \<in> set (entries rgn)" for q
      proof -
        obtain k where "k < unat (rcnt rgn)" "q = entries rgn ! k"
          using q in_use_len [OF used] by (auto simp: in_set_conv_nth)
        moreover have "proper q" using used q by (auto simp: in_use_def table_def)
        ultimately show ?thesis
          using j(2) True overlap_span [OF assms(2), of q] by auto
      qed
      then show ?thesis by (auto simp: reserved_set_def cover_def)
    qed simp
    then show ?thesis using j(1) True by (intro free)
  next
    case False
    then have "nat j < unat (rcnt rgn)" "pbase (entries rgn ! nat j) < base + sz"
      using j(2) by (auto simp: lmb_addrs_overlap_def)
    moreover have "unat (base + sz) = unat base + unat sz"
      using proper_unfold [OF assms(2)] by (simp add: unat_base_plus_size)
    ultimately show ?thesis
      using j(1) False le by (intro taken) (simp_all add: entries_nth word_less_nat_alt)
  qed
qed

lemma lmb_align_down_le: "lmb_align_down x a \<le> x"
  by (simp add: lmb_align_down_def word_and_le2)

lemma lmb_align_down_idem: "lmb_align_down (lmb_align_down x a) a = lmb_align_down x a"
  by (simp add: lmb_align_down_def)

lemma lmb_aligned: "lmb_align_down b a = b \<Longrightarrow> b AND (a - 1) = 0"
proof -
  assume "lmb_align_down b a = b"
  then have "b AND (a - 1) = (b AND NOT (a - 1)) AND (a - 1)"
    by (simp add: lmb_align_down_def)
  also have "\<dots> = 0"
    by (simp add: and.assoc)
  finally show ?thesis .
qed

lemma lmb_alloc_down_ok:
  assumes "region_ok (lmb_reserved lmb)" and "sz \<noteq> 0" and "lmb_align_up sz align = sz"
    and "lmb_align_down base align = base" and "unat base + unat sz < 2 ^ 32"
  shows "\<exists>res. lmb_alloc_down lmb sz align lmbbase base = Some res \<and>
    (case res of Inr _ \<Rightarrow> True
     | Inl (b, lmb') \<Rightarrow> b = 0 \<and> lmb' = lmb \<or> granted lmb sz align b lmb' \<and> lmbbase \<le> b \<and> b \<le> base)"
  using assms(4,5)
proof (induction "unat base" arbitrary: base rule: less_induct)
  case less
  let ?new = "\<lparr>pbase = base, psize = sz\<rparr>"
  have pn: "proper ?new"
    using less.prems(2) assms(2) by (intro properI) (simp_all add: pend_def unat_gt_0)
  have sp: "span ?new = {unat base..<unat base + unat sz}"
    by (simp add: span_def pend_def)
  note step = lmb_alloc_down.simps [of lmb sz align lmbbase base]
  show ?case
  proof (cases "base \<noteq> 0 \<and> lmbbase \<le> base")
    case False
    then show ?thesis by (subst step) auto
  next
    case go: True
    from assms(1) pn show ?thesis
    proof (cases rule: lmb_overlaps_region_cases)
      case (free j)
      from lmb_add_region_ok [OF assms(1) pn free(3)] obtain r rgn' where
        r: "lmb_add_region (lmb_reserved lmb) base sz = Some (r, rgn')"
        "r = - 1 \<and> rgn' = lmb_reserved lmb \<and> rcnt (lmb_reserved lmb) = 8 \<or>
         0 \<le> r \<and> in_use rgn' \<and> reserved_set rgn' = reserved_set (lmb_reserved lmb) \<union> span ?new"
        by blast
      have "lmb_alloc_down lmb sz align lmbbase base =
          Some (Inl (if r < 0 then 0 else base, lmb\<lparr>lmb_reserved := rgn'\<rparr>))"
        using go free(1,2) r(1) by (subst step) (simp add: assms(3))
      moreover have "granted lmb sz align base (lmb\<lparr>lmb_reserved := rgn'\<rparr>)" if "0 \<le> r"
        using go r(2) that free(3) lmb_aligned [OF less.prems(1)] by (auto simp: granted_def sp)
      ultimately show ?thesis
        using go r(2) by (cases "0 \<le> r") auto
    next
      case (taken j)
      let ?p = "region (lmb_reserved lmb) ! nat j"
      let ?b = "lmb_align_down (pbase ?p - sz) align"
      have cont: "lmb_alloc_down lmb sz align lmbbase base =
          (if pbase ?p < sz then Some (Inr ()) else lmb_alloc_down lmb sz align lmbbase ?b)"
        using go taken by (subst step) simp
      show ?thesis
      proof (cases "pbase ?p < sz")
        case True
        then show ?thesis by (simp add: cont)
      next
        case False
        then have "unat (pbase ?p - sz) = unat (pbase ?p) - unat sz" "unat sz \<le> unat (pbase ?p)"
          by (simp_all add: unat_sub word_le_nat_alt not_less)
        moreover have "unat ?b \<le> unat (pbase ?p - sz)"
          using lmb_align_down_le [of "pbase ?p - sz" align] by (simp add: word_le_nat_alt)
        ultimately have b: "unat ?b < unat base" "unat ?b + unat sz < 2 ^ 32"
          using taken(4) less.prems(2) by linarith+
        from less.hyps [OF b(1) lmb_align_down_idem b(2)] obtain res where
          "lmb_alloc_down lmb sz align lmbbase ?b = Some res"
          "case res of Inr _ \<Rightarrow> True
           | Inl (c, lmb') \<Rightarrow> c = 0 \<and> lmb' = lmb \<or> granted lmb sz align c lmb' \<and> lmbbase \<le> c \<and> c \<le> ?b"
          by blast
        moreover have "?b \<le> base" using b(1) by (simp add: word_le_nat_alt)
        ultimately show ?thesis
          using False by (auto simp: cont split: sum.splits)
      qed
    qed
  qed
qed

lemma lmb_alloc_regions_ok:
  assumes "region_ok (lmb_memory lmb)" and "region_ok (lmb_reserved lmb)" and "sz \<noteq> 0"
    and "lmb_align_up sz align = sz" and "max_addr = 0 \<or> sz \<le> max_addr" and "i \<le> unat (rcnt (lmb_memory lmb))"
  shows "\<exists>b lmb'. lmb_alloc_regions lmb sz align max_addr i = Some (b, lmb') \<and>
    (b = 0 \<and> lmb' = lmb \<or> granted lmb sz align b lmb' \<and>
     {unat b..<unat b + unat sz} \<subseteq> reserved_set (lmb_memory lmb) \<and>
     (max_addr = 0 \<or> unat b + unat sz \<le> unat max_addr))"
  using assms(6)
proof (induction i)
  case (Suc i)
  let ?m = "lmb_memory lmb"
  let ?p = "region ?m ! i"
  have i: "i < unat (rcnt ?m)" "i < length (region ?m)"
    using Suc.prems assms(1) by (auto simp: region_ok_def word_le_nat_alt)
  note IH = Suc.IH [OF Suc_leD [OF Suc.prems]]
  show ?case
  proof (cases "psize ?p < sz \<or> max_addr \<noteq> 0 \<and> \<not> pbase ?p < max_addr")
    case True
    then show ?thesis using IH i(2) by auto
  next
    case False
    have "in_use ?m"
      using assms(1)
    proof (cases rule: region_ok_cases)
      case fresh
      then have "?p = \<lparr>pbase = 0, psize = 0\<rparr>" using i by (auto simp: entries_nth [symmetric])
      then show ?thesis using False assms(3) by (auto simp: word_gt_0)
    qed
    then have es: "?p \<in> set (entries ?m)" "proper ?p"
      using i in_use_len [of ?m] by (auto simp: entries_nth [symmetric] in_use_def table_def)
    have top: "unat (pbase ?p + psize ?p) = pend ?p" "pend ?p < 2 ^ 32"
      using proper_unfold [OF es(2)] by (simp_all add: pend_def unat_base_plus_size)
    define top where "top = (if max_addr = 0 then pbase ?p + psize ?p else min (pbase ?p + psize ?p) max_addr)"
    have le: "sz \<le> top" "unat top \<le> pend ?p" "max_addr = 0 \<or> unat top \<le> unat max_addr"
      using False assms(5) top by (auto simp: top_def min_def word_le_nat_alt not_less pend_def)
    let ?base = "lmb_align_down (top - sz) align"
    have b: "unat ?base + unat sz \<le> unat top"
      using lmb_align_down_le [of "top - sz" align] le(1) by (simp add: word_le_nat_alt unat_sub)
    then have "unat ?base + unat sz < 2 ^ 32" using le(2) top(2) by simp
    from lmb_alloc_down_ok [OF assms(2-4) lmb_align_down_idem this, of "pbase ?p"] obtain res where
      res: "lmb_alloc_down lmb sz align (pbase ?p) ?base = Some res"
      "case res of Inr _ \<Rightarrow> True
       | Inl (b, lmb') \<Rightarrow> b = 0 \<and> lmb' = lmb \<or> granted lmb sz align b lmb' \<and> pbase ?p \<le> b \<and> b \<le> ?base"
      by blast
    have step: "lmb_alloc_regions lmb sz align max_addr (Suc i) =
        (case res of Inl ret \<Rightarrow> Some ret | Inr _ \<Rightarrow> lmb_alloc_regions lmb sz align max_addr i)"
      using False i(2) res(1) unfolding top_def by (cases "max_addr = 0") (simp_all split: sum.split)
    show ?thesis
    proof (cases res)
      case (Inl ret)
      obtain c lmb' where ret: "ret = (c, lmb')" by fastforce
      have "{unat c..<unat c + unat sz} \<subseteq> reserved_set ?m \<and> (max_addr = 0 \<or> unat c + unat sz \<le> unat max_addr)"
        if "pbase ?p \<le> c" "c \<le> ?base"
      proof -
        have "{unat c..<unat c + unat sz} \<subseteq> span ?p"
          using that b le(2) by (auto simp: span_def word_le_nat_alt)
        moreover have "span ?p \<subseteq> reserved_set ?m" using es(1) by (auto simp: reserved_set_def cover_def)
        ultimately show ?thesis using that b le(3) by (auto simp: word_le_nat_alt)
      qed
      then show ?thesis
        using res(2) unfolding step Inl ret by auto
    next
      case (Inr u)
      show ?thesis unfolding step Inr using IH by (simp only: sum.case)
    qed
  qed
qed simp

section \<open>Properties\<close>

text \<open>
  C20: \<open>lmb_reserve\<close> on a well-formed table, with a region that does not wrap and is disjoint from
  what is reserved, never leaves the table: either it returns a non-negative number, the table is
  well formed (sorted, disjoint, at most eight entries) and covers exactly the old addresses and the
  new ones, however the region was merged with its neighbours; or it returns -1, the table has no
  room and is unchanged.
\<close>

theorem lmb_reserve_correct:
  assumes "region_ok (lmb_reserved lmb)" and "sz \<noteq> 0" and "unat base + unat sz < 2 ^ 32"
    and "{unat base..<unat base + unat sz} \<inter> reserved_set (lmb_reserved lmb) = {}"
  shows "\<exists>r lmb'. lmb_reserve lmb base sz = Some (r, lmb') \<and>
    (r = - 1 \<and> lmb' = lmb \<and> rcnt (lmb_reserved lmb) = 8 \<or>
     0 \<le> r \<and> lmb_memory lmb' = lmb_memory lmb \<and> region_ok (lmb_reserved lmb') \<and>
     reserved_set (lmb_reserved lmb') = reserved_set (lmb_reserved lmb) \<union> {unat base..<unat base + unat sz})"
proof -
  let ?new = "\<lparr>pbase = base, psize = sz\<rparr>"
  have sp: "span ?new = {unat base..<unat base + unat sz}"
    by (simp add: span_def pend_def)
  have pn: "proper ?new"
    using assms(2,3) by (intro properI) (simp_all add: pend_def unat_gt_0)
  obtain r rgn' where r: "lmb_add_region (lmb_reserved lmb) base sz = Some (r, rgn')"
    "r = - 1 \<and> rgn' = lmb_reserved lmb \<and> rcnt (lmb_reserved lmb) = 8 \<or>
     0 \<le> r \<and> in_use rgn' \<and> reserved_set rgn' = reserved_set (lmb_reserved lmb) \<union> span ?new"
    using lmb_add_region_ok [OF assms(1) pn] assms(4) unfolding sp by blast
  then show ?thesis
    by (auto simp: lmb_reserve_def sp in_use_region_ok)
qed

theorem lmb_reserve_correct_witness:
  "\<exists>r lmb'. lmb_reserve (blank_lmb\<lparr>lmb_reserved := table_of [(0x1000, 0x100)]\<rparr>) 0x1100 0x100 = Some (r, lmb') \<and>
    (r = - 1 \<and> lmb' = blank_lmb\<lparr>lmb_reserved := table_of [(0x1000, 0x100)]\<rparr> \<and>
       rcnt (lmb_reserved (blank_lmb\<lparr>lmb_reserved := table_of [(0x1000, 0x100)]\<rparr>)) = 8 \<or>
     0 \<le> r \<and> lmb_memory lmb' = lmb_memory (blank_lmb\<lparr>lmb_reserved := table_of [(0x1000, 0x100)]\<rparr>) \<and>
     region_ok (lmb_reserved lmb') \<and>
     reserved_set (lmb_reserved lmb') =
       reserved_set (lmb_reserved (blank_lmb\<lparr>lmb_reserved := table_of [(0x1000, 0x100)]\<rparr>)) \<union>
       {unat (0x1100 :: u32)..<unat (0x1100 :: u32) + unat (0x100 :: u32)})"
  by (rule lmb_reserve_correct)
    (simp_all add: table_of_def region_ok_def entries_def table_def proper_def pend_def
      reserved_set_def span_def)

text \<open>
  \<open>lmb_free\<close> of a part of a reserved region makes exactly those addresses free and keeps the
  table well formed, whether the part is the whole entry, its beginning, its end or its middle;
  excluded are the removal of the only entry and a full table.
\<close>

lemma lmb_free_correct:
  assumes "region_ok (lmb_reserved lmb)" and "j < unat (rcnt (lmb_reserved lmb))" and "sz \<noteq> 0"
    and "unat (pbase (region (lmb_reserved lmb) ! j)) \<le> unat base"
    and "unat base + unat sz \<le> unat (pbase (region (lmb_reserved lmb) ! j)) + unat (psize (region (lmb_reserved lmb) ! j))"
    and "rcnt (lmb_reserved lmb) \<noteq> 1 \<or> psize (region (lmb_reserved lmb) ! j) \<noteq> sz"
    and "rcnt (lmb_reserved lmb) \<noteq> 8"
  shows "\<exists>r lmb'. lmb_free lmb base sz = Some (r, lmb') \<and> 0 \<le> r \<and> lmb_memory lmb' = lmb_memory lmb \<and>
    region_ok (lmb_reserved lmb') \<and>
    reserved_set (lmb_reserved lmb') = reserved_set (lmb_reserved lmb) - {unat base..<unat base + unat sz}"
proof -
  let ?r = "lmb_reserved lmb"
  have e: "entries ?r ! j = region ?r ! j" using assms(2) by (rule entries_nth)
  have "in_use ?r"
    using assms(1)
  proof (cases rule: region_ok_cases)
    case fresh
    then have "region ?r ! j = \<lparr>pbase = 0, psize = 0\<rparr>" using assms(2) e by auto
    then show ?thesis using assms(3,5) by (auto simp: unat_eq_zero)
  qed
  then obtain r rgn' where "lmb_free_region ?r base sz = Some (r, rgn')" "0 \<le> r" "in_use rgn'"
    "reserved_set rgn' = reserved_set ?r - {unat base..<unat base + unat sz}"
    using lmb_free_region_ok [of ?r j sz base] assms(2-) by (auto simp: e pend_def)
  then show ?thesis
    by (auto simp: lmb_free_def in_use_region_ok)
qed

text \<open>
  C16: for a size that is a multiple of the alignment and, when a limit is given, not above it, the
  allocator terminates, stays inside its tables and returns 0 with nothing changed, or an aligned
  address whose area lies in the memory, below the limit when one is given, was not reserved before
  and is exactly what is reserved in addition afterwards.
\<close>

theorem lmb_alloc_base_correct:
  assumes "region_ok (lmb_memory lmb)" and "region_ok (lmb_reserved lmb)" and "sz \<noteq> 0"
    and "lmb_align_up sz align = sz" and "max_addr = 0 \<or> sz \<le> max_addr"
  shows "\<exists>b lmb'. lmb_alloc_base lmb sz align max_addr = Some (b, lmb', b = 0) \<and>
    (b = 0 \<and> lmb' = lmb \<or> granted lmb sz align b lmb' \<and>
     {unat b..<unat b + unat sz} \<subseteq> reserved_set (lmb_memory lmb) \<and>
     (max_addr = 0 \<or> unat b + unat sz \<le> unat max_addr))"
proof -
  let ?c = "rcnt (lmb_memory lmb)"
  have c: "1 \<le> unat ?c" "unat ?c \<le> 8"
    using assms(1) by (auto simp: region_ok_def word_le_nat_alt)
  have "?c - 1 = word_of_int (int (unat ?c - 1))"
    unfolding cnt_minus_1(1) [OF c(1), symmetric] by simp
  moreover have "sint (word_of_int (int (unat ?c - 1)) :: u32) = int (unat ?c - 1)"
    using c(2) by (subst sint_sbintrunc') (rule signed_take_bit_int_eq_self, simp_all)
  ultimately have "nat (sint (?c - 1) + 1) = unat ?c"
    using c(1) by simp
  then show ?thesis
    using lmb_alloc_regions_ok [OF assms order_refl]
    by (auto simp: lmb_alloc_base_def lmb_alloc_base'_def)
qed

theorem lmb_alloc_base_correct_witness:
  "\<exists>b lmb'. lmb_alloc_base \<lparr>lmb_memory = table_of [(0x1000, 0x100000)], lmb_reserved = table_of [(0x80000, 0x1000)]\<rparr>
      0x2000 0x1000 0 = Some (b, lmb', b = 0) \<and>
    (b = 0 \<and> lmb' = \<lparr>lmb_memory = table_of [(0x1000, 0x100000)], lmb_reserved = table_of [(0x80000, 0x1000)]\<rparr> \<or>
     granted \<lparr>lmb_memory = table_of [(0x1000, 0x100000)], lmb_reserved = table_of [(0x80000, 0x1000)]\<rparr>
       0x2000 0x1000 b lmb' \<and>
     {unat b..<unat b + unat (0x2000 :: u32)} \<subseteq>
       reserved_set (lmb_memory \<lparr>lmb_memory = table_of [(0x1000, 0x100000)], lmb_reserved = table_of [(0x80000, 0x1000)]\<rparr>) \<and>
     ((0 :: u32) = 0 \<or> unat b + unat (0x2000 :: u32) \<le> unat (0 :: u32)))"
  by (rule lmb_alloc_base_correct)
    (simp_all add: table_of_def region_ok_def entries_def table_def proper_def pend_def lmb_align_up_def)

text \<open>
  With a limit below the size the subtraction wraps: on a machine with one megabyte of memory at
  0x1000 and nothing reserved, asking for 64 KB below 0x8000 returns the address 0xFFFF8000, which
  is neither below the limit nor in the memory.
\<close>

lemma lmb_alloc_base_wraps:
  "map_option fst (lmb_alloc_base \<lparr>lmb_memory = table_of [(0x1000, 0x100000)], lmb_reserved = table_of [(0, 0)]\<rparr>
     0x10000 0x1000 0x8000) = Some 0xFFFF8000"
proof -
  have "lmb_alloc_down \<lparr>lmb_memory = table_of [(0x1000, 0x100000)], lmb_reserved = table_of [(0, 0)]\<rparr>
      0x10000 0x1000 0x1000 (- 0x8000) =
    Some (Inl (- 0x8000, \<lparr>lmb_memory = table_of [(0x1000, 0x100000)], lmb_reserved =
      (table_of [(0, 0)])\<lparr>region := (region (table_of [(0, 0)]))[0 := \<lparr>pbase = - 0x8000, psize = 0x10000\<rparr>]\<rparr>\<rparr>))"
    by (subst lmb_alloc_down.simps)
      (simp add: lmb_overlaps_region_def lmb_overlaps_from.simps lmb_addrs_overlap_def lmb_add_region_def
        lmb_align_up_def table_of_def)
  then show ?thesis
    by (simp add: lmb_alloc_base_def lmb_alloc_base'_def lmb_align_down_def table_of_def)
qed

text \<open>
  After the only reserved region is freed the table has no entry at all, not even the dummy one
  of \<open>lmb_init\<close>; the next \<open>lmb_reserve\<close> of a higher address then reports success, but the table
  holds the region that was freed and not the new one.
\<close>

lemma lmb_free_last_loses_reservation:
  "do {
     (r1, l1) \<leftarrow> lmb_free \<lparr>lmb_memory = table_of [(0, 0)], lmb_reserved = table_of [(0x1000, 0x100)]\<rparr> 0x1000 0x100;
     (r2, l2) \<leftarrow> lmb_reserve l1 0x2000 0x100;
     Some (r1, r2, entries (lmb_reserved l2)) } =
   Some (0, 0, [\<lparr>pbase = 0x1000, psize = 0x100\<rparr>])"
  by (simp add: lmb_free_def lmb_free_region_def lmb_find.simps lmb_remove_region_def lmb_shift_down.simps
      lmb_reserve_def lmb_add_region_def lmb_try_coalesce.simps lmb_add_rest_def lmb_regions_adjacent_def
      lmb_addrs_adjacent_def MAX_LMB_REGIONS_def table_of_def entries_def)

end
