(* ===== verification/Lib_Ctype.thy ===== *)
theory Lib_Ctype
  imports Prelude
begin

text \<open>
  Character classes of \<^verbatim>\<open>lib_generic/ctype.c\<close> and \<^verbatim>\<open>include/linux/ctype.h\<close>: a table of class masks and
  the tests on it, with the ranges the digit tests amount to.
\<close>

section \<open>The code\<close>

definition cU :: u8 where "cU = 0x01"
definition cL :: u8 where "cL = 0x02"
definition cD :: u8 where "cD = 0x04"
definition cC :: u8 where "cC = 0x08"
definition cP :: u8 where "cP = 0x10"
definition cS :: u8 where "cS = 0x20"
definition cX :: u8 where "cX = 0x40"
definition cSP :: u8 where "cSP = 0x80"

text \<open>The table, with the masks of each character combined.\<close>

definition ctype_tab :: "u8 list" where
  "ctype_tab =
     [0x08, 0x08, 0x08, 0x08, 0x08, 0x08, 0x08, 0x08, 0x08, 0x28, 0x28, 0x28, 0x28, 0x28, 0x08, 0x08,
      0x08, 0x08, 0x08, 0x08, 0x08, 0x08, 0x08, 0x08, 0x08, 0x08, 0x08, 0x08, 0x08, 0x08, 0x08, 0x08,
      0xa0, 0x10, 0x10, 0x10, 0x10, 0x10, 0x10, 0x10, 0x10, 0x10, 0x10, 0x10, 0x10, 0x10, 0x10, 0x10,
      0x04, 0x04, 0x04, 0x04, 0x04, 0x04, 0x04, 0x04, 0x04, 0x04, 0x10, 0x10, 0x10, 0x10, 0x10, 0x10,
      0x10, 0x41, 0x41, 0x41, 0x41, 0x41, 0x41, 0x01, 0x01, 0x01, 0x01, 0x01, 0x01, 0x01, 0x01, 0x01,
      0x01, 0x01, 0x01, 0x01, 0x01, 0x01, 0x01, 0x01, 0x01, 0x01, 0x01, 0x10, 0x10, 0x10, 0x10, 0x10,
      0x10, 0x42, 0x42, 0x42, 0x42, 0x42, 0x42, 0x02, 0x02, 0x02, 0x02, 0x02, 0x02, 0x02, 0x02, 0x02,
      0x02, 0x02, 0x02, 0x02, 0x02, 0x02, 0x02, 0x02, 0x02, 0x02, 0x02, 0x10, 0x10, 0x10, 0x10, 0x08,
      0x00, 0x00, 0x00, 0x00, 0x00, 0x00, 0x00, 0x00, 0x00, 0x00, 0x00, 0x00, 0x00, 0x00, 0x00, 0x00,
      0x00, 0x00, 0x00, 0x00, 0x00, 0x00, 0x00, 0x00, 0x00, 0x00, 0x00, 0x00, 0x00, 0x00, 0x00, 0x00,
      0xa0, 0x10, 0x10, 0x10, 0x10, 0x10, 0x10, 0x10, 0x10, 0x10, 0x10, 0x10, 0x10, 0x10, 0x10, 0x10,
      0x10, 0x10, 0x10, 0x10, 0x10, 0x10, 0x10, 0x10, 0x10, 0x10, 0x10, 0x10, 0x10, 0x10, 0x10, 0x10,
      0x01, 0x01, 0x01, 0x01, 0x01, 0x01, 0x01, 0x01, 0x01, 0x01, 0x01, 0x01, 0x01, 0x01, 0x01, 0x01,
      0x01, 0x01, 0x01, 0x01, 0x01, 0x01, 0x01, 0x10, 0x01, 0x01, 0x01, 0x01, 0x01, 0x01, 0x01, 0x02,
      0x02, 0x02, 0x02, 0x02, 0x02, 0x02, 0x02, 0x02, 0x02, 0x02, 0x02, 0x02, 0x02, 0x02, 0x02, 0x02,
      0x02, 0x02, 0x02, 0x02, 0x02, 0x02, 0x02, 0x10, 0x02, 0x02, 0x02, 0x02, 0x02, 0x02, 0x02, 0x02]"

definition ismask :: "u8 \<Rightarrow> u8" where
  "ismask x = ctype_tab ! unat x"

definition isalnum :: "u8 \<Rightarrow> bool" where
  "isalnum c \<longleftrightarrow> ismask c AND (cU OR cL OR cD) \<noteq> 0"

definition isalpha :: "u8 \<Rightarrow> bool" where
  "isalpha c \<longleftrightarrow> ismask c AND (cU OR cL) \<noteq> 0"

definition iscntrl :: "u8 \<Rightarrow> bool" where
  "iscntrl c \<longleftrightarrow> ismask c AND cC \<noteq> 0"

definition isdigit :: "u8 \<Rightarrow> bool" where
  "isdigit c \<longleftrightarrow> ismask c AND cD \<noteq> 0"

definition isgraph :: "u8 \<Rightarrow> bool" where
  "isgraph c \<longleftrightarrow> ismask c AND (cP OR cU OR cL OR cD) \<noteq> 0"

definition islower :: "u8 \<Rightarrow> bool" where
  "islower c \<longleftrightarrow> ismask c AND cL \<noteq> 0"

definition isprint :: "u8 \<Rightarrow> bool" where
  "isprint c \<longleftrightarrow> ismask c AND (cP OR cU OR cL OR cD OR cSP) \<noteq> 0"

definition ispunct :: "u8 \<Rightarrow> bool" where
  "ispunct c \<longleftrightarrow> ismask c AND cP \<noteq> 0"

definition isspace :: "u8 \<Rightarrow> bool" where
  "isspace c \<longleftrightarrow> ismask c AND cS \<noteq> 0"

definition isupper :: "u8 \<Rightarrow> bool" where
  "isupper c \<longleftrightarrow> ismask c AND cU \<noteq> 0"

definition isxdigit :: "u8 \<Rightarrow> bool" where
  "isxdigit c \<longleftrightarrow> ismask c AND (cD OR cX) \<noteq> 0"

definition tolower :: "u8 \<Rightarrow> u8" where
  "tolower c = (if isupper c then c - (0x41 - 0x61) else c)"

definition toupper :: "u8 \<Rightarrow> u8" where
  "toupper c = (if islower c then c - (0x61 - 0x41) else c)"

section \<open>Ranges\<close>

lemma length_ctype_tab [simp]: "length ctype_tab = 256"
  by (simp add: ctype_tab_def)

lemma replicate_num: "replicate (numeral k) x = x # replicate (pred_numeral k) x"
  by (simp add: numeral_eq_Suc)

lemma digit_column:
  "map (\<lambda>x. x AND cD \<noteq> 0) ctype_tab = replicate 48 False @ replicate 10 True @ replicate 198 False"
  by (simp add: ctype_tab_def cD_def replicate_num)

lemma xdigit_column:
  "map (\<lambda>x. x AND (cD OR cX) \<noteq> 0) ctype_tab =
    replicate 48 False @ replicate 10 True @ replicate 7 False @ replicate 6 True @ replicate 26 False @
    replicate 6 True @ replicate 153 False"
  by (simp add: ctype_tab_def cD_def cX_def replicate_num)

lemma lower_column:
  "map (\<lambda>x. x AND cL \<noteq> 0) ctype_tab =
    replicate 97 False @ replicate 26 True @ replicate 100 False @ replicate 24 True @ [False] @ replicate 8 True"
  by (simp add: ctype_tab_def cL_def replicate_num)

lemma nth_column: "map P ctype_tab ! unat c \<longleftrightarrow> P (ismask c)"
  using unsigned_less [of c, where ?'a = nat] by (simp add: ismask_def)

lemma isdigit_iff: "isdigit c \<longleftrightarrow> 0x30 \<le> unat c \<and> unat c \<le> 0x39"
  using unsigned_less [of c, where ?'a = nat] nth_column [of "\<lambda>x. x AND cD \<noteq> 0" c]
  unfolding isdigit_def digit_column by (auto simp: nth_append split: if_splits)

lemma islower_ascii: "unat c < 128 \<Longrightarrow> islower c \<longleftrightarrow> 0x61 \<le> unat c \<and> unat c \<le> 0x7a"
  using nth_column [of "\<lambda>x. x AND cL \<noteq> 0" c]
  unfolding islower_def lower_column by (auto simp: nth_append split: if_splits)

lemma isxdigit_iff:
  "isxdigit c \<longleftrightarrow> 0x30 \<le> unat c \<and> unat c \<le> 0x39 \<or> 0x41 \<le> unat c \<and> unat c \<le> 0x46 \<or>
    0x61 \<le> unat c \<and> unat c \<le> 0x66"
  using unsigned_less [of c, where ?'a = nat] nth_column [of "\<lambda>x. x AND (cD OR cX) \<noteq> 0" c]
  unfolding isxdigit_def xdigit_column by (auto simp: nth_append split: if_splits)

end
