(* ===== verification/Lib_Vsprintf.thy ===== *)
theory Lib_Vsprintf
  imports Lib_Ctype Lib_String
begin

text \<open>
  Number parsing and formatted output of \<^verbatim>\<open>lib_generic/vsprintf.c\<close>, in the 32-bit configuration of
  the board. Parsing reads the explicit memory; the loops are partial, \<open>None\<close> standing for a loop
  that does not end. Printing collects the characters stored through \<open>*str++\<close> in a list; the format is
  given as a list of characters without its terminating zero, the variable arguments as the list of
  32-bit words they occupy, and strings are read from the memory, which the output does not overlap.
\<close>

section \<open>Parsing\<close>

text \<open>Characters: \<open>'0'\<close> 0x30, \<open>'A'\<close> 0x41, \<open>'x'\<close> 0x78, \<open>'-'\<close> 0x2d.\<close>

definition digit_value :: "u8 \<Rightarrow> u32" where
  "digit_value c =
     (if isdigit c then ucast c - 0x30
      else (if islower c then ucast (toupper c) else ucast c) - 0x41 + 10)"

partial_function (option) strtoul_loop :: "mem \<Rightarrow> addr \<Rightarrow> u32 \<Rightarrow> u32 \<Rightarrow> (u32 \<times> addr) option" where
  "strtoul_loop m cp base result =
     (if isxdigit (m cp) \<and> digit_value (m cp) < base
      then strtoul_loop m (cp + 1) base (result * base + digit_value (m cp))
      else Some (result, cp))"

text \<open>The result and the address stored through \<open>endp\<close>.\<close>

definition simple_strtoul :: "mem \<Rightarrow> addr \<Rightarrow> u32 \<Rightarrow> (u32 \<times> addr) option" where
  "simple_strtoul m cp base =
     (let (cp1, base1) =
        (if m cp = 0x30 then
           let cp = cp + 1;
               (cp, base) = (if m cp = 0x78 \<and> isxdigit (m (cp + 1)) then (cp + 1, 16) else (cp, base))
           in (cp, if base = 0 then 8 else base)
         else (cp, base));
        base2 = (if base1 = 0 then 10 else base1)
      in strtoul_loop m cp1 base2 0)"

definition simple_strtol :: "mem \<Rightarrow> addr \<Rightarrow> u32 \<Rightarrow> (u32 \<times> addr) option" where
  "simple_strtol m cp base =
     (if m cp = 0x2d then map_option (\<lambda>(r, e). (- r, e)) (simple_strtoul m (cp + 1) base)
      else simple_strtoul m cp base)"

text \<open>\<open>simple_strtoul\<close> on an argument string: the number and the rest of the string.\<close>

definition string_mem :: "u8 list \<Rightarrow> mem" where
  "string_mem xs = (\<lambda>a. if unat a < length xs then xs ! unat a else 0)"

definition str_strtoul :: "u8 list \<Rightarrow> u32 \<Rightarrow> (u32 \<times> u8 list) option" where
  "str_strtoul xs base = map_option (\<lambda>(r, e). (r, drop (unat e) xs)) (simple_strtoul (string_mem xs) 0 base)"

text \<open>\<open>ustrtoul\<close>: the suffixes G, M, K, k scale by powers of 1024; \<open>i\<close> and \<open>iB\<close> are skipped.\<close>

definition ustrtoul :: "mem \<Rightarrow> addr \<Rightarrow> u32 \<Rightarrow> (int \<times> addr) option" where
  "ustrtoul m cp base = do {
     (result, e) \<leftarrow> simple_strtoul m cp base;
     let result = (if m e = 0x47 then result * 1024 else result);
     let result = (if m e = 0x47 \<or> m e = 0x4d then result * 1024 else result);
     let scaled = (m e = 0x47 \<or> m e = 0x4d \<or> m e = 0x4b \<or> m e = 0x6b);
     let result = (if scaled then result * 1024 else result);
     let e' = (if scaled \<and> m (e + 1) = 0x69 then if m (e + 2) = 0x42 then e + 3 else e + 2 else e);
     Some (sint result, e') }"

section \<open>Printing numbers\<close>

definition ZEROPAD :: u32 where "ZEROPAD = 1"
definition SIGN :: u32 where "SIGN = 2"
definition PLUS :: u32 where "PLUS = 4"
definition SPACE :: u32 where "SPACE = 8"
definition LEFT :: u32 where "LEFT = 16"
definition SPECIAL :: u32 where "SPECIAL = 32"
definition LARGE :: u32 where "LARGE = 64"

abbreviation flag_set :: "u32 \<Rightarrow> u32 \<Rightarrow> bool" where
  "flag_set type f \<equiv> type AND f \<noteq> 0"

text \<open>\<open>digits[k]\<close> of the lower and the upper case alphabet.\<close>

definition digit_char :: "bool \<Rightarrow> nat \<Rightarrow> u8" where
  "digit_char large k =
     (if k < 10 then 0x30 + of_nat k else (if large then 0x41 else 0x61) + of_nat (k - 10))"

text \<open>\<open>while (num != 0) tmp[i++] = digits[do_div(num,base)];\<close> the least significant digit first.\<close>

function num_digits :: "nat \<Rightarrow> nat \<Rightarrow> nat list" where
  "num_digits base num = (if num = 0 \<or> base < 2 then [] else (num mod base) # num_digits base (num div base))"
  by pat_completeness auto
termination
  by (relation "measure (\<lambda>(base, num). num)") auto

declare num_digits.simps [simp del]

text \<open>\<open>while (size-- > 0) *str++ = c;\<close> the characters stored and the value of \<open>size\<close> afterwards.\<close>

definition pad_loop :: "int \<Rightarrow> u8 \<Rightarrow> u8 list \<times> int" where
  "pad_loop sz c = (if 0 < sz then (replicate (nat sz) c, - 1) else ([], sz - 1))"

definition number :: "u32 \<Rightarrow> u32 \<Rightarrow> int \<Rightarrow> int \<Rightarrow> u32 \<Rightarrow> u8 list option" where
  "number num base sz precision type =
     (let large = flag_set type LARGE;
          type = (if flag_set type LEFT then type AND NOT ZEROPAD else type)
      in if base < 2 \<or> base > 36 then None
         else
           let c = (if flag_set type ZEROPAD then 0x30 else 0x20);
               (sign, num, sz) =
                 (if flag_set type SIGN then
                    if sint num < 0 then ([0x2d], - num, sz - 1)
                    else if flag_set type PLUS then ([0x2b], num, sz - 1)
                    else if flag_set type SPACE then ([0x20], num, sz - 1)
                    else ([], num, sz)
                  else ([], num, sz));
               sz = (if flag_set type SPECIAL then
                       if base = 16 then sz - 2 else if base = 8 then sz - 1 else sz
                     else sz);
               tmp = (if num = 0 then [0x30] else map (digit_char large) (num_digits (unat base) (unat num)));
               i = int (length tmp);
               precision = (if i > precision then i else precision);
               sz = sz - precision;
               (lead, sz) = (if \<not> flag_set type (ZEROPAD + LEFT) then pad_loop sz 0x20 else ([], sz));
               prefix = (if flag_set type SPECIAL then
                           if base = 8 then [0x30]
                           else if base = 16 then [0x30, digit_char large 33] else []
                         else []);
               (fill, sz) = (if \<not> flag_set type LEFT then pad_loop sz c else ([], sz));
               zeros = replicate (nat (precision - i)) 0x30;
               (trail, sz) = pad_loop sz 0x20
           in Some (lead @ sign @ prefix @ fill @ zeros @ rev tmp @ trail))"

section \<open>Formats\<close>

fun skip_atoi :: "u8 list \<Rightarrow> int \<Rightarrow> int \<times> u8 list" where
  "skip_atoi (c # s) i =
     (if 0x30 \<le> c \<and> c \<le> 0x39 then skip_atoi s (i * 10 + uint c - 0x30) else (i, c # s))"
| "skip_atoi [] i = (i, [])"

text \<open>The flag characters \<open>- + space # 0\<close>.\<close>

fun fmt_flags :: "u8 list \<Rightarrow> u32 \<Rightarrow> u32 \<times> u8 list" where
  "fmt_flags (c # s) flags =
     (if c = 0x2d then fmt_flags s (flags OR LEFT)
      else if c = 0x2b then fmt_flags s (flags OR PLUS)
      else if c = 0x20 then fmt_flags s (flags OR SPACE)
      else if c = 0x23 then fmt_flags s (flags OR SPECIAL)
      else if c = 0x30 then fmt_flags s (flags OR ZEROPAD)
      else (flags, c # s))"
| "fmt_flags [] flags = (flags, [])"

abbreviation fmt_char :: "u8 list \<Rightarrow> u8" where
  "fmt_char fmt \<equiv> (case fmt of [] \<Rightarrow> 0 | c # _ \<Rightarrow> c)"

text \<open>\<open>va_arg\<close> of a 32-bit argument; there is none behind the last.\<close>

fun va_arg :: "u32 list \<Rightarrow> (u32 \<times> u32 list) option" where
  "va_arg [] = None"
| "va_arg (a # args) = Some (a, args)"

definition fmt_width :: "u8 list \<Rightarrow> u32 \<Rightarrow> u32 list \<Rightarrow> (int \<times> u32 \<times> u8 list \<times> u32 list) option" where
  "fmt_width fmt flags args =
     (if 0x30 \<le> fmt_char fmt \<and> fmt_char fmt \<le> 0x39
      then let (w, fmt') = skip_atoi fmt 0 in Some (w, flags, fmt', args)
      else if fmt_char fmt = 0x2a then do {
        (a, args') \<leftarrow> va_arg args;
        Some (if sint a < 0 then (- sint a, flags OR LEFT, tl fmt, args')
              else (sint a, flags, tl fmt, args')) }
      else Some (- 1, flags, fmt, args))"

definition fmt_precision :: "u8 list \<Rightarrow> u32 list \<Rightarrow> (int \<times> u8 list \<times> u32 list) option" where
  "fmt_precision fmt args =
     (if fmt_char fmt = 0x2e then do {
        let fmt = tl fmt;
        (p, fmt, args) \<leftarrow>
          (if 0x30 \<le> fmt_char fmt \<and> fmt_char fmt \<le> 0x39
           then let (p, fmt') = skip_atoi fmt 0 in Some (p, fmt', args)
           else if fmt_char fmt = 0x2a then do {
             (a, args') \<leftarrow> va_arg args;
             Some (sint a, tl fmt, args') }
           else Some (- 1, fmt, args));
        Some (if p < 0 then 0 else p, fmt, args) }
      else Some (- 1, fmt, args))"

text \<open>The qualifier: h, l, L, Z, z, t, q, with \<open>ll\<close> read as q; 0 when there is none.\<close>

definition fmt_qualifier :: "u8 list \<Rightarrow> u8 \<times> u8 list" where
  "fmt_qualifier fmt =
     (if fmt_char fmt \<in> {0x68, 0x6c, 0x4c, 0x5a, 0x7a, 0x74, 0x71}
      then if fmt_char fmt = 0x6c \<and> fmt_char (tl fmt) = 0x6c then (0x71, tl (tl fmt))
           else (fmt_char fmt, tl fmt)
      else (0, fmt))"

text \<open>Padding of \<open>%c\<close> (\<open>while (--field_width > 0)\<close>) and of \<open>%s\<close> (\<open>while (len < field_width--)\<close>).\<close>

definition conv_char :: "u8 \<Rightarrow> int \<Rightarrow> u32 \<Rightarrow> u8 list" where
  "conv_char c width flags =
     (let spaces = replicate (nat (width - 1)) 0x20
      in if \<not> flag_set flags LEFT then spaces @ [c] else c # spaces)"

definition conv_string :: "mem \<Rightarrow> addr \<Rightarrow> int \<Rightarrow> int \<Rightarrow> u32 \<Rightarrow> u8 list" where
  "conv_string m s width precision flags =
     (let (chars, len) =
        (if s = NULL then
           let cs = [0x3c, 0x4e, 0x55, 0x4c, 0x4c, 0x3e];
               n = min 6 (unat (word_of_int precision :: u32))
           in (take n cs, int n)
         else
           let len = sint (strnlen m s (word_of_int precision))
           in (load m s (nat len), len));
        spaces = replicate (nat (width - len)) 0x20
      in if \<not> flag_set flags LEFT then spaces @ chars else chars @ spaces)"

text \<open>The integer argument of a conversion as a long: \<open>h\<close> narrows it to 16 bits.\<close>

definition conv_num :: "u8 \<Rightarrow> u32 \<Rightarrow> u32 \<Rightarrow> u32" where
  "conv_num qualifier flags a =
     (if qualifier = 0x68
      then let h = (ucast a :: u16) in if flag_set flags SIGN then scast h else ucast h
      else a)"

text \<open>Base and flags of an integer conversion character.\<close>

definition conv_base :: "u8 \<Rightarrow> u32 \<Rightarrow> (u32 \<times> u32) option" where
  "conv_base c flags =
     (if c = 0x6f then Some (8, flags)
      else if c = 0x58 then Some (16, flags OR LARGE)
      else if c = 0x78 then Some (16, flags)
      else if c = 0x64 \<or> c = 0x69 then Some (10, flags OR SIGN)
      else if c = 0x75 then Some (10, flags)
      else None)"

text \<open>
  One conversion, behind the percent sign: the characters it stores, what it stores through the
  pointer of \<open>%n\<close>, the arguments left and the rest of the format. \<open>out\<close> is what is stored so far.
\<close>

definition conversion ::
  "mem \<Rightarrow> u8 list \<Rightarrow> u32 list \<Rightarrow> u8 list \<Rightarrow> (u8 list \<times> (addr \<times> u32) list \<times> u32 list \<times> u8 list) option" where
  "conversion m fmt args out = do {
     let (flags, fmt) = fmt_flags fmt 0;
     (width, flags, fmt, args) \<leftarrow> fmt_width fmt flags args;
     (precision, fmt, args) \<leftarrow> fmt_precision fmt args;
     let (qualifier, fmt) = fmt_qualifier fmt;
     let c = fmt_char fmt;
     let rest = tl fmt;
     if c = 0x63 then do {
       (a, args) \<leftarrow> va_arg args;
       Some (conv_char (ucast a) width flags, [], args, rest) }
     else if c = 0x73 then do {
       (a, args) \<leftarrow> va_arg args;
       Some (conv_string m a width precision flags, [], args, rest) }
     else if c = 0x70 then do {
       (a, args) \<leftarrow> va_arg args;
       let (width, flags) = (if width = - 1 then (8, flags OR ZEROPAD) else (width, flags));
       s \<leftarrow> number a 16 width precision flags;
       Some (s, [], args, rest) }
     else if c = 0x6e then do {
       (a, args) \<leftarrow> va_arg args;
       Some ([], [(a, of_nat (length out))], args, rest) }
     else if c = 0x25 then Some ([0x25], [], args, rest)
     else
       case conv_base c flags of
         Some (base, flags) \<Rightarrow> do {
           (a, args) \<leftarrow> va_arg args;
           s \<leftarrow> number (conv_num qualifier flags a) base width precision flags;
           Some (s, [], args, rest) }
       | None \<Rightarrow> Some (if c \<noteq> 0 then [0x25, c] else [0x25], [], args, rest) }"

lemma skip_atoi_length: "skip_atoi fmt i = (n, rest) \<Longrightarrow> length rest \<le> length fmt"
  by (induction fmt i rule: skip_atoi.induct) (auto split: if_splits)

lemma fmt_flags_length: "fmt_flags fmt flags = (flags', rest) \<Longrightarrow> length rest \<le> length fmt"
  by (induction fmt flags rule: fmt_flags.induct) (auto split: if_splits)

lemma fmt_width_length:
  "fmt_width fmt flags args = Some (w, flags', rest, args') \<Longrightarrow> length rest \<le> length fmt"
  by (auto simp: fmt_width_def bind_eq_Some_conv dest: skip_atoi_length split: if_splits prod.splits)

lemma fmt_precision_length:
  "fmt_precision fmt args = Some (p, rest, args') \<Longrightarrow> length rest \<le> length fmt"
  by (auto simp: fmt_precision_def Let_def bind_eq_Some_conv dest!: skip_atoi_length split: if_splits prod.splits)

lemma fmt_qualifier_length: "fmt_qualifier fmt = (q, rest) \<Longrightarrow> length rest \<le> length fmt"
  by (auto simp: fmt_qualifier_def split: if_splits)

lemma conversion_length:
  assumes "conversion m fmt args out = Some (s, w, args', rest)"
  shows "length rest \<le> length fmt"
proof -
  obtain flags fmt1 where f: "fmt_flags fmt 0 = (flags, fmt1)" by fastforce
  obtain width flags2 fmt2 args2 where w: "fmt_width fmt1 flags args = Some (width, flags2, fmt2, args2)"
    using assms by (auto simp: conversion_def f bind_eq_Some_conv)
  obtain precision fmt3 args3 where p: "fmt_precision fmt2 args2 = Some (precision, fmt3, args3)"
    using assms by (auto simp: conversion_def f w bind_eq_Some_conv)
  obtain q fmt4 where q: "fmt_qualifier fmt3 = (q, fmt4)" by fastforce
  have "rest = tl fmt4"
    using assms by (auto simp: conversion_def f w p q Let_def bind_eq_Some_conv split: if_splits option.splits prod.splits)
  then show ?thesis
    using fmt_flags_length [OF f] fmt_width_length [OF w] fmt_precision_length [OF p] fmt_qualifier_length [OF q]
    by simp
qed

function vsprintf_loop ::
  "mem \<Rightarrow> u8 list \<Rightarrow> u32 list \<Rightarrow> u8 list \<Rightarrow> (addr \<times> u32) list \<Rightarrow> (u8 list \<times> (addr \<times> u32) list) option" where
  "vsprintf_loop m [] args out writes = Some (out, writes)"
| "vsprintf_loop m (c # fmt) args out writes =
     (if c \<noteq> 0x25 then vsprintf_loop m fmt args (out @ [c]) writes
      else do {
        (s, w, args, rest) \<leftarrow> conversion m fmt args out;
        vsprintf_loop m rest args (out @ s) (writes @ w) })"
  by pat_completeness auto
termination
  by (relation "measure (\<lambda>(m, fmt, args, out, writes). length fmt)")
    (auto dest!: conversion_length)

definition store32 :: "addr \<Rightarrow> u32 \<Rightarrow> mem \<Rightarrow> mem" where
  "store32 p v m = overwrite m p (bytes_be32 v)"

definition vsprintf :: "mem \<Rightarrow> addr \<Rightarrow> u8 list \<Rightarrow> u32 list \<Rightarrow> (u32 \<times> mem) option" where
  "vsprintf m buf fmt args = do {
     (out, writes) \<leftarrow> vsprintf_loop m fmt args [] [];
     Some (of_nat (length out), overwrite (fold (\<lambda>(p, v). store32 p v) writes m) buf (out @ [0])) }"

definition sprintf :: "mem \<Rightarrow> addr \<Rightarrow> u8 list \<Rightarrow> u32 list \<Rightarrow> (u32 \<times> mem) option" where
  "sprintf m buf fmt args = vsprintf m buf fmt args"

section \<open>Digits\<close>

lemma num_digits_bound: "d \<in> set (num_digits base n) \<Longrightarrow> d < base"
  by (induction base n rule: num_digits.induct) (subst (asm) num_digits.simps, auto split: if_splits)

lemma num_digits_value:
  assumes "2 \<le> base"
  shows "foldr (\<lambda>d r. r * base + d) (num_digits base n) 0 = n"
proof (induction n rule: less_induct)
  case (less n)
  show ?case
  proof (cases "n = 0")
    case False
    then have "n div base < n" using assms by simp
    from less [OF this] show ?thesis
      using False assms by (subst num_digits.simps) simp
  qed (subst num_digits.simps, simp)
qed

lemma num_digits_top:
  assumes "2 \<le> base" and "n \<noteq> 0"
  shows "num_digits base n \<noteq> [] \<and> last (num_digits base n) \<noteq> 0"
  using assms(2)
proof (induction n rule: less_induct)
  case (less n)
  have lt: "n div base < n" using assms less.prems by simp
  show ?case
  proof (cases "n div base = 0")
    case True
    then have "num_digits base n = [n]"
      using assms less.prems
      by (subst num_digits.simps) (simp add: num_digits.simps [of base 0] div_eq_0_iff)
    then show ?thesis using less.prems by simp
  next
    case False
    with less.IH [OF lt] show ?thesis
      using assms less.prems by (subst (1 2) num_digits.simps) simp
  qed
qed

lemma digit_char_of_nat:
  "digit_char large k = of_nat (if k < 10 then 0x30 + k else (if large then 0x41 else 0x61) + (k - 10))"
  by (simp add: digit_char_def)

lemma ucast_small: "n < 256 \<Longrightarrow> ucast (of_nat n :: u8) = (of_nat n :: u32)"
  by (simp add: unsigned_of_nat take_bit_nat_eq_self)

lemma unat_small: "n < 256 \<Longrightarrow> unat (of_nat n :: u8) = n"
  by (simp add: unat_of_nat)

lemma digit_value_of_nat:
  assumes "n < 128"
  shows "digit_value (of_nat n) =
    (if 0x30 \<le> n \<and> n \<le> 0x39 then of_nat (n - 0x30)
     else of_nat (if 0x61 \<le> n \<and> n \<le> 0x7a then n - 0x20 else n) - 0x41 + 10)"
proof -
  have u: "unat (of_nat n :: u8) = n" using assms by (simp add: unat_of_nat)
  have d: "isdigit (of_nat n) \<longleftrightarrow> 0x30 \<le> n \<and> n \<le> 0x39"
    by (simp only: isdigit_iff u)
  have l: "islower (of_nat n) \<longleftrightarrow> 0x61 \<le> n \<and> n \<le> 0x7a"
    using assms islower_ascii [of "of_nat n"] by (simp only: u)
  have up: "toupper (of_nat n) = of_nat (n - 0x20)" if "0x61 \<le> n \<and> n \<le> 0x7a"
    using that l by (simp add: toupper_def of_nat_diff)
  then have up': "ucast (toupper (of_nat n)) = (of_nat (n - 0x20) :: u32)" if "0x61 \<le> n \<and> n \<le> 0x7a"
    using that ucast_small [of "n - 0x20"] assms by (simp only: up)
  show ?thesis
    using assms up' by (auto simp: digit_value_def d l ucast_small of_nat_diff)
qed

lemma digit_char_props:
  assumes "k < 16"
  shows "isxdigit (digit_char large k)" and "digit_value (digit_char large k) = of_nat k"
    and "digit_char large k = 0x30 \<longleftrightarrow> k = 0" and "digit_char large k \<noteq> 0" and "digit_char large k \<noteq> 0x2d"
proof -
  define n where "n = (if k < 10 then 0x30 + k else (if large then 0x41 else 0x61) + (k - 10))"
  have c: "digit_char large k = of_nat n" by (simp add: digit_char_of_nat n_def)
  have n: "n < 128" using assms by (simp add: n_def)
  have u: "unat (of_nat n :: u8) = n" using n by (simp add: unat_of_nat)
  show "isxdigit (digit_char large k)"
    unfolding c isxdigit_iff u using assms by (auto simp: n_def)
  show "digit_value (digit_char large k) = of_nat k"
    unfolding c digit_value_of_nat [OF n] using assms by (auto simp: n_def of_nat_diff)
  show "digit_char large k = 0x30 \<longleftrightarrow> k = 0" and "digit_char large k \<noteq> 0" and "digit_char large k \<noteq> 0x2d"
    unfolding c word_unat_eq_iff u using assms by (auto simp: n_def)
qed

section \<open>Parsing what was printed\<close>

lemma strtoul_loop_eq:
  assumes "load m cp (length cs) = cs" and "\<forall>c\<in>set cs. isxdigit c \<and> digit_value c < base"
    and "\<not> (isxdigit (m (cp + of_nat (length cs))) \<and> digit_value (m (cp + of_nat (length cs))) < base)"
  shows "strtoul_loop m cp base r =
    Some (foldl (\<lambda>r c. r * base + digit_value c) r cs, cp + of_nat (length cs))"
  using assms
proof (induction cs arbitrary: cp r)
  case Nil
  then show ?case by (subst strtoul_loop.simps) auto
next
  case (Cons c cs)
  then have c: "m cp = c" "load m (cp + 1) (length cs) = cs"
    by (simp_all add: load_Suc)
  have "strtoul_loop m (cp + 1) base (r * base + digit_value c) =
      Some (foldl (\<lambda>r c. r * base + digit_value c) (r * base + digit_value c) cs, cp + 1 + of_nat (length cs))"
    using Cons.prems c by (intro Cons.IH) (simp_all add: add.assoc)
  then show ?case
    using Cons.prems(2) c by (subst strtoul_loop.simps) (simp add: add.assoc)
qed

lemma not_isxdigit_0: "\<not> isxdigit 0"
  by (simp add: isxdigit_iff)

lemma strtoul_loop_total:
  "\<not> isxdigit (m (cp + of_nat n)) \<Longrightarrow> \<exists>r. strtoul_loop m cp base result = Some r"
proof (induction n arbitrary: cp result)
  case 0
  then show ?case by (subst strtoul_loop.simps) simp
next
  case (Suc n)
  then have "\<exists>r. strtoul_loop m (cp + 1) base res = Some r" for res by (simp add: add.assoc)
  then show ?case by (subst strtoul_loop.simps) simp
qed

lemma str_strtoul_total:
  assumes "length xs < 2 ^ 32"
  obtains r e where "str_strtoul xs base = Some (r, e)"
proof -
  have "\<not> isxdigit (string_mem xs (of_nat (length xs)))"
    using assms by (simp add: string_mem_def unat_of_nat not_isxdigit_0)
  then have "\<not> isxdigit (string_mem xs (cp + of_nat (offset cp (of_nat (length xs)))))" for cp by simp
  then have "\<exists>r. strtoul_loop (string_mem xs) cp b 0 = Some r" for cp b by (rule strtoul_loop_total)
  then have "\<exists>r. simple_strtoul (string_mem xs) 0 base = Some r"
    unfolding simple_strtoul_def Let_def by (simp split: prod.split)
  then show thesis using that by (auto simp: str_strtoul_def)
qed

text \<open>The digits of a number in a base up to sixteen, printed and read back.\<close>

definition digit_string :: "bool \<Rightarrow> nat \<Rightarrow> u32 \<Rightarrow> u8 list" where
  "digit_string large base num =
     (if num = 0 then [0x30] else rev (map (digit_char large) (num_digits base (unat num))))"

lemma digit_string_value:
  assumes "2 \<le> base" and "base \<le> 16"
  shows "foldl (\<lambda>r c. r * of_nat base + digit_value c) 0 (rev (map (digit_char large) (num_digits base n))) =
    (of_nat n :: u32)"
proof -
  have "foldr (\<lambda>d r. r * of_nat base + digit_value (digit_char large d)) ds 0 =
      (of_nat (foldr (\<lambda>d r. r * base + d) ds 0) :: u32)" if "\<forall>d\<in>set ds. d < 16" for ds
    using that by (induction ds) (simp_all add: digit_char_props)
  moreover have "\<forall>d\<in>set (num_digits base n). d < 16"
    using num_digits_bound assms(2) less_le_trans by blast
  ultimately have "foldr (\<lambda>d r. r * of_nat base + digit_value (digit_char large d)) (num_digits base n) 0 =
      (of_nat n :: u32)"
    by (simp only: num_digits_value [OF assms(1), of n])
  then show ?thesis
    by (simp add: foldl_conv_foldr foldr_map comp_def)
qed

lemma digit_string_chars:
  assumes "2 \<le> base" and "base \<le> 16" and "c \<in> set (digit_string large base num)"
  shows "isxdigit c \<and> digit_value c < of_nat base \<and> c \<noteq> 0 \<and> c \<noteq> 0x2d"
proof -
  obtain k where k: "k < base" "c = digit_char large k"
  proof (cases "num = 0")
    case True
    then show ?thesis
      using assms that [of 0] by (simp add: digit_string_def digit_char_def)
  next
    case False
    then show ?thesis
      using assms(3) num_digits_bound that by (auto simp: digit_string_def)
  qed
  then have "k < 16" using assms(2) by simp
  moreover have "(of_nat k :: u32) < of_nat base"
    using k assms by (simp add: word_less_nat_alt unat_of_nat)
  ultimately show ?thesis
    using k digit_char_props [of k large] by simp
qed

lemma simple_strtoul_digits:
  assumes "2 \<le> base" and "base \<le> 16" and "load m cp (length (digit_string large base num)) = digit_string large base num"
    and "\<not> isxdigit (m (cp + of_nat (length (digit_string large base num))))"
    and "m (cp + of_nat (length (digit_string large base num))) \<noteq> 0x78"
  shows "simple_strtoul m cp (of_nat base) = Some (num, cp + of_nat (length (digit_string large base num)))"
proof (cases "num = 0")
  case True
  then have "m cp = 0x30" "m (cp + 1) \<noteq> 0x78" "\<not> isxdigit (m (cp + 1))"
    using assms(3-5) by (simp_all add: digit_string_def load_Suc)
  moreover have "(of_nat base :: u32) \<noteq> 0"
    using assms by (simp add: word_unat_eq_iff unat_of_nat)
  ultimately show ?thesis
    using True by (subst simple_strtoul_def, subst strtoul_loop.simps)
      (simp add: Let_def digit_string_def)
next
  case False
  let ?cs = "digit_string large base num"
  let ?ds = "num_digits base (unat num)"
  have "unat num \<noteq> 0" using False by (simp add: unat_eq_zero)
  note top = num_digits_top [OF assms(1) this]
  have "last ?ds < 16"
    using top num_digits_bound [of "last ?ds" base "unat num"] assms(2) by simp
  have cs: "?cs = rev (map (digit_char large) ?ds)" using False by (simp add: digit_string_def)
  then have "hd ?cs = digit_char large (last ?ds)" "?cs \<noteq> []"
    using top by (simp_all add: hd_rev last_map)
  then have "m cp \<noteq> 0x30"
    using assms(3) digit_char_props(3) [OF \<open>last ?ds < 16\<close>, of large] top by (cases ?cs) (auto simp: load_Suc)
  moreover have "(of_nat base :: u32) \<noteq> 0"
    using assms by (simp add: word_unat_eq_iff unat_of_nat)
  ultimately have "simple_strtoul m cp (of_nat base) = strtoul_loop m cp (of_nat base) 0"
    by (simp add: simple_strtoul_def)
  also have "\<dots> = Some (foldl (\<lambda>r c. r * of_nat base + digit_value c) 0 ?cs, cp + of_nat (length ?cs))"
    using assms(3,4) digit_string_chars [OF assms(1,2)]
    by (intro strtoul_loop_eq) auto
  also have "foldl (\<lambda>r c. r * of_nat base + digit_value c) 0 ?cs = num"
    using digit_string_value [OF assms(1,2), of large "unat num"] by (simp add: cs)
  finally show ?thesis .
qed

lemma simple_strtoul_digit_string:
  assumes "2 \<le> base" and "base \<le> 16" and "str_at m cp (digit_string large base num)"
  shows "simple_strtoul m cp (of_nat base) = Some (num, cp + of_nat (length (digit_string large base num)))"
  using simple_strtoul_digits [OF assms(1,2)] assms(3) by (simp add: str_at_iff not_isxdigit_0)

text \<open>On a string: the digits are read up to the first character that is neither a digit nor \<open>'x'\<close>.\<close>

lemma str_strtoul_digits:
  assumes "2 \<le> base" and "base \<le> 16" and "rest = [] \<or> \<not> isxdigit (hd rest) \<and> hd rest \<noteq> 0x78"
    and "length (digit_string large base num @ rest) < 2 ^ 32"
  shows "str_strtoul (digit_string large base num @ rest) (of_nat base) = Some (num, rest)"
proof -
  let ?ds = "digit_string large base num"
  let ?m = "string_mem (?ds @ rest)"
  have len: "unat (of_nat (length ?ds) :: u32) = length ?ds"
    using assms(4) by (simp add: unat_of_nat)
  have "load ?m 0 (length ?ds) = ?ds"
    using assms(4) by (intro nth_equalityI) (simp_all add: string_mem_def unat_of_nat nth_append)
  moreover have "?m (0 + of_nat (length ?ds)) = (if rest = [] then 0 else hd rest)"
    using len by (auto simp: string_mem_def nth_append hd_conv_nth)
  ultimately have "simple_strtoul ?m 0 (of_nat base) = Some (num, 0 + of_nat (length ?ds))"
    using assms(3) by (intro simple_strtoul_digits [OF assms(1,2)]) (auto simp: not_isxdigit_0)
  then show ?thesis using len by (simp add: str_strtoul_def)
qed

section \<open>Printing\<close>

lemma number_plain:
  assumes "2 \<le> unat base" and "unat base \<le> 36" and "type = (if signed_conv then SIGN else 0) OR (if large then LARGE else 0)"
  shows "number num base (- 1) (- 1) type =
    Some (if signed_conv \<and> sint num < 0 then 0x2d # digit_string large (unat base) (- num)
          else digit_string large (unat base) num)"
proof -
  have b: "\<not> base < 2" "\<not> base > 36"
    using assms(1,2) by (simp_all add: word_less_nat_alt)
  have t: "flag_set type SIGN = signed_conv" "flag_set type LARGE = large" "\<not> flag_set type LEFT"
    "\<not> flag_set type SPECIAL" "\<not> flag_set type PLUS" "\<not> flag_set type SPACE" "\<not> flag_set type (ZEROPAD + LEFT)"
    "\<not> flag_set type ZEROPAD"
    unfolding assms(3) by (cases signed_conv; cases large;
      simp add: SIGN_def LARGE_def LEFT_def SPECIAL_def PLUS_def SPACE_def ZEROPAD_def)+
  show ?thesis
    unfolding number_def Let_def using b t
    by (cases "signed_conv \<and> sint num < 0") (auto simp: pad_loop_def digit_string_def)
qed

lemma pad_loop_length:
  "pad_loop sz c = (cs, sz') \<Longrightarrow> int (length cs) = max 0 sz \<and> sz' < 0 \<or> sz \<le> 0 \<and> cs = [] \<and> sz' < 0"
  by (auto simp: pad_loop_def split: if_splits)

lemma digit_string_props:
  assumes "2 \<le> base" and "base \<le> 16"
  shows "0 \<notin> set (digit_string large base num)" and "digit_string large base num \<noteq> []"
    and "hd (digit_string large base num) \<noteq> 0x2d"
proof -
  have ne: "digit_string large base num \<noteq> []"
  proof (cases "num = 0")
    case False
    then have "unat num \<noteq> 0" by (simp add: unat_eq_zero)
    then show ?thesis
      using num_digits_top [OF assms(1)] False by (simp add: digit_string_def)
  qed (simp add: digit_string_def)
  then show "digit_string large base num \<noteq> []" .
  show "0 \<notin> set (digit_string large base num)" and "hd (digit_string large base num) \<noteq> 0x2d"
    using digit_string_chars [OF assms] hd_in_set [OF ne] by auto
qed

lemma num_digits_length:
  assumes "2 \<le> base" and "n < base ^ k"
  shows "length (num_digits base n) \<le> k"
  using assms(2)
proof (induction k arbitrary: n)
  case 0
  then show ?case by (subst num_digits.simps) simp
next
  case (Suc k)
  have "n div base < base ^ k"
    using Suc.prems assms(1) by (simp add: div_less_iff_less_mult mult.commute)
  then show ?case
    using Suc.IH [of "n div base"] by (subst num_digits.simps) simp
qed

lemma digit_string_length:
  assumes "2 \<le> base" and "unat num < base ^ k" and "0 < k"
  shows "length (digit_string large base num) \<le> k"
  using num_digits_length [OF assms(1,2)] assms(3) by (simp add: digit_string_def)

lemma unat_u32_less: "unat (num :: u32) < 2 ^ 32"
  using unsigned_less [of num, where ?'a = nat] by simp

lemma digit_string_le_32:
  assumes "2 \<le> base"
  shows "length (digit_string large base num) \<le> 32"
proof -
  have "unat num < base ^ 32"
    using unat_u32_less [of num] power_mono [OF assms, of 32] by simp
  then show ?thesis by (intro digit_string_length [OF assms]) simp_all
qed

lemma sprintf_conversion:
  assumes "conversion m fmt args [] = Some (out, [], [], [])" and "length out < 2 ^ 32" and "0 \<notin> set out"
  shows "\<exists>m'. sprintf m buf (0x25 # fmt) args = Some (of_nat (length out), m') \<and> str_at m' buf out"
  using assms str_at_overwrite [of out m buf] by (simp add: sprintf_def vsprintf_def)

lemma conversion_int:
  assumes "conv_base c 0 = Some (base, flags)" and "c \<noteq> 0x63" and "c \<noteq> 0x73"
  shows "conversion m [c] [x] out = do { s \<leftarrow> number x base (- 1) (- 1) flags; Some (s, [], [], []) }"
proof -
  have "c \<in> {0x6f, 0x58, 0x78, 0x64, 0x69, 0x75}"
    using assms(1) by (auto simp: conv_base_def split: if_splits)
  then show ?thesis
    using assms(1) by (auto simp: conversion_def fmt_width_def fmt_precision_def fmt_qualifier_def conv_base_def
        conv_num_def Let_def)
qed

text \<open>Eight hexadecimal digits with leading zeros, as every address and memory word is printed.\<close>

lemma number_hex8:
  "number num 16 8 (- 1) ZEROPAD =
    Some (replicate (8 - length (digit_string False 16 num)) 0x30 @ digit_string False 16 num)"
proof -
  have t: "flag_set ZEROPAD ZEROPAD" "\<not> flag_set ZEROPAD SIGN" "\<not> flag_set ZEROPAD LARGE" "\<not> flag_set ZEROPAD LEFT"
    "\<not> flag_set ZEROPAD SPECIAL" "flag_set ZEROPAD (ZEROPAD + LEFT)"
    by (simp_all add: SIGN_def LARGE_def LEFT_def SPECIAL_def ZEROPAD_def)
  have b: "\<not> (16 :: u32) < 2 \<and> \<not> (16 :: u32) > 36" by simp
  have n: "nat (8 - int k) = 8 - k" for k by simp
  show ?thesis
    unfolding number_def Let_def using t b
    by (auto simp: pad_loop_def digit_string_def n not_less)
qed

lemma strtoul_leading_zeros:
  assumes "str_at m cp (replicate z 0x30 @ digit_string large 16 num)"
  shows "simple_strtoul m cp 16 = Some (num, cp + of_nat (z + length (digit_string large 16 num)))"
proof (cases z)
  case 0
  then show ?thesis
    using assms simple_strtoul_digit_string [of 16 m cp large num] by simp
next
  case (Suc k)
  let ?ds = "digit_string large 16 num"
  let ?cs = "replicate k 0x30 @ ?ds"
  have cs: "str_at m (cp + 1) ?cs" and z: "m cp = 0x30"
    using assms Suc by simp_all
  have dig: "c = 0x30 \<or> c \<in> set ?ds" if "c \<in> set ?cs" for c using that by auto
  have zero: "isxdigit 0x30" "digit_value 0x30 = 0" "(0x30 :: u8) \<noteq> 0x78"
    using digit_char_props [of 0 False] by (simp_all add: digit_char_def)
  have ok: "\<forall>c\<in>set ?cs. isxdigit c \<and> digit_value c < 16"
    using digit_string_chars [of 16 _ large num] zero by auto
  have "m (cp + 1) \<noteq> 0x78"
  proof -
    have "?cs \<noteq> []" using digit_string_props(2) [of 16 large num] by simp
    then have "m (cp + 1) = hd ?cs" "hd ?cs \<in> set ?cs"
      using cs by (cases ?cs; simp)+
    moreover have "\<not> isxdigit 0x78" by (simp add: isxdigit_iff)
    ultimately show ?thesis using ok by auto
  qed
  then have "simple_strtoul m cp 16 = strtoul_loop m (cp + 1) 16 0"
    using z by (simp add: simple_strtoul_def Let_def)
  also have "\<dots> = Some (foldl (\<lambda>r c. r * 16 + digit_value c) 0 ?cs, cp + 1 + of_nat (length ?cs))"
    using cs ok by (intro strtoul_loop_eq) (auto simp: str_at_iff not_isxdigit_0)
  also have "foldl (\<lambda>r c. r * 16 + digit_value c) 0 ?cs = foldl (\<lambda>r c. r * 16 + digit_value c) 0 ?ds"
    using zero by (induction k) simp_all
  also have "\<dots> = num"
    using digit_string_value [of 16 large "unat num"] zero by (simp add: digit_string_def)
  finally show ?thesis using Suc by (simp add: ac_simps)
qed

section \<open>Properties\<close>

text \<open>
  C25: a 32-bit number printed with \<open>sprintf(buf, "%d", x)\<close> is read back by \<open>simple_strtol\<close> in base 10,
  the most negative number included; the whole output is consumed and its length is the result of
  \<open>sprintf\<close>.
\<close>

theorem sprintf_strtol_roundtrip:
  "\<exists>n m'. sprintf m buf [0x25, 0x64] [x] = Some (n, m') \<and> simple_strtol m' buf 10 = Some (x, buf + n)"
proof -
  define neg where "neg \<longleftrightarrow> sint x < 0"
  define y where "y = (if neg then - x else x)"
  let ?ds = "digit_string False 10 y"
  let ?out = "(if neg then [0x2d] else []) @ ?ds"
  have "number x 10 (- 1) (- 1) SIGN = Some ?out"
    using number_plain [of 10 SIGN True False x] by (simp add: neg_def y_def SIGN_def)
  then have "conversion m [0x64] [x] [] = Some (?out, [], [], [])"
    by (subst conversion_int [where base = 10 and flags = SIGN]) (simp_all add: conv_base_def)
  moreover have "length ?ds \<le> 32" by (rule digit_string_le_32) simp
  then have "length ?out < 2 ^ 32" by (cases neg) simp_all
  moreover note props = digit_string_props [of 10 False y]
  then have "0 \<notin> set ?out" by simp
  ultimately obtain m' where m': "sprintf m buf [0x25, 0x64] [x] = Some (of_nat (length ?out), m')"
    "str_at m' buf ?out"
    using sprintf_conversion [of m "[0x64]" "[x]" ?out buf] by blast
  have "simple_strtol m' buf 10 = Some (x, buf + of_nat (length ?out))"
  proof (cases neg)
    case True
    then have "str_at m' (buf + 1) ?ds" "m' buf = 0x2d" using m'(2) by simp_all
    then show ?thesis
      using simple_strtoul_digit_string [of 10 m' "buf + 1" False y] True
      by (simp add: simple_strtol_def y_def add.assoc)
  next
    case False
    then have "str_at m' buf ?ds" using m'(2) by simp
    moreover from this have "m' buf \<noteq> 0x2d"
      using props by (cases ?ds) auto
    ultimately show ?thesis
      using simple_strtoul_digit_string [of 10 m' buf False y] False
      by (simp add: simple_strtol_def y_def)
  qed
  with m'(1) show ?thesis by blast
qed

text \<open>
  \<open>sprintf(buf, "%08x", x)\<close> stores exactly eight characters for every 32-bit number, and
  \<open>simple_strtoul\<close> in base 16 reads the number back.
\<close>

lemma sprintf_hex_roundtrip:
  "\<exists>m'. sprintf m buf [0x25, 0x30, 0x38, 0x78] [x] = Some (8, m') \<and>
    simple_strtoul m' buf 16 = Some (x, buf + 8)"
proof -
  let ?ds = "digit_string False 16 x"
  let ?out = "replicate (8 - length ?ds) 0x30 @ ?ds"
  have "unat x < 16 ^ 8" using unat_u32_less [of x] by simp
  then have len: "length ?ds \<le> 8" by (intro digit_string_length) simp_all
  have "conversion m [0x30, 0x38, 0x78] [x] [] = Some (?out, [], [], [])"
    using number_hex8 [of x]
    by (simp add: conversion_def fmt_width_def fmt_precision_def fmt_qualifier_def conv_base_def conv_num_def
        Let_def ZEROPAD_def)
  then obtain m' where m': "sprintf m buf [0x25, 0x30, 0x38, 0x78] [x] = Some (of_nat (length ?out), m')"
    "str_at m' buf ?out"
    using sprintf_conversion [of m "[0x30, 0x38, 0x78]" "[x]" ?out buf] digit_string_props [of 16 False x] len by auto
  then show ?thesis
    using strtoul_leading_zeros [OF m'(2)] len by auto
qed

end
