(* ===== verification/S_Record.thy ===== *)
theory S_Record
  imports Prelude
begin

text \<open>
  The S-record decoder of \<^verbatim>\<open>common/s_record.c\<close>, with which images are loaded over the serial line. A
  line is the list of its characters without the terminating zero; the decoder never reads past that
  zero, since it is not a hexadecimal digit. The specification is the record format described in
  \<^verbatim>\<open>include/s_record.h\<close>.
\<close>

section \<open>The code\<close>

definition SREC_START :: int where "SREC_START = 0"
definition SREC_DATA2 :: int where "SREC_DATA2 = 1"
definition SREC_DATA3 :: int where "SREC_DATA3 = 2"
definition SREC_DATA4 :: int where "SREC_DATA4 = 3"
definition SREC_COUNT :: int where "SREC_COUNT = 5"
definition SREC_END4 :: int where "SREC_END4 = 7"
definition SREC_END3 :: int where "SREC_END3 = 8"
definition SREC_END2 :: int where "SREC_END2 = 9"
definition SREC_EMPTY :: int where "SREC_EMPTY = 10"
definition SREC_E_BADTYPE :: int where "SREC_E_BADTYPE = - 1"
definition SREC_E_NOSREC :: int where "SREC_E_NOSREC = - 2"
definition SREC_E_BADCHKS :: int where "SREC_E_BADCHKS = - 3"

definition hex1_bin :: "u8 \<Rightarrow> int" where
  "hex1_bin c =
     (if 0x30 \<le> c \<and> c \<le> 0x39 then uint c - 0x30
      else if 0x61 \<le> c \<and> c \<le> 0x66 then uint c + 10 - 0x61
      else if 0x41 \<le> c \<and> c \<le> 0x46 then uint c + 10 - 0x41
      else - 1)"

text \<open>The character at the position reached; the terminating zero behind the last.\<close>

definition cur :: "u8 list \<Rightarrow> u8" where
  "cur s = (case s of [] \<Rightarrow> 0 | c # _ \<Rightarrow> c)"

definition hex2_bin :: "u8 list \<Rightarrow> int" where
  "hex2_bin s =
     (let i = hex1_bin (cur s)
      in if i < 0 then - 1
         else let j = hex1_bin (cur (tl s)) in if j < 0 then - 1 else i * 16 + j)"

text \<open>Everything up to and including the first \<open>'S'\<close> is skipped; the zero at which the loop stops is the end of the list.\<close>

fun skip_to_S :: "u8 list \<Rightarrow> u8 list" where
  "skip_to_S [] = []"
| "skip_to_S (c # s) = (if c = 0x53 then s else skip_to_S s)"

text \<open>Record type and the number of bytes subtracted from the count; \<open>None\<close> for an unknown type.\<close>

definition srec_kind :: "u8 \<Rightarrow> (int \<times> int option) option" where
  "srec_kind v =
     (if v = 0x30 then Some (SREC_START, Some 3)
      else if v = 0x31 then Some (SREC_DATA2, Some 3)
      else if v = 0x32 then Some (SREC_DATA3, Some 4)
      else if v = 0x33 then Some (SREC_DATA4, Some 5)
      else if v = 0x35 then Some (SREC_COUNT, None)
      else if v = 0x37 then Some (SREC_END4, Some 5)
      else if v = 0x38 then Some (SREC_END3, Some 4)
      else if v = 0x39 then Some (SREC_END2, Some 3)
      else None)"

definition srec_addr_bytes :: "u8 \<Rightarrow> nat" where
  "srec_addr_bytes v = (if v = 0x33 \<or> v = 0x37 then 4 else if v = 0x32 \<or> v = 0x38 then 3 else 2)"

text \<open>The address field, most significant byte first: address, checksum and input; \<open>None\<close> on a bad digit.\<close>

fun srec_addr :: "nat \<Rightarrow> u32 \<Rightarrow> u8 \<Rightarrow> u8 list \<Rightarrow> (u32 \<times> u8 \<times> u8 list) option \<times> u32" where
  "srec_addr 0 addr chksum input = (Some (addr, chksum, input), addr)"
| "srec_addr (Suc n) addr chksum input =
     (let v = hex2_bin input
      in if v < 0 then (None, addr)
         else srec_addr n (push_bit 8 addr + word_of_int v) (chksum + word_of_int v) (drop 2 input))"

fun srec_data :: "nat \<Rightarrow> u8 \<Rightarrow> u8 list \<Rightarrow> u8 list \<Rightarrow> (u8 \<times> u8 list) option \<times> u8 list" where
  "srec_data 0 chksum input data = (Some (chksum, input), data)"
| "srec_data (Suc n) chksum input data =
     (let v = hex2_bin input
      in if v < 0 then (None, data)
         else srec_data n (chksum + word_of_int v) (drop 2 input) (data @ [word_of_int v]))"

text \<open>
  The result, and what is stored through \<open>count\<close>, \<open>addr\<close> and \<open>data\<close>; the first two keep their old
  values when the function returns before storing them.
\<close>

definition srec_decode :: "u8 list \<Rightarrow> int \<Rightarrow> u32 \<Rightarrow> int \<times> int \<times> u32 \<times> u8 list" where
  "srec_decode line count0 addr0 =
     (let input = skip_to_S line
      in if cur input = 0 then (SREC_EMPTY, count0, addr0, [])
         else
           let v = cur input;
               input = tl input;
               count = hex2_bin input
           in if count < 0 then (SREC_E_NOSREC, count, addr0, [])
              else
                let chksum = word_of_int count;
                    input = drop 2 input
                in case srec_kind v of
                     None \<Rightarrow> (SREC_E_BADTYPE, count, addr0, [])
                   | Some (srec_type, sub) \<Rightarrow>
                       let count = (case sub of None \<Rightarrow> 0 | Some k \<Rightarrow> count - k)
                       in case srec_addr (srec_addr_bytes v) 0 chksum input of
                            (None, addr) \<Rightarrow> (SREC_E_NOSREC, count, addr, [])
                          | (Some (addr, chksum, input), _) \<Rightarrow>
                              case srec_data (nat count) chksum input [] of
                                (None, data) \<Rightarrow> (SREC_E_NOSREC, count, addr, data)
                              | (Some (chksum, input), data) \<Rightarrow>
                                  let v = hex2_bin input
                                  in if v < 0 then (SREC_E_NOSREC, count, addr, data)
                                     else if (word_of_int v :: u8) \<noteq> NOT chksum
                                     then (SREC_E_BADCHKS, count, addr, data)
                                     else (srec_type, count, addr, data))"

section \<open>The record format\<close>

definition hex_char :: "u8 \<Rightarrow> u8" where
  "hex_char n = (if n < 10 then 0x30 + n else 0x41 + (n - 10))"

definition hex_byte :: "u8 \<Rightarrow> u8 list" where
  "hex_byte b = [hex_char (drop_bit 4 b), hex_char (b AND 0xf)]"

definition hex_bytes :: "u8 list \<Rightarrow> u8 list" where
  "hex_bytes bs = concat (map hex_byte bs)"

text \<open>The number that a sequence of bytes stands for, most significant byte first.\<close>

definition be_value :: "u8 list \<Rightarrow> nat" where
  "be_value bs = foldl (\<lambda>n b. 256 * n + unat b) 0 bs"

text \<open>
  The bytes of a data record in front of its checksum: the length counts address, data and checksum.
\<close>

definition srec_body :: "u8 list \<Rightarrow> u8 list \<Rightarrow> u8 list" where
  "srec_body abytes data = of_nat (length abytes + length data + 1) # abytes @ data"

text \<open>A data record line with the checksum byte \<open>k\<close>; the types S1, S2, S3 have 2, 3, 4 address bytes.\<close>

definition srec_line :: "u8 list \<Rightarrow> u8 list \<Rightarrow> u8 \<Rightarrow> u8 list" where
  "srec_line abytes data k = 0x53 # of_nat (0x2f + length abytes) # hex_bytes (srec_body abytes data @ [k])"

section \<open>Reading bytes\<close>

lemma hex1_bin_nibble:
  assumes "unat n < 16"
  shows "hex1_bin (hex_char n) = int (unat n)"
proof -
  define k where "k = unat n"
  define d where "d = (if k < 10 then 0x30 + k else 0x41 + (k - 10))"
  have k: "n = of_nat k" "k < 16" using assms by (simp_all add: k_def)
  have d: "d < 256" using k(2) by (simp add: d_def)
  have "unat (of_nat k :: u8) = k" using k(2) by (simp add: unat_of_nat)
  then have c: "hex_char n = of_nat d"
    using k by (auto simp: hex_char_def d_def word_less_nat_alt of_nat_diff)
  have u: "unat (of_nat d :: u8) = d" "uint (of_nat d :: u8) = int d"
    using d by (simp_all add: unat_of_nat uint_nat)
  show ?thesis
    unfolding hex1_bin_def c word_le_nat_alt u k_def [symmetric] using k(2) by (auto simp: d_def)
qed

lemma unat_low_nibble: "unat (b AND 0xf :: u8) = unat b mod 16"
proof -
  have "(0xf :: u8) = mask 4" by (simp add: mask_eq_exp_minus_1)
  then have "b AND 0xf = take_bit 4 b" by (simp only: take_bit_eq_mask)
  then have "unat (b AND 0xf) = take_bit 4 (unat b)"
    by (simp only: unsigned_take_bit_eq)
  then show ?thesis by (simp add: take_bit_eq_mod)
qed

lemma unat_high_nibble: "unat (drop_bit 4 b :: u8) = unat b div 16"
proof -
  have "unat (drop_bit 4 b) = drop_bit 4 (take_bit LENGTH(8) (unat b))"
    by (rule unsigned_drop_bit_eq)
  also have "take_bit LENGTH(8) (unat b) = unat b"
    by (simp add: take_bit_nat_eq_self_iff unsigned_less [of b, where ?'a = nat, simplified])
  finally show ?thesis by (simp add: drop_bit_eq_div)
qed

lemma hex2_bin_byte [simp]: "hex2_bin (hex_byte b @ rest) = uint b"
proof -
  have "unat b < 256" using unsigned_less [of b, where ?'a = nat] by simp
  then have nib: "unat (drop_bit 4 b) < 16" "unat (b AND 0xf) < 16"
    unfolding unat_high_nibble unat_low_nibble by (simp_all add: less_mult_imp_div_less)
  have "hex2_bin (hex_byte b @ rest) = int (unat (drop_bit 4 b)) * 16 + int (unat (b AND 0xf))"
    unfolding hex2_bin_def hex_byte_def cur_def append_Cons list.case list.sel
      hex1_bin_nibble [OF nib(1)] hex1_bin_nibble [OF nib(2)] Let_def by simp
  also have "\<dots> = int (unat b div 16 * 16 + unat b mod 16)"
    unfolding unat_high_nibble unat_low_nibble by (simp only: of_nat_add of_nat_mult of_nat_numeral)
  also have "\<dots> = uint b" by (simp only: div_mult_mod_eq uint_nat)
  finally show ?thesis .
qed

lemma length_hex_byte [simp]: "length (hex_byte b) = 2"
  by (simp add: hex_byte_def)

lemma drop_hex_byte [simp]: "drop 2 (hex_byte b @ rest) = rest"
  by (simp add: hex_byte_def numeral_eq_Suc)

lemma hex_bytes_Cons [simp]: "hex_bytes (b # bs) = hex_byte b @ hex_bytes bs"
  by (simp add: hex_bytes_def)

lemma hex_bytes_Nil [simp]: "hex_bytes [] = []"
  by (simp add: hex_bytes_def)

lemma hex_bytes_append [simp]: "hex_bytes (xs @ ys) = hex_bytes xs @ hex_bytes ys"
  by (simp add: hex_bytes_def)

lemma srec_addr_bytes_read:
  "srec_addr (length bs) addr chksum (hex_bytes bs @ rest) =
    (Some (foldl (\<lambda>a b. push_bit 8 a + ucast b) addr bs, chksum + sum_list bs, rest),
     foldl (\<lambda>a b. push_bit 8 a + ucast b) addr bs)"
  by (induction bs arbitrary: addr chksum) (simp_all add: Let_def add.assoc)

lemma srec_data_read:
  "srec_data (length bs) chksum (hex_bytes bs @ rest) data = (Some (chksum + sum_list bs, rest), data @ bs)"
  by (induction bs arbitrary: chksum data) (simp_all add: Let_def add.assoc)

lemma be_value_word:
  "foldl (\<lambda>a b. push_bit 8 a + ucast b) (of_nat n) bs = (of_nat (foldl (\<lambda>n b. 256 * n + unat b) n bs) :: u32)"
proof (induction bs arbitrary: n)
  case (Cons b bs)
  have "push_bit 8 (of_nat n) + ucast b = (of_nat (256 * n + unat b) :: u32)"
    by (simp add: push_bit_eq_mult)
  with Cons [of "256 * n + unat b"] show ?case by simp
qed simp

lemma srec_addr_be_value:
  "srec_addr (length bs) 0 chksum (hex_bytes bs @ rest) =
    (Some (of_nat (be_value bs), chksum + sum_list bs, rest), of_nat (be_value bs))"
  using srec_addr_bytes_read [of bs 0 chksum rest] be_value_word [of 0 bs] by (simp add: be_value_def)

text \<open>Decoding once the record type is known.\<close>

lemma srec_decode_fields:
  assumes skip: "skip_to_S line = v # hex_byte n @ hex_bytes abytes @ hex_bytes data @ hex_byte k"
    and "v \<noteq> 0" and kind: "srec_kind v = Some (ty, Some (int (length abytes) + 1))"
    and width: "srec_addr_bytes v = length abytes"
    and n: "uint n = int (length abytes) + int (length data) + 1"
  shows "srec_decode line count0 addr0 =
    (if k = NOT (n + sum_list abytes + sum_list data) then ty else SREC_E_BADCHKS,
     int (length data), of_nat (be_value abytes), data)"
proof -
  have "hex2_bin (hex_byte n @ hex_bytes abytes @ hex_bytes data @ hex_byte k) = uint n" by (rule hex2_bin_byte)
  moreover have "nat (uint n - (int (length abytes) + 1)) = length data" by (simp add: n)
  moreover have "uint n - (int (length abytes) + 1) = int (length data)" by (simp add: n)
  moreover have "hex2_bin (hex_byte k) = uint k" using hex2_bin_byte [of k "[]"] by simp
  ultimately show ?thesis
    by (simp add: srec_decode_def skip \<open>v \<noteq> 0\<close> cur_def kind width srec_addr_be_value srec_data_read
        del: wi_hom_syms)
qed

lemma skip_to_S_line:
  assumes "0x53 \<notin> set junk"
  shows "skip_to_S (junk @ 0x53 # rest) = rest"
  using assms by (induction junk) auto

lemma srec_kind_data:
  assumes "w = 2 \<or> w = 3 \<or> w = 4"
  shows "srec_kind (of_nat (0x2f + w)) = Some (int w - 1, Some (int w + 1))"
    and "srec_addr_bytes (of_nat (0x2f + w)) = w" and "(of_nat (0x2f + w) :: u8) \<noteq> 0"
  using assms by (auto simp: srec_kind_def srec_addr_bytes_def SREC_DATA2_def SREC_DATA3_def SREC_DATA4_def)

lemma srec_decode_line:
  assumes w: "length abytes = 2 \<or> length abytes = 3 \<or> length abytes = 4"
    and len: "length abytes + length data + 1 < 256" and junk: "0x53 \<notin> set junk"
  shows "srec_decode (junk @ srec_line abytes data k) count0 addr0 =
    (if k = NOT (sum_list (srec_body abytes data)) then int (length abytes) - 1 else SREC_E_BADCHKS,
     int (length data), of_nat (be_value abytes), data)"
proof -
  define n :: u8 where "n = of_nat (length abytes + length data + 1)"
  have un: "uint n = int (length abytes) + int (length data) + 1"
    using len by (simp add: n_def uint_nat unat_of_nat del: of_nat_add of_nat_Suc)
  have "skip_to_S (junk @ srec_line abytes data k) =
      of_nat (0x2f + length abytes) # hex_byte n @ hex_bytes abytes @ hex_bytes data @ hex_byte k"
    unfolding srec_line_def skip_to_S_line [OF junk] srec_body_def n_def by simp
  note srec_decode_fields [OF this srec_kind_data(3,1,2) [OF w] un]
  moreover have "sum_list (srec_body abytes data) = n + sum_list abytes + sum_list data"
    by (simp add: srec_body_def n_def add.assoc)
  ultimately show ?thesis by (simp only:)
qed

section \<open>Properties\<close>

text \<open>
  C31: a data record written in the format of the documentation, with a 2, 3 or 4 byte address and at
  most 250 data bytes, is decoded to its type, address and data whatever precedes the \<open>S\<close>; with any
  other checksum byte than the right one the result is the checksum error.
\<close>

theorem srec_decode_correct:
  assumes "length abytes \<in> {2, 3, 4}" and "length data \<le> 250" and "0x53 \<notin> set junk"
  shows "srec_decode (junk @ srec_line abytes data k) count0 addr0 =
    (if k = NOT (sum_list (srec_body abytes data)) then int (length abytes) - 1 else SREC_E_BADCHKS,
     int (length data), of_nat (be_value abytes), data)"
  using assms by (intro srec_decode_line) auto

theorem srec_decode_correct_witness:
  "srec_decode ([0x0a] @ srec_line [0x12, 0x34] [0xab, 0xcd] 0x3c) 0 0 =
    (if 0x3c = NOT (sum_list (srec_body [0x12, 0x34] [0xab, 0xcd])) then int (length [0x12, 0x34 :: u8]) - 1
     else SREC_E_BADCHKS,
     int (length [0xab, 0xcd :: u8]), of_nat (be_value [0x12, 0x34]), [0xab, 0xcd])"
  by (rule srec_decode_correct) simp_all

end
