(* ===== verification/Circbuf.thy ===== *)
theory Circbuf
  imports C_Memory
begin

text \<open>
  The circular buffer of \<^verbatim>\<open>common/circbuf.c\<close>, which the USB serial console uses between its interrupt
  handler and the readers. The buffer lies in memory; its record holds the pointers into it. Pushing
  into a full buffer replaces the oldest bytes. The theory states what a bounded first-in first-out
  buffer promises as a locale over single bytes, derives there what the loops over many bytes do, and
  interprets it on the model. The assertions of the source are empty macros in this configuration.
\<close>

section \<open>The code\<close>

record circbuf =
  cb_size :: u32
  cb_totalsize :: u32
  cb_top :: addr
  cb_tail :: addr
  cb_data :: addr
  cb_end :: addr

text \<open>The allocator is a parameter: \<open>malloc n\<close> is the address it returns.\<close>

definition buf_init :: "(u32 \<Rightarrow> addr) \<Rightarrow> u32 \<Rightarrow> int \<times> circbuf" where
  "buf_init malloc sz =
     (let d = malloc sz
      in (1, \<lparr>cb_size = 0, cb_totalsize = sz, cb_top = d, cb_tail = d, cb_data = d, cb_end = d + sz\<rparr>))"

text \<open>The address handed to \<open>free\<close>, and the cleared record.\<close>

definition buf_free :: "circbuf \<Rightarrow> int \<times> addr \<times> circbuf" where
  "buf_free buf =
     (1, cb_data buf, \<lparr>cb_size = 0, cb_totalsize = 0, cb_top = 0, cb_tail = 0, cb_data = 0, cb_end = 0\<rparr>)"

text \<open>\<open>p++\<close> followed by the bounds check.\<close>

definition advance :: "circbuf \<Rightarrow> addr \<Rightarrow> addr" where
  "advance buf p = (if p + 1 = cb_end buf then cb_data buf else p + 1)"

fun pop_loop :: "circbuf \<Rightarrow> mem \<Rightarrow> addr \<Rightarrow> addr \<Rightarrow> nat \<Rightarrow> mem \<times> addr" where
  "pop_loop buf m p dest 0 = (m, p)"
| "pop_loop buf m p dest (Suc n) = pop_loop buf (m(dest := m p)) (advance buf p) (dest + 1) n"

definition buf_pop :: "mem \<Rightarrow> circbuf \<Rightarrow> addr \<Rightarrow> u32 \<Rightarrow> int \<times> mem \<times> circbuf" where
  "buf_pop m buf dest len =
     (let len = (if cb_size buf < len then cb_size buf else len);
          (m', p) = pop_loop buf m (cb_top buf) dest (unat len)
      in (sint len, m', buf\<lparr>cb_top := p, cb_size := cb_size buf - len\<rparr>))"

text \<open>The part of the loop that keeps the count, or drops the oldest byte.\<close>

definition count_up :: "circbuf \<Rightarrow> circbuf" where
  "count_up buf =
     (if cb_size buf < cb_totalsize buf then buf\<lparr>cb_size := cb_size buf + 1\<rparr>
      else buf\<lparr>cb_top := advance buf (cb_top buf)\<rparr>)"

fun push_loop :: "mem \<Rightarrow> circbuf \<Rightarrow> addr \<Rightarrow> addr \<Rightarrow> nat \<Rightarrow> mem \<times> circbuf \<times> addr" where
  "push_loop m buf p src 0 = (m, buf, p)"
| "push_loop m buf p src (Suc n) = push_loop (m(p := m src)) (count_up buf) (advance buf p) (src + 1) n"

definition buf_push :: "mem \<Rightarrow> circbuf \<Rightarrow> addr \<Rightarrow> u32 \<Rightarrow> int \<times> mem \<times> circbuf" where
  "buf_push m buf src len =
     (let (m', buf', p) = push_loop m buf (cb_tail buf) src (unat len)
      in (sint len, m', buf'\<lparr>cb_tail := p\<rparr>))"

section \<open>Bounded first-in first-out buffers\<close>

text \<open>The newest \<open>cap\<close> elements.\<close>

definition newest :: "nat \<Rightarrow> 'a list \<Rightarrow> 'a list" where
  "newest cap xs = drop (length xs - cap) xs"

lemma newest_fits [simp]: "length xs \<le> cap \<Longrightarrow> newest cap xs = xs"
  by (simp add: newest_def)

lemma length_newest: "length (newest cap xs) = min cap (length xs)"
  by (simp add: newest_def)

lemma newest_append: "newest cap (newest cap xs @ ys) = newest cap (xs @ ys)"
  by (cases "length xs \<le> cap") (auto simp: newest_def add.commute)

locale bounded_fifo =
  fixes ok :: "'s \<Rightarrow> bool" and cap :: "'s \<Rightarrow> nat" and contents :: "'s \<Rightarrow> 'a list"
    and put :: "'s \<Rightarrow> 'a \<Rightarrow> 's" and front :: "'s \<Rightarrow> 'a" and remove :: "'s \<Rightarrow> 's"
  assumes ok_put: "ok s \<Longrightarrow> ok (put s x)"
    and cap_put: "ok s \<Longrightarrow> cap (put s x) = cap s"
    and contents_put: "ok s \<Longrightarrow> contents (put s x) = newest (cap s) (contents s @ [x])"
    and ok_remove: "ok s \<Longrightarrow> contents s \<noteq> [] \<Longrightarrow> ok (remove s)"
    and contents_front: "ok s \<Longrightarrow> contents s \<noteq> [] \<Longrightarrow> contents s = front s # contents (remove s)"
    and bounded: "ok s \<Longrightarrow> length (contents s) \<le> cap s"
begin

lemma fold_put:
  assumes "ok s"
  shows "ok (foldl put s xs) \<and> cap (foldl put s xs) = cap s \<and>
    contents (foldl put s xs) = newest (cap s) (contents s @ xs)"
  using assms
proof (induction xs arbitrary: s)
  case Nil
  then show ?case by (simp add: bounded)
next
  case (Cons x xs)
  have "newest (cap s) (contents (put s x) @ xs) = newest (cap s) (contents s @ x # xs)"
    using newest_append [of "cap s" "contents s @ [x]" xs] Cons.prems by (simp add: contents_put)
  with Cons.IH [OF ok_put [OF Cons.prems]] Cons.prems show ?case
    by (simp add: cap_put)
qed

lemma remove_many:
  assumes "ok s" and "n \<le> length (contents s)"
  shows "ok ((remove ^^ n) s) \<and> contents ((remove ^^ n) s) = drop n (contents s)"
  using assms(2)
proof (induction n)
  case 0
  then show ?case using assms(1) by simp
next
  case (Suc n)
  then have IH: "ok ((remove ^^ n) s)" "contents ((remove ^^ n) s) = drop n (contents s)" by auto
  then have "contents ((remove ^^ n) s) \<noteq> []" using Suc.prems by simp
  from ok_remove [OF IH(1) this] contents_front [OF IH(1) this] show ?case
    by (simp add: IH(2) drop_Suc drop_tl)
qed

lemma front_many:
  assumes "ok s" and "i < length (contents s)"
  shows "front ((remove ^^ i) s) = contents s ! i"
proof -
  have r: "ok ((remove ^^ i) s)" "contents ((remove ^^ i) s) = drop i (contents s)"
    using remove_many [of s i] assms by auto
  then have "contents ((remove ^^ i) s) \<noteq> []" using assms(2) by simp
  from contents_front [OF r(1) this] show ?thesis
    using assms(2) r(2) by (metis hd_drop_conv_nth list.sel(1))
qed

end

section \<open>The model as a bounded buffer\<close>

text \<open>
  The record describes a ring: the block of \<open>totalsize\<close> bytes at \<open>data\<close>, with the oldest byte at
  offset \<open>t\<close> and the space for the next one \<open>size\<close> bytes further.
\<close>

definition pos :: "circbuf \<Rightarrow> nat \<Rightarrow> addr" where
  "pos buf i = cb_data buf + of_nat (i mod unat (cb_totalsize buf))"

definition first_off :: "circbuf \<Rightarrow> nat" where
  "first_off buf = offset (cb_data buf) (cb_top buf)"

definition buf_ok :: "circbuf \<Rightarrow> bool" where
  "buf_ok buf \<longleftrightarrow>
     0 < cb_totalsize buf \<and> cb_size buf \<le> cb_totalsize buf \<and>
     cb_end buf = cb_data buf + cb_totalsize buf \<and>
     first_off buf < unat (cb_totalsize buf) \<and>
     cb_tail buf = pos buf (first_off buf + unat (cb_size buf))"

definition buf_area :: "circbuf \<Rightarrow> addr set" where
  "buf_area buf = area (cb_data buf) (unat (cb_totalsize buf))"

definition buf_contents :: "mem \<Rightarrow> circbuf \<Rightarrow> u8 list" where
  "buf_contents m buf = map (\<lambda>i. m (pos buf (first_off buf + i))) [0..<unat (cb_size buf)]"

text \<open>One turn of each loop, with the moving pointer kept in the record.\<close>

definition put_byte :: "mem \<times> circbuf \<Rightarrow> u8 \<Rightarrow> mem \<times> circbuf" where
  "put_byte s x =
     (let (m, buf) = s
      in (m(cb_tail buf := x), (count_up buf)\<lparr>cb_tail := advance buf (cb_tail buf)\<rparr>))"

definition front_byte :: "mem \<times> circbuf \<Rightarrow> u8" where
  "front_byte s = (case s of (m, buf) \<Rightarrow> m (cb_top buf))"

definition remove_byte :: "mem \<times> circbuf \<Rightarrow> mem \<times> circbuf" where
  "remove_byte s =
     (case s of (m, buf) \<Rightarrow> (m, buf\<lparr>cb_top := advance buf (cb_top buf), cb_size := cb_size buf - 1\<rparr>))"

lemma total_less: "unat (cb_totalsize buf) < 2 ^ 32"
  using unsigned_less [of "cb_totalsize buf", where ?'a = nat] by simp

lemma offset_pos [simp]:
  "0 < cb_totalsize buf \<Longrightarrow> offset (cb_data buf) (pos buf i) = i mod unat (cb_totalsize buf)"
proof -
  assume "0 < cb_totalsize buf"
  then have "i mod unat (cb_totalsize buf) < unat (cb_totalsize buf)" by (simp add: word_less_nat_alt)
  then have "i mod unat (cb_totalsize buf) < 2 ^ 32" using total_less [of buf] by (rule order_less_trans)
  then show ?thesis unfolding pos_def by (rule offset_plus)
qed

lemma pos_inj:
  "0 < cb_totalsize buf \<Longrightarrow>
    pos buf i = pos buf j \<longleftrightarrow> i mod unat (cb_totalsize buf) = j mod unat (cb_totalsize buf)"
  by (metis offset_pos pos_def)

lemma ring_mod_neq:
  assumes "i < n" and "n < (t :: nat)"
  shows "(f + i) mod t \<noteq> (f + n) mod t"
proof
  assume "(f + i) mod t = (f + n) mod t"
  then have "t dvd (f + n) - (f + i)" using assms(1) by (metis mod_eq_dvd_iff_nat add_le_cancel_left less_imp_le)
  then show False using assms by (auto dest: dvd_imp_le)
qed

lemma top_pos: "buf_ok buf \<Longrightarrow> cb_top buf = pos buf (first_off buf)"
  by (simp add: buf_ok_def pos_def first_off_def)

lemma advance_pos:
  assumes "0 < cb_totalsize buf" and "cb_end buf = cb_data buf + cb_totalsize buf"
  shows "advance buf (pos buf i) = pos buf (Suc i)"
proof -
  let ?t = "unat (cb_totalsize buf)"
  have t: "0 < ?t" "(of_nat ?t :: u32) = cb_totalsize buf" using assms(1) by (simp_all add: word_less_nat_alt)
  have less: "i mod ?t < ?t" using t(1) by simp
  have "pos buf i + 1 = cb_end buf \<longleftrightarrow> (of_nat (Suc (i mod ?t)) :: u32) = of_nat ?t"
    unfolding assms(2) pos_def t(2) by (simp add: add.assoc add.commute [of 1])
  also have "\<dots> \<longleftrightarrow> Suc (i mod ?t) = ?t"
    using less total_less [of buf] by (intro of_nat_eq32) simp_all
  finally have eq: "pos buf i + 1 = cb_end buf \<longleftrightarrow> Suc (i mod ?t) = ?t" .
  show ?thesis
  proof (cases "Suc (i mod ?t) = ?t")
    case True
    then have "Suc i mod ?t = 0" by (simp add: mod_Suc)
    with True eq show ?thesis by (simp add: advance_def pos_def)
  next
    case False
    then have "Suc i mod ?t = Suc (i mod ?t)" by (simp add: mod_Suc)
    with False eq show ?thesis by (simp add: advance_def pos_def ac_simps)
  qed
qed

text \<open>Both pointer moves in terms of offsets.\<close>

lemma advance_top:
  assumes "buf_ok buf"
  shows "advance buf (cb_top buf) = pos buf (Suc (first_off buf))"
  using assms by (simp add: top_pos advance_pos buf_ok_def)

lemma advance_tail:
  assumes "buf_ok buf"
  shows "advance buf (cb_tail buf) = pos buf (Suc (first_off buf + unat (cb_size buf)))"
proof -
  have "cb_tail buf = pos buf (first_off buf + unat (cb_size buf))" using assms by (simp add: buf_ok_def)
  then show ?thesis using assms by (simp only: advance_pos buf_ok_def)
qed

lemma pos_mod [simp]: "pos buf (i mod unat (cb_totalsize buf) + j) = pos buf (i + j)"
  by (simp add: pos_def mod_simps)

lemma pos_fields [simp]:
  "pos (buf\<lparr>cb_top := a\<rparr>) = pos buf" "pos (buf\<lparr>cb_tail := a\<rparr>) = pos buf" "pos (buf\<lparr>cb_size := k\<rparr>) = pos buf"
  by (simp_all add: fun_eq_iff pos_def)

lemma first_off_fields [simp]:
  "first_off (buf\<lparr>cb_tail := a\<rparr>) = first_off buf" "first_off (buf\<lparr>cb_size := k\<rparr>) = first_off buf"
  by (simp_all add: first_off_def)

lemma first_off_pos [simp]:
  "0 < cb_totalsize buf \<Longrightarrow> first_off (buf\<lparr>cb_top := pos buf i\<rparr>) = i mod unat (cb_totalsize buf)"
  by (simp add: first_off_def)

text \<open>A byte is put into a buffer with room, or into a full one.\<close>

lemma put_byte_room:
  assumes "buf_ok buf" and "cb_size buf < cb_totalsize buf"
  shows "buf_ok (snd (put_byte (m, buf) x))"
    and "buf_contents (fst (put_byte (m, buf) x)) (snd (put_byte (m, buf) x)) = buf_contents m buf @ [x]"
proof -
  let ?t = "unat (cb_totalsize buf)" and ?n = "unat (cb_size buf)" and ?f = "first_off buf"
  have sz: "unat (cb_size buf + 1) = Suc ?n"
    using assms(2) total_less [of buf] by (simp add: word_less_nat_alt unat_word_ariths)
  have ok: "0 < cb_totalsize buf" "cb_end buf = cb_data buf + cb_totalsize buf" "?f < ?t"
    "cb_tail buf = pos buf (?f + ?n)" using assms(1) by (simp_all add: buf_ok_def)
  have put: "put_byte (m, buf) x =
      (m(pos buf (?f + ?n) := x), buf\<lparr>cb_size := cb_size buf + 1, cb_tail := pos buf (Suc (?f + ?n))\<rparr>)"
    using assms by (simp add: put_byte_def count_up_def advance_tail ok(4) [symmetric])
  have le: "cb_size buf + 1 \<le> cb_totalsize buf"
    using assms(2) sz by (simp add: word_le_nat_alt word_less_nat_alt)
  show "buf_ok (snd (put_byte (m, buf) x))"
    unfolding put using ok le by (simp add: buf_ok_def sz)
  have "pos buf (?f + i) \<noteq> pos buf (?f + ?n)" if "i < ?n" for i
  proof -
    have "?n < ?t" using assms(2) by (simp add: word_less_nat_alt)
    with that have "(?f + i) mod ?t \<noteq> (?f + ?n) mod ?t" by (rule ring_mod_neq)
    then show ?thesis using ok(1) by (simp add: pos_inj)
  qed
  then show "buf_contents (fst (put_byte (m, buf) x)) (snd (put_byte (m, buf) x)) = buf_contents m buf @ [x]"
    unfolding put by (simp add: buf_contents_def sz)
qed

lemma put_byte_full:
  assumes "buf_ok buf" and "\<not> cb_size buf < cb_totalsize buf"
  shows "buf_ok (snd (put_byte (m, buf) x))"
    and "buf_contents (fst (put_byte (m, buf) x)) (snd (put_byte (m, buf) x)) = tl (buf_contents m buf @ [x])"
proof -
  let ?t = "unat (cb_totalsize buf)" and ?f = "first_off buf"
  have n: "cb_size buf = cb_totalsize buf" using assms by (simp add: buf_ok_def)
  have ok: "0 < cb_totalsize buf" "cb_end buf = cb_data buf + cb_totalsize buf" "?f < ?t"
    "cb_tail buf = pos buf (?f + ?t)" "0 < ?t"
    using assms(1) n by (simp_all add: buf_ok_def word_less_nat_alt)
  have put: "put_byte (m, buf) x =
      (m(pos buf (?f + ?t) := x), buf\<lparr>cb_top := pos buf (Suc ?f), cb_tail := pos buf (Suc (?f + ?t))\<rparr>)"
    using assms by (simp add: put_byte_def count_up_def advance_tail advance_top ok(4) [symmetric] n)
  show "buf_ok (snd (put_byte (m, buf) x))"
    unfolding put using ok by (simp add: buf_ok_def n first_off_def flip: add_Suc)
  obtain k where k: "?t = Suc k" using ok(5) by (cases ?t) auto
  have ne: "pos buf (Suc ?f + i) \<noteq> pos buf (?f + ?t)" if "i < k" for i
  proof -
    have "(?f + Suc i) mod ?t \<noteq> (?f + 0) mod ?t"
      using ring_mod_neq [of 0 "Suc i" ?t ?f] that k by (metis Suc_mono zero_less_Suc)
    then show ?thesis using ok(1) by (simp add: pos_inj)
  qed
  have "buf_contents (fst (put_byte (m, buf) x)) (snd (put_byte (m, buf) x)) =
      map (\<lambda>i. (m(pos buf (?f + ?t) := x)) (pos buf (Suc ?f + i))) [0..<Suc k]"
    unfolding put buf_contents_def by (simp add: ok(1) n k [symmetric] del: upt_Suc fun_upd_apply flip: add_Suc)
  also have "\<dots> = map (\<lambda>i. m (pos buf (?f + Suc i))) [0..<k] @ [x]"
    using ne by (simp add: k)
  also have "\<dots> = tl (buf_contents m buf @ [x])"
    unfolding buf_contents_def n k by (simp add: upt_conv_Cons map_Suc_upt [symmetric] del: upt_Suc)
  finally show "buf_contents (fst (put_byte (m, buf) x)) (snd (put_byte (m, buf) x)) = tl (buf_contents m buf @ [x])" .
qed

lemma put_byte_fields:
  "cb_totalsize (snd (put_byte s x)) = cb_totalsize (snd s)" "cb_data (snd (put_byte s x)) = cb_data (snd s)"
  by (simp_all add: put_byte_def count_up_def split: prod.split)

lemma length_buf_contents: "length (buf_contents m buf) = unat (cb_size buf)"
  by (simp add: buf_contents_def)

lemma buf_contents_remove:
  assumes "buf_ok buf" and "buf_contents m buf \<noteq> []"
  shows "buf_ok (snd (remove_byte (m, buf)))"
    and "buf_contents m buf = front_byte (m, buf) # buf_contents m (snd (remove_byte (m, buf)))"
proof -
  let ?t = "unat (cb_totalsize buf)" and ?f = "first_off buf"
  have ok: "0 < cb_totalsize buf" "cb_end buf = cb_data buf + cb_totalsize buf" "?f < ?t"
    "cb_size buf \<le> cb_totalsize buf" "cb_tail buf = pos buf (?f + unat (cb_size buf))"
    using assms(1) by (simp_all add: buf_ok_def)
  obtain k where k: "unat (cb_size buf) = Suc k"
    using assms(2) by (cases "unat (cb_size buf)") (simp_all add: buf_contents_def)
  then have "cb_size buf \<noteq> 0" by auto
  with k have k': "unat (cb_size buf - 1) = k" by (simp add: unat_minus_one)
  have le: "cb_size buf - 1 \<le> cb_totalsize buf"
    using ok(4) k k' by (simp add: word_le_nat_alt)
  have rem: "snd (remove_byte (m, buf)) = buf\<lparr>cb_top := pos buf (Suc ?f), cb_size := cb_size buf - 1\<rparr>"
    using advance_top [OF assms(1)] by (simp add: remove_byte_def)
  show "buf_ok (snd (remove_byte (m, buf)))"
    unfolding rem using ok le by (simp add: buf_ok_def k k' first_off_def flip: add_Suc) 
  show "buf_contents m buf = front_byte (m, buf) # buf_contents m (snd (remove_byte (m, buf)))"
    unfolding rem buf_contents_def
    by (simp add: ok(1) k k' front_byte_def top_pos [OF assms(1)] upt_conv_Cons map_Suc_upt [symmetric] del: upt_Suc
        flip: add_Suc)
qed

lemma tl_newest: "length xs = cap \<Longrightarrow> tl (xs @ [x]) = newest cap (xs @ [x])"
  by (cases xs) (auto simp: newest_def)

interpretation ring: bounded_fifo "\<lambda>s. buf_ok (snd s)" "\<lambda>s. unat (cb_totalsize (snd s))"
  "\<lambda>s. buf_contents (fst s) (snd s)" put_byte front_byte remove_byte
proof unfold_locales
  fix s :: "mem \<times> circbuf" and x assume ok: "buf_ok (snd s)"
  obtain m buf where s: "s = (m, buf)" by (cases s)
  show "buf_ok (snd (put_byte s x))"
    using put_byte_room(1) put_byte_full(1) ok unfolding s by (metis snd_conv)
  show "unat (cb_totalsize (snd (put_byte s x))) = unat (cb_totalsize (snd s))"
    by (simp add: put_byte_fields)
  show bound: "length (buf_contents (fst s) (snd s)) \<le> unat (cb_totalsize (snd s))"
    using ok by (simp add: length_buf_contents buf_ok_def word_le_nat_alt)
  show "buf_contents (fst (put_byte s x)) (snd (put_byte s x)) =
      newest (unat (cb_totalsize (snd s))) (buf_contents (fst s) (snd s) @ [x])"
  proof (cases "cb_size buf < cb_totalsize buf")
    case True
    with ok show ?thesis unfolding s
      by (simp add: put_byte_room(2) length_buf_contents word_less_nat_alt)
  next
    case False
    with bound have "length (buf_contents m buf) = unat (cb_totalsize buf)"
      by (simp add: s length_buf_contents word_less_nat_alt)
    from tl_newest [OF this] put_byte_full(2) [of buf m x] False ok show ?thesis by (simp add: s)
  qed
next
  fix s :: "mem \<times> circbuf" assume ok: "buf_ok (snd s)" and ne: "buf_contents (fst s) (snd s) \<noteq> []"
  obtain m buf where s: "s = (m, buf)" by (cases s)
  have "fst (remove_byte s) = m" by (simp add: s remove_byte_def)
  then show "buf_ok (snd (remove_byte s))"
    "buf_contents (fst s) (snd s) = front_byte s # buf_contents (fst (remove_byte s)) (snd (remove_byte s))"
    using buf_contents_remove [of buf m] ok ne by (simp_all add: s)
qed

section \<open>The loops\<close>

lemma pos_in_area: "0 < cb_totalsize buf \<Longrightarrow> pos buf i \<in> buf_area buf"
  by (simp add: buf_area_def area_def word_less_nat_alt)

lemma buf_area_fields [simp]:
  "buf_area (buf\<lparr>cb_tail := a\<rparr>) = buf_area buf" "buf_area (count_up buf) = buf_area buf"
  by (simp_all add: buf_area_def count_up_def)

lemma buf_area_put [simp]: "buf_area (snd (put_byte s x)) = buf_area (snd s)"
  by (simp add: buf_area_def put_byte_fields)

lemma put_many_frame:
  assumes "buf_ok (snd s)" and "a \<notin> buf_area (snd s)"
  shows "fst (foldl put_byte s xs) a = fst s a \<and> buf_area (snd (foldl put_byte s xs)) = buf_area (snd s)"
  using assms
proof (induction xs arbitrary: s)
  case (Cons x xs)
  obtain m buf where s: "s = (m, buf)" by (cases s)
  have "cb_tail buf \<in> buf_area buf" using Cons.prems(1) pos_in_area unfolding s buf_ok_def by simp
  then have "fst (put_byte s x) a = fst s a" using Cons.prems(2) by (auto simp: s put_byte_def)
  moreover have "buf_ok (snd (put_byte s x))" using Cons.prems(1) by (rule ring.ok_put)
  ultimately show ?case using Cons.IH [of "put_byte s x"] Cons.prems(2) by simp
qed simp

lemma area_Suc_disjoint:
  assumes "area p (Suc n) \<inter> A = {}" and "Suc n \<le> 2 ^ 32"
  shows "p \<notin> A" and "area (p + 1) n \<inter> A = {}"
proof -
  have "p \<in> area p (Suc n)" by (simp add: area_def)
  then show "p \<notin> A" using assms(1) by blast
  show "area (p + 1) n \<inter> A = {}" using assms area_shift [of _ p n] by fastforce
qed

lemma buf_area_push:
  "(m', buf') = foldl put_byte (m, buf) xs \<Longrightarrow> buf_area buf' = buf_area buf"
proof (induction xs arbitrary: m buf)
  case (Cons x xs)
  from Cons.IH [of "fst (put_byte (m, buf) x)" "snd (put_byte (m, buf) x)"] Cons.prems
  show ?case using buf_area_put [of "(m, buf)" x] by simp
qed simp

text \<open>The pushing loop puts the bytes of the source one after the other.\<close>

lemma push_loop_put:
  assumes "buf_ok (buf\<lparr>cb_tail := p\<rparr>)" and "area src n \<inter> buf_area buf = {}" and "n \<le> 2 ^ 32"
    and "push_loop m buf p src n = (m', buf', p')"
  shows "(m', buf'\<lparr>cb_tail := p'\<rparr>) = foldl put_byte (m, buf\<lparr>cb_tail := p\<rparr>) (load m src n)"
  using assms
proof (induction n arbitrary: m buf p src)
  case (Suc n)
  note disj = area_Suc_disjoint [OF Suc.prems(2,3)]
  have p: "p \<in> buf_area buf" using Suc.prems(1) pos_in_area [of buf] by (auto simp: buf_ok_def)
  define m1 where "m1 = m(p := m src)"
  have put: "put_byte (m, buf\<lparr>cb_tail := p\<rparr>) (m src) = (m1, (count_up buf)\<lparr>cb_tail := advance buf p\<rparr>)"
    by (simp add: put_byte_def count_up_def advance_def m1_def)
  have "buf_ok ((count_up buf)\<lparr>cb_tail := advance buf p\<rparr>)"
    using ring.ok_put [of "(m, buf\<lparr>cb_tail := p\<rparr>)" "m src"] Suc.prems(1) by (simp add: put)
  moreover have "load m1 (src + 1) n = load m (src + 1) n"
    unfolding m1_def using p disj(2) Suc.prems(3) by (intro load_upd_outside) auto
  moreover have "push_loop m1 (count_up buf) (advance buf p) (src + 1) n = (m', buf', p')"
    using Suc.prems(4) by (simp add: m1_def)
  ultimately show ?case
    using Suc.IH [of "advance buf p" "count_up buf" "src + 1" m1] Suc.prems(3) disj(2)
    by (simp add: load_Suc put)
qed simp

lemma pop_loop_pos:
  assumes "0 < cb_totalsize buf" and "cb_end buf = cb_data buf + cb_totalsize buf"
    and "area dest n \<inter> buf_area buf = {}" and "n \<le> 2 ^ 32"
  shows "pop_loop buf m (pos buf f) dest n =
    (overwrite m dest (map (\<lambda>i. m (pos buf (f + i))) [0..<n]), pos buf (f + n))"
  using assms(3,4)
proof (induction n arbitrary: m f dest)
  case (Suc n)
  note disj = area_Suc_disjoint [OF Suc.prems]
  define m1 where "m1 = m(dest := m (pos buf f))"
  have m1: "m1 (pos buf i) = m (pos buf i)" for i
    using disj(1) pos_in_area [OF assms(1), of i] by (auto simp: m1_def)
  have "pop_loop buf m1 (pos buf (Suc f)) (dest + 1) n =
      (overwrite m1 (dest + 1) (map (\<lambda>i. m (pos buf (Suc f + i))) [0..<n]), pos buf (Suc f + n))"
    using Suc.IH [OF disj(2), of m1 "Suc f"] Suc.prems(2) by (simp add: m1)
  moreover have "map (\<lambda>i. m (pos buf (f + i))) [0..<Suc n] = m (pos buf f) # map (\<lambda>i. m (pos buf (Suc f + i))) [0..<n]"
    by (simp add: upt_conv_Cons map_Suc_upt [symmetric] del: upt_Suc)
  ultimately show ?case
    using Suc.prems(2) by (simp add: advance_pos assms overwrite_Cons m1_def del: upt_Suc)
qed simp

lemma remove_many_fields:
  assumes "buf_ok buf" and "n \<le> unat (cb_size buf)"
  shows "(remove_byte ^^ n) (m, buf) =
    (m, buf\<lparr>cb_top := pos buf (first_off buf + n), cb_size := cb_size buf - of_nat n\<rparr>)"
  using assms(2)
proof (induction n)
  case 0
  then show ?case using top_pos [OF assms(1)] by simp
next
  case (Suc n)
  have "advance (buf\<lparr>cb_top := a, cb_size := k\<rparr>) p = advance buf p" for a k p by (simp add: advance_def)
  with Suc show ?case using assms(1) by (simp add: remove_byte_def advance_pos buf_ok_def diff_diff_eq ac_simps)
qed

lemma buf_init_ok: "0 < sz \<Longrightarrow> buf_ok (snd (buf_init malloc sz))"
  by (simp add: buf_init_def buf_ok_def first_off_def pos_def Let_def word_less_nat_alt)

section \<open>Properties\<close>

text \<open>
  C22: pushing refines the bounded queue: the buffer afterwards holds the newest \<open>totalsize\<close> bytes of
  its old contents followed by the source, stays well formed, and no memory outside it is written.
\<close>

theorem buf_push_refines:
  assumes "buf_ok buf" and "area src (unat len) \<inter> buf_area buf = {}"
    and "buf_push m buf src len = (ret, m', buf')"
  shows "buf_ok buf' \<and> ret = sint len \<and> buf_area buf' = buf_area buf \<and>
    buf_contents m' buf' = newest (unat (cb_totalsize buf)) (buf_contents m buf @ load m src (unat len)) \<and>
    (\<forall>a. a \<notin> buf_area buf \<longrightarrow> m' a = m a)"
proof -
  obtain b p where loop: "push_loop m buf (cb_tail buf) src (unat len) = (m', b, p)"
    and res: "ret = sint len" "buf' = b\<lparr>cb_tail := p\<rparr>"
    using assms(3) by (auto simp: buf_push_def split: prod.splits)
  have "unat len \<le> 2 ^ 32" using unsigned_less [of len, where ?'a = nat] by simp
  from push_loop_put [OF _ assms(2) this loop] assms(1)
  have st: "(m', buf') = foldl put_byte (m, buf) (load m src (unat len))" by (simp add: res(2))
  show ?thesis
    using ring.fold_put [of "(m, buf)" "load m src (unat len)", folded st]
      put_many_frame [of "(m, buf)" _ "load m src (unat len)", folded st] assms(1) res(1)
    by (simp add: buf_area_push [OF st])
qed

theorem buf_push_refines_witness:
  "let buf = snd (buf_init (\<lambda>_. 0x1000) 4); m = (\<lambda>a. ucast a); (ret, m', buf') = buf_push m buf 0x2000 6
   in buf_ok buf' \<and> ret = sint (6 :: u32) \<and> buf_area buf' = buf_area buf \<and>
     buf_contents m' buf' = newest (unat (cb_totalsize buf)) (buf_contents m buf @ load m 0x2000 (unat (6 :: u32))) \<and>
     (\<forall>a. a \<notin> buf_area buf \<longrightarrow> m' a = m a)"
proof -
  let ?buf = "snd (buf_init (\<lambda>_. 0x1000) 4)" and ?m = "\<lambda>a :: addr. ucast a :: u8"
  obtain ret m' buf' where r: "buf_push ?m ?buf 0x2000 6 = (ret, m', buf')" by (cases "buf_push ?m ?buf 0x2000 6")
  have ok: "buf_ok ?buf" by (rule buf_init_ok) simp
  have disj: "area 0x2000 (unat (6 :: u32)) \<inter> buf_area ?buf = {}"
    by (auto simp: buf_area_def buf_init_def area_nowrap)
  from buf_push_refines [OF ok disj r] show ?thesis unfolding Let_def r by simp
qed

text \<open>
  C23: popping refines the queue: the oldest bytes, as many as asked for and present, are stored in
  order at the destination and removed; nothing else of the memory changes.
\<close>

theorem buf_pop_refines:
  assumes "buf_ok buf" and "area dest (unat len) \<inter> buf_area buf = {}"
    and "buf_pop m buf dest len = (ret, m', buf')"
  shows "buf_ok buf' \<and> ret = sint (min len (cb_size buf)) \<and> buf_area buf' = buf_area buf \<and>
    m' = overwrite m dest (take (unat len) (buf_contents m buf)) \<and>
    buf_contents m' buf' = drop (unat len) (buf_contents m buf)"
proof -
  define n where "n = min len (cb_size buf)"
  have n: "(if cb_size buf < len then cb_size buf else len) = n" by (auto simp: n_def min_def)
  have un: "unat n = min (unat len) (unat (cb_size buf))" by (simp add: n_def min_def word_le_nat_alt)
  have ok: "0 < cb_totalsize buf" "cb_end buf = cb_data buf + cb_totalsize buf" using assms(1) by (simp_all add: buf_ok_def)
  have disj: "area dest (unat n) \<inter> buf_area buf = {}" using assms(2) by (auto simp: un area_def)
  have "unat n \<le> 2 ^ 32" using unsigned_less [of n, where ?'a = nat] by simp
  note loop = pop_loop_pos [OF ok disj this, of m "first_off buf"]
  have take: "map (\<lambda>i. m (pos buf (first_off buf + i))) [0..<unat n] = take (unat len) (buf_contents m buf)"
    by (rule nth_equalityI) (simp_all add: buf_contents_def un)
  have res: "ret = sint n" "m' = overwrite m dest (take (unat len) (buf_contents m buf))"
    "buf' = buf\<lparr>cb_top := pos buf (first_off buf + unat n), cb_size := cb_size buf - n\<rparr>"
    using assms(3) loop unfolding take by (simp_all add: buf_pop_def n top_pos [OF assms(1)])
  have many: "(m, buf') = (remove_byte ^^ unat n) (m, buf)"
    unfolding res(3) by (subst remove_many_fields [OF assms(1)]) (simp_all add: un, simp add: un [symmetric])
  have rem: "buf_ok buf'" "buf_contents m buf' = drop (unat n) (buf_contents m buf)"
    using ring.remove_many [of "(m, buf)" "unat n", folded many] assms(1) by (simp_all add: un length_buf_contents)
  have area: "buf_area buf' = buf_area buf"
    by (simp add: res(3) buf_area_def)
  have "m' a = m a" if "a \<in> buf_area buf'" for a
    using that disj unfolding res(2) area by (intro overwrite_outside) (auto simp: un length_buf_contents min.commute)
  then have "buf_contents m' buf' = buf_contents m buf'" using rem(1) pos_in_area [of buf']
    by (simp add: buf_contents_def buf_ok_def)
  also have "\<dots> = drop (unat len) (buf_contents m buf)"
    unfolding rem(2) by (simp add: un length_buf_contents min_def)
  finally show ?thesis using rem(1) res(1,2) area by (simp add: n_def)
qed

theorem buf_pop_refines_witness:
  "let buf = 
      \<lparr>cb_size = 3, cb_totalsize = 4, cb_top = 0x1002, cb_tail = 0x1001, cb_data = 0x1000, cb_end = 0x1004\<rparr>;
     m = (\<lambda>a. ucast a); (ret, m', buf') = buf_pop m buf 0x2000 6
   in buf_ok buf' \<and> ret = sint (min 6 (cb_size buf)) \<and> buf_area buf' = buf_area buf \<and>
     m' = overwrite m 0x2000 (take (unat (6 :: u32)) (buf_contents m buf)) \<and>
     buf_contents m' buf' = drop (unat (6 :: u32)) (buf_contents m buf)"
proof -
  let ?buf = "\<lparr>cb_size = 3, cb_totalsize = 4, cb_top = 0x1002, cb_tail = 0x1001, cb_data = 0x1000, cb_end = 0x1004\<rparr>"
    and ?m = "\<lambda>a :: addr. ucast a :: u8"
  obtain ret m' buf' where r: "buf_pop ?m ?buf 0x2000 6 = (ret, m', buf')" by (cases "buf_pop ?m ?buf 0x2000 6")
  have ok: "buf_ok ?buf" by (simp add: buf_ok_def first_off_def offset_def pos_def)
  have disj: "area 0x2000 (unat (6 :: u32)) \<inter> buf_area ?buf = {}"
    by (auto simp: buf_area_def area_nowrap)
  from buf_pop_refines [OF ok disj r] show ?thesis unfolding Let_def r prod.case .
qed

end
