(* ===== verification/Env_Area.thy ===== *)
theory Env_Area
  imports Prelude "HOL-Library.Monad_Syntax" "HOL-Library.Sublist"
begin

text \<open>
  The environment area: an array of \<open>ENV_SIZE\<close> bytes with strings \<open>name=value\<close>, each ended by a zero
  byte, and one more zero byte behind the last. This theory holds the scanning and editing loops of
  \<^verbatim>\<open>common/cmd_nvedit.c\<close> on that array. Every access is checked: \<open>None\<close> is an access outside the
  array, so that a theorem about a result \<open>Some\<close> also says that the loops end inside it. The second
  half relates the array to the list of variables it stands for.
\<close>

section \<open>The code\<close>

definition CONFIG_ENV_SIZE :: nat where "CONFIG_ENV_SIZE = 64 * 1024"
definition ENV_HEADER_SIZE :: nat where "ENV_HEADER_SIZE = 4"
definition ENV_SIZE :: nat where "ENV_SIZE = CONFIG_ENV_SIZE - ENV_HEADER_SIZE"

text \<open>Reading and writing one byte of the array.\<close>

definition get_byte :: "u8 list \<Rightarrow> nat \<Rightarrow> u8 option" where
  "get_byte e i = (if i < length e then Some (e ! i) else None)"

definition set_byte :: "u8 list \<Rightarrow> nat \<Rightarrow> u8 \<Rightarrow> u8 list option" where
  "set_byte e i x = (if i < length e then Some (e[i := x]) else None)"

text \<open>
  \<open>envmatch\<close>: the index behind the \<open>=\<close>, or -1. A name that ends where an entry without \<open>=\<close> ends would
  be read past its end; that is \<open>None\<close> too.
\<close>

fun envmatch :: "u8 list \<Rightarrow> u8 list \<Rightarrow> nat \<Rightarrow> int option" where
  "envmatch e [] i2 = do {
     c \<leftarrow> get_byte e i2;
     if c = 0 then None else if c = 0x3d then Some (int (i2 + 1)) else Some (- 1) }"
| "envmatch e (x # s1) i2 = do {
     c \<leftarrow> get_byte e i2;
     if x = c then if x = 0x3d then Some (int (i2 + 1)) else envmatch e s1 (i2 + 1) else Some (- 1) }"

text \<open>\<open>for (nxt=i; e[nxt] != 0; ++nxt) ;\<close>\<close>

function skip_string :: "u8 list \<Rightarrow> nat \<Rightarrow> nat option" where
  "skip_string e nxt =
     (if nxt < length e then if e ! nxt = 0 then Some nxt else skip_string e (nxt + 1) else None)"
  by pat_completeness auto
termination
  by (relation "measure (\<lambda>(e, nxt). length e - nxt)") auto

declare skip_string.simps [simp del]

lemma skip_string_le: "skip_string e i = Some nxt \<Longrightarrow> i \<le> nxt \<and> nxt < length e"
proof (induction e i rule: skip_string.induct)
  case (1 e i)
  then show ?case by (subst (asm) (2) skip_string.simps) (fastforce split: if_splits)
qed

text \<open>The search loop of \<open>_do_setenv\<close>: the entry, its end and the index of its value.\<close>

function find_var :: "u8 list \<Rightarrow> u8 list \<Rightarrow> nat \<Rightarrow> (nat \<times> nat \<times> nat) option option" where
  "find_var e name env =
     (if env < length e then
        if e ! env = 0 then Some None
        else
          case skip_string e env of
            None \<Rightarrow> None
          | Some nxt \<Rightarrow>
              (case envmatch e name env of
                 None \<Rightarrow> None
               | Some oldval \<Rightarrow>
                   if 0 \<le> oldval then Some (Some (env, nxt, nat oldval)) else find_var e name (nxt + 1))
      else None)"
  by pat_completeness auto
termination
  by (relation "measure (\<lambda>(e, name, env). length e - env)") (auto dest: skip_string_le)

declare find_var.simps [simp del]

text \<open>Moving the entries behind a deleted one down, up to the double zero.\<close>

function shift_entries :: "u8 list \<Rightarrow> nat \<Rightarrow> nat \<Rightarrow> (u8 list \<times> nat) option" where
  "shift_entries e env nxt =
     (if env < length e \<and> nxt + 1 < length e then
        let e' = e[env := e ! nxt]
        in if e' ! env = 0 \<and> e' ! (nxt + 1) = 0 then Some (e', env) else shift_entries e' (env + 1) (nxt + 1)
      else None)"
  by pat_completeness auto
termination
  by (relation "measure (\<lambda>(e, env, nxt). length e - nxt)") (auto simp: Let_def)

declare shift_entries.simps [simp del]

definition delete_var :: "u8 list \<Rightarrow> nat \<Rightarrow> nat \<Rightarrow> u8 list option" where
  "delete_var e env nxt = do {
     c \<leftarrow> get_byte e (nxt + 1);
     (e1, env1) \<leftarrow>
       (if c = 0 then
          if 0 < env then Some (e, env - 1)
          else do { e' \<leftarrow> set_byte e env 0; Some (e', env) }
        else shift_entries e env (nxt + 1));
     set_byte e1 (env1 + 1) 0 }"

text \<open>The double zero behind the last entry.\<close>

function find_end :: "u8 list \<Rightarrow> nat \<Rightarrow> nat option" where
  "find_end e env =
     (if env + 1 < length e then if e ! env \<noteq> 0 \<or> e ! (env + 1) \<noteq> 0 then find_end e (env + 1) else Some env
      else None)"
  by pat_completeness auto
termination
  by (relation "measure (\<lambda>(e, env). length e - env)") auto

declare find_end.simps [simp del]

text \<open>Copying a string with its terminating zero, which the position returned points at.\<close>

fun copy_str :: "u8 list \<Rightarrow> nat \<Rightarrow> u8 list \<Rightarrow> (u8 list \<times> nat) option" where
  "copy_str e env [] = do { e' \<leftarrow> set_byte e env 0; Some (e', env) }"
| "copy_str e env (c # s) = do { e' \<leftarrow> set_byte e env c; copy_str e' (env + 1) s }"

fun copy_vals :: "u8 list \<Rightarrow> nat \<Rightarrow> u8 \<Rightarrow> u8 list list \<Rightarrow> (u8 list \<times> nat) option" where
  "copy_vals e env sep [] = Some (e, env)"
| "copy_vals e env sep (v # vals) = do {
     e' \<leftarrow> set_byte e env sep;
     (e'', env') \<leftarrow> copy_str e' (env + 1) v;
     copy_vals e'' env' 0x20 vals }"

text \<open>The appending part of \<open>_do_setenv\<close>; \<open>Some None\<close> is the overflow.\<close>

definition append_var :: "u8 list \<Rightarrow> u8 list \<Rightarrow> u8 list list \<Rightarrow> u8 list option option" where
  "append_var e name vals = do {
     env \<leftarrow> find_end e 0;
     let env = (if 0 < env then env + 1 else env);
     let len = length name + 2 + sum_list (map (\<lambda>v. length v + 1) vals);
     if ENV_SIZE - env < len then Some None
     else do {
       (e1, env1) \<leftarrow> copy_str e env name;
       (e2, env2) \<leftarrow> copy_vals e1 env1 0x3d vals;
       e3 \<leftarrow> set_byte e2 (env2 + 1) 0;
       Some (Some e3) } }"

text \<open>
  The search loop of \<open>getenv\<close> and \<open>getenv_r\<close>, with its check of the position against the size of the
  whole block: \<open>Some None\<close> when the name is not found.
\<close>

function getenv_skip :: "u8 list \<Rightarrow> nat \<Rightarrow> nat option option" where
  "getenv_skip e nxt =
     (if nxt < length e then
        if e ! nxt = 0 then Some (Some nxt)
        else if CONFIG_ENV_SIZE \<le> nxt then Some None
        else getenv_skip e (nxt + 1)
      else None)"
  by pat_completeness auto
termination
  by (relation "measure (\<lambda>(e, nxt). length e - nxt)") auto

declare getenv_skip.simps [simp del]

lemma getenv_skip_le: "getenv_skip e i = Some (Some nxt) \<Longrightarrow> i \<le> nxt \<and> nxt < length e"
proof (induction e i rule: getenv_skip.induct)
  case (1 e i)
  then show ?case by (subst (asm) (2) getenv_skip.simps) (fastforce split: if_splits)
qed

function getenv_index :: "u8 list \<Rightarrow> u8 list \<Rightarrow> nat \<Rightarrow> nat option option" where
  "getenv_index e name i =
     (if i < length e then
        if e ! i = 0 then Some None
        else
          case getenv_skip e i of
            None \<Rightarrow> None
          | Some None \<Rightarrow> Some None
          | Some (Some nxt) \<Rightarrow>
              (case envmatch e name i of
                 None \<Rightarrow> None
               | Some val \<Rightarrow> if val < 0 then getenv_index e name (nxt + 1) else Some (Some (nat val)))
      else None)"
  by pat_completeness auto
termination
  by (relation "measure (\<lambda>(e, name, i). length e - i)") (auto dest: getenv_skip_le)

declare getenv_index.simps [simp del]

text \<open>
  The copying loop of \<open>getenv_r\<close>: the bytes stored and the counter \<open>n\<close> after the loop, whose test
  increments it also when the loop ends there.
\<close>

function getenv_copy :: "u8 list \<Rightarrow> nat \<Rightarrow> nat \<Rightarrow> nat \<Rightarrow> u8 list \<Rightarrow> (u8 list \<times> nat) option" where
  "getenv_copy e val n len out =
     (if n < len then
        if val < length e then
          if e ! val = 0 then Some (out @ [0], n + 1)
          else getenv_copy e (val + 1) (n + 1) len (out @ [e ! val])
        else None
      else Some (out, n + 1))"
  by pat_completeness auto
termination
  by (relation "measure (\<lambda>(e, val, n, len, out). len - n)") auto

declare getenv_copy.simps [simp del]

text \<open>The result of \<open>getenv_r\<close> and the bytes stored from \<open>buf\<close> on.\<close>

definition getenv_r :: "u8 list \<Rightarrow> u8 list \<Rightarrow> nat \<Rightarrow> (int \<times> u8 list) option" where
  "getenv_r e name len = do {
     found \<leftarrow> getenv_index e name 0;
     case found of
       None \<Rightarrow> Some (- 1, [])
     | Some val \<Rightarrow> do {
         (out, n) \<leftarrow> getenv_copy e val 0 len [];
         Some (int n, if len = n then out @ [0] else out) } }"

section \<open>The variables an area stands for\<close>

type_synonym vars = "(u8 list \<times> u8 list) list"

definition entry :: "u8 list \<times> u8 list \<Rightarrow> u8 list" where
  "entry nv = fst nv @ 0x3d # snd nv @ [0]"

definition env_text :: "vars \<Rightarrow> u8 list" where
  "env_text vars = concat (map entry vars)"

definition wf_vars :: "vars \<Rightarrow> bool" where
  "wf_vars vars \<longleftrightarrow>
     distinct (map fst vars) \<and> (\<forall>nv\<in>set vars. 0 \<notin> set (fst nv) \<and> 0x3d \<notin> set (fst nv) \<and> 0 \<notin> set (snd nv))"

text \<open>Behind the entries there is a zero byte, and two when there are no entries.\<close>

definition env_rep :: "u8 list \<Rightarrow> vars \<Rightarrow> bool" where
  "env_rep e vars \<longleftrightarrow> wf_vars vars \<and> prefix (env_text vars @ (if vars = [] then [0, 0] else [0])) e"

text \<open>What setting and deleting mean on the list of variables.\<close>

definition del_var :: "vars \<Rightarrow> u8 list \<Rightarrow> vars" where
  "del_var vars name = filter (\<lambda>nv. fst nv \<noteq> name) vars"

text \<open>Setting a variable: the new entry is appended if it fits in the area, otherwise the variable is gone.\<close>

definition var_fits :: "vars \<Rightarrow> u8 list \<Rightarrow> u8 list \<Rightarrow> bool" where
  "var_fits vars name val \<longleftrightarrow> length (env_text (del_var vars name @ [(name, val)])) < ENV_SIZE"

definition set_var :: "vars \<Rightarrow> u8 list \<Rightarrow> u8 list \<Rightarrow> vars" where
  "set_var vars name val = del_var vars name @ (if var_fits vars name val then [(name, val)] else [])"

fun join_vals :: "u8 list list \<Rightarrow> u8 list" where
  "join_vals [] = []"
| "join_vals [v] = v"
| "join_vals (v # w # vs) = v @ 0x20 # join_vals (w # vs)"

section \<open>Scanning\<close>

lemma get_byte_append [simp]:
  "get_byte (pre @ x # post) (length pre) = Some x"
  by (simp add: get_byte_def)

lemma skip_string_entry:
  assumes "0 \<notin> set s"
  shows "skip_string (pre @ s @ 0 # post) (length pre) = Some (length pre + length s)"
  using assms
proof (induction s arbitrary: pre)
  case Nil
  then show ?case by (subst skip_string.simps) simp
next
  case (Cons c s)
  from Cons.IH [of "pre @ [c]"] Cons.prems show ?case by (subst skip_string.simps) simp
qed

lemma getenv_skip_entry:
  assumes "0 \<notin> set s" and "length pre + length s \<le> CONFIG_ENV_SIZE"
  shows "getenv_skip (pre @ s @ 0 # post) (length pre) = Some (Some (length pre + length s))"
  using assms
proof (induction s arbitrary: pre)
  case Nil
  then show ?case by (subst getenv_skip.simps) simp
next
  case (Cons c s)
  from Cons.IH [of "pre @ [c]"] Cons.prems show ?case by (subst getenv_skip.simps) simp
qed

lemma envmatch_entry:
  assumes "0 \<notin> set name" and "0x3d \<notin> set name" and "0 \<notin> set n" and "0x3d \<notin> set n"
  shows "envmatch (pre @ n @ 0x3d # rest) name (length pre) =
    Some (if name = n then int (length pre + length n + 1) else - 1)"
  using assms
proof (induction name arbitrary: n pre)
  case Nil
  show ?case
  proof (cases n)
    case (Cons y ys)
    with Nil show ?thesis by (auto simp: get_byte_append [of pre y "ys @ 0x3d # rest"])
  qed simp
next
  case (Cons x name)
  show ?case
  proof (cases n)
    case Nil
    with Cons.prems show ?thesis by auto
  next
    case n: (Cons y ys)
    from Cons.IH [of ys "pre @ [y]"] Cons.prems show ?thesis
      by (auto simp: n get_byte_append [of pre y "ys @ 0x3d # rest"])
  qed
qed

text \<open>The position of a value among the entries of a list of variables.\<close>

definition var_pos :: "vars \<Rightarrow> u8 list \<Rightarrow> nat" where
  "var_pos vars name = length (env_text (takeWhile (\<lambda>nv. fst nv \<noteq> name) vars))"

lemma env_text_simps [simp]:
  "env_text [] = []" "env_text (nv # vars) = entry nv @ env_text vars" "env_text (vars @ vars') = env_text vars @ env_text vars'"
  by (simp_all add: env_text_def)

definition ok_name :: "u8 list \<Rightarrow> bool" where
  "ok_name name \<longleftrightarrow> 0 \<notin> set name \<and> 0x3d \<notin> set name"

lemma wf_vars_Cons: "wf_vars ((n, v) # vars) \<longleftrightarrow> ok_name n \<and> 0 \<notin> set v \<and> n \<notin> fst ` set vars \<and> wf_vars vars"
  by (auto simp: wf_vars_def ok_name_def)

lemma entry_first: "ok_name n \<Longrightarrow> \<exists>c cs. entry (n, v) = c # cs \<and> c \<noteq> 0"
  by (cases n) (auto simp: entry_def ok_name_def)

lemma entry_no_zero: "ok_name n \<Longrightarrow> 0 \<notin> set v \<Longrightarrow> 0 \<notin> set (n @ 0x3d # v)"
  by (auto simp: ok_name_def)

lemma entry_at:
  assumes "ok_name n" and "ok_name name"
  shows "length pre < length (pre @ entry (n, v) @ rest)" and "(pre @ entry (n, v) @ rest) ! length pre \<noteq> 0"
    and "envmatch (pre @ entry (n, v) @ rest) name (length pre) =
      Some (if name = n then int (length pre + length n + 1) else - 1)"
proof -
  obtain c cs where "entry (n, v) = c # cs" "c \<noteq> 0" using entry_first assms(1) by blast
  then show "length pre < length (pre @ entry (n, v) @ rest)" "(pre @ entry (n, v) @ rest) ! length pre \<noteq> 0"
    by (simp_all add: nth_append)
  show "envmatch (pre @ entry (n, v) @ rest) name (length pre) =
      Some (if name = n then int (length pre + length n + 1) else - 1)"
    using envmatch_entry [of name n pre "v @ 0 # rest"] assms by (simp add: ok_name_def entry_def)
qed

lemma find_var_text:
  assumes "wf_vars vars" and "ok_name name"
  shows "find_var (pre @ env_text vars @ 0 # post) name (length pre) =
    Some (case map_of vars name of
        None \<Rightarrow> None
      | Some v \<Rightarrow> Some (length pre + var_pos vars name,
          length pre + var_pos vars name + length name + 1 + length v,
          length pre + var_pos vars name + length name + 1))"
  using assms
proof (induction vars arbitrary: pre)
  case Nil
  then show ?case by (subst find_var.simps) simp
next
  case (Cons nv vars)
  obtain n v where nv: "nv = (n, v)" by (cases nv)
  have wf: "ok_name n" "0 \<notin> set v" "n \<notin> fst ` set vars" "wf_vars vars"
    using Cons.prems(1) by (simp_all add: nv wf_vars_Cons)
  let ?e = "pre @ env_text (nv # vars) @ 0 # post" and ?rest = "env_text vars @ 0 # post"
  have e: "?e = pre @ entry (n, v) @ ?rest" "?e = pre @ (n @ 0x3d # v) @ 0 # ?rest"
    by (simp_all add: nv entry_def)
  note scan = entry_at [OF wf(1) Cons.prems(2), of pre v ?rest, folded e(1)]
  have skip: "skip_string ?e (length pre) = Some (length pre + length (n @ 0x3d # v))"
    unfolding e(2) using entry_no_zero [OF wf(1,2)] by (rule skip_string_entry)
  show ?case
  proof (cases "name = n")
    case True
    then show ?thesis
      using scan skip by (subst find_var.simps) (simp add: nv var_pos_def)
  next
    case False
    have "find_var ?e name (length pre + length (n @ 0x3d # v) + 1) =
        find_var ((pre @ entry nv) @ env_text vars @ 0 # post) name (length (pre @ entry nv))"
      by (simp add: nv entry_def)
    also note Cons.IH [OF wf(4) Cons.prems(2), of "pre @ entry nv"]
    finally show ?thesis
      using scan skip False by (subst find_var.simps) (simp add: nv var_pos_def entry_def ac_simps split: option.split)
  qed
qed

lemma getenv_index_text:
  assumes "wf_vars vars" and "ok_name name" and "length (pre @ env_text vars) \<le> CONFIG_ENV_SIZE"
  shows "getenv_index (pre @ env_text vars @ 0 # post) name (length pre) =
    Some (map_option (\<lambda>v. length pre + var_pos vars name + length name + 1) (map_of vars name))"
  using assms
proof (induction vars arbitrary: pre)
  case Nil
  then show ?case by (subst getenv_index.simps) simp
next
  case (Cons nv vars)
  obtain n v where nv: "nv = (n, v)" by (cases nv)
  have wf: "ok_name n" "0 \<notin> set v" "n \<notin> fst ` set vars" "wf_vars vars"
    using Cons.prems(1) by (simp_all add: nv wf_vars_Cons)
  let ?e = "pre @ env_text (nv # vars) @ 0 # post" and ?rest = "env_text vars @ 0 # post"
  have e: "?e = pre @ entry (n, v) @ ?rest" "?e = pre @ (n @ 0x3d # v) @ 0 # ?rest"
    by (simp_all add: nv entry_def)
  note scan = entry_at [OF wf(1) Cons.prems(2), of pre v ?rest, folded e(1)]
  have "length pre + length (n @ 0x3d # v) \<le> CONFIG_ENV_SIZE" using Cons.prems(3) by (simp add: nv entry_def)
  then have skip: "getenv_skip ?e (length pre) = Some (Some (length pre + length (n @ 0x3d # v)))"
    unfolding e(2) using entry_no_zero [OF wf(1,2)] by (intro getenv_skip_entry)
  show ?case
  proof (cases "name = n")
    case True
    then show ?thesis
      using scan skip by (subst getenv_index.simps) (simp add: nv var_pos_def)
  next
    case False
    have "getenv_index ?e name (length pre + length (n @ 0x3d # v) + 1) =
        getenv_index ((pre @ entry nv) @ env_text vars @ 0 # post) name (length (pre @ entry nv))"
      by (simp add: nv entry_def)
    also have "\<dots> = Some (map_option (\<lambda>v. length (pre @ entry nv) + var_pos vars name + length name + 1) (map_of vars name))"
      using Cons.prems(2,3) wf(4) by (intro Cons.IH) simp_all
    finally show ?thesis
      using scan skip False by (subst getenv_index.simps) (simp add: nv var_pos_def entry_def ac_simps)
  qed
qed

section \<open>Editing\<close>

text \<open>The first double zero at or after \<open>i\<close> is at \<open>z\<close>.\<close>

definition double_zero :: "u8 list \<Rightarrow> nat \<Rightarrow> nat \<Rightarrow> bool" where
  "double_zero e i z \<longleftrightarrow>
     i \<le> z \<and> z + 1 < length e \<and> e ! z = 0 \<and> e ! (z + 1) = 0 \<and>
     (\<forall>j. i \<le> j \<and> j < z \<longrightarrow> \<not> (e ! j = 0 \<and> e ! (j + 1) = 0))"

lemma find_end_double_zero: "double_zero e i z \<Longrightarrow> find_end e i = Some z"
proof (induction "z - i" arbitrary: i)
  case 0
  then have "i = z" by (simp add: double_zero_def)
  with "0.prems" show ?case by (subst find_end.simps) (simp add: double_zero_def)
next
  case (Suc k)
  then have "double_zero e (i + 1) z" "i < z" by (auto simp: double_zero_def)
  moreover have "e ! i \<noteq> 0 \<or> e ! (i + 1) \<noteq> 0" using Suc.prems \<open>i < z\<close> by (simp add: double_zero_def)
  ultimately show ?case
    using Suc.hyps(1) [of "i + 1"] Suc.hyps(2) Suc.prems by (subst find_end.simps) (simp add: double_zero_def)
qed

text \<open>Writing \<open>xs\<close> over the bytes at \<open>i\<close>.\<close>

definition patch :: "u8 list \<Rightarrow> nat \<Rightarrow> u8 list \<Rightarrow> u8 list" where
  "patch e i xs = take i e @ xs @ drop (i + length xs) e"

lemma length_patch [simp]: "i + length xs \<le> length e \<Longrightarrow> length (patch e i xs) = length e"
  by (simp add: patch_def)

lemma set_byte_patch: "i < length e \<Longrightarrow> set_byte e i x = Some (patch e i [x])"
  by (simp add: set_byte_def patch_def upd_conv_take_nth_drop)

lemma nth_patch:
  "i + length xs \<le> length e \<Longrightarrow>
    patch e i xs ! j = (if j < i then e ! j else if j < i + length xs then xs ! (j - i) else e ! j)"
  by (auto simp: patch_def nth_append)

lemma patch_patch:
  assumes "i + length xs \<le> length e" and "k \<le> length xs" and "length xs \<le> k + length ys" and "i + k + length ys \<le> length e"
  shows "patch (patch e i xs) (i + k) ys = patch e i (take k xs @ ys)"
  using assms by (intro nth_equalityI) (auto simp: nth_patch nth_append)

lemma patch_extend:
  assumes "i + length xs + length ys \<le> length e"
  shows "patch (patch e i xs) (i + length xs) ys = patch e i (xs @ ys)"
  using patch_patch [of i xs e "length xs" ys] assms by simp

lemma shift_entries_double_zero:
  assumes "double_zero e nxt z" and "env < nxt"
  shows "shift_entries e env nxt = Some (patch e env (take (z - nxt + 1) (drop nxt e)), env + (z - nxt))"
  using assms
proof (induction "z - nxt" arbitrary: e env nxt)
  case 0
  then have z: "nxt = z" "z + 1 < length e" "e ! z = 0" "e ! (z + 1) = 0" by (simp_all add: double_zero_def)
  have "take 1 (drop nxt e) = [e ! nxt]" using z by (simp add: take_Suc hd_drop_conv_nth)
  then show ?case
    using z "0.prems"(2) by (subst shift_entries.simps) (simp add: Let_def patch_def upd_conv_take_nth_drop [symmetric])
next
  case (Suc k)
  then have nz: "nxt < z" and len: "z + 1 < length e" by (auto simp: double_zero_def)
  define e1 where "e1 = e[env := e ! nxt]"
  have e1: "e1 ! j = e ! j" if "nxt < j" for j using that Suc.prems(2) by (simp add: e1_def)
  have dz: "double_zero e1 (nxt + 1) z"
    using Suc.prems(1) nz by (auto simp: double_zero_def e1) (simp add: e1_def)
  have stop: "\<not> (e1 ! env = 0 \<and> e1 ! (nxt + 1) = 0)"
    using Suc.prems nz len by (auto simp: double_zero_def e1) (auto simp: e1_def)
  have "shift_entries e1 (env + 1) (nxt + 1) =
      Some (patch e1 (env + 1) (take (z - (nxt + 1) + 1) (drop (nxt + 1) e1)), env + 1 + (z - (nxt + 1)))"
    using Suc.hyps(2) Suc.prems(2) dz by (intro Suc.hyps(1)) simp_all
  moreover have "drop (nxt + 1) e1 = drop (nxt + 1) e" using Suc.prems(2) by (simp add: e1_def)
  moreover have "e1 = patch e env [e ! nxt]"
    using Suc.prems(2) nz len by (simp add: e1_def patch_def upd_conv_take_nth_drop)
  moreover have "take (z - nxt + 1) (drop nxt e) = [e ! nxt] @ take (z - (nxt + 1) + 1) (drop (nxt + 1) e)"
    using nz len by (simp add: Cons_nth_drop_Suc [symmetric] Suc_diff_Suc take_Cons')
  moreover have "patch (patch e env [e ! nxt]) (env + 1) ys = patch e env ([e ! nxt] @ ys)"
    if "env + 1 + length ys \<le> length e" for ys
    using patch_extend [of env "[e ! nxt]" ys e] that by simp
  ultimately show ?case
    using stop nz len Suc.prems(2) by (subst shift_entries.simps) (auto simp: Let_def e1_def [symmetric])
qed

lemma copy_str_patch:
  assumes "env + length s < length e"
  shows "copy_str e env s = Some (patch e env (s @ [0]), env + length s)"
  using assms
proof (induction s arbitrary: e env)
  case Nil
  then show ?case by (simp add: set_byte_patch)
next
  case (Cons c s)
  from Cons.IH [of "env + 1" "patch e env [c]"] patch_extend [of env "[c]" "s @ [0]" e] Cons.prems
  show ?case by (simp add: set_byte_patch)
qed

lemma copy_vals_patch:
  assumes "vals \<noteq> []" and "env + length (join_vals vals) + 1 < length e"
  shows "copy_vals e env sep vals =
    Some (patch e env (sep # join_vals vals @ [0]), env + length (join_vals vals) + 1)"
  using assms
proof (induction vals arbitrary: e env sep rule: join_vals.induct)
  case (2 v)
  have "copy_str (patch e env [sep]) (env + 1) v = Some (patch (patch e env [sep]) (env + 1) (v @ [0]), env + 1 + length v)"
    using "2.prems" by (intro copy_str_patch) simp
  with "2.prems" patch_extend [of env "[sep]" "v @ [0]" e] show ?case by (simp add: set_byte_patch)
next
  case (3 v w vs)
  let ?e = "patch e env (sep # v @ [0])" and ?env = "env + 1 + length v"
  have "copy_str (patch e env [sep]) (env + 1) v = Some (patch (patch e env [sep]) (env + 1) (v @ [0]), ?env)"
    using "3.prems" by (intro copy_str_patch) simp
  moreover have "patch (patch e env [sep]) (env + 1) (v @ [0]) = ?e"
    using "3.prems" patch_extend [of env "[sep]" "v @ [0]" e] by simp
  moreover have "copy_vals ?e ?env 0x20 (w # vs) =
      Some (patch ?e ?env (0x20 # join_vals (w # vs) @ [0]), ?env + length (join_vals (w # vs)) + 1)"
    using "3.prems" by (intro "3.IH") simp_all
  moreover have "patch ?e ?env (0x20 # join_vals (w # vs) @ [0]) = patch e env (sep # v @ 0x20 # join_vals (w # vs) @ [0])"
    using patch_patch [of env "sep # v @ [0]" e "Suc (length v)" "0x20 # join_vals (w # vs) @ [0]"] "3.prems" by simp
  ultimately show ?case using "3.prems" by (simp add: set_byte_patch)
qed simp

text \<open>There is no double zero inside the text of the entries.\<close>

definition no_double :: "u8 list \<Rightarrow> bool" where
  "no_double xs \<longleftrightarrow> successively (\<lambda>x y. \<not> (x = 0 \<and> y = 0)) xs"

lemma no_double_nonzero: "0 \<notin> set xs \<Longrightarrow> no_double (xs @ [x])"
  unfolding no_double_def by (induction xs) (auto simp: successively_append_iff successively_Cons)

lemma no_double_text: "wf_vars vars \<Longrightarrow> no_double (env_text vars)"
proof (induction vars)
  case (Cons nv vars)
  obtain n v where nv: "nv = (n, v)" by (cases nv)
  have wf: "ok_name n" "0 \<notin> set v" "wf_vars vars" using Cons.prems by (simp_all add: nv wf_vars_Cons)
  have one: "no_double (entry nv)"
    using no_double_nonzero [OF entry_no_zero [OF wf(1,2)], of 0] by (simp add: nv entry_def)
  have "hd (env_text vars) \<noteq> 0" if "vars \<noteq> []"
  proof -
    obtain n' v' vs where v: "vars = (n', v') # vs" using \<open>vars \<noteq> []\<close> by (cases vars) auto
    with wf(3) show ?thesis using entry_first [of n' v'] by (auto simp: wf_vars_Cons)
  qed
  then show ?case
    using one Cons.IH [OF wf(3)] by (cases "vars = []") (auto simp: no_double_def successively_append_iff)
qed (simp add: no_double_def)

lemma env_text_last:
  assumes "vars \<noteq> []"
  shows "env_text vars \<noteq> []" and "last (env_text vars) = 0"
proof -
  obtain vs nv where "vars = vs @ [nv]" using assms by (metis rev_exhaust)
  then show "env_text vars \<noteq> []" "last (env_text vars) = 0" by (simp_all add: entry_def)
qed

lemma double_zero_text:
  assumes "wf_vars vars" and "vars \<noteq> []"
  shows "double_zero (pre @ env_text vars @ 0 # post) (length pre) (length pre + length (env_text vars) - 1)"
proof -
  let ?t = "env_text vars" and ?e = "pre @ env_text vars @ 0 # post"
  have t: "?t \<noteq> []" "last ?t = 0" using env_text_last [OF assms(2)] by auto
  obtain k where k: "length ?t = Suc k" using t(1) by (cases ?t) auto
  then have z: "?e ! (length pre + length ?t - 1) = 0" using t by (simp add: nth_append last_conv_nth)
  have z1: "?e ! (length pre + length ?t) = 0" by (simp add: nth_append)
  have "\<not> (?e ! j = 0 \<and> ?e ! (j + 1) = 0)" if j: "length pre \<le> j" "j < length pre + length ?t - 1" for j
  proof -
    have "\<not> (?t ! (j - length pre) = 0 \<and> ?t ! Suc (j - length pre) = 0)"
      using no_double_text [OF assms(1)] j by (simp add: no_double_def successively_conv_nth)
    then show ?thesis using j by (auto simp: nth_append Suc_diff_le)
  qed
  with t z z1 k show ?thesis by (auto simp: double_zero_def)
qed

section \<open>Deleting and appending\<close>

lemma split_var:
  assumes "wf_vars vars" and "map_of vars name = Some v"
  obtains pre post where "vars = pre @ (name, v) # post" and "del_var vars name = pre @ post"
    and "var_pos vars name = length (env_text pre)" and "wf_vars pre" and "wf_vars post" and "ok_name name"
proof -
  have "(name, v) \<in> set vars" using assms(2) by (rule map_of_SomeD)
  then obtain pre post where v: "vars = pre @ (name, v) # post" by (meson split_list)
  have d: "name \<notin> fst ` set pre" "name \<notin> fst ` set post" using assms(1) by (auto simp: wf_vars_def v)
  then have "filter (\<lambda>nv. fst nv \<noteq> name) pre = pre" "filter (\<lambda>nv. fst nv \<noteq> name) post = post"
    by (auto simp: filter_id_conv)
  then have del: "del_var vars name = pre @ post" by (simp add: del_var_def v)
  have "takeWhile (\<lambda>nv. fst nv \<noteq> name) vars = pre"
    unfolding v using d(1) by (subst takeWhile_append2) auto
  then have pos: "var_pos vars name = length (env_text pre)" by (simp add: var_pos_def)
  have wf: "wf_vars pre" "wf_vars post" "ok_name name"
    using assms(1) by (auto simp: wf_vars_def v ok_name_def)
  show thesis using v del pos wf by (rule that)
qed

lemma map_of_del_var: "map_of (del_var vars name) k = (if k = name then None else map_of vars k)"
  by (induction vars) (auto simp: del_var_def)

lemma map_of_set_var:
  "map_of (set_var vars name val) k =
     (if k = name then if var_fits vars name val then Some val else None else map_of vars k)"
  by (auto simp: set_var_def map_of_del_var map_add_def split: option.split)

lemma wf_del_var: "wf_vars vars \<Longrightarrow> wf_vars (del_var vars name)"
  by (auto simp: wf_vars_def del_var_def distinct_map intro: inj_on_subset)

lemma patch_here: "length xs = length ys \<Longrightarrow> patch (pre @ ys @ rest) (length pre) xs = pre @ xs @ rest"
  by (simp add: patch_def)

text \<open>The last entry: only the byte behind the previous one is cleared.\<close>

lemma delete_last_var:
  fixes pre post :: vars and nv e rest
  defines "e \<equiv> env_text pre @ entry nv @ 0 # rest" and "p \<equiv> length (env_text pre)"
  shows "\<exists>e'. delete_var e p (p + length (entry nv) - 1) = Some e' \<and> length e' = length e \<and>
    prefix (env_text pre @ (if pre = [] then [0, 0] else [0])) e'"
proof -
  have len: "0 < length (entry nv)" "p + length (entry nv) < length e" by (simp_all add: entry_def e_def p_def)
  have "get_byte e (p + length (entry nv) - 1 + 1) = Some 0"
    using len get_byte_append [of "env_text pre @ entry nv" 0 rest] by (simp add: e_def p_def)
  moreover obtain c cs where c: "entry nv = c # cs" by (cases "entry nv") (simp add: entry_def)
  moreover have "p = 0 \<longleftrightarrow> pre = []" unfolding p_def using env_text_last(1) [of pre] by auto
  moreover have "e[0 := 0, Suc 0 := 0] = 0 # 0 # drop 2 e" if "pre = []"
    using that c by (cases cs) (simp_all add: e_def)
  moreover have "e[p := 0] = env_text pre @ 0 # cs @ 0 # rest"
    using c by (simp add: e_def p_def list_update_append)
  moreover have "length e = Suc (Suc (p + (length cs + length rest)))" using c by (simp add: e_def p_def)
  ultimately show ?thesis
    using len by (cases "pre = []") (auto simp: delete_var_def set_byte_def p_def)
qed

lemma delete_inner_var:
  fixes pre post :: vars and nv e rest
  assumes "wf_vars post" and "post \<noteq> []"
  defines "e \<equiv> env_text pre @ entry nv @ env_text post @ 0 # rest" and "p \<equiv> length (env_text pre)"
  shows "\<exists>e'. delete_var e p (p + length (entry nv) - 1) = Some e' \<and> length e' = length e \<and>
    prefix (env_text pre @ env_text post @ [0]) e'"
proof -
  let ?n = "p + length (entry nv)" and ?t = "env_text post"
  have len: "0 < length (entry nv)" "0 < length ?t" using env_text_last(1) [OF assms(2)] by (simp_all add: entry_def)
  obtain n v vs where "post = (n, v) # vs" using assms(2) by (cases post) auto
  with assms(1) obtain c cs where c: "?t = c # cs" "c \<noteq> 0"
    using entry_first [of n v] by (auto simp: wf_vars_Cons)
  then have first: "get_byte e ?n = Some c"
    using get_byte_append [of "env_text pre @ entry nv" c "cs @ 0 # rest"] by (simp add: e_def p_def)
  have e: "e = (env_text pre @ entry nv) @ ?t @ 0 # rest" and n: "?n = length (env_text pre @ entry nv)"
    by (simp_all add: e_def p_def)
  have dz: "double_zero e ?n (?n + length ?t - 1)"
    unfolding e n using assms(1,2) by (rule double_zero_text)
  have part: "take (?n + length ?t - 1 - ?n + 1) (drop ?n e) = ?t" using len unfolding e n by simp
  have shift: "shift_entries e p ?n = Some (patch e p ?t, p + length ?t - 1)"
    using shift_entries_double_zero [OF dz, of p] len unfolding part by simp
  have fits: "p + length ?t + 1 \<le> length e" using len by (simp add: e_def p_def)
  have "set_byte (patch e p ?t) (p + length ?t - 1 + 1) 0 = Some (patch (patch e p ?t) (p + length ?t) [0])"
    using len fits by (simp add: set_byte_patch)
  also have "patch (patch e p ?t) (p + length ?t) [0] = patch e p (?t @ [0])"
    using fits by (intro patch_extend) simp
  finally have "delete_var e p (?n - 1) = Some (patch e p (?t @ [0]))"
    using first c(2) shift len by (simp add: delete_var_def)
  moreover have "prefix (env_text pre @ ?t @ [0]) (patch e p (?t @ [0]))"
    by (simp add: patch_def p_def e_def)
  ultimately show ?thesis using fits by auto
qed

lemma delete_var_rep:
  assumes "env_rep e vars" and "map_of vars name = Some v"
  shows "\<exists>e'. delete_var e (var_pos vars name) (var_pos vars name + length name + 1 + length v) = Some e' \<and>
    length e' = length e \<and> env_rep e' (del_var vars name)"
proof -
  have wf: "wf_vars vars" using assms(1) by (simp add: env_rep_def)
  from split_var [OF wf assms(2)] obtain pre post where sp: "vars = pre @ (name, v) # post"
    "del_var vars name = pre @ post" "var_pos vars name = length (env_text pre)" "wf_vars post" by metis
  obtain rest where e: "e = env_text pre @ entry (name, v) @ env_text post @ 0 # rest"
    using assms(1) by (auto simp: env_rep_def sp(1) prefix_def)
  have n: "var_pos vars name + length name + 1 + length v = length (env_text pre) + length (entry (name, v)) - 1"
    by (simp add: sp(3) entry_def)
  have wf': "wf_vars (pre @ post)" using wf_del_var [OF wf, of name] by (simp add: sp(2))
  have "\<exists>e'. delete_var e (length (env_text pre)) (length (env_text pre) + length (entry (name, v)) - 1) = Some e' \<and>
      length e' = length e \<and> env_rep e' (pre @ post)"
  proof (cases "post = []")
    case True
    with delete_last_var [of pre "(name, v)" rest] wf' show ?thesis by (simp add: e env_rep_def)
  next
    case False
    with delete_inner_var [OF sp(4), of pre "(name, v)" rest] wf' show ?thesis by (simp add: e env_rep_def)
  qed
  then show ?thesis unfolding n unfolding sp(2,3) .
qed

lemma append_var_rep:
  assumes "env_rep e vars" and "length e = ENV_SIZE" and "ok_name name" and "name \<notin> fst ` set vars"
    and "vals \<noteq> []" and "\<forall>v\<in>set vals. 0 \<notin> set v"
  shows "if length (env_text vars) + length name + length (join_vals vals) + 3 \<le> ENV_SIZE
    then \<exists>e'. append_var e name vals = Some (Some e') \<and> length e' = length e \<and> env_rep e' (vars @ [(name, join_vals vals)])
    else append_var e name vals = Some None"
proof -
  have wf: "wf_vars vars" using assms(1) by (simp add: env_rep_def)
  have total: "(\<Sum>v\<leftarrow>vals. Suc (length v)) = Suc (length (join_vals vals))"
    using assms(5) by (induction vals rule: join_vals.induct) simp_all
  have z: "0 \<notin> set (join_vals vals)" using assms(6) by (induction vals rule: join_vals.induct) auto
  let ?p = "length (env_text vars)" and ?v = "join_vals vals"
  have pos: "\<exists>i. find_end e 0 = Some i \<and> (if 0 < i then i + 1 else i) = ?p \<and> ?p < length e"
  proof (cases "vars = []")
    case True
    then have "double_zero e 0 0" using assms(1) by (auto simp: env_rep_def prefix_def double_zero_def)
    with True show ?thesis using find_end_double_zero by (fastforce simp: double_zero_def)
  next
    case False
    then obtain rest where e: "e = [] @ env_text vars @ 0 # rest" using assms(1) by (auto simp: env_rep_def prefix_def)
    have "length (env_text vars) > 1"
      using False by (cases vars) (auto simp: entry_def)
    moreover have "double_zero e 0 (?p - 1)" using double_zero_text [OF wf False, of "[]" rest] e by simp
    ultimately show ?thesis using find_end_double_zero e by force
  qed
  show ?thesis
  proof (cases "?p + length name + length ?v + 3 \<le> ENV_SIZE")
    case False
    with pos show ?thesis using assms(2) by (auto simp: append_var_def total Let_def)
  next
    case True
    have str: "copy_str e ?p name = Some (patch e ?p (name @ [0]), ?p + length name)"
      using True assms(2) by (intro copy_str_patch) simp
    have "copy_vals (patch e ?p (name @ [0])) (?p + length name) 0x3d vals =
        Some (patch (patch e ?p (name @ [0])) (?p + length name) (0x3d # ?v @ [0]), ?p + length name + length ?v + 1)"
      using True assms(2,5) by (intro copy_vals_patch) simp_all
    also have "patch (patch e ?p (name @ [0])) (?p + length name) (0x3d # ?v @ [0]) = patch e ?p (entry (name, ?v))"
      using patch_patch [of ?p "name @ [0]" e "length name" "0x3d # ?v @ [0]"] True assms(2) by (simp add: entry_def)
    finally have vals: "copy_vals (patch e ?p (name @ [0])) (?p + length name) 0x3d vals =
        Some (patch e ?p (entry (name, ?v)), ?p + length name + length ?v + 1)" .
    have "set_byte (patch e ?p (entry (name, ?v))) (?p + length name + length ?v + 1 + 1) 0 =
        Some (patch e ?p (entry (name, ?v) @ [0]))"
      using patch_extend [of ?p "entry (name, ?v)" "[0]" e] True assms(2) by (simp add: set_byte_patch entry_def ac_simps)
    with pos str vals True assms(2) have "append_var e name vals = Some (Some (patch e ?p (entry (name, ?v) @ [0])))"
      by (auto simp: append_var_def total Let_def)
    moreover have "env_rep (patch e ?p (entry (name, ?v) @ [0])) (vars @ [(name, ?v)])"
    proof -
      have "take ?p e = env_text vars" using assms(1) by (auto simp: env_rep_def prefix_def)
      then show ?thesis using wf assms(3,4) z by (auto simp: env_rep_def wf_vars_def ok_name_def patch_def)
    qed
    ultimately show ?thesis using True assms(2) by (simp add: entry_def)
  qed
qed

section \<open>Copying a value out\<close>

lemma getenv_copy_string:
  assumes "0 \<notin> set v" and "n \<le> len"
  shows "getenv_copy (pre @ v @ 0 # post) (length pre) n len out =
    Some (if n + length v < len then (out @ v @ [0], n + length v + 1) else (out @ take (len - n) v, len + 1))"
  using assms
proof (induction v arbitrary: pre n out)
  case Nil
  then show ?case by (subst getenv_copy.simps) simp
next
  case (Cons c v)
  show ?case
  proof (cases "n < len")
    case True
    then have "take (len - n) (c # v) = c # take (len - Suc n) v" by (simp add: Suc_diff_Suc [symmetric])
    with True Cons.IH [of "Suc n" "pre @ [c]" "out @ [c]"] Cons.prems show ?thesis
      by (subst getenv_copy.simps) (simp add: nth_append)
  next
    case False
    with Cons.prems(2) show ?thesis by (subst getenv_copy.simps) simp
  qed
qed

section \<open>Properties\<close>

text \<open>
  C34: what \<open>getenv_r\<close> does with a buffer of \<open>len\<close> bytes for a variable with value \<open>v\<close>: if the value and
  its terminating zero take less than \<open>len\<close> bytes they are stored and counted; if they take exactly
  \<open>len\<close> bytes, one zero more is stored, at \<open>buf[len]\<close>, outside the buffer; a longer value is stored
  without a terminating zero and the result is \<open>len + 1\<close>.
\<close>

theorem getenv_r_stores:
  assumes "env_rep e vars" and "length e \<le> CONFIG_ENV_SIZE" and "ok_name name" and "map_of vars name = Some v"
  shows "getenv_r e name len =
    Some (if length v + 1 < len then (int (length v + 1), v @ [0])
          else if length v + 1 = len then (int len, v @ [0, 0])
          else (int (len + 1), take len v))"
proof -
  have wf: "wf_vars vars" using assms(1) by (simp add: env_rep_def)
  from split_var [OF wf assms(4)] obtain pre post where sp: "vars = pre @ (name, v) # post"
    "var_pos vars name = length (env_text pre)" by metis
  obtain rest where e: "e = env_text vars @ 0 # rest" using assms(1) by (cases "vars = []") (auto simp: env_rep_def prefix_def)
  then have "length ([] @ env_text vars) \<le> CONFIG_ENV_SIZE" using assms(2) by simp
  from getenv_index_text [OF wf assms(3) this, of rest] assms(4)
  have found: "getenv_index e name 0 = Some (Some (length (env_text pre @ name @ [0x3d])))"
    by (simp add: e sp(2))
  have v: "0 \<notin> set v" using wf by (auto simp: wf_vars_def sp(1))
  have "e = (env_text pre @ name @ [0x3d]) @ v @ 0 # env_text post @ 0 # rest" by (simp add: e sp(1) entry_def)
  then have "getenv_copy e (length (env_text pre @ name @ [0x3d])) 0 len [] =
      Some (if length v < len then (v @ [0], length v + 1) else (take len v, len + 1))"
    using getenv_copy_string [OF v, of 0 len "env_text pre @ name @ [0x3d]" "env_text post @ 0 # rest" "[]"] by simp
  then show ?thesis unfolding getenv_r_def found by auto
qed

theorem getenv_r_stores_witness:
  "getenv_r [0x61, 0x3d, 0x62, 0x63, 0, 0] [0x61] 3 =
    Some (if length [0x62, 0x63 :: u8] + 1 < (3 :: nat) then (int (length [0x62, 0x63 :: u8] + 1), [0x62, 0x63] @ [0])
          else if length [0x62, 0x63 :: u8] + 1 = 3 then (int 3, [0x62, 0x63] @ [0, 0])
          else (int (3 + 1), take 3 [0x62, 0x63]))"
  by (rule getenv_r_stores [where vars = "[([0x61], [0x62, 0x63])]"])
    (simp_all add: env_rep_def wf_vars_def env_text_def entry_def CONFIG_ENV_SIZE_def ok_name_def)

end
