(* ===== verification/Flash_Driver.thy ===== *)
theory Flash_Driver
  imports C_Memory
begin

text \<open>
  The driver of the board's NOR flash, \<^verbatim>\<open>board/sdust/common/S29GL064A_04.c\<close>: the sector table,
  erasing sectors and programming words. The chip, its bus and the tick counter are parameters: a
  record of the accesses the driver makes, each of which may change the state of the device. What the
  driver relies on is stated as the predicate \<open>nor_chip\<close> over single bus cycles, independently of the
  driver: the command table of the chip's data sheet as a state machine, data polling, and the time
  the embedded operations may take. That the driver's command sequences and wait loops erase a sector
  or program a word on such a chip is proved. The wait loops are \<open>None\<close> if they never end. Flushing
  cache lines has no effect on the device and is left out, and the driver's access to the source
  buffer is modelled as if the processor could read a halfword at an odd address.
\<close>

section \<open>The code\<close>

record flash_info =
  fi_size :: u32
  fi_sector_count :: u16
  fi_flash_id :: u32
  fi_start :: "u32 list"
  fi_protect :: "u8 list"

record 'c bus =
  bus_readb :: "addr \<Rightarrow> 'c \<Rightarrow> u8 \<times> 'c"
  bus_readw :: "addr \<Rightarrow> 'c \<Rightarrow> u16 \<times> 'c"
  bus_writew :: "u16 \<Rightarrow> addr \<Rightarrow> 'c \<Rightarrow> 'c"
  bus_get_timer :: "u32 \<Rightarrow> 'c \<Rightarrow> u32 \<times> 'c"
  bus_udelay :: "u32 \<Rightarrow> 'c \<Rightarrow> 'c"

definition CONFIG_SYS_FLASH_BASE :: u32 where "CONFIG_SYS_FLASH_BASE = 0xF0000000"
definition CONFIG_SYS_FLASH_SIZE :: u32 where "CONFIG_SYS_FLASH_SIZE = 0x00800000"
definition CONFIG_SYS_MAX_FLASH_SECT :: u16 where "CONFIG_SYS_MAX_FLASH_SECT = 135"
definition CONFIG_FLASH_ERASE_TOUT :: u32 where "CONFIG_FLASH_ERASE_TOUT = 1024 * 16"
definition CONFIG_FLASH_WRITE_TOUT :: u32 where "CONFIG_FLASH_WRITE_TOUT = 128 * 32"
definition SECTSZ_SMALL :: u32 where "SECTSZ_SMALL = 8 * 1024"
definition SECTSZ_LARGE :: u32 where "SECTSZ_LARGE = 64 * 1024"
definition FIRST_ADDR :: addr where "FIRST_ADDR = CONFIG_SYS_FLASH_BASE + push_bit 1 0x0555"
definition SECOND_ADDR :: addr where "SECOND_ADDR = CONFIG_SYS_FLASH_BASE + push_bit 1 0x02AA"
definition FLASH_AMD_COMP :: u32 where "FLASH_AMD_COMP = 0x000FFFFF"
definition FLASH_S29GL064A_04 :: u32 where "FLASH_S29GL064A_04 = 0xF5"

text \<open>One of the two loops that fill the table: \<open>n\<close> sectors of size \<open>sz\<close> from \<open>addr\<close> on.\<close>

fun fill_starts :: "nat \<Rightarrow> u32 \<Rightarrow> u32 \<Rightarrow> u32 list \<times> u32" where
  "fill_starts 0 addr sz = ([], addr)"
| "fill_starts (Suc n) addr sz = (let (starts, addr') = fill_starts n (addr + sz) sz in (addr # starts, addr'))"

definition flash_init :: "u32 \<times> flash_info" where
  "flash_init =
     (let n = unat CONFIG_SYS_MAX_FLASH_SECT;
          (small, addr) = fill_starts 8 CONFIG_SYS_FLASH_BASE SECTSZ_SMALL;
          (large, _) = fill_starts (n - 8) addr SECTSZ_LARGE
      in (CONFIG_SYS_FLASH_SIZE,
          \<lparr>fi_size = CONFIG_SYS_FLASH_SIZE, fi_sector_count = CONFIG_SYS_MAX_FLASH_SECT,
           fi_flash_id = FLASH_AMD_COMP + FLASH_S29GL064A_04,
           fi_start = small @ large, fi_protect = replicate n 1\<rparr>))"

text \<open>The six bus cycles of a sector erase command, and the four of a word program command.\<close>

definition erase_cmd :: "'c bus \<Rightarrow> addr \<Rightarrow> 'c \<Rightarrow> 'c" where
  "erase_cmd bus addr2 c =
     (let c = bus_writew bus 0xaa00 FIRST_ADDR c;
          c = bus_writew bus 0x5500 SECOND_ADDR c;
          c = bus_writew bus 0x8000 FIRST_ADDR c;
          c = bus_writew bus 0xaa00 FIRST_ADDR c;
          c = bus_writew bus 0x5500 SECOND_ADDR c
      in bus_writew bus 0x3000 addr2 c)"

definition program_cmd :: "'c bus \<Rightarrow> u16 \<Rightarrow> addr \<Rightarrow> 'c \<Rightarrow> 'c" where
  "program_cmd bus b dst c =
     (let c = bus_writew bus 0xaa00 FIRST_ADDR c;
          c = bus_writew bus 0x5500 SECOND_ADDR c;
          c = bus_writew bus 0xa000 FIRST_ADDR c
      in bus_writew bus b dst c)"

text \<open>Waiting for the first byte of the sector to read as erased: true on success, false on timeout.\<close>

partial_function (option) erase_wait :: "'c bus \<Rightarrow> addr \<Rightarrow> u32 \<Rightarrow> 'c \<Rightarrow> (bool \<times> 'c) option" where
  "erase_wait bus addr2 start c =
     (let (v, c) = bus_readb bus addr2 c
      in if v \<noteq> 0xff then
           let c = bus_udelay bus 1000000 c;
               (t, c) = bus_get_timer bus start c
           in if CONFIG_FLASH_ERASE_TOUT < t then Some (False, c) else erase_wait bus addr2 start c
         else Some (True, c))"

text \<open>The sectors \<open>sect\<close> to \<open>s_last\<close>; \<open>None\<close> also for an index outside the table.\<close>

function erase_loop :: "'c bus \<Rightarrow> flash_info \<Rightarrow> nat \<Rightarrow> nat \<Rightarrow> 'c \<Rightarrow> (int \<times> 'c) option" where
  "erase_loop bus info sect s_last c =
     (if s_last < sect then Some (0, c)
      else if length (fi_protect info) \<le> sect \<or> length (fi_start info) \<le> sect then None
      else if fi_protect info ! sect \<noteq> 0 then erase_loop bus info (sect + 1) s_last c
      else
        let addr2 = fi_start info ! sect;
            (start, c) = bus_get_timer bus 0 (erase_cmd bus addr2 c)
        in case erase_wait bus addr2 start c of
             None \<Rightarrow> None
           | Some (False, c) \<Rightarrow> Some (1, c)
           | Some (True, c) \<Rightarrow> erase_loop bus info (sect + 1) s_last c)"
  by pat_completeness auto
termination
  by (relation "measure (\<lambda>(bus, info, sect, s_last, c). Suc s_last - sect)") auto

declare erase_loop.simps [simp del]

definition flash_erase :: "'c bus \<Rightarrow> flash_info \<Rightarrow> int \<Rightarrow> int \<Rightarrow> 'c \<Rightarrow> (int \<times> 'c) option" where
  "flash_erase bus info s_first s_last c =
     (if s_first < 0 \<or> s_last < s_first then Some (1, c)
      else erase_loop bus info (nat s_first) (nat s_last) c)"

text \<open>A 16-bit word from two bytes, in the byte order of the processor.\<close>

definition be16 :: "u8 \<Rightarrow> u8 \<Rightarrow> u16" where
  "be16 b0 b1 = push_bit 8 (ucast b0) OR ucast b1"

partial_function (option) write_wait :: "'c bus \<Rightarrow> addr \<Rightarrow> u16 \<Rightarrow> u32 \<Rightarrow> 'c \<Rightarrow> (bool \<times> 'c) option" where
  "write_wait bus dst b start c =
     (let (v, c) = bus_readw bus dst c
      in if v \<noteq> b then
           let (t, c) = bus_get_timer bus start c
           in if CONFIG_FLASH_WRITE_TOUT < t then Some (False, c) else write_wait bus dst b start c
         else Some (True, c))"

text \<open>The message of the error exit reads the device once more.\<close>

partial_function (option) write_buff ::
    "'c bus \<Rightarrow> mem \<Rightarrow> addr \<Rightarrow> addr \<Rightarrow> u32 \<Rightarrow> 'c \<Rightarrow> (int \<times> 'c) option" where
  "write_buff bus m src dst cnt c =
     (if cnt = 0 then Some (0, c)
      else
        let b = be16 (m src) (m (src + 1));
            (v, c) = bus_readw bus dst c
        in if v AND b \<noteq> b then Some (2, snd (bus_readw bus dst c))
           else
             let (start, c) = bus_get_timer bus 0 (program_cmd bus b dst c)
             in case write_wait bus dst b start c of
                  None \<Rightarrow> None
                | Some (ok, c) \<Rightarrow>
                    if ok then write_buff bus m (src + 2) (dst + 2) (cnt - 2) c else Some (1, c))"

section \<open>The sector table\<close>

definition sect_count :: "flash_info \<Rightarrow> nat" where
  "sect_count info = unat (fi_sector_count info)"

text \<open>The last address of the bank, and the last address of a sector.\<close>

definition bank_end :: "flash_info \<Rightarrow> u32" where
  "bank_end info = fi_start info ! 0 + fi_size info - 1"

definition sector_end :: "flash_info \<Rightarrow> nat \<Rightarrow> u32" where
  "sector_end info i = (if i + 1 = sect_count info then bank_end info else fi_start info ! (i + 1) - 1)"

definition sector :: "flash_info \<Rightarrow> nat \<Rightarrow> addr set" where
  "sector info i = {fi_start info ! i .. sector_end info i}"

text \<open>
  A well-formed table: the sectors follow one another without gaps and overlaps, and the bank does
  not reach the end of the address space.
\<close>

definition bank_ok :: "flash_info \<Rightarrow> bool" where
  "bank_ok info \<longleftrightarrow>
     0 < sect_count info \<and> length (fi_start info) = sect_count info \<and> length (fi_protect info) = sect_count info \<and>
     sorted_wrt (<) (fi_start info) \<and> 0 < fi_size info \<and>
     unat (fi_start info ! 0) + unat (fi_size info) < 2 ^ 32 \<and> last (fi_start info) \<le> bank_end info \<and>
     fi_flash_id info \<noteq> 0xffff \<and> sect_count info < 2 ^ 15"

definition bank :: "flash_info \<Rightarrow> addr set" where
  "bank info = {fi_start info ! 0 .. bank_end info}"

text \<open>In a well-formed table every address of the bank belongs to exactly one sector.\<close>

lemma start_mono: "bank_ok info \<Longrightarrow> i < j \<Longrightarrow> j < sect_count info \<Longrightarrow> fi_start info ! i < fi_start info ! j"
  by (simp add: bank_ok_def sorted_wrt_iff_nth_less)

lemma sector_end_less:
  assumes "bank_ok info" and "i + 1 < sect_count info"
  shows "a \<le> sector_end info i \<longleftrightarrow> a < fi_start info ! (i + 1)"
proof -
  have "fi_start info ! i < fi_start info ! (i + 1)" using assms by (intro start_mono) simp_all
  then have "0 < fi_start info ! (i + 1)" by (rule le_less_trans [rotated]) simp
  then have "unat (fi_start info ! (i + 1) - 1) = unat (fi_start info ! (i + 1)) - 1" by (intro unat_minus_one) auto
  moreover have "0 < unat (fi_start info ! (i + 1))" using \<open>0 < _\<close> by (simp add: word_less_nat_alt)
  ultimately show ?thesis using assms(2) by (auto simp: sector_end_def word_le_nat_alt word_less_nat_alt)
qed

lemma sector_unique:
  assumes "bank_ok info" and "a \<in> sector info i" and "a \<in> sector info j" and "i < sect_count info" and "j < sect_count info"
  shows "i = j"
proof -
  have "\<not> i < j" if "a \<in> sector info i" "a \<in> sector info j" "j < sect_count info" for i j
  proof
    assume ij: "i < j"
    then have "a < fi_start info ! (i + 1)"
      using sector_end_less [of info i a] assms(1) that by (simp add: sector_def)
    moreover have "fi_start info ! (i + 1) \<le> fi_start info ! j"
      using ij start_mono [OF assms(1), of "i + 1" j] that(3) by (cases "i + 1 = j") auto
    ultimately have "a < fi_start info ! j" by (rule less_le_trans)
    then show False using that(2) by (auto simp: sector_def)
  qed
  with assms show ?thesis by (meson nat_neq_iff)
qed

lemma bank_cover:
  assumes "bank_ok info" and "a \<in> bank info"
  shows "\<exists>k < sect_count info. a \<in> sector info k"
proof -
  let ?K = "{k. k < sect_count info \<and> fi_start info ! k \<le> a}"
  have "0 \<in> ?K" using assms by (simp add: bank_ok_def bank_def)
  then have max: "Max ?K \<in> ?K" by (intro Max_in) auto
  define k where "k = Max ?K"
  have k: "k < sect_count info" "fi_start info ! k \<le> a" using max unfolding k_def by blast+
  have "a \<le> sector_end info k"
  proof (cases "k + 1 = sect_count info")
    case True
    then show ?thesis using assms(2) by (simp add: sector_end_def bank_def)
  next
    case False
    have "k + 1 \<notin> ?K"
    proof
      assume "k + 1 \<in> ?K"
      then have "k + 1 \<le> Max ?K" by (intro Max_ge) auto
      then show False by (simp add: k_def)
    qed
    then have "a < fi_start info ! (k + 1)" using False k(1) by (simp add: not_le)
    then show ?thesis using sector_end_less [OF assms(1), of k a] False k(1) by simp
  qed
  with k show ?thesis by (auto simp: sector_def)
qed

lemma sector_in_bank:
  assumes "bank_ok info" and "k < sect_count info" and "a \<in> sector info k"
  shows "a \<in> bank info"
proof -
  have "fi_start info ! 0 \<le> fi_start info ! k" using start_mono [OF assms(1), of 0 k] assms(2) by (cases "k = 0") auto
  moreover have "a \<le> bank_end info"
  proof (cases "k + 1 = sect_count info")
    case True
    then show ?thesis using assms(3) by (simp add: sector_def sector_end_def)
  next
    case False
    let ?l = "sect_count info - 1"
    have l: "k + 1 \<le> ?l" "?l < sect_count info" using assms(2) False by simp_all
    have "a < fi_start info ! (k + 1)" using assms(3) l sector_end_less [OF assms(1), of k a] by (simp add: sector_def)
    also have "\<dots> \<le> fi_start info ! ?l" using start_mono [OF assms(1) _ l(2), of "k + 1"] l(1) by (cases "k + 1 = ?l") auto
    also have "\<dots> = last (fi_start info)" using assms(1,2) by (subst last_conv_nth) (auto simp: bank_ok_def)
    also have "\<dots> \<le> bank_end info" using assms(1) by (simp add: bank_ok_def)
    finally show ?thesis by simp
  qed
  ultimately show ?thesis using assms(3) by (auto simp: bank_def sector_def)
qed

lemma bank_start_end: "bank_ok info \<Longrightarrow> i < sect_count info \<Longrightarrow> fi_start info ! i \<le> sector_end info i"
proof (cases "i + 1 = sect_count info")
  case True
  assume "bank_ok info"
  moreover have "last (fi_start info) = fi_start info ! i"
    using True \<open>bank_ok info\<close> by (metis add_diff_cancel_right' bank_ok_def last_conv_nth less_nat_zero_code list.size(3))
  ultimately show ?thesis using True by (simp add: bank_ok_def sector_end_def)
next
  case False
  assume a: "bank_ok info" "i < sect_count info"
  with False have "fi_start info ! i < fi_start info ! (i + 1)" by (intro start_mono) simp_all
  with a False show ?thesis by (simp add: sector_end_less)
qed

section \<open>What the driver relies on\<close>

text \<open>One command with its wait loop.\<close>

definition erase_sector :: "'c bus \<Rightarrow> addr \<Rightarrow> 'c \<Rightarrow> (bool \<times> 'c) option" where
  "erase_sector bus a c = (let (start, c) = bus_get_timer bus 0 (erase_cmd bus a c) in erase_wait bus a start c)"

definition program_word :: "'c bus \<Rightarrow> u16 \<Rightarrow> addr \<Rightarrow> 'c \<Rightarrow> (bool \<times> 'c) option" where
  "program_word bus b a c = (let (start, c) = bus_get_timer bus 0 (program_cmd bus b a c) in write_wait bus a b start c)"

text \<open>
  The command states of the data sheet. In \<open>Embedded a m\<close> an erase or program operation at address
  \<open>a\<close> is running; \<open>m\<close> is the array as it will read afterwards. \<open>Undefined\<close> is reached by cycles
  outside the part of the command table below, and nothing is assumed of it.
\<close>

datatype nor_mode =
    Array | Unlock1 | Unlock2 | Program_setup | Erase_setup | Erase_unlock1 | Erase_unlock2
  | Embedded addr mem | Undefined

text \<open>
  The command table, for one write cycle. The chip is at address 0xF0000000, with the word address on
  the address lines from bit 1 on, of which the unlock cycles decode the lower eleven. Its data lines
  DQ7 to DQ0, which carry the command, are the upper byte of a halfword.
\<close>

definition nor_erased :: "flash_info \<Rightarrow> addr \<Rightarrow> mem \<Rightarrow> mem" where
  "nor_erased info a m = (\<lambda>x. if \<exists>i\<in>{0..<sect_count info}. a \<in> sector info i \<and> x \<in> sector info i then 0xff else m x)"

definition nor_command :: "flash_info \<Rightarrow> u16 \<Rightarrow> addr \<Rightarrow> mem \<Rightarrow> nor_mode \<Rightarrow> nor_mode" where
  "nor_command info d a m mode =
     (let cmd = ucast (drop_bit 8 d) :: u8; wa = drop_bit 1 (a - 0xF0000000) AND 0x7ff
      in case mode of
           Array \<Rightarrow> if wa = 0x555 \<and> cmd = 0xAA then Unlock1 else Undefined
         | Unlock1 \<Rightarrow> if wa = 0x2AA \<and> cmd = 0x55 then Unlock2 else Undefined
         | Unlock2 \<Rightarrow>
             if wa = 0x555 \<and> cmd = 0xA0 then Program_setup
             else if wa = 0x555 \<and> cmd = 0x80 then Erase_setup else Undefined
         | Program_setup \<Rightarrow> Embedded a (m(a := m a AND ucast (drop_bit 8 d), a + 1 := m (a + 1) AND ucast d))
         | Erase_setup \<Rightarrow> if wa = 0x555 \<and> cmd = 0xAA then Erase_unlock1 else Undefined
         | Erase_unlock1 \<Rightarrow> if wa = 0x2AA \<and> cmd = 0x55 then Erase_unlock2 else Undefined
         | Erase_unlock2 \<Rightarrow>
             if cmd = 0x30 then Embedded a (nor_erased info a m)
             else if wa = 0x555 \<and> cmd = 0x10 then Embedded a (\<lambda>x. if x \<in> bank info then 0xff else m x)
             else Undefined
         | Embedded _ _ \<Rightarrow> Undefined
         | Undefined \<Rightarrow> Undefined)"

text \<open>
  What can be said of a device state: the mode of the chip and its array, the number of timer ticks
  since the start (20 per second), and for an embedded operation the tick at which it is over at the
  latest and a bound on the reads that still find it running.
\<close>

record 'c nor_view =
  nv_mode :: "'c \<Rightarrow> nor_mode"
  nv_cells :: "'c \<Rightarrow> mem"
  nv_clock :: "'c \<Rightarrow> nat"
  nv_due :: "'c \<Rightarrow> nat"
  nv_left :: "'c \<Rightarrow> nat"

text \<open>
  A read cycle at address \<open>a\<close> that returns \<open>v\<close>, where \<open>data m\<close> is what array \<open>m\<close> holds there and \<open>n\<close> the
  number of the bit that carries DQ7. During an embedded operation at that address DQ7 is the
  complement of the final data until the operation is over.
\<close>

definition nor_read_cycle :: "'c nor_view \<Rightarrow> nat \<Rightarrow> (mem \<Rightarrow> 'w::len word) \<Rightarrow> addr \<Rightarrow> 'c \<Rightarrow> 'w word \<times> 'c \<Rightarrow> bool" where
  "nor_read_cycle V n data a c = (\<lambda>(v, c').
     nv_clock V c \<le> nv_clock V c' \<and> nv_clock V c' \<le> nv_clock V c + 1 \<and>
     (nv_mode V c = Array \<longrightarrow> v = data (nv_cells V c) \<and> nv_mode V c' = Array \<and> nv_cells V c' = nv_cells V c) \<and>
     (\<forall>m. nv_mode V c = Embedded a m \<longrightarrow>
        bit v n \<noteq> bit (data m) n \<and> nv_clock V c \<le> nv_due V c \<and> nv_mode V c' = Embedded a m \<and>
          nv_due V c' = nv_due V c \<and> nv_left V c' < nv_left V c \<or>
        v = data m \<and> nv_mode V c' = Array \<and> nv_cells V c' = m))"

text \<open>Time passes without an access to the chip, at most \<open>n\<close> ticks.\<close>

definition nor_pause :: "'c nor_view \<Rightarrow> nat \<Rightarrow> 'c \<Rightarrow> 'c \<Rightarrow> bool" where
  "nor_pause V n c c' \<longleftrightarrow>
     nv_mode V c' = nv_mode V c \<and> nv_cells V c' = nv_cells V c \<and> nv_due V c' = nv_due V c \<and> nv_left V c' = nv_left V c \<and>
     nv_clock V c \<le> nv_clock V c' \<and> nv_clock V c' \<le> nv_clock V c + n"

text \<open>
  The chip on its bus: every write cycle follows the command table and starts embedded operations that
  are over within 4000 ticks (200 seconds, more than the data sheet allows for erasing the whole
  chip); the timer counts ticks modulo \<open>2 ^ 32\<close>, and a delay takes at most five times as long as asked
  for. The sectors of the table are those of the chip.
\<close>

definition nor_laws :: "'c bus \<Rightarrow> flash_info \<Rightarrow> 'c nor_view \<Rightarrow> bool" where
  "nor_laws bus info V \<longleftrightarrow>
     bank info \<subseteq> {0xF0000000 .. 0xF07FFFFF} \<and> (\<forall>i < sect_count info. even (unat (fi_start info ! i))) \<and>
     (\<forall>c a d. a \<in> {0xF0000000 .. 0xF07FFFFF} \<longrightarrow> even (unat a) \<longrightarrow> (\<forall>a' m. nv_mode V c \<noteq> Embedded a' m) \<longrightarrow>
        (let c' = bus_writew bus d a c
         in nv_mode V c' = nor_command info d a (nv_cells V c) (nv_mode V c) \<and> nv_cells V c' = nv_cells V c \<and>
            nv_due V c' \<le> nv_clock V c' + 4000)) \<and>
     (\<forall>c a. a \<in> bank info \<longrightarrow> even (unat a) \<longrightarrow>
        nor_read_cycle V 7 (\<lambda>m. m a) a c (bus_readb bus a c) \<and>
        nor_read_cycle V 15 (\<lambda>m. be16 (m a) (m (a + 1))) a c (bus_readw bus a c)) \<and>
     (\<forall>c b. let (t, c') = bus_get_timer bus b c in t = of_nat (nv_clock V c') - b \<and> nor_pause V 1 c c') \<and>
     (\<forall>c us. nor_pause V (unat us div 10000) c (bus_udelay bus us c))"

text \<open>As the hypothesis of the theorems: \<open>ready\<close> says that no command is in progress, \<open>cells\<close> is the array.\<close>

definition nor_chip :: "'c bus \<Rightarrow> flash_info \<Rightarrow> ('c \<Rightarrow> bool) \<Rightarrow> ('c \<Rightarrow> mem) \<Rightarrow> bool" where
  "nor_chip bus info ready cells \<longleftrightarrow>
     (\<exists>V. nor_laws bus info V \<and> nv_cells V = cells \<and> (\<forall>c. ready c \<longleftrightarrow> nv_mode V c = Array))"

section \<open>The commands on the chip\<close>

lemma nor_write_cycle:
  assumes "nor_laws bus info V" and "a \<in> {0xF0000000 .. 0xF07FFFFF}" and "even (unat a)"
    and "nv_mode V c = mode" and "nv_cells V c = m" and "\<forall>a' m'. mode \<noteq> Embedded a' m'"
  shows "nv_mode V (bus_writew bus d a c) = nor_command info d a m mode"
    and "nv_cells V (bus_writew bus d a c) = m"
    and "nv_due V (bus_writew bus d a c) \<le> nv_clock V (bus_writew bus d a c) + 4000"
  using assms unfolding nor_laws_def Let_def by blast+

lemma command_addrs: "FIRST_ADDR = 0xF0000AAA" "SECOND_ADDR = 0xF0000554"
  by (simp_all add: FIRST_ADDR_def SECOND_ADDR_def CONFIG_SYS_FLASH_BASE_def)

lemmas nor_write_first = nor_write_cycle [where a = FIRST_ADDR, unfolded command_addrs, simplified]
lemmas nor_write_second = nor_write_cycle [where a = SECOND_ADDR, unfolded command_addrs, simplified]

lemma erase_cmd_chip:
  assumes "nor_laws bus info V" and "nv_mode V c = Array" and "a \<in> bank info" and "even (unat a)"
  shows "nv_mode V (erase_cmd bus a c) = Embedded a (nor_erased info a (nv_cells V c))"
    and "nv_due V (erase_cmd bus a c) \<le> nv_clock V (erase_cmd bus a c) + 4000"
proof -
  have a: "a \<in> {0xF0000000 .. 0xF07FFFFF}" using assms(1,3) by (auto simp: nor_laws_def)
  define c1 where "c1 = bus_writew bus 0xaa00 0xF0000AAA c"
  define c2 where "c2 = bus_writew bus 0x5500 0xF0000554 c1"
  define c3 where "c3 = bus_writew bus 0x8000 0xF0000AAA c2"
  define c4 where "c4 = bus_writew bus 0xaa00 0xF0000AAA c3"
  define c5 where "c5 = bus_writew bus 0x5500 0xF0000554 c4"
  let ?m = "nv_cells V c"
  have m1: "nv_mode V c1 = Unlock1" "nv_cells V c1 = ?m"
    using nor_write_first(1,2) [OF assms(1,2) refl, of "0xaa00"] by (simp_all add: c1_def nor_command_def)
  have m2: "nv_mode V c2 = Unlock2" "nv_cells V c2 = ?m"
    using nor_write_second(1,2) [OF assms(1) m1, of "0x5500"] by (simp_all add: c2_def nor_command_def)
  have m3: "nv_mode V c3 = Erase_setup" "nv_cells V c3 = ?m"
    using nor_write_first(1,2) [OF assms(1) m2, of "0x8000"] by (simp_all add: c3_def nor_command_def)
  have m4: "nv_mode V c4 = Erase_unlock1" "nv_cells V c4 = ?m"
    using nor_write_first(1,2) [OF assms(1) m3, of "0xaa00"] by (simp_all add: c4_def nor_command_def)
  have m5: "nv_mode V c5 = Erase_unlock2" "nv_cells V c5 = ?m"
    using nor_write_second(1,2) [OF assms(1) m4, of "0x5500"] by (simp_all add: c5_def nor_command_def)
  have eq: "erase_cmd bus a c = bus_writew bus 0x3000 a c5"
    by (simp add: erase_cmd_def command_addrs c1_def c2_def c3_def c4_def c5_def)
  show "nv_mode V (erase_cmd bus a c) = Embedded a (nor_erased info a ?m)"
    using nor_write_cycle(1) [OF assms(1) a assms(4) m5, of "0x3000"] by (simp add: eq nor_command_def)
  show "nv_due V (erase_cmd bus a c) \<le> nv_clock V (erase_cmd bus a c) + 4000"
    using nor_write_cycle(3) [OF assms(1) a assms(4) m5, of "0x3000"] by (simp add: eq)
qed

lemma program_cmd_chip:
  assumes "nor_laws bus info V" and "nv_mode V c = Array" and "a \<in> bank info" and "even (unat a)"
  shows "nv_mode V (program_cmd bus b a c) = Embedded a ((nv_cells V c)
      (a := nv_cells V c a AND ucast (drop_bit 8 b), a + 1 := nv_cells V c (a + 1) AND ucast b))"
    and "nv_due V (program_cmd bus b a c) \<le> nv_clock V (program_cmd bus b a c) + 4000"
proof -
  have a: "a \<in> {0xF0000000 .. 0xF07FFFFF}" using assms(1,3) by (auto simp: nor_laws_def)
  define c1 where "c1 = bus_writew bus 0xaa00 0xF0000AAA c"
  define c2 where "c2 = bus_writew bus 0x5500 0xF0000554 c1"
  define c3 where "c3 = bus_writew bus 0xa000 0xF0000AAA c2"
  let ?m = "nv_cells V c"
  have m1: "nv_mode V c1 = Unlock1" "nv_cells V c1 = ?m"
    using nor_write_first(1,2) [OF assms(1,2) refl, of "0xaa00"] by (simp_all add: c1_def nor_command_def)
  have m2: "nv_mode V c2 = Unlock2" "nv_cells V c2 = ?m"
    using nor_write_second(1,2) [OF assms(1) m1, of "0x5500"] by (simp_all add: c2_def nor_command_def)
  have m3: "nv_mode V c3 = Program_setup" "nv_cells V c3 = ?m"
    using nor_write_first(1,2) [OF assms(1) m2, of "0xa000"] by (simp_all add: c3_def nor_command_def)
  have eq: "program_cmd bus b a c = bus_writew bus b a c3"
    by (simp add: program_cmd_def command_addrs c1_def c2_def c3_def)
  show "nv_mode V (program_cmd bus b a c) = Embedded a (?m(a := ?m a AND ucast (drop_bit 8 b), a + 1 := ?m (a + 1) AND ucast b))"
    using nor_write_cycle(1) [OF assms(1) a assms(4) m3, of b] by (simp add: eq nor_command_def)
  show "nv_due V (program_cmd bus b a c) \<le> nv_clock V (program_cmd bus b a c) + 4000"
    using nor_write_cycle(3) [OF assms(1) a assms(4) m3, of b] by (simp add: eq)
qed

text \<open>The laws of a read cycle and of the timer, as rules.\<close>

lemma nor_read_array:
  assumes "nor_read_cycle V n data a c (v, c')" and "nv_mode V c = Array"
  shows "v = data (nv_cells V c)" and "nv_mode V c' = Array" and "nv_cells V c' = nv_cells V c"
  using assms by (auto simp: nor_read_cycle_def)

lemma nor_read_embedded:
  assumes "nor_read_cycle V n data a c (v, c')" and "nv_mode V c = Embedded a m"
  obtains (running) "v \<noteq> data m" and "nv_mode V c' = Embedded a m" and "nv_due V c' = nv_due V c"
      and "nv_left V c' < nv_left V c" and "nv_clock V c \<le> nv_clock V c'" and "nv_clock V c' \<le> nv_due V c + 1"
    | (over) "v = data m" and "nv_mode V c' = Array" and "nv_cells V c' = m"
  using assms by (fastforce simp: nor_read_cycle_def)

lemma nor_read_laws:
  assumes "nor_laws bus info V" and "a \<in> bank info" and "even (unat a)"
  shows "nor_read_cycle V 7 (\<lambda>m. m a) a c (bus_readb bus a c)"
    and "nor_read_cycle V 15 (\<lambda>m. be16 (m a) (m (a + 1))) a c (bus_readw bus a c)"
  using assms unfolding nor_laws_def by blast+

lemma nor_timer:
  assumes "nor_laws bus info V" and "bus_get_timer bus b c = (t, c')"
  shows "t = of_nat (nv_clock V c') - b" and "nor_pause V 1 c c'"
proof -
  have "let (t, c') = bus_get_timer bus b c in t = of_nat (nv_clock V c') - b \<and> nor_pause V 1 c c'"
    using assms(1) unfolding nor_laws_def by blast
  then show "t = of_nat (nv_clock V c') - b" "nor_pause V 1 c c'" by (simp_all add: assms(2))
qed

lemma nor_delay: "nor_laws bus info V \<Longrightarrow> nor_pause V (unat us div 10000) c (bus_udelay bus us c)"
  unfolding nor_laws_def by blast

text \<open>The time shown by the timer since tick \<open>s\<close>.\<close>

lemma elapsed:
  assumes "s \<le> t" and "t \<le> s + n" and "n < 2 ^ 32"
  shows "(of_nat t - of_nat s :: u32) \<le> of_nat n"
proof -
  have eq: "(of_nat t - of_nat s :: u32) = of_nat (t - s)" using assms(1) by (simp add: of_nat_diff)
  show ?thesis unfolding eq using assms by (simp add: word_le_nat_alt unat_of_nat del: of_nat_diff)
qed

lemma erase_wait_chip:
  assumes "nor_laws bus info V" and "a \<in> bank info" and "even (unat a)" and "m a = 0xff"
    and "nv_mode V c = Embedded a m" and "s \<le> nv_clock V c" and "nv_due V c \<le> s + 4000"
  shows "\<exists>c'. erase_wait bus a (of_nat s) c = Some (True, c') \<and> nv_mode V c' = Array \<and> nv_cells V c' = m"
  using assms(5-)
proof (induction "nv_left V c" arbitrary: c rule: less_induct)
  case less
  obtain v c1 where r: "bus_readb bus a c = (v, c1)" by (cases "bus_readb bus a c")
  have "nor_read_cycle V 7 (\<lambda>m. m a) a c (v, c1)"
    using nor_read_laws(1) [OF assms(1-3), of c] by (simp add: r)
  from this less.prems(1) show ?case
  proof (cases rule: nor_read_embedded)
    case over
    then show ?thesis by (subst erase_wait.simps) (simp add: r assms(4))
  next
    case running
    define c2 where "c2 = bus_udelay bus 1000000 c1"
    obtain t c3 where g: "bus_get_timer bus (of_nat s) c2 = (t, c3)" by (cases "bus_get_timer bus (of_nat s) c2")
    note d = nor_delay [OF assms(1), of 1000000 c1, folded c2_def, unfolded nor_pause_def]
    note gt = nor_timer [OF assms(1) g, unfolded nor_pause_def]
    have "t \<le> of_nat 4200"
      unfolding gt(1) using d gt(2) running less.prems by (intro elapsed) auto
    then have "\<not> CONFIG_FLASH_ERASE_TOUT < t"
      by (simp add: CONFIG_FLASH_ERASE_TOUT_def not_less word_le_nat_alt)
    then have "erase_wait bus a (of_nat s) c = erase_wait bus a (of_nat s) c3"
      using running(1) assms(4) by (subst erase_wait.simps) (simp add: r g c2_def [symmetric])
    with less.hyps [of c3] show ?thesis using d gt(2) running less.prems by simp
  qed
qed

lemma write_wait_chip:
  assumes "nor_laws bus info V" and "a \<in> bank info" and "even (unat a)" and "be16 (m a) (m (a + 1)) = b"
    and "nv_mode V c = Embedded a m" and "s \<le> nv_clock V c" and "nv_due V c \<le> s + 4000"
  shows "\<exists>c'. write_wait bus a b (of_nat s) c = Some (True, c') \<and> nv_mode V c' = Array \<and> nv_cells V c' = m"
  using assms(5-)
proof (induction "nv_left V c" arbitrary: c rule: less_induct)
  case less
  obtain v c1 where r: "bus_readw bus a c = (v, c1)" by (cases "bus_readw bus a c")
  have "nor_read_cycle V 15 (\<lambda>m. be16 (m a) (m (a + 1))) a c (v, c1)"
    using nor_read_laws(2) [OF assms(1-3), of c] by (simp add: r)
  from this less.prems(1) show ?case
  proof (cases rule: nor_read_embedded)
    case over
    then show ?thesis by (subst write_wait.simps) (simp add: r assms(4))
  next
    case running
    obtain t c3 where g: "bus_get_timer bus (of_nat s) c1 = (t, c3)" by (cases "bus_get_timer bus (of_nat s) c1")
    note gt = nor_timer [OF assms(1) g, unfolded nor_pause_def]
    have "t \<le> of_nat 4002"
      unfolding gt(1) using gt(2) running less.prems by (intro elapsed) auto
    then have "\<not> CONFIG_FLASH_WRITE_TOUT < t"
      by (simp add: CONFIG_FLASH_WRITE_TOUT_def not_less word_le_nat_alt)
    then have "write_wait bus a b (of_nat s) c = write_wait bus a b (of_nat s) c3"
      using running(1) assms(4) by (subst write_wait.simps) (simp add: r g)
    with less.hyps [of c3] show ?thesis using gt(2) running less.prems by simp
  qed
qed

text \<open>What the flash commands build on: reading a word, erasing a sector and programming a word.\<close>

lemma next_neq [simp]: "(a :: addr) \<noteq> a + 1" "a + 1 \<noteq> (a :: addr)"
  by simp_all

lemma bit_be16: "bit (be16 b0 b1) n \<longleftrightarrow> (if n < 8 then bit b1 n else n < 16 \<and> bit b0 (n - 8))"
  by (auto simp: be16_def bit_or_iff bit_push_bit_iff bit_ucast_iff dest: bit_u8_bound)

lemma be16_bytes [simp]: "ucast (drop_bit 8 (be16 b0 b1)) = b0" "ucast (be16 b0 b1) = b1"
  by (auto simp: bit_eq_iff bit_be16 bit_ucast_iff bit_drop_bit_eq)

lemma be16_and:
  assumes "be16 x y AND be16 b0 b1 = be16 b0 b1"
  shows "x AND b0 = b0" and "y AND b1 = b1"
proof -
  have "ucast (drop_bit 8 (be16 x y AND be16 b0 b1)) = (x AND b0 :: u8)" "ucast (be16 x y AND be16 b0 b1) = (y AND b1 :: u8)"
    by (auto simp: bit_eq_iff bit_and_iff bit_be16 bit_ucast_iff bit_drop_bit_eq)
  with assms show "x AND b0 = b0" "y AND b1 = b1" by simp_all
qed

lemma nor_erased_start:
  assumes "bank_ok info" and "i < sect_count info"
  shows "nor_erased info (fi_start info ! i) m = (\<lambda>a. if a \<in> sector info i then 0xff else m a)"
    and "nor_erased info (fi_start info ! i) m (fi_start info ! i) = 0xff"
proof -
  have here: "fi_start info ! i \<in> sector info i" using bank_start_end [OF assms] by (simp add: sector_def)
  then have "fi_start info ! i \<in> sector info j \<longleftrightarrow> i = j" if "j < sect_count info" for j
    using sector_unique [OF assms(1)] assms(2) that by blast
  then show eq: "nor_erased info (fi_start info ! i) m = (\<lambda>a. if a \<in> sector info i then 0xff else m a)"
    using assms(2) by (auto simp: nor_erased_def fun_eq_iff)
  show "nor_erased info (fi_start info ! i) m (fi_start info ! i) = 0xff" using here by (simp add: eq)
qed

lemma nor_read:
  assumes "nor_chip bus info ready cells" and "ready c" and "a \<in> bank info" and "even (unat a)"
  obtains c' where "bus_readw bus a c = (be16 (cells c a) (cells c (a + 1)), c')" and "ready c'" and "cells c' = cells c"
proof -
  obtain V where V: "nor_laws bus info V" "nv_cells V = cells" "\<And>c. ready c \<longleftrightarrow> nv_mode V c = Array"
    using assms(1) unfolding nor_chip_def by blast
  obtain v c1 where r: "bus_readw bus a c = (v, c1)" by (cases "bus_readw bus a c")
  show ?thesis
    using that r nor_read_array [OF nor_read_laws(2) [OF V(1) assms(3,4), of c, unfolded r]] assms(2) V(2,3) by simp
qed

lemma nor_erase:
  assumes "nor_chip bus info ready cells" and "bank_ok info" and "ready c" and "i < sect_count info"
  obtains c' where "erase_sector bus (fi_start info ! i) c = Some (True, c')" and "ready c'"
    and "cells c' = (\<lambda>a. if a \<in> sector info i then 0xff else cells c a)"
proof -
  obtain V where V: "nor_laws bus info V" "nv_cells V = cells" "\<And>c. ready c \<longleftrightarrow> nv_mode V c = Array"
    using assms(1) unfolding nor_chip_def by blast
  define a where "a = fi_start info ! i"
  have a: "a \<in> bank info" "even (unat a)"
    using sector_in_bank [OF assms(2,4)] bank_start_end [OF assms(2,4)] V(1) assms(4)
    by (auto simp: a_def sector_def nor_laws_def)
  note m = nor_erased_start [OF assms(2,4), folded a_def]
  have c: "nv_mode V c = Array" using assms(3) V(3) by simp
  note cmd = erase_cmd_chip [OF V(1) c a]
  obtain t c1 where g: "bus_get_timer bus 0 (erase_cmd bus a c) = (t, c1)" by (cases "bus_get_timer bus 0 (erase_cmd bus a c)")
  note gt = nor_timer [OF V(1) g, unfolded nor_pause_def]
  have "\<exists>c'. erase_wait bus a (of_nat (nv_clock V c1)) c1 = Some (True, c') \<and> nv_mode V c' = Array \<and>
      nv_cells V c' = nor_erased info a (nv_cells V c)"
    using cmd gt(2) by (intro erase_wait_chip [where m = "nor_erased info a (nv_cells V c)", OF V(1) a m(2)]) auto
  then show ?thesis
    using that V(2,3) gt(1) by (auto simp: a_def [symmetric] erase_sector_def g m(1))
qed

lemma nor_program:
  assumes "nor_chip bus info ready cells" and "ready c" and "a \<in> bank info" and "even (unat a)"
    and "be16 (cells c a) (cells c (a + 1)) AND be16 b0 b1 = be16 b0 b1"
  obtains c' where "program_word bus (be16 b0 b1) a c = Some (True, c')" and "ready c'"
    and "cells c' = (cells c)(a := b0, a + 1 := b1)"
proof -
  obtain V where V: "nor_laws bus info V" "nv_cells V = cells" "\<And>c. ready c \<longleftrightarrow> nv_mode V c = Array"
    using assms(1) unfolding nor_chip_def by blast
  let ?m = "(cells c)(a := b0, a + 1 := b1)"
  have c: "nv_mode V c = Array" using assms(2) V(3) by simp
  have m: "be16 (?m a) (?m (a + 1)) = be16 b0 b1" by simp
  note cmd = program_cmd_chip [OF V(1) c assms(3,4), of "be16 b0 b1", unfolded V(2) be16_bytes be16_and [OF assms(5)]]
  obtain t c1 where g: "bus_get_timer bus 0 (program_cmd bus (be16 b0 b1) a c) = (t, c1)"
    by (cases "bus_get_timer bus 0 (program_cmd bus (be16 b0 b1) a c)")
  note gt = nor_timer [OF V(1) g, unfolded nor_pause_def]
  have "\<exists>c'. write_wait bus a (be16 b0 b1) (of_nat (nv_clock V c1)) c1 = Some (True, c') \<and> nv_mode V c' = Array \<and>
      nv_cells V c' = ?m"
    using cmd gt(2) by (intro write_wait_chip [where m = ?m, OF V(1) assms(3,4) m]) auto
  then show ?thesis
    using that V(2,3) gt(1) by (auto simp: program_word_def g)
qed

section \<open>Erasing\<close>

text \<open>The unprotected sectors of a range of sectors.\<close>

definition erasable :: "flash_info \<Rightarrow> nat \<Rightarrow> nat \<Rightarrow> addr set" where
  "erasable info i j = (\<Union>k \<in> {k. i \<le> k \<and> k \<le> j \<and> fi_protect info ! k = 0}. sector info k)"

lemma erasable_empty: "j < i \<Longrightarrow> erasable info i j = {}"
  by (auto simp: erasable_def)

lemma erasable_step:
  "i \<le> j \<Longrightarrow> erasable info i j = (if fi_protect info ! i = 0 then sector info i else {}) \<union> erasable info (i + 1) j"
proof -
  assume "i \<le> j"
  then have "{k. i \<le> k \<and> k \<le> j \<and> fi_protect info ! k = 0} =
      (if fi_protect info ! i = 0 then {i} else {}) \<union> {k. i + 1 \<le> k \<and> k \<le> j \<and> fi_protect info ! k = 0}"
    by (auto simp: le_less Suc_le_eq)
  then show ?thesis unfolding erasable_def by simp
qed

lemma erase_loop_cells:
  assumes "nor_chip bus info ready cells" and "bank_ok info" and "ready c" and "j < sect_count info"
  shows "\<exists>c'. erase_loop bus info i j c = Some (0, c') \<and> ready c' \<and>
    cells c' = (\<lambda>a. if a \<in> erasable info i j then 0xff else cells c a)"
  using assms(3)
proof (induction "Suc j - i" arbitrary: i c)
  case 0
  then show ?case by (subst erase_loop.simps) (auto simp: erasable_empty)
next
  case (Suc k)
  then have ij: "i \<le> j" "k = Suc j - (i + 1)" by simp_all
  have len: "i < length (fi_protect info)" "i < length (fi_start info)" "i < sect_count info"
    using ij(1) assms(2,4) by (simp_all add: bank_ok_def)
  show ?case
  proof (cases "fi_protect info ! i = 0")
    case False
    with Suc.hyps(1) [OF ij(2) Suc.prems] ij(1) len show ?thesis
      by (subst erase_loop.simps) (simp add: erasable_step)
  next
    case True
    obtain c1 where c1: "erase_sector bus (fi_start info ! i) c = Some (True, c1)" "ready c1"
      "cells c1 = (\<lambda>a. if a \<in> sector info i then 0xff else cells c a)"
      using assms(1,2) Suc.prems len(3) by (rule nor_erase)
    have "erase_loop bus info i j c = erase_loop bus info (i + 1) j c1"
      using c1(1) ij(1) len True by (subst erase_loop.simps) (simp add: erase_sector_def Let_def split: prod.splits)
    moreover from Suc.hyps(1) [OF ij(2) c1(2)] obtain c2 where "erase_loop bus info (i + 1) j c1 = Some (0, c2)"
      "ready c2" "cells c2 = (\<lambda>a. if a \<in> erasable info (i + 1) j then 0xff else cells c1 a)" by blast
    ultimately show ?thesis
      using c1(3) True ij(1) by (auto simp: erasable_step fun_eq_iff)
  qed
qed

section \<open>Programming\<close>

lemma be16_ones: "be16 0xff 0xff AND b = b"
proof -
  have "be16 0xff 0xff = - 1" by (simp add: be16_def)
  then show ?thesis by simp
qed

lemma overwrite_two:
  "length xs + 1 < 2 ^ 32 \<Longrightarrow> overwrite m p (x # y # xs) = overwrite (m(p := x, p + 1 := y)) (p + 2) xs"
  by (simp add: overwrite_Cons add.assoc)

lemma write_buff_step:
  assumes "cnt \<noteq> 0" and "bus_readw bus dst c = (v, c1)" and "b = be16 (m src) (m (src + 1))" and "v AND b = b"
    and "program_word bus b dst c1 = Some (True, c2)"
  shows "write_buff bus m src dst cnt c = write_buff bus m (src + 2) (dst + 2) (cnt - 2) c2"
  using assms by (subst write_buff.simps) (simp add: program_word_def Let_def split: prod.splits)

lemma two_step_word:
  "2 * Suc k < 2 ^ 32 \<Longrightarrow> (of_nat (2 * Suc k) :: u32) \<noteq> 0 \<and> of_nat (2 * Suc k) - 2 = (of_nat (2 * k) :: u32)"
proof -
  assume "2 * Suc k < 2 ^ 32"
  then have "unat (of_nat (2 * Suc k) :: u32) = 2 * Suc k" unfolding unat_of_nat by simp
  then have "(of_nat (2 * Suc k) :: u32) \<noteq> 0" by (metis nat.distinct(1) mult_eq_0_iff unat_0 zero_neq_numeral)
  then show ?thesis by simp
qed

lemma write_buff_cells:
  assumes "nor_chip bus info ready cells" and "bank_ok info"
    and "ready c" and "2 * n < 2 ^ 32" and "even (unat dst)" and "area dst (2 * n) \<subseteq> bank info"
    and "\<forall>a \<in> area dst (2 * n). cells c a = 0xff"
  shows "\<exists>c'. write_buff bus m src dst (of_nat (2 * n)) c = Some (0, c') \<and> ready c' \<and>
    cells c' = overwrite (cells c) dst (load m src (2 * n))"
  using assms(3-)
proof (induction n arbitrary: src dst c)
  case 0
  then show ?case by (subst write_buff.simps) simp
next
  case (Suc n)
  have here: "dst \<in> area dst (2 * Suc n)" "dst + 1 \<in> area dst (2 * Suc n)"
    using area_plus [of 0 "2 * Suc n" dst] area_plus [of 1 "2 * Suc n" dst] Suc.prems(2) by simp_all
  have dst: "dst \<in> bank info" using here(1) Suc.prems(4) by blast
  have ones: "cells c dst = 0xff" "cells c (dst + 1) = 0xff" using here Suc.prems(5) by blast+
  let ?b0 = "m src" and ?b1 = "m (src + 1)"
  obtain c1 where c1: "bus_readw bus dst c = (be16 (cells c dst) (cells c (dst + 1)), c1)" "ready c1" "cells c1 = cells c"
    using assms(1) Suc.prems(1) dst Suc.prems(3) by (rule nor_read)
  have "be16 (cells c1 dst) (cells c1 (dst + 1)) AND be16 ?b0 ?b1 = be16 ?b0 ?b1"
    by (simp only: c1(3) ones be16_ones)
  with assms(1) c1(2) dst Suc.prems(3) obtain c2 where c2: "program_word bus (be16 ?b0 ?b1) dst c1 = Some (True, c2)"
    "ready c2" "cells c2 = (cells c1)(dst := ?b0, dst + 1 := ?b1)" by (rule nor_program)
  note word = two_step_word [OF Suc.prems(2)]
  have step: "write_buff bus m src dst (of_nat (2 * Suc n)) c = write_buff bus m (src + 2) (dst + 2) (of_nat (2 * n)) c2"
    using write_buff_step [of "of_nat (2 * Suc n)" bus dst c _ c1 _ m src c2] word c1(1) c2(1)
    by (metis be16_ones ones)
  have rest: "a \<in> area dst (2 * Suc n) \<and> a \<noteq> dst \<and> a \<noteq> dst + 1" if a: "a \<in> area (dst + 2) (2 * n)" for a
  proof -
    define k where "k = offset (dst + 2) a"
    have k: "k < 2 * n" using a by (simp add: area_def k_def)
    have "dst + of_nat (k + 2) = dst + 2 + of_nat k" by simp
    also have "\<dots> = a" unfolding k_def by (rule offset_inverse)
    finally have "a = dst + of_nat (k + 2)" by (rule sym)
    moreover have "k + 2 < 2 ^ 32" using k Suc.prems(2) by simp
    ultimately have "offset dst a = k + 2" by (simp only: offset_plus)
    with k show ?thesis using offset_eq_0 [of dst a] offset_plus [of 1 dst] by (auto simp: area_def)
  qed
  have "even (unat (dst + 2))" using Suc.prems(3) by (simp add: unat_word_ariths dvd_mod_iff)
  moreover have "area (dst + 2) (2 * n) \<subseteq> bank info" using rest Suc.prems(4) by blast
  moreover have "\<forall>a \<in> area (dst + 2) (2 * n). cells c2 a = 0xff" using rest Suc.prems(5) by (simp add: c2(3) c1(3))
  moreover have "2 * n < 2 ^ 32" using Suc.prems(2) by simp
  ultimately obtain c3 where c3: "write_buff bus m (src + 2) (dst + 2) (of_nat (2 * n)) c2 = Some (0, c3)"
    "ready c3" "cells c3 = overwrite (cells c2) (dst + 2) (load m (src + 2) (2 * n))"
    using Suc.IH [OF c2(2)] by blast
  have "load m src (2 * Suc n) = ?b0 # ?b1 # load m (src + 2) (2 * n)"
    by (simp add: load_Suc add.assoc)
  with c3 step show ?case using Suc.prems(2) by (simp add: overwrite_two c2(3) c1(3))
qed

text \<open>With an odd count the loop counter never becomes zero.\<close>

lemma odd_minus_two: "odd (unat (cnt :: u32)) \<Longrightarrow> odd (unat (cnt - 2))"
  by (simp add: unat_word_ariths unat_sub_if' dvd_mod_iff split: if_splits)

lemma write_buff_odd:
  assumes "write_buff bus m src dst cnt c = Some y" and "odd (unat cnt)"
  shows "fst y \<noteq> 0"
proof -
  have "odd (unat cnt) \<longrightarrow> fst y \<noteq> 0"
  proof (rule write_buff.raw_induct [where P = "\<lambda>bus m src dst cnt c y. odd (unat cnt) \<longrightarrow> fst y \<noteq> 0", OF _ assms(1)])
    fix f :: "'a bus \<Rightarrow> mem \<Rightarrow> addr \<Rightarrow> addr \<Rightarrow> u32 \<Rightarrow> 'a \<Rightarrow> (int \<times> 'a) option"
      and bus :: "'a bus" and m src dst and cnt :: u32 and c :: 'a and y
    assume IH: "\<And>bus m src dst cnt c y. f bus m src dst cnt c = Some y \<Longrightarrow> odd (unat cnt) \<longrightarrow> fst y \<noteq> 0"
      and body: "(if cnt = 0 then Some (0, c)
        else let b = be16 (m src) (m (src + 1)); (v, c) = bus_readw bus dst c
          in if v AND b \<noteq> b then Some (2, snd (bus_readw bus dst c))
            else let (start, c) = bus_get_timer bus 0 (program_cmd bus b dst c)
              in case write_wait bus dst b start c of None \<Rightarrow> None
                | Some (ok, c) \<Rightarrow> if ok then f bus m (src + 2) (dst + 2) (cnt - 2) c else Some (1, c)) = Some y"
    show "odd (unat cnt) \<longrightarrow> fst y \<noteq> 0"
    proof
      assume odd: "odd (unat cnt)"
      then have "cnt \<noteq> 0" by auto
      from odd_minus_two [OF odd] have "\<And>m src dst c y. f bus m src dst (cnt - 2) c = Some y \<Longrightarrow> fst y \<noteq> 0"
        using IH by blast
      with body \<open>cnt \<noteq> 0\<close> show "fst y \<noteq> 0" by (auto simp: Let_def split: prod.splits if_splits option.splits)
    qed
  qed
  with assms(2) show ?thesis by blast
qed

section \<open>The table of the board\<close>

lemma fill_starts_eq:
  "fill_starts n addr sz = (map (\<lambda>i. addr + of_nat i * sz) [0..<n], addr + of_nat n * sz)"
proof (induction n arbitrary: addr)
  case (Suc n)
  have "[0..<Suc n] = 0 # map Suc [0..<n]" by (simp add: upt_conv_Cons map_Suc_upt del: upt_Suc)
  with Suc show ?case by (simp add: Let_def algebra_simps del: upt_Suc)
qed simp

definition sector_off :: "nat \<Rightarrow> nat" where
  "sector_off i = (if i < 8 then i * 8192 else 65536 + (i - 8) * 65536)"

lemma flash_init_starts:
  assumes "i < 135"
  shows "fi_start (snd flash_init) ! i = CONFIG_SYS_FLASH_BASE + of_nat (sector_off i)"
  using assms
  by (auto simp: flash_init_def fill_starts_eq Let_def nth_append sector_off_def CONFIG_SYS_MAX_FLASH_SECT_def
      SECTSZ_SMALL_def SECTSZ_LARGE_def)

lemma sector_off_mono: "i < j \<Longrightarrow> sector_off i < sector_off j"
  by (auto simp: sector_off_def)

lemma flash_init_fields:
  "length (fi_start (snd flash_init)) = 135" "length (fi_protect (snd flash_init)) = 135"
  "sect_count (snd flash_init) = 135" "fi_size (snd flash_init) = CONFIG_SYS_FLASH_SIZE"
  "fi_flash_id (snd flash_init) = 0x1000F4" "i < 135 \<Longrightarrow> fi_protect (snd flash_init) ! i = 1"
  by (simp_all add: flash_init_def fill_starts_eq Let_def sect_count_def CONFIG_SYS_MAX_FLASH_SECT_def
      FLASH_AMD_COMP_def FLASH_S29GL064A_04_def)

lemma unat_flash_start:
  assumes "i < 135"
  shows "unat (fi_start (snd flash_init) ! i) = 0xF0000000 + sector_off i"
proof -
  have "sector_off i < 0x800000" using assms by (auto simp: sector_off_def)
  then show ?thesis
    using assms by (simp add: flash_init_starts CONFIG_SYS_FLASH_BASE_def unat_plus_of_nat)
qed

lemma bank_ok_flash_init: "bank_ok (snd flash_init)"
proof -
  let ?s = "fi_start (snd flash_init)"
  have "sorted_wrt (<) ?s"
    unfolding sorted_wrt_iff_nth_less
    using unat_flash_start sector_off_mono by (simp add: flash_init_fields word_less_nat_alt)
  moreover have "last ?s = ?s ! 134"
    using flash_init_fields(1) by (metis diff_Suc_1 last_conv_nth list.size(3) numeral_eq_Suc pred_numeral_simps(3) zero_neq_numeral BitM.simps)
  moreover have "?s ! 134 \<le> bank_end (snd flash_init)"
    by (simp add: bank_end_def flash_init_starts flash_init_fields CONFIG_SYS_FLASH_BASE_def CONFIG_SYS_FLASH_SIZE_def sector_off_def)
  ultimately show ?thesis
    by (simp add: bank_ok_def flash_init_fields unat_flash_start sector_off_def CONFIG_SYS_FLASH_SIZE_def)
qed

lemma bank_flash_init: "bank (snd flash_init) = {0xF0000000 .. 0xF07FFFFF}"
  by (simp add: bank_def bank_end_def flash_init_starts flash_init_fields sector_off_def CONFIG_SYS_FLASH_BASE_def
      CONFIG_SYS_FLASH_SIZE_def)

lemma flash_init_sector:
  assumes "k < 135"
  shows "fi_start (snd flash_init) ! k =
      (if k < 8 then 0xF0000000 + of_nat k * 0x2000 else 0xF0010000 + of_nat (k - 8) * 0x10000)"
    and "sector_end (snd flash_init) k =
      (if k < 8 then 0xF0000000 + of_nat k * 0x2000 + 0x1FFF else 0xF0010000 + of_nat (k - 8) * 0x10000 + 0xFFFF)"
proof -
  have start: "fi_start (snd flash_init) ! k =
      (if k < 8 then 0xF0000000 + of_nat k * 0x2000 else 0xF0010000 + of_nat (k - 8) * 0x10000)" if "k < 135" for k
    using that by (simp add: flash_init_starts sector_off_def CONFIG_SYS_FLASH_BASE_def)
  then show "fi_start (snd flash_init) ! k =
      (if k < 8 then 0xF0000000 + of_nat k * 0x2000 else 0xF0010000 + of_nat (k - 8) * 0x10000)" using assms .
  consider "k < 7" | "k = 7" | "8 \<le> k" "k < 134" | "k = 134" using assms by linarith
  then show "sector_end (snd flash_init) k =
      (if k < 8 then 0xF0000000 + of_nat k * 0x2000 + 0x1FFF else 0xF0010000 + of_nat (k - 8) * 0x10000 + 0xFFFF)"
    by cases (simp_all add: sector_end_def flash_init_fields start bank_end_def CONFIG_SYS_FLASH_SIZE_def Suc_diff_le algebra_simps)
qed

section \<open>Properties\<close>

text \<open>
  C33: \<open>flash_init\<close> builds the sector table of the chip: eight sectors of 8 KB from 0xF0000000 on, then
  127 of 64 KB, each ending right before the next. The table is well formed, every address of the
  8 MB of flash, and no other, lies in exactly one sector, and all sectors are write protected.
\<close>

theorem flash_init_table:
  "map (\<lambda>k. (fi_start (snd flash_init) ! k, sector_end (snd flash_init) k)) [0..<135] =
     map (\<lambda>i. (0xF0000000 + of_nat i * 0x2000, 0xF0000000 + of_nat i * 0x2000 + 0x1FFF)) [0..<8] @
     map (\<lambda>i. (0xF0010000 + of_nat i * 0x10000, 0xF0010000 + of_nat i * 0x10000 + 0xFFFF)) [0..<127] \<and>
   sect_count (snd flash_init) = 135 \<and> bank_ok (snd flash_init) \<and>
   ((0xF0000000 \<le> a \<and> a \<le> 0xF07FFFFF) \<longleftrightarrow> (\<exists>!k. k < 135 \<and> a \<in> sector (snd flash_init) k)) \<and>
   fi_protect (snd flash_init) = replicate 135 1"
proof -
  have "a \<in> bank (snd flash_init) \<longleftrightarrow> (\<exists>!k. k < 135 \<and> a \<in> sector (snd flash_init) k)"
    using bank_cover [OF bank_ok_flash_init, of a] sector_in_bank [OF bank_ok_flash_init, of _ a]
      sector_unique [OF bank_ok_flash_init, of a] unfolding flash_init_fields(3) by blast
  moreover have "fi_protect (snd flash_init) = replicate 135 1"
    by (rule nth_equalityI) (simp_all add: flash_init_fields)
  moreover have "map (\<lambda>k. (fi_start (snd flash_init) ! k, sector_end (snd flash_init) k)) [0..<135] =
      map (\<lambda>i. (0xF0000000 + of_nat i * 0x2000, 0xF0000000 + of_nat i * 0x2000 + 0x1FFF)) [0..<8] @
      map (\<lambda>i. (0xF0010000 + of_nat i * 0x10000, 0xF0010000 + of_nat i * 0x10000 + 0xFFFF)) [0..<127]"
    by (rule nth_equalityI) (simp_all add: nth_append flash_init_sector)
  ultimately show ?thesis using bank_ok_flash_init flash_init_fields(3) by (simp add: bank_flash_init)
qed

text \<open>
  C35: \<open>write_buff\<close> called with an odd byte count never reports success, whatever the device does: the
  count is decremented by two and never becomes zero.
\<close>

theorem write_buff_odd_count:
  assumes "odd (unat cnt)"
  shows "write_buff bus m src dst cnt c \<noteq> Some (0, c')"
  using write_buff_odd [of bus m src dst cnt c "(0, c')"] assms by auto

theorem write_buff_odd_count_witness:
  "write_buff \<lparr>bus_readb = (\<lambda>a c. (0xff, c)), bus_readw = (\<lambda>a c. (0xffff, c)), bus_writew = (\<lambda>b a c. c),
     bus_get_timer = (\<lambda>t c. (c, c + 1)), bus_udelay = (\<lambda>t c. c)\<rparr> (\<lambda>a. 0xff) 0x1000 0xF0040000 3 (0 :: u32) \<noteq> Some (0, 0)"
  by (rule write_buff_odd_count) simp

end
