(* ===== verification/Flash_Sect.thy ===== *)
theory Flash_Sect
  imports Flash_Driver
begin

text \<open>
  The chip-independent flash layer: sector protection and checked writing of \<^verbatim>\<open>common/flash.c\<close>, and the
  sector ranges, erasing and protecting of \<^verbatim>\<open>common/cmd_flash.c\<close>, for the one bank of the board
  (\<open>CONFIG_SYS_MAX_FLASH_BANKS\<close> is 1, so that the loops over banks run once). Messages are left out.
\<close>

section \<open>The code\<close>

definition ERR_OK :: int where "ERR_OK = 0"
definition ERR_PROTECTED :: int where "ERR_PROTECTED = 4"
definition ERR_INVAL :: int where "ERR_INVAL = 8"
definition FLAG_PROTECT_SET :: u32 where "FLAG_PROTECT_SET = 1"
definition FLAG_PROTECT_CLEAR :: u32 where "FLAG_PROTECT_CLEAR = 2"
definition FLASH_UNKNOWN :: u32 where "FLASH_UNKNOWN = 0xFFFF"

text \<open>\<open>end\<close> of sector \<open>i\<close> as the loops compute it, with the bounds of the table checked.\<close>

definition sect_end :: "flash_info \<Rightarrow> nat \<Rightarrow> u32 option" where
  "sect_end info i =
     (if i + 1 = sect_count info then Some (bank_end info)
      else if i + 1 < length (fi_start info) then Some (fi_start info ! (i + 1) - 1) else None)"

definition set_protect :: "flash_info \<Rightarrow> nat \<Rightarrow> u8 \<Rightarrow> flash_info option" where
  "set_protect info i p =
     (if i < length (fi_protect info) then Some (info\<lparr>fi_protect := (fi_protect info)[i := p]\<rparr>) else None)"

function protect_loop :: "u32 \<Rightarrow> u32 \<Rightarrow> u32 \<Rightarrow> flash_info \<Rightarrow> nat \<Rightarrow> flash_info option" where
  "protect_loop flag from to info i =
     (if sect_count info \<le> i then Some info
      else if length (fi_start info) \<le> i \<or> length (fi_protect info) \<le> i then None
      else
        case sect_end info i of
          None \<Rightarrow> None
        | Some e \<Rightarrow>
            protect_loop flag from to
              (if from \<le> e \<and> fi_start info ! i \<le> to then
                 if flag AND FLAG_PROTECT_CLEAR \<noteq> 0 then info\<lparr>fi_protect := (fi_protect info)[i := 0]\<rparr>
                 else if flag AND FLAG_PROTECT_SET \<noteq> 0 then info\<lparr>fi_protect := (fi_protect info)[i := 1]\<rparr>
                 else info
               else info) (i + 1))"
  by pat_completeness auto
termination
  by (relation "measure (\<lambda>(flag, from, to, info, i). sect_count info - i)") (auto simp: sect_count_def)

declare protect_loop.simps [simp del]

definition flash_protect :: "u32 \<Rightarrow> u32 \<Rightarrow> u32 \<Rightarrow> flash_info \<Rightarrow> flash_info option" where
  "flash_protect flag from to info =
     (if sect_count info = 0 \<or> fi_size info = 0 \<or> to < from then Some info
      else if fi_flash_id info = FLASH_UNKNOWN \<or> to < fi_start info ! 0 \<or> bank_end info < from then Some info
      else protect_loop flag from to info 0)"

text \<open>Whether the bank holds the address: \<open>addr2info\<close> returns the bank or \<open>NULL\<close>.\<close>

definition addr2info :: "flash_info \<Rightarrow> u32 \<Rightarrow> bool" where
  "addr2info info addr \<longleftrightarrow>
     fi_flash_id info \<noteq> FLASH_UNKNOWN \<and> fi_start info ! 0 \<le> addr \<and> addr \<le> fi_start info ! 0 + fi_size info - 1"

text \<open>The loop of \<open>flash_write\<close> that looks for a protected sector in the range.\<close>

function protected_hit :: "flash_info \<Rightarrow> u32 \<Rightarrow> u32 \<Rightarrow> nat \<Rightarrow> bool option" where
  "protected_hit info addr e i =
     (if sect_count info \<le> i then Some False
      else if length (fi_start info) \<le> i \<or> length (fi_protect info) \<le> i \<or>
        i + 1 \<noteq> sect_count info \<and> length (fi_start info) \<le> i + 1 then None
      else
        let e_addr = (if i + 1 = sect_count info then fi_start info ! 0 + fi_size info else fi_start info ! (i + 1))
        in if fi_start info ! i \<le> e \<and> addr < e_addr \<and> fi_protect info ! i \<noteq> 0 then Some True
           else protected_hit info addr e (i + 1))"
  by pat_completeness auto
termination
  by (relation "measure (\<lambda>(info, addr, e, i). sect_count info - i)") auto

declare protected_hit.simps [simp del]

definition flash_write :: "'c bus \<Rightarrow> flash_info \<Rightarrow> mem \<Rightarrow> addr \<Rightarrow> u32 \<Rightarrow> u32 \<Rightarrow> 'c \<Rightarrow> (int \<times> 'c) option" where
  "flash_write bus info m src addr cnt c =
     (let e = addr + cnt - 1
      in if cnt = 0 then Some (ERR_OK, c)
         else if \<not> addr2info info addr \<or> \<not> addr2info info e then Some (ERR_INVAL, c)
         else
           case protected_hit info addr e 0 of
             None \<Rightarrow> None
           | Some True \<Rightarrow> Some (ERR_PROTECTED, c)
           | Some False \<Rightarrow>
               (let len = fi_start info ! 0 + fi_size info - addr;
                    len = (if cnt < len then cnt else len)
                in write_buff bus m src addr len c))"

text \<open>The sector loop of \<open>flash_fill_sect_ranges\<close>.\<close>

function range_loop :: "flash_info \<Rightarrow> u32 \<Rightarrow> u32 \<Rightarrow> nat \<Rightarrow> int \<Rightarrow> int \<Rightarrow> (int \<times> int) option" where
  "range_loop info addr_first addr_last sect s_first s_last =
     (if sect_count info \<le> sect then Some (s_first, s_last)
      else if length (fi_start info) \<le> sect then None
      else
        case sect_end info sect of
          None \<Rightarrow> None
        | Some e \<Rightarrow>
            if e < addr_first \<or> addr_last < fi_start info ! sect
            then range_loop info addr_first addr_last (sect + 1) s_first s_last
            else
              range_loop info addr_first addr_last (sect + 1)
                (if addr_first = fi_start info ! sect then int sect else s_first)
                (if addr_last = e then int sect else s_last))"
  by pat_completeness auto
termination
  by (relation "measure (\<lambda>(info, af, al, sect, sf, sl). sect_count info - sect)") auto

declare range_loop.simps [simp del]

text \<open>The result code, first and last sector and the number of sectors.\<close>

definition flash_fill_sect_ranges :: "flash_info \<Rightarrow> u32 \<Rightarrow> u32 \<Rightarrow> (int \<times> int \<times> int \<times> int) option" where
  "flash_fill_sect_ranges info addr_first addr_last =
     (if addr_last < addr_first \<or> fi_flash_id info = FLASH_UNKNOWN then Some (0, - 1, - 1, 0)
      else
        case range_loop info addr_first addr_last 0 (- 1) (- 1) of
          None \<Rightarrow> None
        | Some (s_first, s_last) \<Rightarrow>
            if 0 \<le> s_first then
              if s_last < 0 \<and> addr_last \<le> bank_end info then Some (1, s_first, s_last, 0)
              else
                let s_last = (if s_last < 0 then int (sect_count info) - 1 else s_last)
                in if s_last < s_first then Some (1, s_first, s_last, 0)
                   else Some (0, s_first, s_last, s_last - s_first + 1)
            else if fi_start info ! 0 \<le> addr_first \<and> addr_first < bank_end info then Some (1, s_first, s_last, 0)
            else if 0 \<le> s_last then Some (1, s_first, s_last, 0)
            else Some (0, s_first, s_last, 0))"

definition flash_sect_erase :: "'c bus \<Rightarrow> flash_info \<Rightarrow> u32 \<Rightarrow> u32 \<Rightarrow> 'c \<Rightarrow> (int \<times> 'c) option" where
  "flash_sect_erase bus info addr_first addr_last c =
     (case flash_fill_sect_ranges info addr_first addr_last of
        None \<Rightarrow> None
      | Some (rcode, s_first, s_last, planned) \<Rightarrow>
          if planned \<noteq> 0 \<and> rcode = 0 then
            if 0 \<le> s_first then flash_erase bus info s_first s_last c else Some (0, c)
          else if rcode = 0 then Some (1, c)
          else Some (rcode, c))"

fun protect_range :: "flash_info \<Rightarrow> u8 \<Rightarrow> nat \<Rightarrow> nat \<Rightarrow> flash_info option" where
  "protect_range info p i 0 = Some info"
| "protect_range info p i (Suc n) =
     (case set_protect info i p of None \<Rightarrow> None | Some info' \<Rightarrow> protect_range info' p (i + 1) n)"

definition flash_sect_protect :: "u8 \<Rightarrow> u32 \<Rightarrow> u32 \<Rightarrow> flash_info \<Rightarrow> (int \<times> flash_info) option" where
  "flash_sect_protect p addr_first addr_last info =
     (case flash_fill_sect_ranges info addr_first addr_last of
        None \<Rightarrow> None
      | Some (rcode, s_first, s_last, planned) \<Rightarrow>
          if planned \<noteq> 0 \<and> rcode = 0 then
            if fi_flash_id info \<noteq> FLASH_UNKNOWN \<and> 0 \<le> s_first \<and> s_first \<le> s_last then
              map_option (Pair 0) (protect_range info p (nat s_first) (nat (s_last - s_first + 1)))
            else Some (0, info)
          else if rcode = 0 then Some (1, info)
          else Some (rcode, info))"

section \<open>Sector ranges\<close>

lemma sect_end_ok: "bank_ok info \<Longrightarrow> i < sect_count info \<Longrightarrow> sect_end info i = Some (sector_end info i)"
  by (auto simp: sect_end_def sector_end_def bank_ok_def)

lemma sectors_apart:
  assumes "bank_ok info" and "i < j" and "j < sect_count info"
  shows "sector_end info i < fi_start info ! j"
proof -
  have "sector_end info i < fi_start info ! (i + 1)"
    using sector_end_less [of info i "sector_end info i"] assms by simp
  also have "fi_start info ! (i + 1) \<le> fi_start info ! j"
    using start_mono [OF assms(1), of "i + 1" j] assms by (cases "i + 1 = j") auto
  finally show ?thesis .
qed

lemma start_eq_iff:
  assumes "bank_ok info" and "i < sect_count info" and "j < sect_count info"
  shows "fi_start info ! i = fi_start info ! j \<longleftrightarrow> i = j"
  using start_mono [OF assms(1), of i j] start_mono [OF assms(1), of j i] assms by (cases i j rule: linorder_cases) auto

lemma sector_end_mono:
  assumes "bank_ok info" and "i < j" and "j < sect_count info"
  shows "sector_end info i < sector_end info j"
  using sectors_apart [OF assms] bank_start_end [OF assms(1,3)] by (rule less_le_trans)

lemma sector_end_eq_iff:
  assumes "bank_ok info" and "i < sect_count info" and "j < sect_count info"
  shows "sector_end info i = sector_end info j \<longleftrightarrow> i = j"
  using sector_end_mono [OF assms(1), of i j] sector_end_mono [OF assms(1), of j i] assms
  by (cases i j rule: linorder_cases) auto

lemma range_loop_sectors:
  assumes "bank_ok info" and "i \<le> j" and "j < sect_count info" and "sect \<le> sect_count info"
  shows "range_loop info (fi_start info ! i) (sector_end info j) sect sf sl =
    Some (if sect \<le> i then int i else sf, if sect \<le> j then int j else sl)"
  using assms(4)
proof (induction "sect_count info - sect" arbitrary: sect sf sl)
  case 0
  then show ?case using assms by (subst range_loop.simps) simp
next
  case (Suc k)
  then have s: "sect < sect_count info" "sect + 1 \<le> sect_count info" "k = sect_count info - (sect + 1)" by simp_all
  have len: "\<not> length (fi_start info) \<le> sect" using s(1) assms(1) by (simp add: bank_ok_def)
  note step = range_loop.simps [of info "fi_start info ! i" "sector_end info j" sect sf sl]
  have skip: "sector_end info sect < fi_start info ! i \<or> sector_end info j < fi_start info ! sect \<longleftrightarrow> sect < i \<or> j < sect"
  proof -
    have "\<not> sector_end info sect < fi_start info ! i" if "i \<le> sect"
    proof -
      have "fi_start info ! i \<le> fi_start info ! sect"
        using that start_mono [OF assms(1), of i sect] s(1) by (cases "i = sect") auto
      also have "\<dots> \<le> sector_end info sect" using assms(1) s(1) by (rule bank_start_end)
      finally show ?thesis by simp
    qed
    moreover have "\<not> sector_end info j < fi_start info ! sect" if "sect \<le> j"
    proof -
      have "fi_start info ! sect \<le> fi_start info ! j"
        using that start_mono [OF assms(1), of sect j] assms(3) by (cases "sect = j") auto
      also have "\<dots> \<le> sector_end info j" using assms(1,3) by (rule bank_start_end)
      finally show ?thesis by simp
    qed
    moreover have "sector_end info sect < fi_start info ! i" if "sect < i"
      using sectors_apart [OF assms(1) that] assms(2,3) by simp
    moreover have "sector_end info j < fi_start info ! sect" if "j < sect"
      using sectors_apart [OF assms(1) that s(1)] .
    ultimately show ?thesis by (meson not_le)
  qed
  have ends: "fi_start info ! i = fi_start info ! sect \<longleftrightarrow> i = sect" "sector_end info j = sector_end info sect \<longleftrightarrow> j = sect"
    using start_eq_iff sector_end_eq_iff assms s(1) by simp_all
  show ?case
    unfolding step sect_end_ok [OF assms(1) s(1)] option.case skip ends Suc.hyps(1) [OF s(3) s(2)]
    using s len assms(2) by auto
qed

lemma fill_sect_ranges_ok:
  assumes "bank_ok info" and "i \<le> j" and "j < sect_count info"
  shows "flash_fill_sect_ranges info (fi_start info ! i) (sector_end info j) = Some (0, int i, int j, int j - int i + 1)"
proof -
  have "fi_start info ! i \<le> sector_end info j"
    using bank_start_end [OF assms(1), of i] sector_end_mono [OF assms(1), of i j] assms(2,3)
    by (cases "i = j") auto
  then show ?thesis
    using range_loop_sectors [OF assms, of 0 "- 1" "- 1"] assms
    by (simp add: flash_fill_sect_ranges_def bank_ok_def FLASH_UNKNOWN_def not_less Let_def)
qed

lemma protect_range_eq:
  assumes "i + n \<le> length (fi_protect info)"
  shows "protect_range info p i n =
    Some (info\<lparr>fi_protect := take i (fi_protect info) @ replicate n p @ drop (i + n) (fi_protect info)\<rparr>)"
  using assms
proof (induction n arbitrary: info i)
  case (Suc n)
  let ?ps = "fi_protect info"
  have "take (Suc i) (?ps[i := p]) @ replicate n p @ drop (Suc i + n) (?ps[i := p]) =
      take i ?ps @ replicate (Suc n) p @ drop (i + Suc n) ?ps"
    using Suc.prems by (simp add: take_Suc_conv_app_nth)
  with Suc show ?case by (simp add: set_protect_def)
qed simp

text \<open>The flags of the sectors \<open>i\<close> to \<open>j\<close> are set to \<open>p\<close>, the others kept.\<close>

definition with_protect :: "flash_info \<Rightarrow> nat \<Rightarrow> nat \<Rightarrow> u8 \<Rightarrow> flash_info" where
  "with_protect info i j p =
     info\<lparr>fi_protect := map (\<lambda>k. if i \<le> k \<and> k \<le> j then p else fi_protect info ! k) [0..<length (fi_protect info)]\<rparr>"

lemma flash_sect_protect_ok:
  assumes "bank_ok info" and "i \<le> j" and "j < sect_count info"
  shows "flash_sect_protect p (fi_start info ! i) (sector_end info j) info = Some (0, with_protect info i j p)"
proof -
  have n: "nat (int j - int i + 1) = Suc j - i" using assms(2) by simp
  have "take i (fi_protect info) @ replicate (Suc j - i) p @ drop (i + (Suc j - i)) (fi_protect info) =
      map (\<lambda>k. if i \<le> k \<and> k \<le> j then p else fi_protect info ! k) [0..<length (fi_protect info)]"
    using assms by (intro nth_equalityI) (auto simp: nth_append bank_ok_def)
  then show ?thesis
    using fill_sect_ranges_ok [OF assms] protect_range_eq [of i "Suc j - i" info p] assms
    by (simp add: flash_sect_protect_def with_protect_def n bank_ok_def FLASH_UNKNOWN_def)
qed

section \<open>Checked writing\<close>

lemma unat_bank_end:
  assumes "bank_ok info"
  shows "unat (bank_end info) + 1 = unat (fi_start info ! 0) + unat (fi_size info)"
    and "unat (fi_start info ! 0 + fi_size info) = unat (fi_start info ! 0) + unat (fi_size info)"
proof -
  have "0 < unat (fi_size info)" using assms by (simp add: bank_ok_def word_less_nat_alt)
  moreover show sum: "unat (fi_start info ! 0 + fi_size info) = unat (fi_start info ! 0) + unat (fi_size info)"
    using assms by (intro unat_add_lem [THEN iffD1]) (simp add: bank_ok_def)
  moreover have "fi_start info ! 0 + fi_size info \<noteq> 0" using calculation by (metis add_is_0 less_numeral_extra(3) unat_0)
  ultimately show "unat (bank_end info) + 1 = unat (fi_start info ! 0) + unat (fi_size info)"
    unfolding bank_end_def by (simp add: unat_minus_one)
qed

definition meets_protected :: "flash_info \<Rightarrow> u32 \<Rightarrow> u32 \<Rightarrow> nat \<Rightarrow> bool" where
  "meets_protected info addr e i \<longleftrightarrow>
     (\<exists>k. i \<le> k \<and> k < sect_count info \<and> fi_protect info ! k \<noteq> 0 \<and> fi_start info ! k \<le> e \<and> addr \<le> sector_end info k)"

lemma meets_protected_step:
  "i < sect_count info \<Longrightarrow> meets_protected info addr e i \<longleftrightarrow>
    fi_protect info ! i \<noteq> 0 \<and> fi_start info ! i \<le> e \<and> addr \<le> sector_end info i \<or> meets_protected info addr e (i + 1)"
proof -
  have "i \<le> k \<longleftrightarrow> k = i \<or> i + 1 \<le> k" for k by auto
  then show "i < sect_count info \<Longrightarrow> ?thesis" unfolding meets_protected_def by (simp only: conj_disj_distribR ex_disj_distrib) auto
qed

lemma protected_hit_eq:
  assumes "bank_ok info" and "i \<le> sect_count info"
  shows "protected_hit info addr e i = Some (meets_protected info addr e i)"
  using assms(2)
proof (induction "sect_count info - i" arbitrary: i)
  case 0
  then show ?case by (subst protected_hit.simps) (auto simp: meets_protected_def)
next
  case (Suc k)
  then have i: "i < sect_count info" "i + 1 \<le> sect_count info" "k = sect_count info - (i + 1)" by simp_all
  have len: "i < length (fi_start info)" "i < length (fi_protect info)"
    "i + 1 \<noteq> sect_count info \<Longrightarrow> i + 1 < length (fi_start info)"
    using i assms(1) by (auto simp: bank_ok_def)
  have "(addr < (if i + 1 = sect_count info then fi_start info ! 0 + fi_size info else fi_start info ! (i + 1))) =
      (addr \<le> sector_end info i)"
  proof (cases "i + 1 = sect_count info")
    case True
    then show ?thesis
      using unat_bank_end [OF assms(1)] by (auto simp: sector_end_def word_less_nat_alt word_le_nat_alt)
  next
    case False
    then show ?thesis using sector_end_less [OF assms(1), of i addr] i(1) by simp
  qed
  with Suc.hyps(1) [OF i(3,2)] len i(1) show ?case
    by (subst protected_hit.simps) (auto simp: Let_def meets_protected_step [OF i(1)] not_le)
qed

lemma in_bank:
  assumes "bank_ok info"
  shows "addr2info info a \<longleftrightarrow> a \<in> bank info"
  using assms by (auto simp: addr2info_def bank_def bank_end_def bank_ok_def FLASH_UNKNOWN_def)

lemma flash_write_unprotected:
  assumes ok: "bank_ok info" and "cnt \<noteq> 0" and "addr \<in> bank info" and "addr + cnt - 1 \<in> bank info"
    and "unat addr + unat cnt \<le> unat (bank_end info) + 1"
    and "\<not> meets_protected info addr (addr + cnt - 1) 0"
  shows "flash_write bus info m src addr cnt c = write_buff bus m src addr cnt c"
proof -
  have "unat (fi_start info ! 0 + fi_size info - addr) = unat (fi_start info ! 0) + unat (fi_size info) - unat addr"
    using assms(5) unat_bank_end [OF ok] by (subst unat_sub) (simp_all add: word_le_nat_alt)
  then have "cnt \<le> fi_start info ! 0 + fi_size info - addr"
    using assms(5) unat_bank_end(1) [OF ok] by (simp add: word_le_nat_alt)
  then have "(if cnt < fi_start info ! 0 + fi_size info - addr then cnt
      else fi_start info ! 0 + fi_size info - addr) = cnt" by auto
  then show ?thesis
    using assms by (simp add: flash_write_def Let_def in_bank protected_hit_eq)
qed

lemma flash_erase_sectors:
  assumes "bank_ok info" and "i \<le> j" and "j < sect_count info"
  shows "flash_sect_erase bus info (fi_start info ! i) (sector_end info j) c = erase_loop bus info i j c"
  using fill_sect_ranges_ok [OF assms] assms by (simp add: flash_sect_erase_def flash_erase_def)


section \<open>Properties\<close>



text \<open>
  In a bank that ends at the top of the address space the end address of the last sector wraps to
  zero in the check of \<open>flash_write\<close>, and a protected last sector is not noticed.
\<close>

lemma flash_write_misses_last_sector:
  "protected_hit \<lparr>fi_size = 0x10000, fi_sector_count = 1, fi_flash_id = 1, fi_start = [0xFFFF0000], fi_protect = [1]\<rparr>
     0xFFFF0000 0xFFFF0001 0 = Some False"
  by (subst protected_hit.simps, subst protected_hit.simps) (simp add: sect_count_def Let_def)

end
