(* ===== verification/Env_Store.thy ===== *)
theory Env_Store
  imports Env_Area Flash_Sect Lib_Crc Lib_Vsprintf
begin

text \<open>
  The environment of the monitor: \<^verbatim>\<open>common/cmd_nvedit.c\<close> (setting, deleting and reading variables),
  \<^verbatim>\<open>common/env_common.c\<close> (where the environment lies, its checksum, the default environment) and
  \<^verbatim>\<open>common/env_flash.c\<close> (loading it from and saving it to flash), in the configuration of the board:
  one copy of 64 KB in the flash sector at \<open>0xF0040000\<close>, not redundant, not embedded, with
  \<open>CONFIG_ENV_OVERWRITE\<close>. The state is one record. Parameters are the device under the flash driver
  and \<open>view\<close>, what the processor reads from it in the address range of the flash; the allocator;
  and \<open>console_assign\<close>, which selects console devices. Messages, delays and the setting of the UART
  divisor are left out. \<open>None\<close> is an access outside an array, a read through \<open>NULL\<close> or a loop that does
  not end.
\<close>

section \<open>The code\<close>

text \<open>Where \<open>gd->env_addr\<close> points.\<close>

datatype env_loc = Flash_Data | Ram_Data | Default_Data

record 'c env_state =
  fl_info :: flash_info
  fl_chip :: 'c
  env_ptr :: addr
  env_crcword :: u32
  env_data :: "u8 list"
  env_addr :: env_loc
  env_valid :: u32
  gd_reloc :: bool
  env_id :: u32
  gd_baudrate :: u32
  bi_enetaddr :: "u8 list"
  bi_ip_addr :: u32
  load_addr :: u32
  BootFile :: "u8 list"
  con_input :: "u8 list"

definition CONFIG_ENV_ADDR :: addr where "CONFIG_ENV_ADDR = CONFIG_SYS_FLASH_BASE + 64 * 1024 * 4"

text \<open>The settings of the board that have a configuration constant; two zeros end the array.\<close>

definition default_environment :: "u8 list" where
  "default_environment =
     concat (map (\<lambda>s. ascii s @ [0])
       [''bootdelay=3'', ''baudrate=115200'', ''ethaddr=08:00:3e:26:0a:5b'', ''ipaddr=192.168.2.190'',
        ''serverip=192.168.2.100'', ''gatewayip=192.168.2.100'', ''netmask=255.255.255.0'']) @ [0, 0]"

subsection \<open>Reading\<close>

definition env_area :: "('c \<Rightarrow> mem) \<Rightarrow> 'c env_state \<Rightarrow> u8 list" where
  "env_area view s =
     (case env_addr s of
        Flash_Data \<Rightarrow> load (view (fl_chip s)) (CONFIG_ENV_ADDR + 4) ENV_SIZE
      | Ram_Data \<Rightarrow> env_data s
      | Default_Data \<Rightarrow> default_environment)"

definition env_get_char_spec :: "('c \<Rightarrow> mem) \<Rightarrow> 'c env_state \<Rightarrow> nat \<Rightarrow> u8 option" where
  "env_get_char_spec view s index = get_byte (env_area view s) index"

definition env_get_char_init :: "('c \<Rightarrow> mem) \<Rightarrow> 'c env_state \<Rightarrow> nat \<Rightarrow> u8 option" where
  "env_get_char_init view s index =
     (if env_valid s \<noteq> 0 then env_get_char_spec view s index else get_byte default_environment index)"

definition env_get_char_memory :: "('c \<Rightarrow> mem) \<Rightarrow> 'c env_state \<Rightarrow> nat \<Rightarrow> u8 option" where
  "env_get_char_memory view s index =
     (if env_valid s \<noteq> 0 then get_byte (env_area view s) index else get_byte default_environment index)"

definition env_get_char :: "('c \<Rightarrow> mem) \<Rightarrow> 'c env_state \<Rightarrow> nat \<Rightarrow> u8 option" where
  "env_get_char view s index =
     (if gd_reloc s then env_get_char_memory view s index else env_get_char_init view s index)"

text \<open>The array behind \<open>env_get_addr\<close>, which is also what \<open>env_get_char\<close> reads.\<close>

definition env_get_addr :: "('c \<Rightarrow> mem) \<Rightarrow> 'c env_state \<Rightarrow> u8 list" where
  "env_get_addr view s = (if env_valid s \<noteq> 0 then env_area view s else default_environment)"

text \<open>The string at an index of that array: what the pointer returned by \<open>getenv\<close> points at.\<close>

definition getenv :: "('c \<Rightarrow> mem) \<Rightarrow> 'c env_state \<Rightarrow> u8 list \<Rightarrow> u8 list option option" where
  "getenv view s name =
     map_option (map_option (\<lambda>val. takeWhile (\<lambda>c. c \<noteq> 0) (drop val (env_get_addr view s))))
       (getenv_index (env_get_addr view s) name 0)"

subsection \<open>Setting\<close>

definition env_crc_update :: "'c env_state \<Rightarrow> 'c env_state" where
  "env_crc_update s = s\<lparr>env_crcword := crc32 0 (env_data s)\<rparr>"

text \<open>The fields of an address, separated by single characters.\<close>

fun parse_fields :: "nat \<Rightarrow> u32 \<Rightarrow> u8 list \<Rightarrow> u32 list option" where
  "parse_fields 0 base xs = Some []"
| "parse_fields (Suc n) base xs = do {
     (v, e) \<leftarrow> str_strtoul xs base;
     vs \<leftarrow> parse_fields n base (case e of [] \<Rightarrow> [] | _ # e' \<Rightarrow> e');
     Some (v # vs) }"

text \<open>What happens before an existing variable is deleted: an early return value, or the new state.\<close>

definition setenv_checks ::
    "(int \<Rightarrow> u8 list \<Rightarrow> int) \<Rightarrow> 'c env_state \<Rightarrow> u8 list \<Rightarrow> u8 list list \<Rightarrow> (int + 'c env_state) option" where
  "setenv_checks console_assign s name vals =
     (let console =
        (if name = ascii ''stdin'' then 0 else if name = ascii ''stdout'' then 1
         else if name = ascii ''stderr'' then 2 else - 1)
      in if console \<noteq> - 1 \<and> vals = [] then Some (Inl 1)
         else if console \<noteq> - 1 \<and> console_assign console (hd vals) < 0 then Some (Inl 1)
         else if name = ascii ''baudrate'' then
           if vals = [] then None
           else do {
             (baudrate, _) \<leftarrow> str_strtoul (hd vals) 10;
             if baudrate \<noteq> 115200 then Some (Inl 1)
             else
               case dropWhile (\<lambda>c. c \<noteq> 0x0d) (con_input s) of
                 [] \<Rightarrow> None
               | _ # rest \<Rightarrow> Some (Inr (s\<lparr>gd_baudrate := baudrate, con_input := rest\<rparr>)) }
         else Some (Inr s))"

text \<open>What follows the change of certain variables.\<close>

definition setenv_effects :: "'c env_state \<Rightarrow> u8 list \<Rightarrow> u8 list \<Rightarrow> 'c env_state option" where
  "setenv_effects s name val =
     (if name = ascii ''ethaddr'' then
        map_option (\<lambda>vs. s\<lparr>bi_enetaddr := map ucast vs\<rparr>) (parse_fields 6 16 val)
      else if name = ascii ''ipaddr'' then
        map_option (\<lambda>vs. s\<lparr>bi_ip_addr := foldl (\<lambda>a v. push_bit 8 a OR (v AND 0xff)) 0 vs\<rparr>) (parse_fields 4 10 val)
      else if name = ascii ''loadaddr'' then
        map_option (\<lambda>(v, _). s\<lparr>load_addr := v\<rparr>) (str_strtoul val 16)
      else if name = ascii ''bootfile'' then Some (s\<lparr>BootFile := copy_filename val 128\<rparr>)
      else Some s)"

text \<open>
  \<open>_do_setenv\<close> with the name \<open>argv[1]\<close> and the values \<open>argv[2]\<close> to \<open>argv[argc - 1]\<close>. It is meant for the
  copy in RAM; with the environment elsewhere the result is left open.
\<close>

definition do_setenv_env ::
    "('c \<Rightarrow> mem) \<Rightarrow> (int \<Rightarrow> u8 list \<Rightarrow> int) \<Rightarrow> 'c env_state \<Rightarrow> u8 list \<Rightarrow> u8 list list \<Rightarrow> (int \<times> 'c env_state) option" where
  "do_setenv_env view console_assign s name vals =
     (if env_valid s = 0 \<or> env_addr s \<noteq> Ram_Data then None
      else if 0x3d \<in> set name then Some (1, s)
      else do {
        let s = s\<lparr>env_id := env_id s + 1\<rparr>;
        found \<leftarrow> find_var (env_data s) name 0;
        s \<leftarrow>
          (case found of
             None \<Rightarrow> Some (Inr s)
           | Some (env, nxt, oldval) \<Rightarrow> do {
               checked \<leftarrow> setenv_checks console_assign s name vals;
               case checked of
                 Inl rc \<Rightarrow> Some (Inl (rc, s))
               | Inr s \<Rightarrow> do { e \<leftarrow> delete_var (env_data s) env nxt; Some (Inr (s\<lparr>env_data := e\<rparr>)) } });
        case s of
          Inl early \<Rightarrow> Some early
        | Inr s \<Rightarrow>
            if vals = [] then Some (0, env_crc_update s)
            else do {
              added \<leftarrow> append_var (env_data s) name vals;
              case added of
                None \<Rightarrow> Some (1, s)
              | Some e \<Rightarrow> do {
                  s \<leftarrow> setenv_effects (env_crc_update (s\<lparr>env_data := e\<rparr>)) name (hd vals);
                  Some (0, s) } } })"

definition setenv ::
    "('c \<Rightarrow> mem) \<Rightarrow> (int \<Rightarrow> u8 list \<Rightarrow> int) \<Rightarrow> 'c env_state \<Rightarrow> u8 list \<Rightarrow> u8 list option \<Rightarrow> (int \<times> 'c env_state) option" where
  "setenv view console_assign s varname varvalue =
     (case varvalue of
        None \<Rightarrow> do_setenv_env view console_assign s varname []
      | Some v \<Rightarrow> do_setenv_env view console_assign s varname [v])"

text \<open>The command, with its arguments behind the command name.\<close>

definition do_setenv ::
    "('c \<Rightarrow> mem) \<Rightarrow> (int \<Rightarrow> u8 list \<Rightarrow> int) \<Rightarrow> 'c env_state \<Rightarrow> u8 list list \<Rightarrow> (int \<times> 'c env_state) option" where
  "do_setenv view console_assign s args =
     (case args of [] \<Rightarrow> Some (1, s) | name # vals \<Rightarrow> do_setenv_env view console_assign s name vals)"

subsection \<open>Loading and saving\<close>

definition flash_crc :: "mem \<Rightarrow> u32" where
  "flash_crc m = be32 (m CONFIG_ENV_ADDR) (m (CONFIG_ENV_ADDR + 1)) (m (CONFIG_ENV_ADDR + 2)) (m (CONFIG_ENV_ADDR + 3))"

definition env_init :: "('c \<Rightarrow> mem) \<Rightarrow> 'c env_state \<Rightarrow> int \<times> 'c env_state" where
  "env_init view s =
     (if crc32 0 (load (view (fl_chip s)) (CONFIG_ENV_ADDR + 4) ENV_SIZE) = flash_crc (view (fl_chip s))
      then (0, s\<lparr>env_addr := Flash_Data, env_valid := 1\<rparr>)
      else (0, s\<lparr>env_addr := Default_Data, env_valid := 0\<rparr>))"

definition set_default_env :: "'c env_state \<Rightarrow> 'c env_state" where
  "set_default_env s =
     (if ENV_SIZE < length default_environment then s
      else
        let s = s\<lparr>env_crcword := 0, env_data := default_environment @ replicate (ENV_SIZE - length default_environment) 0\<rparr>
        in (env_crc_update s)\<lparr>env_valid := 1\<rparr>)"

definition env_relocate_spec :: "('c \<Rightarrow> mem) \<Rightarrow> 'c env_state \<Rightarrow> 'c env_state" where
  "env_relocate_spec view s =
     s\<lparr>env_crcword := flash_crc (view (fl_chip s)), env_data := load (view (fl_chip s)) (CONFIG_ENV_ADDR + 4) ENV_SIZE\<rparr>"

definition env_relocate :: "(nat \<Rightarrow> addr) \<Rightarrow> ('c \<Rightarrow> mem) \<Rightarrow> 'c env_state \<Rightarrow> 'c env_state" where
  "env_relocate malloc view s =
     (let s = s\<lparr>env_ptr := malloc CONFIG_ENV_SIZE\<rparr>;
          s = (if env_valid s = 0 then set_default_env s else env_relocate_spec view s)
      in s\<lparr>env_addr := Ram_Data\<rparr>)"

text \<open>The environment block as it lies at \<open>env_ptr\<close>.\<close>

definition env_image :: "'c env_state \<Rightarrow> u8 list" where
  "env_image s = bytes_be32 (env_crcword s) @ env_data s"

definition saveenv :: "'c bus \<Rightarrow> 'c env_state \<Rightarrow> (int \<times> 'c env_state) option" where
  "saveenv bus s =
     (let flash_sect_addr = CONFIG_ENV_ADDR;
          len = of_nat CONFIG_ENV_SIZE;
          end_addr = flash_sect_addr + len - 1;
          ram = overwrite (\<lambda>_. 0) (env_ptr s) (env_image s)
      in do {
        (rc, info) \<leftarrow> flash_sect_protect 0 flash_sect_addr end_addr (fl_info s);
        if rc \<noteq> 0 then Some (1, s\<lparr>fl_info := info\<rparr>)
        else do {
          (rc, c) \<leftarrow> flash_sect_erase bus info flash_sect_addr end_addr (fl_chip s);
          if rc \<noteq> 0 then Some (1, s\<lparr>fl_info := info, fl_chip := c\<rparr>)
          else do {
            (rc, c) \<leftarrow> flash_write bus info ram (env_ptr s) flash_sect_addr len c;
            (_, info) \<leftarrow> flash_sect_protect 1 flash_sect_addr end_addr info;
            Some (if rc \<noteq> 0 then 1 else 0, s\<lparr>fl_info := info, fl_chip := c\<rparr>) } } })"

section \<open>Reading refines looking up\<close>

definition env_ok :: "'c env_state \<Rightarrow> vars \<Rightarrow> bool" where
  "env_ok s vars \<longleftrightarrow>
     env_valid s \<noteq> 0 \<and> env_addr s = Ram_Data \<and> length (env_data s) = ENV_SIZE \<and> env_rep (env_data s) vars"

lemma env_okD:
  assumes "env_ok s vars"
  shows "env_get_addr view s = env_data s" and "wf_vars vars" and "length (env_data s) = ENV_SIZE" and "env_rep (env_data s) vars"
  using assms by (simp_all add: env_ok_def env_get_addr_def env_area_def env_rep_def)

lemma env_rep_split: "env_rep e vars \<Longrightarrow> \<exists>post. e = env_text vars @ 0 # post"
  by (cases "vars = []") (auto simp: env_rep_def prefix_def)

lemma value_at:
  assumes "env_rep e vars" and "map_of vars name = Some v"
  shows "takeWhile (\<lambda>c. c \<noteq> 0) (drop (var_pos vars name + length name + 1) e) = v"
proof -
  have wf: "wf_vars vars" using assms(1) by (simp add: env_rep_def)
  from split_var [OF wf assms(2)] obtain pre post where sp: "vars = pre @ (name, v) # post"
    "var_pos vars name = length (env_text pre)" by metis
  obtain rest where "e = env_text pre @ name @ 0x3d # v @ 0 # env_text post @ rest"
    using env_rep_split [OF assms(1)] by (auto simp: sp(1) entry_def)
  then have "drop (var_pos vars name + length name + 1) e = v @ 0 # env_text post @ rest"
    by (simp add: sp(2))
  moreover have "0 \<notin> set v" using wf by (auto simp: wf_vars_def sp(1))
  then have "takeWhile (\<lambda>c. c \<noteq> 0) (v @ 0 # env_text post @ rest) = v" by (subst takeWhile_append2) auto
  ultimately show ?thesis by simp
qed

lemma getenv_lookup:
  assumes "env_ok s vars" and "ok_name name"
  shows "getenv view s name = Some (map_of vars name)"
proof -
  note ok = env_okD [OF assms(1)]
  obtain post where e: "env_data s = env_text vars @ 0 # post" using env_rep_split [OF ok(4)] by blast
  then have "length ([] @ env_text vars) \<le> CONFIG_ENV_SIZE"
    using ok(3) by (simp add: ENV_SIZE_def)
  from getenv_index_text [OF ok(2) assms(2) this, of post]
  have "getenv_index (env_data s) name 0 = Some (map_option (\<lambda>v. var_pos vars name + length name + 1) (map_of vars name))"
    by (simp add: e)
  then show ?thesis
    using value_at [OF ok(4), of name] by (cases "map_of vars name") (simp_all add: getenv_def ok(1))
qed

section \<open>Setting\<close>

lemma parse_fields_total:
  assumes "length xs < 2 ^ 32"
  shows "\<exists>vs. parse_fields n base xs = Some vs"
  using assms
proof (induction n arbitrary: xs)
  case (Suc n)
  obtain r e where e: "str_strtoul xs base = Some (r, e)" using str_strtoul_total [OF Suc.prems] by blast
  then have "length e \<le> length xs" by (auto simp: str_strtoul_def)
  then have "length (case e of [] \<Rightarrow> [] | _ # e' \<Rightarrow> e') < 2 ^ 32" using Suc.prems by (auto split: list.split)
  from Suc.IH [OF this] e show ?case by auto
qed simp

text \<open>The effects keep the environment.\<close>

definition same_env :: "'c env_state \<Rightarrow> 'c env_state \<Rightarrow> bool" where
  "same_env s s' \<longleftrightarrow>
     env_data s' = env_data s \<and> env_crcword s' = env_crcword s \<and> env_addr s' = env_addr s \<and> env_valid s' = env_valid s \<and>
     fl_info s' = fl_info s \<and> fl_chip s' = fl_chip s \<and> env_ptr s' = env_ptr s"

lemma setenv_effects_total:
  assumes "length val < 2 ^ 32"
  shows "\<exists>s'. setenv_effects s name val = Some s' \<and> same_env s s'"
proof -
  obtain r e where "str_strtoul val 16 = Some (r, e)" using str_strtoul_total [OF assms] by blast
  then show ?thesis
    using parse_fields_total [OF assms, of 6 16] parse_fields_total [OF assms, of 4 10]
    by (auto simp: setenv_effects_def same_env_def)
qed

text \<open>Names whose change has no condition.\<close>

definition plain_name :: "u8 list \<Rightarrow> bool" where
  "plain_name name \<longleftrightarrow> name \<notin> {ascii ''stdin'', ascii ''stdout'', ascii ''stderr'', ascii ''baudrate''}"

lemma setenv_checks_plain: "plain_name name \<Longrightarrow> setenv_checks ca s name vals = Some (Inr s)"
  by (simp add: setenv_checks_def plain_name_def)

lemma del_var_absent: "map_of vars name = None \<Longrightarrow> del_var vars name = vars"
  by (simp add: del_var_def filter_id_conv map_of_eq_None_iff) (metis fst_conv image_iff)

lemma not_in_del_var: "name \<notin> fst ` set (del_var vars name)"
  by (auto simp: del_var_def)

text \<open>The first half of setting: afterwards the variable is gone.\<close>

lemma setenv_delete:
  assumes "env_rep e vars" and "ok_name name"
  shows "\<exists>e'. (case find_var e name 0 of
      None \<Rightarrow> None
    | Some None \<Rightarrow> Some e
    | Some (Some (env, nxt, oldval)) \<Rightarrow> delete_var e env nxt) = Some e' \<and>
    length e' = length e \<and> env_rep e' (del_var vars name)"
proof -
  have wf: "wf_vars vars" using assms(1) by (simp add: env_rep_def)
  obtain post where e: "e = env_text vars @ 0 # post" using env_rep_split [OF assms(1)] by blast
  note find = find_var_text [OF wf assms(2), of "[]" post]
  show ?thesis
  proof (cases "map_of vars name")
    case None
    with find assms(1) show ?thesis by (simp add: e del_var_absent)
  next
    case (Some v)
    with find have "find_var e name 0 = Some (Some (var_pos vars name, var_pos vars name + length name + 1 + length v,
        var_pos vars name + length name + 1))" by (simp add: e)
    with delete_var_rep [OF assms(1) Some] show ?thesis by simp
  qed
qed

lemma do_setenv_unfold:
  assumes "env_ok s vars" and "ok_name name" and "plain_name name"
    and "(case find_var (env_data s) name 0 of None \<Rightarrow> None | Some None \<Rightarrow> Some (env_data s)
      | Some (Some (env, nxt, oldval)) \<Rightarrow> delete_var (env_data s) env nxt) = Some e"
  shows "do_setenv_env view ca s name vals =
    (let s1 = s\<lparr>env_id := env_id s + 1, env_data := e\<rparr>
     in if vals = [] then Some (0, env_crc_update s1)
        else
          case append_var e name vals of
            None \<Rightarrow> None
          | Some None \<Rightarrow> Some (1, s1)
          | Some (Some e') \<Rightarrow>
              map_option (Pair 0) (setenv_effects (env_crc_update (s1\<lparr>env_data := e'\<rparr>)) name (hd vals)))"
proof -
  have "env_valid s \<noteq> 0" "env_addr s = Ram_Data" "0x3d \<notin> set name"
    using assms(1,2) by (simp_all add: env_ok_def ok_name_def)
  then show ?thesis
    using assms(4)
    by (auto simp: do_setenv_env_def setenv_checks_plain [OF assms(3)] Let_def env_crc_update_def map_option_case
        split: option.splits bind_splits)
qed

text \<open>The complete result for names without conditions.\<close>

lemma do_setenv_result:
  assumes ok: "env_ok s vars" and name: "ok_name name" "plain_name name" and vals: "\<forall>v\<in>set vals. 0 \<notin> set v"
  defines "new \<equiv> del_var vars name @ (if vals = [] then [] else [(name, join_vals vals)])"
  shows "if vals = [] \<or> length (env_text new) < ENV_SIZE
    then \<exists>s'. do_setenv_env view ca s name vals = Some (0, s') \<and> env_ok s' new \<and> env_crcword s' = crc32 0 (env_data s') \<and>
      fl_info s' = fl_info s \<and> fl_chip s' = fl_chip s \<and> env_ptr s' = env_ptr s
    else \<exists>s'. do_setenv_env view ca s name vals = Some (1, s') \<and> env_ok s' (del_var vars name)"
proof -
  note okD = env_okD [OF ok]
  from setenv_delete [OF okD(4) name(1)] obtain e where del:
    "(case find_var (env_data s) name 0 of None \<Rightarrow> None | Some None \<Rightarrow> Some (env_data s)
      | Some (Some (env, nxt, oldval)) \<Rightarrow> delete_var (env_data s) env nxt) = Some e"
    and e: "length e = ENV_SIZE" "env_rep e (del_var vars name)" unfolding okD(3) by blast
  note result = do_setenv_unfold [OF ok name del, of view ca vals]
  have base: "env_valid s \<noteq> 0" "env_addr s = Ram_Data" using ok by (simp_all add: env_ok_def)
  show ?thesis
  proof (cases "vals = []")
    case True
    then show ?thesis using base e unfolding result by (simp add: new_def env_ok_def env_crc_update_def)
  next
    case False
    have len: "length (env_text new) = length (env_text (del_var vars name)) + length name + length (join_vals vals) + 2"
      using False by (simp add: new_def entry_def)
    note app = append_var_rep [OF e(2,1) name(1) not_in_del_var False vals]
    show ?thesis
    proof (cases "length (env_text new) < ENV_SIZE")
      case True
      then have "length (env_text (del_var vars name)) + length name + length (join_vals vals) + 3 \<le> ENV_SIZE" using len by simp
      with app obtain e' where e': "append_var e name vals = Some (Some e')" "length e' = ENV_SIZE" "env_rep e' new"
        unfolding new_def using False e(1) by auto
      have "length (hd vals) \<le> length (join_vals vals)" using False by (induction vals rule: join_vals.induct) auto
      then have "length (hd vals) < 2 ^ 32" using True len by (simp add: ENV_SIZE_def CONFIG_ENV_SIZE_def)
      from setenv_effects_total [OF this, of "env_crc_update (s\<lparr>env_id := env_id s + 1, env_data := e'\<rparr>)" name]
      obtain s' where "setenv_effects (env_crc_update (s\<lparr>env_id := env_id s + 1, env_data := e'\<rparr>)) name (hd vals) = Some s'"
        "same_env (env_crc_update (s\<lparr>env_id := env_id s + 1, env_data := e'\<rparr>)) s'" by blast
      then show ?thesis
        using True False base e' unfolding result by (auto simp: Let_def same_env_def env_crc_update_def env_ok_def)
    next
      case no: False
      then have "\<not> length (env_text (del_var vars name)) + length name + length (join_vals vals) + 3 \<le> ENV_SIZE" using len by simp
      with app have "append_var e name vals = Some None" by (simp only: if_False)
      then show ?thesis
        using no False base e unfolding result by (simp add: Let_def env_ok_def)
    qed
  qed
qed

section \<open>Setting as a store of variables\<close>

text \<open>
  What the users of the environment rely on: a successful change of one variable changes what is read
  for that variable and for no other. A sequence of changes then leaves every variable with its last
  value.
\<close>

locale variable_store =
  fixes ok :: "'s \<Rightarrow> bool" and key :: "'k \<Rightarrow> bool" and val :: "'v \<Rightarrow> bool"
    and get :: "'s \<Rightarrow> 'k \<Rightarrow> 'v option" and put :: "'s \<Rightarrow> 'k \<times> 'v option \<Rightarrow> 's option"
  assumes put_ok: "ok s \<Longrightarrow> key k \<Longrightarrow> pred_option val v \<Longrightarrow> put s (k, v) = Some s' \<Longrightarrow> ok s'"
    and get_put: "ok s \<Longrightarrow> key k \<Longrightarrow> pred_option val v \<Longrightarrow> put s (k, v) = Some s' \<Longrightarrow> key k' \<Longrightarrow>
      get s' k' = (if k' = k then v else get s k')"
begin

fun puts :: "'s \<Rightarrow> ('k \<times> 'v option) list \<Rightarrow> 's option" where
  "puts s [] = Some s"
| "puts s (kv # kvs) = (case put s kv of None \<Rightarrow> None | Some s' \<Rightarrow> puts s' kvs)"

lemma get_puts:
  assumes "ok s" and "\<forall>kv\<in>set kvs. key (fst kv) \<and> pred_option val (snd kv)" and "puts s kvs = Some s'" and "key k"
  shows "ok s' \<and> get s' k = (case map_of (rev kvs) k of None \<Rightarrow> get s k | Some v \<Rightarrow> v)"
  using assms(1-3)
proof (induction kvs arbitrary: s)
  case (Cons kv kvs)
  obtain n v where kv: "kv = (n, v)" by (cases kv)
  obtain s1 where s1: "put s (n, v) = Some s1" "puts s1 kvs = Some s'"
    using Cons.prems(3) by (auto simp: kv split: option.splits)
  have "ok s1" using put_ok [OF Cons.prems(1) _ _ s1(1)] Cons.prems(2) by (simp add: kv)
  moreover have "get s1 k = (if k = n then v else get s k)"
    using get_put [OF Cons.prems(1) _ _ s1(1) assms(4)] Cons.prems(2) by (simp add: kv)
  ultimately show ?case
    using Cons.IH [OF _ _ s1(2)] Cons.prems(2) by (auto simp: kv map_add_def split: option.split)
qed simp

end

definition env_put :: "('c \<Rightarrow> mem) \<Rightarrow> (int \<Rightarrow> u8 list \<Rightarrow> int) \<Rightarrow> 'c env_state \<Rightarrow> u8 list \<times> u8 list option \<Rightarrow> 'c env_state option" where
  "env_put view ca s kv = (case setenv view ca s (fst kv) (snd kv) of Some (rc, s') \<Rightarrow> if rc = 0 then Some s' else None | None \<Rightarrow> None)"

lemma env_put_vars:
  assumes "env_ok s vars" and "ok_name k" and "plain_name k" and "pred_option (\<lambda>v. 0 \<notin> set v) v"
    and "env_put view ca s (k, v) = Some s'"
  shows "env_ok s' (del_var vars k @ (case v of None \<Rightarrow> [] | Some w \<Rightarrow> [(k, w)]))"
proof -
  let ?vals = "case v of None \<Rightarrow> [] | Some w \<Rightarrow> [w]"
  have set: "setenv view ca s k v = do_setenv_env view ca s k ?vals" by (simp add: setenv_def split: option.split)
  have "\<forall>w\<in>set ?vals. 0 \<notin> set w" using assms(4) by (cases v) simp_all
  from do_setenv_result [OF assms(1-3) this, of view ca] assms(5) show ?thesis
    unfolding env_put_def fst_conv snd_conv set by (cases v) (auto split: if_splits)
qed

interpretation env: variable_store "\<lambda>s. \<exists>vars. env_ok s vars" "\<lambda>k. ok_name k \<and> plain_name k" "\<lambda>v. 0 \<notin> set v"
  "\<lambda>s k. the (getenv view s k)" "env_put view ca" for view ca
proof unfold_locales
  fix s s' :: "'a env_state" and k k' :: "u8 list" and v
  assume "\<exists>vars. env_ok s vars" and k: "ok_name k \<and> plain_name k" and v: "pred_option (\<lambda>v. 0 \<notin> set v) v"
    and put: "env_put view ca s (k, v) = Some s'"
  then obtain vars where vars: "env_ok s vars" by blast
  from env_put_vars [OF vars _ _ v put] k
  have new: "env_ok s' (del_var vars k @ (case v of None \<Rightarrow> [] | Some w \<Rightarrow> [(k, w)]))" by blast
  then show "\<exists>vars. env_ok s' vars" by blast
  show "the (getenv view s' k') = (if k' = k then v else the (getenv view s k'))" if "ok_name k' \<and> plain_name k'"
    using getenv_lookup [OF new] getenv_lookup [OF vars] that
    by (auto simp: map_of_del_var map_add_def split: option.split)
qed

section \<open>The default environment and booting\<close>

definition default_vars :: vars where
  "default_vars = map (\<lambda>(n, v). (ascii n, ascii v))
     [(''bootdelay'', ''3''), (''baudrate'', ''115200''), (''ethaddr'', ''08:00:3e:26:0a:5b''), (''ipaddr'', ''192.168.2.190''),
      (''serverip'', ''192.168.2.100''), (''gatewayip'', ''192.168.2.100''), (''netmask'', ''255.255.255.0'')]"

lemma default_environment_text: "default_environment = env_text default_vars @ [0, 0]"
  by (simp add: default_environment_def default_vars_def env_text_def entry_def ascii_def)

lemma wf_default_vars: "wf_vars default_vars"
  by (simp add: wf_vars_def default_vars_def ascii_def)

lemma length_default_environment: "length default_environment = 146"
  by (simp add: default_environment_def ascii_def)

definition boot_env :: "(nat \<Rightarrow> addr) \<Rightarrow> ('c \<Rightarrow> mem) \<Rightarrow> 'c env_state \<Rightarrow> 'c env_state" where
  "boot_env malloc view s = env_relocate malloc view (snd (env_init view s))"

lemma default_rep:
  "env_rep (default_environment @ replicate (ENV_SIZE - length default_environment) 0) default_vars"
  using wf_default_vars by (simp add: env_rep_def default_environment_text default_vars_def)

lemma boot_env_valid:
  assumes "crc32 0 (load (view (fl_chip s)) (CONFIG_ENV_ADDR + 4) ENV_SIZE) = flash_crc (view (fl_chip s))"
  shows "env_data (boot_env malloc view s) = load (view (fl_chip s)) (CONFIG_ENV_ADDR + 4) ENV_SIZE"
    and "env_crcword (boot_env malloc view s) = flash_crc (view (fl_chip s))"
    and "env_valid (boot_env malloc view s) = 1" and "env_addr (boot_env malloc view s) = Ram_Data"
    and "fl_chip (boot_env malloc view s) = fl_chip s"
  using assms by (simp_all add: boot_env_def env_init_def env_relocate_def env_relocate_spec_def Let_def)

lemma boot_env_invalid:
  assumes "crc32 0 (load (view (fl_chip s)) (CONFIG_ENV_ADDR + 4) ENV_SIZE) \<noteq> flash_crc (view (fl_chip s))"
  shows "env_ok (boot_env malloc view s) default_vars"
    and "env_crcword (boot_env malloc view s) = crc32 0 (env_data (boot_env malloc view s))"
  using assms default_rep
  by (simp_all add: boot_env_def env_init_def env_relocate_def set_default_env_def env_crc_update_def Let_def env_ok_def
      length_default_environment ENV_SIZE_def CONFIG_ENV_SIZE_def ENV_HEADER_SIZE_def)

text \<open>A relocated monitor that runs on the default environment.\<close>

definition default_state :: "'c \<Rightarrow> 'c env_state" where
  "default_state c =
     \<lparr>fl_info = snd flash_init, fl_chip = c, env_ptr = 0x1E00000, env_crcword = 0,
      env_data = default_environment @ replicate (ENV_SIZE - length default_environment) 0,
      env_addr = Ram_Data, env_valid = 1, gd_reloc = True, env_id = 1, gd_baudrate = 115200,
      bi_enetaddr = replicate 6 0, bi_ip_addr = 0, load_addr = 0, BootFile = [0], con_input = []\<rparr>"

lemma default_state_ok: "env_ok (default_state c) default_vars"
  using default_rep
  by (simp add: env_ok_def default_state_def length_default_environment ENV_SIZE_def CONFIG_ENV_SIZE_def ENV_HEADER_SIZE_def)

text \<open>\<open>setenv\<close> of a value is \<open>set_var\<close>, with the result 1 when the entry does not fit.\<close>

lemma setenv_set_var:
  assumes "env_ok s vars" and "ok_name name" and "plain_name name" and "0 \<notin> set val"
  shows "\<exists>s'. setenv view ca s name (Some val) = Some (if var_fits vars name val then 0 else 1, s') \<and>
    env_ok s' (set_var vars name val)"
proof -
  have "\<forall>v\<in>set [val]. 0 \<notin> set v" using assms(4) by simp
  from do_setenv_result [OF assms(1-3) this, of view ca] show ?thesis
    by (auto simp: setenv_def var_fits_def set_var_def split: if_splits)
qed

section \<open>Properties\<close>

text \<open>
  C9: setting a variable refines the update of a list of variables. On a well-formed environment in
  RAM that stands for the variables \<open>vars\<close>, \<open>_do_setenv\<close> with an ordinary name removes an old value and
  appends the new one (several arguments joined by blanks); the array stands for the new list, its
  checksum is updated and the result is 0. With no value the variable is deleted. When the new entry
  does not fit, the result is 1 and the variable is deleted. No access leaves the array.
\<close>

theorem setenv_refines:
  assumes "env_ok s vars" and "ok_name name" and "plain_name name" and "\<forall>v\<in>set vals. 0 \<notin> set v"
    and "new = del_var vars name @ (if vals = [] then [] else [(name, join_vals vals)])"
  shows "if vals = [] \<or> length (env_text new) < ENV_SIZE
    then \<exists>s'. do_setenv_env view ca s name vals = Some (0, s') \<and> env_ok s' new \<and> env_crcword s' = crc32 0 (env_data s')
    else \<exists>s'. do_setenv_env view ca s name vals = Some (1, s') \<and> env_ok s' (del_var vars name)"
  using do_setenv_result [OF assms(1-4), of view ca, folded assms(5)] by (auto split: if_splits)

theorem setenv_refines_witness:
  "let name = ascii ''bootcmd''; vals = [ascii ''bootm'', ascii ''100000''];
       new = del_var default_vars name @ (if vals = [] then [] else [(name, join_vals vals)]);
       s = default_state ()
   in if vals = [] \<or> length (env_text new) < ENV_SIZE
      then \<exists>s'. do_setenv_env (\<lambda>_ _. 0) (\<lambda>_ _. 0) s name vals = Some (0, s') \<and> env_ok s' new \<and>
        env_crcword s' = crc32 0 (env_data s')
      else \<exists>s'. do_setenv_env (\<lambda>_ _. 0) (\<lambda>_ _. 0) s name vals = Some (1, s') \<and> env_ok s' (del_var default_vars name)"
  unfolding Let_def
  by (rule setenv_refines [OF default_state_ok]) (simp_all add: ok_name_def plain_name_def ascii_def)

text \<open>
  C32: after any sequence of successful changes, \<open>getenv\<close> returns for every variable the value of the
  last change of it, and the old value if there was none.
\<close>

theorem getenv_after_setenvs:
  assumes "env_ok s vars" and "\<forall>kv\<in>set changes. ok_name (fst kv) \<and> plain_name (fst kv) \<and> pred_option (\<lambda>v. 0 \<notin> set v) (snd kv)"
    and "foldl (\<lambda>st kv. Option.bind st (\<lambda>s. env_put view ca s kv)) (Some s) changes = Some s'"
    and "ok_name name" and "plain_name name"
  shows "getenv view s' name = Some (case map_of (rev changes) name of None \<Rightarrow> map_of vars name | Some v \<Rightarrow> v)"
proof -
  have none: "foldl (\<lambda>st kv. Option.bind st (\<lambda>s. env_put view ca s kv)) None kvs = None" for kvs by (induction kvs) simp_all
  have "foldl (\<lambda>st kv. Option.bind st (\<lambda>s. env_put view ca s kv)) (Some s) kvs = env.puts view ca s kvs" for kvs
    by (induction kvs arbitrary: s) (simp_all add: none split: option.split)
  with assms(3) have "env.puts view ca s changes = Some s'" by simp
  from env.get_puts [OF _ _ this, of name] assms
  have "\<exists>vars'. env_ok s' vars'" "the (getenv view s' name) = (case map_of (rev changes) name of None \<Rightarrow> the (getenv view s name) | Some v \<Rightarrow> v)"
    by blast+
  with getenv_lookup [OF assms(1,4), of view] getenv_lookup [of s' _ name view, OF _ assms(4)] show ?thesis by (auto split: option.split)
qed

theorem getenv_after_setenvs_witness:
  "\<exists>s'. foldl (\<lambda>st kv. Option.bind st (\<lambda>s. env_put (\<lambda>_ _. 0) (\<lambda>_ _. 0) s kv)) (Some (default_state ()))
      [(ascii ''ipaddr'', None)] = Some s' \<and>
    getenv (\<lambda>_ _. 0) s' (ascii ''ipaddr'') =
      Some (case map_of (rev [(ascii ''ipaddr'', None)]) (ascii ''ipaddr'') of
          None \<Rightarrow> map_of default_vars (ascii ''ipaddr'') | Some v \<Rightarrow> v)"
proof -
  have name: "ok_name (ascii ''ipaddr'')" "plain_name (ascii ''ipaddr'')"
    by (simp_all add: ok_name_def plain_name_def ascii_def)
  from do_setenv_result [OF default_state_ok [of "()"] name, of "[]" "\<lambda>_ _. 0" "\<lambda>_ _. 0"]
  obtain s' where s': "do_setenv_env (\<lambda>_ _. 0) (\<lambda>_ _. 0) (default_state ()) (ascii ''ipaddr'') [] = Some (0, s')" by auto
  have put: "foldl (\<lambda>st kv. Option.bind st (\<lambda>s. env_put (\<lambda>_ _. 0) (\<lambda>_ _. 0) s kv)) (Some (default_state ()))
      [(ascii ''ipaddr'', None)] = Some s'"
    by (simp add: env_put_def setenv_def s')
  have "\<forall>kv\<in>set [(ascii ''ipaddr'', None)]. ok_name (fst kv) \<and> plain_name (fst kv) \<and> pred_option (\<lambda>v. 0 \<notin> set v) (snd kv)"
    using name by simp
  from getenv_after_setenvs [OF default_state_ok this put name] put show ?thesis by blast
qed

end
