(* ===== verification/Nor_Model.thy ===== *)
theory Nor_Model
  imports Flash_Sect
begin

text \<open>
  The flash layer on a chip: erasing and writing as seen in the array of the chip. The first part is a
  device with the behaviour that \<open>nor_chip\<close> asks for, to show that the hypotheses of the flash
  theorems can hold: the state machine of the command table with a clock, busy for one poll, whose
  answers to polls while busy are the complement of the data.
\<close>

record nor =
  nor_cells :: mem
  nor_mode :: nor_mode
  nor_polls :: nat
  nor_ticks :: nat
  nor_due :: nat

definition nor_ready :: "nor \<Rightarrow> bool" where
  "nor_ready c \<longleftrightarrow> nor_mode c = Array"

definition nor_writew :: "flash_info \<Rightarrow> u16 \<Rightarrow> addr \<Rightarrow> nor \<Rightarrow> nor" where
  "nor_writew info d a c =
     c\<lparr>nor_mode := nor_command info d a (nor_cells c) (nor_mode c), nor_polls := 1, nor_due := nor_ticks c + 100\<rparr>"

definition nor_readx :: "(mem \<Rightarrow> 'w::len word) \<Rightarrow> nor \<Rightarrow> 'w word \<times> nor" where
  "nor_readx data c =
     (case nor_mode c of
        Embedded _ m \<Rightarrow>
          if 0 < nor_polls c \<and> nor_ticks c \<le> nor_due c then (NOT (data m), c\<lparr>nor_polls := nor_polls c - 1\<rparr>)
          else (data m, c\<lparr>nor_mode := Array, nor_cells := m\<rparr>)
      | _ \<Rightarrow> (data (nor_cells c), c))"

definition nor_bus :: "flash_info \<Rightarrow> nor bus" where
  "nor_bus info =
     \<lparr>bus_readb = (\<lambda>a. nor_readx (\<lambda>m. m a)),
      bus_readw = (\<lambda>a. nor_readx (\<lambda>m. be16 (m a) (m (a + 1)))),
      bus_writew = nor_writew info,
      bus_get_timer = (\<lambda>b c. (of_nat (nor_ticks c) - b, c)),
      bus_udelay = (\<lambda>us c. c\<lparr>nor_ticks := nor_ticks c + unat us div 50000\<rparr>)\<rparr>"

definition nor_bus_view :: "nor nor_view" where
  "nor_bus_view = \<lparr>nv_mode = nor_mode, nv_cells = nor_cells, nv_clock = nor_ticks, nv_due = nor_due, nv_left = nor_polls\<rparr>"

lemma nor_readx_cycle: "n < LENGTH('w::len) \<Longrightarrow> nor_read_cycle nor_bus_view n data a c (nor_readx (data :: mem \<Rightarrow> 'w word) c)"
  by (auto simp: nor_read_cycle_def nor_readx_def nor_bus_view_def bit_not_iff split: nor_mode.splits)

text \<open>A table for the chip: its sectors start at even addresses of the board's flash.\<close>

definition chip_table :: "flash_info \<Rightarrow> bool" where
  "chip_table info \<longleftrightarrow>
     bank info \<subseteq> {0xF0000000 .. 0xF07FFFFF} \<and> (\<forall>i < sect_count info. even (unat (fi_start info ! i)))"

lemma nor_chip_model:
  assumes "chip_table info"
  shows "nor_chip (nor_bus info) info nor_ready nor_cells"
proof -
  have "nor_laws (nor_bus info) info nor_bus_view"
    using assms unfolding nor_laws_def chip_table_def
    by (simp add: nor_bus_def nor_readx_cycle) (simp add: nor_bus_view_def nor_writew_def nor_pause_def Let_def div_le_mono2)
  then show ?thesis
    unfolding nor_chip_def by (intro exI [of _ nor_bus_view]) (simp add: nor_bus_view_def nor_ready_def)
qed

lemma chip_table_flash_init: "chip_table (snd flash_init)"
  by (simp add: chip_table_def bank_flash_init flash_init_fields unat_flash_start sector_off_def)

lemma chip_table_protect [simp]: "chip_table (info\<lparr>fi_protect := ps\<rparr>) = chip_table info"
  by (simp add: chip_table_def bank_def bank_end_def sect_count_def)

lemma bank_ok_board: "bank_ok (snd flash_init)"
  by (rule bank_ok_flash_init)

abbreviation (input) board_chip :: "mem \<Rightarrow> nor" where
  "board_chip m \<equiv> \<lparr>nor_cells = m, nor_mode = Array, nor_polls = 0, nor_ticks = 0, nor_due = 0\<rparr>"

lemma board_chip_ready: "nor_ready (board_chip m)"
  by (simp add: nor_ready_def)

text \<open>A range inside the bank does not wrap and ends in it.\<close>

lemma area_in_bank:
  assumes "bank_ok info" and "area addr n \<subseteq> bank info" and "0 < n"
  shows "unat addr + n \<le> unat (bank_end info) + 1" and "addr \<in> bank info"
proof -
  have "addr \<in> area addr n" using assms(3) by (simp add: area_def)
  then show "addr \<in> bank info" using assms(2) by blast
  then have le: "unat addr \<le> unat (bank_end info)" by (simp add: bank_def word_le_nat_alt)
  have less: "unat (bank_end info) + 1 < 2 ^ 32"
    using unat_bank_end(1) [OF assms(1)] assms(1) by (simp add: bank_ok_def)
  show "unat addr + n \<le> unat (bank_end info) + 1"
  proof (rule ccontr)
    define k where "k = unat (bank_end info) + 1 - unat addr"
    assume "\<not> unat addr + n \<le> unat (bank_end info) + 1"
    then have "k < n" "k < 2 ^ 32" using le less by (auto simp: k_def)
    then have "addr + of_nat k \<in> area addr n" by (simp add: area_def)
    then have "addr + of_nat k \<in> bank info" using assms(2) by blast
    moreover have "unat (addr + of_nat k) = unat (bank_end info) + 1"
      using le less by (subst unat_plus_of_nat) (simp_all add: k_def)
    ultimately show False by (simp add: bank_def word_le_nat_alt)
  qed
qed

lemma area_last:
  assumes "unat addr + unat cnt < 2 ^ 32" and "(cnt :: u32) \<noteq> 0"
  shows "unat (addr + cnt - 1) + 1 = unat addr + unat cnt" and "addr + cnt - 1 \<in> area addr (unat cnt)"
proof -
  have pos: "0 < unat cnt" using assms(2) by (simp add: unat_gt_0)
  have sum: "unat (addr + cnt) = unat addr + unat cnt" using assms(1) by (intro unat_add_lem [THEN iffD1]) simp
  then have "addr + cnt \<noteq> 0" using pos by (metis add_gr_0 less_irrefl unat_0)
  then show eq: "unat (addr + cnt - 1) + 1 = unat addr + unat cnt" using sum pos by (simp add: unat_minus_one)
  then show "addr + cnt - 1 \<in> area addr (unat cnt)" using assms(1) pos by (simp add: area_nowrap)
qed

lemma not_meets_protected:
  assumes "bank_ok info" and "unat addr + unat cnt < 2 ^ 32" and "cnt \<noteq> 0"
    and "\<forall>a \<in> area addr (unat cnt). \<forall>k < sect_count info. a \<in> sector info k \<longrightarrow> fi_protect info ! k = 0"
  shows "\<not> meets_protected info addr (addr + cnt - 1) 0"
proof
  assume "meets_protected info addr (addr + cnt - 1) 0"
  then obtain k where k: "k < sect_count info" "fi_protect info ! k \<noteq> 0" "fi_start info ! k \<le> addr + cnt - 1"
    "addr \<le> sector_end info k" by (auto simp: meets_protected_def)
  define a where "a = max addr (fi_start info ! k)"
  note ends = area_last [OF assms(2,3)]
  have "0 < unat cnt" using assms(3) by (simp add: unat_gt_0)
  then have "addr \<le> addr + cnt - 1" using ends(1) by (simp add: word_le_nat_alt)
  then have "addr \<le> a" "a \<le> addr + cnt - 1" using k(3) by (simp_all add: a_def)
  then have "a \<in> area addr (unat cnt)" using ends(1) assms(2) by (simp add: area_nowrap word_le_nat_alt)
  moreover have "a \<in> sector info k" using k(4) bank_start_end [OF assms(1) k(1)] by (simp add: sector_def a_def)
  ultimately show False using assms(4) k(1,2) by blast
qed

section \<open>Properties\<close>

text \<open>
  C19: on a chip that follows its data sheet, bus cycle by bus cycle (\<open>nor_chip\<close>), erasing from the first
  address of a sector to the last address of a later one returns 0 and leaves exactly the unprotected sectors of the range erased; every other byte of the array, those of
  protected sectors included, keeps its value.
\<close>

theorem flash_sect_erase_correct:
  assumes "nor_chip bus info ready cells" and "bank_ok info" and "ready c" and "i \<le> j" and "j < sect_count info"
  shows "\<exists>c'. flash_sect_erase bus info (fi_start info ! i) (sector_end info j) c = Some (0, c') \<and> ready c' \<and>
    (\<forall>a. cells c' a =
      (if \<exists>k\<in>{i..j}. fi_protect info ! k = 0 \<and> a \<in> sector info k then 0xff else cells c a))"
proof -
  have "a \<in> erasable info i j \<longleftrightarrow> (\<exists>k\<in>{i..j}. fi_protect info ! k = 0 \<and> a \<in> sector info k)" for a
    by (auto simp: erasable_def)
  then show ?thesis
    using erase_loop_cells [OF assms(1,2,3,5), of i] flash_erase_sectors [OF assms(2,4,5), of bus c] by auto
qed

theorem flash_sect_erase_correct_witness:
  "let info = (snd flash_init)\<lparr>fi_protect := replicate 135 0\<rparr>; c = board_chip (\<lambda>a. ucast a)
   in \<exists>c'. flash_sect_erase (nor_bus info) info (fi_start info ! 12) (sector_end info 13) c = Some (0, c') \<and> nor_ready c' \<and>
     (\<forall>a. nor_cells c' a =
       (if \<exists>k\<in>{12..13}. fi_protect info ! k = 0 \<and> a \<in> sector info k then 0xff else nor_cells c a))"
proof -
  let ?info = "(snd flash_init)\<lparr>fi_protect := replicate 135 0\<rparr>"
  have ok: "bank_ok ?info"
    using bank_ok_flash_init by (simp add: bank_ok_def sect_count_def bank_end_def flash_init_fields)
  have chip: "chip_table ?info" using chip_table_flash_init by simp
  have n: "(13 :: nat) < sect_count ?info" using flash_init_fields(3) by (simp add: sect_count_def)
  have le: "(12 :: nat) \<le> 13" by simp
  show ?thesis
    unfolding Let_def by (rule flash_sect_erase_correct [OF nor_chip_model [OF chip] ok board_chip_ready le n])
qed

text \<open>
  C17: on a chip that follows its data sheet, bus cycle by bus cycle (\<open>nor_chip\<close>), writing an even number of
  bytes to an even address of erased, unprotected flash returns 0 and stores exactly those bytes: the
  command cycles that the driver sends program each word, and its wait loop sees the end.
\<close>

theorem flash_write_correct:
  assumes "nor_chip bus info ready cells" and "bank_ok info" and "ready c"
    and "even (unat addr)" and "even (unat cnt)" and "area addr (unat cnt) \<subseteq> bank info"
    and "\<forall>a \<in> area addr (unat cnt). cells c a = 0xff"
    and "\<forall>a \<in> area addr (unat cnt). \<forall>k < sect_count info. a \<in> sector info k \<longrightarrow> fi_protect info ! k = 0"
  shows "\<exists>c'. flash_write bus info m src addr cnt c = Some (ERR_OK, c') \<and> ready c' \<and>
    cells c' = overwrite (cells c) addr (load m src (unat cnt))"
proof (cases "cnt = 0")
  case True
  then show ?thesis using assms(3) by (simp add: flash_write_def)
next
  case False
  then have pos: "0 < unat cnt" by (simp add: unat_gt_0)
  note inside = area_in_bank [OF assms(2,6) pos]
  have nowrap: "unat addr + unat cnt < 2 ^ 32"
    using inside(1) unat_bank_end(1) [OF assms(2)] assms(2) by (simp add: bank_ok_def)
  have last: "addr + cnt - 1 \<in> bank info" using area_last(2) [OF nowrap False] assms(6) by blast
  have eq: "flash_write bus info m src addr cnt c = write_buff bus m src addr cnt c"
    using not_meets_protected [OF assms(2) nowrap False assms(8)] by (intro flash_write_unprotected assms(2) False inside last)
  obtain n where n: "unat cnt = 2 * n" using assms(5) by (rule evenE)
  have cnt: "cnt = of_nat (2 * n)" unfolding n [symmetric] by simp
  have "2 * n < 2 ^ 32" unfolding n [symmetric] using unsigned_less [of cnt, where ?'a = nat] by simp
  from write_buff_cells [OF assms(1-3) this assms(4) assms(6,7) [unfolded n], of m src]
  show ?thesis unfolding eq n unfolding cnt ERR_OK_def .
qed

theorem flash_write_correct_witness:
  "let info = (snd flash_init)\<lparr>fi_protect := replicate 135 0\<rparr>; c = board_chip (\<lambda>_. 0xff); m = (\<lambda>a. ucast a)
   in \<exists>c'. flash_write (nor_bus info) info m 0x1000 0xF0040000 4 c = Some (ERR_OK, c') \<and> nor_ready c' \<and>
     nor_cells c' = overwrite (nor_cells c) 0xF0040000 (load m 0x1000 (unat (4 :: u32)))"
proof -
  let ?info = "(snd flash_init)\<lparr>fi_protect := replicate 135 0\<rparr>" and ?m = "\<lambda>a :: addr. ucast a :: u8"
  have ok: "bank_ok ?info"
    using bank_ok_flash_init by (simp add: bank_ok_def sect_count_def bank_end_def flash_init_fields)
  have chip: "chip_table ?info" using chip_table_flash_init by simp
  have n: "sect_count ?info = 135" using flash_init_fields(3) by (simp add: sect_count_def)
  have bend: "bank_end ?info = 0xF07FFFFF"
    by (simp add: bank_end_def flash_init_starts flash_init_fields sector_off_def CONFIG_SYS_FLASH_BASE_def CONFIG_SYS_FLASH_SIZE_def)
  have start: "fi_start (snd flash_init) ! 0 = 0xF0000000" by (simp add: flash_init_starts sector_off_def CONFIG_SYS_FLASH_BASE_def)
  have inside: "area 0xF0040000 (unat (4 :: u32)) \<subseteq> bank ?info"
    by (auto simp: bank_def bend start area_nowrap word_le_nat_alt)
  show ?thesis
    unfolding Let_def
    by (rule flash_write_correct [OF nor_chip_model [OF chip] ok board_chip_ready _ _ inside]) (simp_all add: n)
qed

end
