(* ===== verification/Env_Flash.thy ===== *)
theory Env_Flash
  imports Env_Store Nor_Model
begin

text \<open>
  The environment in flash: what \<open>saveenv\<close> writes through the flash layer and the driver is what the
  next start finds, and a variable set and saved has its value after a reset. The flash table is that
  of the board with any protection flags.
\<close>

definition board_info :: "u8 list \<Rightarrow> flash_info" where
  "board_info ps = (snd flash_init)\<lparr>fi_protect := ps\<rparr>"

lemma board_info_sel [simp]:
  "fi_protect (board_info ps) = ps" "fi_start (board_info ps) = fi_start (snd flash_init)"
  "sect_count (board_info ps) = 135" "fi_size (board_info ps) = CONFIG_SYS_FLASH_SIZE"
  "bank (board_info ps) = bank (snd flash_init)" "sector (board_info ps) = sector (snd flash_init)"
  using flash_init_fields(3,4)
  by (simp_all add: board_info_def sect_count_def bank_def bank_end_def sector_def sector_end_def fun_eq_iff)

lemma sector_end_board [simp]: "sector_end (board_info ps) = sector_end (snd flash_init)"
  using flash_init_fields(3) by (simp add: board_info_def sector_end_def sect_count_def bank_end_def fun_eq_iff)

lemma bank_ok_board_info: "length ps = 135 \<Longrightarrow> bank_ok (board_info ps)"
  using bank_ok_flash_init by (simp add: board_info_def bank_ok_def sect_count_def bank_end_def flash_init_fields)

lemma nor_chip_board_info: "nor_chip bus (board_info ps) ready cells \<longleftrightarrow> nor_chip bus (snd flash_init) ready cells"
proof -
  have "nor_erased (board_info ps) = nor_erased (snd flash_init)"
    by (simp add: nor_erased_def flash_init_fields fun_eq_iff)
  then have "nor_command (board_info ps) = nor_command (snd flash_init)"
    unfolding nor_command_def [abs_def] board_info_sel(5) by (rule ssubst) (rule refl)
  then show ?thesis by (simp add: nor_chip_def nor_laws_def flash_init_fields)
qed

text \<open>The environment occupies the twelfth sector of the table.\<close>

lemma env_sector:
  "fi_start (snd flash_init) ! 11 = CONFIG_ENV_ADDR"
  "sector_end (snd flash_init) 11 = CONFIG_ENV_ADDR + of_nat CONFIG_ENV_SIZE - 1"
  "area CONFIG_ENV_ADDR CONFIG_ENV_SIZE = sector (snd flash_init) 11"
proof -
  have addr: "CONFIG_ENV_ADDR = 0xF0040000" by (simp add: CONFIG_ENV_ADDR_def CONFIG_SYS_FLASH_BASE_def)
  show s: "fi_start (snd flash_init) ! 11 = CONFIG_ENV_ADDR"
    by (simp add: flash_init_starts sector_off_def CONFIG_ENV_ADDR_def CONFIG_SYS_FLASH_BASE_def)
  show e: "sector_end (snd flash_init) 11 = CONFIG_ENV_ADDR + of_nat CONFIG_ENV_SIZE - 1"
    by (simp add: sector_end_def flash_init_fields flash_init_starts sector_off_def CONFIG_ENV_ADDR_def
        CONFIG_SYS_FLASH_BASE_def CONFIG_ENV_SIZE_def)
  have "a \<in> area 0xF0040000 65536 \<longleftrightarrow> 0xF0040000 \<le> a \<and> a \<le> 0xF004FFFF" for a :: addr
  proof -
    have "a \<in> area 0xF0040000 65536 \<longleftrightarrow> unat (0xF0040000 :: addr) \<le> unat a \<and> unat a < unat (0xF0040000 :: addr) + 65536"
      by (rule area_nowrap) simp
    then show ?thesis unfolding word_le_nat_alt by auto
  qed
  moreover have "sector (snd flash_init) 11 = {0xF0040000 .. 0xF004FFFF}"
    unfolding sector_def s e unfolding addr CONFIG_ENV_SIZE_def by simp
  moreover have "CONFIG_ENV_SIZE = 65536" by (simp add: CONFIG_ENV_SIZE_def)
  ultimately show "area CONFIG_ENV_ADDR CONFIG_ENV_SIZE = sector (snd flash_init) 11"
    unfolding addr by (simp only: set_eq_iff atLeastAtMost_iff simp_thms)
qed

lemma with_protect_board:
  "with_protect (board_info ps) i j p = board_info (map (\<lambda>k. if i \<le> k \<and> k \<le> j then p else ps ! k) [0..<length ps])"
  by (simp add: with_protect_def) (simp add: board_info_def)

lemma length_env_image: "length (env_data s) = ENV_SIZE \<Longrightarrow> length (env_image s) = CONFIG_ENV_SIZE"
  by (simp add: env_image_def ENV_SIZE_def CONFIG_ENV_SIZE_def ENV_HEADER_SIZE_def)

lemma overwrite_replaces: "length ys = length xs \<Longrightarrow> (\<And>a. a \<notin> area p (length xs) \<Longrightarrow> m a = m' a) \<Longrightarrow>
    overwrite m p xs = overwrite m' p xs"
  by (auto simp: overwrite_def area_def fun_eq_iff)

lemma saveenv_writes:
  assumes chip: "nor_chip bus (snd flash_init) ready view" and "ready (fl_chip s)"
    and info: "fl_info s = board_info ps" and ps: "length ps = 135" and data: "length (env_data s) = ENV_SIZE"
  shows "\<exists>s'. saveenv bus s = Some (0, s') \<and> ready (fl_chip s') \<and>
    view (fl_chip s') = overwrite (view (fl_chip s)) CONFIG_ENV_ADDR (env_image s)"
proof -
  let ?lst = "CONFIG_ENV_ADDR + of_nat CONFIG_ENV_SIZE - 1" and ?ram = "overwrite (\<lambda>_. 0) (env_ptr s) (env_image s)"
  define ps1 where "ps1 = map (\<lambda>k. if 11 \<le> k \<and> k \<le> 11 then 0 else ps ! k) [0..<length ps]"
  define i1 where "i1 = board_info ps1"
  have len1: "length ps1 = 135" by (simp add: ps1_def ps)
  have ok: "bank_ok (board_info ps)" "bank_ok i1" using bank_ok_board_info ps len1 by (simp_all add: i1_def)
  have chip1: "nor_chip bus i1 ready view" using chip by (simp add: i1_def nor_chip_board_info)
  have off: "flash_sect_protect 0 CONFIG_ENV_ADDR ?lst (board_info ps) = Some (0, i1)"
    using flash_sect_protect_ok [OF ok(1), of 11 11 0] by (simp add: env_sector with_protect_board i1_def ps1_def)
  have on: "\<exists>i2. flash_sect_protect 1 CONFIG_ENV_ADDR ?lst i1 = Some (0, i2)"
    using flash_sect_protect_ok [OF ok(2), of 11 11 1] by (simp add: env_sector i1_def)
  obtain c1 where c1: "flash_sect_erase bus i1 CONFIG_ENV_ADDR ?lst (fl_chip s) = Some (0, c1)" "ready c1"
    "\<And>a. view c1 a = (if a \<in> sector (snd flash_init) 11 then 0xff else view (fl_chip s) a)"
  proof -
    have le: "(11 :: nat) \<le> 11" and n: "11 < sect_count i1" by (simp_all add: i1_def)
    have "fi_protect i1 ! 11 = 0" by (simp add: i1_def ps1_def ps)
    with flash_sect_erase_correct [OF chip1 ok(2) assms(2) le n] that show thesis
      by (auto simp: i1_def env_sector)
  qed
  have cnt: "unat (of_nat CONFIG_ENV_SIZE :: u32) = CONFIG_ENV_SIZE" by (simp add: CONFIG_ENV_SIZE_def)
  have inside: "area CONFIG_ENV_ADDR CONFIG_ENV_SIZE \<subseteq> bank i1"
    using sector_in_bank [OF bank_ok_flash_init, of 11] by (auto simp: env_sector(3) i1_def flash_init_fields)
  have free: "\<forall>a \<in> area CONFIG_ENV_ADDR CONFIG_ENV_SIZE. \<forall>k < sect_count i1. a \<in> sector i1 k \<longrightarrow> fi_protect i1 ! k = 0"
    using sector_unique [OF bank_ok_flash_init, of _ 11] by (auto simp: env_sector(3) i1_def flash_init_fields ps1_def ps)
  have even: "even (unat CONFIG_ENV_ADDR)" "even CONFIG_ENV_SIZE"
    by (simp_all add: CONFIG_ENV_ADDR_def CONFIG_SYS_FLASH_BASE_def CONFIG_ENV_SIZE_def)
  have erased: "\<forall>a \<in> area CONFIG_ENV_ADDR CONFIG_ENV_SIZE. view c1 a = 0xff" by (simp add: c1(3) env_sector(3))
  from flash_write_correct [OF chip1 ok(2) c1(2) even(1), of "of_nat CONFIG_ENV_SIZE" ?ram "env_ptr s", unfolded cnt, OF even(2) inside erased free]
  obtain c2 where c2: "flash_write bus i1 ?ram (env_ptr s) CONFIG_ENV_ADDR (of_nat CONFIG_ENV_SIZE) c1 = Some (ERR_OK, c2)"
    "ready c2" "view c2 = overwrite (view c1) CONFIG_ENV_ADDR (load ?ram (env_ptr s) CONFIG_ENV_SIZE)" by blast
  have image: "load ?ram (env_ptr s) CONFIG_ENV_SIZE = env_image s"
    using load_overwrite [of "env_image s" "\<lambda>_. 0" "env_ptr s"] length_env_image [OF data] by (simp add: CONFIG_ENV_SIZE_def)
  have "view c2 = overwrite (view (fl_chip s)) CONFIG_ENV_ADDR (env_image s)"
    unfolding c2(3) image using c1(3) length_env_image [OF data] env_sector(3)
    by (intro overwrite_replaces [where ys = "env_image s"]) auto
  with off on c1(1) c2 show ?thesis
    by (auto simp: saveenv_def Let_def info ERR_OK_def)
qed

lemma load_overwrite_part:
  assumes "length xs + length ys \<le> 2 ^ 32"
  shows "load (overwrite m p (xs @ ys)) (p + of_nat (length xs)) (length ys) = ys"
  using load_overwrite [of "xs @ ys" m p] assms load_add [of "overwrite m p (xs @ ys)" p "length xs" "length ys"] by simp

lemma saved_block:
  assumes "length (env_data s) = ENV_SIZE"
  shows "load (overwrite m CONFIG_ENV_ADDR (env_image s)) (CONFIG_ENV_ADDR + 4) ENV_SIZE = env_data s"
    and "flash_crc (overwrite m CONFIG_ENV_ADDR (env_image s)) = env_crcword s"
proof -
  show "load (overwrite m CONFIG_ENV_ADDR (env_image s)) (CONFIG_ENV_ADDR + 4) ENV_SIZE = env_data s"
    using load_overwrite_part [of "bytes_be32 (env_crcword s)" "env_data s" m CONFIG_ENV_ADDR] assms
    by (simp add: env_image_def ENV_SIZE_def CONFIG_ENV_SIZE_def)
  have "overwrite m CONFIG_ENV_ADDR (env_image s) (CONFIG_ENV_ADDR + of_nat i) = bytes_be32 (env_crcword s) ! i" if "i < 4" for i
    using that by (simp add: overwrite_def env_image_def nth_append)
  from this [of 0] this [of 1] this [of 2] this [of 3]
  show "flash_crc (overwrite m CONFIG_ENV_ADDR (env_image s)) = env_crcword s"
    by (simp add: flash_crc_def bytes_be32_def)
qed

lemma boot_after_save:
  assumes ok: "env_ok s vars" and crc: "env_crcword s = crc32 0 (env_data s)"
    and flash: "view (fl_chip s0) = overwrite m CONFIG_ENV_ADDR (env_image s)" and k: "ok_name k"
  shows "getenv view (boot_env malloc view s0) k = Some (map_of vars k)"
proof -
  note data = env_okD(3,4) [OF ok]
  note block = saved_block [OF data(1), of m, folded flash]
  have valid: "crc32 0 (load (view (fl_chip s0)) (CONFIG_ENV_ADDR + 4) ENV_SIZE) = flash_crc (view (fl_chip s0))"
    unfolding block by (rule crc [symmetric])
  from boot_env_valid [where view = view, OF valid, of malloc] data have "env_ok (boot_env malloc view s0) vars"
    by (simp add: env_ok_def block)
  then show ?thesis using k by (rule getenv_lookup)
qed

lemma default_state_info: "fl_info (default_state c) = board_info (replicate 135 1)"
proof -
  have "fi_protect (snd flash_init) = replicate 135 1" by (rule nth_equalityI) (simp_all add: flash_init_fields)
  then show ?thesis by (simp add: default_state_def board_info_def flip: \<open>fi_protect (snd flash_init) = _\<close>)
qed

text \<open>The block in flash, its checksum first.\<close>

lemma bytes_be32_inject:
  assumes "bytes_be32 v = bytes_be32 w"
  shows "v = w"
proof -
  have "be32 (bytes_be32 x ! 0) (bytes_be32 x ! 1) (bytes_be32 x ! 2) (bytes_be32 x ! 3) = x" for x
    by (simp add: bytes_be32_def)
  from this [of v] this [of w] show ?thesis by (simp add: assms)
qed

lemma flash_block:
  assumes "load m CONFIG_ENV_ADDR CONFIG_ENV_SIZE = block"
  shows "load m (CONFIG_ENV_ADDR + 4) ENV_SIZE = drop 4 block" and "bytes_be32 (flash_crc m) = take 4 block"
proof -
  have "CONFIG_ENV_SIZE = 4 + ENV_SIZE" by (simp add: ENV_SIZE_def CONFIG_ENV_SIZE_def ENV_HEADER_SIZE_def)
  then have eq: "block = load m CONFIG_ENV_ADDR 4 @ load m (CONFIG_ENV_ADDR + 4) ENV_SIZE"
    using load_add [of m CONFIG_ENV_ADDR 4 ENV_SIZE] assms by simp
  show "load m (CONFIG_ENV_ADDR + 4) ENV_SIZE = drop 4 block" by (simp add: eq)
  show "bytes_be32 (flash_crc m) = take 4 block"
    by (simp add: eq flash_crc_def numeral_eq_Suc load_Suc add.assoc)
qed

lemma damaged_block:
  assumes "bytes_be32 (crc32 0 data) @ data = pre @ xs @ post" and "load m CONFIG_ENV_ADDR CONFIG_ENV_SIZE = pre @ ys @ post"
    and "length xs = length ys" and "length xs \<le> 4" and "xs \<noteq> ys" and "length pre + length xs \<le> 4 \<or> 4 \<le> length pre"
  shows "crc32 0 (load m (CONFIG_ENV_ADDR + 4) ENV_SIZE) \<noteq> flash_crc m"
  using assms(6)
proof
  assume in_crc: "length pre + length xs \<le> 4"
  define k where "k = 4 - (length pre + length xs)"
  have "k \<le> length post" using arg_cong [OF assms(1), of length] by (simp add: k_def)
  then have old: "bytes_be32 (crc32 0 data) = pre @ xs @ take k post" "data = drop k post"
    using arg_cong [OF assms(1), of "take 4"] arg_cong [OF assms(1), of "drop 4"] in_crc by (simp_all add: k_def)
  have new: "bytes_be32 (flash_crc m) = pre @ ys @ take k post" "load m (CONFIG_ENV_ADDR + 4) ENV_SIZE = data"
    using flash_block [OF assms(2)] in_crc assms(3) by (simp_all add: k_def old(2))
  then show ?thesis using old(1) assms(3,5) by auto
next
  assume "4 \<le> length pre"
  then have "bytes_be32 (flash_crc m) = bytes_be32 (crc32 0 data)" "data = drop 4 pre @ xs @ post"
    "load m (CONFIG_ENV_ADDR + 4) ENV_SIZE = drop 4 pre @ ys @ post"
    using arg_cong [OF assms(1), of "take 4"] arg_cong [OF assms(1), of "drop 4"] flash_block [OF assms(2)] by simp_all
  moreover from this(1) have "flash_crc m = crc32 0 data"
    by (rule bytes_be32_inject)
  ultimately show ?thesis
    using crc32_burst [of xs ys 0 "drop 4 pre" post] assms(3-5) by simp
qed

section \<open>Properties\<close>

text \<open>
  C8: a variable that is set and saved has its value after a reset, and every other variable the value
  it had: setting and saving both return 0, and on any later start with that flash content \<open>getenv\<close>
  finds these values.
\<close>

theorem saved_variable_survives_reset:
  assumes "nor_chip bus (snd flash_init) ready view" and "ready (fl_chip s)" and "fl_info s = board_info ps" and "length ps = 135"
    and "env_ok s vars" and "ok_name name" and "plain_name name" and "vals \<noteq> []" and "\<forall>v\<in>set vals. 0 \<notin> set v"
    and "length (env_text (del_var vars name @ [(name, join_vals vals)])) < ENV_SIZE"
  shows "\<exists>s1 s2. do_setenv_env view ca s name vals = Some (0, s1) \<and> saveenv bus s1 = Some (0, s2) \<and>
    (\<forall>s0 k. fl_chip s0 = fl_chip s2 \<longrightarrow> ok_name k \<longrightarrow>
      getenv view (boot_env malloc view s0) k = Some (if k = name then Some (join_vals vals) else map_of vars k))"
proof -
  from do_setenv_result [OF assms(5-7,9), of view ca] assms(8,10)
  obtain s1 where s1: "do_setenv_env view ca s name vals = Some (0, s1)"
    "env_ok s1 (del_var vars name @ [(name, join_vals vals)])" "env_crcword s1 = crc32 0 (env_data s1)"
    "fl_info s1 = fl_info s" "fl_chip s1 = fl_chip s" by auto
  have "ready (fl_chip s1)" "fl_info s1 = board_info ps" "length (env_data s1) = ENV_SIZE"
    using s1 assms(2,3) by (simp_all add: env_ok_def)
  from saveenv_writes [OF assms(1) this(1,2) assms(4) this(3)] obtain s2 where s2: "saveenv bus s1 = Some (0, s2)"
    "view (fl_chip s2) = overwrite (view (fl_chip s1)) CONFIG_ENV_ADDR (env_image s1)" by blast
  have "getenv view (boot_env malloc view s0) k = Some (if k = name then Some (join_vals vals) else map_of vars k)"
    if "fl_chip s0 = fl_chip s2" and "ok_name k" for s0 k
  proof -
    have "view (fl_chip s0) = overwrite (view (fl_chip s1)) CONFIG_ENV_ADDR (env_image s1)" using s2(2) that(1) by simp
    from boot_after_save [where view = view, OF s1(2,3) this that(2), of malloc] show ?thesis
      by (auto simp: map_of_del_var map_add_def split: option.split)
  qed
  with s1(1) s2(1) show ?thesis by blast
qed

theorem saved_variable_survives_reset_witness:
  "let name = ascii ''bootcmd''; vals = [ascii ''bootm'', ascii ''100000'']; s = default_state (board_chip (\<lambda>_. 0xff))
   in \<exists>s1 s2. do_setenv_env nor_cells (\<lambda>_ _. 0) s name vals = Some (0, s1) \<and> saveenv (nor_bus (snd flash_init)) s1 = Some (0, s2) \<and>
    (\<forall>s0 k. fl_chip s0 = fl_chip s2 \<longrightarrow> ok_name k \<longrightarrow>
      getenv nor_cells (boot_env (\<lambda>_. 0x1E00000) nor_cells s0) k =
        Some (if k = name then Some (join_vals vals) else map_of default_vars k))"
  unfolding Let_def
  by (rule saved_variable_survives_reset [OF nor_chip_model [OF chip_table_flash_init] _ default_state_info _ default_state_ok])
    (simp_all add: nor_ready_def default_state_def ok_name_def plain_name_def ascii_def env_text_def entry_def
      del_var_def default_vars_def ENV_SIZE_def CONFIG_ENV_SIZE_def ENV_HEADER_SIZE_def)

text \<open>
  C21: a block written by \<open>saveenv\<close> in which since then at most four consecutive bytes have changed, all
  of them in the stored checksum or all of them in the data, is not used: the next start notices it by
  the checksum and runs with the default environment. A change across the border of the two is not
  covered.
\<close>

theorem corrupted_environment_not_used:
  assumes "env_crcword saved = crc32 0 (env_data saved)" and "env_image saved = pre @ xs @ post"
    and "load (view (fl_chip s)) CONFIG_ENV_ADDR CONFIG_ENV_SIZE = pre @ ys @ post"
    and "length xs = length ys" and "length xs \<le> 4" and "xs \<noteq> ys"
    and "length pre + length xs \<le> 4 \<or> 4 \<le> length pre" and "ok_name name"
  shows "getenv view (boot_env malloc view s) name = Some (map_of default_vars name)"
proof -
  have "bytes_be32 (crc32 0 (env_data saved)) @ env_data saved = pre @ xs @ post"
    using assms(1,2) by (simp add: env_image_def)
  from boot_env_invalid(1) [where view = view, OF damaged_block [OF this assms(3-7)]] assms(8)
  show ?thesis by (rule getenv_lookup)
qed

theorem corrupted_environment_not_used_witness:
  "let saved = (default_state ())\<lparr>env_crcword := crc32 0 (replicate ENV_SIZE 0), env_data := replicate ENV_SIZE 0\<rparr>;
       m = overwrite (\<lambda>_. 0) CONFIG_ENV_ADDR (take 12 (env_image saved) @ [7, 8] @ drop 14 (env_image saved))
   in getenv (\<lambda>c. c) (boot_env (\<lambda>_. 0x1E00000) (\<lambda>c. c) (default_state m)) (ascii ''ipaddr'') =
     Some (map_of default_vars (ascii ''ipaddr''))"
proof -
  define saved where "saved = (default_state ())\<lparr>env_crcword := crc32 0 (replicate ENV_SIZE 0), env_data := replicate ENV_SIZE 0\<rparr>"
  let ?i = "env_image saved" and ?d = "take 12 (env_image saved) @ [7, 8] @ drop 14 (env_image saved)"
  have len: "length ?i = CONFIG_ENV_SIZE" "(14 :: nat) \<le> CONFIG_ENV_SIZE" "CONFIG_ENV_SIZE \<le> 2 ^ 32"
    by (simp_all add: saved_def env_image_def ENV_SIZE_def CONFIG_ENV_SIZE_def ENV_HEADER_SIZE_def)
  have crc: "env_crcword saved = crc32 0 (env_data saved)" by (simp add: saved_def)
  have "?i ! 12 = 0" "?i ! 13 = 0"
    by (simp_all add: saved_def env_image_def nth_append ENV_SIZE_def CONFIG_ENV_SIZE_def ENV_HEADER_SIZE_def)
  then have i: "?i = take 12 ?i @ [0, 0] @ drop 14 ?i"
    using id_take_nth_drop [of 12 ?i] Cons_nth_drop_Suc [of 13 ?i] len by simp
  have d: "length ?d = CONFIG_ENV_SIZE" using len by simp
  then have "load (overwrite (\<lambda>_. 0) CONFIG_ENV_ADDR ?d) CONFIG_ENV_ADDR CONFIG_ENV_SIZE = ?d"
    using len(3) load_overwrite [of ?d "\<lambda>_. 0" CONFIG_ENV_ADDR] by simp
  then show ?thesis
    unfolding Let_def saved_def [symmetric] using len
    by (intro corrupted_environment_not_used [where ys = "[7, 8]", OF crc i])
      (simp_all add: default_state_def ok_name_def ascii_def)
qed

end
