(* ===== verification/Image_Legacy.thy ===== *)
theory Image_Legacy
  imports Lib_Crc Lib_String
begin

text \<open>
  The legacy image format of \<^verbatim>\<open>common/image.c\<close> and \<^verbatim>\<open>include/image.h\<close>: a header of 64 bytes with two
  checksums in front of the data, its translation tables between codes and names, the tables of
  multi-component images, and the checks a kernel or ramdisk image has to pass (\<open>image_get_kernel\<close>
  of \<^verbatim>\<open>common/cmd_bootm.c\<close>, \<open>image_get_ramdisk\<close>). The target is big-endian, so the conversions from
  network byte order are identities. Messages and progress codes are left out.
\<close>

section \<open>Codes and names\<close>

definition IH_MAGIC :: u32 where "IH_MAGIC = 0x27051956"
definition IH_NMLEN :: nat where "IH_NMLEN = 32"
definition IH_OS_LINUX :: u8 where "IH_OS_LINUX = 5"
definition IH_ARCH_OR1K :: u8 where "IH_ARCH_OR1K = 19"
definition IH_TYPE_KERNEL :: u8 where "IH_TYPE_KERNEL = 2"
definition IH_TYPE_RAMDISK :: u8 where "IH_TYPE_RAMDISK = 3"
definition IH_TYPE_MULTI :: u8 where "IH_TYPE_MULTI = 4"
definition IH_COMP_NONE :: u8 where "IH_COMP_NONE = 0"
definition IH_COMP_GZIP :: u8 where "IH_COMP_GZIP = 1"
definition CHUNKSZ_CRC32 :: u32 where "CHUNKSZ_CRC32 = 64 * 1024"

record table_entry =
  te_id :: int
  te_sname :: "string option"
  te_lname :: string

definition entry_of :: "int \<Rightarrow> string \<Rightarrow> string \<Rightarrow> table_entry" where
  "entry_of i s l = \<lparr>te_id = i, te_sname = Some s, te_lname = l\<rparr>"

definition nameless :: "int \<Rightarrow> string \<Rightarrow> table_entry" where
  "nameless i l = \<lparr>te_id = i, te_sname = None, te_lname = l\<rparr>"

definition uimage_arch :: "table_entry list" where
  "uimage_arch =
     [nameless 0 ''Invalid ARCH'', entry_of 1 ''alpha'' ''Alpha'', entry_of 2 ''arm'' ''ARM'', entry_of 3 ''x86'' ''Intel x86'',
      entry_of 4 ''ia64'' ''IA64'', entry_of 12 ''m68k'' ''M68K'', entry_of 14 ''microblaze'' ''MicroBlaze'',
      entry_of 5 ''mips'' ''MIPS'', entry_of 6 ''mips64'' ''MIPS 64 Bit'', entry_of 13 ''nios'' ''NIOS'',
      entry_of 15 ''nios2'' ''NIOS II'', entry_of 7 ''powerpc'' ''PowerPC'', entry_of 7 ''ppc'' ''PowerPC'',
      entry_of 8 ''s390'' ''IBM S390'', entry_of 9 ''sh'' ''SuperH'', entry_of 10 ''sparc'' ''SPARC'',
      entry_of 11 ''sparc64'' ''SPARC 64 Bit'', entry_of 16 ''blackfin'' ''Blackfin'', entry_of 17 ''avr32'' ''AVR32'',
      entry_of 19 ''or1k'' ''OR1K'', entry_of (- 1) [] []]"

definition uimage_os :: "table_entry list" where
  "uimage_os =
     [nameless 0 ''Invalid OS'', entry_of 5 ''linux'' ''Linux'', entry_of 2 ''netbsd'' ''NetBSD'',
      entry_of 18 ''rtems'' ''RTEMS'', entry_of 17 ''u-boot'' ''U-Boot'', entry_of (- 1) [] []]"

definition uimage_type :: "table_entry list" where
  "uimage_type =
     [nameless 0 ''Invalid Image'', entry_of 7 ''filesystem'' ''Filesystem Image'', entry_of 5 ''firmware'' ''Firmware'',
      entry_of 2 ''kernel'' ''Kernel Image'', entry_of 4 ''multi'' ''Multi-File Image'', entry_of 3 ''ramdisk'' ''RAMDisk Image'',
      entry_of 6 ''script'' ''Script'', entry_of 1 ''standalone'' ''Standalone Program'',
      entry_of 8 ''flat_dt'' ''Flat Device Tree'', entry_of (- 1) [] []]"

definition uimage_comp :: "table_entry list" where
  "uimage_comp =
     [entry_of 0 ''none'' ''uncompressed'', entry_of 2 ''bzip2'' ''bzip2 compressed'', entry_of 1 ''gzip'' ''gzip compressed'',
      entry_of 3 ''lzma'' ''lzma compressed'', entry_of (- 1) [] []]"

text \<open>The loops stop at the entry with a negative code; \<open>None\<close> is a table without one.\<close>

fun get_table_entry_name :: "table_entry list \<Rightarrow> string \<Rightarrow> int \<Rightarrow> string option" where
  "get_table_entry_name [] msg i = None"
| "get_table_entry_name (t # table) msg i =
     (if te_id t \<ge> 0 then if te_id t = i then Some (te_lname t) else get_table_entry_name table msg i else Some msg)"

fun get_table_entry_id :: "table_entry list \<Rightarrow> string \<Rightarrow> int option" where
  "get_table_entry_id [] name = None"
| "get_table_entry_id (t # table) name =
     (if te_id t \<ge> 0 then if te_sname t = Some name then Some (te_id t) else get_table_entry_id table name
      else Some (- 1))"

definition genimg_get_os_name :: "u8 \<Rightarrow> string option" where
  "genimg_get_os_name os = get_table_entry_name uimage_os ''Unknown OS'' (uint os)"

definition genimg_get_arch_name :: "u8 \<Rightarrow> string option" where
  "genimg_get_arch_name arch = get_table_entry_name uimage_arch ''Unknown Architecture'' (uint arch)"

definition genimg_get_type_name :: "u8 \<Rightarrow> string option" where
  "genimg_get_type_name type = get_table_entry_name uimage_type ''Unknown Image'' (uint type)"
definition genimg_get_comp_name :: "u8 \<Rightarrow> string option" where
  "genimg_get_comp_name c = get_table_entry_name uimage_comp ''Unknown Compression'' (uint c)"
definition genimg_get_os_id :: "string \<Rightarrow> int option" where
  "genimg_get_os_id name = get_table_entry_id uimage_os name"
definition genimg_get_arch_id :: "string \<Rightarrow> int option" where
  "genimg_get_arch_id name = get_table_entry_id uimage_arch name"
definition genimg_get_type_id :: "string \<Rightarrow> int option" where
  "genimg_get_type_id name = get_table_entry_id uimage_type name"
definition genimg_get_comp_id :: "string \<Rightarrow> int option" where
  "genimg_get_comp_id name = get_table_entry_id uimage_comp name"

section \<open>The header\<close>

record image_header =
  ih_magic :: u32
  ih_hcrc :: u32
  ih_time :: u32
  ih_size :: u32
  ih_load :: u32
  ih_ep :: u32
  ih_dcrc :: u32
  ih_os :: u8
  ih_arch :: u8
  ih_type :: u8
  ih_comp :: u8
  ih_name :: "u8 list"

text \<open>The layout of the structure, and the structure at an address.\<close>

definition header_bytes :: "image_header \<Rightarrow> u8 list" where
  "header_bytes h =
     bytes_be32 (ih_magic h) @ bytes_be32 (ih_hcrc h) @ bytes_be32 (ih_time h) @ bytes_be32 (ih_size h) @
     bytes_be32 (ih_load h) @ bytes_be32 (ih_ep h) @ bytes_be32 (ih_dcrc h) @
     [ih_os h, ih_arch h, ih_type h, ih_comp h] @ ih_name h"

definition get32 :: "mem \<Rightarrow> addr \<Rightarrow> u32" where
  "get32 m a = be32 (m a) (m (a + 1)) (m (a + 2)) (m (a + 3))"

definition header_at :: "mem \<Rightarrow> addr \<Rightarrow> image_header" where
  "header_at m p =
     \<lparr>ih_magic = get32 m p, ih_hcrc = get32 m (p + 4), ih_time = get32 m (p + 8), ih_size = get32 m (p + 12),
      ih_load = get32 m (p + 16), ih_ep = get32 m (p + 20), ih_dcrc = get32 m (p + 24),
      ih_os = m (p + 28), ih_arch = m (p + 29), ih_type = m (p + 30), ih_comp = m (p + 31),
      ih_name = load m (p + 32) IH_NMLEN\<rparr>"

definition image_get_header_size :: u32 where "image_get_header_size = 64"

definition image_get_magic :: "image_header \<Rightarrow> u32" where "image_get_magic hdr = ih_magic hdr"
definition image_get_hcrc :: "image_header \<Rightarrow> u32" where "image_get_hcrc hdr = ih_hcrc hdr"
definition image_get_time :: "image_header \<Rightarrow> u32" where "image_get_time hdr = ih_time hdr"
definition image_get_size :: "image_header \<Rightarrow> u32" where "image_get_size hdr = ih_size hdr"
definition image_get_load :: "image_header \<Rightarrow> u32" where "image_get_load hdr = ih_load hdr"
definition image_get_ep :: "image_header \<Rightarrow> u32" where "image_get_ep hdr = ih_ep hdr"
definition image_get_dcrc :: "image_header \<Rightarrow> u32" where "image_get_dcrc hdr = ih_dcrc hdr"
definition image_get_os :: "image_header \<Rightarrow> u8" where "image_get_os hdr = ih_os hdr"
definition image_get_arch :: "image_header \<Rightarrow> u8" where "image_get_arch hdr = ih_arch hdr"
definition image_get_type :: "image_header \<Rightarrow> u8" where "image_get_type hdr = ih_type hdr"
definition image_get_comp :: "image_header \<Rightarrow> u8" where "image_get_comp hdr = ih_comp hdr"

definition image_set_hcrc :: "image_header \<Rightarrow> u32 \<Rightarrow> image_header" where "image_set_hcrc hdr val = hdr\<lparr>ih_hcrc := val\<rparr>"

text \<open>The functions below use the address of the header too.\<close>

definition image_get_data_size :: "mem \<Rightarrow> addr \<Rightarrow> u32" where "image_get_data_size m hdr = image_get_size (header_at m hdr)"
definition image_get_data :: "addr \<Rightarrow> addr" where "image_get_data hdr = hdr + image_get_header_size"
definition image_get_image_size :: "mem \<Rightarrow> addr \<Rightarrow> u32" where
  "image_get_image_size m hdr = image_get_size (header_at m hdr) + image_get_header_size"
definition image_get_image_end :: "mem \<Rightarrow> addr \<Rightarrow> addr" where
  "image_get_image_end m hdr = hdr + image_get_image_size m hdr"

definition image_check_magic :: "image_header \<Rightarrow> bool" where
  "image_check_magic hdr \<longleftrightarrow> image_get_magic hdr = IH_MAGIC"
definition image_check_type :: "image_header \<Rightarrow> u8 \<Rightarrow> bool" where
  "image_check_type hdr type \<longleftrightarrow> image_get_type hdr = type"
definition image_check_arch :: "image_header \<Rightarrow> u8 \<Rightarrow> bool" where
  "image_check_arch hdr arch \<longleftrightarrow> image_get_arch hdr = arch"
definition image_check_os :: "image_header \<Rightarrow> u8 \<Rightarrow> bool" where
  "image_check_os hdr os \<longleftrightarrow> image_get_os hdr = os"
definition image_check_target_arch :: "image_header \<Rightarrow> bool" where
  "image_check_target_arch hdr \<longleftrightarrow> image_check_arch hdr IH_ARCH_OR1K"

definition image_check_hcrc :: "image_header \<Rightarrow> bool" where
  "image_check_hcrc hdr \<longleftrightarrow>
     (let header = image_set_hcrc hdr 0
      in crc32 0 (header_bytes header) = image_get_hcrc hdr)"

definition image_check_dcrc :: "bool \<Rightarrow> mem \<Rightarrow> addr \<Rightarrow> bool option" where
  "image_check_dcrc has_watchdog m hdr =
     (let data = image_get_data hdr;
          len = image_get_data_size m hdr
      in map_option (\<lambda>dcrc. dcrc = image_get_dcrc (header_at m hdr))
           (crc32_wd has_watchdog 0 (load m data (unat len)) CHUNKSZ_CRC32))"

text \<open>The result is the address of the verified header or \<open>NULL\<close>; \<open>None\<close> is a checksum that does not end.\<close>

definition image_get_kernel :: "bool \<Rightarrow> mem \<Rightarrow> addr \<Rightarrow> bool \<Rightarrow> addr option" where
  "image_get_kernel has_watchdog m img_addr verify =
     (let hdr = header_at m img_addr
      in if \<not> image_check_magic hdr then Some NULL
         else if \<not> image_check_hcrc hdr then Some NULL
         else
           case (if verify then image_check_dcrc has_watchdog m img_addr else Some True) of
             None \<Rightarrow> None
           | Some dcrc_ok \<Rightarrow>
               if \<not> dcrc_ok then Some NULL
               else if \<not> image_check_target_arch hdr then Some NULL
               else Some img_addr)"

definition image_get_ramdisk :: "bool \<Rightarrow> mem \<Rightarrow> addr \<Rightarrow> u8 \<Rightarrow> bool \<Rightarrow> addr option" where
  "image_get_ramdisk has_watchdog m rd_addr arch verify =
     (let rd_hdr = header_at m rd_addr
      in if \<not> image_check_magic rd_hdr then Some NULL
         else if \<not> image_check_hcrc rd_hdr then Some NULL
         else
           case (if verify then image_check_dcrc has_watchdog m rd_addr else Some True) of
             None \<Rightarrow> None
           | Some dcrc_ok \<Rightarrow>
               if \<not> dcrc_ok then Some NULL
               else if \<not> image_check_os rd_hdr IH_OS_LINUX \<or> \<not> image_check_arch rd_hdr arch \<or>
                 \<not> image_check_type rd_hdr IH_TYPE_RAMDISK then Some NULL
               else Some rd_addr)"

section \<open>Multi-component images\<close>

text \<open>The number of nonzero entries of the size table; \<open>None\<close> if the loop does not end.\<close>

partial_function (option) count_slots :: "mem \<Rightarrow> addr \<Rightarrow> u32 \<Rightarrow> u32 \<Rightarrow> u32 option" where
  "count_slots m tab i count =
     (if get32 m (tab + 4 * i) \<noteq> 0 then count_slots m tab (i + 1) (count + 1) else Some count)"

definition image_multi_count :: "mem \<Rightarrow> addr \<Rightarrow> u32 option" where
  "image_multi_count m hdr = count_slots m (image_get_data hdr) 0 0"

fun sum_slots :: "mem \<Rightarrow> addr \<Rightarrow> nat \<Rightarrow> u32" where
  "sum_slots m tab 0 = 0"
| "sum_slots m tab (Suc i) = sum_slots m tab i + ((get32 m (tab + 4 * of_nat i) + 3) AND NOT 3)"

text \<open>Address and length of component \<open>idx\<close>.\<close>

definition image_multi_getimg :: "mem \<Rightarrow> addr \<Rightarrow> u32 \<Rightarrow> (u32 \<times> u32) option" where
  "image_multi_getimg m hdr idx =
     (case image_multi_count m hdr of
        None \<Rightarrow> None
      | Some count \<Rightarrow>
          let tab = image_get_data hdr;
              img_data = image_get_data hdr + (count + 1) * 4
          in if idx < count then
               Some (img_data + sum_slots m tab (unat idx), get32 m (tab + 4 * idx))
             else Some (0, 0))"

section \<open>The format of an image\<close>

definition FDT_MAGIC :: u32 where "FDT_MAGIC = 0xd00dfeed"
definition FDT_SW_MAGIC :: u32 where "FDT_SW_MAGIC = NOT FDT_MAGIC"
definition FDT_FIRST_SUPPORTED_VERSION :: u32 where "FDT_FIRST_SUPPORTED_VERSION = 0x10"
definition FDT_LAST_SUPPORTED_VERSION :: u32 where "FDT_LAST_SUPPORTED_VERSION = 0x11"

definition fdt_check_header :: "mem \<Rightarrow> addr \<Rightarrow> int" where
  "fdt_check_header m fdt =
     (let magic = get32 m fdt;
          version = get32 m (fdt + 20);
          last_comp_version = get32 m (fdt + 24);
          size_dt_struct = get32 m (fdt + 36)
      in if magic = FDT_MAGIC then
           if version < FDT_FIRST_SUPPORTED_VERSION then - 10
           else if last_comp_version > FDT_LAST_SUPPORTED_VERSION then - 10
           else 0
         else if magic = FDT_SW_MAGIC then if size_dt_struct = 0 then - 7 else 0
         else - 9)"

datatype image_format = IMAGE_FORMAT_INVALID | IMAGE_FORMAT_LEGACY | IMAGE_FORMAT_FIT

definition genimg_get_format :: "mem \<Rightarrow> addr \<Rightarrow> image_format" where
  "genimg_get_format m img_addr =
     (if image_check_magic (header_at m img_addr) then IMAGE_FORMAT_LEGACY
      else if fdt_check_header m img_addr = 0 then IMAGE_FORMAT_FIT
      else IMAGE_FORMAT_INVALID)"

lemmas image_getters [simp] =
  image_get_magic_def image_get_hcrc_def image_get_time_def image_get_size_def image_get_load_def
  image_get_ep_def image_get_dcrc_def image_get_os_def image_get_arch_def image_get_type_def
  image_get_comp_def image_set_hcrc_def

lemmas image_checks [simp] =
  image_check_magic_def image_check_type_def image_check_arch_def image_check_os_def
  image_check_target_arch_def

section \<open>Names\<close>

text \<open>Every code of the tables translates to the name of its entry, every short name to its code.\<close>

lemma get_table_entry_name_total:
  "\<exists>t\<in>set table. te_id t < 0 \<Longrightarrow> \<exists>n. get_table_entry_name table msg i = Some n"
  by (induction table) auto

lemma get_table_entry_id_first:
  assumes "\<forall>t\<in>set pre. 0 \<le> te_id t \<and> te_sname t \<noteq> Some name" and "0 \<le> te_id t" and "te_sname t = Some name"
  shows "get_table_entry_id (pre @ t # post) name = Some (te_id t)"
  using assms by (induction pre) auto

section \<open>Headers in memory\<close>

lemma load_1 [simp]: "load m p (Suc 0) = [m p]"
  by (simp add: load_def)

lemma bytes_get32: "bytes_be32 (get32 m p) = load m p 4"
  by (simp add: get32_def eval_nat_numeral load_Suc add.assoc)

lemma header_bytes_at: "header_bytes (header_at m p) = load m p 64"
proof -
  have "load m p 64 = load m p (4 + (4 + (4 + (4 + (4 + (4 + (4 + (4 + 32))))))))"
    by simp
  also have "\<dots> = header_bytes (header_at m p)"
    unfolding load_add header_bytes_def header_at_def
    by (simp add: bytes_get32 IH_NMLEN_def) (simp add: eval_nat_numeral load_Suc ac_simps)
  finally show ?thesis ..
qed

lemma length_header_bytes: "length (ih_name h) = 32 \<Longrightarrow> length (header_bytes h) = 64"
  by (simp add: header_bytes_def)

lemma bytes_be32_eq [simp]: "bytes_be32 a = bytes_be32 b \<longleftrightarrow> a = b"
proof -
  have "be32 (bytes_be32 w ! 0) (bytes_be32 w ! 1) (bytes_be32 w ! 2) (bytes_be32 w ! 3) = w" for w
    by (simp add: bytes_be32_def)
  then show ?thesis
    by metis
qed

lemma bytes_be32_append_eq [simp]: "bytes_be32 a @ xs = bytes_be32 b @ ys \<longleftrightarrow> a = b \<and> xs = ys"
  by (simp add: append_eq_append_conv)

lemma header_bytes_inj: "header_bytes h = header_bytes h' \<longleftrightarrow> h = h'"
  by (cases h; cases h') (auto simp: header_bytes_def)

lemma header_at_bytes:
  assumes "load m p 64 = header_bytes h"
  shows "header_at m p = h"
  using assms
  by (simp flip: header_bytes_inj add: header_bytes_at)

section \<open>What the checks accept and reject\<close>

text \<open>Two lists that differ in at most \<open>n\<close> consecutive places.\<close>

definition burst :: "nat \<Rightarrow> 'a list \<Rightarrow> 'a list \<Rightarrow> bool" where
  "burst n xs ys \<longleftrightarrow>
     (\<exists>pre a b post. xs = pre @ a @ post \<and> ys = pre @ b @ post \<and> length a = length b \<and> length a \<le> n)"

lemma burst_length: "burst n xs ys \<Longrightarrow> length xs = length ys"
  by (auto simp: burst_def)

lemma burstI: "length a = length b \<Longrightarrow> length a \<le> n \<Longrightarrow> burst n (pre @ a @ post) (pre @ b @ post)"
  unfolding burst_def by blast

lemma burst_append_left: "burst n xs ys \<Longrightarrow> burst n (zs @ xs) (zs @ ys)"
  unfolding burst_def by (metis append.assoc)

lemma burst_take:
  assumes "burst n xs ys"
  shows "burst n (take k xs) (take k ys)"
proof -
  obtain pre a b post where "xs = pre @ a @ post" "ys = pre @ b @ post" "length a = length b" "length a \<le> n"
    using assms by (auto simp: burst_def)
  then show ?thesis
    using burstI [of "take (k - length pre) a" "take (k - length pre) b" n "take k pre"
        "take (k - length pre - length a) post"]
    by simp
qed

lemma burst_drop:
  assumes "burst n xs ys"
  shows "burst n (drop k xs) (drop k ys)"
proof -
  obtain pre a b post where "xs = pre @ a @ post" "ys = pre @ b @ post" "length a = length b" "length a \<le> n"
    using assms by (auto simp: burst_def)
  then show ?thesis
    using burstI [of "drop (k - length pre) a" "drop (k - length pre) b" n "drop k pre"
        "drop (k - length pre - length a) post"]
    by simp
qed

lemma crc32_burst_neq: "burst 4 xs ys \<Longrightarrow> xs \<noteq> ys \<Longrightarrow> crc32 crc xs \<noteq> crc32 crc ys"
  by (auto simp: burst_def crc32_burst)

lemma image_check_dcrc_eq:
  "image_check_dcrc has_watchdog m p =
     Some (crc32 0 (load m (p + 64) (unat (ih_size (header_at m p)))) = ih_dcrc (header_at m p))"
proof -
  have "length (load m (p + 64) (unat (ih_size (header_at m p)))) < 2 ^ 32"
    using unsigned_less [of "ih_size (header_at m p)", where ?'a = nat] by simp
  then show ?thesis
    by (simp add: image_check_dcrc_def crc32_wd_def crc32_wd_chunks CHUNKSZ_CRC32_def image_get_data_def
        image_get_data_size_def image_get_header_size_def Let_def)
qed

lemma image_check_hcrc_bytes:
  "image_check_hcrc h \<longleftrightarrow>
     crc32 0 (take 4 (header_bytes h) @ bytes_be32 0 @ drop 8 (header_bytes h)) = ih_hcrc h"
  by (simp add: image_check_hcrc_def header_bytes_def)

text \<open>A header at \<open>p\<close> with its data behind it.\<close>

lemma load_image:
  assumes "load m p (64 + n) = header_bytes h @ data" and "length (ih_name h) = 32" and "length data = n"
  shows "header_at m p = h" and "load m (p + 64) n = data"
proof -
  have "load m p 64 @ load m (p + of_nat 64) n = header_bytes h @ data"
    using assms(1) by (simp only: load_add)
  then have "load m p 64 = header_bytes h" "load m (p + of_nat 64) n = data"
    using assms(2) by (simp_all add: append_eq_append_conv length_header_bytes)
  then show "header_at m p = h" and "load m (p + 64) n = data"
    by (simp_all add: header_at_bytes)
qed

text \<open>
  A window of four changed bytes that does not reach from the checksum field into the fields behind it
  cannot stay undetected.
\<close>

lemma header_change_detected:
  assumes ok: "ih_magic h = IH_MAGIC" "image_check_hcrc h" "length (ih_name h) = 32" "length (ih_name h') = 32"
    and "h' \<noteq> h"
    and window: "drop 8 (header_bytes h') = drop 8 (header_bytes h) \<or>
      take 8 (header_bytes h') = take 8 (header_bytes h) \<and> burst 4 (header_bytes h) (header_bytes h')"
  shows "\<not> (ih_magic h' = IH_MAGIC \<and> image_check_hcrc h')"
proof
  assume a: "ih_magic h' = IH_MAGIC \<and> image_check_hcrc h'"
  have front: "take 8 (header_bytes h) = bytes_be32 (ih_magic h) @ bytes_be32 (ih_hcrc h)" for h
    by (simp add: header_bytes_def)
  have split: "header_bytes h = take 8 (header_bytes h) @ drop 8 (header_bytes h)" for h
    by simp
  show False
    using window
  proof
    assume d: "drop 8 (header_bytes h') = drop 8 (header_bytes h)"
    moreover have "take 4 (header_bytes h') = take 4 (header_bytes h)"
      using a ok by (simp add: header_bytes_def)
    ultimately have "ih_hcrc h' = ih_hcrc h"
      using a ok(2) by (simp add: image_check_hcrc_bytes)
    then have "take 8 (header_bytes h') = take 8 (header_bytes h)"
      using a ok(1) by (simp add: front)
    then have "header_bytes h' = header_bytes h"
      using d split by metis
    then show False
      using \<open>h' \<noteq> h\<close> by (simp add: header_bytes_inj)
  next
    assume t: "take 8 (header_bytes h') = take 8 (header_bytes h) \<and> burst 4 (header_bytes h) (header_bytes h')"
    then have "ih_hcrc h' = ih_hcrc h"
      by (simp add: front)
    moreover have "take 4 (header_bytes h') = take 4 (header_bytes h)"
      using t by (metis take_take min.absorb1 numeral_le_iff semiring_norm(68,71,76,78))
    ultimately have eq: "crc32 0 ((take 4 (header_bytes h) @ bytes_be32 0) @ drop 8 (header_bytes h')) =
        crc32 0 ((take 4 (header_bytes h) @ bytes_be32 0) @ drop 8 (header_bytes h))"
      using a ok(2) by (simp add: image_check_hcrc_bytes)
    moreover have "drop 8 (header_bytes h') \<noteq> drop 8 (header_bytes h)"
      using t split \<open>h' \<noteq> h\<close> by (metis header_bytes_inj)
    moreover have "burst 4 ((take 4 (header_bytes h) @ bytes_be32 0) @ drop 8 (header_bytes h))
        ((take 4 (header_bytes h) @ bytes_be32 0) @ drop 8 (header_bytes h'))"
      using t by (intro burst_append_left burst_drop) simp
    ultimately show False
      by (metis crc32_burst_neq same_append_eq)
  qed
qed

text \<open>
  What \<open>image_get_kernel\<close> and \<open>image_get_ramdisk\<close> have in common: a routine that returns the address of
  the image when magic number, both checksums and a condition on the header are right, else \<open>NULL\<close>.
\<close>

locale image_checker =
  fixes get_image :: "mem \<Rightarrow> addr \<Rightarrow> addr option"
    and wanted :: "image_header \<Rightarrow> bool"
  assumes get_image_eq:
    "get_image m p = Some
       (if ih_magic (header_at m p) = IH_MAGIC \<and> image_check_hcrc (header_at m p) \<and>
           crc32 0 (load m (p + 64) (unat (ih_size (header_at m p)))) = ih_dcrc (header_at m p) \<and>
           wanted (header_at m p) then p else NULL)"
begin

lemma accepts:
  assumes "load m p (64 + length data) = header_bytes h @ data" and "length (ih_name h) = 32"
    and "ih_magic h = IH_MAGIC" and "image_check_hcrc h" and "wanted h"
    and "length data < 2 ^ 32" and "ih_size h = of_nat (length data)" and "ih_dcrc h = crc32 0 data"
  shows "get_image m p = Some p"
  using assms load_image [OF assms(1,2)] by (simp add: get_image_eq unat_of_nat)

lemma rejects:
  assumes img: "length data < 2 ^ 32" "length (ih_name h) = 32"
      "ih_magic h = IH_MAGIC" "image_check_hcrc h" "ih_size h = of_nat (length data)" "ih_dcrc h = crc32 0 data"
    and img': "load m p (64 + length data) \<noteq> header_bytes h @ data"
      "burst 4 (header_bytes h @ data) (load m p (64 + length data))"
    and window: "drop 8 (load m p (64 + length data)) = drop 8 (header_bytes h @ data) \<or>
      take 8 (load m p (64 + length data)) = take 8 (header_bytes h @ data)"
  shows "get_image m p = Some NULL"
proof (cases "header_at m p = h")
  case True
  have hb: "load m p 64 = header_bytes h" and len: "length (header_bytes h) = 64"
    using True img(2) by (simp_all flip: header_bytes_at add: length_header_bytes)
  then have data: "load m p (64 + length data) = header_bytes h @ load m (p + 64) (length data)"
    by (simp add: load_add)
  then have "load m (p + 64) (length data) \<noteq> data"
    using img'(1) by simp
  moreover have "burst 4 data (load m (p + 64) (length data))"
    using burst_drop [OF img'(2), of 64] by (simp add: data len)
  ultimately have "crc32 0 (load m (p + 64) (length data)) \<noteq> crc32 0 data"
    using crc32_burst_neq by metis
  then show ?thesis
    using True img by (simp add: get_image_eq unat_of_nat)
next
  case False
  have len: "length (header_bytes h) = 64"
    using img(2) by (rule length_header_bytes)
  have t: "take 64 (load m p (64 + length data)) = header_bytes (header_at m p)"
    by (simp add: load_add header_bytes_at)
  have b: "burst 4 (header_bytes h) (header_bytes (header_at m p))"
    using burst_take [OF img'(2), of 64] by (simp add: t len)
  have "drop 8 (header_bytes (header_at m p)) = drop 8 (header_bytes h) \<or>
      take 8 (header_bytes (header_at m p)) = take 8 (header_bytes h)"
    using window
  proof
    assume "drop 8 (load m p (64 + length data)) = drop 8 (header_bytes h @ data)"
    then have "take 56 (drop 8 (load m p (64 + length data))) = take 56 (drop 8 (header_bytes h @ data))"
      by simp
    then show ?thesis
      by (simp flip: t add: take_drop len)
  next
    assume w: "take 8 (load m p (64 + length data)) = take 8 (header_bytes h @ data)"
    have "take 8 (header_bytes (header_at m p)) = take 8 (load m p (64 + length data))"
      by (simp flip: t)
    then show ?thesis
      using w by (simp add: len)
  qed
  then have "\<not> (ih_magic (header_at m p) = IH_MAGIC \<and> image_check_hcrc (header_at m p))"
    using b img False
    by (intro header_change_detected [of h]) (auto simp: header_at_def IH_NMLEN_def)
  then show ?thesis
    by (auto simp: get_image_eq)
qed

end

interpretation kernel: image_checker "\<lambda>m p. image_get_kernel has_watchdog m p True" "\<lambda>h. ih_arch h = IH_ARCH_OR1K"
  for has_watchdog
  by unfold_locales (auto simp: image_get_kernel_def image_check_dcrc_eq Let_def)

interpretation ramdisk: image_checker "\<lambda>m p. image_get_ramdisk has_watchdog m p arch True"
    "\<lambda>h. ih_os h = IH_OS_LINUX \<and> ih_arch h = arch \<and> ih_type h = IH_TYPE_RAMDISK" for has_watchdog arch
  by unfold_locales (auto simp: image_get_ramdisk_def image_check_dcrc_eq Let_def)

lemma image_get_kernel_accepts:
  assumes "load m p (64 + length data) = header_bytes h @ data" and "length (ih_name h) = 32"
    and "ih_magic h = IH_MAGIC" and "image_check_hcrc h" and "ih_arch h = IH_ARCH_OR1K"
    and "length data < 2 ^ 32" and "ih_size h = of_nat (length data)" and "ih_dcrc h = crc32 0 data"
  shows "image_get_kernel has_watchdog m p verify = Some p"
proof (cases verify)
  case True
  then show ?thesis
    using kernel.accepts [OF assms] by simp
next
  case False
  then show ?thesis
    using assms load_image [OF assms(1,2)] by (simp add: image_get_kernel_def)
qed

section \<open>Size tables\<close>

lemma load_infix:
  assumes "load m p n = xs @ ys @ zs"
  shows "load m (p + of_nat (length xs)) (length ys) = ys"
proof -
  have n: "n = length xs + (length ys + length zs)"
    using arg_cong [OF assms, of length] by simp
  show ?thesis
    using assms unfolding n load_add by (simp add: append_eq_append_conv)
qed

lemma get32_eq: "get32 m p = w \<longleftrightarrow> load m p 4 = bytes_be32 w"
  by (simp flip: bytes_get32)

lemma round_up_4: "((of_nat l :: u32) + 3) AND NOT 3 = of_nat ((l + 3) div 4 * 4)"
proof -
  have "of_nat (l + 3) AND (3 :: u32) = take_bit 2 (of_nat (l + 3))"
    by (simp add: take_bit_eq_mask mask_eq_exp_minus_1)
  then have "of_nat (l + 3) AND (3 :: u32) = of_nat ((l + 3) mod 4)"
    by (simp only: take_bit_of_nat) (simp add: take_bit_eq_mod)
  moreover have "x AND NOT 3 = x - (x AND 3)" for x :: u32
    by (subst disjunctive_diff_eq_and_not) (auto simp: bit_eq_iff bit_simps)
  ultimately have "of_nat (l + 3) AND NOT (3 :: u32) = of_nat (l + 3) - of_nat ((l + 3) mod 4)"
    by simp
  also have "\<dots> = of_nat ((l + 3) - (l + 3) mod 4)"
    by (rule of_nat_diff [symmetric]) simp
  finally show ?thesis
    by (simp only: minus_mod_eq_div_mult of_nat_add of_nat_numeral)
qed

lemma count_slots_eq:
  assumes "\<And>i. i < n \<Longrightarrow> get32 m (tab + 4 * of_nat i) \<noteq> 0" and "get32 m (tab + 4 * of_nat n) = 0"
    and "i \<le> n"
  shows "count_slots m tab (of_nat i) (of_nat i) = Some (of_nat n)"
  using assms(3)
proof (induction "n - i" arbitrary: i)
  case 0
  then show ?case
    using assms(2) by (subst count_slots.simps) simp
next
  case (Suc k)
  then have "count_slots m tab (of_nat (Suc i)) (of_nat (Suc i)) = Some (of_nat n)"
    by (intro Suc.hyps(1)) simp_all
  moreover have "get32 m (tab + 4 * of_nat i) \<noteq> 0"
    using assms(1) Suc.hyps(2) by simp
  ultimately show ?case
    by (subst count_slots.simps) (simp add: add.commute)
qed

end
