(* ===== verification/Mkimage.thy ===== *)
theory Mkimage
  imports Image_Legacy "HOL-Library.Monad_Syntax"
begin

text \<open>
  \<^verbatim>\<open>tools/mkimage.c\<close>, the host tool that writes legacy images: the size table and the padded components
  of multi-component images, the copy of a data file (\<open>copy_file\<close>), the header that \<open>main\<close> builds in
  front of them, and the check of an existing image (\<open>image_verify_header\<close>). The options are those left
  by the command line; files are a map from names to contents, and writing to the image file succeeds.
  The properties are what the boot monitor does with such an image: it accepts it, it finds every
  component of it, and it rejects it when it was damaged.
\<close>

section \<open>Options, files and errors\<close>

definition IH_TYPE_SCRIPT :: u8 where "IH_TYPE_SCRIPT = 6"

record mkimage_options =
  opt_os :: u8
  opt_arch :: u8
  opt_type :: u8
  opt_comp :: u8
  opt_addr :: u32
  opt_ep :: u32
  opt_eflag :: bool
  opt_xflag :: bool
  opt_name :: "u8 list"
  opt_datafile :: string

datatype mkimage_error =
    Xip_entry_point
  | Cant_stat string
  | Cant_open string
  | Cant_read string
  | Too_small_for_xip string
  | Invalid_xip_buffer string

type_synonym files = "string \<Rightarrow> u8 list option"

text \<open>The entry point, and the check for images that execute in place.\<close>

definition entry_point :: "mkimage_options \<Rightarrow> mkimage_error + u32" where
  "entry_point opts =
     (let addr = opt_addr opts;
          ep = (if \<not> opt_eflag opts then addr + (if opt_xflag opts then image_get_header_size else 0)
                else opt_ep opts)
      in if opt_xflag opts \<and> ep \<noteq> addr + image_get_header_size then Inl Xip_entry_point else Inr ep)"

section \<open>Payload\<close>

text \<open>
  The bytes written for a data file. An empty file cannot be mapped. In place of the header, an image
  that executes in place has 64 bytes of 0xff, which are skipped. Files are shorter than 2 GB: the size is an \<open>int\<close>,
  which a longer one would not fit.
\<close>

definition copy_file :: "files \<Rightarrow> bool \<Rightarrow> string \<Rightarrow> bool \<Rightarrow> mkimage_error + u8 list" where
  "copy_file files xflag datafile pad =
     (case files datafile of
        None \<Rightarrow> Inl (Cant_open datafile)
      | Some contents \<Rightarrow>
          if contents = [] then Inl (Cant_read datafile)
          else if xflag \<and> length contents < unat image_get_header_size then Inl (Too_small_for_xip datafile)
          else if xflag \<and> \<not> list_all (\<lambda>b. b = 0xff) (take (unat image_get_header_size) contents) then
            Inl (Invalid_xip_buffer datafile)
          else
            let offset = (if xflag then unat image_get_header_size else 0);
                sz = length contents - offset;
                tail = sz mod 4
            in Inr (drop offset contents @ (if pad \<and> tail \<noteq> 0 then replicate (4 - tail) 0 else [])))"

text \<open>The part of a list of file names before and after the first colon.\<close>

definition strchr_colon :: "string \<Rightarrow> string \<times> string option" where
  "strchr_colon file =
     (let rest = dropWhile (\<lambda>c. c \<noteq> CHR '':'') file
      in (takeWhile (\<lambda>c. c \<noteq> CHR '':'') file, if rest = [] then None else Some (tl rest)))"

lemma strchr_colon_shorter: "strchr_colon file = (f, Some sep) \<Longrightarrow> length sep < length file"
  using length_dropWhile_le [where P = "\<lambda>c. c \<noteq> CHR '':''" and xs = "file"]
  by (cases "dropWhile (\<lambda>c. c \<noteq> CHR '':'') file") (auto simp: strchr_colon_def)

text \<open>The loop that writes the table of sizes; the last entry is zero.\<close>

function size_table :: "files \<Rightarrow> string \<Rightarrow> mkimage_error + u8 list" where
  "size_table files file =
     (case strchr_colon file of
        (name, sep) \<Rightarrow>
          (case files name of
             None \<Rightarrow> Inl (Cant_stat name)
           | Some contents \<Rightarrow>
               let sz = of_nat (length contents) :: u32
               in case sep of
                    None \<Rightarrow> Inr (bytes_be32 sz @ bytes_be32 0)
                  | Some file' \<Rightarrow> map_sum id (\<lambda>rest. bytes_be32 sz @ rest) (size_table files file')))"
  by pat_completeness auto
termination
  by (relation "measure (\<lambda>(files, file). length file)") (auto intro: strchr_colon_shorter [OF sym])

text \<open>The loop that copies the components; all but the last are padded.\<close>

function copy_files :: "files \<Rightarrow> bool \<Rightarrow> string \<Rightarrow> mkimage_error + u8 list" where
  "copy_files files xflag file =
     (case strchr_colon file of
        (name, Some sep) \<Rightarrow>
          (case copy_file files xflag name True of
             Inl e \<Rightarrow> Inl e
           | Inr bytes \<Rightarrow> map_sum id (\<lambda>rest. bytes @ rest) (copy_files files xflag sep))
      | (name, None) \<Rightarrow> copy_file files xflag name False)"
  by pat_completeness auto
termination
  by (relation "measure (\<lambda>(files, xflag, file). length file)") (auto intro: strchr_colon_shorter [OF sym])

declare size_table.simps [simp del] copy_files.simps [simp del]

definition payload :: "files \<Rightarrow> mkimage_options \<Rightarrow> mkimage_error + u8 list" where
  "payload files opts =
     (if opt_type opts = IH_TYPE_MULTI \<or> opt_type opts = IH_TYPE_SCRIPT then
        (case size_table files (opt_datafile opts) of
           Inl e \<Rightarrow> Inl e
         | Inr table \<Rightarrow>
             map_sum id (\<lambda>parts. table @ parts) (copy_files files (opt_xflag opts) (opt_datafile opts)))
      else copy_file files (opt_xflag opts) (opt_datafile opts) False)"

section \<open>The image\<close>

text \<open>\<open>image_set_name\<close>: \<open>strncpy\<close> pads with zeros and does not terminate a name of 32 bytes.\<close>

definition image_set_name :: "image_header \<Rightarrow> u8 list \<Rightarrow> image_header" where
  "image_set_name hdr name = hdr\<lparr>ih_name := take IH_NMLEN (name @ replicate (IH_NMLEN - length name) 0)\<rparr>"

definition build_header :: "mkimage_options \<Rightarrow> u32 \<Rightarrow> u32 \<Rightarrow> u8 list \<Rightarrow> image_header" where
  "build_header opts ep mtime data =
     (let hdr =
        \<lparr>ih_magic = IH_MAGIC, ih_hcrc = 0, ih_time = mtime, ih_size = of_nat (length data),
         ih_load = opt_addr opts, ih_ep = ep, ih_dcrc = crc32 0 data,
         ih_os = opt_os opts, ih_arch = opt_arch opts, ih_type = opt_type opts, ih_comp = opt_comp opts,
         ih_name = replicate IH_NMLEN 0\<rparr>;
          hdr = image_set_name hdr (opt_name opts);
          checksum = crc32 0 (header_bytes hdr)
      in image_set_hcrc hdr checksum)"

definition mkimage :: "files \<Rightarrow> u32 \<Rightarrow> mkimage_options \<Rightarrow> mkimage_error + u8 list" where
  "mkimage files mtime opts =
     (case entry_point opts of
        Inl e \<Rightarrow> Inl e
      | Inr ep \<Rightarrow> map_sum id (\<lambda>data. header_bytes (build_header opts ep mtime data) @ data) (payload files opts))"

text \<open>The check of an existing image, for \<open>mkimage -l\<close>.\<close>

datatype verify_error = Bad_magic | Bad_header_checksum | Corrupted_data

definition image_verify_header :: "u8 list \<Rightarrow> verify_error option" where
  "image_verify_header ptr =
     (let hdr = take 64 ptr;
          field = (\<lambda>i. be32 (hdr ! i) (hdr ! (i + 1)) (hdr ! (i + 2)) (hdr ! (i + 3)))
      in if field 0 \<noteq> IH_MAGIC then Some Bad_magic
         else if crc32 0 (take 4 hdr @ bytes_be32 0 @ drop 8 hdr) \<noteq> field 4 then Some Bad_header_checksum
         else if crc32 0 (drop 64 ptr) \<noteq> field 24 then Some Corrupted_data
         else None)"

section \<open>What is written\<close>

text \<open>The names separated by colons, and the components as they follow the table.\<close>

function component_names :: "string \<Rightarrow> string list" where
  "component_names file =
     (case strchr_colon file of (name, None) \<Rightarrow> [name] | (name, Some sep) \<Rightarrow> name # component_names sep)"
  by pat_completeness auto
termination
  by (relation "measure length") (auto intro: strchr_colon_shorter [OF sym])

declare component_names.simps [simp del]

lemma component_names_step:
  "strchr_colon s = (name, None) \<Longrightarrow> component_names s = [name]"
  "strchr_colon s = (name, Some sep) \<Longrightarrow> component_names s = name # component_names sep"
  by (simp_all add: component_names.simps [of s])

definition pad4 :: "u8 list \<Rightarrow> u8 list" where
  "pad4 c = c @ (if length c mod 4 \<noteq> 0 then replicate (4 - length c mod 4) 0 else [])"

fun padded :: "u8 list list \<Rightarrow> u8 list" where
  "padded [] = []"
| "padded [c] = c"
| "padded (c # d # cs) = pad4 c @ padded (d # cs)"

lemma length_pad4: "length (pad4 c) = (length c + 3) div 4 * 4"
proof -
  have "length c = 4 * (length c div 4) + length c mod 4"
    by simp
  moreover have "length c mod 4 \<in> {0, 1, 2, 3}"
    by auto
  ultimately show ?thesis
    unfolding pad4_def by (auto simp: if_splits) presburger+
qed

lemma padded_split:
  "i < length cs \<Longrightarrow> \<exists>rest. padded cs = concat (map pad4 (take i cs)) @ cs ! i @ rest"
proof (induction cs arbitrary: i rule: padded.induct)
  case (3 c d cs)
  then show ?case
    by (cases i) (auto simp: pad4_def)
qed simp_all

lemma copy_file_plain:
  "copy_file files False name pad = Inr bytes \<longleftrightarrow>
     (\<exists>c. files name = Some c \<and> c \<noteq> [] \<and> bytes = (if pad then pad4 c else c))"
  by (auto simp: copy_file_def pad4_def Let_def split: option.splits)

lemma size_table_eq:
  "size_table files s = Inr t \<Longrightarrow>
     \<exists>cs. map files (component_names s) = map Some cs \<and>
       t = concat (map (\<lambda>c. bytes_be32 (of_nat (length c))) cs) @ bytes_be32 0"
proof (induction files s arbitrary: t rule: size_table.induct)
  case (1 files s)
  obtain name sep where s: "strchr_colon s = (name, sep)"
    by fastforce
  obtain c where c: "files name = Some c"
    using "1.prems" by (subst (asm) size_table.simps) (auto simp: s split: option.splits)
  show ?case
  proof (cases sep)
    case None
    then show ?thesis
      using "1.prems"
      by (intro exI [of _ "[c]"])
        (subst (asm) size_table.simps, simp add: s c Let_def component_names_step)
  next
    case (Some s')
    then obtain t' where t': "size_table files s' = Inr t'" "t = bytes_be32 (of_nat (length c)) @ t'"
      using "1.prems" by (subst (asm) size_table.simps)
        (cases "size_table files s'"; auto simp: s c Let_def)
    then obtain cs where "map files (component_names s') = map Some cs"
      "t' = concat (map (\<lambda>c. bytes_be32 (of_nat (length c))) cs) @ bytes_be32 0"
      using "1.IH" [OF s [symmetric] c refl Some] by blast
    then show ?thesis
      using t' Some by (intro exI [of _ "c # cs"]) (simp add: s c component_names_step)
  qed
qed

lemma copy_files_eq:
  "copy_files files False s = Inr p \<Longrightarrow>
     \<exists>cs. map files (component_names s) = map Some cs \<and> cs \<noteq> [] \<and> [] \<notin> set cs \<and> p = padded cs"
proof (induction files False s arbitrary: p rule: copy_files.induct)
  case (1 files s)
  obtain name sep where s: "strchr_colon s = (name, sep)"
    by fastforce
  show ?case
  proof (cases sep)
    case None
    then show ?thesis
      using "1.prems"
      by (subst (asm) copy_files.simps)
        (auto simp: s copy_file_plain component_names_step intro!: exI [of _ "[p]"])
  next
    case (Some s')
    then obtain b p' where b: "copy_file files False name True = Inr b"
      and p': "copy_files files False s' = Inr p'" "p = b @ p'"
      using "1.prems" by (subst (asm) copy_files.simps)
        (cases "copy_files files False s'"; auto simp: s split: sum.splits)
    then obtain cs where cs: "map files (component_names s') = map Some cs" "cs \<noteq> []" "[] \<notin> set cs" "p' = padded cs"
      using "1.hyps" [OF s [symmetric] Some b] by auto
    obtain c where "files name = Some c" "c \<noteq> []" "b = pad4 c"
      using b by (auto simp: copy_file_plain)
    then show ?thesis
      using p' cs Some
      by (intro exI [of _ "c # cs"]) (cases cs, simp_all add: s component_names_step)
  qed
qed

lemma build_header_simps [simp]:
  "ih_magic (build_header opts ep mtime data) = IH_MAGIC"
  "ih_size (build_header opts ep mtime data) = of_nat (length data)"
  "ih_load (build_header opts ep mtime data) = opt_addr opts"
  "ih_ep (build_header opts ep mtime data) = ep"
  "ih_dcrc (build_header opts ep mtime data) = crc32 0 data"
  "ih_os (build_header opts ep mtime data) = opt_os opts"
  "ih_arch (build_header opts ep mtime data) = opt_arch opts"
  "ih_type (build_header opts ep mtime data) = opt_type opts"
  "ih_comp (build_header opts ep mtime data) = opt_comp opts"
  "length (ih_name (build_header opts ep mtime data)) = 32"
  by (simp_all add: build_header_def image_set_name_def IH_NMLEN_def Let_def)

lemma build_header_hcrc: "image_check_hcrc (build_header opts ep mtime data)"
  by (simp add: build_header_def image_check_hcrc_def image_set_name_def Let_def)

lemma mkimage_parts:
  assumes "mkimage files mtime opts = Inr img"
  obtains ep data where "entry_point opts = Inr ep" and "payload files opts = Inr data"
    and "img = header_bytes (build_header opts ep mtime data) @ data"
  using assms by (cases "payload files opts") (auto simp: mkimage_def split: sum.splits)

lemma length_mkimage:
  "length (header_bytes (build_header opts ep mtime data) @ data) = 64 + length data"
  by (simp add: length_header_bytes)

section \<open>Components of an image in memory\<close>

lemma concat_table_split:
  assumes "i < length cs"
  shows "concat (map f cs) = concat (map f (take i cs)) @ f (cs ! i) @ concat (map f (drop (Suc i) cs))"
  using assms by (metis (no_types, lifting) id_take_nth_drop map_append list.simps(9) concat_append concat.simps(2))

text \<open>A table and its components at \<open>tab\<close>.\<close>

lemma table_entry:
  fixes cs :: "u8 list list"
  assumes "load m tab n = concat (map (\<lambda>c. bytes_be32 (of_nat (length c))) cs) @ bytes_be32 0 @ rest"
  shows "i < length cs \<Longrightarrow> get32 m (tab + 4 * of_nat i) = of_nat (length (cs ! i))"
    and "get32 m (tab + 4 * of_nat (length cs)) = 0"
proof -
  have len: "length (concat (map (\<lambda>c :: u8 list. bytes_be32 (of_nat (length c))) ds)) = 4 * length ds" for ds
    by (induction ds) simp_all
  {
    assume i: "i < length cs"
    have "load m tab n = concat (map (\<lambda>c. bytes_be32 (of_nat (length c))) (take i cs)) @
        bytes_be32 (of_nat (length (cs ! i))) @
        (concat (map (\<lambda>c. bytes_be32 (of_nat (length c))) (drop (Suc i) cs)) @ bytes_be32 0 @ rest)"
      using assms [unfolded concat_table_split [OF i]] by simp
    from load_infix [OF this] show "get32 m (tab + 4 * of_nat i) = of_nat (length (cs ! i))"
      using i unfolding len by (simp add: get32_eq)
  }
  from load_infix [OF assms] show "get32 m (tab + 4 * of_nat (length cs)) = 0"
    unfolding len by (simp add: get32_eq)
qed

lemma sum_slots_eq:
  assumes "\<And>i. i < length cs \<Longrightarrow> get32 m (tab + 4 * of_nat i) = of_nat (length (cs ! i))" and "i \<le> length cs"
  shows "sum_slots m tab i = of_nat (length (concat (map pad4 (take i cs))))"
  using assms(2)
proof (induction i)
  case (Suc i)
  then have "sum_slots m tab (Suc i) = of_nat (length (concat (map pad4 (take i cs)))) + of_nat (length (pad4 (cs ! i)))"
    using assms(1) [of i] round_up_4 [of "length (cs ! i)"]
    unfolding sum_slots.simps length_pad4 by (simp only: Suc.IH Suc_leD Suc_le_lessD)
  then show ?case
    using Suc.prems by (simp add: take_Suc_conv_app_nth)
qed simp

lemma length_table:
  fixes cs :: "u8 list list"
  shows "length (concat (map (\<lambda>c. bytes_be32 (of_nat (length c))) cs) @ bytes_be32 0) = 4 * (length cs + 1)"
  by (induction cs) simp_all

definition table_at :: "mem \<Rightarrow> addr \<Rightarrow> nat \<Rightarrow> u8 list list \<Rightarrow> bool" where
  "table_at m tab n cs \<longleftrightarrow>
     load m tab n = concat (map (\<lambda>c. bytes_be32 (of_nat (length c))) cs) @ bytes_be32 0 @ padded cs \<and>
     n < 2 ^ 32 \<and> [] \<notin> set cs"

lemma table_at_bounds:
  assumes "table_at m tab n cs"
  shows "4 * (length cs + 1) + length (padded cs) = n" and "length cs < 2 ^ 32"
    and "c \<in> set cs \<Longrightarrow> length c < 2 ^ 32"
proof -
  have d: "load m tab n = (concat (map (\<lambda>c. bytes_be32 (of_nat (length c))) cs) @ bytes_be32 0) @ padded cs"
    and n: "n < 2 ^ 32"
    using assms by (simp_all add: table_at_def)
  show total: "4 * (length cs + 1) + length (padded cs) = n"
    using arg_cong [OF d, of length] unfolding length_append [of _ "padded cs"] length_table by simp
  have "length cs \<le> n"
    using total by simp
  then show "length cs < 2 ^ 32"
    using n by (rule le_less_trans)
  assume "c \<in> set cs"
  then obtain k where k: "k < length cs" "c = cs ! k"
    unfolding in_set_conv_nth by blast
  then obtain rest where "padded cs = concat (map pad4 (take k cs)) @ c @ rest"
    using padded_split by blast
  then have "length c \<le> n"
    using total by simp
  then show "length c < 2 ^ 32"
    using n by (rule le_less_trans)
qed

lemma table_at_entries:
  assumes "table_at m tab n cs"
  shows "i < length cs \<Longrightarrow> get32 m (tab + 4 * of_nat i) = of_nat (length (cs ! i))"
    and "get32 m (tab + 4 * of_nat (length cs)) = 0"
    and "i < length cs \<Longrightarrow> of_nat (length (cs ! i)) \<noteq> (0 :: u32)"
proof -
  show "i < length cs \<Longrightarrow> get32 m (tab + 4 * of_nat i) = of_nat (length (cs ! i))"
    and "get32 m (tab + 4 * of_nat (length cs)) = 0"
    using assms table_entry unfolding table_at_def by blast+
  assume i: "i < length cs"
  then have "length (cs ! i) \<noteq> 0"
    using assms nth_mem [OF i] unfolding table_at_def by (metis length_0_conv)
  then show "of_nat (length (cs ! i)) \<noteq> (0 :: u32)"
    using of_nat_eq32 [OF table_at_bounds(3) [OF assms nth_mem [OF i]], of 0] by simp
qed

lemma image_multi_count_eq:
  assumes "table_at m (hdr + 64) n cs"
  shows "image_multi_count m hdr = Some (of_nat (length cs))"
  using count_slots_eq [of "length cs" m "hdr + 64" 0] table_at_entries [OF assms]
  by (simp add: image_multi_count_def image_get_data_def image_get_header_size_def)

lemma image_multi_getimg_past:
  assumes "table_at m (hdr + 64) n cs" and "length cs \<le> unat j"
  shows "image_multi_getimg m hdr j = Some (0, 0)"
  using assms(2) table_at_bounds(2) [OF assms(1)]
  by (simp add: image_multi_getimg_def image_multi_count_eq [OF assms(1)] word_less_nat_alt unat_of_nat Let_def)

lemma image_multi_getimg_eq:
  assumes tab: "table_at m (hdr + 64) n cs" and i: "i < length cs"
  shows "\<exists>p. image_multi_getimg m hdr (of_nat i) = Some (p, of_nat (length (cs ! i))) \<and>
      load m p (length (cs ! i)) = cs ! i"
proof -
  obtain rest where rest: "padded cs = concat (map pad4 (take i cs)) @ cs ! i @ rest"
    using padded_split [OF i] by blast
  define table where "table = concat (map (\<lambda>c. bytes_be32 (of_nat (length c))) cs) @ bytes_be32 0"
  define before where "before = concat (map pad4 (take i cs))"
  have "load m (hdr + 64) n = (table @ before) @ cs ! i @ rest"
    using tab rest by (simp add: table_at_def table_def before_def)
  from load_infix [OF this]
  have "load m (hdr + 64 + of_nat (length (table @ before))) (length (cs ! i)) = cs ! i" .
  moreover have "length (table @ before) = 4 * (length cs + 1) + length before"
    unfolding table_def length_append [of _ before] length_table ..
  moreover have "sum_slots m (hdr + 64) i = of_nat (length before)"
    unfolding before_def using i table_at_entries(1) [OF tab] by (intro sum_slots_eq) simp_all
  moreover have "of_nat i < (of_nat (length cs) :: u32)" "unat (of_nat i :: u32) = i"
    using i table_at_bounds(2) [OF tab] by (simp_all add: word_less_nat_alt unat_of_nat)
  ultimately show ?thesis
    using table_at_entries(1) [OF tab i]
    by (simp add: image_multi_getimg_def image_multi_count_eq [OF tab] image_get_data_def
        image_get_header_size_def add.assoc mult.commute)
qed

section \<open>Images written by mkimage\<close>

text \<open>An image at \<open>p\<close>: its header and its data.\<close>

lemma mkimage_at:
  assumes "load m p (64 + length data) = header_bytes (build_header opts ep mtime data) @ data"
  shows "header_at m p = build_header opts ep mtime data" and "load m (p + 64) (length data) = data"
  using load_image [OF assms] by simp_all

lemma image_verify_header_built:
  "image_verify_header (header_bytes (build_header opts ep mtime data) @ data) = None"
proof -
  define h where "h = build_header opts ep mtime data"
  have h: "ih_magic h = IH_MAGIC" "ih_dcrc h = crc32 0 data" "length (ih_name h) = 32" "image_check_hcrc h"
    by (simp_all add: h_def build_header_hcrc)
  have len: "length (header_bytes h) = 64"
    using h(3) by (rule length_header_bytes)
  have nth4: "bytes_be32 w ! 0 = ucast (drop_bit 24 w)" "bytes_be32 w ! Suc 0 = ucast (drop_bit 16 w)"
    "bytes_be32 w ! 2 = ucast (drop_bit 8 w)" "bytes_be32 w ! 3 = ucast w" for w
    by (simp_all add: bytes_be32_def)
  have field: "be32 (header_bytes h ! i) (header_bytes h ! (i + 1)) (header_bytes h ! (i + 2)) (header_bytes h ! (i + 3)) = w"
    if "header_bytes h = pre @ bytes_be32 w @ post" and "length pre = i" for pre post w i
    using that by (simp add: nth_append nth4)
  have "header_bytes h = [] @ bytes_be32 (ih_magic h) @ drop 4 (header_bytes h)"
    by (simp add: header_bytes_def)
  then have "be32 (header_bytes h ! 0) (header_bytes h ! (0 + 1)) (header_bytes h ! (0 + 2)) (header_bytes h ! (0 + 3)) = ih_magic h"
    by (rule field) simp
  moreover have "header_bytes h = bytes_be32 (ih_magic h) @ bytes_be32 (ih_hcrc h) @ drop 8 (header_bytes h)"
    by (simp add: header_bytes_def)
  then have "be32 (header_bytes h ! 4) (header_bytes h ! (4 + 1)) (header_bytes h ! (4 + 2)) (header_bytes h ! (4 + 3)) = ih_hcrc h"
    by (rule field) simp
  moreover have "header_bytes h = take 24 (header_bytes h) @ bytes_be32 (ih_dcrc h) @ drop 28 (header_bytes h)"
    by (simp add: header_bytes_def)
  then have "be32 (header_bytes h ! 24) (header_bytes h ! (24 + 1)) (header_bytes h ! (24 + 2)) (header_bytes h ! (24 + 3)) = ih_dcrc h"
    by (rule field) (simp add: len)
  ultimately show ?thesis
    unfolding h_def [symmetric] image_verify_header_def
    using h by (simp add: len image_check_hcrc_bytes Let_def)
qed

section \<open>Sample images\<close>

definition sample_files :: files where
  "sample_files = [''vmlinux'' \<mapsto> [1, 2, 3], ''initrd'' \<mapsto> [4, 5]]"

definition sample_options :: "u8 \<Rightarrow> string \<Rightarrow> mkimage_options" where
  "sample_options type datafile =
     \<lparr>opt_os = 5, opt_arch = 19, opt_type = type, opt_comp = 0, opt_addr = 0x100, opt_ep = 0x100, opt_eflag = True,
      opt_xflag = False, opt_name = [0x4c], opt_datafile = datafile\<rparr>"

definition sample_image :: "u8 list" where
  "sample_image = header_bytes (build_header (sample_options 2 ''vmlinux'') 0x100 7 [1, 2, 3]) @ [1, 2, 3]"

definition sample_multi :: "u8 list" where
  "sample_multi =
     header_bytes (build_header (sample_options 4 ''vmlinux:initrd'') 0x100 7 [0, 0, 0, 3, 0, 0, 0, 2, 0, 0, 0, 0, 1, 2, 3, 0, 4, 5]) @
     [0, 0, 0, 3, 0, 0, 0, 2, 0, 0, 0, 0, 1, 2, 3, 0, 4, 5]"

lemma sample_image_built: "mkimage sample_files 7 (sample_options 2 ''vmlinux'') = Inr sample_image"
  by (simp add: sample_image_def sample_options_def sample_files_def mkimage_def entry_point_def payload_def copy_file_def
      IH_TYPE_MULTI_def IH_TYPE_SCRIPT_def)

lemma sample_multi_built: "mkimage sample_files 7 (sample_options 4 ''vmlinux:initrd'') = Inr sample_multi"
  by (simp add: sample_multi_def sample_options_def sample_files_def mkimage_def entry_point_def payload_def copy_file_def
      IH_TYPE_MULTI_def IH_TYPE_SCRIPT_def size_table.simps copy_files.simps strchr_colon_def bytes_be32_def Let_def)

lemma length_sample [simp]: "length sample_image = 67" "length sample_multi = 82"
  by (simp_all add: sample_image_def sample_multi_def length_header_bytes)

section \<open>Properties\<close>

text \<open>
  C5: an image written by \<open>mkimage\<close> for the target architecture and loaded anywhere in memory passes
  the checks of \<open>image_get_kernel\<close>, with or without verification of the data, and the header read back
  gives the options and the payload: load address, entry point, codes, data and end of the image.
  \<open>mkimage -l\<close> accepts the file too.
\<close>

theorem mkimage_accepted:
  assumes "mkimage files mtime opts = Inr img" and "opt_arch opts = IH_ARCH_OR1K"
    and "length img < 2 ^ 32" and "load m a (length img) = img"
  shows "image_get_kernel has_watchdog m a verify = Some a \<and>
    genimg_get_format m a = IMAGE_FORMAT_LEGACY \<and>
    payload files opts = Inr (load m (image_get_data a) (unat (image_get_data_size m a))) \<and>
    entry_point opts = Inr (image_get_ep (header_at m a)) \<and>
    (image_get_load (header_at m a) = opt_addr opts \<and> image_get_os (header_at m a) = opt_os opts \<and>
      image_get_type (header_at m a) = opt_type opts \<and> image_get_comp (header_at m a) = opt_comp opts) \<and>
    image_get_image_end m a = a + of_nat (length img) \<and>
    image_verify_header img = None"
proof (intro conjI)
  obtain ep data where ep: "entry_point opts = Inr ep" and data: "payload files opts = Inr data"
    and img: "img = header_bytes (build_header opts ep mtime data) @ data"
    using mkimage_parts [OF assms(1)] .
  have len: "length img = 64 + length data"
    unfolding img by (rule length_mkimage)
  then have at: "load m a (64 + length data) = header_bytes (build_header opts ep mtime data) @ data"
    using assms(4) img by simp
  have small: "length data < 2 ^ 32"
    using assms(3) len by simp
  note built = mkimage_at [OF at]
  show "image_get_kernel has_watchdog m a verify = Some a"
    using image_get_kernel_accepts [OF at] small assms(2) by (simp add: build_header_hcrc)
  show "genimg_get_format m a = IMAGE_FORMAT_LEGACY"
    by (simp add: genimg_get_format_def built(1))
  show "payload files opts = Inr (load m (image_get_data a) (unat (image_get_data_size m a)))"
    using small built(2) data
    by (simp add: image_get_data_def image_get_header_size_def image_get_data_size_def built(1) unat_of_nat)
  show "entry_point opts = Inr (image_get_ep (header_at m a))"
    using ep by (simp add: built(1))
  show "image_get_load (header_at m a) = opt_addr opts" "image_get_os (header_at m a) = opt_os opts"
    "image_get_type (header_at m a) = opt_type opts" "image_get_comp (header_at m a) = opt_comp opts"
    by (simp_all add: built(1))
  show "image_get_image_end m a = a + of_nat (length img)"
    by (simp add: image_get_image_end_def image_get_image_size_def image_get_header_size_def built(1) len)
  show "image_verify_header img = None"
    unfolding img by (rule image_verify_header_built)
qed

theorem mkimage_accepted_witness:
  "image_get_kernel False (overwrite (\<lambda>_. 0) 0x10000 sample_image) 0x10000 True = Some 0x10000"
proof (rule mkimage_accepted [OF sample_image_built, THEN conjunct1])
  show "load (overwrite (\<lambda>_. 0) 0x10000 sample_image) 0x10000 (length sample_image) = sample_image"
    by (rule load_overwrite) simp
qed (simp_all add: sample_options_def IH_ARCH_OR1K_def)

text \<open>
  C2: an image written by \<open>mkimage\<close> that is changed in memory within four consecutive bytes, anywhere
  except across the border between the checksum field and the fields it protects, is rejected by
  \<open>image_get_kernel\<close> and \<open>image_get_ramdisk\<close> with verification.
\<close>

theorem mkimage_damage_detected:
  assumes "mkimage files mtime opts = Inr (pre @ xs @ post)" and "length (pre @ xs @ post) < 2 ^ 32"
    and "load m a (length (pre @ xs @ post)) = pre @ ys @ post" and "xs \<noteq> ys"
    and "length xs = length ys" and "length xs \<le> 4" and "length pre + length xs \<le> 8 \<or> 8 \<le> length pre"
  shows "image_get_kernel has_watchdog m a True = Some NULL \<and> image_get_ramdisk has_watchdog m a arch True = Some NULL"
proof -
  obtain ep data where img: "pre @ xs @ post = header_bytes (build_header opts ep mtime data) @ data"
    using mkimage_parts [OF assms(1)] .
  then have len: "length (pre @ xs @ post) = 64 + length data"
    using length_mkimage by metis
  have small: "length data < 2 ^ 32"
    using assms(2) len by simp
  have "drop 8 (pre @ ys @ post) = drop 8 (pre @ xs @ post) \<or> take 8 (pre @ ys @ post) = take 8 (pre @ xs @ post)"
    using assms(5,7) by auto
  moreover have "burst 4 (pre @ xs @ post) (pre @ ys @ post)"
    using assms(5,6) by (rule burstI)
  moreover have "pre @ ys @ post \<noteq> pre @ xs @ post"
    using assms(4) by simp
  moreover have "load m a (64 + length data) = pre @ ys @ post"
    using assms(3) by (simp only: len)
  ultimately show ?thesis
    using small kernel.rejects [of data "build_header opts ep mtime data" m a has_watchdog]
      ramdisk.rejects [of data "build_header opts ep mtime data" m a has_watchdog arch]
    by (simp only: img build_header_simps build_header_hcrc simp_thms)
qed

theorem mkimage_damage_detected_witness:
  "image_get_kernel False
     (overwrite (\<lambda>_. 0) 0x10000 (take 65 sample_image @ [9] @ drop 66 sample_image)) 0x10000 True = Some NULL"
proof (rule mkimage_damage_detected [THEN conjunct1])
  have "sample_image = take 65 sample_image @ [2] @ drop 66 sample_image"
    by (simp add: sample_image_def sample_options_def length_header_bytes)
  then show "mkimage sample_files 7 (sample_options 2 ''vmlinux'') = Inr (take 65 sample_image @ [2] @ drop 66 sample_image)"
    using sample_image_built by simp
  show "load (overwrite (\<lambda>_. 0) 0x10000 (take 65 sample_image @ [9] @ drop 66 sample_image)) 0x10000
      (length (take 65 sample_image @ [2] @ drop 66 sample_image)) = take 65 sample_image @ [9] @ drop 66 sample_image"
    using load_overwrite [of "take 65 sample_image @ [9] @ drop 66 sample_image"] by simp
qed simp_all

text \<open>
  C3: in a multi-component image written by \<open>mkimage\<close> without -x and loaded in memory \<open>image_multi_count\<close> finds
  as many components as data files were named, \<open>image_multi_getimg\<close> returns for each of them an address
  and a length at which the contents of the file lie, and zeros for any index past the last.
\<close>

theorem mkimage_components:
  assumes "mkimage files mtime opts = Inr img" and "opt_type opts = IH_TYPE_MULTI" and "\<not> opt_xflag opts"
    and "length img < 2 ^ 32" and "load m a (length img) = img"
  shows "image_multi_count m a = Some (of_nat (length (component_names (opt_datafile opts)))) \<and>
    (\<forall>i < length (component_names (opt_datafile opts)).
      \<exists>contents p. files (component_names (opt_datafile opts) ! i) = Some contents \<and>
        image_multi_getimg m a (of_nat i) = Some (p, of_nat (length contents)) \<and>
        load m p (length contents) = contents) \<and>
    (\<forall>j. length (component_names (opt_datafile opts)) \<le> unat j \<longrightarrow> image_multi_getimg m a j = Some (0, 0))"
proof (intro conjI allI impI)
  obtain ep data where data: "payload files opts = Inr data"
    and img: "img = header_bytes (build_header opts ep mtime data) @ data"
    using mkimage_parts [OF assms(1)] .
  have len: "length img = 64 + length data"
    unfolding img by (rule length_mkimage)
  obtain t q where t: "size_table files (opt_datafile opts) = Inr t"
    and q: "copy_files files False (opt_datafile opts) = Inr q" and "data = t @ q"
    using data assms(2,3) unfolding payload_def
    by (cases "copy_files files False (opt_datafile opts)") (auto split: sum.splits)
  obtain cs where cs: "map files (component_names (opt_datafile opts)) = map Some cs" "[] \<notin> set cs" "q = padded cs"
    using copy_files_eq [OF q] by blast
  obtain ds where ds: "map files (component_names (opt_datafile opts)) = map Some ds"
    "t = concat (map (\<lambda>c. bytes_be32 (of_nat (length c))) ds) @ bytes_be32 0"
    using size_table_eq [OF t] by blast
  have "map Some ds = map Some cs"
    using cs(1) ds(1) by simp
  then have "ds = cs"
    by (simp add: inj_map_eq_map)
  moreover have "load m (a + 64) (length data) = data"
    using assms(5) img len by (intro mkimage_at(2)) simp
  ultimately have tab: "table_at m (a + 64) (length data) cs"
    using assms(4) len cs ds \<open>data = t @ q\<close> by (simp add: table_at_def)
  have n: "length (component_names (opt_datafile opts)) = length cs"
    using arg_cong [OF cs(1), of length] by simp
  show "image_multi_count m a = Some (of_nat (length (component_names (opt_datafile opts))))"
    unfolding n by (rule image_multi_count_eq [OF tab])
  show "image_multi_getimg m a j = Some (0, 0)" if "length (component_names (opt_datafile opts)) \<le> unat j" for j
    using that unfolding n by (rule image_multi_getimg_past [OF tab])
  fix i
  assume i: "i < length (component_names (opt_datafile opts))"
  then have "files (component_names (opt_datafile opts) ! i) = Some (cs ! i)"
    using arg_cong [OF cs(1), of "\<lambda>l. l ! i"] n by simp
  then show "\<exists>contents p. files (component_names (opt_datafile opts) ! i) = Some contents \<and>
      image_multi_getimg m a (of_nat i) = Some (p, of_nat (length contents)) \<and> load m p (length contents) = contents"
    using image_multi_getimg_eq [OF tab] i n by auto
qed

theorem mkimage_components_witness:
  "image_multi_count (overwrite (\<lambda>_. 0) 0x10000 sample_multi) 0x10000 = Some 2"
proof -
  have "component_names ''vmlinux:initrd'' = [''vmlinux'', ''initrd'']"
    by (simp add: component_names_step strchr_colon_def)
  moreover have "load (overwrite (\<lambda>_. 0) 0x10000 sample_multi) 0x10000 (length sample_multi) = sample_multi"
    by (rule load_overwrite) simp
  ultimately show ?thesis
    using mkimage_components [OF sample_multi_built, THEN conjunct1]
    by (simp add: sample_options_def IH_TYPE_MULTI_def)
qed

end
