(* ===== verification/Command_Table.thy ===== *)
theory Command_Table
  imports Prelude
begin

text \<open>
  Command lookup of \<^verbatim>\<open>common/command.c\<close>: a command may be abbreviated to any prefix that no other
  command of the table has, and may carry a length modifier after a dot. The table is a list of
  entries, of which only the name matters here.
\<close>

section \<open>Definitions\<close>

type_synonym 'a cmd_tbl = "(u8 list \<times> 'a) list"

text \<open>The number of characters compared: those before the first dot.\<close>

definition cmd_len :: "u8 list \<Rightarrow> nat" where
  "cmd_len cmd = length (takeWhile (\<lambda>c. c \<noteq> 0x2e) cmd)"

text \<open>The loop, with the last abbreviated match and the number of them.\<close>

fun find_cmd_loop :: "u8 list \<Rightarrow> nat \<Rightarrow> 'a cmd_tbl \<Rightarrow> (u8 list \<times> 'a) option \<Rightarrow> nat \<Rightarrow> (u8 list \<times> 'a) option" where
  "find_cmd_loop cmd len [] cmdtp_temp n_found = (if n_found = 1 then cmdtp_temp else None)"
| "find_cmd_loop cmd len (cmdtp # table) cmdtp_temp n_found =
     (if take len cmd = take len (fst cmdtp) then
        if len = length (fst cmdtp) then Some cmdtp
        else find_cmd_loop cmd len table (Some cmdtp) (n_found + 1)
      else find_cmd_loop cmd len table cmdtp_temp n_found)"

definition find_cmd_tbl :: "u8 list \<Rightarrow> 'a cmd_tbl \<Rightarrow> (u8 list \<times> 'a) option" where
  "find_cmd_tbl cmd table = find_cmd_loop cmd (cmd_len cmd) table None 0"

text \<open>The data size that a modifier selects; \<open>-1\<close> is an unknown one, \<open>-2\<close> a string.\<close>

definition cmd_get_data_size :: "u8 list \<Rightarrow> int \<Rightarrow> int" where
  "cmd_get_data_size arg default_size =
     (let len = length arg
      in if len > 2 \<and> arg ! (len - 2) = 0x2e then
           (let c = arg ! (len - 1)
            in if c = 0x62 then 1 else if c = 0x77 then 2 else if c = 0x6c then 4 else if c = 0x73 then - 2 else - 1)
         else default_size)"

section \<open>Lookup\<close>

abbreviation (input) stem :: "u8 list \<Rightarrow> u8 list" where
  "stem cmd \<equiv> takeWhile (\<lambda>c. c \<noteq> 0x2e) cmd"

lemma take_cmd_len: "take (cmd_len cmd) cmd = stem cmd"
  unfolding cmd_len_def by (rule takeWhile_eq_take [symmetric])

text \<open>The entries whose name starts with the command.\<close>

definition matches :: "u8 list \<Rightarrow> 'a cmd_tbl \<Rightarrow> 'a cmd_tbl" where
  "matches s table = filter (\<lambda>e. take (length s) (fst e) = s) table"

lemma find_cmd_loop_eq:
  assumes "take len cmd = s" and "length s = len"
  shows "find_cmd_loop cmd len table temp n =
    (case find (\<lambda>e. fst e = s) table of
       Some e \<Rightarrow> Some e
     | None \<Rightarrow> if n + length (matches s table) = 1 then if matches s table = [] then temp else Some (last (matches s table)) else None)"
proof (induction table arbitrary: temp n)
  case (Cons e table)
  have "fst e = s \<longleftrightarrow> take len cmd = take len (fst e) \<and> len = length (fst e)"
    using assms by auto
  moreover have "take (length s) (fst e) = s \<longleftrightarrow> take len cmd = take len (fst e)"
    using assms by auto
  ultimately show ?case
    using Cons.IH by (auto simp: matches_def split: option.splits)
qed (simp add: matches_def)

section \<open>Properties\<close>

text \<open>
  C38: a command is found by its full name, whatever its position in the table; failing that, by an
  abbreviation that exactly one entry starts with; otherwise it is not found. Only the part before the
  first dot counts.
\<close>

theorem find_cmd_tbl_correct:
  "find_cmd_tbl cmd table =
     (case find (\<lambda>e. fst e = stem cmd) table of
        Some e \<Rightarrow> Some e
      | None \<Rightarrow> (case matches (stem cmd) table of [e] \<Rightarrow> Some e | _ \<Rightarrow> None))"
proof -
  have len: "length (stem cmd) = cmd_len cmd"
    by (simp add: cmd_len_def)
  show ?thesis
    unfolding find_cmd_tbl_def find_cmd_loop_eq [OF take_cmd_len len]
    by (auto split: option.splits list.splits)
qed

end
