(* ===== verification/Bootm.thy ===== *)
theory Bootm
  imports Mkimage Command_Table Env_Store Lib_Lmb
begin

text \<open>
  The command \<open>bootm\<close> of \<^verbatim>\<open>common/cmd_bootm.c\<close> and the routines of \<^verbatim>\<open>common/image.c\<close> it uses, for legacy
  images and the configuration of the board: finding and verifying a kernel and a ramdisk, loading the
  kernel, and the state machine of the subcommands. The start of the kernel is \<open>do_bootm_linux\<close> of
  \<^verbatim>\<open>lib_or1k/bootm.c\<close>. The environment is the state of \<open>Env_Store\<close>, memory is a map of bytes, and
  \<open>gunzip\<close> is a parameter. A result \<open>None\<close> means that a loop does not end or that the code for images in
  the FIT format, which is not modelled, takes over. Messages and progress codes are left out.
\<close>

section \<open>State\<close>

record image_info =
  ii_start :: u32
  ii_end :: u32
  ii_image_start :: u32
  ii_image_len :: u32
  ii_load :: u32
  ii_comp :: u8
  ii_type :: u8
  ii_os :: u8

record bootm_headers =
  legacy_hdr_os :: addr
  legacy_hdr_os_copy :: image_header
  legacy_hdr_valid :: bool
  bh_os :: image_info
  bh_ep :: u32
  rd_start :: u32
  rd_end :: u32
  bh_verify :: bool
  bh_state :: u32
  bh_lmb :: lmb

definition BOOTM_STATE_START :: u32 where "BOOTM_STATE_START = 0x01"
definition BOOTM_STATE_LOADOS :: u32 where "BOOTM_STATE_LOADOS = 0x02"
definition BOOTM_STATE_OS_CMDLINE :: u32 where "BOOTM_STATE_OS_CMDLINE = 0x10"
definition BOOTM_STATE_OS_BD_T :: u32 where "BOOTM_STATE_OS_BD_T = 0x20"
definition BOOTM_STATE_OS_PREP :: u32 where "BOOTM_STATE_OS_PREP = 0x40"
definition BOOTM_STATE_OS_GO :: u32 where "BOOTM_STATE_OS_GO = 0x80"

definition CHUNKSZ :: u32 where "CHUNKSZ = 64 * 1024"
definition CONFIG_SYS_BOOTM_LEN :: u32 where "CONFIG_SYS_BOOTM_LEN = 0x800000"
definition CONFIG_SYS_SDRAM_BASE :: u32 where "CONFIG_SYS_SDRAM_BASE = 0"
definition CONFIG_SYS_SDRAM_SIZE :: u32 where "CONFIG_SYS_SDRAM_SIZE = 0x02000000"

text \<open>The structure after \<open>memset\<close>.\<close>

definition zero_region :: lmb_region where
  "zero_region = \<lparr>rcnt = 0, rsize = 0, region = replicate (unat MAX_LMB_REGIONS + 1) \<lparr>pbase = 0, psize = 0\<rparr>\<rparr>"

definition zero_headers :: bootm_headers where
  "zero_headers =
     \<lparr>legacy_hdr_os = 0,
      legacy_hdr_os_copy =
        \<lparr>ih_magic = 0, ih_hcrc = 0, ih_time = 0, ih_size = 0, ih_load = 0, ih_ep = 0, ih_dcrc = 0,
         ih_os = 0, ih_arch = 0, ih_type = 0, ih_comp = 0, ih_name = replicate IH_NMLEN 0\<rparr>,
      legacy_hdr_valid = False,
      bh_os =
        \<lparr>ii_start = 0, ii_end = 0, ii_image_start = 0, ii_image_len = 0, ii_load = 0,
         ii_comp = 0, ii_type = 0, ii_os = 0\<rparr>,
      bh_ep = 0, rd_start = 0, rd_end = 0, bh_verify = False, bh_state = 0,
      bh_lmb = \<lparr>lmb_memory = zero_region, lmb_reserved = zero_region\<rparr>\<rparr>"

section \<open>Settings from the environment\<close>

definition getenv_yesno :: "('c \<Rightarrow> mem) \<Rightarrow> 'c env_state \<Rightarrow> u8 list \<Rightarrow> bool option" where
  "getenv_yesno view env var =
     map_option (\<lambda>s. \<not> (case s of Some (c # _) \<Rightarrow> c = 0x6e | _ \<Rightarrow> False)) (getenv view env var)"

definition getenv_bootm_low :: "('c \<Rightarrow> mem) \<Rightarrow> 'c env_state \<Rightarrow> u32 option" where
  "getenv_bootm_low view env =
     (case getenv view env (ascii ''bootm_low'') of
        None \<Rightarrow> None
      | Some (Some s) \<Rightarrow> map_option fst (str_strtoul s 16)
      | Some None \<Rightarrow> Some CONFIG_SYS_SDRAM_BASE)"

definition getenv_bootm_size :: "('c \<Rightarrow> mem) \<Rightarrow> 'c env_state \<Rightarrow> u32 option" where
  "getenv_bootm_size view env =
     (case getenv view env (ascii ''bootm_size'') of
        None \<Rightarrow> None
      | Some (Some s) \<Rightarrow> map_option fst (str_strtoul s 16)
      | Some None \<Rightarrow> Some CONFIG_SYS_SDRAM_SIZE)"

section \<open>Moving memory\<close>

text \<open>The loop compiled with a watchdog; \<open>None\<close> if it does not end.\<close>

partial_function (option) memmove_chunks :: "mem \<Rightarrow> addr \<Rightarrow> addr \<Rightarrow> u32 \<Rightarrow> u32 \<Rightarrow> mem option" where
  "memmove_chunks m dest src len chunksz =
     (if len > 0 then
        let tail = (if len > chunksz then chunksz else len)
        in memmove_chunks (snd (memmove m dest src tail)) (dest + tail) (src + tail) (len - tail) chunksz
      else Some m)"

definition memmove_wd :: "bool \<Rightarrow> mem \<Rightarrow> addr \<Rightarrow> addr \<Rightarrow> u32 \<Rightarrow> u32 \<Rightarrow> mem option" where
  "memmove_wd has_watchdog m dest src len chunksz =
     (if has_watchdog then memmove_chunks m dest src len chunksz else Some (snd (memmove m dest src len)))"

section \<open>Kernel and ramdisk images\<close>

text \<open>\<open>Some (addr, name)\<close> for a specification with the separator; \<open>Some (addr_curr, None)\<close> without.\<close>

definition fit_parse_spec :: "u8 list \<Rightarrow> u8 \<Rightarrow> u32 \<Rightarrow> (u32 \<times> u8 list option) option" where
  "fit_parse_spec spec sepc addr_curr =
     (let sep = dropWhile (\<lambda>c. c \<noteq> sepc) spec
      in if sep \<noteq> [] then
           if length spec - length sep > 0 then
             map_option (\<lambda>(addr, _). (addr, Some (tl sep))) (str_strtoul spec 16)
           else Some (addr_curr, Some (tl sep))
         else Some (addr_curr, None))"

definition fit_parse_conf :: "u8 list \<Rightarrow> u32 \<Rightarrow> (u32 \<times> u8 list option) option" where
  "fit_parse_conf spec addr_curr = fit_parse_spec spec 0x23 addr_curr"

definition fit_parse_subimage :: "u8 list \<Rightarrow> u32 \<Rightarrow> (u32 \<times> u8 list option) option" where
  "fit_parse_subimage spec addr_curr = fit_parse_spec spec 0x3a addr_curr"

text \<open>The address that an argument names, as \<open>boot_get_kernel\<close> and \<open>boot_get_ramdisk\<close> find it.\<close>

definition image_address :: "u8 list \<Rightarrow> u32 \<Rightarrow> u32 option" where
  "image_address arg default_addr = do {
     (conf_addr, conf) \<leftarrow> fit_parse_conf arg default_addr;
     if conf \<noteq> None then Some conf_addr
     else do {
       (sub_addr, sub) \<leftarrow> fit_parse_subimage arg default_addr;
       if sub \<noteq> None then Some sub_addr else map_option fst (str_strtoul arg 16) } }"

definition genimg_get_image :: "u32 \<Rightarrow> u32" where
  "genimg_get_image img_addr = img_addr"

text \<open>The header address or \<open>NULL\<close>, the address and length of the kernel, and the new structure.\<close>

definition boot_get_kernel ::
    "bool \<Rightarrow> 'c env_state \<Rightarrow> mem \<Rightarrow> u8 list list \<Rightarrow> bootm_headers \<Rightarrow> (addr \<times> u32 \<times> u32 \<times> bootm_headers) option" where
  "boot_get_kernel has_watchdog env m args images = do {
     img_addr \<leftarrow> (case args of [] \<Rightarrow> Some (load_addr env) | arg # _ \<Rightarrow> image_address arg (load_addr env));
     let img_addr = genimg_get_image img_addr;
     (case genimg_get_format m img_addr of
        IMAGE_FORMAT_LEGACY \<Rightarrow> do {
          hdr \<leftarrow> image_get_kernel has_watchdog m img_addr (bh_verify images);
          if hdr = NULL then Some (NULL, 0, 0, images)
          else
            let type = image_get_type (header_at m hdr);
                images' = images\<lparr>legacy_hdr_os_copy := header_at m hdr, legacy_hdr_os := hdr, legacy_hdr_valid := True\<rparr>
            in if type = IH_TYPE_KERNEL then
                 Some (img_addr, image_get_data hdr, image_get_data_size m hdr, images')
               else if type = IH_TYPE_MULTI then
                 map_option (\<lambda>(data, len). (img_addr, data, len, images')) (image_multi_getimg m hdr 0)
               else Some (NULL, 0, 0, images) }
      | IMAGE_FORMAT_FIT \<Rightarrow> None
      | IMAGE_FORMAT_INVALID \<Rightarrow> Some (NULL, 0, 0, images)) }"

text \<open>The return code and the start and end of the ramdisk; the second argument of the command names it.\<close>

definition boot_get_ramdisk ::
    "bool \<Rightarrow> 'c env_state \<Rightarrow> mem \<Rightarrow> u8 list list \<Rightarrow> bootm_headers \<Rightarrow> u8 \<Rightarrow> (int \<times> u32 \<times> u32) option" where
  "boot_get_ramdisk has_watchdog env m args images arch =
     (let found = (\<lambda>(rd_data, rd_len). if rd_data = 0 then (0, 0, 0) else (0, rd_data, rd_data + rd_len))
      in case args of
           _ # arg # _ \<Rightarrow>
             if arg = ascii ''-'' then Some (found (0, 0))
             else do {
               rd_addr \<leftarrow> image_address arg (load_addr env);
               let rd_addr = genimg_get_image rd_addr;
               (case genimg_get_format m rd_addr of
                  IMAGE_FORMAT_LEGACY \<Rightarrow> do {
                    rd_hdr \<leftarrow> image_get_ramdisk has_watchdog m rd_addr arch (bh_verify images);
                    if rd_hdr = NULL then Some (1, 0, 0)
                    else Some (found (image_get_data rd_hdr, image_get_data_size m rd_hdr)) }
                | IMAGE_FORMAT_FIT \<Rightarrow> None
                | IMAGE_FORMAT_INVALID \<Rightarrow> Some (1, 0, 0)) }
         | _ \<Rightarrow>
             if legacy_hdr_valid images \<and> image_check_type (legacy_hdr_os_copy images) IH_TYPE_MULTI then
               map_option found (image_multi_getimg m (legacy_hdr_os images) 1)
             else Some (found (0, 0)))"

section \<open>Starting and loading\<close>

definition bootm_start ::
    "bool \<Rightarrow> ('c \<Rightarrow> mem) \<Rightarrow> 'c env_state \<Rightarrow> mem \<Rightarrow> u8 list list \<Rightarrow> (int \<times> bootm_headers) option" where
  "bootm_start has_watchdog view env m args = do {
     verify \<leftarrow> getenv_yesno view env (ascii ''verify'');
     let images = zero_headers\<lparr>bh_verify := verify\<rparr>;
     lmb \<leftarrow> lmb_init (bh_lmb images);
     mem_start \<leftarrow> getenv_bootm_low view env;
     mem_size \<leftarrow> getenv_bootm_size view env;
     (_, lmb) \<leftarrow> lmb_add lmb mem_start mem_size;
     let images = images\<lparr>bh_lmb := lmb\<rparr>;
     (os_hdr, data, len, images) \<leftarrow> boot_get_kernel has_watchdog env m args images;
     let images = images\<lparr>bh_os := (bh_os images)\<lparr>ii_image_start := data, ii_image_len := len\<rparr>\<rparr>;
     if len = 0 then Some (1, images)
     else
       (case genimg_get_format m os_hdr of
          IMAGE_FORMAT_LEGACY \<Rightarrow>
            let h = header_at m os_hdr;
                images = images\<lparr>bh_os := (bh_os images)\<lparr>ii_type := image_get_type h, ii_comp := image_get_comp h,
                  ii_os := image_get_os h, ii_end := image_get_image_end m os_hdr, ii_load := image_get_load h\<rparr>\<rparr>
            in if \<not> legacy_hdr_valid images then Some (1, images)
               else
                 let images = images\<lparr>bh_ep := image_get_ep (legacy_hdr_os_copy images)\<rparr>
                 in do {
                      (ret, images) \<leftarrow>
                        (if ii_os (bh_os images) = IH_OS_LINUX then
                           map_option (\<lambda>(ret, s, e). (ret, images\<lparr>rd_start := s, rd_end := e\<rparr>))
                             (boot_get_ramdisk has_watchdog env m args images IH_ARCH_OR1K)
                         else Some (0, images));
                      if ret \<noteq> 0 then Some (1, images)
                      else Some (0, images\<lparr>bh_os := (bh_os images)\<lparr>ii_start := os_hdr\<rparr>, bh_state := BOOTM_STATE_START\<rparr>) }
        | IMAGE_FORMAT_FIT \<Rightarrow> None
        | IMAGE_FORMAT_INVALID \<Rightarrow> Some (1, images)) }"

definition BOOTM_ERR_RESET :: int where "BOOTM_ERR_RESET = - 1"
definition BOOTM_ERR_OVERLAP :: int where "BOOTM_ERR_OVERLAP = - 2"
definition BOOTM_ERR_UNIMPLEMENTED :: int where "BOOTM_ERR_UNIMPLEMENTED = - 3"

text \<open>\<open>gunzip\<close> maps memory, destination, its size, source and length to a code, memory and length.\<close>

type_synonym gunzip_fn = "mem \<Rightarrow> addr \<Rightarrow> u32 \<Rightarrow> addr \<Rightarrow> u32 \<Rightarrow> int \<times> mem \<times> u32"

text \<open>The return code, \<open>*load_end\<close> (unchanged on the first two error returns) and memory.\<close>

definition bootm_load_os ::
    "bool \<Rightarrow> gunzip_fn \<Rightarrow> mem \<Rightarrow> image_info \<Rightarrow> u32 \<Rightarrow> (int \<times> u32 \<times> mem) option" where
  "bootm_load_os has_watchdog gunzip m os load_end =
     (let load = ii_load os;
          blob_start = ii_start os;
          blob_end = ii_end os;
          image_start = ii_image_start os;
          image_len = ii_image_len os;
          check = (\<lambda>load_end m.
            if load < blob_end \<and> load_end > blob_start then (BOOTM_ERR_OVERLAP, load_end, m) else (0, load_end, m))
      in if ii_comp os = IH_COMP_NONE then
           (if load \<noteq> blob_start \<and> load \<noteq> image_start then
              map_option (check (load + image_len)) (memmove_wd has_watchdog m load image_start image_len CHUNKSZ)
            else Some (check (load + image_len) m))
         else if ii_comp os = IH_COMP_GZIP then
           (case gunzip m load CONFIG_SYS_BOOTM_LEN image_start image_len of
              (ret, m', unc_len) \<Rightarrow>
                if ret \<noteq> 0 then Some (BOOTM_ERR_RESET, load_end, m')
                else Some (check (load + unc_len) m'))
         else Some (BOOTM_ERR_UNIMPLEMENTED, load_end, m))"

section \<open>The command\<close>

text \<open>
  How the command ends: it returns, control passes to an address for good, or a function pointer is
  called that the table of operating systems does not have.
\<close>

datatype boot_end = Return int | Jump addr | Missing_boot_fn

definition CONFIG_SYS_RESET_ADDR :: addr where "CONFIG_SYS_RESET_ADDR = 0xF0000100"

definition do_reset :: boot_end where "do_reset = Jump CONFIG_SYS_RESET_ADDR"

definition do_bootm_linux :: "bootm_headers \<Rightarrow> boot_end" where "do_bootm_linux images = Jump 0x100"

text \<open>The table \<open>boot_os\<close>, indexed by the code of the operating system.\<close>

definition boot_fn :: "bootm_headers \<Rightarrow> boot_end" where
  "boot_fn images = (if ii_os (bh_os images) = IH_OS_LINUX then do_bootm_linux images else Missing_boot_fn)"

definition cmd_bootm_sub :: "u32 cmd_tbl" where
  "cmd_bootm_sub =
     [(ascii ''start'', BOOTM_STATE_START), (ascii ''loados'', BOOTM_STATE_LOADOS), (ascii ''bdt'', BOOTM_STATE_OS_BD_T),
      (ascii ''cmdline'', BOOTM_STATE_OS_CMDLINE), (ascii ''prep'', BOOTM_STATE_OS_PREP), (ascii ''go'', BOOTM_STATE_OS_GO)]"

text \<open>A step of the state machine behind the subcommands, for a state other than \<open>START\<close>.\<close>

definition bootm_step ::
    "bool \<Rightarrow> gunzip_fn \<Rightarrow> mem \<Rightarrow> bootm_headers \<Rightarrow> u32 \<Rightarrow> (boot_end \<times> mem \<times> bootm_headers) option" where
  "bootm_step has_watchdog gunzip m images state =
     (if bh_state images \<ge> state then Some (Return 1, m, images)
      else
        let images = images\<lparr>bh_state := bh_state images OR state\<rparr>
        in if state = BOOTM_STATE_LOADOS then do {
             (ret, load_end, m) \<leftarrow> bootm_load_os has_watchdog gunzip m (bh_os images) 0;
             if ret \<noteq> 0 then Some (Return ret, m, images)
             else do {
               (_, lmb) \<leftarrow> lmb_reserve (bh_lmb images) (ii_load (bh_os images)) (load_end - ii_load (bh_os images));
               Some (Return 0, m, images\<lparr>bh_lmb := lmb\<rparr>) } }
           else if state = BOOTM_STATE_OS_CMDLINE \<or> state = BOOTM_STATE_OS_BD_T \<or> state = BOOTM_STATE_OS_PREP \<or>
             state = BOOTM_STATE_OS_GO then Some (boot_fn images, m, images)
           else Some (Return 0, m, images))"

definition do_bootm_subcommand ::
    "bool \<Rightarrow> gunzip_fn \<Rightarrow> ('c \<Rightarrow> mem) \<Rightarrow> 'c env_state \<Rightarrow> mem \<Rightarrow> bootm_headers \<Rightarrow> u8 list \<Rightarrow> u8 list list \<Rightarrow>
      (boot_end \<times> mem \<times> bootm_headers) option" where
  "do_bootm_subcommand has_watchdog gunzip view env m images cmd args =
     (case find_cmd_tbl cmd cmd_bootm_sub of
        None \<Rightarrow> Some (Return 1, m, images)
      | Some (_, state) \<Rightarrow>
          if state = BOOTM_STATE_START then
            map_option (\<lambda>(ret, images). (Return ret, m, images)) (bootm_start has_watchdog view env m args)
          else bootm_step has_watchdog gunzip m images state)"

text \<open>The part of \<open>do_bootm\<close> after \<open>bootm_start\<close> succeeded.\<close>

definition boot_loaded ::
    "bool \<Rightarrow> gunzip_fn \<Rightarrow> mem \<Rightarrow> bootm_headers \<Rightarrow> (boot_end \<times> mem \<times> bootm_headers) option" where
  "boot_loaded has_watchdog gunzip m images = do {
     (ret, load_end, m) \<leftarrow> bootm_load_os has_watchdog gunzip m (bh_os images) 0;
     if ret = BOOTM_ERR_RESET then Some (do_reset, m, images)
     else if ret = BOOTM_ERR_OVERLAP \<and> \<not> legacy_hdr_valid images then Some (do_reset, m, images)
     else if ret = BOOTM_ERR_UNIMPLEMENTED then Some (Return 1, m, images)
     else do {
       (_, lmb) \<leftarrow> lmb_reserve (bh_lmb images) (ii_load (bh_os images)) (load_end - ii_load (bh_os images));
       let images = images\<lparr>bh_lmb := lmb\<rparr>;
       Some (boot_fn images, m, images) } }"

text \<open>Whether the first argument is a subcommand: it is not a number, followed by nothing or by the mark of a FIT part.\<close>

definition bootm_sub :: "u8 list list \<Rightarrow> bool option" where
  "bootm_sub args =
     (case args of
        [] \<Rightarrow> Some False
      | arg # _ \<Rightarrow>
          map_option (\<lambda>(_, endp). endp \<noteq> [] \<and> hd endp \<noteq> 0x3a \<and> hd endp \<noteq> 0x23) (str_strtoul arg 16))"

definition do_bootm ::
    "bool \<Rightarrow> gunzip_fn \<Rightarrow> ('c \<Rightarrow> mem) \<Rightarrow> 'c env_state \<Rightarrow> mem \<Rightarrow> bootm_headers \<Rightarrow> u8 list list \<Rightarrow>
      (boot_end \<times> mem \<times> bootm_headers) option" where
  "do_bootm has_watchdog gunzip view env m images args = do {
     sub \<leftarrow> bootm_sub args;
     if sub then do_bootm_subcommand has_watchdog gunzip view env m images (hd args) (tl args)
     else do {
       (ret, images) \<leftarrow> bootm_start has_watchdog view env m args;
       if ret \<noteq> 0 then Some (Return 1, m, images) else boot_loaded has_watchdog gunzip m images } }"

section \<open>Loading\<close>

lemma memmove_wd_overwrite:
  assumes "unat dest + unat len \<le> 2 ^ 32" and "unat src + unat len \<le> 2 ^ 32"
  shows "memmove_wd False m dest src len chunksz = Some (overwrite m dest (load m src (unat len)))"
  using memmove_overwrite [of dest src len m] assms by (simp add: memmove_wd_def no_wrap_def)

lemma overwrite_load: "n \<le> 2 ^ 32 \<Longrightarrow> overwrite m p (load m p n) = m"
  by (auto simp: overwrite_def fun_eq_iff)

text \<open>Areas that do not wrap meet when each starts before the other ends.\<close>

lemma areas_meet:
  assumes "unat p + n \<le> 2 ^ 32" and "unat q + k \<le> 2 ^ 32" and "0 < n" and "0 < k"
  shows "area p n \<inter> area q k \<noteq> {} \<longleftrightarrow> unat p < unat q + k \<and> unat q < unat p + n"
proof -
  have mem: "a \<in> area p n \<longleftrightarrow> unat p \<le> unat a \<and> unat a < unat p + n"
    "a \<in> area q k \<longleftrightarrow> unat q \<le> unat a \<and> unat a < unat q + k" for a
    using assms by (simp_all add: area_nowrap)
  show ?thesis
  proof
    assume "area p n \<inter> area q k \<noteq> {}"
    then show "unat p < unat q + k \<and> unat q < unat p + n"
      by (auto simp: mem)
  next
    assume "unat p < unat q + k \<and> unat q < unat p + n"
    then have "(if unat p \<le> unat q then q else p) \<in> area p n \<inter> area q k"
      using assms by (auto simp: mem)
    then show "area p n \<inter> area q k \<noteq> {}"
      by blast
  qed
qed

lemma bootm_load_os_none:
  assumes "ii_comp os = IH_COMP_NONE"
    and "unat (ii_load os) + unat (ii_image_len os) < 2 ^ 32"
    and "unat (ii_image_start os) + unat (ii_image_len os) < 2 ^ 32"
    and "ii_start os < ii_end os" and "ii_image_len os \<noteq> 0"
  shows "bootm_load_os False gunzip m os load_end = Some
    (if area (ii_load os) (unat (ii_image_len os)) \<inter> area (ii_start os) (unat (ii_end os - ii_start os)) = {} then 0
       else BOOTM_ERR_OVERLAP,
     ii_load os + ii_image_len os,
     if ii_load os = ii_start os then m
       else overwrite m (ii_load os) (load m (ii_image_start os) (unat (ii_image_len os))))"
proof -
  have len: "unat (ii_end os - ii_start os) = unat (ii_end os) - unat (ii_start os)"
    using assms(4) by (intro unat_sub) simp
  have "0 < unat (ii_image_len os)"
    using assms(5) by (simp add: unat_gt_0)
  then have meet: "area (ii_load os) (unat (ii_image_len os)) \<inter> area (ii_start os) (unat (ii_end os - ii_start os)) \<noteq> {} \<longleftrightarrow>
      unat (ii_load os) < unat (ii_end os) \<and> unat (ii_start os) < unat (ii_load os) + unat (ii_image_len os)"
    using areas_meet [of "ii_load os" "unat (ii_image_len os)" "ii_start os" "unat (ii_end os) - unat (ii_start os)"] assms(2,4)
      unsigned_less [of "ii_end os", where ?'a = nat]
    unfolding len by (simp add: word_less_nat_alt)
  have "unat (ii_load os + ii_image_len os) = unat (ii_load os) + unat (ii_image_len os)"
    using assms(2) by (simp add: unat_word_ariths)
  then have cond: "ii_load os < ii_end os \<and> ii_load os + ii_image_len os > ii_start os \<longleftrightarrow>
      area (ii_load os) (unat (ii_image_len os)) \<inter> area (ii_start os) (unat (ii_end os - ii_start os)) \<noteq> {}"
    unfolding meet by (simp add: word_less_nat_alt)
  have mv: "memmove_wd False m (ii_load os) (ii_image_start os) (ii_image_len os) CHUNKSZ =
      Some (overwrite m (ii_load os) (load m (ii_image_start os) (unat (ii_image_len os))))"
    using assms(2,3) by (intro memmove_wd_overwrite) simp_all
  have "ii_load os = ii_image_start os \<Longrightarrow>
      overwrite m (ii_load os) (load m (ii_image_start os) (unat (ii_image_len os))) = m"
    using unsigned_less [of "ii_image_len os", where ?'a = nat] by (simp add: overwrite_load)
  then show ?thesis
    unfolding bootm_load_os_def Let_def cond using assms(1) by (auto simp: mv)
qed

section \<open>Starting from a legacy image\<close>

definition boot_lmb :: "u32 \<Rightarrow> u32 \<Rightarrow> lmb" where
  "boot_lmb mem_start mem_size =
     \<lparr>lmb_memory = \<lparr>rcnt = 1, rsize = 0,
        region = \<lparr>pbase = mem_start, psize = mem_size\<rparr> # replicate (unat MAX_LMB_REGIONS) \<lparr>pbase = 0, psize = 0\<rparr>\<rparr>,
      lmb_reserved = zero_region\<lparr>rcnt := 1\<rparr>\<rparr>"

lemma replicate_9: "replicate 9 x = x # replicate 8 x"
  by (simp add: eval_nat_numeral)

lemma boot_lmb_made:
  "\<exists>lmb. lmb_init (bh_lmb zero_headers) = Some lmb \<and> lmb_add lmb mem_start mem_size = Some (0, boot_lmb mem_start mem_size)"
  by (simp add: zero_headers_def zero_region_def lmb_init_def lmb_add_def lmb_add_region_def boot_lmb_def rd_def wr_def
      MAX_LMB_REGIONS_def replicate_9)

lemma boot_lmb_reserve:
  "lmb_reserve (boot_lmb mem_start mem_size) base sz = Some (0, (boot_lmb mem_start mem_size)
     \<lparr>lmb_reserved := \<lparr>rcnt = 1, rsize = 0,
        region = \<lparr>pbase = base, psize = sz\<rparr> # replicate (unat MAX_LMB_REGIONS) \<lparr>pbase = 0, psize = 0\<rparr>\<rparr>\<rparr>)"
  by (simp add: zero_region_def lmb_reserve_def lmb_add_region_def boot_lmb_def rd_def wr_def MAX_LMB_REGIONS_def replicate_9)

text \<open>The structure after a successful start from the image at \<open>a\<close> with nothing else on the command line.\<close>

definition started :: "bool \<Rightarrow> mem \<Rightarrow> addr \<Rightarrow> bootm_headers" where
  "started verify m a =
     zero_headers
       \<lparr>legacy_hdr_os := a, legacy_hdr_os_copy := header_at m a, legacy_hdr_valid := True,
        bh_os := \<lparr>ii_start = a, ii_end = image_get_image_end m a, ii_image_start = image_get_data a,
          ii_image_len = image_get_data_size m a, ii_load = image_get_load (header_at m a),
          ii_comp = image_get_comp (header_at m a), ii_type = image_get_type (header_at m a),
          ii_os = image_get_os (header_at m a)\<rparr>,
        bh_ep := image_get_ep (header_at m a), bh_verify := verify, bh_state := BOOTM_STATE_START,
        bh_lmb := boot_lmb CONFIG_SYS_SDRAM_BASE CONFIG_SYS_SDRAM_SIZE\<rparr>"

definition plain_env :: "('c \<Rightarrow> mem) \<Rightarrow> 'c env_state \<Rightarrow> bool" where
  "plain_env view env \<longleftrightarrow>
     getenv view env (ascii ''verify'') = Some None \<and>
     getenv view env (ascii ''bootm_low'') = Some None \<and> getenv view env (ascii ''bootm_size'') = Some None"

lemma plain_env_settings:
  assumes "plain_env view env"
  shows "getenv_yesno view env (ascii ''verify'') = Some True"
    and "getenv_bootm_low view env = Some CONFIG_SYS_SDRAM_BASE"
    and "getenv_bootm_size view env = Some CONFIG_SYS_SDRAM_SIZE"
  using assms by (simp_all add: plain_env_def getenv_yesno_def getenv_bootm_low_def getenv_bootm_size_def)

lemma boot_get_kernel_legacy:
  assumes "load_addr env = a" and "genimg_get_format m a = IMAGE_FORMAT_LEGACY"
    and "image_get_kernel has_watchdog m a (bh_verify images) = Some a"
    and "image_get_type (header_at m a) = IH_TYPE_KERNEL"
  shows "boot_get_kernel has_watchdog env m [] images = Some
    (if a = NULL then (NULL, 0, 0, images)
     else (a, image_get_data a, image_get_data_size m a,
       images\<lparr>legacy_hdr_os_copy := header_at m a, legacy_hdr_os := a, legacy_hdr_valid := True\<rparr>))"
  using assms by (simp add: boot_get_kernel_def genimg_get_image_def Let_def)

lemma bootm_start_legacy:
  assumes env: "plain_env view env" "load_addr env = a" and "a \<noteq> NULL"
    and img: "genimg_get_format m a = IMAGE_FORMAT_LEGACY" "image_get_kernel has_watchdog m a True = Some a"
      "image_get_type (header_at m a) = IH_TYPE_KERNEL" "image_get_data_size m a \<noteq> 0"
  shows "bootm_start has_watchdog view env m [] = Some (0, started True m a)"
proof -
  obtain lmb where lmb: "lmb_init (bh_lmb zero_headers) = Some lmb"
    "lmb_add lmb CONFIG_SYS_SDRAM_BASE CONFIG_SYS_SDRAM_SIZE = Some (0, boot_lmb CONFIG_SYS_SDRAM_BASE CONFIG_SYS_SDRAM_SIZE)"
    using boot_lmb_made by blast
  have "boot_get_kernel has_watchdog env m []
      (zero_headers\<lparr>bh_verify := True, bh_lmb := boot_lmb CONFIG_SYS_SDRAM_BASE CONFIG_SYS_SDRAM_SIZE\<rparr>) = Some
      (a, image_get_data a, image_get_data_size m a,
       zero_headers\<lparr>bh_verify := True, bh_lmb := boot_lmb CONFIG_SYS_SDRAM_BASE CONFIG_SYS_SDRAM_SIZE,
         legacy_hdr_os_copy := header_at m a, legacy_hdr_os := a, legacy_hdr_valid := True\<rparr>)"
    using boot_get_kernel_legacy [OF env(2) img(1), of has_watchdog] img(2,3) \<open>a \<noteq> NULL\<close> by simp
  then show ?thesis
    using img lmb plain_env_settings [OF env(1)]
    by (simp add: bootm_start_def boot_get_ramdisk_def started_def zero_headers_def IH_TYPE_KERNEL_def IH_TYPE_MULTI_def
        IH_ARCH_OR1K_def Let_def)
qed

lemma bootm_start_null:
  assumes env: "plain_env view env" "load_addr env = NULL"
    and img: "genimg_get_format m NULL = IMAGE_FORMAT_LEGACY" "image_get_kernel has_watchdog m NULL True = Some NULL"
  shows "\<exists>images. bootm_start has_watchdog view env m [] = Some (1, images) \<and> bh_state images = 0"
proof -
  obtain lmb where lmb: "lmb_init (bh_lmb zero_headers) = Some lmb"
    "lmb_add lmb CONFIG_SYS_SDRAM_BASE CONFIG_SYS_SDRAM_SIZE = Some (0, boot_lmb CONFIG_SYS_SDRAM_BASE CONFIG_SYS_SDRAM_SIZE)"
    using boot_lmb_made by blast
  have "boot_get_kernel has_watchdog env m [] images = Some (NULL, 0, 0, images)" if "bh_verify images" for images
    using env img that by (simp add: boot_get_kernel_def genimg_get_image_def)
  then show ?thesis
    using lmb plain_env_settings [OF env(1)]
    by (simp add: bootm_start_def zero_headers_def)
qed

section \<open>The order of subcommands\<close>

text \<open>
  The subcommands executed since the last successful start: a start clears them, a refused or unknown
  subcommand leaves them, any other is added. \<open>bootm\<close> with an address or no argument starts, too.
\<close>

definition note_command :: "bootm_headers \<Rightarrow> u8 list list \<Rightarrow> bootm_headers \<Rightarrow> u32 list \<Rightarrow> u32 list" where
  "note_command images args images' trace =
     (let after_start = (if bh_state images' = 0 then [] else [BOOTM_STATE_START])
      in if bootm_sub args = Some True then
           (case find_cmd_tbl (hd args) cmd_bootm_sub of
              None \<Rightarrow> trace
            | Some (_, state) \<Rightarrow>
                if state = BOOTM_STATE_START then after_start
                else if bh_state images \<ge> state then trace
                else trace @ [state])
         else after_start)"

text \<open>Sessions at the console: the command \<open>bootm\<close> with any arguments, and anything else that changes memory.\<close>

inductive session ::
    "bool \<Rightarrow> gunzip_fn \<Rightarrow> ('c \<Rightarrow> mem) \<Rightarrow> mem \<Rightarrow> bootm_headers \<Rightarrow> u32 list \<Rightarrow> bool"
  for has_watchdog gunzip view where
  power_on: "session has_watchdog gunzip view m zero_headers []"
| other: "session has_watchdog gunzip view m images trace \<Longrightarrow> session has_watchdog gunzip view m' images trace"
| bootm:
    "session has_watchdog gunzip view m images trace \<Longrightarrow>
     do_bootm has_watchdog gunzip view env m images args = Some (ret, m', images') \<Longrightarrow>
     session has_watchdog gunzip view m' images' (note_command images args images' trace)"

lemma or_bit:
  assumes "v < s" and "s \<in> snd ` set cmd_bootm_sub"
  shows "s \<le> v OR s" and "v OR s < 2 * s"
proof -
  obtain k where k: "s = 2 ^ k" "k < 8"
    using assms(2)
    by (auto simp: cmd_bootm_sub_def BOOTM_STATE_START_def BOOTM_STATE_LOADOS_def BOOTM_STATE_OS_CMDLINE_def
        BOOTM_STATE_OS_BD_T_def BOOTM_STATE_OS_PREP_def BOOTM_STATE_OS_GO_def
        intro: that [of 0] that [of 1] that [of 4] that [of 5] that [of 6] that [of 7])
  have "(2 :: nat) ^ k < 2 ^ 32" and big: "2 * 2 ^ k \<le> (2 * 2 ^ 7 :: nat)"
    using k power_increasing [of k 7 "2 :: nat"] by simp_all
  moreover have "s = of_nat (2 ^ k)"
    using k by simp
  ultimately have us: "unat s = 2 ^ k"
    by (simp only: unat_of_nat) simp
  then have v: "unat v < 2 ^ k"
    using assms(1) by (simp add: word_less_nat_alt)
  then have "take_bit k v = v"
    by (simp add: word_unat_eq_iff unsigned_take_bit_eq take_bit_nat_eq_self)
  then have "\<not> bit v k"
    by (metis bit_take_bit_iff less_irrefl)
  then have "v AND s = 0"
    unfolding k(1) by (intro bit_eqI) (auto simp: bit_and_iff bit_exp_iff)
  then have or: "v OR s = v + s"
    by (simp add: disjunctive_add_eq_or)
  have "unat (v + s) = unat v + unat s" "unat (2 * s) = 2 * unat s"
    using v big us by (simp_all add: unat_word_ariths)
  then show "s \<le> v OR s" and "v OR s < 2 * s"
    using v us unfolding or by (simp_all add: word_less_nat_alt word_le_nat_alt)
qed

lemma bootm_start_state:
  assumes "bootm_start has_watchdog view env m args = Some (ret, images)"
  shows "bh_state images = 0 \<or> bh_state images = BOOTM_STATE_START"
proof -
  have k: "bh_state im' = bh_state im"
    if "boot_get_kernel has_watchdog env m args im = Some (h, d, l, im')" for im h d l im'
    using that
    by (auto simp: boot_get_kernel_def Let_def split: list.splits image_format.splits bind_splits if_splits)
  show ?thesis
    using assms
    by (auto simp: bootm_start_def Let_def zero_headers_def split: image_format.splits bind_splits if_splits dest!: k)
qed

lemma cmd_bootm_sub_state: "find_cmd_tbl cmd cmd_bootm_sub = Some (name, s) \<Longrightarrow> s \<in> snd ` set cmd_bootm_sub"
proof -
  assume a: "find_cmd_tbl cmd cmd_bootm_sub = Some (name, s)"
  have "e \<in> set table \<or> temp = Some e" if "find_cmd_loop c len table temp n = Some e"
    for c len temp n e and table :: "u32 cmd_tbl"
    using that by (induction c len table temp n rule: find_cmd_loop.induct) (auto split: if_splits)
  from this [OF a [unfolded find_cmd_tbl_def]] show ?thesis
    by force
qed

lemma bootm_step_state:
  assumes "bootm_step has_watchdog gunzip m images s = Some (ret, m', images')" and "bh_state images < s"
  shows "bh_state images' = bh_state images OR s"
  using assms by (auto simp: bootm_step_def Let_def split: bind_splits if_splits)

text \<open>The state word lies between the last subcommand executed and twice its bit.\<close>

definition state_of :: "u32 list \<Rightarrow> u32 \<Rightarrow> bool" where
  "state_of trace state \<longleftrightarrow>
     sorted_wrt (<) trace \<and> set trace \<subseteq> snd ` set cmd_bootm_sub \<and>
     (if trace = [] then state = 0 else last trace \<le> state \<and> state < 2 * last trace)"

lemma strict_sorted_last: "sorted_wrt (<) xs \<Longrightarrow> d \<in> set xs \<Longrightarrow> d \<le> last xs" for d :: "'a::linorder"
  by (induction xs rule: rev_induct) (auto simp: sorted_wrt_append)

lemma state_of_snoc:
  assumes "state_of trace state" and "state < s" and "s \<in> snd ` set cmd_bootm_sub"
  shows "state_of (trace @ [s]) (state OR s)"
proof -
  have "d < s" if "d \<in> set trace" for d
    using that assms(1,2) strict_sorted_last [of trace d] by (auto simp: state_of_def split: if_splits)
  then show ?thesis
    using assms or_bit [OF assms(2,3)] by (auto simp: state_of_def sorted_wrt_append)
qed

text \<open>One command keeps the relation of trace and state word.\<close>

lemma boot_loaded_state:
  "boot_loaded has_watchdog gunzip m images = Some (ret, m', images') \<Longrightarrow> bh_state images' = bh_state images"
  by (auto simp: boot_loaded_def Let_def split: bind_splits if_splits)

lemma do_bootm_plain_state:
  assumes "do_bootm has_watchdog gunzip view env m images args = Some (ret, m', images')" and "bootm_sub args \<noteq> Some True"
  shows "bh_state images' = 0 \<or> bh_state images' = BOOTM_STATE_START"
  using assms
  by (auto simp: do_bootm_def split: bind_splits if_splits dest!: bootm_start_state boot_loaded_state)

lemma subcommand_state_of:
  assumes "do_bootm_subcommand has_watchdog gunzip view env m images (hd args) (tl args) = Some (ret, m', images')"
    and "bootm_sub args = Some True" and "state_of trace (bh_state images)"
  shows "state_of (note_command images args images' trace) (bh_state images')"
proof (cases "find_cmd_tbl (hd args) cmd_bootm_sub")
  case None
  then show ?thesis
    using assms by (simp add: note_command_def do_bootm_subcommand_def)
next
  case (Some e)
  obtain name s where e: "e = (name, s)"
    by fastforce
  note s = cmd_bootm_sub_state [OF Some [unfolded e]]
  consider "s = BOOTM_STATE_START" | "s \<noteq> BOOTM_STATE_START" "s \<le> bh_state images"
    | "s \<noteq> BOOTM_STATE_START" "bh_state images < s"
    by fastforce
  then show ?thesis
  proof cases
    case 1
    then have "bh_state images' = 0 \<or> bh_state images' = BOOTM_STATE_START"
      using assms(1) Some e by (auto simp: do_bootm_subcommand_def dest: bootm_start_state)
    then show ?thesis
      using 1 Some e s assms(2) by (auto simp: note_command_def state_of_def BOOTM_STATE_START_def)
  next
    case 2
    then show ?thesis
      using assms Some e by (simp add: note_command_def do_bootm_subcommand_def bootm_step_def)
  next
    case 3
    then have "bh_state images' = bh_state images OR s"
      using assms(1) Some e by (auto simp: do_bootm_subcommand_def intro: bootm_step_state)
    then show ?thesis
      using 3 Some e s assms(2,3) state_of_snoc by (auto simp: note_command_def)
  qed
qed

lemma session_state_of: "session has_watchdog gunzip view m images trace \<Longrightarrow> state_of trace (bh_state images)"
proof (induction rule: session.induct)
  case (power_on m)
  then show ?case
    by (simp add: state_of_def zero_headers_def)
next
  case (bootm m images trace env args ret m' images')
  show ?case
  proof (cases "bootm_sub args = Some True")
    case True
    then show ?thesis
      using bootm by (intro subcommand_state_of) (simp_all add: do_bootm_def)
  next
    case False
    then show ?thesis
      using do_bootm_plain_state [OF bootm.hyps(2) False]
      by (auto simp: note_command_def state_of_def cmd_bootm_sub_def BOOTM_STATE_START_def)
  qed
qed

lemma state_bits:
  assumes "s \<in> snd ` set cmd_bootm_sub" and "t \<in> snd ` set cmd_bootm_sub" and "s < 2 * t"
  shows "s \<le> t"
  using assms
  by (auto simp: cmd_bootm_sub_def BOOTM_STATE_START_def BOOTM_STATE_LOADOS_def BOOTM_STATE_OS_CMDLINE_def
      BOOTM_STATE_OS_BD_T_def BOOTM_STATE_OS_PREP_def BOOTM_STATE_OS_GO_def)

lemma state_of_le:
  assumes "state_of trace state" and "s \<in> snd ` set cmd_bootm_sub"
  shows "s \<le> state \<longleftrightarrow> (\<exists>t\<in>set trace. s \<le> t)"
proof (cases "trace = []")
  case True
  then have "state = 0" "s \<noteq> 0"
    using assms
    by (auto simp: state_of_def cmd_bootm_sub_def BOOTM_STATE_START_def BOOTM_STATE_LOADOS_def BOOTM_STATE_OS_CMDLINE_def
        BOOTM_STATE_OS_BD_T_def BOOTM_STATE_OS_PREP_def BOOTM_STATE_OS_GO_def)
  then show ?thesis
    using True by simp
next
  case False
  then have l: "last trace \<le> state" "state < 2 * last trace" "last trace \<in> snd ` set cmd_bootm_sub" "last trace \<in> set trace"
    using assms(1) by (auto simp: state_of_def)
  show ?thesis
  proof
    assume "s \<le> state"
    then have "s \<le> last trace"
      using l assms(2) by (intro state_bits) auto
    then show "\<exists>t\<in>set trace. s \<le> t"
      using l by blast
  next
    assume "\<exists>t\<in>set trace. s \<le> t"
    then show "s \<le> state"
      using l(1) assms(1) strict_sorted_last [of trace] by (meson order_trans state_of_def)
  qed
qed

section \<open>Booting an image of mkimage\<close>

lemma plain_envI:
  assumes "env_ok env vars"
    and "fst ` set vars \<inter> {ascii ''verify'', ascii ''bootm_low'', ascii ''bootm_size''} = {}"
  shows "plain_env view env"
proof -
  have "ok_name (ascii ''verify'')" "ok_name (ascii ''bootm_low'')" "ok_name (ascii ''bootm_size'')"
    by (simp_all add: ok_name_def ascii_def)
  moreover have "map_of vars (ascii ''verify'') = None" "map_of vars (ascii ''bootm_low'') = None"
      "map_of vars (ascii ''bootm_size'') = None"
    using assms(2) by (auto simp: map_of_eq_None_iff)
  ultimately show ?thesis
    using getenv_lookup [OF assms(1)] by (simp add: plain_env_def)
qed

lemma kernel_payload:
  assumes "payload files opts = Inr data" and "opt_type opts = IH_TYPE_KERNEL" and "\<not> opt_xflag opts"
  shows "files (opt_datafile opts) = Some data" and "data \<noteq> []"
  using assms
  by (auto simp: payload_def copy_file_plain IH_TYPE_KERNEL_def IH_TYPE_MULTI_def IH_TYPE_SCRIPT_def)

text \<open>The structure that \<open>bootm_start\<close> leaves, in terms of the options and the data file.\<close>

lemma started_image:
  assumes img: "payload files opts = Inr data" "opt_arch opts = IH_ARCH_OR1K" "opt_type opts = IH_TYPE_KERNEL"
      "\<not> opt_xflag opts"
    and mem: "load m a (64 + length data) = header_bytes (build_header opts ep mtime data) @ data"
      "unat a + (64 + length data) < 2 ^ 32" "a \<noteq> NULL"
    and env: "plain_env view env" "load_addr env = a"
  shows "bootm_start has_watchdog view env m [] = Some (0, started True m a)"
    and "bh_os (started True m a) =
      \<lparr>ii_start = a, ii_end = a + of_nat (64 + length data), ii_image_start = a + 64, ii_image_len = of_nat (length data),
       ii_load = opt_addr opts, ii_comp = opt_comp opts, ii_type = IH_TYPE_KERNEL, ii_os = opt_os opts\<rparr>"
proof -
  note built = mkimage_at [OF mem(1)]
  have size: "image_get_data_size m a = of_nat (length data)"
    by (simp add: image_get_data_size_def built)
  have small: "0 < length data" "length data < 2 ^ 32"
    using kernel_payload [OF img(1,3,4)] mem(2) by auto
  show "bootm_start has_watchdog view env m [] = Some (0, started True m a)"
  proof (rule bootm_start_legacy [OF env mem(3)])
    show "image_get_kernel has_watchdog m a True = Some a"
      using image_get_kernel_accepts [OF mem(1)] small(2) img(2) by (simp add: build_header_hcrc)
    show "image_get_data_size m a \<noteq> 0"
      using of_nat_eq32 [of "length data" 0] small by (simp add: size)
  qed (simp_all add: genimg_get_format_def built img(3))
  show "bh_os (started True m a) =
      \<lparr>ii_start = a, ii_end = a + of_nat (64 + length data), ii_image_start = a + 64, ii_image_len = of_nat (length data),
       ii_load = opt_addr opts, ii_comp = opt_comp opts, ii_type = IH_TYPE_KERNEL, ii_os = opt_os opts\<rparr>"
    by (simp add: started_def image_get_image_end_def image_get_image_size_def image_get_header_size_def image_get_data_def
        built size img(3))
qed

lemma bootm_load_started:
  assumes os: "os = \<lparr>ii_start = a, ii_end = a + of_nat (64 + length data), ii_image_start = a + 64,
      ii_image_len = of_nat (length data), ii_load = l, ii_comp = IH_COMP_NONE, ii_type = t, ii_os = k\<rparr>"
    and data: "load m (a + 64) (length data) = data" "data \<noteq> []"
    and bounds: "unat a + (64 + length data) < 2 ^ 32" "unat l + length data < 2 ^ 32" and "l \<noteq> a"
  shows "\<exists>ret. bootm_load_os False gunzip m os e = Some (ret, l + of_nat (length data), overwrite m l data) \<and>
    (ret = 0 \<or> ret = BOOTM_ERR_OVERLAP)"
proof -
  have n: "unat (of_nat (length data) :: u32) = length data"
    using bounds(1) by (simp add: unat_of_nat)
  have e: "unat (a + of_nat (64 + length data)) = unat a + (64 + length data)"
    using bounds(1) by (rule unat_plus_of_nat)
  have s: "unat (a + 64) = unat a + 64"
    using unat_plus_of_nat [of a 64] bounds(1) by simp
  have ne: "(of_nat (length data) :: u32) \<noteq> 0"
    using n data(2) by (metis length_0_conv unat_0)
  have lt: "a < a + of_nat (64 + length data)"
    unfolding word_less_nat_alt e by simp
  show ?thesis
    using bootm_load_os_none [of os gunzip m e] bounds \<open>l \<noteq> a\<close> ne lt data(1)
    unfolding os image_info.simps n s by (auto split: if_splits)
qed

section \<open>Behaviour outside the intended use\<close>

text \<open>
  Before any start the subcommand \<open>go\<close> is accepted and calls a function that is not there; after a start,
  the preparing subcommands start the kernel, since \<open>do_bootm_linux\<close> does not look at its flag.
\<close>

lemma go_before_start:
  "do_bootm_subcommand has_watchdog gunzip view env m zero_headers (ascii ''go'') args =
     Some (Missing_boot_fn, m, zero_headers\<lparr>bh_state := BOOTM_STATE_OS_GO\<rparr>)"
  by (simp add: do_bootm_subcommand_def find_cmd_tbl_def cmd_len_def cmd_bootm_sub_def ascii_def bootm_step_def boot_fn_def
      zero_headers_def IH_OS_LINUX_def BOOTM_STATE_START_def BOOTM_STATE_LOADOS_def BOOTM_STATE_OS_GO_def Let_def)

lemma prep_starts_kernel:
  assumes "bh_state images = BOOTM_STATE_START" and "ii_os (bh_os images) = IH_OS_LINUX"
  shows "\<exists>images'. do_bootm_subcommand has_watchdog gunzip view env m images (ascii ''prep'') args = Some (Jump 0x100, m, images')"
  using assms
  by (auto simp: do_bootm_subcommand_def find_cmd_tbl_def cmd_len_def cmd_bootm_sub_def ascii_def bootm_step_def boot_fn_def
      do_bootm_linux_def BOOTM_STATE_START_def BOOTM_STATE_LOADOS_def BOOTM_STATE_OS_PREP_def Let_def word_le_nat_alt)

text \<open>An image that is executed in place is never moved and always reported as overwritten.\<close>

lemma in_place_reported:
  assumes "ii_comp os = IH_COMP_NONE" and "ii_load os = ii_start os" and "ii_start os < ii_end os"
    and "ii_start os < ii_start os + ii_image_len os"
  shows "bootm_load_os has_watchdog gunzip m os e = Some (BOOTM_ERR_OVERLAP, ii_load os + ii_image_len os, m)"
  using assms by (simp add: bootm_load_os_def)

lemma default_env_at: "env_ok ((default_state c)\<lparr>load_addr := a\<rparr>) default_vars"
  using default_state_ok [of c] by (simp add: env_ok_def)

lemma default_vars_plain:
  "fst ` set default_vars \<inter> {ascii ''verify'', ascii ''bootm_low'', ascii ''bootm_size''} = {}"
  by (simp add: default_vars_def ascii_def)

section \<open>Properties\<close>

text \<open>
  C1: an uncompressed Linux kernel for the target, packed by \<open>mkimage\<close> without -x and present in memory
  at a nonzero \<open>load_addr\<close>, is loaded by \<open>bootm\<close> without arguments when the environment sets none of
  \<open>verify\<close>, \<open>bootm_low\<close> and \<open>bootm_size\<close>: the bytes of the data file are at the load address of the
  options, no other byte of memory changed, and control passes to address 0x100, in this port
  whatever load address and entry point the image names. The load area may overlap the image but not
  start where the image starts.
\<close>

theorem bootm_boots_image:
  assumes "mkimage files mtime opts = Inr img"
    and "opt_arch opts = IH_ARCH_OR1K" and "opt_os opts = IH_OS_LINUX" and "opt_type opts = IH_TYPE_KERNEL"
    and "opt_comp opts = IH_COMP_NONE" and "\<not> opt_xflag opts"
    and "load m a (length img) = img" and "unat a + length img < 2 ^ 32" and "a \<noteq> NULL"
    and "unat (opt_addr opts) + length img < 2 ^ 32" and "opt_addr opts \<noteq> a"
    and "env_ok env vars" and "load_addr env = a"
    and "fst ` set vars \<inter> {ascii ''verify'', ascii ''bootm_low'', ascii ''bootm_size''} = {}"
  shows "\<exists>kernel images'. files (opt_datafile opts) = Some kernel \<and>
    do_bootm False gunzip view env m images [] = Some (Jump 0x100, overwrite m (opt_addr opts) kernel, images') \<and>
    load (overwrite m (opt_addr opts) kernel) (opt_addr opts) (length kernel) = kernel"
proof -
  obtain ep data where data: "payload files opts = Inr data"
    and img: "img = header_bytes (build_header opts ep mtime data) @ data"
    using mkimage_parts [OF assms(1)] .
  have len: "length img = 64 + length data"
    unfolding img by (rule length_mkimage)
  have at: "load m a (64 + length data) = header_bytes (build_header opts ep mtime data) @ data"
    using assms(7) img len by simp
  note env = plain_envI [OF assms(12,14), of view]
  note start = started_image [OF data assms(2,4,6) at _ assms(9) env assms(13)]
  have bound: "unat a + (64 + length data) < 2 ^ 32" "unat (opt_addr opts) + length data < 2 ^ 32"
    using assms(8,10) len by simp_all
  obtain ret where ret: "bootm_load_os False gunzip m (bh_os (started True m a)) 0 =
      Some (ret, opt_addr opts + of_nat (length data), overwrite m (opt_addr opts) data)"
    "ret = 0 \<or> ret = BOOTM_ERR_OVERLAP"
    using bootm_load_started [OF start(2) [OF bound(1), unfolded assms(5)] mkimage_at(2) [OF at]
        kernel_payload(2) [OF data assms(4,6)] bound assms(11)] by blast
  have "legacy_hdr_valid (started True m a)" "bh_lmb (started True m a) = boot_lmb CONFIG_SYS_SDRAM_BASE CONFIG_SYS_SDRAM_SIZE"
    by (simp_all add: started_def)
  moreover have "ii_os (bh_os (started True m a)) = IH_OS_LINUX"
    using start(2) [OF bound(1)] assms(3) by simp
  ultimately have "\<exists>images'. do_bootm False gunzip view env m images [] =
      Some (Jump 0x100, overwrite m (opt_addr opts) data, images')"
    using ret start(1) [OF bound(1)]
    by (auto simp: do_bootm_def bootm_sub_def boot_loaded_def boot_lmb_reserve boot_fn_def do_bootm_linux_def BOOTM_ERR_RESET_def
        BOOTM_ERR_OVERLAP_def BOOTM_ERR_UNIMPLEMENTED_def)
  moreover have "load (overwrite m (opt_addr opts) data) (opt_addr opts) (length data) = data"
    using bound by (intro load_overwrite) simp
  ultimately show ?thesis
    using kernel_payload(1) [OF data assms(4,6)] by blast
qed

theorem bootm_boots_image_witness:
  "\<exists>kernel images'. sample_files ''vmlinux'' = Some kernel \<and>
    do_bootm False (\<lambda>m _ _ _ _. (0, m, 0)) (\<lambda>_ _. 0) ((default_state ())\<lparr>load_addr := 0x10000\<rparr>)
      (overwrite (\<lambda>_. 0) 0x10000 sample_image) zero_headers [] =
      Some (Jump 0x100, overwrite (overwrite (\<lambda>_. 0) 0x10000 sample_image) 0x100 kernel, images') \<and>
    load (overwrite (overwrite (\<lambda>_. 0) 0x10000 sample_image) 0x100 kernel) 0x100 (length kernel) = kernel"
proof -
  have "load (overwrite (\<lambda>_. 0) 0x10000 sample_image) 0x10000 (length sample_image) = sample_image"
    by (rule load_overwrite) simp
  then show ?thesis
    using bootm_boots_image [OF sample_image_built, of "overwrite (\<lambda>_. 0) 0x10000 sample_image" "0x10000"
        "(default_state ())\<lparr>load_addr := 0x10000\<rparr>" default_vars "\<lambda>m _ _ _ _. (0, m, 0)" "\<lambda>_ _. 0" zero_headers]
      default_env_at [of "0x10000" "()"] default_vars_plain
    by (simp add: sample_options_def IH_ARCH_OR1K_def IH_OS_LINUX_def IH_TYPE_KERNEL_def IH_COMP_NONE_def)
qed

text \<open>
  C37: a valid kernel image at address 0, which is the default load address of the board, cannot be
  booted: its verified header has the address \<open>NULL\<close>, which \<open>boot_get_kernel\<close> takes for a failure, so
  that \<open>bootm\<close> returns 1 with memory unchanged.
\<close>

theorem bootm_fails_at_default_address:
  assumes "mkimage files mtime opts = Inr img" and "opt_arch opts = IH_ARCH_OR1K" and "length img < 2 ^ 32"
    and "load m CONFIG_SYS_SDRAM_BASE (length img) = img"
    and "env_ok env vars" and "load_addr env = CONFIG_SYS_SDRAM_BASE"
    and "fst ` set vars \<inter> {ascii ''verify'', ascii ''bootm_low'', ascii ''bootm_size''} = {}"
  shows "\<exists>images'. do_bootm has_watchdog gunzip view env m images [] = Some (Return 1, m, images')"
proof -
  obtain ep data where img: "img = header_bytes (build_header opts ep mtime data) @ data"
    using mkimage_parts [OF assms(1)] .
  have len: "length img = 64 + length data"
    unfolding img by (rule length_mkimage)
  have at: "load m NULL (64 + length data) = header_bytes (build_header opts ep mtime data) @ data"
    using assms(4) img len by (simp add: CONFIG_SYS_SDRAM_BASE_def)
  have "image_get_kernel has_watchdog m NULL True = Some NULL"
    using image_get_kernel_accepts [OF at] assms(2,3) len by (simp add: build_header_hcrc)
  moreover have "genimg_get_format m NULL = IMAGE_FORMAT_LEGACY"
    by (simp add: genimg_get_format_def mkimage_at(1) [OF at])
  ultimately show ?thesis
    using bootm_start_null [OF plain_envI [OF assms(5,7)], of m has_watchdog view] assms(6)
    by (auto simp: do_bootm_def bootm_sub_def CONFIG_SYS_SDRAM_BASE_def)
qed

theorem bootm_fails_at_default_address_witness:
  "\<exists>images'. do_bootm False (\<lambda>m _ _ _ _. (0, m, 0)) (\<lambda>_ _. 0) (default_state ())
     (overwrite (\<lambda>_. 0) CONFIG_SYS_SDRAM_BASE sample_image) zero_headers [] =
     Some (Return 1, overwrite (\<lambda>_. 0) CONFIG_SYS_SDRAM_BASE sample_image, images')"
proof (rule bootm_fails_at_default_address [OF sample_image_built _ _ _ default_state_ok _ default_vars_plain])
  show "load (overwrite (\<lambda>_. 0) CONFIG_SYS_SDRAM_BASE sample_image) CONFIG_SYS_SDRAM_BASE (length sample_image) = sample_image"
    by (rule load_overwrite) simp
qed (simp_all add: sample_options_def IH_ARCH_OR1K_def default_state_def CONFIG_SYS_SDRAM_BASE_def)

text \<open>
  C4: in every session of \<open>bootm\<close> commands, with and without subcommands, the subcommands executed since
  the last start are in ascending order of their states (start, loados, cmdline, bdt, prep, go), so
  that none is executed twice, and the order check refuses a subcommand other than \<open>start\<close> exactly when it
  or a later one was executed already. In particular \<open>cmdline\<close> is refused after \<open>bdt\<close>, which the usage text
  of the command lists first.
\<close>

theorem bootm_subcommands_ordered:
  assumes "session has_watchdog gunzip view m images trace"
  shows "sorted_wrt (<) trace \<and>
    (\<forall>cmd name s. find_cmd_tbl cmd cmd_bootm_sub = Some (name, s) \<and> s \<noteq> BOOTM_STATE_START \<longrightarrow>
      (bh_state images \<ge> s \<longleftrightarrow> (\<exists>t\<in>set trace. s \<le> t)) \<and>
      ((\<exists>t\<in>set trace. s \<le> t) \<longrightarrow>
        do_bootm_subcommand has_watchdog gunzip view env m images cmd args = Some (Return 1, m, images)))"
proof -
  note st = session_state_of [OF assms]
  show ?thesis
    using st state_of_le [OF st cmd_bootm_sub_state]
    by (auto simp: do_bootm_subcommand_def bootm_step_def state_of_def)
qed

theorem bootm_subcommands_ordered_witness:
  "do_bootm_subcommand False (\<lambda>m _ _ _ _. (0, m, 0)) (\<lambda>_ _. 0) (default_state ()) (\<lambda>_. 0)
     (zero_headers\<lparr>bh_state := BOOTM_STATE_OS_GO\<rparr>) (ascii ''loados'') [] =
     Some (Return 1, \<lambda>_. 0, zero_headers\<lparr>bh_state := BOOTM_STATE_OS_GO\<rparr>)"
proof -
  have find: "find_cmd_tbl (ascii ''go'') cmd_bootm_sub = Some (ascii ''go'', BOOTM_STATE_OS_GO)"
    "find_cmd_tbl (ascii ''loados'') cmd_bootm_sub = Some (ascii ''loados'', BOOTM_STATE_LOADOS)"
    by (simp_all add: find_cmd_tbl_def cmd_len_def cmd_bootm_sub_def ascii_def)
  have sub: "bootm_sub [ascii ''go''] = Some True"
    by (simp add: bootm_sub_def str_strtoul_def simple_strtoul_def strtoul_loop.simps string_mem_def ascii_def
        isxdigit_iff Let_def)
  have "do_bootm False (\<lambda>m _ _ _ _. (0, m, 0)) (\<lambda>(_ :: unit) _. 0) (default_state ()) (\<lambda>_. 0) zero_headers [ascii ''go''] =
      Some (Missing_boot_fn, \<lambda>_. 0, zero_headers\<lparr>bh_state := BOOTM_STATE_OS_GO\<rparr>)"
    using go_before_start by (simp add: do_bootm_def sub)
  from session.bootm [OF session.power_on this]
  have "session False (\<lambda>m _ _ _ _. (0, m, 0)) (\<lambda>(_ :: unit) _. 0) (\<lambda>_. 0)
      (zero_headers\<lparr>bh_state := BOOTM_STATE_OS_GO\<rparr>) [BOOTM_STATE_OS_GO]"
    by (simp add: note_command_def sub find zero_headers_def BOOTM_STATE_OS_GO_def BOOTM_STATE_START_def)
  from bootm_subcommands_ordered [OF this, of "default_state ()" "[]", THEN conjunct2, THEN spec, THEN spec, THEN spec,
      of "ascii ''loados''" "ascii ''loados''" BOOTM_STATE_LOADOS] find(2)
  show ?thesis
    by (simp add: BOOTM_STATE_LOADOS_def BOOTM_STATE_START_def BOOTM_STATE_OS_GO_def)
qed

text \<open>
  Loading an uncompressed image copies its bytes to the load address and changes nothing else
  (nothing at all when the image is executed in place), and the result tells whether the loaded area
  meets the area of the image file: 0 when it does not, \<open>BOOTM_ERR_OVERLAP\<close> when it does.
\<close>

lemma bootm_load_os_correct:
  assumes "ii_comp os = IH_COMP_NONE"
    and "unat (ii_load os) + unat (ii_image_len os) < 2 ^ 32"
    and "unat (ii_image_start os) + unat (ii_image_len os) < 2 ^ 32"
    and "ii_start os < ii_end os" and "ii_image_len os \<noteq> 0"
  shows "bootm_load_os False gunzip m os load_end = Some
    (if area (ii_load os) (unat (ii_image_len os)) \<inter> area (ii_start os) (unat (ii_end os - ii_start os)) = {} then 0
       else BOOTM_ERR_OVERLAP,
     ii_load os + ii_image_len os,
     if ii_load os = ii_start os then m
       else overwrite m (ii_load os) (load m (ii_image_start os) (unat (ii_image_len os))))"
  using assms by (rule bootm_load_os_none)

end
