(* ===== verification/Net_Packet.thy ===== *)
theory Net_Packet
  imports C_Memory Env_Area
begin

text \<open>
  The packet layer of \<^verbatim>\<open>net/net.c\<close> in the configuration of the board (one network device, ping, no CDP, no
  network console, no UDP checksum): headers of packets to send, ARP, the state of the network loop and
  \<open>NetReceive\<close>. Packets to send are lists of bytes and are collected in \<open>eth_sent\<close>; a received packet lies
  in memory at \<open>inpkt\<close>, where \<open>NetReceive\<close> reads it and, for the replies it sends itself, changes it.
  The current time is the argument \<open>now\<close>; \<open>env_vars\<close> are the variables the environment area stands for, read
  with \<open>map_of\<close> and set with \<open>set_var\<close>. \<open>packetHandler\<close> is called through the parameter \<open>handler\<close>. The state is an extensible record, so that a protocol can add its own variables.
\<close>

section \<open>State\<close>

datatype net_loop = NETLOOP_CONTINUE | NETLOOP_RESTART | NETLOOP_SUCCESS | NETLOOP_FAIL

datatype rx_handler = Rx_none | Rx_tftp | Rx_nfs | Rx_dhcp | Rx_rarp | Rx_ping | Rx_start_again

datatype time_handler = Th_tftp | Th_nfs | Th_bootp | Th_rarp | Th_ping | Th_start_again

text \<open>What a pointer to a hardware address points to.\<close>

datatype ether_ptr = Ether_null | Ether_server | Ether_ping

record net_state =
  ram :: mem
  NetOurEther :: "u8 list"
  NetServerEther :: "u8 list"
  ping_mac :: "u8 list"
  NetOurIP :: u32
  NetServerIP :: u32
  NetOurGatewayIP :: u32
  NetOurSubnetMask :: u32
  NetPingIP :: u32
  NetOurVLAN :: u16
  NetOurNativeVLAN :: u16
  NetIPID :: u32
  PingSeqNo :: u16
  NetState :: net_loop
  NetArpWaitPacketIP :: u32
  NetArpWaitReplyIP :: u32
  NetArpWaitPacketMAC :: ether_ptr
  NetArpWaitTxPacket :: "u8 list"
  NetArpWaitTimerStart :: u32
  NetArpWaitTry :: int
  timeHandler :: "time_handler option"
  timeStart :: u32
  timeDelta :: u32
  packetHandler :: rx_handler
  NetBootFileXferSize :: u32
  env_vars :: vars
  eth_sent :: "u8 list list"

definition ETHER_HDR_SIZE :: int where "ETHER_HDR_SIZE = 14"
definition E802_HDR_SIZE :: int where "E802_HDR_SIZE = 22"
definition VLAN_ETHER_HDR_SIZE :: int where "VLAN_ETHER_HDR_SIZE = 18"
definition PROT_IP :: u16 where "PROT_IP = 0x0800"
definition PROT_ARP :: u16 where "PROT_ARP = 0x0806"
definition PROT_RARP :: u16 where "PROT_RARP = 0x8035"
definition PROT_VLAN :: u16 where "PROT_VLAN = 0x8100"
definition IP_HDR_SIZE :: nat where "IP_HDR_SIZE = 28"
definition IP_HDR_SIZE_NO_UDP :: nat where "IP_HDR_SIZE_NO_UDP = 20"
definition ARP_HDR_SIZE :: int where "ARP_HDR_SIZE = 8 + 20"
definition VLAN_NONE :: u16 where "VLAN_NONE = 4095"
definition VLAN_IDMASK :: u16 where "VLAN_IDMASK = 0x0fff"
definition ARP_TIMEOUT :: u32 where "ARP_TIMEOUT = 100"
definition ARP_TIMEOUT_COUNT :: int where "ARP_TIMEOUT_COUNT = 5"
definition NetBcastAddr :: "u8 list" where "NetBcastAddr = replicate 6 0xff"
definition NetEtherNullAddr :: "u8 list" where "NetEtherNullAddr = replicate 6 0"

section \<open>Bytes\<close>

definition be16 :: "u8 \<Rightarrow> u8 \<Rightarrow> u16" where
  "be16 hi lo = push_bit 8 (ucast hi) OR ucast lo"

definition bytes_be16 :: "u16 \<Rightarrow> u8 list" where
  "bytes_be16 w = [ucast (drop_bit 8 w), ucast w]"

definition ntohs_at :: "mem \<Rightarrow> addr \<Rightarrow> u16" where
  "ntohs_at m p = be16 (m p) (m (p + 1))"

definition NetReadIP :: "mem \<Rightarrow> addr \<Rightarrow> u32" where
  "NetReadIP m p = be32 (m p) (m (p + 1)) (m (p + 2)) (m (p + 3))"

section \<open>Checksums\<close>

fun sum16 :: "u8 list \<Rightarrow> u32 \<Rightarrow> u32" where
  "sum16 (hi # lo # ptr) xsum = sum16 ptr (xsum + ucast (be16 hi lo))"
| "sum16 _ xsum = xsum"

text \<open>The argument is the list of the \<open>2 * len\<close> bytes at \<open>ptr\<close>.\<close>

definition NetCksum :: "u8 list \<Rightarrow> u32" where
  "NetCksum ptr =
     (let xsum = sum16 ptr 0;
          xsum = (xsum AND 0xffff) + drop_bit 16 xsum;
          xsum = (xsum AND 0xffff) + drop_bit 16 xsum
      in xsum AND 0xffff)"

definition NetCksumOk :: "u8 list \<Rightarrow> bool" where
  "NetCksumOk ptr \<longleftrightarrow> (NetCksum ptr + 1) AND 0xfffe = 0"

section \<open>Sending\<close>

definition eth_send :: "u8 list \<Rightarrow> 'a net_state_scheme \<Rightarrow> 'a net_state_scheme" where
  "eth_send pkt s = s\<lparr>eth_sent := eth_sent s @ [pkt]\<rparr>"

definition our_vlan :: "u16 \<Rightarrow> u16" where
  "our_vlan vlan = (if vlan = 0xFFFF then VLAN_NONE else vlan)"

definition NetEthHdrSize :: "'a net_state_scheme \<Rightarrow> int" where
  "NetEthHdrSize s =
     (if our_vlan (NetOurVLAN s) AND VLAN_IDMASK = VLAN_NONE then ETHER_HDR_SIZE else VLAN_ETHER_HDR_SIZE)"

text \<open>The bytes stored; their number is the result of the C function.\<close>

definition NetSetEther :: "'a net_state_scheme \<Rightarrow> u8 list \<Rightarrow> u16 \<Rightarrow> u8 list" where
  "NetSetEther s addr prot =
     addr @ NetOurEther s @
     (if our_vlan (NetOurVLAN s) AND VLAN_IDMASK = VLAN_NONE then bytes_be16 prot
      else bytes_be16 PROT_VLAN @ bytes_be16 (our_vlan (NetOurVLAN s) AND VLAN_IDMASK) @ bytes_be16 prot)"

definition NetSetIP :: "'a net_state_scheme \<Rightarrow> u32 \<Rightarrow> u16 \<Rightarrow> u16 \<Rightarrow> nat \<Rightarrow> u8 list \<times> 'a net_state_scheme" where
  "NetSetIP s dest dport sport len =
     (let front = [0x45, 0] @ bytes_be16 (of_nat (IP_HDR_SIZE + len)) @ bytes_be16 (ucast (NetIPID s)) @
            bytes_be16 0x4000 @ [255, 17];
          addresses = bytes_be32 (NetOurIP s) @ bytes_be32 dest;
          udp = bytes_be16 sport @ bytes_be16 dport @ bytes_be16 (of_nat (8 + len)) @ bytes_be16 0;
          ip_sum = ucast (NOT (NetCksum (front @ bytes_be16 0 @ addresses)))
      in (front @ bytes_be16 ip_sum @ addresses @ udp, s\<lparr>NetIPID := NetIPID s + 1\<rparr>))"

definition ArpRequest :: "'a net_state_scheme \<Rightarrow> 'a net_state_scheme" where
  "ArpRequest s =
     (let reply_ip =
        (if NetArpWaitPacketIP s AND NetOurSubnetMask s \<noteq> NetOurIP s AND NetOurSubnetMask s then
           if NetOurGatewayIP s = 0 then NetArpWaitPacketIP s else NetOurGatewayIP s
         else NetArpWaitPacketIP s);
          arp = bytes_be16 1 @ bytes_be16 PROT_IP @ [6, 4] @ bytes_be16 1 @
            NetOurEther s @ bytes_be32 (NetOurIP s) @ replicate 6 0 @ bytes_be32 reply_ip
      in eth_send (NetSetEther s NetBcastAddr PROT_ARP @ arp) (s\<lparr>NetArpWaitReplyIP := reply_ip\<rparr>))"

definition ether_at :: "'a net_state_scheme \<Rightarrow> ether_ptr \<Rightarrow> u8 list" where
  "ether_at s p = (case p of Ether_server \<Rightarrow> NetServerEther s | Ether_ping \<Rightarrow> ping_mac s | Ether_null \<Rightarrow> [])"

definition set_ether_at :: "'a net_state_scheme \<Rightarrow> ether_ptr \<Rightarrow> u8 list \<Rightarrow> 'a net_state_scheme" where
  "set_ether_at s p mac =
     (case p of Ether_server \<Rightarrow> s\<lparr>NetServerEther := mac\<rparr> | Ether_ping \<Rightarrow> s\<lparr>ping_mac := mac\<rparr> | Ether_null \<Rightarrow> s)"

text \<open>A packet to a host whose hardware address is not known waits for the answer to an ARP request.\<close>

definition NetSendUDPPacket ::
    "u32 \<Rightarrow> 'a net_state_scheme \<Rightarrow> ether_ptr \<Rightarrow> u32 \<Rightarrow> u16 \<Rightarrow> u16 \<Rightarrow> u8 list \<Rightarrow> 'a net_state_scheme" where
  "NetSendUDPPacket now s ether dest dport sport data =
     (let dest = (if dest = 0 then 0xFFFFFFFF else dest);
          mac = (if dest = 0xFFFFFFFF then NetBcastAddr else ether_at s ether);
          (hdr, s') = NetSetIP s dest dport sport (length data)
      in if mac = NetEtherNullAddr then
           ArpRequest (s'\<lparr>NetArpWaitPacketIP := dest, NetArpWaitPacketMAC := ether,
             NetArpWaitTxPacket := NetSetEther s mac PROT_IP @ hdr @ data,
             NetArpWaitTry := 1, NetArpWaitTimerStart := now\<rparr>)
         else eth_send (NetSetEther s mac PROT_IP @ hdr @ data) s')"

section \<open>Timeouts\<close>

definition NetSetHandler :: "rx_handler \<Rightarrow> 'a net_state_scheme \<Rightarrow> 'a net_state_scheme" where
  "NetSetHandler f s = s\<lparr>packetHandler := f\<rparr>"

definition NetSetTimeout :: "u32 \<Rightarrow> u32 \<Rightarrow> time_handler \<Rightarrow> 'a net_state_scheme \<Rightarrow> 'a net_state_scheme" where
  "NetSetTimeout now iv f s =
     (if iv = 0 then s\<lparr>timeHandler := None\<rparr> else s\<lparr>timeHandler := Some f, timeStart := now, timeDelta := iv\<rparr>)"

definition startAgainTimeout :: "'a net_state_scheme \<Rightarrow> 'a net_state_scheme" where
  "startAgainTimeout s = s\<lparr>NetState := NETLOOP_RESTART\<rparr>"

text \<open>Without \<open>CONFIG_NET_MULTI\<close> the value "once" of \<open>netretry\<close> has no effect.\<close>

definition NetStartAgain :: "u32 \<Rightarrow> 'a net_state_scheme \<Rightarrow> 'a net_state_scheme" where
  "NetStartAgain now s =
     (if map_of (env_vars s) (ascii ''netretry'') = Some (ascii ''no'') then s\<lparr>NetState := NETLOOP_FAIL\<rparr>
      else NetSetHandler Rx_start_again (NetSetTimeout now 10000 Th_start_again s))"

definition ArpTimeoutCheck :: "u32 \<Rightarrow> 'a net_state_scheme \<Rightarrow> 'a net_state_scheme" where
  "ArpTimeoutCheck now s =
     (if NetArpWaitPacketIP s = 0 then s
      else if now - NetArpWaitTimerStart s > ARP_TIMEOUT then
        let s = s\<lparr>NetArpWaitTry := NetArpWaitTry s + 1\<rparr>
        in if NetArpWaitTry s \<ge> ARP_TIMEOUT_COUNT then NetStartAgain now (s\<lparr>NetArpWaitTry := 0\<rparr>)
           else ArpRequest (s\<lparr>NetArpWaitTimerStart := now\<rparr>)
      else s)"

section \<open>Receiving\<close>

text \<open>The link layer: protocol, address and length of what follows, or \<open>None\<close> for a packet to drop.\<close>

definition eth_parse :: "'a net_state_scheme \<Rightarrow> addr \<Rightarrow> int \<Rightarrow> (u16 \<times> addr \<times> int) option" where
  "eth_parse s inpkt len =
     (let m = ram s;
          myvlanid = our_vlan (NetOurVLAN s);
          mynvlanid = our_vlan (NetOurNativeVLAN s);
          x = ntohs_at m (inpkt + 12)
      in if len < ETHER_HDR_SIZE then None
         else if x = PROT_VLAN \<and> len < VLAN_ETHER_HDR_SIZE then None
         else if x = PROT_VLAN \<and> NetOurVLAN s AND VLAN_IDMASK = VLAN_NONE then None
         else
           let (prot, ip, len, vlanid) =
             (if x < 1514 then (ntohs_at m (inpkt + 20), inpkt + 22, len - E802_HDR_SIZE, VLAN_NONE)
              else if x \<noteq> PROT_VLAN then (x, inpkt + 14, len - ETHER_HDR_SIZE, VLAN_NONE)
              else (ntohs_at m (inpkt + 16), inpkt + 18, len - VLAN_ETHER_HDR_SIZE,
                ntohs_at m (inpkt + 14) AND VLAN_IDMASK));
               vlanid = (if vlanid = VLAN_NONE then mynvlanid AND VLAN_IDMASK else vlanid)
           in if myvlanid AND VLAN_IDMASK \<noteq> VLAN_NONE \<and> vlanid \<noteq> myvlanid AND VLAN_IDMASK then None
              else Some (prot, ip, len))"

text \<open>The answer to an ARP request is written over it.\<close>

definition arp_reply :: "'a net_state_scheme \<Rightarrow> addr \<Rightarrow> addr \<Rightarrow> 'a net_state_scheme" where
  "arp_reply s inpkt arp =
     (let m = ram s;
          ether = NetSetEther s (load m (inpkt + 6) 6) PROT_ARP;
          m = overwrite m inpkt ether;
          m = overwrite m (arp + 6) (bytes_be16 2);
          m = overwrite m (arp + 18) (load m (arp + 8) 6);
          m = overwrite m (arp + 24) (load m (arp + 14) 4);
          m = overwrite m (arp + 8) (NetOurEther s);
          m = overwrite m (arp + 14) (bytes_be32 (NetOurIP s))
      in eth_send (load m inpkt (length ether + 28)) (s\<lparr>ram := m\<rparr>))"

definition receive_arp :: "'a net_state_scheme \<Rightarrow> addr \<Rightarrow> addr \<Rightarrow> int \<Rightarrow> 'a net_state_scheme" where
  "receive_arp s inpkt arp len =
     (let m = ram s;
          ar_op = ntohs_at m (arp + 6)
      in if len < ARP_HDR_SIZE then s
         else if ntohs_at m arp \<noteq> 1 \<or> ntohs_at m (arp + 2) \<noteq> PROT_IP \<or> m (arp + 4) \<noteq> 6 \<or> m (arp + 5) \<noteq> 4 then s
         else if NetOurIP s = 0 then s
         else if NetReadIP m (arp + 24) \<noteq> NetOurIP s then s
         else if ar_op = 1 then arp_reply s inpkt arp
         else if ar_op = 2 then
           if NetArpWaitPacketIP s = 0 \<or> NetArpWaitPacketMAC s = Ether_null then s
           else if NetReadIP m (arp + 14) = NetArpWaitReplyIP s then
             let mac = load m (arp + 8) 6;
                 s = set_ether_at s (NetArpWaitPacketMAC s) mac;
                 s = eth_send (mac @ drop 6 (NetArpWaitTxPacket s)) s
             in s\<lparr>NetArpWaitPacketIP := 0, NetArpWaitTxPacket := [], NetArpWaitPacketMAC := Ether_null\<rparr>
           else s
         else s)"

text \<open>The state after a RARP reply, and whether the handler is called.\<close>

definition receive_rarp :: "'a net_state_scheme \<Rightarrow> addr \<Rightarrow> int \<Rightarrow> bool \<times> 'a net_state_scheme" where
  "receive_rarp s arp len =
     (let m = ram s
      in if len < ARP_HDR_SIZE then (False, s)
         else if ntohs_at m (arp + 6) \<noteq> 4 \<or> ntohs_at m arp \<noteq> 1 \<or> ntohs_at m (arp + 2) \<noteq> PROT_IP \<or>
           m (arp + 4) \<noteq> 6 \<or> m (arp + 5) \<noteq> 4 then (False, s)
         else (True, s\<lparr>NetOurIP := NetReadIP m (arp + 24),
           NetServerIP := (if NetServerIP s = 0 then NetReadIP m (arp + 14) else NetServerIP s),
           NetServerEther := load m (arp + 8) 6\<rparr>))"

text \<open>The answer to an echo request is written over it, too.\<close>

definition icmp_echo_reply :: "'a net_state_scheme \<Rightarrow> addr \<Rightarrow> addr \<Rightarrow> nat \<Rightarrow> 'a net_state_scheme" where
  "icmp_echo_reply s inpkt ip len =
     (let m = ram s;
          m = overwrite m inpkt (load m (inpkt + 6) 6);
          m = overwrite m (inpkt + 6) (NetOurEther s);
          m = overwrite m (ip + 10) (bytes_be16 0);
          m = overwrite m (ip + 6) (bytes_be16 0);
          m = overwrite m (ip + 16) (load m (ip + 12) 4);
          m = overwrite m (ip + 12) (bytes_be32 (NetOurIP s));
          m = overwrite m (ip + 10) (bytes_be16 (ucast (NOT (NetCksum (load m ip 20)))));
          m = overwrite m (ip + 20) [0];
          m = overwrite m (ip + 22) (bytes_be16 0);
          m = overwrite m (ip + 22) (bytes_be16 (ucast (NOT (NetCksum (load m (ip + 20) ((len - 20) div 2 * 2))))))
      in eth_send (load m inpkt (14 + len)) (s\<lparr>ram := m\<rparr>))"

text \<open>Where a packet is passed on to the current handler: payload, ports and length.\<close>

type_synonym 's handler = "addr \<Rightarrow> u32 \<Rightarrow> u32 \<Rightarrow> u32 \<Rightarrow> 's \<Rightarrow> 's option"

definition receive_ip ::
    "'a net_state_scheme handler \<Rightarrow> 'a net_state_scheme \<Rightarrow> addr \<Rightarrow> addr \<Rightarrow> int \<Rightarrow> 'a net_state_scheme option" where
  "receive_ip handler s inpkt ip len =
     (let m = ram s;
          ip_len = ntohs_at m (ip + 2);
          tmp = NetReadIP m (ip + 16)
      in if (word_of_int len :: u32) < of_nat IP_HDR_SIZE then Some s
         else if len < uint ip_len then Some s
         else if m ip AND 0xf0 \<noteq> 0x40 then Some s
         else if ntohs_at m (ip + 6) AND 0x3fff \<noteq> 0 then Some s
         else if m ip AND 0x0f > 5 then Some s
         else if \<not> NetCksumOk (load m ip IP_HDR_SIZE_NO_UDP) then Some s
         else if NetOurIP s \<noteq> 0 \<and> tmp \<noteq> NetOurIP s \<and> tmp \<noteq> 0xFFFFFFFF then Some s
         else if m (ip + 9) = 1 then
           if m (ip + 20) = 0 then handler ip 0 0 0 s
           else if m (ip + 20) = 8 then Some (icmp_echo_reply s inpkt ip (unat ip_len))
           else Some s
         else if m (ip + 9) \<noteq> 17 then Some s
         else handler (ip + of_nat IP_HDR_SIZE) (ucast (ntohs_at m (ip + 22))) (ucast (ntohs_at m (ip + 20)))
           (ucast (ntohs_at m (ip + 24)) - 8) s)"

definition NetReceive ::
    "'a net_state_scheme handler \<Rightarrow> addr \<Rightarrow> int \<Rightarrow> 'a net_state_scheme \<Rightarrow> 'a net_state_scheme option" where
  "NetReceive handler inpkt len s =
     (case eth_parse s inpkt len of
        None \<Rightarrow> Some s
      | Some (prot, ip, len) \<Rightarrow>
          if prot = PROT_ARP then Some (receive_arp s inpkt ip len)
          else if prot = PROT_RARP then
            (case receive_rarp s ip len of (call, s) \<Rightarrow> if call then handler 0 0 0 0 s else Some s)
          else if prot = PROT_IP then receive_ip handler s inpkt ip len
          else Some s)"

section \<open>Specification\<close>

text \<open>The sum of the 16-bit words of a list of bytes.\<close>

fun word_sum :: "u8 list \<Rightarrow> nat" where
  "word_sum (hi # lo # xs) = unat (be16 hi lo) + word_sum xs"
| "word_sum _ = 0"

text \<open>The two foldings of the sum reduce it modulo 65535.\<close>

definition fold16 :: "nat \<Rightarrow> nat" where
  "fold16 n = n mod 65536 + n div 65536"

text \<open>Hosts on the same virtual network, ARP packets, and the host that is asked for the address of \<open>dest\<close>.\<close>

definition same_vlan :: "'a net_state_scheme \<Rightarrow> 'b net_state_scheme \<Rightarrow> bool" where
  "same_vlan s srv \<longleftrightarrow> our_vlan (NetOurVLAN s) AND VLAN_IDMASK = our_vlan (NetOurVLAN srv) AND VLAN_IDMASK"

definition arp_packet :: "u16 \<Rightarrow> u8 list \<Rightarrow> u32 \<Rightarrow> u8 list \<Rightarrow> u32 \<Rightarrow> u8 list" where
  "arp_packet ar_op sha spa tha tpa =
     bytes_be16 1 @ bytes_be16 PROT_IP @ [6, 4] @ bytes_be16 ar_op @ sha @ bytes_be32 spa @ tha @ bytes_be32 tpa"

definition arp_target :: "'a net_state_scheme \<Rightarrow> u32 \<Rightarrow> u32" where
  "arp_target s dest =
     (if dest AND NetOurSubnetMask s \<noteq> NetOurIP s AND NetOurSubnetMask s \<and> NetOurGatewayIP s \<noteq> 0
      then NetOurGatewayIP s else dest)"

text \<open>Two hosts to try the code on.\<close>

definition sample_host :: "u8 list \<Rightarrow> u32 \<Rightarrow> net_state" where
  "sample_host mac ip =
     \<lparr>ram = (\<lambda>_. 0), NetOurEther = mac, NetServerEther = replicate 6 0, ping_mac = replicate 6 0, NetOurIP = ip,
      NetServerIP = 0xc0a80264, NetOurGatewayIP = 0xc0a80264, NetOurSubnetMask = 0xffffff00, NetPingIP = 0,
      NetOurVLAN = 0xffff, NetOurNativeVLAN = 0xffff, NetIPID = 0, PingSeqNo = 0, NetState = NETLOOP_CONTINUE,
      NetArpWaitPacketIP = 0, NetArpWaitReplyIP = 0, NetArpWaitPacketMAC = Ether_null, NetArpWaitTxPacket = [],
      NetArpWaitTimerStart = 0, NetArpWaitTry = 0, timeHandler = None, timeStart = 0, timeDelta = 0,
      packetHandler = Rx_none, NetBootFileXferSize = 0, env_vars = [], eth_sent = []\<rparr>"

definition sample_board :: net_state where
  "sample_board = sample_host [0x08, 0, 0x3e, 0x26, 0x0a, 0x5b] 0xc0a802be"

definition sample_server :: net_state where
  "sample_server = sample_host [2, 0, 0, 0, 0, 1] 0xc0a80264"

text \<open>The server with a frame in its receive buffer.\<close>

definition sample_received :: "u8 list \<Rightarrow> net_state" where
  "sample_received frame = sample_server\<lparr>ram := overwrite (\<lambda>_. 0) 0x1000 frame\<rparr>"

section \<open>Bytes and words\<close>

lemma length_bytes_be16 [simp]: "length (bytes_be16 w) = 2"
  by (simp add: bytes_be16_def)

lemma be16_bytes_be16 [simp]: "be16 (ucast (drop_bit 8 w)) (ucast w) = w"
  by (rule bit_word_eqI) (auto simp: be16_def bit_simps)

lemma be16_value: "unat (be16 hi lo) = 256 * unat hi + unat lo"
proof -
  have "be16 hi lo = push_bit 8 (ucast hi) + ucast lo"
    unfolding be16_def by (subst disjunctive_add_eq_or [symmetric]) (auto intro!: bit_word_eqI simp: bit_simps dest!: bit_u8_bound)
  also have "\<dots> = of_nat (256 * unat hi + unat lo)"
    by (simp add: push_bit_eq_mult)
  finally have "be16 hi lo = of_nat (256 * unat hi + unat lo)" .
  then have "unat (be16 hi lo) = (256 * unat hi + unat lo) mod 2 ^ 16"
    by (simp only: unat_of_nat) simp
  then show ?thesis
    using unsigned_less [of hi, where ?'a = nat] unsigned_less [of lo, where ?'a = nat] by simp
qed

lemma word_sum_append: "even (length xs) \<Longrightarrow> word_sum (xs @ ys) = word_sum xs + word_sum ys"
  by (induction xs rule: word_sum.induct) auto

lemma word_sum_bytes_be16 [simp]: "word_sum (bytes_be16 w) = unat w"
  by (simp add: bytes_be16_def)

lemma word_sum_bound: "word_sum xs \<le> 65535 * (length xs div 2)"
proof (induction xs rule: word_sum.induct)
  case (1 hi lo xs)
  then show ?case
    using unsigned_less [of "be16 hi lo", where ?'a = nat] by simp
qed simp_all

lemma sum16_of_nat: "sum16 xs x = x + of_nat (word_sum xs)"
  by (induction xs x rule: sum16.induct) (simp_all add: unsigned_ucast_eq)

lemma take_bit_unat [simp]: "take_bit 32 (unat (x :: u32)) = unat x"
  using unsigned_less [of x, where ?'a = nat] by (simp add: take_bit_nat_eq_self)

lemma unat_not16: "unat (NOT (x :: u16)) = 65535 - unat x"
proof -
  have "NOT x = - 1 - x" by (simp add: not_eq_complement)
  then show ?thesis by (simp add: unat_sub unsigned_minus_1_eq_mask mask_eq_exp_minus_1)
qed

lemma and_ffff: "(x :: u32) AND 0xffff = take_bit 16 x"
  by (simp add: take_bit_eq_mask mask_eq_exp_minus_1)

lemma unat_and_ffff: "unat ((x :: u32) AND 0xffff) = unat x mod 65536"
  by (simp only: and_ffff unsigned_take_bit_eq) (simp add: take_bit_eq_mod)

lemma unat_drop_16: "unat (drop_bit 16 (x :: u32)) = unat x div 65536"
  by (simp only: unsigned_drop_bit_eq) (simp add: drop_bit_eq_div)

lemma unat_fold16: "unat ((x AND 0xffff) + drop_bit 16 (x :: u32)) = fold16 (unat x)"
proof -
  have "unat x div 65536 < 65536"
    using unsigned_less [of x, where ?'a = nat] by (simp add: less_mult_imp_div_less)
  moreover have "unat x mod 65536 < 65536" by simp
  ultimately have "unat x mod 65536 + unat x div 65536 < 2 ^ 32" by simp
  then show ?thesis
    unfolding fold16_def by (subst unat_word_ariths) (simp add: unat_and_ffff unat_drop_16)
qed

lemma fold16_mod: "fold16 n mod 65535 = n mod 65535"
proof -
  have "n = fold16 n + 65535 * (n div 65536)"
    by (simp add: fold16_def)
  then show ?thesis by (metis mod_mult_self2)
qed

lemma fold16_twice: "n < 2 ^ 32 \<Longrightarrow> fold16 (fold16 n) \<le> 65535"
proof -
  assume "n < 2 ^ 32"
  then have "n div 65536 \<le> 65535" by simp
  then have "fold16 n \<le> 131070" by (simp add: fold16_def)
  moreover have "fold16 k \<le> 65535" if "k \<le> 131070" for k
  proof (cases "k < 65536")
    case True
    then show ?thesis by (simp add: fold16_def)
  next
    case False
    then have "k div 65536 = 1" using that by (intro div_nat_eqI) simp_all
    then show ?thesis
      using that mod_div_mult_eq [of k 65536] by (simp add: fold16_def)
  qed
  ultimately show ?thesis by blast
qed

lemma fold16_eq_0: "fold16 n = 0 \<longleftrightarrow> n = 0"
  by (auto simp: fold16_def)

lemma NetCksum_value:
  assumes "length xs \<le> 131072"
  shows "unat (NetCksum xs) = fold16 (fold16 (word_sum xs))"
proof -
  have "word_sum xs < 2 ^ 32"
    using word_sum_bound [of xs] assms by simp
  then have v: "unat (sum16 xs 0) = word_sum xs"
    by (simp add: sum16_of_nat unat_of_nat)
  define y where "y = (sum16 xs 0 AND 0xffff) + drop_bit 16 (sum16 xs 0)"
  define z where "z = (y AND 0xffff) + drop_bit 16 y"
  have "unat z = fold16 (fold16 (word_sum xs))"
    by (simp add: z_def y_def unat_fold16 v)
  moreover have "NetCksum xs = z AND 0xffff"
    by (simp add: NetCksum_def z_def y_def Let_def)
  ultimately show ?thesis
    using fold16_twice [OF \<open>word_sum xs < 2 ^ 32\<close>] by (simp add: unat_and_ffff)
qed

lemma NetCksum_bound: "length xs \<le> 131072 \<Longrightarrow> unat (NetCksum xs) \<le> 65535"
  using fold16_twice [of "word_sum xs"] word_sum_bound [of xs] by (simp add: NetCksum_value)

lemma NetCksum_mod: "length xs \<le> 131072 \<Longrightarrow> unat (NetCksum xs) mod 65535 = word_sum xs mod 65535"
  by (simp add: NetCksum_value fold16_mod)

lemma and_fffe_eq_0: "(w :: u32) AND 0xfffe = 0 \<longleftrightarrow> (unat w div 2) mod 32768 = 0"
proof -
  have f: "(0xfffe :: u32) = push_bit 1 (mask 15)"
    by (simp add: mask_eq_exp_minus_1)
  have b: "bit (0xfffe :: u32) n \<longleftrightarrow> 1 \<le> n \<and> n < 16" for n
    by (simp only: f bit_push_bit_iff bit_mask_iff) auto
  have "w AND 0xfffe = 0 \<longleftrightarrow> (\<forall>n. \<not> (bit w n \<and> 1 \<le> n \<and> n < 16))"
  proof
    assume "w AND 0xfffe = 0"
    then have "\<not> bit (w AND 0xfffe) n" for n by simp
    then show "\<forall>n. \<not> (bit w n \<and> 1 \<le> n \<and> n < 16)" by (simp only: bit_and_iff b) blast
  next
    assume "\<forall>n. \<not> (bit w n \<and> 1 \<le> n \<and> n < 16)"
    then show "w AND 0xfffe = 0" by (intro bit_word_eqI) (simp only: bit_and_iff b bit_0_eq bot_apply bot_bool_def; blast)
  qed
  also have "\<dots> \<longleftrightarrow> (\<forall>n. \<not> (n < 15 \<and> bit w (Suc n)))"
  proof (intro iffI allI notI)
    fix n assume "\<forall>n. \<not> (n < 15 \<and> bit w (Suc n))" and n: "bit w n \<and> 1 \<le> n \<and> n < 16"
    then have "\<not> (n - 1 < 15 \<and> bit w (Suc (n - 1)))" by blast
    moreover have "n - 1 < 15" using n by arith
    ultimately show False using n by simp
  next
    fix n assume "\<forall>n. \<not> (bit w n \<and> 1 \<le> n \<and> n < 16)" and "n < 15 \<and> bit w (Suc n)"
    then show False by (auto dest: spec [of _ "Suc n"])
  qed
  also have "\<dots> \<longleftrightarrow> take_bit 15 (drop_bit 1 w) = 0"
    by (auto simp: bit_eq_iff bit_simps)
  also have "\<dots> \<longleftrightarrow> take_bit 15 (drop_bit 1 (unat w)) = 0"
    by (simp only: unat_eq_0 [symmetric] unsigned_take_bit_eq unsigned_drop_bit_eq) simp
  finally show ?thesis
    by (simp add: take_bit_eq_mod drop_bit_eq_div)
qed

lemma NetCksumOk_iff:
  assumes "length xs \<le> 131072"
  shows "NetCksumOk xs \<longleftrightarrow> 65535 dvd word_sum xs"
proof -
  define c where "c = unat (NetCksum xs)"
  have c: "c \<le> 65535" "c mod 65535 = word_sum xs mod 65535"
    using NetCksum_bound [OF assms] NetCksum_mod [OF assms] by (simp_all add: c_def)
  have "unat (NetCksum xs + 1) = c + 1"
    using unat_plus_of_nat [of "NetCksum xs" 1] c(1) by (simp add: c_def)
  then have "NetCksumOk xs \<longleftrightarrow> ((c + 1) div 2) mod 32768 = 0"
    by (simp add: NetCksumOk_def and_fffe_eq_0)
  also have "\<dots> \<longleftrightarrow> c mod 65535 = 0"
  proof (cases "c = 65535")
    case False
    then have "c < 65535" using c(1) by simp
    then show ?thesis by (auto simp: div_eq_0_iff)
  qed simp
  finally show ?thesis using c(2) by (simp add: mod_eq_0_iff_dvd [symmetric])
qed

lemma checksummed_ok:
  assumes "even (length xs)" and "even (length ys)" and "length (xs @ ys) \<le> 1000"
  shows "NetCksumOk (xs @ bytes_be16 (ucast (NOT (NetCksum (xs @ bytes_be16 0 @ ys)))) @ ys)"
proof -
  let ?old = "xs @ bytes_be16 0 @ ys"
  let ?c = "NetCksum ?old"
  have len: "length ?old \<le> 131072" using assms(3) by simp
  have c: "unat ?c \<le> 65535" by (rule NetCksum_bound [OF len])
  have "word_sum ?old = word_sum xs + word_sum ys"
    using assms by (simp add: word_sum_append)
  then have m: "unat ?c mod 65535 = (word_sum xs + word_sum ys) mod 65535"
    using NetCksum_mod [OF len] by simp
  have k: "(ucast (NOT ?c) :: u16) = NOT (ucast ?c)"
    by (rule bit_word_eqI) (simp add: bit_simps)
  have "unat (ucast ?c :: u16) = unat ?c"
    using c by (simp add: unsigned_ucast_eq take_bit_eq_mod)
  then have n: "unat (ucast (NOT ?c) :: u16) = 65535 - unat ?c"
    by (simp only: k unat_not16)
  have "(65535 - unat ?c + (word_sum xs + word_sum ys)) mod 65535 = (65535 - unat ?c + unat ?c) mod 65535"
    by (rule mod_add_cong) (simp_all only: m)
  then have "65535 dvd (65535 - unat ?c) + (word_sum xs + word_sum ys)"
    using c by (simp add: mod_eq_0_iff_dvd [symmetric])
  then show ?thesis
    using assms by (subst NetCksumOk_iff) (simp_all add: word_sum_append n ac_simps)
qed

section \<open>Headers\<close>

text \<open>The fields of a header built by \<open>NetSetIP\<close>, where a receiver finds them.\<close>

lemma length_NetSetIP [simp]: "length (fst (NetSetIP srv dest dport sport n)) = 28"
  by (simp add: NetSetIP_def Let_def)

lemma NetSetIP_fields:
  assumes "load m ip 28 = fst (NetSetIP srv dest dport sport n)"
  shows "m ip = 0x45" "ntohs_at m (ip + 2) = of_nat (28 + n)" "ntohs_at m (ip + 6) = 0x4000" "m (ip + 9) = 17"
    "NetReadIP m (ip + 16) = dest" "ntohs_at m (ip + 20) = sport" "ntohs_at m (ip + 22) = dport"
    "ntohs_at m (ip + 24) = of_nat (8 + n)"
proof -
  note hdr = NetSetIP_def Let_def bytes_be16_def bytes_be32_def
  note f = load_nth_eq [OF assms]
  show "m ip = 0x45" "m (ip + 9) = 17"
    using f [of 0] f [of 9] by (simp_all add: hdr)
  show "ntohs_at m (ip + 2) = of_nat (28 + n)"
    using f [of 2] f [of 3] by (simp add: hdr ntohs_at_def IP_HDR_SIZE_def add.assoc)
  show "ntohs_at m (ip + 6) = 0x4000"
    using f [of 6] f [of 7] by (simp add: hdr ntohs_at_def add.assoc be16_def)
  show "NetReadIP m (ip + 16) = dest"
    using f [of 16] f [of 17] f [of 18] f [of 19] by (simp add: hdr NetReadIP_def add.assoc)
  show "ntohs_at m (ip + 20) = sport"
    using f [of 20] f [of 21] by (simp add: hdr ntohs_at_def add.assoc)
  show "ntohs_at m (ip + 22) = dport"
    using f [of 22] f [of 23] by (simp add: hdr ntohs_at_def add.assoc)
  show "ntohs_at m (ip + 24) = of_nat (8 + n)"
    using f [of 24] f [of 25] by (simp add: hdr ntohs_at_def add.assoc)
qed

lemma NetSetIP_checksum:
  assumes "load m ip 28 = fst (NetSetIP srv dest dport sport n)"
  shows "NetCksumOk (load m ip 20)"
proof -
  define front where "front = [0x45, 0] @ bytes_be16 (of_nat (IP_HDR_SIZE + n)) @ bytes_be16 (ucast (NetIPID srv)) @
            bytes_be16 0x4000 @ [255, 17]"
  define addresses where "addresses = bytes_be32 (NetOurIP srv) @ bytes_be32 dest"
  have len: "length front = 10" "length addresses = 8"
    by (simp_all add: front_def addresses_def)
  have "load m ip 20 = take 20 (fst (NetSetIP srv dest dport sport n))"
    by (rule load_take [OF assms]) simp
  also have "\<dots> = front @ bytes_be16 (ucast (NOT (NetCksum (front @ bytes_be16 0 @ addresses)))) @ addresses"
    by (simp add: NetSetIP_def Let_def front_def addresses_def)
  finally show ?thesis
    using checksummed_ok [of front addresses] len by simp
qed

lemma ucast_of_nat16: "n < 65536 \<Longrightarrow> (ucast (of_nat n :: u16) :: u32) = of_nat n"
  by (simp add: word_unat_eq_iff unsigned_ucast_eq unat_of_nat take_bit_eq_mod)

lemma receive_ip_udp:
  assumes hdr: "load (ram s) ip 28 = fst (NetSetIP srv dest dport sport n)"
    and n: "28 + n < 65536" and len: "28 + int n \<le> len" "len < 2 ^ 31"
    and ours: "NetOurIP s = 0 \<or> dest = NetOurIP s \<or> dest = 0xFFFFFFFF"
  shows "receive_ip h s inpkt ip len = h (ip + 28) (ucast dport) (ucast sport) (of_nat n) s"
proof -
  note f = NetSetIP_fields [OF hdr]
  have "unat (word_of_int len :: u32) = nat len"
    using len by (simp add: unat_eq_nat_uint uint_word_of_int)
  then have "\<not> (word_of_int len :: u32) < of_nat IP_HDR_SIZE"
    using len by (simp add: word_less_nat_alt IP_HDR_SIZE_def)
  moreover have "uint (of_nat (28 + n) :: u16) = 28 + int n"
    using n by (simp add: uint_nat unat_of_nat del: of_nat_add)
  moreover have "NetCksumOk (load (ram s) ip IP_HDR_SIZE_NO_UDP)"
    using NetSetIP_checksum [OF hdr] by (simp add: IP_HDR_SIZE_NO_UDP_def)
  moreover have "(ucast (of_nat (8 + n) :: u16) :: u32) - 8 = of_nat n"
    using n ucast_of_nat16 [of "8 + n"] by simp
  moreover have "(0x4000 :: u16) AND 0x3fff = 0" "(0x45 :: u8) AND 0xf0 = 0x40" "(0x45 :: u8) AND 0x0f = 5"
    by simp_all
  ultimately show ?thesis
    using len ours unfolding receive_ip_def Let_def f
    by (simp del: of_nat_add add: IP_HDR_SIZE_def) blast
qed

text \<open>The link layer of a frame headed by \<open>NetSetEther\<close>, between hosts on the same virtual network.\<close>

lemma idmask_vlan: "our_vlan v AND VLAN_IDMASK = v AND VLAN_IDMASK"
  by (simp add: our_vlan_def VLAN_IDMASK_def VLAN_NONE_def)

lemma length_NetSetEther:
  "length mac = 6 \<Longrightarrow> length (NetOurEther srv) = 6 \<Longrightarrow> length (NetSetEther srv mac prot) = nat (NetEthHdrSize srv)"
  by (simp add: NetSetEther_def NetEthHdrSize_def ETHER_HDR_SIZE_def VLAN_ETHER_HDR_SIZE_def)

lemma eth_parse_NetSetEther:
  assumes hdr: "load (ram s) inpkt (length (NetSetEther srv mac prot)) = NetSetEther srv mac prot"
    and macs: "length mac = 6" "length (NetOurEther srv) = 6"
    and vlan: "same_vlan s srv"
    and prot: "1514 \<le> prot" "prot \<noteq> PROT_VLAN"
    and len: "NetEthHdrSize srv \<le> len"
  shows "eth_parse s inpkt len = Some (prot, inpkt + word_of_int (NetEthHdrSize srv), len - NetEthHdrSize srv)"
proof -
  define v where "v = our_vlan (NetOurVLAN srv) AND VLAN_IDMASK"
  note f = load_nth_eq [OF hdr]
  have nth: "NetSetEther srv mac prot ! (12 + i) =
     (if v = VLAN_NONE then bytes_be16 prot else bytes_be16 PROT_VLAN @ bytes_be16 v @ bytes_be16 prot) ! i" for i
    using macs by (simp add: NetSetEther_def nth_append v_def)
  show ?thesis
  proof (cases "v = VLAN_NONE")
    case True
    then have e: "NetEthHdrSize srv = 14" by (simp add: NetEthHdrSize_def ETHER_HDR_SIZE_def v_def)
    have "ntohs_at (ram s) (inpkt + 12) = prot"
      using f [of 12] f [of 13] nth [of 0] nth [of 1] True macs length_NetSetEther [OF macs, of prot] e
      by (simp add: ntohs_at_def add.assoc bytes_be16_def)
    then show ?thesis
      using prot len vlan True unfolding e
      by (simp add: eth_parse_def same_vlan_def ETHER_HDR_SIZE_def Let_def v_def)
  next
    case False
    then have e: "NetEthHdrSize srv = 18" by (simp add: NetEthHdrSize_def VLAN_ETHER_HDR_SIZE_def v_def)
    have x: "ntohs_at (ram s) (inpkt + 12) = PROT_VLAN" "ntohs_at (ram s) (inpkt + 14) = v" "ntohs_at (ram s) (inpkt + 16) = prot"
      using f [of 12] f [of 13] f [of 14] f [of 15] f [of 16] f [of 17] nth [of 0] nth [of 1] nth [of 2] nth [of 3] nth [of 4] nth [of 5]
        False macs length_NetSetEther [OF macs, of prot] e
      by (simp_all add: ntohs_at_def add.assoc bytes_be16_def)
    have "v AND VLAN_IDMASK = v"
      by (simp add: v_def and.assoc)
    moreover have "v \<noteq> VLAN_NONE" "NetOurVLAN s AND VLAN_IDMASK = v"
      using False vlan by (simp_all add: v_def same_vlan_def idmask_vlan)
    moreover have "\<not> PROT_VLAN < 1514" by (simp add: PROT_VLAN_def)
    ultimately show ?thesis
      using prot len unfolding e
      by (simp add: eth_parse_def x idmask_vlan ETHER_HDR_SIZE_def VLAN_ETHER_HDR_SIZE_def Let_def)
  qed
qed

lemma NetReceive_udp:
  assumes frame: "load (ram s) inpkt (length frame) = frame"
      "frame = NetSetEther srv mac PROT_IP @ fst (NetSetIP srv dest dport sport (length data)) @ data"
    and macs: "length mac = 6" "length (NetOurEther srv) = 6"
    and vlan: "same_vlan s srv"
    and size: "28 + length data < 65536" "int (length frame) \<le> len" "len < 2 ^ 31"
    and ours: "NetOurIP s = 0 \<or> dest = NetOurIP s \<or> dest = 0xFFFFFFFF"
  shows "NetReceive h inpkt len s =
      h (inpkt + word_of_int (NetEthHdrSize srv) + 28) (ucast dport) (ucast sport) (of_nat (length data)) s"
    and "load (ram s) (inpkt + word_of_int (NetEthHdrSize srv) + 28) (length data) = data"
proof -
  let ?e = "NetSetEther srv mac PROT_IP" and ?h = "fst (NetSetIP srv dest dport sport (length data))"
  let ?ip = "inpkt + word_of_int (NetEthHdrSize srv)"
  have size_cases: "NetEthHdrSize srv = 14 \<or> NetEthHdrSize srv = 18"
    by (simp add: NetEthHdrSize_def ETHER_HDR_SIZE_def VLAN_ETHER_HDR_SIZE_def)
  then have pos: "0 \<le> NetEthHdrSize srv" by auto
  have l: "length ?e = nat (NetEthHdrSize srv)"
    by (rule length_NetSetEther [OF macs])
  have w: "of_nat (length ?e) = (word_of_int (NetEthHdrSize srv) :: u32)"
    unfolding l using size_cases by (elim disjE) simp_all
  note e = load_prefix [OF frame(1) [unfolded frame(2)], unfolded w]
  note h = load_prefix [OF e(2)]
  have hdr: "load (ram s) ?ip 28 = ?h" using h(1) by simp
  show "load (ram s) (?ip + 28) (length data) = data"
    using h(2) by simp
  have total: "int (length frame) = NetEthHdrSize srv + 28 + int (length data)"
    unfolding frame(2) using l pos by simp
  have "eth_parse s inpkt len = Some (PROT_IP, ?ip, len - NetEthHdrSize srv)"
    by (rule eth_parse_NetSetEther [OF e(1) macs vlan]) (use size(2) total in \<open>simp_all add: PROT_IP_def PROT_VLAN_def\<close>)
  moreover have "receive_ip h s inpkt ?ip (len - NetEthHdrSize srv) =
      h (?ip + 28) (ucast dport) (ucast sport) (of_nat (length data)) s"
    by (rule receive_ip_udp [OF hdr size(1) _ _ ours]) (use size total pos in simp_all)
  moreover have "PROT_IP \<noteq> PROT_ARP" "PROT_IP \<noteq> PROT_RARP"
    by (simp_all add: PROT_IP_def PROT_ARP_def PROT_RARP_def)
  ultimately show "NetReceive h inpkt len s =
      h (?ip + 28) (ucast dport) (ucast sport) (of_nat (length data)) s"
    by (simp add: NetReceive_def)
qed

section \<open>ARP\<close>

lemma arp_packet_fields:
  assumes "load m arp 28 = arp_packet ar_op sha spa tha tpa" and "length sha = 6" and "length tha = 6"
  shows "ntohs_at m arp = 1" "ntohs_at m (arp + 2) = PROT_IP" "m (arp + 4) = 6" "m (arp + 5) = 4"
    "ntohs_at m (arp + 6) = ar_op" "load m (arp + 8) 6 = sha" "NetReadIP m (arp + 14) = spa"
    "NetReadIP m (arp + 24) = tpa"
proof -
  note f = load_nth_eq [OF assms(1)]
  note pkt = arp_packet_def bytes_be16_def bytes_be32_def nth_append assms(2,3)
  show "ntohs_at m arp = 1"
    using f [of 0] f [of 1] by (simp add: pkt ntohs_at_def be16_def)
  show "ntohs_at m (arp + 2) = PROT_IP"
    using f [of 2] f [of 3] by (simp add: pkt ntohs_at_def add.assoc)
  show "m (arp + 4) = 6" "m (arp + 5) = 4"
    using f [of 4] f [of 5] by (simp_all add: pkt)
  show "ntohs_at m (arp + 6) = ar_op"
    using f [of 6] f [of 7] by (simp add: pkt ntohs_at_def add.assoc)
  show "load m (arp + 8) 6 = sha"
    using load_part [of 8 6 28 m arp] assms by (simp add: arp_packet_def)
  show "NetReadIP m (arp + 14) = spa"
    using f [of 14] f [of 15] f [of 16] f [of 17] by (simp add: pkt NetReadIP_def add.assoc)
  show "NetReadIP m (arp + 24) = tpa"
    using f [of 24] f [of 25] f [of 26] f [of 27] by (simp add: pkt NetReadIP_def add.assoc)
qed


lemma packet_update:
  assumes "load m inpkt e = E" and "load m (inpkt + of_nat e) n = X" and "k + length ys \<le> n" and "e + n \<le> 2 ^ 32"
  shows "load (overwrite m (inpkt + of_nat e + of_nat k) ys) inpkt e = E"
    and "load (overwrite m (inpkt + of_nat e + of_nat k) ys) (inpkt + of_nat e) n =
      take k X @ ys @ drop (k + length ys) X"
proof -
  have X: "load m inpkt (e + n) = E @ X" and E: "length E = e"
    using assms(1,2) by (auto simp: load_add)
  have "load (overwrite m (inpkt + of_nat (e + k)) ys) inpkt (e + n) = E @ take k X @ ys @ drop (k + length ys) X"
    using load_overwrite_mid [of "e + k" ys "e + n" m inpkt] assms(3,4) E unfolding X by simp
  then show "load (overwrite m (inpkt + of_nat e + of_nat k) ys) inpkt e = E"
    and "load (overwrite m (inpkt + of_nat e + of_nat k) ys) (inpkt + of_nat e) n =
      take k X @ ys @ drop (k + length ys) X"
    using E by (simp_all add: load_add add.assoc append_eq_append_conv)
qed

lemma arp_reply_frame:
  fixes s :: "'a net_state_scheme" and inpkt :: addr
  defines "E \<equiv> NetSetEther s (load (ram s) (inpkt + 6) 6) PROT_ARP"
  assumes req: "load (ram s) (inpkt + of_nat (length E)) 28 = arp_packet 1 sha spa tha tpa"
    and macs: "length sha = 6" "length tha = 6" "length (NetOurEther s) = 6"
  shows "\<exists>m. arp_reply s inpkt (inpkt + of_nat (length E)) =
    eth_send (E @ arp_packet 2 (NetOurEther s) (NetOurIP s) sha spa) (s\<lparr>ram := m\<rparr>)"
proof -
  define arp where "arp = inpkt + of_nat (length E)"
  have e: "length E \<le> 18"
    unfolding E_def using macs(3) by (simp add: NetSetEther_def)
  define m0 where "m0 = overwrite (ram s) inpkt E"
  define m1 where "m1 = overwrite m0 (arp + 6) (bytes_be16 2)"
  define m2 where "m2 = overwrite m1 (arp + 18) (load m1 (arp + 8) 6)"
  define m3 where "m3 = overwrite m2 (arp + 24) (load m2 (arp + 14) 4)"
  define m4 where "m4 = overwrite m3 (arp + 8) (NetOurEther s)"
  define m5 where "m5 = overwrite m4 (arp + 14) (bytes_be32 (NetOurIP s))"
  have up: "load (overwrite m (arp + of_nat k) ys) inpkt (length E) = E \<and>
      load (overwrite m (arp + of_nat k) ys) arp 28 = take k X @ ys @ drop (k + length ys) X"
    if "load m inpkt (length E) = E \<and> load m arp 28 = X" "k + length ys \<le> 28" for m k ys X
    using packet_update [of m inpkt "length E" E 28 X k ys] that e by (simp add: arp_def)
  have "load m0 inpkt (length E + 28) = E @ arp_packet 1 sha spa tha tpa"
    using load_overwrite_mid [of 0 E "length E + 28" "ram s" inpkt] e req by (simp add: m0_def load_add)
  then have 0: "load m0 inpkt (length E) = E \<and> load m0 arp 28 = arp_packet 1 sha spa tha tpa"
    by (simp add: load_add arp_def append_eq_append_conv)
  have 1: "load m1 inpkt (length E) = E \<and> load m1 arp 28 = arp_packet 2 sha spa tha tpa"
    using up [OF 0, of 6 "bytes_be16 2"] by (simp add: m1_def arp_packet_def macs)
  have "load m1 (arp + 8) 6 = sha"
    by (rule arp_packet_fields(6) [OF conjunct2 [OF 1]]) (rule macs)+
  then have 2: "load m2 inpkt (length E) = E \<and> load m2 arp 28 = arp_packet 2 sha spa sha tpa"
    using up [OF 1, of 18 sha] by (simp add: m2_def arp_packet_def macs)
  have "load m2 (arp + 14) 4 = bytes_be32 spa"
    using load_part [of 14 4 28 m2 arp] 2 macs by (simp add: arp_packet_def)
  then have 3: "load m3 inpkt (length E) = E \<and> load m3 arp 28 = arp_packet 2 sha spa sha spa"
    using up [OF 2, of 24 "bytes_be32 spa"] by (simp add: m3_def arp_packet_def macs)
  have 4: "load m4 inpkt (length E) = E \<and> load m4 arp 28 = arp_packet 2 (NetOurEther s) spa sha spa"
    using up [OF 3, of 8 "NetOurEther s"] by (simp add: m4_def arp_packet_def macs)
  have 5: "load m5 inpkt (length E) = E \<and> load m5 arp 28 = arp_packet 2 (NetOurEther s) (NetOurIP s) sha spa"
    using up [OF 4, of 14 "bytes_be32 (NetOurIP s)"] by (simp add: m5_def arp_packet_def macs)
  then have "load m5 inpkt (length E + 28) = E @ arp_packet 2 (NetOurEther s) (NetOurIP s) sha spa"
    by (simp add: load_add arp_def)
  then have "arp_reply s inpkt arp = eth_send (E @ arp_packet 2 (NetOurEther s) (NetOurIP s) sha spa) (s\<lparr>ram := m5\<rparr>)"
    unfolding arp_reply_def Let_def E_def [symmetric] m0_def [symmetric] m1_def [symmetric] m2_def [symmetric]
      m3_def [symmetric] m4_def [symmetric] m5_def [symmetric] by simp
  then show ?thesis unfolding arp_def by blast
qed

lemma length_arp_packet [simp]: "length sha = 6 \<Longrightarrow> length tha = 6 \<Longrightarrow> length (arp_packet op sha spa tha tpa) = 28"
  by (simp add: arp_packet_def)

lemma NetEthHdrSize_cases: "NetEthHdrSize s = 14 \<or> NetEthHdrSize s = 18"
  by (simp add: NetEthHdrSize_def ETHER_HDR_SIZE_def VLAN_ETHER_HDR_SIZE_def)

lemma of_nat_length_NetSetEther:
  assumes "length mac = 6" "length (NetOurEther srv) = 6"
  shows "of_nat (length (NetSetEther srv mac prot)) = (word_of_int (NetEthHdrSize srv) :: u32)"
    and "int (length (NetSetEther srv mac prot)) = NetEthHdrSize srv"
  using NetEthHdrSize_cases [of srv] length_NetSetEther [OF assms] by (elim disjE; simp)+

text \<open>An ARP frame in memory: \<open>NetReceive\<close> passes its packet to \<open>receive_arp\<close>.\<close>

lemma NetReceive_arp:
  assumes frame: "load (ram s) inpkt (length frame) = frame" "frame = NetSetEther srv mac PROT_ARP @ pkt"
    and macs: "length mac = 6" "length (NetOurEther srv) = 6" and vlan: "same_vlan s srv"
    and size: "length pkt = 28" "int (length frame) \<le> len"
  obtains ip where "NetReceive h inpkt len s = Some (receive_arp s inpkt ip (len - NetEthHdrSize srv))"
    and "load (ram s) ip 28 = pkt" and "ip = inpkt + word_of_int (NetEthHdrSize srv)"
    and "load (ram s) (inpkt + 6) 6 = NetOurEther srv" and "ARP_HDR_SIZE \<le> len - NetEthHdrSize srv"
proof
  let ?ip = "inpkt + word_of_int (NetEthHdrSize srv)"
  note l = of_nat_length_NetSetEther [OF macs, of PROT_ARP]
  note e = load_prefix [OF frame(1) [unfolded frame(2)], unfolded l(1)]
  show "load (ram s) ?ip 28 = pkt" using e(2) size(1) by simp
  have total: "int (length frame) = NetEthHdrSize srv + 28"
    unfolding frame(2) using l(2) size(1) by simp
  then show "ARP_HDR_SIZE \<le> len - NetEthHdrSize srv"
    using size(2) by (simp add: ARP_HDR_SIZE_def)
  have "12 \<le> length (NetSetEther srv mac PROT_ARP)"
    using macs by (simp add: NetSetEther_def)
  then show "load (ram s) (inpkt + 6) 6 = NetOurEther srv"
    using load_part [of 6 6 "length (NetSetEther srv mac PROT_ARP)" "ram s" inpkt] macs unfolding e(1)
    by (simp add: NetSetEther_def)
  have "eth_parse s inpkt len = Some (PROT_ARP, ?ip, len - NetEthHdrSize srv)"
    by (rule eth_parse_NetSetEther [OF e(1) macs vlan]) (use size(2) total in \<open>simp_all add: PROT_ARP_def PROT_VLAN_def\<close>)
  then show "NetReceive h inpkt len s = Some (receive_arp s inpkt ?ip (len - NetEthHdrSize srv))"
    by (simp add: NetReceive_def)
qed simp

lemma same_vlan_size: "same_vlan s srv \<Longrightarrow> NetEthHdrSize s = NetEthHdrSize srv"
  by (simp add: same_vlan_def NetEthHdrSize_def)

lemma arp_request_answered:
  assumes frame: "load (ram s) inpkt (length frame) = frame"
      "frame = NetSetEther cl NetBcastAddr PROT_ARP @ arp_packet 1 (NetOurEther cl) cip (replicate 6 0) (NetOurIP s)"
    and macs: "length (NetOurEther s) = 6" "length (NetOurEther cl) = 6" and vlan: "same_vlan s cl"
    and len: "int (length frame) \<le> len" and ip: "NetOurIP s \<noteq> 0"
  shows "\<exists>m. NetReceive h inpkt len s = Some (eth_send
    (NetSetEther s (NetOurEther cl) PROT_ARP @ arp_packet 2 (NetOurEther s) (NetOurIP s) (NetOurEther cl) cip)
    (s\<lparr>ram := m\<rparr>))"
proof -
  have b: "length NetBcastAddr = 6" by (simp add: NetBcastAddr_def)
  have p: "length (arp_packet 1 (NetOurEther cl) cip (replicate 6 0) (NetOurIP s)) = 28"
    using macs by simp
  obtain arp where arp: "NetReceive h inpkt len s = Some (receive_arp s inpkt arp (len - NetEthHdrSize cl))"
    "load (ram s) arp 28 = arp_packet 1 (NetOurEther cl) cip (replicate 6 0) (NetOurIP s)"
    "arp = inpkt + word_of_int (NetEthHdrSize cl)" "load (ram s) (inpkt + 6) 6 = NetOurEther cl"
    "ARP_HDR_SIZE \<le> len - NetEthHdrSize cl"
    using NetReceive_arp [OF frame b macs(2) vlan p len] by metis
  have f: "ntohs_at (ram s) arp = 1" "ntohs_at (ram s) (arp + 2) = PROT_IP" "ram s (arp + 4) = 6" "ram s (arp + 5) = 4"
    "ntohs_at (ram s) (arp + 6) = 1" "NetReadIP (ram s) (arp + 24) = NetOurIP s"
    using arp_packet_fields [OF arp(2)] macs by simp_all
  have here: "arp = inpkt + of_nat (length (NetSetEther s (load (ram s) (inpkt + 6) 6) PROT_ARP))"
    using arp(3,4) of_nat_length_NetSetEther(1) [of "NetOurEther cl" s PROT_ARP] macs same_vlan_size [OF vlan] by simp
  have "receive_arp s inpkt arp (len - NetEthHdrSize cl) = arp_reply s inpkt arp"
    using arp(5) ip by (simp add: receive_arp_def f Let_def)
  then show ?thesis
    using arp_reply_frame [of s inpkt "NetOurEther cl" cip "replicate 6 0" "NetOurIP s"] arp(1,2,4) macs
    unfolding here [symmetric] by simp
qed

lemma arp_reply_accepted:
  assumes frame: "load (ram s) inpkt (length frame) = frame"
      "frame = NetSetEther p (NetOurEther s) PROT_ARP @ arp_packet 2 (NetOurEther p) (NetOurIP p) tha (NetOurIP s)"
    and macs: "length (NetOurEther s) = 6" "length (NetOurEther p) = 6" "length tha = 6" and vlan: "same_vlan s p"
    and len: "int (length frame) \<le> len" and ip: "NetOurIP s \<noteq> 0"
    and waits: "NetArpWaitPacketIP s \<noteq> 0" "NetArpWaitPacketMAC s \<noteq> Ether_null" "NetArpWaitReplyIP s = NetOurIP p"
  shows "NetReceive h inpkt len s = Some ((eth_send (NetOurEther p @ drop 6 (NetArpWaitTxPacket s))
    (set_ether_at s (NetArpWaitPacketMAC s) (NetOurEther p)))
      \<lparr>NetArpWaitPacketIP := 0, NetArpWaitTxPacket := [], NetArpWaitPacketMAC := Ether_null\<rparr>)"
proof -
  have p: "length (arp_packet 2 (NetOurEther p) (NetOurIP p) tha (NetOurIP s)) = 28"
    using macs by simp
  obtain arp where arp: "NetReceive h inpkt len s = Some (receive_arp s inpkt arp (len - NetEthHdrSize p))"
    "load (ram s) arp 28 = arp_packet 2 (NetOurEther p) (NetOurIP p) tha (NetOurIP s)"
    "ARP_HDR_SIZE \<le> len - NetEthHdrSize p"
    using NetReceive_arp [OF frame macs(1,2) vlan p len] by metis
  have f: "ntohs_at (ram s) arp = 1" "ntohs_at (ram s) (arp + 2) = PROT_IP" "ram s (arp + 4) = 6" "ram s (arp + 5) = 4"
    "ntohs_at (ram s) (arp + 6) = 2" "load (ram s) (arp + 8) 6 = NetOurEther p"
    "NetReadIP (ram s) (arp + 14) = NetOurIP p" "NetReadIP (ram s) (arp + 24) = NetOurIP s"
    using arp_packet_fields [OF arp(2)] macs by simp_all
  have "NetArpWaitTxPacket (set_ether_at s q mac) = NetArpWaitTxPacket s" for q mac
    by (cases q) (simp_all add: set_ether_at_def)
  then show ?thesis
    unfolding arp(1) using arp(3) ip waits by (simp add: receive_arp_def f Let_def)
qed

lemma NetSetIP_state: "snd (NetSetIP s dest dport sport n) = s\<lparr>NetIPID := NetIPID s + 1\<rparr>"
  by (simp add: NetSetIP_def Let_def)

lemma NetSendUDPPacket_waits:
  assumes "ether_at s ether = NetEtherNullAddr" and "dest \<noteq> 0" "dest \<noteq> 0xFFFFFFFF"
  shows "NetSendUDPPacket now s ether dest dport sport data =
    eth_send (NetSetEther s NetBcastAddr PROT_ARP @
        arp_packet 1 (NetOurEther s) (NetOurIP s) (replicate 6 0) (arp_target s dest))
      (s\<lparr>NetIPID := NetIPID s + 1, NetArpWaitPacketIP := dest, NetArpWaitReplyIP := arp_target s dest,
        NetArpWaitPacketMAC := ether,
        NetArpWaitTxPacket := NetSetEther s NetEtherNullAddr PROT_IP @
          fst (NetSetIP s dest dport sport (length data)) @ data,
        NetArpWaitTry := 1, NetArpWaitTimerStart := now\<rparr>)"
proof -
  obtain hdr where hdr: "NetSetIP s dest dport sport (length data) = (hdr, s\<lparr>NetIPID := NetIPID s + 1\<rparr>)"
    using NetSetIP_state by (metis surjective_pairing)
  show ?thesis
    using assms unfolding NetSendUDPPacket_def
    by (simp add: hdr ArpRequest_def Let_def NetSetEther_def arp_packet_def arp_target_def eth_send_def)
qed

section \<open>Invariants of a protocol\<close>

lemma receive_ip_cases:
  assumes "P (Some s)" and "\<And>n. P (Some (icmp_echo_reply s inpkt ip n))" and "\<And>p d q l. P (h p d q l s)"
  shows "P (receive_ip h s inpkt ip len)"
proof -
  have branch: "P x \<Longrightarrow> P y \<Longrightarrow> P (if c then x else y)" for c x y by simp
  show ?thesis
    unfolding receive_ip_def Let_def by (rule branch assms(1) | rule assms(2) assms(3))+
qed

text \<open>
  What a protocol keeps: a predicate that its handler keeps, and that does not depend on what the packet layer itself
  changes, is kept by every packet received.
\<close>

locale packet_kept =
  fixes inv :: "'a net_state_scheme \<Rightarrow> bool" and handler :: "'a net_state_scheme handler"
  assumes kept_by_arp: "inv s \<Longrightarrow> inv (receive_arp s inpkt arp len)"
    and kept_by_echo: "inv s \<Longrightarrow> inv (icmp_echo_reply s inpkt ip n)"
    and kept_by_handler: "inv s \<Longrightarrow> handler pkt dest src ulen s = Some s' \<Longrightarrow> inv s'"
begin

lemma kept_by_ip:
  assumes "inv s"
  shows "receive_ip handler s inpkt ip len = Some s' \<longrightarrow> inv s'"
  by (rule receive_ip_cases [where P = "\<lambda>r. r = Some s' \<longrightarrow> inv s'"])
    (use assms kept_by_handler kept_by_echo in blast)+

lemma kept_without_rarp:
  assumes "inv s" and "NetReceive handler inpkt len s = Some s'"
    and "\<And>prot ip l. eth_parse s inpkt len = Some (prot, ip, l) \<Longrightarrow> prot \<noteq> PROT_RARP"
  shows "inv s'"
proof (cases "eth_parse s inpkt len")
  case None
  then show ?thesis using assms by (simp add: NetReceive_def)
next
  case (Some x)
  obtain prot ip l where x: "x = (prot, ip, l)" by (cases x)
  then have "prot \<noteq> PROT_RARP" using assms(3) Some by blast
  then have "(if prot = PROT_ARP then Some (receive_arp s inpkt ip l)
      else if prot = PROT_IP then receive_ip handler s inpkt ip l else Some s) = Some s'"
    using assms(2) Some x by (cases "prot = PROT_ARP") (simp_all add: NetReceive_def)
  then show ?thesis
    using assms(1) kept_by_arp kept_by_ip [OF assms(1), of inpkt ip l s'] by (auto split: if_splits)
qed

end

locale packet_invariant = packet_kept +
  assumes kept_by_rarp: "inv s \<Longrightarrow> inv (snd (receive_rarp s arp len))"
begin

lemma kept_by_receive:
  assumes "inv s" and "NetReceive handler inpkt len s = Some s'"
  shows "inv s'"
proof (cases "\<exists>ip l. eth_parse s inpkt len = Some (PROT_RARP, ip, l)")
  case True
  then obtain ip l where e: "eth_parse s inpkt len = Some (PROT_RARP, ip, l)" by blast
  obtain call t where t: "receive_rarp s ip l = (call, t)" by fastforce
  then have "(if call then handler 0 0 0 0 t else Some t) = Some s'"
    using assms(2) e by (simp add: NetReceive_def PROT_RARP_def PROT_ARP_def)
  then show ?thesis using kept_by_rarp [OF assms(1), of ip l] t kept_by_handler by (cases call) auto
next
  case False
  then show ?thesis by (intro kept_without_rarp [OF assms]) blast
qed

end

section \<open>Properties\<close>

text \<open>
  C12: A packet to a host whose hardware address is not known is sent once that host has answered: \<open>NetSendUDPPacket\<close>
  broadcasts one request for the address of the destination, or of the gateway when the destination is on
  another net; the host asked, running the same code, answers it with one frame; and when this frame
  arrives, the waiting packet is transmitted, unchanged but for the hardware address, which is kept.
\<close>

theorem arp_resolution:
  fixes h :: "'a net_state_scheme handler" and hp :: "'b net_state_scheme handler"
  assumes unknown: "ether_at s ether = NetEtherNullAddr" and dest: "dest \<noteq> 0" "dest \<noteq> 0xFFFFFFFF"
    and host: "NetOurIP p = arp_target s dest" "NetOurIP p \<noteq> 0" "NetOurIP s \<noteq> 0" "same_vlan p s"
      "length (NetOurEther s) = 6" "length (NetOurEther p) = 6"
  shows "\<exists>request reply s1.
    NetSendUDPPacket now s ether dest dport sport data = s1 \<and> eth_sent s1 = eth_sent s @ [request] \<and>
    length request \<le> 46 \<and> length reply = length request \<and>
    (\<forall>inpkt len. load (ram p) inpkt (length request) = request \<and> int (length request) \<le> len \<longrightarrow>
      (\<exists>p'. NetReceive hp inpkt len p = Some p' \<and> eth_sent p' = eth_sent p @ [reply])) \<and>
    (\<forall>m inpkt len. load m inpkt (length reply) = reply \<and> int (length reply) \<le> len \<longrightarrow>
      (\<exists>s2. NetReceive h inpkt len (s1\<lparr>ram := m\<rparr>) = Some s2 \<and>
        eth_sent s2 = eth_sent s1 @
          [NetSetEther s (NetOurEther p) PROT_IP @ fst (NetSetIP s dest dport sport (length data)) @ data] \<and>
        ether_at s2 ether = NetOurEther p \<and> NetArpWaitPacketIP s2 = 0))"
proof -
  define request where "request = NetSetEther s NetBcastAddr PROT_ARP @
    arp_packet 1 (NetOurEther s) (NetOurIP s) (replicate 6 0) (NetOurIP p)"
  define reply where "reply = NetSetEther p (NetOurEther s) PROT_ARP @
    arp_packet 2 (NetOurEther p) (NetOurIP p) (NetOurEther s) (NetOurIP s)"
  define s1 where "s1 = NetSendUDPPacket now s ether dest dport sport data"
  note s1_eq = s1_def [unfolded NetSendUDPPacket_waits [OF unknown dest] host(1) [symmetric]]
  have ether: "ether \<noteq> Ether_null"
    using unknown by (auto simp: ether_at_def NetEtherNullAddr_def)
  have vlan: "same_vlan s p" using host(4) by (simp add: same_vlan_def)
  have "eth_sent s1 = eth_sent s @ [request]"
    by (simp add: s1_eq eth_send_def request_def)
  moreover have "length request \<le> 46" "length reply = length request"
    using host(5,6) vlan
    by (auto simp: request_def reply_def NetSetEther_def arp_packet_def same_vlan_def NetBcastAddr_def Let_def)
  moreover have "\<exists>p'. NetReceive hp inpkt len p = Some p' \<and> eth_sent p' = eth_sent p @ [reply]"
    if "load (ram p) inpkt (length request) = request" "int (length request) \<le> len" for inpkt len
    using arp_request_answered [OF that(1) request_def host(6,5,4) that(2) host(2), of hp]
    by (auto simp: reply_def eth_send_def)
  moreover have "\<exists>s2. NetReceive h inpkt len (s1\<lparr>ram := m\<rparr>) = Some s2 \<and>
        eth_sent s2 = eth_sent s1 @
          [NetSetEther s (NetOurEther p) PROT_IP @ fst (NetSetIP s dest dport sport (length data)) @ data] \<and>
        ether_at s2 ether = NetOurEther p \<and> NetArpWaitPacketIP s2 = 0"
    if "load m inpkt (length reply) = reply" "int (length reply) \<le> len" for m inpkt len
  proof -
    let ?s = "s1\<lparr>ram := m\<rparr>"
    have "NetReceive h inpkt len ?s = Some ((eth_send (NetOurEther p @ drop 6 (NetArpWaitTxPacket ?s))
      (set_ether_at ?s (NetArpWaitPacketMAC ?s) (NetOurEther p)))
        \<lparr>NetArpWaitPacketIP := 0, NetArpWaitTxPacket := [], NetArpWaitPacketMAC := Ether_null\<rparr>)"
      by (rule arp_reply_accepted [where frame = reply and tha = "NetOurEther s"])
        (use that host dest ether vlan in \<open>simp_all add: reply_def s1_eq eth_send_def same_vlan_def\<close>)
    moreover have "drop 6 (NetArpWaitTxPacket ?s) =
        drop 6 (NetSetEther s (NetOurEther p) PROT_IP) @ fst (NetSetIP s dest dport sport (length data)) @ data"
      using host(5,6) by (simp add: s1_eq eth_send_def NetSetEther_def NetEtherNullAddr_def)
    ultimately show ?thesis
      using ether host(5,6)
      by (cases ether) (simp_all add: s1_eq eth_send_def set_ether_at_def ether_at_def NetSetEther_def)
  qed
  ultimately show ?thesis
    using s1_def by blast
qed

theorem arp_resolution_witness:
  "\<exists>request reply s1 p' s2.
    NetSendUDPPacket 0 sample_board Ether_server 0xc0a80264 69 2000 [1, 2, 3] = s1 \<and> eth_sent s1 = [request] \<and>
    NetReceive (\<lambda>_ _ _ _. Some) 0x1000 (int (length request)) (sample_received request) = Some p' \<and>
    eth_sent p' = [reply] \<and>
    NetReceive (\<lambda>_ _ _ _. Some) 0x1000 (int (length reply))
      (s1\<lparr>ram := overwrite (\<lambda>_. 0) 0x1000 reply\<rparr>) = Some s2 \<and>
    eth_sent s2 = [request, NetSetEther sample_board (NetOurEther sample_server) PROT_IP @
      fst (NetSetIP sample_board 0xc0a80264 69 2000 3) @ [1, 2, 3]] \<and>
    ether_at s2 Ether_server = NetOurEther sample_server"
proof -
  define s1 where "s1 = NetSendUDPPacket 0 sample_board Ether_server 0xc0a80264 69 2000 [1, 2, 3]"
  define request where "request = hd (eth_sent s1)"
  let ?h = "\<lambda>_ _ _ _. Some" and ?p = "sample_received request"
  note hosts = sample_board_def sample_received_def sample_server_def sample_host_def
  have prem: "ether_at sample_board Ether_server = NetEtherNullAddr" "0xc0a80264 \<noteq> (0 :: u32)"
    "0xc0a80264 \<noteq> (0xFFFFFFFF :: u32)" "NetOurIP ?p = arp_target sample_board 0xc0a80264" "NetOurIP ?p \<noteq> 0"
    "NetOurIP sample_board \<noteq> 0" "same_vlan ?p sample_board" "length (NetOurEther sample_board) = 6"
    "length (NetOurEther ?p) = 6"
    by (simp_all add: hosts ether_at_def NetEtherNullAddr_def arp_target_def same_vlan_def)
  have same: "eth_sent sample_board = []" "eth_sent ?p = []" "length [1, 2, 3 :: u8] = 3"
    "NetOurEther ?p = NetOurEther sample_server"
    by (simp_all add: hosts)
  have held: "load (overwrite (\<lambda>_. 0) 0x1000 f) 0x1000 (length f) = f" if "length f \<le> 46" for f :: "u8 list"
    using that by (simp add: load_overwrite)
  from arp_resolution [OF prem, of 0 69 2000 "[1, 2, 3]" ?h ?h, unfolded same s1_def [symmetric], simplified append_Nil]
  show ?thesis
  proof (elim exE conjE)
    fix request' reply s1'
    assume s1: "s1 = s1'" and sent: "eth_sent s1' = [request']"
      and len: "length request' \<le> 46" "length reply = length request'"
      and answer: "\<forall>inpkt len. load (ram ?p) inpkt (length request') = request' \<and> int (length request') \<le> len \<longrightarrow>
        (\<exists>p'. NetReceive ?h inpkt len ?p = Some p' \<and> eth_sent p' = [reply])"
      and accept: "\<forall>m inpkt len. load m inpkt (length reply) = reply \<and> int (length reply) \<le> len \<longrightarrow>
        (\<exists>s2. NetReceive ?h inpkt len (s1'\<lparr>ram := m\<rparr>) = Some s2 \<and>
          eth_sent s2 = eth_sent s1' @ [NetSetEther sample_board (NetOurEther sample_server) PROT_IP @
            fst (NetSetIP sample_board 0xc0a80264 69 2000 3) @ [1, 2, 3]] \<and>
          ether_at s2 Ether_server = NetOurEther sample_server \<and> NetArpWaitPacketIP s2 = 0)"
    have request: "request' = request" using s1 sent by (simp add: request_def)
    have "load (ram ?p) 0x1000 (length request') = request'"
      using held len(1) by (simp add: sample_received_def request)
    then obtain p' where p': "NetReceive ?h 0x1000 (int (length request)) ?p = Some p'" "eth_sent p' = [reply]"
      using answer request by blast
    have "load (overwrite (\<lambda>_. 0) 0x1000 reply) 0x1000 (length reply) = reply"
      using len by (intro held) simp
    then obtain s2 where "NetReceive ?h 0x1000 (int (length reply)) (s1\<lparr>ram := overwrite (\<lambda>_. 0) 0x1000 reply\<rparr>) = Some s2"
      "eth_sent s2 = eth_sent s1 @ [NetSetEther sample_board (NetOurEther sample_server) PROT_IP @
        fst (NetSetIP sample_board 0xc0a80264 69 2000 3) @ [1, 2, 3]]" "ether_at s2 Ether_server = NetOurEther sample_server"
      using accept s1 by blast
    with p' sent s1 request show ?thesis
      unfolding s1_def [symmetric] by auto
  qed
qed

text \<open>
  C14: What \<open>NetSendUDPPacket\<close> sends to a host whose hardware address is known, or as a broadcast, is one frame; where
  a host of the same virtual network finds this frame in memory, possibly padded, and is addressed by it,
  \<open>NetReceive\<close> accepts its headers and calls the handler once, with the ports and the length of the
  data that was sent and with a pointer to exactly these data.
\<close>

theorem udp_roundtrip:
  assumes known: "dest = 0 \<or> dest = 0xFFFFFFFF \<or> ether_at cl ether \<noteq> NetEtherNullAddr \<and> length (ether_at cl ether) = 6"
    and mac: "length (NetOurEther cl) = 6" and size: "28 + length data < 65536"
  shows "\<exists>frame. eth_sent (NetSendUDPPacket now cl ether dest dport sport data) = eth_sent cl @ [frame] \<and>
    length frame \<le> 46 + length data \<and>
    (\<forall>s inpkt len h. load (ram s) inpkt (length frame) = frame \<and> int (length frame) \<le> len \<and> len < 2 ^ 31 \<and>
        same_vlan s cl \<and> (NetOurIP s = 0 \<or> dest \<in> {NetOurIP s, 0, 0xFFFFFFFF}) \<longrightarrow>
      (\<exists>pkt. NetReceive h inpkt len s = h pkt (ucast dport) (ucast sport) (of_nat (length data)) s \<and>
        load (ram s) pkt (length data) = data))"
proof -
  define dest' where "dest' = (if dest = 0 then 0xFFFFFFFF else dest)"
  define mac' where "mac' = (if dest' = 0xFFFFFFFF then NetBcastAddr else ether_at cl ether)"
  define frame where "frame = NetSetEther cl mac' PROT_IP @ fst (NetSetIP cl dest' dport sport (length data)) @ data"
  have m: "mac' \<noteq> NetEtherNullAddr" "length mac' = 6"
    using known by (auto simp: mac'_def dest'_def NetBcastAddr_def NetEtherNullAddr_def)
  have "eth_sent (NetSendUDPPacket now cl ether dest dport sport data) = eth_sent cl @ [frame]"
    using m(1) unfolding NetSendUDPPacket_def dest'_def [symmetric] mac'_def [symmetric] Let_def
    by (simp add: NetSetIP_state frame_def eth_send_def split_beta)
  moreover have "length frame \<le> 46 + length data"
    using m(2) mac by (simp add: frame_def NetSetEther_def Let_def)
  moreover have "\<exists>pkt. NetReceive h inpkt len s = h pkt (ucast dport) (ucast sport) (of_nat (length data)) s \<and>
        load (ram s) pkt (length data) = data"
    if "load (ram s) inpkt (length frame) = frame" "int (length frame) \<le> len" "len < 2 ^ 31" "same_vlan s cl"
      "NetOurIP s = 0 \<or> dest \<in> {NetOurIP s, 0, 0xFFFFFFFF}" for s :: "'d net_state_scheme" and inpkt len h
  proof -
    have "NetOurIP s = 0 \<or> dest' = NetOurIP s \<or> dest' = 0xFFFFFFFF"
      using that(5) by (auto simp: dest'_def)
    from NetReceive_udp [OF that(1) frame_def m(2) mac that(4) size that(2,3) this]
    show ?thesis by blast
  qed
  ultimately show ?thesis by blast
qed

theorem udp_roundtrip_witness:
  "\<exists>frame pkt. eth_sent (NetSendUDPPacket 0 sample_board Ether_server 0 67 68 [1, 2, 3]) = [frame] \<and>
    NetReceive (\<lambda>p d s n st. Some (st\<lparr>NetServerIP := p + d + s + n\<rparr>)) 0x1000 (int (length frame)) (sample_received frame) =
      Some ((sample_received frame)\<lparr>NetServerIP := pkt + 67 + 68 + 3\<rparr>) \<and>
    load (ram (sample_received frame)) pkt 3 = [1, 2, 3]"
proof -
  have prem: "0 = (0 :: u32) \<or> 0 = (0xFFFFFFFF :: u32) \<or>
      ether_at sample_board Ether_server \<noteq> NetEtherNullAddr \<and> length (ether_at sample_board Ether_server) = 6"
    "length (NetOurEther sample_board) = 6" "28 + length [1, 2, 3 :: u8] < 65536"
    by (simp_all add: sample_board_def sample_host_def)
  have same: "eth_sent sample_board = []" "length [1, 2, 3 :: u8] = 3"
    by (simp_all add: sample_board_def sample_host_def)
  from udp_roundtrip [OF prem, of 0 67 68, unfolded same, simplified append_Nil]
  show ?thesis
  proof (elim exE conjE)
    fix frame
    assume sent: "eth_sent (NetSendUDPPacket 0 sample_board Ether_server 0 67 68 [1, 2, 3]) = [frame]"
      and len: "length frame \<le> 46 + 3"
      and received: "\<forall>(s :: net_state) inpkt len h. load (ram s) inpkt (length frame) = frame \<and> int (length frame) \<le> len \<and>
          len < 2 ^ 31 \<and> same_vlan s sample_board \<and> (NetOurIP s = 0 \<or> 0 \<in> {NetOurIP s, 0, 0xFFFFFFFF}) \<longrightarrow>
        (\<exists>pkt. NetReceive h inpkt len s = h pkt (ucast (67 :: u16)) (ucast (68 :: u16)) (of_nat 3) s \<and>
          load (ram s) pkt 3 = [1, 2, 3])"
    let ?p = "sample_received frame" and ?h = "\<lambda>p d s n st. Some (st\<lparr>NetServerIP := p + d + s + n\<rparr>)"
    have "load (ram ?p) 0x1000 (length frame) = frame"
      unfolding sample_received_def using len by (simp add: load_overwrite)
    moreover have "same_vlan ?p sample_board"
      by (simp add: sample_received_def sample_server_def sample_board_def sample_host_def same_vlan_def)
    moreover have "int (length frame) < 2 ^ 31" using len by simp
    ultimately obtain pkt where "NetReceive ?h 0x1000 (int (length frame)) ?p =
        ?h pkt (ucast (67 :: u16)) (ucast (68 :: u16)) (of_nat 3) ?p" "load (ram ?p) pkt 3 = [1, 2, 3]"
      using received by blast
    with sent show ?thesis by auto
  qed
qed

end
