(* ===== verification/Net_Addr.thy ===== *)
theory Net_Addr
  imports Net_Packet Lib_Vsprintf
begin

text \<open>
  Internet addresses and identifiers of virtual networks as text: the last functions of \<^verbatim>\<open>net/net.c\<close>.
  A string is the list of its bytes, without the zero that ends it; \<open>None\<close> is a null pointer, and as a
  result it stands for a loop that does not end.
\<close>

section \<open>Operations\<close>

definition ip_to_string :: "u32 \<Rightarrow> u8 list option" where
  "ip_to_string x =
     map_option fst (vsprintf_loop (\<lambda>_. 0) (ascii ''%d.%d.%d.%d'')
       [drop_bit 24 x AND 0xff, drop_bit 16 x AND 0xff, drop_bit 8 x AND 0xff, drop_bit 0 x AND 0xff] [] [])"

text \<open>The loop over the four numbers; one character behind each is skipped.\<close>

fun ip_fields :: "nat \<Rightarrow> u32 \<Rightarrow> u8 list \<Rightarrow> u32 option" where
  "ip_fields 0 addr s = Some addr"
| "ip_fields (Suc i) addr s = do {
     (val, e) \<leftarrow> str_strtoul s 10;
     ip_fields i (push_bit 8 addr OR (val AND 0xff)) (case e of [] \<Rightarrow> [] | _ # e' \<Rightarrow> e') }"

definition string_to_ip :: "u8 list option \<Rightarrow> u32 option" where
  "string_to_ip s = (case s of None \<Rightarrow> Some 0 | Some s \<Rightarrow> ip_fields 4 0 s)"

definition VLAN_to_string :: "u16 \<Rightarrow> u8 list option" where
  "VLAN_to_string x =
     (let x = our_vlan x
      in if x = VLAN_NONE then Some (ascii ''none'')
         else map_option fst (vsprintf_loop (\<lambda>_. 0) (ascii ''%d'') [ucast (x AND VLAN_IDMASK)] [] []))"

definition string_to_VLAN :: "u8 list option \<Rightarrow> u16 option" where
  "string_to_VLAN s =
     (case s of None \<Rightarrow> Some VLAN_NONE
      | Some s \<Rightarrow>
          let c = (case s of [] \<Rightarrow> 0 | c # _ \<Rightarrow> c)
          in if c < 0x30 \<or> c > 0x39 then Some VLAN_NONE
             else map_option (\<lambda>(id, _). ucast id) (str_strtoul s 10))"

definition getenv_IPaddr :: "(u8 list \<Rightarrow> u8 list option) \<Rightarrow> string \<Rightarrow> u32 option" where
  "getenv_IPaddr env var = string_to_ip (env (ascii var))"

definition getenv_VLAN :: "(u8 list \<Rightarrow> u8 list option) \<Rightarrow> string \<Rightarrow> u16 option" where
  "getenv_VLAN env var = string_to_VLAN (env (ascii var))"

text \<open>A number in decimal digits.\<close>

definition dec :: "u32 \<Rightarrow> u8 list" where
  "dec x = digit_string False 10 x"

section \<open>Printing and reading\<close>

lemma conversion_d:
  "conversion m (0x64 # rest) (x # args) out =
    do { s \<leftarrow> number x 10 (- 1) (- 1) SIGN; Some (s, [], args, rest) }"
  by (simp add: conversion_def fmt_width_def fmt_precision_def fmt_qualifier_def conv_base_def conv_num_def Let_def)

lemma sint_small: "unat (x :: u32) < 2 ^ 31 \<Longrightarrow> \<not> sint x < 0"
proof -
  assume "unat x < 2 ^ 31"
  then have "\<not> bit (unat x) 31" by (simp add: bit_iff_odd)
  then have "\<not> bit x 31" by (simp add: bit_unsigned_iff)
  then show ?thesis using bit_last_iff [of x] by simp
qed

lemma vsprintf_loop_d:
  assumes "unat x < 2 ^ 31"
  shows "vsprintf_loop m (0x25 # 0x64 # fmt) (x # args) out writes =
    vsprintf_loop m fmt args (out @ digit_string False 10 x) writes"
proof -
  have "number x 10 (- 1) (- 1) SIGN = Some (digit_string False 10 x)"
    using number_plain [of 10 SIGN True False x] sint_small [OF assms] by (simp add: SIGN_def)
  then show ?thesis
    by (simp add: conversion_d)
qed

lemma vsprintf_loop_char: "c \<noteq> 0x25 \<Longrightarrow> vsprintf_loop m (c # fmt) args out writes = vsprintf_loop m fmt args (out @ [c]) writes"
  by simp

lemma ip_to_string_eq:
  "ip_to_string x = Some (dec (drop_bit 24 x AND 0xff) @ 0x2e # dec (drop_bit 16 x AND 0xff) @ 0x2e #
    dec (drop_bit 8 x AND 0xff) @ 0x2e # dec (x AND 0xff))"
proof -
  have b: "unat (y AND 0xff :: u32) < 2 ^ 31" for y
    using word_and_le1 [of y "0xff"] by (simp add: word_le_nat_alt)
  show ?thesis
    unfolding ip_to_string_def ascii_def using b
    by (simp add: vsprintf_loop_d vsprintf_loop_char dec_def del: vsprintf_loop.simps(2))
qed

lemma ip_fields_dec:
  assumes "rest = [] \<or> hd rest = 0x2e" and "length (dec x @ rest) < 2 ^ 32"
  shows "ip_fields (Suc i) addr (dec x @ rest) = ip_fields i (push_bit 8 addr OR (x AND 0xff)) (tl rest)"
proof -
  have "\<not> isxdigit 0x2e" by (simp add: isxdigit_iff)
  then have "str_strtoul (dec x @ rest) 10 = Some (x, rest)"
    using str_strtoul_digits [of 10 rest False x] assms by (auto simp: dec_def)
  then show ?thesis by (cases rest) simp_all
qed

lemma length_dec: "length (dec x) \<le> 32"
  unfolding dec_def by (rule digit_string_le_32) simp

lemma ip_of_bytes:
  "push_bit 8 (push_bit 8 (push_bit 8 (push_bit 8 0 OR (drop_bit 24 x AND 0xff)) OR (drop_bit 16 x AND 0xff)) OR
    (drop_bit 8 x AND 0xff)) OR (x AND 0xff) = (x :: u32)"
proof -
  have ff: "(0xff :: u32) = mask 8" by (simp add: mask_eq_exp_minus_1)
  show ?thesis
    unfolding ff
  proof (rule bit_word_eqI)
    fix n assume n: "n < LENGTH(32)"
    consider "n < 8" | k where "n = 8 + k" "k < 8" | k where "n = 16 + k" "k < 8" | k where "n = 24 + k" "k < 8"
    proof -
      have "n < 8 \<or> n = 8 + (n - 8) \<and> n - 8 < 8 \<or> n = 16 + (n - 16) \<and> n - 16 < 8 \<or> n = 24 + (n - 24) \<and> n - 24 < 8"
        using n unfolding len_of_numeral_defs by simp linarith
      then show thesis using that by blast
    qed
    then show "bit (push_bit 8 (push_bit 8 (push_bit 8 (push_bit 8 0 OR (drop_bit 24 x AND mask 8)) OR (drop_bit 16 x AND mask 8)) OR
      (drop_bit 8 x AND mask 8)) OR (x AND mask 8)) n = bit x n"
      by cases (auto simp: bit_simps)
  qed
qed

lemma dec_chars: "c \<in> set (dec x) \<Longrightarrow> 0x30 \<le> c \<and> c \<le> 0x39"
proof -
  assume "c \<in> set (dec x)"
  then obtain k where "k < 10" "c = 0x30 + of_nat k"
    using num_digits_bound [of _ 10 "unat x"]
    by (auto simp: dec_def digit_string_def digit_char_def split: if_splits intro: that [of 0])
  then show ?thesis by (auto simp: word_le_nat_alt unat_word_ariths unat_of_nat)
qed

section \<open>Properties\<close>

text \<open>
  C39: An internet address printed by \<open>ip_to_string\<close>, four decimal numbers with points between them, is read back by
  \<open>string_to_ip\<close>, for every one of the 2^32 addresses; the text fits the 16 bytes callers provide.
\<close>

theorem ip_string_roundtrip:
  "\<exists>s. ip_to_string x = Some s \<and> string_to_ip (Some s) = Some x \<and> length s < 16 \<and> 0 \<notin> set s"
proof -
  define b where "b k = drop_bit k x AND 0xff" for k
  have small: "length (dec (b k)) \<le> 3" for k
  proof -
    have "unat (b k) \<le> 255"
      unfolding b_def using word_and_le1 [of "drop_bit k x" "0xff"] by (simp add: word_le_nat_alt)
    then show ?thesis unfolding dec_def by (intro digit_string_length) simp_all
  qed
  have idem: "b k AND 0xff = b k" for k by (simp add: b_def and.assoc)
  have b0: "x AND 0xff = b 0" by (simp add: b_def)
  let ?s = "dec (b 24) @ 0x2e # dec (b 16) @ 0x2e # dec (b 8) @ 0x2e # dec (b 0)"
  have "ip_to_string x = Some ?s"
    unfolding ip_to_string_eq b0 by (simp add: b_def)
  moreover have "ip_fields 4 0 ?s = Some x"
  proof -
    have "ip_fields (Suc (Suc (Suc (Suc 0)))) 0 ?s = ip_fields (Suc (Suc (Suc 0))) (push_bit 8 0 OR b 24) (dec (b 16) @ 0x2e # dec (b 8) @ 0x2e # dec (b 0))"
      using small [of 24] small [of 16] small [of 8] small [of 0] by (subst ip_fields_dec) (simp_all add: idem)
    also have "\<dots> = ip_fields (Suc (Suc 0)) (push_bit 8 (push_bit 8 0 OR b 24) OR b 16) (dec (b 8) @ 0x2e # dec (b 0))"
      using small [of 16] small [of 8] small [of 0] by (subst ip_fields_dec) (simp_all add: idem)
    also have "\<dots> = ip_fields (Suc 0) (push_bit 8 (push_bit 8 (push_bit 8 0 OR b 24) OR b 16) OR b 8) (dec (b 0) @ [])"
      using small [of 8] small [of 0] by (subst ip_fields_dec) (simp_all add: idem)
    also have "\<dots> = ip_fields 0 (push_bit 8 (push_bit 8 (push_bit 8 (push_bit 8 0 OR b 24) OR b 16) OR b 8) OR b 0) []"
      using small [of 0] by (subst ip_fields_dec) (simp_all add: idem)
    also have "\<dots> = Some x"
      using ip_of_bytes [of x] unfolding b_def by simp
    finally show ?thesis by (simp add: eval_nat_numeral)
  qed
  moreover have "length ?s < 16"
    using small [of 24] small [of 16] small [of 8] small [of 0] by simp
  moreover have "0 \<notin> set ?s"
    using digit_string_props(1) [of 10 False] by (simp add: dec_def)
  ultimately show ?thesis by (auto simp: string_to_ip_def)
qed

text \<open>
  The identifier of a virtual network is kept modulo 4096, and no network is written "none".
\<close>

lemma VLAN_string_roundtrip:
  "\<exists>s. VLAN_to_string v = Some s \<and>
     string_to_VLAN (Some s) = Some (if our_vlan v = VLAN_NONE then VLAN_NONE else v AND VLAN_IDMASK)"
proof (cases "our_vlan v = VLAN_NONE")
  case True
  then show ?thesis by (simp add: VLAN_to_string_def string_to_VLAN_def ascii_def)
next
  case False
  define w where "w = (ucast (v AND VLAN_IDMASK) :: u32)"
  have "unat (v AND VLAN_IDMASK) < 65536"
    using unsigned_less [of "v AND VLAN_IDMASK", where ?'a = nat] by simp
  then have w: "unat w < 2 ^ 31" "ucast w = v AND VLAN_IDMASK"
    unfolding w_def by (simp_all add: unsigned_ucast_eq take_bit_nat_eq_self)
      (rule bit_word_eqI, simp add: bit_simps)
  have "VLAN_to_string v = Some (dec w)"
    using False w vsprintf_loop_d [OF w(1), of "\<lambda>_. 0" "[]" "[]" "[]" "[]"]
    by (simp add: VLAN_to_string_def ascii_def idmask_vlan dec_def w_def Let_def del: vsprintf_loop.simps(2))
  moreover have "str_strtoul (dec w @ []) 10 = Some (w, [])"
    using str_strtoul_digits [of 10 "[]" False w] length_dec [of w] by (simp add: dec_def)
  moreover have "dec w \<noteq> []" "0x30 \<le> hd (dec w)" "hd (dec w) \<le> 0x39"
    using digit_string_props(2) [of 10 False w] dec_chars hd_in_set by (auto simp: dec_def)
  ultimately show ?thesis using False w(2)
    by (auto simp: string_to_VLAN_def Let_def not_less split: list.split)
qed
end
