(* ===== verification/Tftp.thy ===== *)
theory Tftp
  imports Net_Addr
begin

text \<open>
  The TFTP client of \<^verbatim>\<open>net/tftp.c\<close>, without the multicast extension and without loading into flash, which the board
  does not compile. Its variables extend the state of the packet layer. \<open>TftpHandler\<close> is the handler
  \<open>NetReceive\<close> calls: its packet lies in memory, and \<open>None\<close> stands for a number in an option that never
  ends. What the code prints is left out.
\<close>

section \<open>State\<close>

datatype tftp_phase = STATE_RRQ | STATE_DATA | STATE_TOO_LARGE | STATE_BAD_MAGIC | STATE_OACK

record tftp_state = net_state +
  TftpTimeoutMSecs :: u32
  TftpTimeoutCountMax :: int
  TftpRRQTimeoutMSecs :: u32
  TftpRRQTimeoutCountMax :: int
  TftpServerIP :: u32
  TftpServerPort :: u32
  TftpOurPort :: u32
  TftpTimeoutCount :: int
  TftpBlock :: u32
  TftpLastBlock :: u32
  TftpBlockWrap :: u32
  TftpBlockWrapOffset :: u32
  TftpState :: tftp_phase
  tftp_filename :: "u8 list"
  TftpBlkSize :: u16
  TftpBlkSizeOption :: u16
  BootFile :: "u8 list"
  load_addr :: addr

definition WELL_KNOWN_PORT :: u32 where "WELL_KNOWN_PORT = 69"
definition TIMEOUT :: u32 where "TIMEOUT = 5000"
definition TIMEOUT_COUNT :: int where "TIMEOUT_COUNT = 10"
definition TFTP_RRQ :: u16 where "TFTP_RRQ = 1"
definition TFTP_DATA :: u16 where "TFTP_DATA = 3"
definition TFTP_ACK :: u16 where "TFTP_ACK = 4"
definition TFTP_ERROR :: u16 where "TFTP_ERROR = 5"
definition TFTP_OACK :: u16 where "TFTP_OACK = 6"
definition TFTP_BLOCK_SIZE :: u16 where "TFTP_BLOCK_SIZE = 512"
definition TFTP_SEQUENCE_SIZE :: u32 where "TFTP_SEQUENCE_SIZE = 0x10000"
definition TFTP_MTU_BLOCKSIZE :: u16 where "TFTP_MTU_BLOCKSIZE = 1460"
definition MAX_LEN :: nat where "MAX_LEN = 128"

section \<open>Operations\<close>

definition store_block :: "u32 \<Rightarrow> addr \<Rightarrow> u32 \<Rightarrow> 'a tftp_state_scheme \<Rightarrow> 'a tftp_state_scheme" where
  "store_block block src len s =
     (let ofs = block * ucast (TftpBlkSize s) + TftpBlockWrapOffset s;
          newsize = ofs + len;
          s = s\<lparr>ram := snd (memcpy (ram s) (load_addr s + ofs) src len)\<rparr>
      in if NetBootFileXferSize s < newsize then s\<lparr>NetBootFileXferSize := newsize\<rparr> else s)"

text \<open>The packet of a state, behind the headers.\<close>

definition tftp_packet :: "'a tftp_state_scheme \<Rightarrow> u8 list" where
  "tftp_packet s =
     (case TftpState s of
        STATE_RRQ \<Rightarrow>
          bytes_be16 TFTP_RRQ @ tftp_filename s @ [0] @ ascii ''octet'' @ [0] @ ascii ''timeout'' @ [0] @
          dec (TIMEOUT div 1000) @ [0] @ ascii ''blksize'' @ [0] @ dec (ucast (TftpBlkSizeOption s)) @ [0]
      | STATE_OACK \<Rightarrow> bytes_be16 TFTP_ACK @ bytes_be16 (ucast (TftpBlock s))
      | STATE_DATA \<Rightarrow> bytes_be16 TFTP_ACK @ bytes_be16 (ucast (TftpBlock s))
      | STATE_TOO_LARGE \<Rightarrow> bytes_be16 TFTP_ERROR @ bytes_be16 3 @ ascii ''File too large'' @ [0]
      | STATE_BAD_MAGIC \<Rightarrow> bytes_be16 TFTP_ERROR @ bytes_be16 2 @ ascii ''File has bad magic'' @ [0])"

definition TftpSend :: "u32 \<Rightarrow> 'a tftp_state_scheme \<Rightarrow> 'a tftp_state_scheme" where
  "TftpSend now s =
     NetSendUDPPacket now s Ether_server (TftpServerIP s) (ucast (TftpServerPort s)) (ucast (TftpOurPort s)) (tftp_packet s)"

text \<open>The block size an option acknowledgement of \<open>len\<close> bytes at \<open>pkt\<close> sets.\<close>

definition oack_blksize :: "mem \<Rightarrow> addr \<Rightarrow> u32 \<Rightarrow> u16 \<Rightarrow> u16 option" where
  "oack_blksize m pkt len blksize =
     (case find (\<lambda>i. str_at m (pkt + of_nat i) (ascii ''blksize'')) [0..<unat len - 8] of
        None \<Rightarrow> Some blksize
      | Some i \<Rightarrow> map_option (\<lambda>(v, _). ucast v) (simple_strtoul m (pkt + of_nat i + 8) 10))"

text \<open>A data packet with \<open>len\<close> bytes behind its block number \<open>block\<close>.\<close>

definition tftp_data :: "u32 \<Rightarrow> addr \<Rightarrow> u32 \<Rightarrow> u32 \<Rightarrow> u32 \<Rightarrow> 'a tftp_state_scheme \<Rightarrow> 'a tftp_state_scheme" where
  "tftp_data now pkt src block len s =
     (let s = s\<lparr>TftpBlock := block\<rparr>;
          s = (if block = 0 then
                 s\<lparr>TftpBlockWrap := TftpBlockWrap s + 1,
                   TftpBlockWrapOffset := TftpBlockWrapOffset s + ucast (TftpBlkSize s) * TFTP_SEQUENCE_SIZE\<rparr>
               else s);
          first = (TftpState s = STATE_RRQ \<or> TftpState s = STATE_OACK);
          s = (if first then
                 s\<lparr>TftpState := STATE_DATA, TftpServerPort := src, TftpLastBlock := 0, TftpBlockWrap := 0,
                   TftpBlockWrapOffset := 0\<rparr>
               else s)
      in if first \<and> block \<noteq> 1 then NetStartAgain now s
         else if block = TftpLastBlock s then s
         else
           let s = s\<lparr>TftpLastBlock := block, TftpTimeoutMSecs := TIMEOUT, TftpTimeoutCountMax := TIMEOUT_COUNT\<rparr>;
               s = NetSetTimeout now (TftpTimeoutMSecs s) Th_tftp s;
               s = store_block (block - 1) pkt len s;
               s = TftpSend now s
           in if len < ucast (TftpBlkSize s) then s\<lparr>NetState := NETLOOP_SUCCESS\<rparr> else s)"

definition TftpHandler :: "u32 \<Rightarrow> 'a tftp_state_scheme handler" where
  "TftpHandler now pkt dest src len s =
     (let proto = ntohs_at (ram s) pkt
      in if dest \<noteq> TftpOurPort s then Some s
         else if TftpState s \<noteq> STATE_RRQ \<and> src \<noteq> TftpServerPort s then Some s
         else if len < 2 then Some s
         else if proto = TFTP_OACK then do {
           blksize \<leftarrow> oack_blksize (ram s) (pkt + 2) (len - 2) (TftpBlkSize s);
           Some (TftpSend now (s\<lparr>TftpState := STATE_OACK, TftpServerPort := src, TftpBlkSize := blksize\<rparr>)) }
         else if proto = TFTP_DATA then
           if len - 2 < 2 then Some s
           else Some (tftp_data now (pkt + 4) src (ucast (ntohs_at (ram s) (pkt + 2))) (len - 2 - 2) s)
         else if proto = TFTP_ERROR then Some (NetStartAgain now s)
         else Some s)"

definition TftpTimeout :: "u32 \<Rightarrow> 'a tftp_state_scheme \<Rightarrow> 'a tftp_state_scheme" where
  "TftpTimeout now s =
     (let s = s\<lparr>TftpTimeoutCount := TftpTimeoutCount s + 1\<rparr>
      in if TftpTimeoutCount s > TftpTimeoutCountMax s then NetStartAgain now s
         else TftpSend now (NetSetTimeout now (TftpTimeoutMSecs s) Th_tftp s))"

text \<open>The server and the name of the file: a boot file name may start with the address of a server and a colon.\<close>

definition tftp_source :: "'a tftp_state_scheme \<Rightarrow> (u32 \<times> u8 list) option" where
  "tftp_source s =
     (case BootFile s of
        [] \<Rightarrow> map_option (\<lambda>(name, _). (NetServerIP s, take (MAX_LEN - 1) name))
          (vsprintf_loop (ram s) (ascii ''%02lX%02lX%02lX%02lX.img'')
            [NetOurIP s AND 0xff, drop_bit 8 (NetOurIP s) AND 0xff, drop_bit 16 (NetOurIP s) AND 0xff,
             drop_bit 24 (NetOurIP s) AND 0xff] [] [])
      | name \<Rightarrow>
          (case dropWhile (\<lambda>c. c \<noteq> 0x3a) name of
             [] \<Rightarrow> Some (NetServerIP s, take (MAX_LEN - 1) name)
           | _ # p \<Rightarrow> map_option (\<lambda>ip. (ip, take (MAX_LEN - 1) p)) (string_to_ip (Some name))))"

definition TftpStart :: "u32 \<Rightarrow> 'a tftp_state_scheme \<Rightarrow> 'a tftp_state_scheme option" where
  "TftpStart now s = do {
     (server, name) \<leftarrow> tftp_source s;
     let s = s\<lparr>TftpServerIP := server, tftp_filename := name, TftpTimeoutMSecs := TftpRRQTimeoutMSecs s,
         TftpTimeoutCountMax := TftpRRQTimeoutCountMax s\<rparr>;
     let s = NetSetHandler Rx_tftp (NetSetTimeout now (TftpTimeoutMSecs s) Th_tftp s);
     Some (TftpSend now (s\<lparr>TftpServerPort := WELL_KNOWN_PORT, TftpTimeoutCount := 0, TftpState := STATE_RRQ,
       TftpOurPort := 1024 + now mod 3072, TftpBlock := 0, NetServerEther := replicate 6 0,
       TftpBlkSize := TFTP_BLOCK_SIZE\<rparr>)) }"

section \<open>Specification\<close>

text \<open>The blocks of a file, numbered from 1; the last one is short, perhaps empty.\<close>

definition file_block :: "nat \<Rightarrow> u8 list \<Rightarrow> nat \<Rightarrow> u8 list" where
  "file_block B contents k = take B (drop ((k - 1) * B) contents)"

definition block_count :: "nat \<Rightarrow> u8 list \<Rightarrow> nat" where
  "block_count B contents = length contents div B + 1"

abbreviation blksize :: "'a tftp_state_scheme \<Rightarrow> nat" where
  "blksize s \<equiv> unat (TftpBlkSize s)"

text \<open>The first \<open>k\<close> blocks have been received.\<close>

definition tftp_received :: "u8 list \<Rightarrow> nat \<Rightarrow> 'a tftp_state_scheme \<Rightarrow> bool" where
  "tftp_received contents k s \<longleftrightarrow>
     (if k = 0 then TftpState s = STATE_RRQ \<or> TftpState s = STATE_OACK
      else TftpState s = STATE_DATA \<and> TftpLastBlock s = of_nat (k mod 65536) \<and>
        TftpBlockWrapOffset s = of_nat (k div 65536 * 65536 * blksize s)) \<and>
     load (ram s) (load_addr s) (min (k * blksize s) (length contents)) = take (k * blksize s) contents \<and>
     NetBootFileXferSize s = of_nat (min (k * blksize s) (length contents)) \<and>
     NetState s = (if length contents < k * blksize s then NETLOOP_SUCCESS else NETLOOP_CONTINUE)"

text \<open>A data packet, behind the headers.\<close>

definition data_packet :: "nat \<Rightarrow> u8 list \<Rightarrow> nat \<Rightarrow> u8 list" where
  "data_packet B contents k =
     bytes_be16 TFTP_DATA @ bytes_be16 (of_nat (k mod 65536)) @ file_block B contents k"

text \<open>What identifies a connection: a step of the transfer keeps it.\<close>

definition same_connection :: "'a tftp_state_scheme \<Rightarrow> 'a tftp_state_scheme \<Rightarrow> bool" where
  "same_connection s s' \<longleftrightarrow>
     TftpOurPort s' = TftpOurPort s \<and> TftpBlkSize s' = TftpBlkSize s \<and> load_addr s' = load_addr s \<and>
     NetOurIP s' = NetOurIP s \<and> NetOurVLAN s' = NetOurVLAN s \<and> NetOurNativeVLAN s' = NetOurNativeVLAN s \<and>
     NetOurEther s' = NetOurEther s \<and> NetServerEther s' = NetServerEther s \<and> packetHandler s' = packetHandler s \<and> TftpServerIP s' = TftpServerIP s \<and>
     env_vars s' = env_vars s \<and> tftp_state.more s' = tftp_state.more s"

section \<open>Sending keeps the transfer\<close>

lemma NetSendUDPPacket_changes:
  "\<exists>ident pip rip mac pkt tries timer sent. NetSendUDPPacket now s ether dest dport sport data =
     s\<lparr>NetIPID := ident, NetArpWaitPacketIP := pip, NetArpWaitReplyIP := rip, NetArpWaitPacketMAC := mac,
       NetArpWaitTxPacket := pkt, NetArpWaitTry := tries, NetArpWaitTimerStart := timer, eth_sent := sent\<rparr>"
proof -
  define d where "d = (if dest = 0 then 0xFFFFFFFF else dest)"
  define mac where "mac = (if d = 0xFFFFFFFF then NetBcastAddr else ether_at s ether)"
  obtain hdr where hdr: "NetSetIP s d dport sport (length data) = (hdr, s\<lparr>NetIPID := NetIPID s + 1\<rparr>)"
    using NetSetIP_state by (metis surjective_pairing)
  show ?thesis
  proof (cases "mac = NetEtherNullAddr")
    case True
    define arp where "arp = ArpRequest (s\<lparr>NetIPID := NetIPID s + 1, NetArpWaitPacketIP := d, NetArpWaitPacketMAC := ether,
             NetArpWaitTxPacket := NetSetEther s mac PROT_IP @ hdr @ data,
             NetArpWaitTry := 1, NetArpWaitTimerStart := now\<rparr>)"
    have "NetSendUDPPacket now s ether dest dport sport data = arp"
      using True unfolding NetSendUDPPacket_def d_def [symmetric] mac_def [symmetric] Let_def hdr arp_def by simp
    also have "arp = s\<lparr>NetIPID := NetIPID arp, NetArpWaitPacketIP := NetArpWaitPacketIP arp,
        NetArpWaitReplyIP := NetArpWaitReplyIP arp, NetArpWaitPacketMAC := NetArpWaitPacketMAC arp,
        NetArpWaitTxPacket := NetArpWaitTxPacket arp, NetArpWaitTry := NetArpWaitTry arp,
        NetArpWaitTimerStart := NetArpWaitTimerStart arp, eth_sent := eth_sent arp\<rparr>"
      by (simp add: arp_def ArpRequest_def Let_def eth_send_def)
    finally show ?thesis by blast
  next
    case False
    then have "NetSendUDPPacket now s ether dest dport sport data =
        s\<lparr>NetIPID := NetIPID s + 1, NetArpWaitPacketIP := NetArpWaitPacketIP s,
        NetArpWaitReplyIP := NetArpWaitReplyIP s, NetArpWaitPacketMAC := NetArpWaitPacketMAC s,
        NetArpWaitTxPacket := NetArpWaitTxPacket s, NetArpWaitTry := NetArpWaitTry s,
        NetArpWaitTimerStart := NetArpWaitTimerStart s,
        eth_sent := eth_sent s @ [NetSetEther s mac PROT_IP @ hdr @ data]\<rparr>"
      unfolding NetSendUDPPacket_def d_def [symmetric] mac_def [symmetric] Let_def hdr by (simp add: eth_send_def)
    then show ?thesis by blast
  qed
qed

lemma TftpSend_changes:
  obtains ident pip rip mac pkt tries timer sent where "TftpSend now s =
     s\<lparr>NetIPID := ident, NetArpWaitPacketIP := pip, NetArpWaitReplyIP := rip, NetArpWaitPacketMAC := mac,
       NetArpWaitTxPacket := pkt, NetArpWaitTry := tries, NetArpWaitTimerStart := timer, eth_sent := sent\<rparr>"
  using NetSendUDPPacket_changes [of now s Ether_server "TftpServerIP s" "ucast (TftpServerPort s)" "ucast (TftpOurPort s)" "tftp_packet s"]
  unfolding TftpSend_def by blast

lemma same_connection_refl [simp]: "same_connection s s"
  by (simp add: same_connection_def)

lemma same_connection_trans: "same_connection s t \<Longrightarrow> same_connection t u \<Longrightarrow> same_connection s u"
  by (simp add: same_connection_def)

lemma TftpSend_received: "tftp_received contents k (TftpSend now s) \<longleftrightarrow> tftp_received contents k s"
  by (rule TftpSend_changes [of now s]) (simp add: tftp_received_def)

lemma TftpSend_same: "same_connection s (TftpSend now s)"
  by (rule TftpSend_changes [of now s]) (simp add: same_connection_def)

section \<open>One block\<close>

lemma ucast_down_of_nat: "(ucast (of_nat n :: u32) :: u16) = of_nat n"
  by (simp add: word_unat_eq_iff unsigned_ucast_eq unat_of_nat take_bit_eq_mod mod_mod_cancel)

lemma block_step:
  fixes k :: nat and b :: u32
  shows "(of_nat ((k + 1) mod 65536) - 1) * b + of_nat ((k + 1) div 65536 * 65536) * b = of_nat k * b"
proof -
  have "of_nat ((k + 1) mod 65536) + of_nat ((k + 1) div 65536 * 65536) = (of_nat (k + 1) :: u32)"
    unfolding of_nat_add [symmetric] by (simp only: mod_div_mult_eq)
  then have "(of_nat ((k + 1) mod 65536) - 1) + of_nat ((k + 1) div 65536 * 65536) = (of_nat k :: u32)"
    by (simp only: of_nat_add of_nat_1) (simp add: algebra_simps)
  then show ?thesis by (simp only: distrib_right [symmetric])
qed

lemma wrap_step:
  "(if (k + 1) mod 65536 = 0 then of_nat (k div 65536 * 65536 * B) + of_nat B * 65536
    else of_nat (k div 65536 * 65536 * B)) = (of_nat ((k + 1) div 65536 * 65536 * B) :: u32)"
proof (cases "(k + 1) mod 65536 = 0")
  case True
  then have "(k + 1) div 65536 = k div 65536 + 1" by (simp add: mod_Suc div_Suc split: if_splits)
  then show ?thesis using True by (simp add: algebra_simps)
next
  case False
  then have "(k + 1) div 65536 = k div 65536" by (simp add: div_Suc)
  then show ?thesis using False by simp
qed

lemma file_block_facts:
  assumes "0 < B" and "k < block_count B contents"
  shows "k * B \<le> length contents" and "length (file_block B contents (k + 1)) = min B (length contents - k * B)"
    and "min ((k + 1) * B) (length contents) = k * B + length (file_block B contents (k + 1))"
    and "take ((k + 1) * B) contents = take (k * B) contents @ file_block B contents (k + 1)"
proof -
  have "k \<le> length contents div B" using assms(2) by (simp add: block_count_def)
  then have "k * B \<le> length contents div B * B" by (rule mult_le_mono1)
  also have "\<dots> \<le> length contents" by simp
  finally show le: "k * B \<le> length contents" .
  show len: "length (file_block B contents (k + 1)) = min B (length contents - k * B)"
    by (simp add: file_block_def)
  show "min ((k + 1) * B) (length contents) = k * B + length (file_block B contents (k + 1))"
    unfolding len using le by simp
  show "take ((k + 1) * B) contents = take (k * B) contents @ file_block B contents (k + 1)"
    using take_add [of "k * B" B contents] by (simp add: file_block_def add.commute)
qed

lemma memcpy_next_block:
  assumes load: "load m p (length xs) = xs" and src: "load m src (length ys) = ys"
    and size: "length xs + length ys < 2 ^ 32" and disj: "area src (length ys) \<inter> area p (length xs + length ys) = {}"
  shows "load (snd (memcpy m (p + of_nat (length xs)) src (of_nat (length ys)))) p (length xs + length ys) = xs @ ys"
proof -
  have n: "unat (of_nat (length ys) :: u32) = length ys" using size by (simp add: unat_of_nat)
  have "ascending_safe (p + of_nat (length xs)) src (length ys)"
  proof (cases "ys = []")
    case False
    then have "p + of_nat (length xs) \<in> area p (length xs + length ys)"
      using size by (simp add: area_def)
    then have "p + of_nat (length xs) \<notin> area src (length ys)" using disj by blast
    then show ?thesis by (simp add: ascending_safe_def area_def)
  qed (simp add: ascending_safe_def)
  then have "snd (memcpy m (p + of_nat (length xs)) src (of_nat (length ys))) = overwrite m (p + of_nat (length xs)) ys"
    using memcpy.copy_overwrite [of "p + of_nat (length xs)" src "of_nat (length ys)" m] n src by simp
  moreover have "load (overwrite m (p + of_nat (length xs)) ys) (p + of_nat (length xs)) (length ys) = ys"
    using size by (intro load_overwrite) simp
  moreover have "load (overwrite m (p + of_nat (length xs)) ys) p (length xs) = xs"
    using overwrite_append [of xs ys m p] size load by simp
  ultimately show ?thesis by (simp add: load_add)
qed

definition data_accepted :: "u32 \<Rightarrow> u32 \<Rightarrow> nat \<Rightarrow> u32 \<Rightarrow> 'a tftp_state_scheme \<Rightarrow> 'a tftp_state_scheme" where
  "data_accepted now src k w s =
     s\<lparr>TftpBlock := of_nat (k mod 65536), TftpBlockWrap := w, TftpBlockWrapOffset := of_nat (k div 65536 * 65536 * blksize s),
       TftpState := STATE_DATA, TftpServerPort := src, TftpLastBlock := of_nat (k mod 65536),
       TftpTimeoutMSecs := TIMEOUT, TftpTimeoutCountMax := TIMEOUT_COUNT,
       timeHandler := Some Th_tftp, timeStart := now, timeDelta := TIMEOUT\<rparr>"

lemma tftp_data_accepts:
  assumes rec: "tftp_received contents k s" and port: "k = 0 \<or> src = TftpServerPort s"
    and b: "block = of_nat ((k + 1) mod 65536)"
  shows "\<exists>w. tftp_data now pkt src block len s =
    (let t = TftpSend now (store_block (block - 1) pkt len (data_accepted now src (k + 1) w s))
     in if len < ucast (TftpBlkSize s) then t\<lparr>NetState := NETLOOP_SUCCESS\<rparr> else t)"
proof -
  have keeps: "TftpBlkSize (TftpSend now t) = TftpBlkSize t" for t :: "'a tftp_state_scheme"
    by (rule TftpSend_changes [of now t]) simp
  have stores: "TftpBlkSize (store_block j p l t) = TftpBlkSize t" for j p l and t :: "'a tftp_state_scheme"
    by (simp add: store_block_def Let_def)
  have "TIMEOUT \<noteq> 0" by (simp add: TIMEOUT_def)
  show ?thesis
  proof (cases "k = 0")
    case True
    then have "TftpState s = STATE_RRQ \<or> TftpState s = STATE_OACK" "block = 1"
      using rec b by (simp_all add: tftp_received_def)
    moreover define t where "t = s\<lparr>TftpBlock := 1, TftpState := STATE_DATA, TftpServerPort := src, TftpBlockWrap := 0,
       TftpBlockWrapOffset := 0, TftpLastBlock := 1, TftpTimeoutMSecs := TIMEOUT, TftpTimeoutCountMax := TIMEOUT_COUNT,
       timeHandler := Some Th_tftp, timeStart := now, timeDelta := TIMEOUT\<rparr>"
    ultimately have "tftp_data now pkt src block len s =
      (let t = TftpSend now (store_block (block - 1) pkt len t)
       in if len < ucast (TftpBlkSize s) then t\<lparr>NetState := NETLOOP_SUCCESS\<rparr> else t)"
      using \<open>TIMEOUT \<noteq> 0\<close> by (auto simp: tftp_data_def Let_def NetSetTimeout_def keeps stores)
    moreover have "t = data_accepted now src (k + 1) 0 s"
      by (cases s) (simp add: t_def data_accepted_def True)
    ultimately show ?thesis by metis
  next
    case False
    then have st: "TftpState s = STATE_DATA" "TftpLastBlock s = of_nat (k mod 65536)"
        "TftpBlockWrapOffset s = of_nat (k div 65536 * 65536 * blksize s)"
      using rec by (simp_all add: tftp_received_def)
    have zero: "block = 0 \<longleftrightarrow> (k + 1) mod 65536 = 0"
      unfolding b using of_nat_eq32 [of "(k + 1) mod 65536" 0] by simp
    have "(k + 1) mod 65536 \<noteq> k mod 65536" by (simp add: mod_Suc)
    then have new: "block \<noteq> of_nat (k mod 65536)"
      unfolding b using of_nat_eq32 [of "(k + 1) mod 65536" "k mod 65536"] by simp
    have u: "(ucast (TftpBlkSize s) :: u32) = of_nat (blksize s)" by simp
    define w where "w = (if block = 0 then TftpBlockWrap s + 1 else TftpBlockWrap s)"
    have "(if block = 0 then TftpBlockWrapOffset s + ucast (TftpBlkSize s) * TFTP_SEQUENCE_SIZE else TftpBlockWrapOffset s) =
        of_nat ((k + 1) div 65536 * 65536 * blksize s)"
      unfolding zero st(3) u TFTP_SEQUENCE_SIZE_def using wrap_step [of k "blksize s"] by simp
    moreover define t where "t = s\<lparr>TftpBlock := block, TftpBlockWrap := w, TftpBlockWrapOffset :=
       (if block = 0 then TftpBlockWrapOffset s + ucast (TftpBlkSize s) * TFTP_SEQUENCE_SIZE else TftpBlockWrapOffset s),
       TftpLastBlock := block, TftpTimeoutMSecs := TIMEOUT, TftpTimeoutCountMax := TIMEOUT_COUNT,
       timeHandler := Some Th_tftp, timeStart := now, timeDelta := TIMEOUT\<rparr>"
    ultimately have "t = data_accepted now src (k + 1) w s"
      using st(1) port False by (cases s) (simp add: t_def data_accepted_def b)
    moreover have "tftp_data now pkt src block len s =
      (let t = TftpSend now (store_block (block - 1) pkt len t)
       in if len < ucast (TftpBlkSize s) then t\<lparr>NetState := NETLOOP_SUCCESS\<rparr> else t)"
      using \<open>TIMEOUT \<noteq> 0\<close> st(1,2) new
      by (cases "block = 0") (simp_all add: tftp_data_def Let_def NetSetTimeout_def keeps stores t_def w_def)
    ultimately show ?thesis by metis
  qed
qed

text \<open>Storing the next block: memory, size and nothing else.\<close>

lemma store_block_next:
  assumes k: "k < block_count (blksize s) contents" "0 < blksize s"
    and size: "length contents < 2 ^ 32"
    and ofs: "block * ucast (TftpBlkSize s) + TftpBlockWrapOffset s = of_nat (k * blksize s)"
    and prev: "load (ram s) (load_addr s) (min (k * blksize s) (length contents)) = take (k * blksize s) contents"
      "NetBootFileXferSize s = of_nat (min (k * blksize s) (length contents))"
    and src: "load (ram s) src (length (file_block (blksize s) contents (k + 1))) = file_block (blksize s) contents (k + 1)"
    and disj: "area src (length (file_block (blksize s) contents (k + 1))) \<inter> area (load_addr s) (length contents) = {}"
  shows "\<exists>m. store_block block src (of_nat (length (file_block (blksize s) contents (k + 1)))) s =
      s\<lparr>ram := m, NetBootFileXferSize := of_nat (min ((k + 1) * blksize s) (length contents))\<rparr> \<and>
    load m (load_addr s) (min ((k + 1) * blksize s) (length contents)) = take ((k + 1) * blksize s) contents"
proof -
  define B where "B = blksize s"
  define xs where "xs = take (k * B) contents"
  define ys where "ys = file_block B contents (k + 1)"
  note f = file_block_facts [OF k(2,1), folded B_def, folded ys_def xs_def]
  have xs: "length xs = k * B" using f(1) by (simp add: xs_def)
  have le: "length xs + length ys \<le> length contents" using f(1,2) xs by simp
  define m where "m = snd (memcpy (ram s) (load_addr s + of_nat (length xs)) src (of_nat (length ys)))"
  have "area (load_addr s) (length xs + length ys) \<subseteq> area (load_addr s) (length contents)"
    using le by (auto simp: area_def)
  then have "load m (load_addr s) (length xs + length ys) = xs @ ys"
    unfolding m_def using prev(1) f(1) src disj le size
    by (intro memcpy_next_block) (auto simp: xs_def ys_def B_def)
  moreover have total: "min ((k + 1) * B) (length contents) = length xs + length ys"
    using f(3) xs by simp
  moreover have "store_block block src (of_nat (length ys)) s =
      s\<lparr>ram := m, NetBootFileXferSize := of_nat (length xs + length ys)\<rparr>"
  proof -
    have old: "NetBootFileXferSize s = of_nat (length xs)"
      using prev(2) f(1) xs by (simp add: B_def)
    have "\<not> NetBootFileXferSize s < of_nat (length xs) + of_nat (length ys) \<Longrightarrow> length ys = 0"
      using le size unfolding old of_nat_add [symmetric] word_less_nat_alt by (simp add: unat_of_nat del: of_nat_add)
    then show ?thesis
      using ofs xs old unfolding store_block_def Let_def by (auto simp: m_def B_def)
  qed
  ultimately show ?thesis
    using f(4) unfolding B_def [symmetric] ys_def [symmetric] by auto
qed

lemma tftp_data_next:
  fixes now pkt src :: u32 and s :: "'a tftp_state_scheme"
  assumes rec: "tftp_received contents k s" and port: "k = 0 \<or> src = TftpServerPort s"
    and k: "k < block_count (blksize s) contents" "0 < blksize s" and size: "length contents < 2 ^ 32"
    and pkt: "load (ram s) pkt (length (file_block (blksize s) contents (k + 1))) = file_block (blksize s) contents (k + 1)"
    and disj: "area pkt (length (file_block (blksize s) contents (k + 1))) \<inter> area (load_addr s) (length contents) = {}"
  defines "t \<equiv> tftp_data now pkt src (of_nat ((k + 1) mod 65536)) (of_nat (length (file_block (blksize s) contents (k + 1)))) s"
  shows "tftp_received contents (k + 1) t" "same_connection s t" "TftpServerPort t = src"
    "TftpTimeoutCount t = TftpTimeoutCount s" "TftpTimeoutCountMax t = TIMEOUT_COUNT"
    "timeHandler t = Some Th_tftp \<and> timeStart t = now \<and> timeDelta t = TIMEOUT \<and> TftpTimeoutMSecs t = TIMEOUT"
    "NetServerEther s \<noteq> NetEtherNullAddr \<Longrightarrow> TftpServerIP s \<notin> {0, 0xFFFFFFFF} \<Longrightarrow>
      NetArpWaitPacketIP t = NetArpWaitPacketIP s \<and>
      eth_sent t = eth_sent s @ [NetSetEther s (NetServerEther s) PROT_IP @
        fst (NetSetIP s (TftpServerIP s) (ucast src) (ucast (TftpOurPort s)) 4) @
        bytes_be16 TFTP_ACK @ bytes_be16 (of_nat ((k + 1) mod 65536))]"
proof -
  define B where "B = blksize s"
  define block where "block = (of_nat ((k + 1) mod 65536) :: u32)"
  define len where "len = (of_nat (length (file_block B contents (k + 1))) :: u32)"
  obtain w where w: "t = (let t = TftpSend now (store_block (block - 1) pkt len (data_accepted now src (k + 1) w s))
     in if len < ucast (TftpBlkSize s) then t\<lparr>NetState := NETLOOP_SUCCESS\<rparr> else t)"
    using tftp_data_accepts [OF rec port block_def, of now pkt len] unfolding t_def block_def len_def B_def by blast
  define a where "a = data_accepted now src (k + 1) w s"
  have a: "blksize a = B" "load_addr a = load_addr s" "ram a = ram s" "NetBootFileXferSize a = NetBootFileXferSize s"
    "TftpBlockWrapOffset a = of_nat ((k + 1) div 65536 * 65536 * B)"
    by (simp_all add: a_def data_accepted_def B_def)
  have "(ucast (TftpBlkSize a) :: u32) = of_nat (blksize a)" by simp
  then have u: "ucast (TftpBlkSize a) = (of_nat B :: u32)" by (simp only: a(1))
  have "(block - 1) * ucast (TftpBlkSize a) + TftpBlockWrapOffset a = of_nat (k * blksize a)"
    unfolding u a(1,5) block_def using block_step [of k "of_nat B"] by simp
  from store_block_next [OF _ _ size this, of pkt, unfolded a, OF k [folded B_def]] rec pkt disj
  obtain m where m: "store_block (block - 1) pkt len a =
      a\<lparr>ram := m, NetBootFileXferSize := of_nat (min ((k + 1) * B) (length contents))\<rparr>"
    "load m (load_addr s) (min ((k + 1) * B) (length contents)) = take ((k + 1) * B) contents"
    unfolding tftp_received_def B_def [symmetric] len_def [symmetric] by blast
  define b where "b = a\<lparr>ram := m, NetBootFileXferSize := of_nat (min ((k + 1) * B) (length contents))\<rparr>"
  note f = file_block_facts [OF k(2,1), folded B_def]
  have "unat len = length (file_block B contents (k + 1))"
    using f(2) size by (simp add: len_def unat_of_nat)
  moreover have "unat (ucast (TftpBlkSize s) :: u32) = B"
    using unsigned_less [of "TftpBlkSize s", where ?'a = nat] by (simp add: B_def unsigned_ucast_eq take_bit_nat_eq_self)
  ultimately have last: "len < ucast (TftpBlkSize s) \<longleftrightarrow> length contents < (k + 1) * B"
    using f(1,2) k(2) by (auto simp: word_less_nat_alt B_def)
  have cont: "NetState s = NETLOOP_CONTINUE"
    using rec f(1) by (simp add: tftp_received_def B_def)
  have t: "t = (TftpSend now b)\<lparr>NetState := if length contents < (k + 1) * B then NETLOOP_SUCCESS else NETLOOP_CONTINUE\<rparr>"
  proof -
    have "NetState (TftpSend now b) = NETLOOP_CONTINUE"
      by (rule TftpSend_changes [of now b]) (simp add: b_def a_def data_accepted_def cont)
    then show ?thesis
      unfolding w a_def [symmetric] m(1) b_def [symmetric] Let_def last by (cases "TftpSend now b") simp
  qed
  show "tftp_received contents (k + 1) t"
    unfolding t by (rule TftpSend_changes [of now b])
      (simp add: tftp_received_def b_def a_def data_accepted_def B_def m(2) [unfolded B_def, simplified])
  show "same_connection s t" "TftpServerPort t = src" "TftpTimeoutCount t = TftpTimeoutCount s"
    "TftpTimeoutCountMax t = TIMEOUT_COUNT"
    "timeHandler t = Some Th_tftp \<and> timeStart t = now \<and> timeDelta t = TIMEOUT \<and> TftpTimeoutMSecs t = TIMEOUT"
    unfolding t by (rule TftpSend_changes [of now b], simp add: same_connection_def b_def a_def data_accepted_def)+
  assume known: "NetServerEther s \<noteq> NetEtherNullAddr" "TftpServerIP s \<notin> {0, 0xFFFFFFFF}"
  have hdr: "NetSetIP b ip dp sp n = (fst (NetSetIP s ip dp sp n), b\<lparr>NetIPID := NetIPID b + 1\<rparr>)" for ip dp sp n
    by (simp add: NetSetIP_def Let_def b_def a_def data_accepted_def)
  have ack: "tftp_packet b = bytes_be16 TFTP_ACK @ bytes_be16 (of_nat ((k + 1) mod 65536))"
    by (simp add: tftp_packet_def b_def a_def data_accepted_def ucast_down_of_nat)
  have eth: "NetSetEther b = NetSetEther s"
    by (simp add: fun_eq_iff NetSetEther_def b_def a_def data_accepted_def)
  have "TftpSend now b = eth_send (NetSetEther s (NetServerEther s) PROT_IP @
        fst (NetSetIP s (TftpServerIP s) (ucast src) (ucast (TftpOurPort s)) 4) @
        bytes_be16 TFTP_ACK @ bytes_be16 (of_nat ((k + 1) mod 65536))) (b\<lparr>NetIPID := NetIPID b + 1\<rparr>)"
    using known unfolding TftpSend_def NetSendUDPPacket_def ack hdr eth Let_def
    by (simp add: b_def a_def data_accepted_def ether_at_def)
  then show "NetArpWaitPacketIP t = NetArpWaitPacketIP s \<and>
      eth_sent t = eth_sent s @ [NetSetEther s (NetServerEther s) PROT_IP @
        fst (NetSetIP s (TftpServerIP s) (ucast src) (ucast (TftpOurPort s)) 4) @
        bytes_be16 TFTP_ACK @ bytes_be16 (of_nat ((k + 1) mod 65536))]"
    unfolding t by (simp add: eth_send_def b_def a_def data_accepted_def)
qed

section \<open>Packets of the server\<close>

lemma length_data_packet: "length (data_packet B contents k) = 4 + length (file_block B contents k)"
  by (simp add: data_packet_def)

lemma TftpHandler_data:
  assumes pkt: "load (ram s) pkt (length (data_packet B contents k)) = data_packet B contents k"
    and size: "B < 65536"
    and port: "TftpState s = STATE_RRQ \<or> src = TftpServerPort s"
  shows "TftpHandler now pkt (TftpOurPort s) src (of_nat (length (data_packet B contents k))) s =
      Some (tftp_data now (pkt + 4) src (of_nat (k mod 65536)) (of_nat (length (file_block B contents k))) s)"
    and "load (ram s) (pkt + 4) (length (file_block B contents k)) = file_block B contents k"
proof -
  note h = pkt [unfolded data_packet_def]
  have 1: "load (ram s) pkt 2 = bytes_be16 TFTP_DATA"
    using load_prefix(1) [OF h] by simp
  have 2: "load (ram s) (pkt + 2) 2 = bytes_be16 (of_nat (k mod 65536))"
    using load_prefix(1) [OF load_prefix(2) [OF h]] by simp
  show 3: "load (ram s) (pkt + 4) (length (file_block B contents k)) = file_block B contents k"
    using load_prefix(2) [OF load_prefix(2) [OF h]] by (simp add: add.assoc)
  have at: "ntohs_at (ram s) p = w" if "load (ram s) p 2 = bytes_be16 w" for p w
    using that by (simp add: load_def numeral_2_eq_2 bytes_be16_def ntohs_at_def)
  have l: "length (file_block B contents k) < 65536"
    using size by (simp add: file_block_def)
  have sub: "(of_nat (4 + length (file_block B contents k)) :: u32) - 2 = of_nat (2 + length (file_block B contents k))"
    by simp
  have "unat (of_nat (2 + length (file_block B contents k)) :: u32) = 2 + length (file_block B contents k)"
    "unat (of_nat (4 + length (file_block B contents k)) :: u32) = 4 + length (file_block B contents k)"
    using l by (simp_all only: unat_of_nat) simp_all
  then have len: "\<not> (of_nat (4 + length (file_block B contents k)) :: u32) < 2"
    "\<not> (of_nat (4 + length (file_block B contents k)) :: u32) - 2 < 2"
    "(of_nat (4 + length (file_block B contents k)) :: u32) - 2 - 2 = of_nat (length (file_block B contents k))"
    unfolding sub word_less_nat_alt by (simp_all only:) simp_all
  have "(ucast (of_nat (k mod 65536) :: u16) :: u32) = of_nat (k mod 65536)"
    by (rule ucast_of_nat16) simp
  then show "TftpHandler now pkt (TftpOurPort s) src (of_nat (length (data_packet B contents k))) s =
      Some (tftp_data now (pkt + 4) src (of_nat (k mod 65536)) (of_nat (length (file_block B contents k))) s)"
    using len port unfolding TftpHandler_def Let_def length_data_packet at [OF 1] at [OF 2]
    by (auto simp: TFTP_DATA_def TFTP_OACK_def simp del: of_nat_add)
qed

text \<open>A block that is repeated is ignored, unless its number is 0.\<close>

lemma tftp_data_again:
  assumes "tftp_received contents k s" and "k mod 65536 \<noteq> 0"
  shows "tftp_data now pkt src (of_nat (k mod 65536)) len s = s\<lparr>TftpBlock := of_nat (k mod 65536)\<rparr>"
proof -
  have "(of_nat (k mod 65536) :: u32) \<noteq> 0"
    using of_nat_eq32 [of "k mod 65536" 0] assms(2) by simp
  moreover have "k \<noteq> 0" using assms(2) by (cases k) simp_all
  ultimately show ?thesis
    using assms(1) by (simp add: tftp_data_def tftp_received_def Let_def)
qed

text \<open>
  A repeated block with number 0 is ignored only after the offset of the wrap has been raised: the
  blocks that follow are stored 65536 blocks too high.
\<close>

lemma tftp_block_zero_again:
  assumes "tftp_received contents k s" and "k mod 65536 = 0" and "0 < k"
  shows "TftpBlockWrapOffset s = of_nat (k * blksize s)"
    and "TftpBlockWrapOffset (tftp_data now pkt src 0 len s) = of_nat ((k + 65536) * blksize s)"
proof -
  have k: "k = k div 65536 * 65536" using assms(2) by auto
  have r: "TftpState s = STATE_DATA" "TftpLastBlock s = 0" "TftpBlockWrapOffset s = of_nat (k div 65536 * 65536 * blksize s)"
    using assms by (simp_all add: tftp_received_def)
  show off: "TftpBlockWrapOffset s = of_nat (k * blksize s)" using r(3) k by simp
  have "TftpBlockWrapOffset (tftp_data now pkt src 0 len s) = TftpBlockWrapOffset s + ucast (TftpBlkSize s) * TFTP_SEQUENCE_SIZE"
    using r by (simp add: tftp_data_def Let_def)
  then show "TftpBlockWrapOffset (tftp_data now pkt src 0 len s) = of_nat ((k + 65536) * blksize s)"
    by (simp add: off TFTP_SEQUENCE_SIZE_def algebra_simps)
qed

lemma TftpTimeout_retries:
  assumes "TftpTimeoutCount s < TftpTimeoutCountMax s"
  shows "tftp_received contents k (TftpTimeout now s) \<longleftrightarrow> tftp_received contents k s"
    and "same_connection s (TftpTimeout now s)" and "TftpServerPort (TftpTimeout now s) = TftpServerPort s"
    and "TftpTimeoutCount (TftpTimeout now s) = TftpTimeoutCount s + 1"
    and "TftpTimeoutCountMax (TftpTimeout now s) = TftpTimeoutCountMax s"
proof -
  define t where "t = NetSetTimeout now (TftpTimeoutMSecs s) Th_tftp (s\<lparr>TftpTimeoutCount := TftpTimeoutCount s + 1\<rparr>)"
  have t: "TftpTimeout now s = TftpSend now t"
    using assms by (simp add: TftpTimeout_def t_def Let_def)
  show "tftp_received contents k (TftpTimeout now s) \<longleftrightarrow> tftp_received contents k s"
    unfolding t TftpSend_received by (simp add: t_def tftp_received_def NetSetTimeout_def)
  show "same_connection s (TftpTimeout now s)" "TftpServerPort (TftpTimeout now s) = TftpServerPort s"
    "TftpTimeoutCount (TftpTimeout now s) = TftpTimeoutCount s + 1"
    "TftpTimeoutCountMax (TftpTimeout now s) = TftpTimeoutCountMax s"
    unfolding t by (rule TftpSend_changes [of now t], simp add: t_def same_connection_def NetSetTimeout_def)+
qed

text \<open>The last retry restarts the operation.\<close>

lemma TftpTimeout_gives_up:
  "TftpTimeoutCountMax s \<le> TftpTimeoutCount s \<Longrightarrow>
    TftpTimeout now s = NetStartAgain now (s\<lparr>TftpTimeoutCount := TftpTimeoutCount s + 1\<rparr>)"
  by (simp add: TftpTimeout_def Let_def)

text \<open>Packets for another port, and from another port once the transfer runs, have no effect.\<close>

lemma TftpHandler_foreign:
  "dest \<noteq> TftpOurPort s \<or> TftpState s \<noteq> STATE_RRQ \<and> src \<noteq> TftpServerPort s \<Longrightarrow>
    TftpHandler now pkt dest src len s = Some s"
  by (auto simp: TftpHandler_def Let_def)

end
