(* ===== verification/Nfs.thy ===== *)
theory Nfs
  imports Tftp
begin

text \<open>
  The NFS client of \<^verbatim>\<open>net/nfs.c\<close>: it asks the port mapper of the server for two ports, mounts the directory of the
  file, looks the file up, reads it in pieces of 1024 bytes and unmounts; symbolic links are followed. Its variables
  extend those of the TFTP client. The path lies in the array \<open>nfs_path_buff\<close>, where \<open>nfs_path\<close> is
  always its start and \<open>nfs_filename\<close> an index into it. \<open>None\<close> stands for an access outside an
  array, for the use of a part of a reply that was not received, and for a packet that does not fit the transmit buffer.
\<close>

section \<open>State\<close>

datatype nfs_phase =
  STATE_PRCLOOKUP_PROG_MOUNT_REQ | STATE_PRCLOOKUP_PROG_NFS_REQ | STATE_MOUNT_REQ | STATE_UMOUNT_REQ |
  STATE_LOOKUP_REQ | STATE_READ_REQ | STATE_READLINK_REQ

record nfs_state = tftp_state +
  fs_mounted :: bool
  rpc_id :: u32
  nfs_offset :: u32
  nfs_len :: u32
  dirfh :: "u8 list"
  filefh :: "u8 list"
  NfsDownloadState :: net_loop
  NfsServerIP :: u32
  NfsSrvMountPort :: u32
  NfsSrvNfsPort :: u32
  NfsOurPort :: u32
  NfsTimeoutCount :: int
  NfsState :: nfs_phase
  nfs_filename :: nat
  nfs_path_buff :: "u8 list"

definition NFS_RETRY_COUNT :: int where "NFS_RETRY_COUNT = 30"
definition NFS_TIMEOUT :: u32 where "NFS_TIMEOUT = 2000"
definition SUNRPC_PORT :: u32 where "SUNRPC_PORT = 111"
definition PROG_PORTMAP :: u32 where "PROG_PORTMAP = 100000"
definition PROG_NFS :: u32 where "PROG_NFS = 100003"
definition PROG_MOUNT :: u32 where "PROG_MOUNT = 100005"
definition NFS_FHSIZE :: nat where "NFS_FHSIZE = 32"
definition NFS_READ_SIZE :: u32 where "NFS_READ_SIZE = 1024"
definition NFS_PATH_SIZE :: nat where "NFS_PATH_SIZE = 2048"
definition RPC_SIZE :: nat where "RPC_SIZE = 2048"
definition PKTSIZE_ALIGN :: int where "PKTSIZE_ALIGN = 1536"

section \<open>The path\<close>

text \<open>The string at an index of an array; \<open>None\<close> when no zero ends it.\<close>

definition array_str :: "u8 list \<Rightarrow> nat \<Rightarrow> u8 list option" where
  "array_str buf i = (if 0 \<in> set (drop i buf) then Some (takeWhile (\<lambda>c. c \<noteq> 0) (drop i buf)) else None)"

text \<open>Stores bytes into an array.\<close>

definition array_put :: "u8 list \<Rightarrow> nat \<Rightarrow> u8 list \<Rightarrow> u8 list option" where
  "array_put buf i xs =
     (if i + length xs \<le> length buf then Some (take i buf @ xs @ drop (i + length xs) buf) else None)"

text \<open>
  The search for the last slash: the index behind it. Without a slash the C function returns a pointer to the byte before the
  string, which is no index.
\<close>

fun basename_loop :: "u8 list \<Rightarrow> nat \<Rightarrow> nat option" where
  "basename_loop path 0 = None"
| "basename_loop path (Suc fname) = (if path ! fname = 0x2f then Some (Suc fname) else basename_loop path fname)"

definition basename :: "u8 list \<Rightarrow> nat option" where
  "basename buf = do { path \<leftarrow> array_str buf 0; basename_loop path (length path) }"

text \<open>The array with the slash before the base name replaced by a zero; the path returned is its start.\<close>

definition dirname :: "u8 list \<Rightarrow> u8 list option" where
  "dirname buf = do { fname \<leftarrow> basename buf; array_put buf (fname - 1) [0] }"

section \<open>Requests\<close>

definition rpc_add_credentials :: "u8 list" where
  "rpc_add_credentials =
     (let hostnamelen = 0; hl = (hostnamelen + 3) AND NOT 3
      in bytes_be32 1 @ bytes_be32 (hl + 20) @ bytes_be32 0 @ bytes_be32 hostnamelen @
         bytes_be32 0 @ bytes_be32 0 @ bytes_be32 0 @ bytes_be32 0 @ bytes_be32 0)"

definition rpc_req :: "u32 \<Rightarrow> u32 \<Rightarrow> u32 \<Rightarrow> u8 list \<Rightarrow> 'a nfs_state_scheme \<Rightarrow> 'a nfs_state_scheme option" where
  "rpc_req now rpc_prog rpc_proc data s =
     (let s = s\<lparr>rpc_id := rpc_id s + 1\<rparr>;
          pkt = bytes_be32 (rpc_id s) @ bytes_be32 0 @ bytes_be32 2 @ bytes_be32 rpc_prog @ bytes_be32 2 @
            bytes_be32 rpc_proc @ data;
          sport = (if rpc_prog = PROG_PORTMAP then SUNRPC_PORT
                   else if rpc_prog = PROG_MOUNT then NfsSrvMountPort s else NfsSrvNfsPort s)
      in if NetEthHdrSize s + int IP_HDR_SIZE + int (length pkt) > PKTSIZE_ALIGN then None
         else Some (NetSendUDPPacket now s Ether_server (NfsServerIP s) (ucast sport) (ucast (NfsOurPort s)) pkt))"

definition rpc_lookup_req :: "u32 \<Rightarrow> u32 \<Rightarrow> u32 \<Rightarrow> 'a nfs_state_scheme \<Rightarrow> 'a nfs_state_scheme option" where
  "rpc_lookup_req now prog ver s =
     rpc_req now PROG_PORTMAP 3
       (bytes_be32 0 @ bytes_be32 0 @ bytes_be32 0 @ bytes_be32 0 @ bytes_be32 prog @ bytes_be32 ver @ bytes_be32 17 @
        bytes_be32 0) s"

text \<open>A string in a request: its length, and the string padded to a multiple of four bytes.\<close>

definition rpc_string :: "u8 list \<Rightarrow> u8 list" where
  "rpc_string str = bytes_be32 (of_nat (length str)) @ str @ replicate ((length str + 3) div 4 * 4 - length str) 0"

definition nfs_mount_req :: "u32 \<Rightarrow> u8 list \<Rightarrow> 'a nfs_state_scheme \<Rightarrow> 'a nfs_state_scheme option" where
  "nfs_mount_req now path s = rpc_req now PROG_MOUNT 1 (rpc_add_credentials @ rpc_string path) s"

definition nfs_umountall_req :: "u32 \<Rightarrow> 'a nfs_state_scheme \<Rightarrow> 'a nfs_state_scheme option" where
  "nfs_umountall_req now s =
     (if NfsSrvMountPort s = - 1 \<or> \<not> fs_mounted s then Some s else rpc_req now PROG_MOUNT 4 rpc_add_credentials s)"

definition nfs_readlink_req :: "u32 \<Rightarrow> 'a nfs_state_scheme \<Rightarrow> 'a nfs_state_scheme option" where
  "nfs_readlink_req now s = rpc_req now PROG_NFS 5 (rpc_add_credentials @ filefh s) s"

definition nfs_lookup_req :: "u32 \<Rightarrow> u8 list \<Rightarrow> 'a nfs_state_scheme \<Rightarrow> 'a nfs_state_scheme option" where
  "nfs_lookup_req now fname s = rpc_req now PROG_NFS 4 (rpc_add_credentials @ dirfh s @ rpc_string fname) s"

definition nfs_read_req :: "u32 \<Rightarrow> u32 \<Rightarrow> u32 \<Rightarrow> 'a nfs_state_scheme \<Rightarrow> 'a nfs_state_scheme option" where
  "nfs_read_req now ofs readlen s =
     rpc_req now PROG_NFS 6 (rpc_add_credentials @ filefh s @ bytes_be32 ofs @ bytes_be32 readlen @ bytes_be32 0) s"

definition NfsSend :: "u32 \<Rightarrow> 'a nfs_state_scheme \<Rightarrow> 'a nfs_state_scheme option" where
  "NfsSend now s =
     (case NfsState s of
        STATE_PRCLOOKUP_PROG_MOUNT_REQ \<Rightarrow> rpc_lookup_req now PROG_MOUNT 1 s
      | STATE_PRCLOOKUP_PROG_NFS_REQ \<Rightarrow> rpc_lookup_req now PROG_NFS 2 s
      | STATE_MOUNT_REQ \<Rightarrow> do { path \<leftarrow> array_str (nfs_path_buff s) 0; nfs_mount_req now path s }
      | STATE_UMOUNT_REQ \<Rightarrow> nfs_umountall_req now s
      | STATE_LOOKUP_REQ \<Rightarrow> do { fname \<leftarrow> array_str (nfs_path_buff s) (nfs_filename s); nfs_lookup_req now fname s }
      | STATE_READ_REQ \<Rightarrow> nfs_read_req now (nfs_offset s) (nfs_len s) s
      | STATE_READLINK_REQ \<Rightarrow> nfs_readlink_req now s)"

section \<open>Replies\<close>

text \<open>
  The copy of a reply of \<open>len\<close> bytes in the local variable \<open>rpc_pkt\<close>; its words are the identifier (0), the type (1),
  \<open>rstatus\<close> (2), \<open>verifier\<close> (3), \<open>v2\<close> (4), \<open>astatus\<close> (5) and \<open>data\<close> (from 6 on).
\<close>

definition rpc_copy :: "mem \<Rightarrow> addr \<Rightarrow> u32 \<Rightarrow> u8 list option" where
  "rpc_copy m pkt len = (if unat len \<le> RPC_SIZE then Some (load m pkt (unat len)) else None)"

definition rpc_word :: "u8 list \<Rightarrow> nat \<Rightarrow> u32 option" where
  "rpc_word rpc_pkt i =
     (if 4 * i + 4 \<le> length rpc_pkt
      then Some (be32 (rpc_pkt ! (4 * i)) (rpc_pkt ! (4 * i + 1)) (rpc_pkt ! (4 * i + 2)) (rpc_pkt ! (4 * i + 3)))
      else None)"

text \<open>Whether one of the words listed is not zero.\<close>

fun rpc_failed :: "u8 list \<Rightarrow> nat list \<Rightarrow> bool option" where
  "rpc_failed rpc_pkt [] = Some False"
| "rpc_failed rpc_pkt (i # is) = do {
     w \<leftarrow> rpc_word rpc_pkt i;
     if w \<noteq> 0 then Some True else rpc_failed rpc_pkt is }"

definition rpc_refused :: "u8 list \<Rightarrow> nat list \<Rightarrow> 'a nfs_state_scheme \<Rightarrow> bool option" where
  "rpc_refused rpc_pkt is s = do {
     ident \<leftarrow> rpc_word rpc_pkt 0;
     if ident \<noteq> rpc_id s then Some True else rpc_failed rpc_pkt is }"

definition rpc_bytes :: "u8 list \<Rightarrow> nat \<Rightarrow> nat \<Rightarrow> u8 list option" where
  "rpc_bytes rpc_pkt i n =
     (if 4 * i + n \<le> length rpc_pkt then Some (take n (drop (4 * i) rpc_pkt)) else None)"

text \<open>The replies: the value returned and the new state.\<close>

definition rpc_lookup_reply ::
    "u32 \<Rightarrow> addr \<Rightarrow> u32 \<Rightarrow> 'a nfs_state_scheme \<Rightarrow> (int \<times> 'a nfs_state_scheme) option" where
  "rpc_lookup_reply prog pkt len s = do {
     rpc_pkt \<leftarrow> rpc_copy (ram s) pkt len;
     refused \<leftarrow> rpc_refused rpc_pkt [2, 3, 5] s;
     if refused then Some (- 1, s)
     else do {
       port \<leftarrow> rpc_word rpc_pkt 6;
       Some (0, if prog = PROG_MOUNT then s\<lparr>NfsSrvMountPort := port\<rparr>
                else if prog = PROG_NFS then s\<lparr>NfsSrvNfsPort := port\<rparr> else s) } }"

definition nfs_mount_reply :: "addr \<Rightarrow> u32 \<Rightarrow> 'a nfs_state_scheme \<Rightarrow> (int \<times> 'a nfs_state_scheme) option" where
  "nfs_mount_reply pkt len s = do {
     rpc_pkt \<leftarrow> rpc_copy (ram s) pkt len;
     refused \<leftarrow> rpc_refused rpc_pkt [2, 3, 5, 6] s;
     if refused then Some (- 1, s)
     else do { fh \<leftarrow> rpc_bytes rpc_pkt 7 NFS_FHSIZE; Some (0, s\<lparr>fs_mounted := True, dirfh := fh\<rparr>) } }"

definition nfs_umountall_reply :: "addr \<Rightarrow> u32 \<Rightarrow> 'a nfs_state_scheme \<Rightarrow> (int \<times> 'a nfs_state_scheme) option" where
  "nfs_umountall_reply pkt len s = do {
     rpc_pkt \<leftarrow> rpc_copy (ram s) pkt len;
     refused \<leftarrow> rpc_refused rpc_pkt [2, 3, 5] s;
     if refused then Some (- 1, s)
     else Some (0, s\<lparr>fs_mounted := False, dirfh := replicate NFS_FHSIZE 0\<rparr>) }"

definition nfs_lookup_reply :: "addr \<Rightarrow> u32 \<Rightarrow> 'a nfs_state_scheme \<Rightarrow> (int \<times> 'a nfs_state_scheme) option" where
  "nfs_lookup_reply pkt len s = do {
     rpc_pkt \<leftarrow> rpc_copy (ram s) pkt len;
     refused \<leftarrow> rpc_refused rpc_pkt [2, 3, 5, 6] s;
     if refused then Some (- 1, s)
     else do { fh \<leftarrow> rpc_bytes rpc_pkt 7 NFS_FHSIZE; Some (0, s\<lparr>filefh := fh\<rparr>) } }"

text \<open>
  The target of a link replaces the path, or is appended to it when \<open>c\<close>, its first character, is not a slash.
\<close>

definition nfs_follow :: "u8 \<Rightarrow> u8 list \<Rightarrow> u8 list \<Rightarrow> u8 list option" where
  "nfs_follow c target buf =
     (if c \<noteq> 0x2f then do {
        path \<leftarrow> array_str buf 0;
        buf \<leftarrow> array_put buf (length path) [0x2f, 0];
        let pathlen = length path + 1;
        buf \<leftarrow> array_put buf pathlen target;
        array_put buf (pathlen + length target + 1) [0] }
      else do {
        buf \<leftarrow> array_put buf 0 target;
        array_put buf (length target) [0] })"

definition nfs_readlink_reply :: "addr \<Rightarrow> u32 \<Rightarrow> 'a nfs_state_scheme \<Rightarrow> (int \<times> 'a nfs_state_scheme) option" where
  "nfs_readlink_reply pkt len s = do {
     rpc_pkt \<leftarrow> rpc_copy (ram s) pkt len;
     refused \<leftarrow> rpc_refused rpc_pkt [2, 3, 5, 6] s;
     if refused then Some (- 1, s)
     else do {
       rlen \<leftarrow> rpc_word rpc_pkt 7;
       first \<leftarrow> rpc_bytes rpc_pkt 8 1;
       target \<leftarrow> rpc_bytes rpc_pkt 8 (unat rlen);
       buf \<leftarrow> nfs_follow (hd first) target (nfs_path_buff s);
       Some (0, s\<lparr>nfs_path_buff := buf\<rparr>) } }"

definition nfs_store_block :: "addr \<Rightarrow> u32 \<Rightarrow> u32 \<Rightarrow> 'a nfs_state_scheme \<Rightarrow> 'a nfs_state_scheme" where
  "nfs_store_block src ofs len s =
     (let newsize = ofs + len;
          s = s\<lparr>ram := snd (memcpy (ram s) (load_addr s + ofs) src len)\<rparr>
      in if NetBootFileXferSize s < newsize then s\<lparr>NetBootFileXferSize := newsize\<rparr> else s)"

text \<open>A read reply is copied in the length of its header, whatever was received.\<close>

definition nfs_read_reply :: "addr \<Rightarrow> 'a nfs_state_scheme \<Rightarrow> int \<times> 'a nfs_state_scheme" where
  "nfs_read_reply pkt s =
     (let w = (\<lambda>i. NetReadIP (ram s) (pkt + 4 * i))
      in if w 0 \<noteq> rpc_id s then (- 1, s)
         else if w 2 \<noteq> 0 \<or> w 3 \<noteq> 0 \<or> w 5 \<noteq> 0 \<or> w 6 \<noteq> 0 then
           if w 2 \<noteq> 0 then (- 9999, s)
           else if w 5 \<noteq> 0 then (- 9999, s)
           else (sint (- w 6), s)
         else (sint (w 24), nfs_store_block (pkt + 100) (nfs_offset s) (w 24) s))"

section \<open>The state machine\<close>

definition NfsTimeout :: "u32 \<Rightarrow> 'a nfs_state_scheme \<Rightarrow> 'a nfs_state_scheme option" where
  "NfsTimeout now s =
     (let count = NfsTimeoutCount s;
          s = s\<lparr>NfsTimeoutCount := count + 1\<rparr>
      in if count < NFS_RETRY_COUNT then NfsSend now s else Some (s\<lparr>NetState := NETLOOP_FAIL\<rparr>))"

definition nfs_split_path :: "'a nfs_state_scheme \<Rightarrow> 'a nfs_state_scheme option" where
  "nfs_split_path s = do {
     fname \<leftarrow> basename (nfs_path_buff s);
     buf \<leftarrow> dirname (nfs_path_buff s);
     Some (s\<lparr>nfs_filename := fname, nfs_path_buff := buf\<rparr>) }"

definition nfs_read_step :: "u32 \<Rightarrow> addr \<Rightarrow> 'a nfs_state_scheme \<Rightarrow> 'a nfs_state_scheme option" where
  "nfs_read_step now pkt s =
     (let (rlen, s) = nfs_read_reply pkt s;
          s = NetSetTimeout now NFS_TIMEOUT Th_nfs s
      in if rlen > 0 then NfsSend now (s\<lparr>nfs_offset := nfs_offset s + word_of_int rlen\<rparr>)
         else if rlen = - 21 \<or> rlen = - 22 then NfsSend now (s\<lparr>NfsState := STATE_READLINK_REQ\<rparr>)
         else
           let s = (if rlen = 0 then s\<lparr>NfsDownloadState := NETLOOP_SUCCESS\<rparr> else s)
           in NfsSend now (s\<lparr>NfsState := STATE_UMOUNT_REQ\<rparr>))"

definition NfsHandler :: "u32 \<Rightarrow> 'a nfs_state_scheme handler" where
  "NfsHandler now pkt dest src len s =
     (if dest \<noteq> NfsOurPort s then Some s
      else case NfsState s of
        STATE_PRCLOOKUP_PROG_MOUNT_REQ \<Rightarrow> do {
          (_, s) \<leftarrow> rpc_lookup_reply PROG_MOUNT pkt len s;
          NfsSend now (s\<lparr>NfsState := STATE_PRCLOOKUP_PROG_NFS_REQ\<rparr>) }
      | STATE_PRCLOOKUP_PROG_NFS_REQ \<Rightarrow> do {
          (_, s) \<leftarrow> rpc_lookup_reply PROG_NFS pkt len s;
          NfsSend now (s\<lparr>NfsState := STATE_MOUNT_REQ\<rparr>) }
      | STATE_MOUNT_REQ \<Rightarrow> do {
          (r, s) \<leftarrow> nfs_mount_reply pkt len s;
          NfsSend now (s\<lparr>NfsState := (if r \<noteq> 0 then STATE_UMOUNT_REQ else STATE_LOOKUP_REQ)\<rparr>) }
      | STATE_UMOUNT_REQ \<Rightarrow> do {
          (r, s) \<leftarrow> nfs_umountall_reply pkt len s;
          Some (s\<lparr>NetState := (if r \<noteq> 0 then NETLOOP_FAIL else NfsDownloadState s)\<rparr>) }
      | STATE_LOOKUP_REQ \<Rightarrow> do {
          (r, s) \<leftarrow> nfs_lookup_reply pkt len s;
          NfsSend now
            (if r \<noteq> 0 then s\<lparr>NfsState := STATE_UMOUNT_REQ\<rparr>
             else s\<lparr>NfsState := STATE_READ_REQ, nfs_offset := 0, nfs_len := NFS_READ_SIZE\<rparr>) }
      | STATE_READLINK_REQ \<Rightarrow> do {
          (r, s) \<leftarrow> nfs_readlink_reply pkt len s;
          if r \<noteq> 0 then NfsSend now (s\<lparr>NfsState := STATE_UMOUNT_REQ\<rparr>)
          else do { s \<leftarrow> nfs_split_path s; NfsSend now (s\<lparr>NfsState := STATE_MOUNT_REQ\<rparr>) } }
      | STATE_READ_REQ \<Rightarrow> nfs_read_step now pkt s)"

text \<open>The server and the path, as for TFTP but without a limit on the length.\<close>

definition nfs_source :: "'a nfs_state_scheme \<Rightarrow> (u32 \<times> u8 list) option" where
  "nfs_source s =
     (case BootFile s of
        [] \<Rightarrow> map_option (\<lambda>(name, _). (NetServerIP s, name))
          (vsprintf_loop (ram s) (ascii ''/nfsroot/%02lX%02lX%02lX%02lX.img'')
            [NetOurIP s AND 0xff, drop_bit 8 (NetOurIP s) AND 0xff, drop_bit 16 (NetOurIP s) AND 0xff,
             drop_bit 24 (NetOurIP s) AND 0xff] [] [])
      | name \<Rightarrow>
          (case dropWhile (\<lambda>c. c \<noteq> 0x3a) name of
             [] \<Rightarrow> Some (NetServerIP s, name)
           | _ # p \<Rightarrow> map_option (\<lambda>ip. (ip, p)) (string_to_ip (Some name))))"

definition NfsStart :: "u32 \<Rightarrow> 'a nfs_state_scheme \<Rightarrow> 'a nfs_state_scheme option" where
  "NfsStart now s = do {
     (server, path) \<leftarrow> nfs_source s;
     buf \<leftarrow> array_put (nfs_path_buff s) 0 (path @ [0]);
     s \<leftarrow> nfs_split_path (s\<lparr>NfsDownloadState := NETLOOP_FAIL, NfsServerIP := server, nfs_path_buff := buf\<rparr>);
     let s = NetSetHandler Rx_nfs (NetSetTimeout now NFS_TIMEOUT Th_nfs s);
     NfsSend now (s\<lparr>NfsTimeoutCount := 0, NfsState := STATE_PRCLOOKUP_PROG_MOUNT_REQ, NfsOurPort := 1000,
       NetServerEther := replicate 6 0\<rparr>) }"

end
