(* ===== verification/Bootp.thy ===== *)
theory Bootp
  imports Nfs
begin

text \<open>
  The protocols with which the board learns its address: the DHCP client of \<^verbatim>\<open>net/bootp.c\<close> (in the configuration of the
  board the command \<open>bootp\<close> runs it, too) and RARP of \<^verbatim>\<open>net/rarp.c\<close>. A message is a list of bytes when
  it is sent and lies in memory when it is received; \<open>bp\<close> is the address of a received message.
\<close>

section \<open>State\<close>

datatype dhcp_state_t = INIT | INIT_REBOOT | REBOOTING | SELECTING | REQUESTING | REBINDING | BOUND | RENEWING

record bootp_state = nfs_state +
  env_id :: int
  BootpID :: u32
  BootpTry :: int
  dhcp_state :: dhcp_state_t
  dhcp_leasetime :: u32
  NetDHCPServerIP :: u32
  NetOurDNSIP :: u32
  NetOurHostName :: "u8 list"
  NetOurRootPath :: "u8 list"
  RarpTry :: int

definition BOOTP_TIMEOUT :: u32 where "BOOTP_TIMEOUT = 5000"
definition BOOTP_TIMEOUT_COUNT :: int where "BOOTP_TIMEOUT_COUNT = 5"
definition SELECT_TIMEOUT :: u32 where "SELECT_TIMEOUT = 3000"
definition PORT_BOOTPS :: u16 where "PORT_BOOTPS = 67"
definition PORT_BOOTPC :: u16 where "PORT_BOOTPC = 68"
definition CONFIG_DHCP_MIN_EXT_LEN :: nat where "CONFIG_DHCP_MIN_EXT_LEN = 64"
definition BOOTP_VENDOR_MAGIC :: u32 where "BOOTP_VENDOR_MAGIC = 0x63825363"
definition OPT_SIZE :: nat where "OPT_SIZE = 312"
definition DHCP_DISCOVER :: u8 where "DHCP_DISCOVER = 1"
definition DHCP_OFFER :: u8 where "DHCP_OFFER = 2"
definition DHCP_REQUEST :: u8 where "DHCP_REQUEST = 3"
definition DHCP_ACK :: u8 where "DHCP_ACK = 5"
definition DHCP_NAK :: u8 where "DHCP_NAK = 6"

text \<open>The fields of \<open>Bootp_t\<close> as distances from its start.\<close>

definition bp_id :: addr where "bp_id = 4"
definition bp_yiaddr :: addr where "bp_yiaddr = 16"
definition bp_siaddr :: addr where "bp_siaddr = 20"
definition bp_file :: addr where "bp_file = 108"
definition bp_vend :: addr where "bp_vend = 236"
definition BOOTP_HDR_SIZE :: nat where "BOOTP_HDR_SIZE = 236 + OPT_SIZE"

section \<open>Received parameters\<close>

definition BootpCheckPkt :: "addr \<Rightarrow> u32 \<Rightarrow> u32 \<Rightarrow> u32 \<Rightarrow> 'a bootp_state_scheme \<Rightarrow> int" where
  "BootpCheckPkt bp dest src len s =
     (let m = ram s
      in if dest \<noteq> ucast PORT_BOOTPC \<or> src \<noteq> ucast PORT_BOOTPS then - 1
         else if len < of_nat (BOOTP_HDR_SIZE - OPT_SIZE) then - 2
         else if m bp \<noteq> 1 \<and> m bp \<noteq> 2 \<and> m bp \<noteq> DHCP_OFFER \<and> m bp \<noteq> DHCP_ACK \<and> m bp \<noteq> DHCP_NAK then - 3
         else if m (bp + 1) \<noteq> 1 then - 4
         else if m (bp + 2) \<noteq> 6 then - 5
         else if NetReadIP m (bp + bp_id) \<noteq> BootpID s then - 6
         else 0)"

text \<open>
  \<open>setenv\<close> on the list of variables, as \<open>setenv_set_var\<close> shows it for the area: when the environment
  overflows, the variable is deleted.
\<close>

definition setenv_net :: "string \<Rightarrow> u8 list \<Rightarrow> 'a bootp_state_scheme \<Rightarrow> 'a bootp_state_scheme" where
  "setenv_net name val s = s\<lparr>env_vars := set_var (env_vars s) (ascii name) val, env_id := env_id s + 1\<rparr>"

text \<open>Setting \<open>bootfile\<close> with success also stores the name in \<open>BootFile\<close>.\<close>

definition set_bootfile :: "u8 list \<Rightarrow> 'a bootp_state_scheme \<Rightarrow> 'a bootp_state_scheme" where
  "set_bootfile src s = s\<lparr>BootFile := takeWhile (\<lambda>c. c \<noteq> 0) (copy_filename src 128)\<rparr>"

text \<open>\<open>rxpkt\<close> is \<open>NetRxPkt\<close>, the address of the frame received.\<close>

definition BootpCopyNetParams :: "addr \<Rightarrow> addr \<Rightarrow> 'a bootp_state_scheme \<Rightarrow> 'a bootp_state_scheme" where
  "BootpCopyNetParams rxpkt bp s =
     (let m = ram s;
          s = s\<lparr>NetOurIP := NetReadIP m (bp + bp_yiaddr)\<rparr>;
          tmp_ip = NetReadIP m (bp + bp_siaddr);
          s = (if tmp_ip \<noteq> 0 then s\<lparr>NetServerIP := tmp_ip\<rparr> else s);
          s = s\<lparr>NetServerEther := load m (rxpkt + 6) 6\<rparr>;
          s = (if m (bp + bp_file) \<noteq> 0 then set_bootfile (load m (bp + bp_file) 128) s else s)
      in if BootFile s \<noteq> [] then
           let s' = setenv_net ''bootfile'' (BootFile s) s
           in if var_fits (env_vars s) (ascii ''bootfile'') (BootFile s) then set_bootfile (BootFile s) s' else s'
         else s)"

definition truncate_sz :: "nat \<Rightarrow> nat \<Rightarrow> nat" where
  "truncate_sz maxlen curlen = (if curlen \<ge> maxlen then maxlen - 1 else curlen)"

text \<open>A string of \<open>curlen\<close> bytes at \<open>p\<close> as it is stored in an array of \<open>maxlen\<close> bytes.\<close>

definition opt_string :: "mem \<Rightarrow> addr \<Rightarrow> nat \<Rightarrow> nat \<Rightarrow> u8 list" where
  "opt_string m p maxlen curlen = takeWhile (\<lambda>c. c \<noteq> 0) (load m p (truncate_sz maxlen curlen))"

text \<open>The option at \<open>popt\<close>.\<close>

definition dhcp_option :: "addr \<Rightarrow> addr \<Rightarrow> 'a bootp_state_scheme \<Rightarrow> 'a bootp_state_scheme" where
  "dhcp_option popt bp s =
     (let m = ram s; oplen = unat (m (popt + 1)); code = m popt
      in if code = 1 then s\<lparr>NetOurSubnetMask := NetReadIP m (popt + 2)\<rparr>
         else if code = 3 then s\<lparr>NetOurGatewayIP := NetReadIP m (popt + 2)\<rparr>
         else if code = 6 then s\<lparr>NetOurDNSIP := NetReadIP m (popt + 2)\<rparr>
         else if code = 12 then s\<lparr>NetOurHostName := opt_string m (popt + 2) 32 oplen\<rparr>
         else if code = 17 then s\<lparr>NetOurRootPath := opt_string m (popt + 2) 64 oplen\<rparr>
         else if code = 51 then s\<lparr>dhcp_leasetime := NetReadIP m (popt + 2)\<rparr>
         else if code = 54 then s\<lparr>NetDHCPServerIP := NetReadIP m (popt + 2)\<rparr>
         else if code = 67 then
           let sz = truncate_sz 128 oplen
           in if m (bp + bp_file) = 0 \<and> sz > 0
              then s\<lparr>ram := overwrite m (bp + bp_file) (load m (popt + 2) sz @ [0])\<rparr> else s
         else s)"

text \<open>The loop over the options, at distance \<open>i\<close> from the first one; \<open>BOOTP_HDR_SIZE\<close> is the distance of \<open>end\<close>.\<close>

function dhcp_options :: "addr \<Rightarrow> addr \<Rightarrow> nat \<Rightarrow> 'a bootp_state_scheme \<Rightarrow> 'a bootp_state_scheme" where
  "dhcp_options popt bp i s =
     (if i < BOOTP_HDR_SIZE \<and> ram s (popt + of_nat i) \<noteq> 0xff
      then dhcp_options popt bp (i + unat (ram s (popt + of_nat i + 1)) + 2) (dhcp_option (popt + of_nat i) bp s)
      else s)"
  by pat_completeness auto
termination by (relation "measure (\<lambda>(_, _, i, _). BOOTP_HDR_SIZE - i)") auto

declare dhcp_options.simps [simp del]

definition DhcpOptionsProcess :: "addr \<Rightarrow> addr \<Rightarrow> 'a bootp_state_scheme \<Rightarrow> 'a bootp_state_scheme" where
  "DhcpOptionsProcess popt bp s = dhcp_options popt bp 0 s"

partial_function (option) dhcp_type_loop :: "mem \<Rightarrow> addr \<Rightarrow> int option" where
  "dhcp_type_loop m popt =
     (if m popt = 0xff then Some (- 1)
      else if m popt = 53 then Some (uint (m (popt + 2)))
      else dhcp_type_loop m (popt + ucast (m (popt + 1)) + 2))"

definition DhcpMessageType :: "mem \<Rightarrow> addr \<Rightarrow> int option" where
  "DhcpMessageType m popt =
     (if NetReadIP m popt \<noteq> BOOTP_VENDOR_MAGIC then Some (- 1) else dhcp_type_loop m (popt + 4))"

section \<open>Requests\<close>

text \<open>With the options the board asks for: router, host name, size of the boot file, root path.\<close>

definition DhcpExtended :: "u8 \<Rightarrow> u32 \<Rightarrow> u32 \<Rightarrow> u8 list" where
  "DhcpExtended message_type ServerID RequestedIP =
     (let e = [99, 130, 83, 99] @ [53, 1, message_type] @ [57, 2] @ bytes_be16 (of_nat (576 - 312 + OPT_SIZE)) @
            (if ServerID \<noteq> 0 then [54, 4] @ bytes_be32 ServerID else []) @
            (if RequestedIP \<noteq> 0 then [50, 4] @ bytes_be32 RequestedIP else []) @
            [55, 4, 3, 12, 13, 17] @ [255]
      in e @ replicate (CONFIG_DHCP_MIN_EXT_LEN + 1 - length e) 0)"

text \<open>A request up to the options: identifier, own hardware address and boot file; the rest stays zero.\<close>

definition bootp_header :: "u32 \<Rightarrow> u32 \<Rightarrow> u8 list \<Rightarrow> u8 list \<Rightarrow> u8 list" where
  "bootp_header now ident ether name =
     [1, 1, 6, 0] @ bytes_be32 ident @ bytes_be16 (ucast (now div 1000)) @ bytes_be16 0 @ replicate 16 0 @
     take 6 ether @ replicate 10 0 @ replicate 64 0 @ name @ replicate (128 - length name) 0"

text \<open>A request is sent; its length counts an ethernet header without a VLAN tag.\<close>

definition bootp_send :: "u8 list \<Rightarrow> 'a bootp_state_scheme \<Rightarrow> 'a bootp_state_scheme" where
  "bootp_send bp s =
     (let (iphdr, s') = NetSetIP s 0xFFFFFFFF PORT_BOOTPS PORT_BOOTPC (length bp);
          pktlen = nat ETHER_HDR_SIZE + IP_HDR_SIZE + length bp
      in eth_send (take pktlen (NetSetEther s NetBcastAddr PROT_IP @ iphdr @ bp)) s')"

definition BootpRequest :: "u32 \<Rightarrow> 'a bootp_state_scheme \<Rightarrow> 'a bootp_state_scheme" where
  "BootpRequest now s =
     (let s = s\<lparr>dhcp_state := INIT, BootpTry := BootpTry s + 1\<rparr>;
          ether = NetOurEther s;
          ident = be32 (ether ! 2) (ether ! 3) (ether ! 4) (ether ! 5) + now;
          bp = bootp_header now ident ether (copy_filename (BootFile s) 128) @ DhcpExtended DHCP_DISCOVER 0 0;
          s = NetSetTimeout now SELECT_TIMEOUT Th_bootp (s\<lparr>BootpID := ident\<rparr>)
      in bootp_send bp (NetSetHandler Rx_dhcp (s\<lparr>dhcp_state := SELECTING\<rparr>)))"

definition DhcpSendRequestPkt :: "u32 \<Rightarrow> addr \<Rightarrow> 'a bootp_state_scheme \<Rightarrow> 'a bootp_state_scheme" where
  "DhcpSendRequestPkt now bp_offer s =
     (let m = ram s;
          OfferedIP = NetReadIP m (bp_offer + bp_yiaddr)
      in bootp_send (bootp_header now (NetReadIP m (bp_offer + bp_id)) (NetOurEther s) [] @
           DhcpExtended DHCP_REQUEST (NetDHCPServerIP s) OfferedIP) s)"

definition BootpTimeout :: "u32 \<Rightarrow> 'a bootp_state_scheme \<Rightarrow> 'a bootp_state_scheme" where
  "BootpTimeout now s =
     (if BootpTry s \<ge> BOOTP_TIMEOUT_COUNT then NetStartAgain now s
      else BootpRequest now (NetSetTimeout now BOOTP_TIMEOUT Th_bootp s))"

section \<open>The handlers\<close>

text \<open>What follows the configuration, by the variable \<open>autoload\<close>.\<close>

definition autoload_start :: "u32 \<Rightarrow> 'a bootp_state_scheme \<Rightarrow> 'a bootp_state_scheme option" where
  "autoload_start now s =
     (case map_of (env_vars s) (ascii ''autoload'') of
        None \<Rightarrow> TftpStart now s
      | Some v \<Rightarrow>
          if v \<noteq> [] \<and> hd v = 0x6e then Some (s\<lparr>NetState := NETLOOP_SUCCESS\<rparr>)
          else if v = ascii ''NFS'' then NfsStart now s
          else TftpStart now s)"

definition DhcpHandler :: "u32 \<Rightarrow> addr \<Rightarrow> 'a bootp_state_scheme handler" where
  "DhcpHandler now rxpkt bp dest src len s =
     (if BootpCheckPkt bp dest src len s \<noteq> 0 then Some s
      else case dhcp_state s of
        SELECTING \<Rightarrow>
          let s = s\<lparr>dhcp_state := REQUESTING\<rparr>;
              s = (if NetReadIP (ram s) (bp + bp_vend) = BOOTP_VENDOR_MAGIC
                   then DhcpOptionsProcess (bp + bp_vend + 4) bp s else s);
              s = NetSetTimeout now BOOTP_TIMEOUT Th_bootp s
          in Some (DhcpSendRequestPkt now bp s)
      | REQUESTING \<Rightarrow> do {
          type \<leftarrow> DhcpMessageType (ram s) (bp + bp_vend);
          if type = uint DHCP_ACK then
            let s = (if NetReadIP (ram s) (bp + bp_vend) = BOOTP_VENDOR_MAGIC
                     then DhcpOptionsProcess (bp + bp_vend + 4) bp s else s);
                s = BootpCopyNetParams rxpkt bp s
            in autoload_start now (s\<lparr>dhcp_state := BOUND\<rparr>)
          else Some s }
      | _ \<Rightarrow> Some s)"

definition DhcpRequest :: "u32 \<Rightarrow> 'a bootp_state_scheme \<Rightarrow> 'a bootp_state_scheme" where
  "DhcpRequest now s = BootpRequest now s"

section \<open>RARP\<close>

definition RarpHandler :: "u32 \<Rightarrow> 'a bootp_state_scheme handler" where
  "RarpHandler now pkt dest src len s = autoload_start now s"

definition RarpRequest :: "u32 \<Rightarrow> 'a bootp_state_scheme \<Rightarrow> 'a bootp_state_scheme" where
  "RarpRequest now s =
     (let s = s\<lparr>RarpTry := RarpTry s + 1\<rparr>;
          rarp = bytes_be16 1 @ bytes_be16 PROT_IP @ [6, 4] @ bytes_be16 3 @ NetOurEther s @ bytes_be32 (NetOurIP s) @
            NetOurEther s @ replicate 4 0xff
      in NetSetHandler Rx_rarp (NetSetTimeout now BOOTP_TIMEOUT Th_rarp
           (eth_send (NetSetEther s NetBcastAddr PROT_RARP @ rarp) s)))"

definition RarpTimeout :: "u32 \<Rightarrow> 'a bootp_state_scheme \<Rightarrow> 'a bootp_state_scheme" where
  "RarpTimeout now s =
     (if RarpTry s \<ge> BOOTP_TIMEOUT_COUNT then NetStartAgain now s
      else RarpRequest now (NetSetTimeout now BOOTP_TIMEOUT Th_rarp s))"

end
