(* ===== verification/Net_Loop.thy ===== *)
theory Net_Loop
  imports Bootp
begin

text \<open>
  The network loop of \<^verbatim>\<open>net/net.c\<close> with all protocols the board has: TFTP, NFS, DHCP, BOOTP, RARP and ping. Of the ethernet driver,
  \<^verbatim>\<open>drivers/net/dm9000x.c\<close>, the reception \<open>eth_rx\<close> is modelled in the 16-bit mode of the board; the registers of the
  controller are an input: an iteration of the loop takes what the controller offers, with the time at which each
  packet is handled, whether ctrl-C was pressed, and the time of the checks for timeouts. \<open>NetLoop\<close> processes a list
  of iterations; when the list is used up it is still waiting. \<open>None\<close> stands for a loop that does not end,
  an access outside an array or a call through a null pointer.
\<close>

section \<open>State\<close>

datatype proto = BOOTP | RARP | TFTP | DHCP | PING | NFS

record board_state = bootp_state +
  bi_ip_addr :: u32
  bi_enetaddr :: "u8 list"
  env_changed_id :: int
  NetRxPackets :: addr

text \<open>
  A packet in the receive memory of the ethernet controller, as the driver reads it: the byte that
  says whether a packet is ready, status and length, the bytes at the data port, and the time at which
  the packet is handled.
\<close>

record rx_packet =
  rx_time :: u32
  rx_flag :: u8
  rx_status :: u16
  rx_len :: u16
  rx_fifo :: "u8 list"

text \<open>One iteration: the interrupt status register, the packets, the keyboard and the time.\<close>

record net_input =
  in_isr :: u8
  in_packets :: "rx_packet list"
  in_ctrlc :: bool
  in_time :: u32

section \<open>Ping\<close>

text \<open>The packet waits for the hardware address of the destination, which is always asked for.\<close>

definition PingSend :: "u32 \<Rightarrow> 'a net_state_scheme \<Rightarrow> 'a net_state_scheme" where
  "PingSend now s =
     (let s = s\<lparr>ping_mac := NetEtherNullAddr, NetArpWaitPacketIP := NetPingIP s, NetArpWaitPacketMAC := Ether_ping\<rparr>;
          front = [0x45, 0] @ bytes_be16 (of_nat (IP_HDR_SIZE_NO_UDP + 8)) @ bytes_be16 (ucast (NetIPID s)) @
            bytes_be16 0x4000 @ [255, 1];
          addresses = bytes_be32 (NetOurIP s) @ bytes_be32 (NetPingIP s);
          ip_sum = ucast (NOT (NetCksum (front @ bytes_be16 0 @ addresses)));
          seqno = bytes_be16 (PingSeqNo s);
          icmp_sum = ucast (NOT (NetCksum (bytes_be16 0x0800 @ bytes_be16 0 @ bytes_be16 0 @ seqno)));
          pkt = NetSetEther s (ping_mac s) PROT_IP @ front @ bytes_be16 ip_sum @ addresses @
            bytes_be16 0x0800 @ bytes_be16 icmp_sum @ bytes_be16 0 @ seqno
      in ArpRequest (s\<lparr>NetIPID := NetIPID s + 1, PingSeqNo := PingSeqNo s + 1, NetArpWaitTxPacket := pkt,
           NetArpWaitTry := 1, NetArpWaitTimerStart := now\<rparr>))"

definition PingTimeout :: "'a net_state_scheme \<Rightarrow> 'a net_state_scheme" where
  "PingTimeout s = s\<lparr>NetState := NETLOOP_FAIL\<rparr>"

definition PingHandler :: "addr \<Rightarrow> 'a net_state_scheme \<Rightarrow> 'a net_state_scheme" where
  "PingHandler pkt s =
     (if NetReadIP (ram s) (pkt + 12) \<noteq> NetPingIP s then s else s\<lparr>NetState := NETLOOP_SUCCESS\<rparr>)"

definition PingStart :: "u32 \<Rightarrow> 'a net_state_scheme \<Rightarrow> 'a net_state_scheme" where
  "PingStart now s = PingSend now (NetSetHandler Rx_ping (NetSetTimeout now 10000 Th_ping s))"

section \<open>The loop\<close>

text \<open>The calls through \<open>packetHandler\<close> and \<open>timeHandler\<close>.\<close>

definition net_handler :: "u32 \<Rightarrow> 'a board_state_scheme handler" where
  "net_handler now pkt dest src len s =
     (case packetHandler s of
        Rx_none \<Rightarrow> None
      | Rx_tftp \<Rightarrow> TftpHandler now pkt dest src len s
      | Rx_nfs \<Rightarrow> NfsHandler now pkt dest src len s
      | Rx_dhcp \<Rightarrow> DhcpHandler now (NetRxPackets s) pkt dest src len s
      | Rx_rarp \<Rightarrow> RarpHandler now pkt dest src len s
      | Rx_ping \<Rightarrow> Some (PingHandler pkt s)
      | Rx_start_again \<Rightarrow> Some s)"

definition call_time_handler :: "u32 \<Rightarrow> time_handler \<Rightarrow> 'a board_state_scheme \<Rightarrow> 'a board_state_scheme option" where
  "call_time_handler now f s =
     (case f of
        Th_tftp \<Rightarrow> Some (TftpTimeout now s)
      | Th_nfs \<Rightarrow> NfsTimeout now s
      | Th_bootp \<Rightarrow> Some (BootpTimeout now s)
      | Th_rarp \<Rightarrow> Some (RarpTimeout now s)
      | Th_ping \<Rightarrow> Some (PingTimeout s)
      | Th_start_again \<Rightarrow> Some (startAgainTimeout s))"

text \<open>
  The driver reads each packet into the first receive buffer, whatever its length, by halfwords, and
  passes it on when its status and length are right. A flag byte other than 1 ends the reception, as
  does the end of the list, where the flag is 0; stopping or resetting the controller changes no
  state of the model.
\<close>

definition DM9000_PKT_RDY :: u8 where "DM9000_PKT_RDY = 1"
definition DM9000_PKT_MAX :: u16 where "DM9000_PKT_MAX = 1536"

definition dm9000_inblk_16bit :: "addr \<Rightarrow> nat \<Rightarrow> u8 list \<Rightarrow> mem \<Rightarrow> mem" where
  "dm9000_inblk_16bit data_ptr count fifo m = overwrite m data_ptr (take (2 * ((count + 1) div 2)) fifo)"

fun eth_rx_loop :: "rx_packet list \<Rightarrow> 'a board_state_scheme \<Rightarrow> 'a board_state_scheme option" where
  "eth_rx_loop [] s = Some s"
| "eth_rx_loop (p # ps) s =
     (let rxbyte = rx_flag p AND 3
      in if rxbyte > DM9000_PKT_RDY then Some s
         else if rxbyte \<noteq> DM9000_PKT_RDY then Some s
         else
           let s = s\<lparr>ram := dm9000_inblk_16bit (NetRxPackets s) (unat (rx_len p)) (rx_fifo p) (ram s)\<rparr>
           in if rx_status p AND 0xbf00 \<noteq> 0 \<or> rx_len p < 0x40 \<or> rx_len p > DM9000_PKT_MAX then eth_rx_loop ps s
              else do {
                s \<leftarrow> NetReceive (net_handler (rx_time p)) (NetRxPackets s) (int (unat (rx_len p))) s;
                eth_rx_loop ps s })"

definition eth_rx :: "u8 \<Rightarrow> rx_packet list \<Rightarrow> 'a board_state_scheme \<Rightarrow> 'a board_state_scheme option" where
  "eth_rx isr ps s = (if isr AND 1 = 0 then Some s else eth_rx_loop ps s)"

definition NetInitLoop :: "proto \<Rightarrow> 'a board_state_scheme \<Rightarrow> 'a board_state_scheme option" where
  "NetInitLoop protocol s =
     (if env_changed_id s = env_id s then Some s
      else do {
        s \<leftarrow>
          (if protocol = NFS \<or> protocol = PING \<or> protocol = TFTP then do {
             gateway \<leftarrow> getenv_IPaddr (map_of (env_vars s)) ''gatewayip'';
             mask \<leftarrow> getenv_IPaddr (map_of (env_vars s)) ''netmask'';
             vlan \<leftarrow> getenv_VLAN (map_of (env_vars s)) ''vlan'';
             nvlan \<leftarrow> getenv_VLAN (map_of (env_vars s)) ''nvlan'';
             server \<leftarrow> (if protocol = NFS \<or> protocol = TFTP then getenv_IPaddr (map_of (env_vars s)) ''serverip''
               else Some (NetServerIP s));
             Some (s\<lparr>NetOurIP := bi_ip_addr s, NetOurGatewayIP := gateway, NetOurSubnetMask := mask, NetOurVLAN := vlan,
               NetOurNativeVLAN := nvlan, NetServerIP := server\<rparr>) }
           else if protocol = BOOTP \<or> protocol = RARP then do {
             server \<leftarrow> getenv_IPaddr (map_of (env_vars s)) ''serverip'';
             vlan \<leftarrow> getenv_VLAN (map_of (env_vars s)) ''vlan'';
             nvlan \<leftarrow> getenv_VLAN (map_of (env_vars s)) ''nvlan'';
             Some (s\<lparr>NetOurIP := 0, NetServerIP := server, NetOurVLAN := vlan, NetOurNativeVLAN := nvlan\<rparr>) }
           else Some s);
        Some (s\<lparr>env_changed_id := env_id s\<rparr>) })"

text \<open>1 when the network is not configured.\<close>

definition net_check_prereq :: "proto \<Rightarrow> 'a board_state_scheme \<Rightarrow> int" where
  "net_check_prereq protocol s =
     (if protocol = PING \<and> NetPingIP s = 0 then 1
      else if (protocol = NFS \<or> protocol = TFTP) \<and> NetServerIP s = 0 then 1
      else if (protocol = PING \<or> protocol = NFS \<or> protocol = TFTP) \<and> NetOurIP s = 0 then 1
      else if NetOurEther s = replicate 6 0 then 1
      else 0)"

text \<open>The call of the start function of a protocol.\<close>

definition net_start :: "proto \<Rightarrow> u32 \<Rightarrow> 'a board_state_scheme \<Rightarrow> 'a board_state_scheme option" where
  "net_start protocol now s =
     (case protocol of
        TFTP \<Rightarrow> TftpStart now s
      | DHCP \<Rightarrow> do {
          server \<leftarrow> getenv_IPaddr (map_of (env_vars s)) ''serverip'';
          Some (DhcpRequest now (s\<lparr>BootpTry := 0, NetOurIP := 0, NetServerIP := server\<rparr>)) }
      | BOOTP \<Rightarrow> Some (BootpRequest now (s\<lparr>BootpTry := 0\<rparr>))
      | RARP \<Rightarrow> Some (RarpRequest now (s\<lparr>RarpTry := 0\<rparr>))
      | PING \<Rightarrow> Some (PingStart now s)
      | NFS \<Rightarrow> NfsStart now s)"

text \<open>From the label \<open>restart\<close> to the reception loop: the state, or the result of an early return.\<close>

definition net_restart ::
    "proto \<Rightarrow> u32 \<Rightarrow> 'a board_state_scheme \<Rightarrow> (int option \<times> 'a board_state_scheme) option" where
  "net_restart protocol now s = do {
     s \<leftarrow> NetInitLoop protocol (s\<lparr>NetOurEther := bi_enetaddr s, NetState := NETLOOP_CONTINUE\<rparr>);
     if net_check_prereq protocol s = 1 then Some (Some (- 1), s)
     else do {
       s \<leftarrow> net_start protocol now s;
       Some (None, s\<lparr>NetBootFileXferSize := 0\<rparr>) } }"

text \<open>
  The variables set after a transfer; \<open>%lX\<close> prints upper case digits. The result of \<open>setenv\<close>, which
  fails when the environment overflows, is not looked at.
\<close>

definition setenv_hex :: "string \<Rightarrow> u32 \<Rightarrow> 'a board_state_scheme \<Rightarrow> 'a board_state_scheme" where
  "setenv_hex name x s = setenv_net name (digit_string True 16 x) s"

definition net_success :: "'a board_state_scheme \<Rightarrow> int \<times> 'a board_state_scheme" where
  "net_success s =
     (sint (NetBootFileXferSize s),
      if NetBootFileXferSize s > 0
      then setenv_hex ''fileaddr'' (load_addr s) (setenv_hex ''filesize'' (NetBootFileXferSize s) s)
      else s)"

definition run_timeout :: "u32 \<Rightarrow> 'a board_state_scheme \<Rightarrow> 'a board_state_scheme option" where
  "run_timeout now s =
     (case timeHandler s of
        Some f \<Rightarrow>
          if now - timeStart s > timeDelta s then call_time_handler now f (s\<lparr>timeHandler := None\<rparr>) else Some s
      | None \<Rightarrow> Some s)"

text \<open>One iteration: the value returned, if any.\<close>

definition net_iteration ::
    "proto \<Rightarrow> net_input \<Rightarrow> 'a board_state_scheme \<Rightarrow> (int option \<times> 'a board_state_scheme) option" where
  "net_iteration protocol i s = do {
     s \<leftarrow> eth_rx (in_isr i) (in_packets i) s;
     if in_ctrlc i then Some (Some (- 1), s)
     else do {
       s \<leftarrow> run_timeout (in_time i) (ArpTimeoutCheck (in_time i) s);
       (case NetState s of
          NETLOOP_CONTINUE \<Rightarrow> Some (None, s)
        | NETLOOP_RESTART \<Rightarrow> net_restart protocol (in_time i) s
        | NETLOOP_SUCCESS \<Rightarrow> (let (r, s) = net_success s in Some (Some r, s))
        | NETLOOP_FAIL \<Rightarrow> Some (Some (- 1), s)) } }"

fun net_wait ::
    "proto \<Rightarrow> net_input list \<Rightarrow> 'a board_state_scheme \<Rightarrow> (int option \<times> 'a board_state_scheme) option" where
  "net_wait protocol [] s = Some (None, s)"
| "net_wait protocol (i # is) s = do {
     (r, s) \<leftarrow> net_iteration protocol i s;
     (case r of None \<Rightarrow> net_wait protocol is s | Some v \<Rightarrow> Some (Some v, s)) }"

definition net_reset :: "'a board_state_scheme \<Rightarrow> 'a board_state_scheme" where
  "net_reset s =
     s\<lparr>NetArpWaitPacketMAC := Ether_null, NetArpWaitPacketIP := 0, NetArpWaitReplyIP := 0, NetArpWaitTxPacket := []\<rparr>"

text \<open>\<open>eth_up\<close> tells whether \<open>eth_init\<close> succeeds.\<close>

definition NetLoop ::
    "bool \<Rightarrow> proto \<Rightarrow> u32 \<Rightarrow> net_input list \<Rightarrow> 'a board_state_scheme \<Rightarrow>
     (int option \<times> 'a board_state_scheme) option" where
  "NetLoop eth_up protocol now is s =
     (let s = net_reset s
      in if \<not> eth_up then Some (Some (- 1), s)
         else do {
           (r, s) \<leftarrow> net_restart protocol now s;
           (case r of None \<Rightarrow> net_wait protocol is s | Some v \<Rightarrow> Some (Some v, s)) })"

section \<open>Specification\<close>

text \<open>
  A frame as it arrives: behind it the bytes \<open>pad\<close>, the padding to the minimal length of the ethernet
  and the check sequence, which the controller delivers too. With them it has at least 64 and at most
  1536 bytes. Of an odd number of bytes the driver stores one more.
\<close>

definition wire :: "u32 \<Rightarrow> u8 list \<Rightarrow> u8 list \<Rightarrow> rx_packet" where
  "wire now frame pad =
     \<lparr>rx_time = now, rx_flag = 1, rx_status = 0, rx_len = of_nat (length (frame @ pad)), rx_fifo = frame @ pad @ [0]\<rparr>"

definition wire_ok :: "u8 list \<Rightarrow> u8 list \<Rightarrow> bool" where
  "wire_ok frame pad \<longleftrightarrow> 64 \<le> length (frame @ pad) \<and> length (frame @ pad) \<le> 1536"

definition stored :: "u8 list \<Rightarrow> u8 list \<Rightarrow> u8 list" where
  "stored frame pad = take (2 * ((length (frame @ pad) + 1) div 2)) (frame @ pad @ [0])"

text \<open>An iteration in which these packets are received.\<close>

definition received :: "net_input \<Rightarrow> rx_packet list \<Rightarrow> bool" where
  "received i ps \<longleftrightarrow> in_isr i AND 1 \<noteq> 0 \<and> in_packets i = ps"

text \<open>The frame with which \<open>p\<close> answers a request of \<open>c\<close> for its hardware address.\<close>

definition arp_answer :: "'b net_state_scheme \<Rightarrow> 'a board_state_scheme \<Rightarrow> u8 list" where
  "arp_answer p c = NetSetEther p (NetOurEther c) PROT_ARP @
     arp_packet 2 (NetOurEther p) (NetOurIP p) (NetOurEther c) (NetOurIP c)"

text \<open>A packet without the type of RARP at any of the places where \<open>NetReceive\<close> looks for it.\<close>

definition no_rarp :: "rx_packet \<Rightarrow> bool" where
  "no_rarp p \<longleftrightarrow> 22 \<le> length (rx_fifo p) \<and>
     (\<forall>k\<in>{12, 16, 20}. be16 (rx_fifo p ! k) (rx_fifo p ! (k + 1)) \<noteq> PROT_RARP)"

text \<open>A ping that runs, or waits to be started again.\<close>

definition ping_inv :: "'a board_state_scheme \<Rightarrow> bool" where
  "ping_inv s \<longleftrightarrow> env_changed_id s = env_id s \<and> packetHandler s \<in> {Rx_none, Rx_ping, Rx_start_again} \<and>
     timeHandler s \<in> {None, Some Th_ping, Some Th_start_again} \<and> NetBootFileXferSize s = 0"

text \<open>A board to try the code on, as configured and as it comes up.\<close>

definition sample_tftp :: board_state where
  "sample_tftp =
     \<lparr>ram = (\<lambda>_. 0), NetOurEther = replicate 6 0, NetServerEther = replicate 6 0, ping_mac = replicate 6 0,
      NetOurIP = 0xc0a802be, NetServerIP = 0xc0a80264, NetOurGatewayIP = 0xc0a80201, NetOurSubnetMask = 0xffffff00,
      NetPingIP = 0xc0a80264, NetOurVLAN = 0xffff, NetOurNativeVLAN = 0xffff, NetIPID = 0, PingSeqNo = 0,
      NetState = NETLOOP_CONTINUE, NetArpWaitPacketIP = 0, NetArpWaitReplyIP = 0, NetArpWaitPacketMAC = Ether_null,
      NetArpWaitTxPacket = [], NetArpWaitTimerStart = 0, NetArpWaitTry = 0, timeHandler = None, timeStart = 0,
      timeDelta = 0, packetHandler = Rx_none, NetBootFileXferSize = 0, env_vars = [], eth_sent = [],
      TftpTimeoutMSecs = TIMEOUT, TftpTimeoutCountMax = TIMEOUT_COUNT, TftpRRQTimeoutMSecs = TIMEOUT,
      TftpRRQTimeoutCountMax = TIMEOUT_COUNT, TftpServerIP = 0, TftpServerPort = 0, TftpOurPort = 0,
      TftpTimeoutCount = 0, TftpBlock = 0, TftpLastBlock = 0, TftpBlockWrap = 0, TftpBlockWrapOffset = 0,
      TftpState = STATE_RRQ, tftp_filename = [], TftpBlkSize = TFTP_BLOCK_SIZE, TftpBlkSizeOption = TFTP_MTU_BLOCKSIZE,
      BootFile = ascii ''a'', load_addr = 0x100000,
      fs_mounted = False, rpc_id = 0, nfs_offset = 0, nfs_len = 0, dirfh = replicate 32 0, filefh = replicate 32 0,
      NfsDownloadState = NETLOOP_FAIL, NfsServerIP = 0, NfsSrvMountPort = 0, NfsSrvNfsPort = 0, NfsOurPort = 0,
      NfsTimeoutCount = 0, NfsState = STATE_PRCLOOKUP_PROG_MOUNT_REQ, nfs_filename = 0,
      nfs_path_buff = replicate NFS_PATH_SIZE 0,
      env_id = 1, BootpID = 0, BootpTry = 0, dhcp_state = INIT, dhcp_leasetime = 0, NetDHCPServerIP = 0, NetOurDNSIP = 0,
      NetOurHostName = [], NetOurRootPath = [], RarpTry = 0, bi_ip_addr = 0xc0a802be, bi_enetaddr = [8, 0, 0x3e, 0x26, 0x0a, 0x5b],
      env_changed_id = 1, NetRxPackets = 0x2000000\<rparr>"

definition sample_configured :: board_state where
  "sample_configured = (net_reset sample_tftp)\<lparr>NetOurEther := bi_enetaddr sample_tftp, NetState := NETLOOP_CONTINUE\<rparr>"

definition sample_fresh :: board_state where
  "sample_fresh = sample_tftp\<lparr>NetServerIP := 0, env_changed_id := 0,
     env_vars := [(ascii ''serverip'', ascii ''192.168.2.100'')]\<rparr>"

section \<open>Steps of the loop\<close>

lemma stored_prefix:
  "\<exists>rest. stored frame pad = frame @ rest" "wire_ok frame pad \<Longrightarrow> length (stored frame pad) \<le> 1536"
proof -
  have "length frame \<le> 2 * ((length (frame @ pad) + 1) div 2)" by simp
  then show "\<exists>rest. stored frame pad = frame @ rest" by (simp add: stored_def)
  assume "wire_ok frame pad"
  then have "length (frame @ pad) \<le> 1536" by (simp add: wire_ok_def)
  then have "(length (frame @ pad) + 1) div 2 \<le> (1536 + 1) div 2" by (intro div_le_mono) simp
  then have "2 * ((length (frame @ pad) + 1) div 2) \<le> 1536" by simp
  then show "length (stored frame pad) \<le> 1536" unfolding stored_def length_take by linarith
qed

lemma load_stored:
  assumes "wire_ok frame pad"
  shows "load (overwrite m p (stored frame pad)) p (length frame) = frame"
proof -
  obtain rest where r: "stored frame pad = frame @ rest" using stored_prefix(1) by blast
  have "length (frame @ rest) \<le> 2 ^ 32" using stored_prefix(2) [OF assms] unfolding r by simp
  then show ?thesis
    unfolding r using load_overwrite [of "frame @ rest" m p] load_add [of "overwrite m p (frame @ rest)" p "length frame" "length rest"]
    by simp
qed

text \<open>A frame of a good length is passed on to \<open>NetReceive\<close>.\<close>

lemma eth_rx_wire:
  assumes "wire_ok frame pad"
  shows "eth_rx 1 [wire now frame pad] s =
    NetReceive (net_handler now) (NetRxPackets s) (int (length (frame @ pad)))
      (s\<lparr>ram := overwrite (ram s) (NetRxPackets s) (stored frame pad)\<rparr>)"
proof -
  let ?n = "length (frame @ pad)"
  have n: "64 \<le> ?n" "?n \<le> 1536" using assms by (simp_all add: wire_ok_def)
  then have len: "unat (of_nat ?n :: u16) = ?n" unfolding unat_of_nat by simp
  have "\<not> (of_nat ?n :: u16) < 0x40" "\<not> (of_nat ?n :: u16) > DM9000_PKT_MAX"
    using n unfolding word_less_nat_alt len by (simp_all add: DM9000_PKT_MAX_def)
  moreover have "eth_rx_loop [] = (Some :: 'a board_state_scheme \<Rightarrow> _)" by (rule ext) simp
  ultimately show ?thesis
    by (simp add: eth_rx_def wire_def DM9000_PKT_RDY_def dm9000_inblk_16bit_def stored_def len [unfolded length_append] del: of_nat_add)
qed

lemma eth_rx_received: "received i ps \<Longrightarrow> eth_rx (in_isr i) (in_packets i) s = eth_rx 1 ps s"
  by (simp add: received_def eth_rx_def)

lemma calm_checks:
  assumes "NetArpWaitPacketIP s = 0" and "now - timeStart s \<le> timeDelta s"
  shows "run_timeout now (ArpTimeoutCheck now s) = Some s"
proof -
  have "\<not> now - timeStart s > timeDelta s" using assms(2) by simp
  then show ?thesis
    using assms(1) by (simp add: ArpTimeoutCheck_def run_timeout_def split: option.split)
qed

lemma NetInitLoop_keeps:
  assumes "NetInitLoop protocol s = Some c"
  shows "NetState c = NetState s" "load_addr c = load_addr s" "env_vars c = env_vars s"
  using assms by (auto simp: NetInitLoop_def bind_eq_Some_conv split: if_splits)

section \<open>What a ping keeps\<close>

lemma ping_inv_arp: "ping_inv s \<Longrightarrow> ping_inv (receive_arp s inpkt arp len)"
  by (simp add: ping_inv_def receive_arp_def arp_reply_def eth_send_def set_ether_at_def Let_def split: ether_ptr.split)

lemma ping_inv_handler: "ping_inv s \<Longrightarrow> net_handler now pkt dest src len s = Some s' \<Longrightarrow> ping_inv s'"
  by (auto simp: ping_inv_def net_handler_def PingHandler_def split: rx_handler.splits if_splits)

lemma ping_inv_rarp: "ping_inv s \<Longrightarrow> ping_inv (snd (receive_rarp s arp len))"
  by (simp add: ping_inv_def receive_rarp_def Let_def)

lemma ping_inv_echo: "ping_inv s \<Longrightarrow> ping_inv (icmp_echo_reply s inpkt ip len)"
  by (simp add: ping_inv_def icmp_echo_reply_def eth_send_def Let_def)

interpretation ping_kept: packet_invariant ping_inv "net_handler now" for now
  by unfold_locales (fact ping_inv_arp ping_inv_rarp ping_inv_echo ping_inv_handler)+

text \<open>Packets whose protocol field, wherever it is, does not say RARP leave the server's address alone.\<close>

interpretation ping_unserved: packet_kept "\<lambda>s. ping_inv s \<and> NetServerIP s = 0" "net_handler now" for now
proof unfold_locales
  fix s :: "'a board_state_scheme" and inpkt arp ip pkt :: addr and len :: int and n dest src ulen s'
  assume inv: "ping_inv s \<and> NetServerIP s = 0"
  have "NetServerIP (receive_arp s inpkt arp len) = NetServerIP s"
    by (simp add: receive_arp_def arp_reply_def eth_send_def set_ether_at_def Let_def split: ether_ptr.split)
  then show "ping_inv (receive_arp s inpkt arp len) \<and> NetServerIP (receive_arp s inpkt arp len) = 0"
    using inv ping_inv_arp by metis
  have "NetServerIP (icmp_echo_reply s inpkt ip n) = NetServerIP s"
    by (simp add: icmp_echo_reply_def eth_send_def Let_def)
  then show "ping_inv (icmp_echo_reply s inpkt ip n) \<and> NetServerIP (icmp_echo_reply s inpkt ip n) = 0"
    using inv ping_inv_echo by metis
  show "ping_inv s' \<and> NetServerIP s' = 0" if "net_handler now pkt dest src ulen s = Some s'"
    using inv ping_inv_handler [OF _ that] that
    by (auto simp: ping_inv_def net_handler_def PingHandler_def split: rx_handler.splits if_splits)
qed

lemma be16_overwrite:
  assumes "k + 1 < length f" and "length f \<le> 2 ^ 32"
  shows "ntohs_at (overwrite m p f) (p + of_nat k) = be16 (f ! k) (f ! (k + 1))"
proof -
  have "overwrite m p f (p + of_nat j) = f ! j" if "j < length f" for j
    using that assms(2) by (simp add: overwrite_def)
  from this [of k] this [of "k + 1"] assms(1) show ?thesis
    by (simp add: ntohs_at_def ac_simps)
qed

lemma no_rarp_parse:
  assumes "no_rarp p" and "64 \<le> unat (rx_len p)"
    and "ram s = dm9000_inblk_16bit (NetRxPackets s) (unat (rx_len p)) (rx_fifo p) m"
    and "eth_parse s (NetRxPackets s) len = Some (prot, ip, l)"
  shows "prot \<noteq> PROT_RARP"
proof -
  define f where "f = take (2 * ((unat (rx_len p) + 1) div 2)) (rx_fifo p)"
  have len: "22 \<le> length f" "length f \<le> 2 ^ 32" "\<And>k. k < 22 \<Longrightarrow> f ! k = rx_fifo p ! k"
    using assms(1,2) unsigned_less [of "rx_len p", where ?'a = nat] by (auto simp: f_def no_rarp_def min_def)
  have "ntohs_at (ram s) (NetRxPackets s + of_nat k) \<noteq> PROT_RARP" if "k \<in> {12, 16, 20}" for k
    using that assms(1) len be16_overwrite [of k f m "NetRxPackets s"]
    unfolding assms(3) dm9000_inblk_16bit_def f_def [symmetric] by (auto simp: no_rarp_def)
  from this [of 12] this [of 16] this [of 20] assms(4) show ?thesis
    by (auto simp: eth_parse_def Let_def split: if_splits)
qed

text \<open>The three ways of the loop of the driver, with the packet stored.\<close>

lemma eth_rx_loop_cases:
  assumes "eth_rx_loop (p # ps) s = Some s'"
    and "t = s\<lparr>ram := dm9000_inblk_16bit (NetRxPackets s) (unat (rx_len p)) (rx_fifo p) (ram s)\<rparr>"
  obtains (ended) "s' = s"
    | (dropped) "eth_rx_loop ps t = Some s'"
    | (passed) u where "NetReceive (net_handler (rx_time p)) (NetRxPackets t) (int (unat (rx_len p))) t = Some u"
        "eth_rx_loop ps u = Some s'" "64 \<le> unat (rx_len p)"
proof -
  have nr: "NetRxPackets s = NetRxPackets t" by (simp add: assms(2))
  note eq = assms(1) [unfolded eth_rx_loop.simps(2) Let_def, folded assms(2), unfolded nr]
  consider "rx_flag p AND 3 > DM9000_PKT_RDY \<or> rx_flag p AND 3 \<noteq> DM9000_PKT_RDY"
    | "\<not> rx_flag p AND 3 > DM9000_PKT_RDY" "rx_flag p AND 3 = DM9000_PKT_RDY"
      "rx_status p AND 0xbf00 \<noteq> 0 \<or> rx_len p < 0x40 \<or> rx_len p > DM9000_PKT_MAX"
    | "\<not> rx_flag p AND 3 > DM9000_PKT_RDY" "rx_flag p AND 3 = DM9000_PKT_RDY"
      "\<not> (rx_status p AND 0xbf00 \<noteq> 0 \<or> rx_len p < 0x40 \<or> rx_len p > DM9000_PKT_MAX)"
    by blast
  then show thesis
  proof cases
    case 1
    then have "s' = s" using eq by (auto split: if_splits)
    then show thesis by (rule ended)
  next
    case 2
    then show thesis using eq by (intro dropped) simp
  next
    case 3
    then have "64 \<le> unat (rx_len p)" by (simp add: not_less word_le_nat_alt)
    moreover obtain u where "NetReceive (net_handler (rx_time p)) (NetRxPackets t) (int (unat (rx_len p))) t = Some u"
        "eth_rx_loop ps u = Some s'"
      using eq 3 by (auto simp: bind_eq_Some_conv)
    ultimately show thesis by (intro passed)
  qed
qed

lemma ping_rx:
  assumes "eth_rx_loop ps s = Some s'" and "ping_inv s"
  shows "ping_inv s'" and "NetServerIP s = 0 \<Longrightarrow> \<forall>p\<in>set ps. no_rarp p \<Longrightarrow> NetServerIP s' = 0"
proof -
  have "ping_inv s' \<and> (NetServerIP s = 0 \<longrightarrow> (\<forall>p\<in>set ps. no_rarp p) \<longrightarrow> NetServerIP s' = 0)"
    using assms
  proof (induction ps arbitrary: s)
    case (Cons p ps)
    define t where "t = s\<lparr>ram := dm9000_inblk_16bit (NetRxPackets s) (unat (rx_len p)) (rx_fifo p) (ram s)\<rparr>"
    have t: "ping_inv t" "NetServerIP t = NetServerIP s" "NetRxPackets t = NetRxPackets s"
        "ram t = dm9000_inblk_16bit (NetRxPackets t) (unat (rx_len p)) (rx_fifo p) (ram s)"
      using Cons.prems(2) by (simp_all add: t_def ping_inv_def)
    from Cons.prems(1) t_def show ?case
    proof (cases rule: eth_rx_loop_cases)
      case ended
      then show ?thesis using Cons.prems(2) by simp
    next
      case dropped
      then show ?thesis using Cons.IH [OF dropped t(1)] t(2) by simp
    next
      case (passed u)
      have u: "ping_inv u" by (rule ping_kept.kept_by_receive [OF t(1) passed(1)])
      have "NetServerIP u = 0" if "NetServerIP s = 0" "no_rarp p"
        using ping_unserved.kept_without_rarp [OF _ passed(1)] no_rarp_parse [OF that(2) passed(3) t(4)] t(1,2) that(1) by simp
      then show ?thesis using Cons.IH [OF passed(2) u] by simp
    qed
  qed simp
  then show "ping_inv s'" "NetServerIP s = 0 \<Longrightarrow> \<forall>p\<in>set ps. no_rarp p \<Longrightarrow> NetServerIP s' = 0" by blast+
qed

lemma ping_inv_again: "ping_inv s \<Longrightarrow> ping_inv (NetStartAgain now s)"
  by (simp add: ping_inv_def NetStartAgain_def NetSetHandler_def NetSetTimeout_def)

lemma ping_inv_arp_check: "ping_inv s \<Longrightarrow> ping_inv (ArpTimeoutCheck now s)"
  using ping_inv_again [of "s\<lparr>NetArpWaitTry := 0\<rparr>" now]
  by (simp add: ArpTimeoutCheck_def ArpRequest_def Let_def eth_send_def) (simp add: ping_inv_def)

lemma ping_inv_timeout: "ping_inv s \<Longrightarrow> run_timeout now s = Some s' \<Longrightarrow> ping_inv s'"
  by (cases "timeHandler s")
    (auto simp: ping_inv_def run_timeout_def call_time_handler_def PingTimeout_def startAgainTimeout_def split: if_splits)

lemma NetInitLoop_current: "NetInitLoop protocol s = Some c \<Longrightarrow> env_changed_id c = env_id c"
  by (auto simp: NetInitLoop_def bind_eq_Some_conv split: if_splits)

lemma ping_restart:
  assumes "net_restart PING now s = Some (r, s')"
  shows "env_changed_id s' = env_id s'" "r = None \<Longrightarrow> ping_inv s'" "NetServerIP s' = NetServerIP s"
proof -
  obtain c where c: "NetInitLoop PING (s\<lparr>NetOurEther := bi_enetaddr s, NetState := NETLOOP_CONTINUE\<rparr>) = Some c"
    and r: "(if net_check_prereq PING c = 1 then Some (Some (- 1), c)
       else Some (None, (PingStart now c)\<lparr>NetBootFileXferSize := 0\<rparr>)) = Some (r, s')"
    using assms by (auto simp: net_restart_def net_start_def bind_eq_Some_conv split: if_splits)
  have "NetServerIP c = NetServerIP s"
    using c by (auto simp: NetInitLoop_def bind_eq_Some_conv split: if_splits)
  with NetInitLoop_current [OF c] r
  show "env_changed_id s' = env_id s'" "r = None \<Longrightarrow> ping_inv s'" "NetServerIP s' = NetServerIP s"
    by (auto simp: PingStart_def PingSend_def ArpRequest_def eth_send_def NetSetHandler_def NetSetTimeout_def ping_inv_def
        Let_def split: if_splits)
qed

text \<open>The checks for timeouts, and the end of an iteration.\<close>

lemma ping_checks:
  assumes "ping_inv s" and "run_timeout now (ArpTimeoutCheck now s) = Some u"
  shows "ping_inv u" and "NetServerIP u = NetServerIP s"
proof -
  have inv: "ping_inv (ArpTimeoutCheck now s)" by (rule ping_inv_arp_check [OF assms(1)])
  then show "ping_inv u" using assms(2) by (rule ping_inv_timeout)
  have "NetServerIP u = NetServerIP (ArpTimeoutCheck now s)"
    using assms(2) inv
    by (cases "timeHandler (ArpTimeoutCheck now s)")
      (auto simp: ping_inv_def run_timeout_def call_time_handler_def PingTimeout_def startAgainTimeout_def split: if_splits)
  also have "\<dots> = NetServerIP s"
    by (simp add: ArpTimeoutCheck_def ArpRequest_def NetStartAgain_def NetSetHandler_def NetSetTimeout_def Let_def eth_send_def)
  finally show "NetServerIP u = NetServerIP s" .
qed

lemma ping_iteration:
  assumes "ping_inv s" and "net_iteration PING i s = Some (r, s')"
  shows "env_changed_id s' = env_id s'" "r = None \<Longrightarrow> ping_inv s'"
    and "NetServerIP s = 0 \<Longrightarrow> \<forall>p\<in>set (in_packets i). no_rarp p \<Longrightarrow> NetServerIP s' = 0"
proof -
  obtain t where t: "eth_rx (in_isr i) (in_packets i) s = Some t"
    using assms(2) by (auto simp: net_iteration_def bind_eq_Some_conv)
  have inv: "ping_inv t" and served: "NetServerIP s = 0 \<Longrightarrow> \<forall>p\<in>set (in_packets i). no_rarp p \<Longrightarrow> NetServerIP t = 0"
    using t assms(1) ping_rx [of "in_packets i" s t] by (auto simp: eth_rx_def split: if_splits)
  have "env_changed_id s' = env_id s' \<and> (r = None \<longrightarrow> ping_inv s') \<and> NetServerIP s' = NetServerIP t"
  proof (cases "in_ctrlc i")
    case True
    then show ?thesis using assms(2) inv t by (simp add: net_iteration_def ping_inv_def)
  next
    case False
    then obtain u where u: "run_timeout (in_time i) (ArpTimeoutCheck (in_time i) t) = Some u"
      and r: "(case NetState u of
          NETLOOP_CONTINUE \<Rightarrow> Some (None, u)
        | NETLOOP_RESTART \<Rightarrow> net_restart PING (in_time i) u
        | NETLOOP_SUCCESS \<Rightarrow> (let (r, s) = net_success u in Some (Some r, s))
        | NETLOOP_FAIL \<Rightarrow> Some (Some (- 1), u)) = Some (r, s')"
      using assms(2) t unfolding net_iteration_def by (auto simp: bind_eq_Some_conv)
    then show ?thesis
      using ping_checks [OF inv u] ping_restart [of "in_time i" u r s']
      by (auto simp: net_success_def ping_inv_def split: net_loop.splits)
  qed
  with served show "env_changed_id s' = env_id s'" "r = None \<Longrightarrow> ping_inv s'"
    "NetServerIP s = 0 \<Longrightarrow> \<forall>p\<in>set (in_packets i). no_rarp p \<Longrightarrow> NetServerIP s' = 0" by auto
qed

lemma ping_wait:
  assumes "net_wait PING is s = Some (r, s')" and "ping_inv s"
  shows "env_changed_id s' = env_id s'"
    and "NetServerIP s = 0 \<Longrightarrow> \<forall>i\<in>set is. \<forall>p\<in>set (in_packets i). no_rarp p \<Longrightarrow> NetServerIP s' = 0"
proof -
  have "env_changed_id s' = env_id s' \<and>
      (NetServerIP s = 0 \<longrightarrow> (\<forall>i\<in>set is. \<forall>p\<in>set (in_packets i). no_rarp p) \<longrightarrow> NetServerIP s' = 0)"
    using assms
  proof (induction "is" arbitrary: s)
    case (Cons i "is")
    then obtain q t where t: "net_iteration PING i s = Some (q, t)" by (auto simp: bind_eq_Some_conv)
    note it = ping_iteration [OF Cons.prems(2) t]
    show ?case
      using Cons.prems(1) t it Cons.IH [of t] by (cases q) auto
  qed (simp add: ping_inv_def)
  then show "env_changed_id s' = env_id s'"
    "NetServerIP s = 0 \<Longrightarrow> \<forall>i\<in>set is. \<forall>p\<in>set (in_packets i). no_rarp p \<Longrightarrow> NetServerIP s' = 0" by blast+
qed

lemma zero_mac: "replicate 6 0 = [0, 0, 0, 0, 0, 0]"
  by (simp add: eval_nat_numeral)

section \<open>Properties\<close>

text \<open>
  C15: After a ping on a board that has not used the network before, so that \<open>NetServerIP\<close> is still 0, a TFTP transfer
  with the environment unchanged fails at once and sends nothing, whatever the variable \<open>serverip\<close> says and whatever
  packets arrived during the ping, RARP replies excepted: \<open>NetInitLoop\<close> for a ping marks the environment as read
  without reading \<open>serverip\<close>, so that the transfer finds no server. A RARP reply would name one.
\<close>

theorem tftp_after_ping:
  assumes ping: "NetLoop True PING t0 is0 s = Some (r, s1)" and fresh: "NetServerIP s = 0"
    and packets: "\<forall>i\<in>set is0. \<forall>p\<in>set (in_packets i). no_rarp p"
  shows "\<exists>s2. NetLoop True TFTP t1 is1 s1 = Some (Some (- 1), s2) \<and> eth_sent s2 = eth_sent s1"
proof -
  obtain q u where u: "net_restart PING t0 (net_reset s) = Some (q, u)"
    using ping by (auto simp: NetLoop_def bind_eq_Some_conv)
  have "NetServerIP u = 0" using ping_restart(3) [OF u] fresh by (simp add: net_reset_def)
  then have "env_changed_id s1 = env_id s1" "NetServerIP s1 = 0"
    using ping u ping_restart(1,2) [OF u] ping_wait [of is0 u] packets by (cases q; auto simp: NetLoop_def)+
  then show ?thesis
    by (simp add: NetLoop_def net_restart_def NetInitLoop_def net_check_prereq_def net_reset_def)
qed

theorem tftp_after_ping_witness:
  "\<exists>s1 s2. NetLoop True PING 0 [\<lparr>in_isr = 0, in_packets = [], in_ctrlc = True, in_time = 9\<rparr>] sample_fresh = Some (Some (- 1), s1) \<and>
    map_of (env_vars s1) (ascii ''serverip'') = Some (ascii ''192.168.2.100'') \<and>
    NetLoop True TFTP 10 [] s1 = Some (Some (- 1), s2) \<and> eth_sent s2 = eth_sent s1"
proof -
  obtain s1 where s1: "NetLoop True PING 0 [\<lparr>in_isr = 0, in_packets = [], in_ctrlc = True, in_time = 9\<rparr>] sample_fresh = Some (Some (- 1), s1)"
    "map_of (env_vars s1) (ascii ''serverip'') = Some (ascii ''192.168.2.100'')"
    by (simp add: NetLoop_def net_restart_def net_start_def NetInitLoop_def net_check_prereq_def sample_fresh_def sample_tftp_def net_reset_def zero_mac
        getenv_IPaddr_def getenv_VLAN_def string_to_ip_def string_to_VLAN_def ascii_def net_iteration_def eth_rx_def
        PingStart_def PingSend_def ArpRequest_def NetSetHandler_def NetSetTimeout_def eth_send_def Let_def)
  have "NetServerIP sample_fresh = 0" by (simp add: sample_fresh_def)
  with tftp_after_ping [OF s1(1)] s1 show ?thesis by auto
qed

end
