(* ===== verification/Net_Ping.thy ===== *)
theory Net_Ping
  imports Net_Loop
begin

text \<open>
  Ping between two hosts that run this code: the echo request the board sends, the answer \<open>NetReceive\<close> of the
  other host makes of it, and the acceptance of the answer.
\<close>

section \<open>Specification\<close>

text \<open>An IP header without options, and an ICMP message of eight bytes.\<close>

definition ip_header :: "u8 \<Rightarrow> u16 \<Rightarrow> u16 \<Rightarrow> u16 \<Rightarrow> u32 \<Rightarrow> u32 \<Rightarrow> u8 list" where
  "ip_header prot tot ident off src dst =
     (let front = [0x45, 0] @ bytes_be16 tot @ bytes_be16 ident @ bytes_be16 off @ [255, prot];
          addresses = bytes_be32 src @ bytes_be32 dst
      in front @ bytes_be16 (ucast (NOT (NetCksum (front @ bytes_be16 0 @ addresses)))) @ addresses)"

definition icmp_message :: "u8 \<Rightarrow> u16 \<Rightarrow> u8 list" where
  "icmp_message type seqno =
     [type, 0] @ bytes_be16 (ucast (NOT (NetCksum ([type, 0] @ bytes_be16 0 @ bytes_be16 0 @ bytes_be16 seqno)))) @
     bytes_be16 0 @ bytes_be16 seqno"

definition echo_frame :: "'a net_state_scheme \<Rightarrow> u8 list \<Rightarrow> u8 \<Rightarrow> u16 \<Rightarrow> u16 \<Rightarrow> u32 \<Rightarrow> u16 \<Rightarrow> u8 list" where
  "echo_frame s mac type ident off dst seqno =
     NetSetEther s mac PROT_IP @ ip_header 1 28 ident off (NetOurIP s) dst @ icmp_message type seqno"

text \<open>A board configured for the network that pings host \<open>p\<close> on its own net, without virtual networks.\<close>

definition ping_configured :: "'b net_state_scheme \<Rightarrow> 'a board_state_scheme \<Rightarrow> bool" where
  "ping_configured p c \<longleftrightarrow>
     net_check_prereq PING c = 0 \<and> NetOurIP p = NetPingIP c \<and> arp_target c (NetPingIP c) = NetPingIP c \<and>
     NetEthHdrSize c = 14 \<and> same_vlan c p \<and> length (NetOurEther c) = 6 \<and> length (NetOurEther p) = 6"

definition echo_request :: "'b net_state_scheme \<Rightarrow> 'a board_state_scheme \<Rightarrow> u8 list" where
  "echo_request p c = echo_frame c (NetOurEther p) 8 (ucast (NetIPID c)) 0x4000 (NetPingIP c) (PingSeqNo c)"

definition echo_answer :: "'b net_state_scheme \<Rightarrow> 'a board_state_scheme \<Rightarrow> u8 list" where
  "echo_answer p c = echo_frame p (NetOurEther c) 0 (ucast (NetIPID c)) 0 (NetOurIP c) (PingSeqNo c)"

text \<open>The server with the echo request of the sample board in its receive buffer.\<close>

definition sample_pinged :: net_state where
  "sample_pinged = sample_received (echo_request sample_server sample_configured)"

section \<open>Headers\<close>

lemma length_ip_header [simp]: "length (ip_header prot tot ident off src dst) = 20"
  by (simp add: ip_header_def Let_def)

lemma length_icmp_message [simp]: "length (icmp_message type seqno) = 8"
  by (simp add: icmp_message_def)

lemma ip_header_fields:
  assumes "load m ip 20 = ip_header prot tot ident off src dst"
  shows "m ip = 0x45" "ntohs_at m (ip + 2) = tot" "ntohs_at m (ip + 6) = off" "m (ip + 9) = prot"
    "NetReadIP m (ip + 12) = src" "NetReadIP m (ip + 16) = dst" "NetCksumOk (load m ip 20)"
proof -
  note f = load_nth_eq [OF assms]
  note hdr = ip_header_def Let_def bytes_be16_def bytes_be32_def
  show "m ip = 0x45" "m (ip + 9) = prot"
    using f [of 0] f [of 9] by (simp_all add: hdr)
  show "ntohs_at m (ip + 2) = tot"
    using f [of 2] f [of 3] by (simp add: hdr ntohs_at_def add.assoc)
  show "ntohs_at m (ip + 6) = off"
    using f [of 6] f [of 7] by (simp add: hdr ntohs_at_def add.assoc)
  show "NetReadIP m (ip + 12) = src"
    using f [of 12] f [of 13] f [of 14] f [of 15] by (simp add: hdr NetReadIP_def add.assoc)
  show "NetReadIP m (ip + 16) = dst"
    using f [of 16] f [of 17] f [of 18] f [of 19] by (simp add: hdr NetReadIP_def add.assoc)
  show "NetCksumOk (load m ip 20)"
    unfolding assms ip_header_def Let_def by (rule checksummed_ok) simp_all
qed

text \<open>A valid header with ICMP behind it: requests are answered, answers passed to the handler.\<close>

lemma receive_ip_icmp:
  assumes hdr: "load (ram s) ip 20 = ip_header 1 28 ident off src (NetOurIP s)" and off: "off AND 0x3fff = 0"
    and len: "28 \<le> len" "len < 2 ^ 31"
  shows "receive_ip h s inpkt ip len =
    (if ram s (ip + 20) = 0 then h ip 0 0 0 s
     else if ram s (ip + 20) = 8 then Some (icmp_echo_reply s inpkt ip 28) else Some s)"
proof -
  note f = ip_header_fields [OF hdr]
  have "unat (word_of_int len :: u32) = nat len"
    using len by (simp add: unat_eq_nat_uint uint_word_of_int)
  then have "\<not> (word_of_int len :: u32) < of_nat IP_HDR_SIZE"
    using len by (simp add: word_less_nat_alt IP_HDR_SIZE_def)
  moreover have "NetCksumOk (load (ram s) ip IP_HDR_SIZE_NO_UDP)"
    using f(7) by (simp add: IP_HDR_SIZE_NO_UDP_def)
  moreover have "(0x45 :: u8) AND 0xf0 = 0x40" "(0x45 :: u8) AND 0x0f = 5" by simp_all
  ultimately show ?thesis
    using len off unfolding receive_ip_def Let_def f(1-6) by simp
qed

lemma NetReceive_ip_frame:
  assumes frame: "load (ram s) inpkt (length frame) = frame" "frame = NetSetEther srv mac PROT_IP @ pkt"
    and macs: "length mac = 6" "length (NetOurEther srv) = 6" and vlan: "same_vlan s srv"
    and len: "int (length frame) \<le> len"
  shows "NetReceive h inpkt len s =
      receive_ip h s inpkt (inpkt + word_of_int (NetEthHdrSize srv)) (len - NetEthHdrSize srv)"
    and "load (ram s) (inpkt + word_of_int (NetEthHdrSize srv)) (length pkt) = pkt"
    and "load (ram s) inpkt (length (NetSetEther srv mac PROT_IP)) = NetSetEther srv mac PROT_IP"
proof -
  let ?ip = "inpkt + word_of_int (NetEthHdrSize srv)"
  note l = of_nat_length_NetSetEther [OF macs, of PROT_IP]
  note e = load_prefix [OF frame(1) [unfolded frame(2)], unfolded l(1)]
  show "load (ram s) ?ip (length pkt) = pkt" "load (ram s) inpkt (length (NetSetEther srv mac PROT_IP)) = NetSetEther srv mac PROT_IP"
    by (fact e)+
  have "NetEthHdrSize srv \<le> len" using len l(2) unfolding frame(2) by simp
  then have "eth_parse s inpkt len = Some (PROT_IP, ?ip, len - NetEthHdrSize srv)"
    by (intro eth_parse_NetSetEther [OF e(1) macs vlan]) (simp_all add: PROT_IP_def PROT_VLAN_def)
  then show "NetReceive h inpkt len s = receive_ip h s inpkt ?ip (len - NetEthHdrSize srv)"
    by (simp add: NetReceive_def PROT_IP_def PROT_ARP_def PROT_RARP_def)
qed

section \<open>The answer\<close>

text \<open>The packet while it is changed: fragment offset, checksum, addresses, type and ICMP checksum.\<close>

definition echo_packet :: "u16 \<Rightarrow> u16 \<Rightarrow> u16 \<Rightarrow> u16 \<Rightarrow> u32 \<Rightarrow> u32 \<Rightarrow> u8 \<Rightarrow> u16 \<Rightarrow> u8 list" where
  "echo_packet ident seqno off ip_sum src dst type icmp_sum =
     ([0x45, 0] @ bytes_be16 28 @ bytes_be16 ident) @ bytes_be16 off @ [255, 1] @ bytes_be16 ip_sum @ bytes_be32 src @
     bytes_be32 dst @ [type, 0] @ bytes_be16 icmp_sum @ bytes_be16 0 @ bytes_be16 seqno"

lemma echo_packet_headers:
  "ip_header 1 28 ident off src dst @ icmp_message type seqno =
     echo_packet ident seqno off
       (ucast (NOT (NetCksum (take 20 (echo_packet ident seqno off 0 src dst type 0))))) src dst type
       (ucast (NOT (NetCksum (drop 20 (echo_packet ident seqno off 0 src dst type 0)))))"
  by (simp add: echo_packet_def ip_header_def icmp_message_def Let_def)

lemma echo_ip_part:
  fixes m2 :: mem and inpkt us :: u32
  assumes eth: "load m2 inpkt 14 = E" and ip: "load m2 (inpkt + 14) 28 = echo_packet ident seqno off sm src dst 8 cs"
  defines "m3 \<equiv> overwrite m2 (inpkt + 14 + 10) (bytes_be16 0)"
  defines "m4 \<equiv> overwrite m3 (inpkt + 14 + 6) (bytes_be16 0)"
  defines "m5 \<equiv> overwrite m4 (inpkt + 14 + 16) (load m4 (inpkt + 14 + 12) 4)"
  defines "m6 \<equiv> overwrite m5 (inpkt + 14 + 12) (bytes_be32 us)"
  defines "m7 \<equiv> overwrite m6 (inpkt + 14 + 10) (bytes_be16 (ucast (NOT (NetCksum (load m6 (inpkt + 14) 20)))))"
  defines "m8 \<equiv> overwrite m7 (inpkt + 14 + 20) [0]"
  defines "m9 \<equiv> overwrite m8 (inpkt + 14 + 22) (bytes_be16 0)"
  defines "m10 \<equiv> overwrite m9 (inpkt + 14 + 22) (bytes_be16 (ucast (NOT (NetCksum (load m9 (inpkt + 14 + 20) 8)))))"
  shows "load m10 inpkt 42 = E @ ip_header 1 28 ident 0 us src @ icmp_message 0 seqno"
proof -
  let ?pkt = "echo_packet ident seqno"
  define at where "at m X \<longleftrightarrow> load m inpkt 14 = E \<and> load m (inpkt + 14) 28 = X" for m X
  have step: "at (overwrite m (inpkt + 14 + of_nat k) ys) (take k X @ ys @ drop (k + length ys) X)"
    if "at m X" "k + length ys \<le> 28" for m k ys X
    using packet_update [of m inpkt 14 E 28 X k ys] that by (simp add: at_def)
  have 2: "at m2 (?pkt off sm src dst 8 cs)" using eth ip by (simp add: at_def)
  have 3: "at m3 (?pkt off 0 src dst 8 cs)"
    using step [OF 2, of 10 "bytes_be16 0"] by (simp add: m3_def echo_packet_def)
  have 4: "at m4 (?pkt 0 0 src dst 8 cs)"
    using step [OF 3, of 6 "bytes_be16 0"] by (simp add: m4_def echo_packet_def)
  have "load m4 (inpkt + 14 + 12) 4 = bytes_be32 src"
    using load_part [of 12 4 28 m4 "inpkt + 14"] 4 by (simp add: at_def echo_packet_def)
  then have 5: "at m5 (?pkt 0 0 src src 8 cs)"
    using step [OF 4, of 16 "bytes_be32 src"] by (simp add: m5_def echo_packet_def)
  have 6: "at m6 (?pkt 0 0 us src 8 cs)"
    using step [OF 5, of 12 "bytes_be32 us"] by (simp add: m6_def echo_packet_def)
  define sm' where "sm' = (ucast (NOT (NetCksum (load m6 (inpkt + 14) 20))) :: u16)"
  have sm': "sm' = ucast (NOT (NetCksum (take 20 (?pkt 0 0 us src 0 0))))"
    using load_part [of 0 20 28 m6 "inpkt + 14"] 6 by (simp add: sm'_def at_def echo_packet_def)
  have 7: "at m7 (?pkt 0 sm' us src 8 cs)"
    using step [OF 6, of 10 "bytes_be16 sm'"] by (simp add: m7_def echo_packet_def sm'_def)
  have 8: "at m8 (?pkt 0 sm' us src 0 cs)"
    using step [OF 7, of 20 "[0]"] by (simp add: m8_def echo_packet_def)
  have 9: "at m9 (?pkt 0 sm' us src 0 0)"
    using step [OF 8, of 22 "bytes_be16 0"] by (simp add: m9_def echo_packet_def)
  define cs' where "cs' = (ucast (NOT (NetCksum (load m9 (inpkt + 14 + 20) 8))) :: u16)"
  have cs': "cs' = ucast (NOT (NetCksum (drop 20 (?pkt 0 0 us src 0 0))))"
    using load_part [of 20 8 28 m9 "inpkt + 14"] 9 by (simp add: cs'_def at_def echo_packet_def)
  have "at m10 (?pkt 0 sm' us src 0 cs')"
    using step [OF 9, of 22 "bytes_be16 cs'"] by (simp add: m10_def echo_packet_def cs'_def)
  then show ?thesis
    using load_add [of m10 inpkt 14 28] unfolding echo_packet_headers sm' cs' by (simp add: at_def)
qed

lemma icmp_echo_reply_frame:
  assumes eth: "load (ram s) inpkt 14 = dmac @ smac @ prot"
    and ip: "load (ram s) (inpkt + 14) 28 = ip_header 1 28 ident off src dst @ icmp_message 8 seqno"
    and macs: "length dmac = 6" "length smac = 6" "length prot = 2" "length (NetOurEther s) = 6"
  shows "\<exists>m. icmp_echo_reply s inpkt (inpkt + 14) 28 =
    eth_send (smac @ NetOurEther s @ prot @ ip_header 1 28 ident 0 (NetOurIP s) src @ icmp_message 0 seqno) (s\<lparr>ram := m\<rparr>)"
proof -
  define m1 where "m1 = overwrite (ram s) inpkt (load (ram s) (inpkt + 6) 6)"
  define m2 where "m2 = overwrite m1 (inpkt + 6) (NetOurEther s)"
  define E where "E = smac @ NetOurEther s @ prot"
  define X where "X = ip_header 1 28 ident off src dst @ icmp_message 8 seqno"
  have len: "length E = 14" "length X = 28" using macs by (simp_all add: E_def X_def)
  have all0: "load (ram s) inpkt 42 = dmac @ smac @ prot @ X"
    using eth ip load_add [of "ram s" inpkt 14 28] by (simp add: X_def)
  have "load (ram s) (inpkt + 6) 6 = smac"
    using load_part [of 6 6 42 "ram s" inpkt] all0 macs by simp
  then have "load m1 inpkt 42 = smac @ smac @ prot @ X"
    using load_overwrite_mid [of 0 smac 42 "ram s" inpkt] all0 macs by (simp add: m1_def)
  then have "load m2 inpkt 42 = E @ X"
    using load_overwrite_mid [of 6 "NetOurEther s" 42 m1 inpkt] macs by (simp add: m2_def E_def)
  then have "load m2 inpkt 14 = E" "load m2 (inpkt + 14) 28 = X"
    using load_add [of m2 inpkt 14 28] len by (simp_all add: append_eq_append_conv)
  note frame = echo_ip_part [OF this(1) this(2) [unfolded X_def echo_packet_headers], of "NetOurIP s"]
  have n: "(28 - 20) div 2 * 2 = (8 :: nat)" "14 + 28 = (42 :: nat)" by simp_all
  show ?thesis
    unfolding icmp_echo_reply_def Let_def m1_def [symmetric] m2_def [symmetric] n frame E_def append_assoc by (rule exI, rule refl)
qed

lemma no_vlan_header: "NetEthHdrSize s = 14 \<Longrightarrow> NetSetEther s mac prot = mac @ NetOurEther s @ bytes_be16 prot"
  by (simp add: NetEthHdrSize_def NetSetEther_def ETHER_HDR_SIZE_def VLAN_ETHER_HDR_SIZE_def split: if_splits)

lemma echo_request_answered:
  assumes frame: "load (ram p) inpkt (length frame) = frame" "frame = echo_frame cl (NetOurEther p) 8 ident off (NetOurIP p) seqno"
    and macs: "length (NetOurEther p) = 6" "length (NetOurEther cl) = 6" and vlan: "same_vlan p cl" "NetEthHdrSize p = 14"
    and len: "int (length frame) \<le> len" "len < 2 ^ 31" and off: "off AND 0x3fff = 0"
  shows "\<exists>m. NetReceive h inpkt len p =
    Some (eth_send (echo_frame p (NetOurEther cl) 0 ident 0 (NetOurIP cl) seqno) (p\<lparr>ram := m\<rparr>))"
proof -
  let ?ip = "inpkt + 14"
  have e14: "NetEthHdrSize cl = 14" using vlan same_vlan_size by metis
  note e = no_vlan_header [OF e14] and ep = no_vlan_header [OF vlan(2)]
  note r1 = NetReceive_ip_frame(1) [OF frame(1) frame(2) [unfolded echo_frame_def] macs vlan(1) len(1), unfolded e14]
  note r = NetReceive_ip_frame(2,3) [OF frame(1) frame(2) [unfolded echo_frame_def] macs vlan(1) len(1), unfolded e14]
  have ip: "load (ram p) ?ip 28 = ip_header 1 28 ident off (NetOurIP cl) (NetOurIP p) @ icmp_message 8 seqno"
    using r(1) by simp
  have eth: "load (ram p) inpkt 14 = NetOurEther p @ NetOurEther cl @ bytes_be16 PROT_IP"
    using r(2) macs by (simp add: e)
  have hdr: "load (ram p) ?ip 20 = ip_header 1 28 ident off (NetOurIP cl) (NetOurIP p)"
    using load_take [OF ip, of 20] by simp
  have "ram p (?ip + of_nat 20) = 8"
    using load_nth_eq [OF ip, of 20] by (simp add: nth_append icmp_message_def)
  moreover have "int (length frame) = 42" using macs by (simp add: frame(2) echo_frame_def e)
  ultimately have "NetReceive h inpkt len p = Some (icmp_echo_reply p inpkt ?ip 28)"
    using r1 [of h] receive_ip_icmp [OF hdr off, of "len - 14" h inpkt] len by simp
  then show ?thesis
    using icmp_echo_reply_frame [OF eth ip macs _ macs(1)] by (simp add: echo_frame_def ep)
qed

lemma echo_reply_accepted:
  assumes frame: "load (ram s) inpkt (length frame) = frame" "frame = echo_frame p (NetOurEther s) 0 ident 0 (NetOurIP s) seqno"
    and macs: "length (NetOurEther s) = 6" "length (NetOurEther p) = 6" and vlan: "same_vlan s p" "NetEthHdrSize p = 14"
    and len: "int (length frame) \<le> len" "len < 2 ^ 31"
  shows "NetReceive h inpkt len s = h (inpkt + 14) 0 0 0 s" and "NetReadIP (ram s) (inpkt + 14 + 12) = NetOurIP p"
proof -
  let ?ip = "inpkt + 14"
  note r1 = NetReceive_ip_frame(1) [OF frame(1) frame(2) [unfolded echo_frame_def] macs vlan(1) len(1), unfolded vlan(2)]
  note r = NetReceive_ip_frame(2) [OF frame(1) frame(2) [unfolded echo_frame_def] macs vlan(1) len(1), unfolded vlan(2)]
  have ip: "load (ram s) ?ip 28 = ip_header 1 28 ident 0 (NetOurIP p) (NetOurIP s) @ icmp_message 0 seqno"
    using r by simp
  have hdr: "load (ram s) ?ip 20 = ip_header 1 28 ident 0 (NetOurIP p) (NetOurIP s)"
    using load_take [OF ip, of 20] by simp
  have "ram s (?ip + of_nat 20) = 0"
    using load_nth_eq [OF ip, of 20] by (simp add: nth_append icmp_message_def)
  moreover have "int (length frame) = 42"
    using macs by (simp add: frame(2) echo_frame_def no_vlan_header [OF vlan(2)])
  ultimately show "NetReceive h inpkt len s = h ?ip 0 0 0 s"
    using r1 [of h] receive_ip_icmp [OF hdr, of "len - 14" h inpkt] len by simp
  show "NetReadIP (ram s) (?ip + 12) = NetOurIP p" by (rule ip_header_fields(5) [OF hdr])
qed

text \<open>The state of a ping that waits for the hardware address.\<close>

lemma PingStart_asks:
  "PingStart now c = eth_send (NetSetEther c NetBcastAddr PROT_ARP @
        arp_packet 1 (NetOurEther c) (NetOurIP c) (replicate 6 0) (arp_target c (NetPingIP c)))
     (c\<lparr>timeHandler := Some Th_ping, timeStart := now, timeDelta := 10000, packetHandler := Rx_ping,
        ping_mac := NetEtherNullAddr, NetArpWaitPacketIP := NetPingIP c, NetArpWaitPacketMAC := Ether_ping,
        NetIPID := NetIPID c + 1, PingSeqNo := PingSeqNo c + 1,
        NetArpWaitTxPacket := echo_frame c NetEtherNullAddr 8 (ucast (NetIPID c)) 0x4000 (NetPingIP c) (PingSeqNo c),
        NetArpWaitTry := 1, NetArpWaitTimerStart := now, NetArpWaitReplyIP := arp_target c (NetPingIP c)\<rparr>)"
proof -
  have b: "bytes_be16 0x0800 = [8, 0]" "bytes_be16 (of_nat (IP_HDR_SIZE_NO_UDP + 8)) = bytes_be16 28"
    by (simp_all add: bytes_be16_def IP_HDR_SIZE_NO_UDP_def)
  show ?thesis
    unfolding PingStart_def PingSend_def Let_def b
    by (simp add: NetSetHandler_def NetSetTimeout_def ArpRequest_def arp_target_def arp_packet_def NetSetEther_def
        echo_frame_def ip_header_def icmp_message_def Let_def eth_send_def)
qed

lemma ping_arp_answered:
  fixes c :: "'a board_state_scheme"
  assumes conf: "ping_configured p c" and w: "w = (PingStart now c)\<lparr>NetBootFileXferSize := 0\<rparr>"
    and cont: "NetState c = NETLOOP_CONTINUE" and pad: "wire_ok (arp_answer p c) pad"
  obtains z where "eth_rx 1 [wire ta (arp_answer p c) pad] w = Some z"
    and "eth_sent z = eth_sent w @ [echo_request p c]"
    and "NetArpWaitPacketIP z = 0" "timeStart z = now" "timeDelta z = 10000" "NetState z = NETLOOP_CONTINUE"
      "packetHandler z = Rx_ping" "NetPingIP z = NetPingIP c" "NetOurEther z = NetOurEther c" "NetOurIP z = NetOurIP c"
      "NetOurVLAN z = NetOurVLAN c" "NetBootFileXferSize z = 0"
proof -
  note cf = conf [unfolded ping_configured_def]
  have ip: "NetOurIP c \<noteq> 0" "NetPingIP c \<noteq> 0" using cf by (auto simp: net_check_prereq_def split: if_splits)
  define f where "f = arp_answer p c"
  define v where "v = w\<lparr>ram := overwrite (ram w) (NetRxPackets w) (stored f pad)\<rparr>"
  have frame: "load (ram v) (NetRxPackets w) (length f) = f"
    using load_stored [OF pad] by (simp add: v_def f_def)
  have vf: "NetOurEther v = NetOurEther c" "NetOurIP v = NetOurIP c" "NetOurVLAN v = NetOurVLAN c"
      "NetArpWaitPacketIP v = NetPingIP c" "NetArpWaitPacketMAC v = Ether_ping" "NetArpWaitReplyIP v = NetOurIP p"
      "NetArpWaitTxPacket v = echo_frame c NetEtherNullAddr 8 (ucast (NetIPID c)) 0x4000 (NetPingIP c) (PingSeqNo c)"
      "timeStart v = now" "timeDelta v = 10000" "NetState v = NETLOOP_CONTINUE" "packetHandler v = Rx_ping"
      "NetPingIP v = NetPingIP c" "NetBootFileXferSize v = 0" "eth_sent v = eth_sent w"
    using cf cont by (simp_all add: v_def w PingStart_asks eth_send_def)
  define z where "z = (eth_send (NetOurEther p @ drop 6 (NetArpWaitTxPacket v)) (set_ether_at v (NetArpWaitPacketMAC v) (NetOurEther p)))
      \<lparr>NetArpWaitPacketIP := 0, NetArpWaitTxPacket := [], NetArpWaitPacketMAC := Ether_null\<rparr>"
  have "NetReceive (net_handler ta) (NetRxPackets w) (int (length (f @ pad))) v = Some z"
    unfolding z_def
    by (rule arp_reply_accepted [OF frame, where p = p and tha = "NetOurEther c"])
      (use cf ip in \<open>auto simp: f_def arp_answer_def vf same_vlan_def\<close>)
  then have rx: "eth_rx 1 [wire ta (arp_answer p c) pad] w = Some z"
    by (simp only: eth_rx_wire [OF pad] v_def f_def)
  have z: "z = v\<lparr>eth_sent := eth_sent w @ [echo_request p c], ping_mac := NetOurEther p, NetArpWaitPacketIP := 0,
      NetArpWaitTxPacket := [], NetArpWaitPacketMAC := Ether_null\<rparr>"
    by (simp add: z_def vf set_ether_at_def eth_send_def echo_request_def echo_frame_def NetSetEther_def NetEtherNullAddr_def)
  show thesis
    by (rule that [OF rx]) (simp_all add: z vf)
qed

lemma ping_reply_ends:
  fixes z :: "'a board_state_scheme"
  assumes conf: "ping_configured p c"
    and z: "NetArpWaitPacketIP z = 0" "timeStart z = now" "timeDelta z = 10000" "packetHandler z = Rx_ping"
      "NetPingIP z = NetPingIP c" "NetOurEther z = NetOurEther c" "NetOurIP z = NetOurIP c" "NetOurVLAN z = NetOurVLAN c"
      "NetBootFileXferSize z = 0"
    and echo: "received j [wire tb (echo_answer p c) pad]" "\<not> in_ctrlc j" "in_time j - now \<le> 10000"
    and pad: "wire_ok (echo_answer p c) pad"
  shows "\<exists>s'. net_iteration PING j z = Some (Some 0, s')"
proof -
  note cf = conf [unfolded ping_configured_def]
  have p14: "NetEthHdrSize p = 14" using cf same_vlan_size by metis
  define f where "f = echo_answer p c"
  define y where "y = z\<lparr>ram := overwrite (ram z) (NetRxPackets z) (stored f pad)\<rparr>"
  have fl: "int (length f) = 42" using cf by (simp add: f_def echo_answer_def echo_frame_def no_vlan_header [OF p14])
  have frame: "load (ram y) (NetRxPackets z) (length f) = f"
    using load_stored [OF pad] by (simp add: y_def f_def)
  have len: "int (length f) \<le> int (length (f @ pad))" "int (length (f @ pad)) < 2 ^ 31"
    using pad by (simp_all add: wire_ok_def f_def)
  have f: "f = echo_frame p (NetOurEther y) 0 (ucast (NetIPID c)) 0 (NetOurIP y) (PingSeqNo c)"
    by (simp add: f_def echo_answer_def y_def z)
  have yf: "length (NetOurEther y) = 6" "same_vlan y p"
    using cf fl by (simp_all add: y_def z same_vlan_def)
  note a = echo_reply_accepted [OF frame f yf(1) _ yf(2) p14 len]
  have "NetReadIP (ram y) (NetRxPackets z + 14 + 12) = NetPingIP y"
    using a(2) cf by (simp add: y_def z)
  then have "NetReceive (net_handler tb) (NetRxPackets z) (int (length (f @ pad))) y = Some (y\<lparr>NetState := NETLOOP_SUCCESS\<rparr>)"
    using a(1) [of "net_handler tb"] cf z(4) by (simp add: net_handler_def PingHandler_def y_def)
  then have rx: "eth_rx (in_isr j) (in_packets j) z = Some (y\<lparr>NetState := NETLOOP_SUCCESS\<rparr>)"
    by (simp only: eth_rx_received [OF echo(1)] eth_rx_wire [OF pad] y_def f_def)
  have "run_timeout (in_time j) (ArpTimeoutCheck (in_time j) (y\<lparr>NetState := NETLOOP_SUCCESS\<rparr>)) = Some (y\<lparr>NetState := NETLOOP_SUCCESS\<rparr>)"
    using echo(3) z by (intro calm_checks) (simp_all add: y_def)
  then show ?thesis
    using rx echo(2) z(9) by (simp add: net_iteration_def net_success_def y_def)
qed

section \<open>Properties\<close>

text \<open>
  C13: A ping succeeds: on a board configured for the network, once the answer of the host for its hardware address has
  come through the driver, padded to the length the driver asks for, the loop
  sends the echo request, after the ARP request and nothing else; the host, running the same code, answers
  it with an echo reply; and when the loop receives this reply in time, \<open>NetLoop\<close> returns 0.
\<close>

theorem ping_answered:
  fixes h :: "'b net_state_scheme handler"
  assumes init: "NetInitLoop PING ((net_reset s)\<lparr>NetOurEther := bi_enetaddr s, NetState := NETLOOP_CONTINUE\<rparr>) = Some c"
    and conf: "ping_configured p c"
    and arp: "received i [wire ta (arp_answer p c) pa]" "\<not> in_ctrlc i" "in_time i - now \<le> 10000"
    and echo: "received j [wire tb (echo_answer p c) pb]" "\<not> in_ctrlc j" "in_time j - now \<le> 10000"
    and pads: "wire_ok (arp_answer p c) pa" "wire_ok (echo_answer p c) pb"
  shows "(\<exists>z request. NetLoop True PING now [i] s = Some (None, z) \<and> eth_sent z = eth_sent c @ [request, echo_request p c]) \<and>
    (\<forall>inpkt len. load (ram p) inpkt (length (echo_request p c)) = echo_request p c \<and>
        int (length (echo_request p c)) \<le> len \<and> len < 2 ^ 31 \<longrightarrow>
      (\<exists>p'. NetReceive h inpkt len p = Some p' \<and> eth_sent p' = eth_sent p @ [echo_answer p c])) \<and>
    (\<exists>s'. NetLoop True PING now [i, j] s = Some (Some 0, s'))"
proof -
  note cf = conf [unfolded ping_configured_def]
  have p14: "NetEthHdrSize p = 14" using cf same_vlan_size by metis
  have cont: "NetState c = NETLOOP_CONTINUE" using NetInitLoop_keeps(1) [OF init] by simp
  define w where "w = (PingStart now c)\<lparr>NetBootFileXferSize := 0\<rparr>"
  have start: "net_restart PING now (net_reset s) = Some (None, w)"
    using init cf by (simp add: net_restart_def net_start_def net_reset_def w_def)
  obtain z where z: "eth_rx 1 [wire ta (arp_answer p c) pa] w = Some z" "eth_sent z = eth_sent w @ [echo_request p c]"
    "NetArpWaitPacketIP z = 0" "timeStart z = now" "timeDelta z = 10000" "NetState z = NETLOOP_CONTINUE"
    "packetHandler z = Rx_ping" "NetPingIP z = NetPingIP c" "NetOurEther z = NetOurEther c" "NetOurIP z = NetOurIP c"
    "NetOurVLAN z = NetOurVLAN c" "NetBootFileXferSize z = 0"
    using ping_arp_answered [OF conf w_def cont pads(1), of ta] by metis
  have "run_timeout (in_time i) (ArpTimeoutCheck (in_time i) z) = Some z"
    using arp(3) z by (intro calm_checks) simp_all
  then have first: "net_iteration PING i w = Some (None, z)"
    using z(1,6) arp(2) by (simp add: net_iteration_def eth_rx_received [OF arp(1)])
  then have "NetLoop True PING now [i] s = Some (None, z)"
    using start by (simp add: NetLoop_def)
  moreover have "\<exists>request. eth_sent z = eth_sent c @ [request, echo_request p c]"
    using z(2) by (simp add: w_def PingStart_asks eth_send_def)
  moreover have "\<exists>p'. NetReceive h inpkt len p = Some p' \<and> eth_sent p' = eth_sent p @ [echo_answer p c]"
    if "load (ram p) inpkt (length (echo_request p c)) = echo_request p c" "int (length (echo_request p c)) \<le> len" "len < 2 ^ 31"
    for inpkt len
  proof -
    have req: "echo_request p c = echo_frame c (NetOurEther p) 8 (ucast (NetIPID c)) 0x4000 (NetOurIP p) (PingSeqNo c)"
      using cf by (simp add: echo_request_def)
    have "same_vlan p c" using cf by (simp add: same_vlan_def)
    from echo_request_answered [OF that(1) req _ _ this p14 that(2,3), of h] cf
    show ?thesis by (auto simp: eth_send_def echo_answer_def)
  qed
  moreover have "\<exists>s'. NetLoop True PING now [i, j] s = Some (Some 0, s')"
    using ping_reply_ends [OF conf z(3-5,7-12) echo pads(2)] start first by (auto simp: NetLoop_def)
  ultimately show ?thesis by blast
qed

theorem ping_answered_witness:
  "\<exists>z request p' s'.
    NetLoop True PING 0 [\<lparr>in_isr = 1, in_packets = [wire 1 (arp_answer sample_pinged sample_configured) (replicate 22 0)], in_ctrlc = False, in_time = 2\<rparr>]
      sample_tftp = Some (None, z) \<and>
    eth_sent z = eth_sent sample_configured @ [request, echo_request sample_pinged sample_configured] \<and>
    NetReceive (\<lambda>_ _ _ _. Some) 0x1000 42 sample_pinged = Some p' \<and>
    eth_sent p' = eth_sent sample_pinged @ [echo_answer sample_pinged sample_configured] \<and>
    NetLoop True PING 0 [\<lparr>in_isr = 1, in_packets = [wire 1 (arp_answer sample_pinged sample_configured) (replicate 22 0)], in_ctrlc = False, in_time = 2\<rparr>,
      \<lparr>in_isr = 1, in_packets = [wire 3 (echo_answer sample_pinged sample_configured) (replicate 22 0)], in_ctrlc = False, in_time = 4\<rparr>]
      sample_tftp = Some (Some 0, s')"
proof -
  let ?p = sample_pinged and ?c = sample_configured
  let ?i = "\<lparr>in_isr = 1, in_packets = [wire 1 (arp_answer ?p ?c) (replicate 22 0)], in_ctrlc = False, in_time = 2\<rparr>"
  let ?j = "\<lparr>in_isr = 1, in_packets = [wire 3 (echo_answer ?p ?c) (replicate 22 0)], in_ctrlc = False, in_time = 4\<rparr>"
  note hosts = sample_pinged_def sample_received_def sample_configured_def sample_tftp_def sample_server_def sample_host_def
    net_reset_def
  have r: "echo_request ?p ?c = echo_request sample_server ?c"
    by (simp add: echo_request_def sample_pinged_def sample_received_def)
  have c14: "NetEthHdrSize ?c = 14"
    by (simp add: hosts NetEthHdrSize_def our_vlan_def VLAN_NONE_def VLAN_IDMASK_def ETHER_HDR_SIZE_def)
  then have l: "length (echo_request sample_server ?c) = 42"
    by (simp add: echo_request_def echo_frame_def no_vlan_header hosts)
  have held: "load (ram ?p) 0x1000 (length (echo_request ?p ?c)) = echo_request ?p ?c"
    unfolding r using load_overwrite [of "echo_request sample_server ?c"] l
    by (simp add: sample_pinged_def sample_received_def)
  have pads: "wire_ok (arp_answer ?p ?c) (replicate 22 0)" "wire_ok (echo_answer ?p ?c) (replicate 22 0)"
    using c14 by (simp_all add: wire_ok_def arp_answer_def echo_answer_def echo_frame_def NetSetEther_def hosts)
  have main: "(\<exists>z request. NetLoop True PING 0 [?i] sample_tftp = Some (None, z) \<and>
      eth_sent z = eth_sent ?c @ [request, echo_request ?p ?c]) \<and>
    (\<forall>inpkt len. load (ram ?p) inpkt (length (echo_request ?p ?c)) = echo_request ?p ?c \<and>
        int (length (echo_request ?p ?c)) \<le> len \<and> len < 2 ^ 31 \<longrightarrow>
      (\<exists>p'. NetReceive (\<lambda>_ _ _ _. Some) inpkt len ?p = Some p' \<and> eth_sent p' = eth_sent ?p @ [echo_answer ?p ?c])) \<and>
    (\<exists>s'. NetLoop True PING 0 [?i, ?j] sample_tftp = Some (Some 0, s'))"
    by (rule ping_answered [where ta = 1 and tb = 3, OF _ _ _ _ _ _ _ _ pads])
      (simp_all add: received_def NetInitLoop_def ping_configured_def net_check_prereq_def hosts zero_mac arp_target_def
        NetEthHdrSize_def same_vlan_def ETHER_HDR_SIZE_def our_vlan_def VLAN_NONE_def VLAN_IDMASK_def)
  have "int (length (echo_request ?p ?c)) \<le> 42" "(42 :: int) < 2 ^ 31" by (simp_all add: r l)
  with main held have "\<exists>p'. NetReceive (\<lambda>_ _ _ _. Some) 0x1000 42 ?p = Some p' \<and>
      eth_sent p' = eth_sent ?p @ [echo_answer ?p ?c]" by blast
  with main show ?thesis by blast
qed

end
