(* ===== verification/Tftp_Transfer.thy ===== *)
theory Tftp_Transfer
  imports Net_Loop
begin

text \<open>
  What a TFTP transfer does, from the frames on the wire to the memory of the board. The server is any host that
  sends the blocks of a file; the runs of a transfer are all interleavings of its packets, repeated ones included, with
  foreign packets and timeouts, and an invariant over them says which part of the file has been loaded. The
  last part follows \<open>NetLoop\<close> from the command to its result.
\<close>

section \<open>Specification\<close>

text \<open>
  A server that sends to port \<open>TftpOurPort\<close> of the board, and the frame with which it sends data. Its own
  variables are those of a host that builds its packets as the board does.
\<close>

definition server_ok :: "'b net_state_scheme \<Rightarrow> 'a board_state_scheme \<Rightarrow> bool" where
  "server_ok srv s \<longleftrightarrow> same_vlan s srv \<and> length (NetOurEther srv) = 6 \<and> length (NetOurEther s) = 6 \<and> NetOurIP s \<noteq> 0"

definition udp_frame :: "'b net_state_scheme \<Rightarrow> u16 \<Rightarrow> u16 \<Rightarrow> u8 list \<Rightarrow> 'a board_state_scheme \<Rightarrow> u8 list" where
  "udp_frame srv dport sport data s =
     NetSetEther srv (NetOurEther s) PROT_IP @ fst (NetSetIP srv (NetOurIP s) dport sport (length data)) @ data"

definition data_frame :: "'b net_state_scheme \<Rightarrow> u16 \<Rightarrow> u8 list \<Rightarrow> nat \<Rightarrow> 'a board_state_scheme \<Rightarrow> u8 list" where
  "data_frame srv port contents k s =
     udp_frame srv (ucast (TftpOurPort s)) port (data_packet (blksize s) contents k) s"

text \<open>The receive buffer does not overlap the place the file is loaded to.\<close>

definition rx_apart :: "u8 list \<Rightarrow> 'a board_state_scheme \<Rightarrow> bool" where
  "rx_apart contents s \<longleftrightarrow>
     area (NetRxPackets s) 1536 \<inter> area (load_addr s) (length contents) = {} \<and>
     length contents < 2 ^ 32 \<and> 0 < blksize s \<and> blksize s \<le> 65000 \<and> TftpOurPort s < 65536"

text \<open>
  The runs of a transfer: after \<open>k\<close> blocks, the server sends the next one, or repeats the last one if its
  number is not 0 modulo 65536, or a packet arrives for another port, or a damaged one that the driver
  drops, or the loop checks for a timeout while retries are left.
\<close>

inductive tftp_run ::
    "u8 list \<Rightarrow> u16 \<Rightarrow> 'a board_state_scheme \<Rightarrow> nat \<Rightarrow> 'a board_state_scheme \<Rightarrow> bool"
  for contents :: "u8 list" and port :: u16 and s0 :: "'a board_state_scheme" where
  run_start: "tftp_run contents port s0 0 s0"
| run_data: "tftp_run contents port s0 k s \<Longrightarrow> k < block_count (blksize s0) contents \<Longrightarrow>
    server_ok (srv :: net_state) s \<Longrightarrow> wire_ok (data_frame srv port contents (k + 1) s) pad \<Longrightarrow>
    eth_rx 1 [wire now (data_frame srv port contents (k + 1) s) pad] s = Some s' \<Longrightarrow> tftp_run contents port s0 (k + 1) s'"
| run_again: "tftp_run contents port s0 k s \<Longrightarrow> k mod 65536 \<noteq> 0 \<Longrightarrow>
    server_ok (srv :: net_state) s \<Longrightarrow> wire_ok (data_frame srv port contents k s) pad \<Longrightarrow>
    eth_rx 1 [wire now (data_frame srv port contents k s) pad] s = Some s' \<Longrightarrow> tftp_run contents port s0 k s'"
| run_foreign: "tftp_run contents port s0 k s \<Longrightarrow> server_ok (srv :: net_state) s \<Longrightarrow>
    ucast dport \<noteq> TftpOurPort s \<Longrightarrow> wire_ok (udp_frame srv dport sport data s) pad \<Longrightarrow>
    eth_rx 1 [wire now (udp_frame srv dport sport data s) pad] s = Some s' \<Longrightarrow> tftp_run contents port s0 k s'"
| run_damaged: "tftp_run contents port s0 k s \<Longrightarrow> rx_flag p AND 3 = 1 \<Longrightarrow> rx_status p AND 0xbf00 \<noteq> 0 \<Longrightarrow>
    unat (rx_len p) \<le> 1536 \<Longrightarrow> eth_rx 1 [p] s = Some s' \<Longrightarrow> tftp_run contents port s0 k s'"
| run_tick: "tftp_run contents port s0 k s \<Longrightarrow> TftpTimeoutCount s < TftpTimeoutCountMax s \<Longrightarrow>
    run_timeout now s = Some s' \<Longrightarrow> tftp_run contents port s0 k s'"

text \<open>A transfer that waits for its first block.\<close>

definition tftp_waiting :: "u16 \<Rightarrow> 'a board_state_scheme \<Rightarrow> bool" where
  "tftp_waiting port s \<longleftrightarrow>
     packetHandler s = Rx_tftp \<and> timeHandler s = Some Th_tftp \<and> TftpTimeoutMSecs s \<noteq> 0 \<and>
     (TftpState s = STATE_RRQ \<or> TftpState s = STATE_OACK \<and> TftpServerPort s = ucast port) \<and>
     NetBootFileXferSize s = 0 \<and> NetState s = NETLOOP_CONTINUE"

definition run_inv :: "u8 list \<Rightarrow> u16 \<Rightarrow> 'a board_state_scheme \<Rightarrow> nat \<Rightarrow> 'a board_state_scheme \<Rightarrow> bool" where
  "run_inv contents port s0 k s \<longleftrightarrow>
     tftp_received contents k s \<and> same_connection s0 s \<and> packetHandler s = Rx_tftp \<and> timeHandler s = Some Th_tftp \<and>
     TftpTimeoutMSecs s \<noteq> 0 \<and> (TftpState s = STATE_RRQ \<or> TftpServerPort s = ucast port)"

text \<open>
  Iterations of the loop in which a server sends the blocks from number \<open>k + 1\<close> on, one per iteration and
  in order, and idle iterations in between; each comes within the timeout \<open>d\<close> after the time \<open>t\<close> of the last block.
\<close>

inductive prompt_server ::
    "u16 \<Rightarrow> u8 list \<Rightarrow> 'a board_state_scheme \<Rightarrow> nat \<Rightarrow> u32 \<Rightarrow> u32 \<Rightarrow> net_input list \<Rightarrow> bool"
  for port :: u16 and contents :: "u8 list" and s0 :: "'a board_state_scheme" where
  all_sent: "prompt_server port contents s0 (block_count (blksize s0) contents) t d is"
| idle: "prompt_server port contents s0 k t d is \<Longrightarrow> \<not> in_ctrlc i \<Longrightarrow>
    in_isr i AND 1 = 0 \<or> in_packets i = [] \<Longrightarrow> in_time i - t \<le> d \<Longrightarrow>
    prompt_server port contents s0 k t d (i # is)"
| next_block: "prompt_server port contents s0 (k + 1) t' TIMEOUT is \<Longrightarrow> \<not> in_ctrlc i \<Longrightarrow>
    server_ok (srv :: net_state) s0 \<Longrightarrow> wire_ok (data_frame srv port contents (k + 1) s0) pad \<Longrightarrow>
    received i [wire t' (data_frame srv port contents (k + 1) s0) pad] \<Longrightarrow>
    in_time i - t' \<le> TIMEOUT \<Longrightarrow> prompt_server port contents s0 k t d (i # is)"

text \<open>The result of a successful transfer.\<close>

definition downloaded :: "u8 list \<Rightarrow> addr \<Rightarrow> vars \<Rightarrow> 'a board_state_scheme \<Rightarrow> bool" where
  "downloaded contents p vars s \<longleftrightarrow>
     load (ram s) p (length contents) = contents \<and> NetBootFileXferSize s = of_nat (length contents) \<and>
     env_vars s = (if contents = [] then vars
       else set_var (set_var vars (ascii ''filesize'') (digit_string True 16 (of_nat (length contents))))
         (ascii ''fileaddr'') (digit_string True 16 p))"

text \<open>
  A board configured for the network, state \<open>c\<close>, whose file \<open>name\<close> is on \<open>server\<close>; \<open>p\<close> is the host that answers
  for the hardware address (the server itself or the gateway).
\<close>

definition tftp_ports :: "u32 \<Rightarrow> 'a board_state_scheme \<Rightarrow> 'a board_state_scheme" where
  "tftp_ports now s = s\<lparr>TftpOurPort := 1024 + now mod 3072, TftpBlkSize := TFTP_BLOCK_SIZE\<rparr>"

definition tftp_configured :: "u32 \<Rightarrow> u8 list \<Rightarrow> u32 \<Rightarrow> 'b net_state_scheme \<Rightarrow> 'a board_state_scheme \<Rightarrow> bool" where
  "tftp_configured now contents server p c \<longleftrightarrow>
     net_check_prereq TFTP c = 0 \<and> (\<exists>name. tftp_source c = Some (server, name)) \<and> server \<notin> {0, 0xFFFFFFFF} \<and>
     TftpRRQTimeoutMSecs c \<noteq> 0 \<and> length (NetOurEther c) = 6 \<and> rx_apart contents (tftp_ports now c) \<and>
     NetOurIP p = arp_target c server \<and> NetOurIP p \<noteq> 0 \<and> same_vlan c p \<and> length (NetOurEther p) = 6 \<and>
     NetOurEther p \<noteq> NetEtherNullAddr"

text \<open>The state in which the client asks for the hardware address, and the state once it is answered.\<close>

definition tftp_asking :: "u32 \<Rightarrow> u32 \<Rightarrow> u8 list \<Rightarrow> 'a board_state_scheme \<Rightarrow> 'a board_state_scheme" where
  "tftp_asking now server name c =
     c\<lparr>TftpServerIP := server, tftp_filename := name, TftpTimeoutMSecs := TftpRRQTimeoutMSecs c,
       TftpTimeoutCountMax := TftpRRQTimeoutCountMax c, timeHandler := Some Th_tftp, timeStart := now,
       timeDelta := TftpRRQTimeoutMSecs c, packetHandler := Rx_tftp, TftpServerPort := WELL_KNOWN_PORT,
       TftpTimeoutCount := 0, TftpState := STATE_RRQ, TftpOurPort := 1024 + now mod 3072, TftpBlock := 0,
       NetServerEther := replicate 6 0, TftpBlkSize := TFTP_BLOCK_SIZE\<rparr>"

definition sample_inputs :: "net_input list" where
  "sample_inputs =
     [\<lparr>in_isr = 1, in_packets = [wire 3 (arp_answer sample_server sample_configured) (replicate 22 0)], in_ctrlc = False, in_time = 4\<rparr>,
      \<lparr>in_isr = 1, in_packets = [wire 7 (data_frame sample_server 4000 [1, 2, 3] 1 (tftp_ports 0 sample_configured)) (replicate 22 0)], in_ctrlc = False, in_time = 8\<rparr>]"

definition sample_waiting :: board_state where
  "sample_waiting = (tftp_ports 0 sample_configured)\<lparr>packetHandler := Rx_tftp, timeHandler := Some Th_tftp\<rparr>"

section \<open>Receiving frames\<close>

lemma length_udp_frame:
  assumes "server_ok srv s"
  shows "int (length (udp_frame srv dport sport data s)) = NetEthHdrSize srv + 28 + int (length data)"
  using assms of_nat_length_NetSetEther(2) [of "NetOurEther s" srv PROT_IP] by (simp add: udp_frame_def server_ok_def)

lemma eth_rx_udp:
  assumes ok: "server_ok srv s" and pad: "wire_ok (udp_frame srv dport sport data s) pad"
    and t: "t = s\<lparr>ram := overwrite (ram s) (NetRxPackets s) (stored (udp_frame srv dport sport data s) pad)\<rparr>"
    and pkt: "pkt = NetRxPackets s + word_of_int (NetEthHdrSize srv) + 28"
  shows "eth_rx 1 [wire now (udp_frame srv dport sport data s) pad] s =
      net_handler now pkt (ucast dport) (ucast sport) (of_nat (length data)) t"
    and "load (ram t) pkt (length data) = data"
proof -
  let ?f = "udp_frame srv dport sport data s"
  have f: "load (ram t) (NetRxPackets s) (length ?f) = ?f"
    using load_stored [OF pad] by (simp add: t)
  have l: "length ?f + length pad \<le> 1536" using pad by (simp add: wire_ok_def)
  then have len: "28 + length data < 65536" "int (length ?f) \<le> int (length (?f @ pad))" "int (length (?f @ pad)) < 2 ^ 31"
    using length_udp_frame [OF ok, of dport sport data] NetEthHdrSize_cases [of srv] by auto
  from NetReceive_udp [where s = t and srv = srv and mac = "NetOurEther s" and frame = ?f, OF f udp_frame_def _ _ _ len]
  have "NetReceive (net_handler now) (NetRxPackets s) (int (length (?f @ pad))) t =
      net_handler now pkt (ucast dport) (ucast sport) (of_nat (length data)) t"
    "load (ram t) pkt (length data) = data"
    using ok unfolding pkt by (simp_all add: server_ok_def same_vlan_def t)
  then show "eth_rx 1 [wire now ?f pad] s = net_handler now pkt (ucast dport) (ucast sport) (of_nat (length data)) t"
    and "load (ram t) pkt (length data) = data"
    unfolding t eth_rx_wire [OF pad] by simp_all
qed

text \<open>Receiving a frame keeps what was loaded.\<close>

lemma received_after_rx:
  assumes "tftp_received contents k s" and "area (NetRxPackets s) (length f) \<inter> area (load_addr s) (length contents) = {}"
    and "length contents < 2 ^ 32"
  shows "tftp_received contents k (s\<lparr>ram := overwrite (ram s) (NetRxPackets s) f\<rparr>)"
proof -
  have "load (overwrite (ram s) (NetRxPackets s) f) (load_addr s) (min (k * blksize s) (length contents)) =
      load (ram s) (load_addr s) (min (k * blksize s) (length contents))"
  proof (rule load_overwrite_disjoint)
    have "area (load_addr s) (min (k * blksize s) (length contents)) \<subseteq> area (load_addr s) (length contents)"
      by (auto simp: area_def)
    then show "area (load_addr s) (min (k * blksize s) (length contents)) \<inter> area (NetRxPackets s) (length f) = {}"
      using assms(2) by auto
  qed (use assms(3) in simp)
  then show ?thesis using assms(1) by (simp add: tftp_received_def)
qed


lemma more_board: "tftp_state.more s = tftp_state.more t \<Longrightarrow> NetRxPackets s = NetRxPackets t"
  by (cases s, cases t) simp

lemma connection_facts:
  assumes "same_connection s0 s"
  shows "NetRxPackets s = NetRxPackets s0" "blksize s = blksize s0" "load_addr s = load_addr s0" "TftpOurPort s = TftpOurPort s0"
    "rx_apart contents s \<longleftrightarrow> rx_apart contents s0"
  using assms more_board [of s s0] by (simp_all add: same_connection_def rx_apart_def)

lemma rx_area:
  assumes "rx_apart contents s" and "n \<le> 1536"
  shows "area (NetRxPackets s) n \<inter> area (load_addr s) (length contents) = {}"
proof -
  have "area (NetRxPackets s) n \<subseteq> area (NetRxPackets s) 1536" using assms(2) by (auto simp: area_def)
  then show ?thesis using assms(1) by (auto simp: rx_apart_def)
qed

lemma area_inside:
  assumes "c + l \<le> n" and "n < 2 ^ 32"
  shows "area (p + of_nat c) l \<subseteq> area p n"
proof
  fix a assume "a \<in> area (p + of_nat c) l"
  then have o: "offset (p + of_nat c) a < l" by (simp add: area_def)
  have "p + of_nat (c + offset (p + of_nat c) a) = a"
    by (simp only: of_nat_add add.assoc [symmetric] offset_inverse)
  moreover have "c + offset (p + of_nat c) a < 2 ^ 32" using o assms by linarith
  ultimately have "offset p a = c + offset (p + of_nat c) a" by (metis offset_plus)
  then show "a \<in> area p n" using o assms(1) by (simp add: area_def)
qed

lemma length_file_block: "length (file_block B contents k) \<le> B"
  by (simp add: file_block_def)

text \<open>What a data frame leads to.\<close>

lemma eth_rx_data:
  fixes s :: "'a board_state_scheme"
  assumes inv: "packetHandler s = Rx_tftp" "TftpState s = STATE_RRQ \<or> TftpServerPort s = ucast port"
    and ok: "server_ok srv s" and apart: "rx_apart contents s" and pad: "wire_ok (data_frame srv port contents k s) pad"
  obtains pkt t where "eth_rx 1 [wire now (data_frame srv port contents k s) pad] s =
      Some (tftp_data now pkt (ucast port) (of_nat (k mod 65536)) (of_nat (length (file_block (blksize s) contents k))) t)"
    and "t = s\<lparr>ram := overwrite (ram s) (NetRxPackets s) (stored (data_frame srv port contents k s) pad)\<rparr>"
    and "load (ram t) pkt (length (file_block (blksize s) contents k)) = file_block (blksize s) contents k"
    and "area pkt (length (file_block (blksize s) contents k)) \<inter> area (load_addr s) (length contents) = {}"
proof -
  define B where "B = blksize s"
  define data where "data = data_packet B contents k"
  define f where "f = data_frame srv port contents k s"
  define t where "t = s\<lparr>ram := overwrite (ram s) (NetRxPackets s) (stored f pad)\<rparr>"
  define pkt where "pkt = NetRxPackets s + word_of_int (NetEthHdrSize srv) + 28"
  have B: "B \<le> 65000" using apart by (simp add: rx_apart_def B_def)
  have f: "f = udp_frame srv (ucast (TftpOurPort s)) port data s"
    by (simp add: f_def data_frame_def data_def B_def)
  note pad' = pad [folded f_def, unfolded f]
  have rx: "eth_rx 1 [wire now f pad] s = net_handler now pkt (ucast (ucast (TftpOurPort s) :: u16)) (ucast port) (of_nat (length data)) t"
    "load (ram t) pkt (length data) = data"
    using eth_rx_udp(1) [where now = now, OF ok pad' _ pkt_def] eth_rx_udp(2) [OF ok pad' _ pkt_def] unfolding t_def f by simp_all
  have "unat (TftpOurPort s) < 65536"
    using apart by (simp add: rx_apart_def word_less_nat_alt)
  then have ours: "ucast (ucast (TftpOurPort s) :: u16) = TftpOurPort s"
    by (simp add: word_unat_eq_iff unsigned_take_bit_eq unsigned_ucast_eq take_bit_nat_eq_self)
  have st: "TftpState t = TftpState s" "TftpServerPort t = TftpServerPort s" "packetHandler t = packetHandler s"
      "TftpOurPort t = TftpOurPort s"
    by (simp_all add: t_def)
  have "net_handler now pkt (TftpOurPort s) (ucast port) (of_nat (length data)) t =
      TftpHandler now pkt (TftpOurPort t) (ucast port) (of_nat (length data)) t"
    using inv(1) by (simp add: net_handler_def st)
  moreover note TftpHandler_data(1) [where s = t and src = "ucast port" and now = now, OF rx(2) [unfolded data_def], folded data_def]
  ultimately have "eth_rx 1 [wire now f pad] s =
      Some (tftp_data now (pkt + 4) (ucast port) (of_nat (k mod 65536)) (of_nat (length (file_block B contents k))) t)"
    using rx(1) ours inv(2) B by (auto simp: st)
  moreover have "load (ram t) (pkt + 4) (length (file_block B contents k)) = file_block B contents k"
    using TftpHandler_data(2) [where s = t and src = "ucast port", OF rx(2) [unfolded data_def]] B inv(2) by (auto simp: st)
  moreover have "area (pkt + 4) (length (file_block B contents k)) \<subseteq> area (NetRxPackets s) 1536"
  proof -
    define e where "e = nat (NetEthHdrSize srv)"
    have e: "(word_of_int (NetEthHdrSize srv) :: u32) = of_nat e" "int e = NetEthHdrSize srv"
      using NetEthHdrSize_cases [of srv] by (auto simp: e_def)
    have "length f = e + 32 + length (file_block B contents k)"
      using length_udp_frame [OF ok, of "ucast (TftpOurPort s)" port data] e(2) by (simp add: f data_def length_data_packet)
    moreover have "length f \<le> 1536" using pad by (simp add: wire_ok_def f_def)
    moreover have eq: "pkt + 4 = NetRxPackets s + of_nat (e + 32)" by (simp add: pkt_def e(1))
    ultimately show ?thesis unfolding eq by (intro area_inside) simp_all
  qed
  then have "area (pkt + 4) (length (file_block B contents k)) \<inter> area (load_addr s) (length contents) = {}"
    using apart by (auto simp: rx_apart_def B_def)
  ultimately show thesis
    using that [of "pkt + 4" t] unfolding t_def f_def B_def by blast
qed

text \<open>The next block is accepted.\<close>

lemma run_data_step:
  fixes s :: "'a board_state_scheme"
  assumes inv: "run_inv contents port s0 k s" and k: "k < block_count (blksize s0) contents"
    and ok: "server_ok srv s" and apart: "rx_apart contents s0" and pad: "wire_ok (data_frame srv port contents (k + 1) s) pad"
  obtains s' where "eth_rx 1 [wire now (data_frame srv port contents (k + 1) s) pad] s = Some s'"
    and "run_inv contents port s0 (k + 1) s'"
    and "timeStart s' = now" "timeDelta s' = TIMEOUT"
    and "NetServerEther s \<noteq> NetEtherNullAddr \<Longrightarrow> TftpServerIP s \<notin> {0, 0xFFFFFFFF} \<Longrightarrow>
      NetArpWaitPacketIP s' = NetArpWaitPacketIP s"
proof -
  note i = inv [unfolded run_inv_def]
  have con: "same_connection s0 s" using i by blast
  note c = connection_facts [OF con]
  have apart': "rx_apart contents s" using apart c(5) by blast
  let ?l = "length (file_block (blksize s) contents (k + 1))"
  obtain pkt t where rx: "eth_rx 1 [wire now (data_frame srv port contents (k + 1) s) pad] s =
      Some (tftp_data now pkt (ucast port) (of_nat ((k + 1) mod 65536)) (of_nat ?l) t)"
    "t = s\<lparr>ram := overwrite (ram s) (NetRxPackets s) (stored (data_frame srv port contents (k + 1) s) pad)\<rparr>"
    "load (ram t) pkt ?l = file_block (blksize s) contents (k + 1)"
    "area pkt ?l \<inter> area (load_addr s) (length contents) = {}"
    using eth_rx_data [where now = now, OF _ _ ok apart' pad] i by metis
  have "tftp_received contents k t"
    unfolding rx(2) using i rx_area [OF apart' stored_prefix(2) [OF pad]] apart'
    by (intro received_after_rx) (simp_all add: rx_apart_def)
  moreover have port: "k = 0 \<or> ucast port = TftpServerPort t"
    using i by (auto simp: tftp_received_def rx(2) split: if_splits)
  moreover have "k < block_count (blksize t) contents" "0 < blksize t" "length contents < 2 ^ 32"
      "blksize t = blksize s" "load_addr t = load_addr s"
    using k c(2) apart' by (simp_all add: rx(2) rx_apart_def)
  ultimately have pre: "tftp_received contents k t" "k = 0 \<or> ucast port = TftpServerPort t" "k < block_count (blksize t) contents"
      "0 < blksize t" "length contents < 2 ^ 32"
      "load (ram t) pkt (length (file_block (blksize t) contents (k + 1))) = file_block (blksize t) contents (k + 1)"
      "area pkt (length (file_block (blksize t) contents (k + 1))) \<inter> area (load_addr t) (length contents) = {}"
      and t: "blksize t = blksize s"
    using rx(3,4) by simp_all
  define s' where "s' = tftp_data now pkt (ucast port) (of_nat ((k + 1) mod 65536)) (of_nat ?l) t"
  note nx = tftp_data_next [where now = now, OF pre, unfolded t, folded s'_def]
  have "same_connection s t" by (simp add: rx(2) same_connection_def)
  then have "same_connection s0 s'" using con nx(2) same_connection_trans by blast
  moreover have "packetHandler s' = Rx_tftp"
    using nx(2) i by (simp add: same_connection_def rx(2))
  ultimately have "run_inv contents port s0 (k + 1) s'"
    using nx(1,3,6) by (simp add: run_inv_def TIMEOUT_def)
  then show thesis
  proof (rule that [rotated])
    show "eth_rx 1 [wire now (data_frame srv port contents (k + 1) s) pad] s = Some s'"
      using rx(1) by (simp only: s'_def)
    show "timeStart s' = now" "timeDelta s' = TIMEOUT" using nx(6) by simp_all
    show "NetArpWaitPacketIP s' = NetArpWaitPacketIP s"
      if "NetServerEther s \<noteq> NetEtherNullAddr" "TftpServerIP s \<notin> {0, 0xFFFFFFFF}"
      using nx(7) that by (simp add: rx(2))
  qed
qed

lemma run_invI:
  assumes "run_inv contents port s0 k s" and "tftp_received contents k' t" and "same_connection s t"
    and "timeHandler t = Some Th_tftp" and "TftpTimeoutMSecs t \<noteq> 0" and "TftpState t = STATE_RRQ \<or> TftpServerPort t = ucast port"
  shows "run_inv contents port s0 k' t"
  unfolding run_inv_def
proof (intro conjI)
  show "same_connection s0 t" using assms(1,3) same_connection_trans by (auto simp: run_inv_def)
  have "packetHandler s = Rx_tftp" using assms(1) by (simp add: run_inv_def)
  then show "packetHandler t = Rx_tftp" using assms(3) by (simp add: same_connection_def)
qed (fact assms)+

lemma run_again_step:
  fixes s :: "'a board_state_scheme"
  assumes inv: "run_inv contents port s0 k s" and k: "k mod 65536 \<noteq> 0"
    and ok: "server_ok srv s" and apart: "rx_apart contents s0" and pad: "wire_ok (data_frame srv port contents k s) pad"
    and rx: "eth_rx 1 [wire now (data_frame srv port contents k s) pad] s = Some s'"
  shows "run_inv contents port s0 k s'"
proof -
  note i = inv [unfolded run_inv_def]
  have con: "same_connection s0 s" using i by blast
  have apart': "rx_apart contents s" using apart connection_facts(5) [OF con] by blast
  let ?l = "length (file_block (blksize s) contents k)"
  obtain pkt t where t: "eth_rx 1 [wire now (data_frame srv port contents k s) pad] s =
      Some (tftp_data now pkt (ucast port) (of_nat (k mod 65536)) (of_nat ?l) t)"
    "t = s\<lparr>ram := overwrite (ram s) (NetRxPackets s) (stored (data_frame srv port contents k s) pad)\<rparr>"
    using eth_rx_data [where now = now, OF _ _ ok apart' pad] i by metis
  have rec: "tftp_received contents k t"
    unfolding t(2) using i rx_area [OF apart' stored_prefix(2) [OF pad]] apart'
    by (intro received_after_rx) (simp_all add: rx_apart_def)
  have "s' = t\<lparr>TftpBlock := of_nat (k mod 65536)\<rparr>"
    using rx t(1) tftp_data_again [OF rec k] by simp
  then show ?thesis
    using rec i by (intro run_invI [OF inv]) (auto simp: t(2) same_connection_def tftp_received_def)
qed

lemma run_foreign_step:
  fixes s :: "'a board_state_scheme"
  assumes inv: "run_inv contents port s0 k s" and ok: "server_ok srv s" and apart: "rx_apart contents s0"
    and port: "ucast dport \<noteq> TftpOurPort s" and pad: "wire_ok (udp_frame srv dport sport data s) pad"
    and rx: "eth_rx 1 [wire now (udp_frame srv dport sport data s) pad] s = Some s'"
  shows "run_inv contents port s0 k s'"
proof -
  note i = inv [unfolded run_inv_def]
  have con: "same_connection s0 s" using i by blast
  have apart': "rx_apart contents s" using apart connection_facts(5) [OF con] by blast
  define t where "t = s\<lparr>ram := overwrite (ram s) (NetRxPackets s) (stored (udp_frame srv dport sport data s) pad)\<rparr>"
  note e = eth_rx_udp(1) [OF ok pad t_def refl, of now]
  have "packetHandler t = Rx_tftp" "ucast dport \<noteq> TftpOurPort t" using i port by (simp_all add: t_def)
  then have "s' = t" using e rx by (simp add: net_handler_def TftpHandler_foreign)
  moreover have "tftp_received contents k t"
    unfolding t_def using i rx_area [OF apart' stored_prefix(2) [OF pad]] apart'
    by (intro received_after_rx) (simp_all add: rx_apart_def)
  ultimately show ?thesis
    using i by (intro run_invI [OF inv]) (auto simp: t_def same_connection_def)
qed

lemma run_damaged_step:
  fixes s :: "'a board_state_scheme"
  assumes inv: "run_inv contents port s0 k s" and apart: "rx_apart contents s0"
    and p: "rx_flag p AND 3 = 1" "rx_status p AND 0xbf00 \<noteq> 0" "unat (rx_len p) \<le> 1536"
    and rx: "eth_rx 1 [p] s = Some s'"
  shows "run_inv contents port s0 k s'"
proof -
  note i = inv [unfolded run_inv_def]
  have apart': "rx_apart contents s" using apart i connection_facts(5) by blast
  define f where "f = take (2 * ((unat (rx_len p) + 1) div 2)) (rx_fifo p)"
  define t where "t = s\<lparr>ram := overwrite (ram s) (NetRxPackets s) f\<rparr>"
  have "(unat (rx_len p) + 1) div 2 \<le> (1536 + 1) div 2" using p(3) by (intro div_le_mono) simp
  then have "length f \<le> 1536" by (simp add: f_def)
  then have "tftp_received contents k t"
    unfolding t_def using i rx_area [OF apart'] apart' by (intro received_after_rx) (simp_all add: rx_apart_def)
  moreover have "s' = t"
    using rx p(1,2) by (simp add: eth_rx_def DM9000_PKT_RDY_def dm9000_inblk_16bit_def t_def f_def)
  ultimately show ?thesis
    using i by (intro run_invI [OF inv]) (auto simp: t_def same_connection_def)
qed

lemma run_tick_step:
  assumes inv: "run_inv contents port s0 k s" and left: "TftpTimeoutCount s < TftpTimeoutCountMax s"
    and tick: "run_timeout now s = Some s'"
  shows "run_inv contents port s0 k s'"
proof (cases "now - timeStart s > timeDelta s")
  case True
  define t where "t = s\<lparr>timeHandler := None\<rparr>"
  note i = inv [unfolded run_inv_def]
  have t: "tftp_received contents k t" "same_connection s0 t" "packetHandler t = Rx_tftp"
      "TftpTimeoutCount t < TftpTimeoutCountMax t" "TftpState t = STATE_RRQ \<or> TftpServerPort t = ucast port" "TftpTimeoutMSecs t \<noteq> 0"
    using i left by (auto simp: t_def tftp_received_def same_connection_def)
  have "s' = TftpTimeout now t"
    using True i tick by (simp add: run_timeout_def call_time_handler_def t_def)
  moreover have "timeHandler (TftpTimeout now t) = Some Th_tftp" "TftpState (TftpTimeout now t) = TftpState t"
      "TftpTimeoutMSecs (TftpTimeout now t) = TftpTimeoutMSecs t"
  proof -
    define u where "u = NetSetTimeout now (TftpTimeoutMSecs t) Th_tftp (t\<lparr>TftpTimeoutCount := TftpTimeoutCount t + 1\<rparr>)"
    have u: "TftpTimeout now t = TftpSend now u" using t(4) by (simp add: TftpTimeout_def u_def Let_def)
    show "timeHandler (TftpTimeout now t) = Some Th_tftp" "TftpState (TftpTimeout now t) = TftpState t"
        "TftpTimeoutMSecs (TftpTimeout now t) = TftpTimeoutMSecs t"
      unfolding u using t(6) by (rule_tac TftpSend_changes [of now u]; simp add: u_def NetSetTimeout_def)+
  qed
  moreover have "same_connection s t" by (simp add: t_def same_connection_def)
  then have "same_connection s (TftpTimeout now t)"
    using TftpTimeout_retries(2) [OF t(4), of now] same_connection_trans by blast
  ultimately show ?thesis
    using TftpTimeout_retries(1,3) [OF t(4)] t(1,5,6) by (intro run_invI [OF inv]) simp_all
qed (use inv tick in \<open>simp add: run_timeout_def run_inv_def\<close>)

lemma tftp_run_inv:
  assumes "tftp_run contents port s0 k s" and "tftp_waiting port s0" and "rx_apart contents s0"
  shows "run_inv contents port s0 k s"
  using assms(1)
proof induction
  case run_start
  then show ?case
    using assms(2,3) by (auto simp: run_inv_def tftp_waiting_def tftp_received_def)
next
  case (run_data k s srv pad now s')
  from run_data_step [OF run_data.IH run_data.hyps(2,3) assms(3) run_data.hyps(4), of now] run_data.hyps(5)
  show ?case by (metis option.inject)
next
  case (run_again k s srv pad now s')
  from run_again_step [OF run_again.IH run_again.hyps(2,3) assms(3) run_again.hyps(4,5)] show ?case .
next
  case (run_foreign k s srv dport sport data pad now s')
  from run_foreign_step [OF run_foreign.IH run_foreign.hyps(2) assms(3) run_foreign.hyps(3,4,5)] show ?case .
next
  case (run_damaged k s p s')
  from run_damaged_step [OF run_damaged.IH assms(3) run_damaged.hyps(2-5)] show ?case .
next
  case (run_tick k s now s')
  from run_tick_step [OF run_tick.IH run_tick.hyps(2,3)] show ?case .
qed

section \<open>The whole operation\<close>

lemma data_frame_connection:
  "same_connection s0 s \<Longrightarrow> data_frame srv port contents k s = data_frame srv port contents k s0"
  by (simp add: same_connection_def data_frame_def udp_frame_def)

lemma server_ok_connection: "same_connection s0 s \<Longrightarrow> server_ok srv s \<longleftrightarrow> server_ok srv s0"
  by (simp add: same_connection_def server_ok_def same_vlan_def)

lemma net_wait_downloads:
  assumes "prompt_server port contents s0 k t d is" and "rx_apart contents s0"
    and "k < block_count (blksize s0) contents"
    and "run_inv contents port s0 k s" and "NetArpWaitPacketIP s = 0" and "timeStart s = t" "timeDelta s = d"
    and "NetServerEther s \<noteq> NetEtherNullAddr" and "TftpServerIP s \<notin> {0, 0xFFFFFFFF}"
  shows "\<exists>s'. net_wait TFTP is s = Some (Some (sint (of_nat (length contents) :: u32)), s') \<and>
    downloaded contents (load_addr s0) (env_vars s0) s'"
  using assms
proof (induction arbitrary: s)
  case (all_sent t d "is")
  then show ?case by simp
next
  case (idle k t d "is" i)
  have cont: "NetState s = NETLOOP_CONTINUE"
  proof -
    have "0 < blksize s0" using idle.prems(1) by (simp add: rx_apart_def)
    moreover have "blksize s = blksize s0" using idle.prems(3) connection_facts(2) by (auto simp: run_inv_def)
    ultimately show ?thesis
      using idle.prems(2,3) file_block_facts(1) [of "blksize s0" k contents] by (auto simp: run_inv_def tftp_received_def)
  qed
  have "run_timeout (in_time i) (ArpTimeoutCheck (in_time i) s) = Some s"
    using idle.hyps(4) idle.prems by (intro calm_checks) simp_all
  then have "net_iteration TFTP i s = Some (None, s)"
    using idle.hyps(2,3) cont by (auto simp: net_iteration_def eth_rx_def)
  then show ?case using idle.IH [OF idle.prems] by simp
next
  case (next_block k t' "is" i srv pad t d)
  let ?B = "blksize s0"
  have con: "same_connection s0 s" using next_block.prems(3) by (simp add: run_inv_def)
  have ok: "server_ok srv s" using next_block.hyps(3) server_ok_connection [OF con] by blast
  have pad: "wire_ok (data_frame srv port contents (k + 1) s) pad"
    using next_block.hyps(4) by (simp only: data_frame_connection [OF con])
  obtain s1 where s1: "eth_rx 1 [wire t' (data_frame srv port contents (k + 1) s) pad] s = Some s1"
    "run_inv contents port s0 (k + 1) s1" "timeStart s1 = t'" "timeDelta s1 = TIMEOUT" "NetArpWaitPacketIP s1 = NetArpWaitPacketIP s"
    using run_data_step [OF next_block.prems(3,2) ok next_block.prems(1) pad, of t'] next_block.prems(7,8) by metis
  have con1: "same_connection s0 s1" using s1(2) by (simp add: run_inv_def)
  have rx: "eth_rx (in_isr i) (in_packets i) s = Some s1"
    using s1(1) by (simp only: eth_rx_received [OF next_block.hyps(5)] data_frame_connection [OF con])
  have calm: "run_timeout (in_time i) (ArpTimeoutCheck (in_time i) s1) = Some s1"
    using next_block.hyps(6) next_block.prems(4) s1 by (intro calm_checks) simp_all
  have B: "0 < ?B" using next_block.prems(1) by (simp add: rx_apart_def)
  note c = connection_facts [OF con1]
  have rec: "tftp_received contents (k + 1) s1" using s1(2) by (simp add: run_inv_def)
  show ?case
  proof (cases "k + 1 < block_count ?B contents")
    case True
    then have "NetState s1 = NETLOOP_CONTINUE"
      using rec file_block_facts(1) [OF B True] by (auto simp: tftp_received_def c)
    then have "net_iteration TFTP i s = Some (None, s1)"
      using rx calm next_block.hyps(2) by (simp add: net_iteration_def)
    moreover have "NetServerEther s1 \<noteq> NetEtherNullAddr" "TftpServerIP s1 \<notin> {0, 0xFFFFFFFF}"
      using con con1 next_block.prems(7,8) by (simp_all add: same_connection_def)
    ultimately show ?thesis
      using next_block.IH [OF next_block.prems(1) True s1(2) _ s1(3,4)] s1(5) next_block.prems(4) by simp
  next
    case False
    then have n: "k + 1 = block_count ?B contents" using next_block.prems(2) by simp
    then have big: "length contents < (k + 1) * ?B"
      using B by (simp add: block_count_def dividend_less_div_times add.commute)
    then have r: "load (ram s1) (load_addr s0) (length contents) = contents" "NetBootFileXferSize s1 = of_nat (length contents)"
        "NetState s1 = NETLOOP_SUCCESS"
      using rec by (simp_all add: tftp_received_def c min_def)
    have "contents \<noteq> [] \<Longrightarrow> (of_nat (length contents) :: u32) \<noteq> 0"
      using next_block.prems(1) of_nat_eq32 [of "length contents" 0] by (simp add: rx_apart_def)
    moreover have "env_vars s1 = env_vars s0" using con1 by (simp add: same_connection_def)
    ultimately have "downloaded contents (load_addr s0) (env_vars s0) (snd (net_success s1))"
      using r c(3) by (auto simp: downloaded_def net_success_def setenv_hex_def setenv_net_def word_gt_0)
    moreover have "net_iteration TFTP i s = Some (Some (sint (of_nat (length contents) :: u32)), snd (net_success s1))"
      using rx calm next_block.hyps(2) r by (simp add: net_iteration_def net_success_def split_beta)
    ultimately show ?thesis by simp
  qed
qed

lemma TftpStart_asks:
  assumes "tftp_source c = Some (server, name)" and "TftpRRQTimeoutMSecs c \<noteq> 0"
  shows "TftpStart now c = Some (TftpSend now (tftp_asking now server name c))"
  using assms by (simp add: TftpStart_def tftp_asking_def NetSetHandler_def NetSetTimeout_def Let_def)

lemma TftpSend_asks:
  assumes "server \<notin> {0, 0xFFFFFFFF}" and "x = tftp_asking now server name c"
  obtains req pkt where "TftpSend now x =
      eth_send req (x\<lparr>NetIPID := NetIPID x + 1, NetArpWaitPacketIP := server, NetArpWaitReplyIP := arp_target c server,
        NetArpWaitPacketMAC := Ether_server, NetArpWaitTxPacket := pkt, NetArpWaitTry := 1, NetArpWaitTimerStart := now\<rparr>)"
proof -
  have "ether_at x Ether_server = NetEtherNullAddr" "TftpServerIP x = server" "arp_target x server = arp_target c server"
    by (simp_all add: assms(2) tftp_asking_def ether_at_def NetEtherNullAddr_def arp_target_def)
  then show thesis
    using that NetSendUDPPacket_waits [of x Ether_server server now] assms(1) unfolding TftpSend_def by simp
qed

lemma arp_answered:
  fixes c :: "'a board_state_scheme"
  assumes conf: "tftp_configured now contents server p c"
    and name: "tftp_source c = Some (server, name)"
    and w: "w = (TftpSend now (tftp_asking now server name c))\<lparr>NetBootFileXferSize := 0\<rparr>"
    and cont: "NetState c = NETLOOP_CONTINUE" and pad: "wire_ok (arp_answer p c) pad"
  obtains z where "eth_rx 1 [wire t1 (arp_answer p c) pad] w = Some z"
    and "tftp_waiting port z" "NetArpWaitPacketIP z = 0" "timeStart z = now" "timeDelta z = TftpRRQTimeoutMSecs c"
      "NetServerEther z = NetOurEther p" "TftpServerIP z = server" "NetOurEther z = NetOurEther c" "NetOurIP z = NetOurIP c"
      "NetOurVLAN z = NetOurVLAN c" "TftpOurPort z = 1024 + now mod 3072" "TftpBlkSize z = TFTP_BLOCK_SIZE"
      "load_addr z = load_addr c" "tftp_state.more z = tftp_state.more c" "NetState z = NETLOOP_CONTINUE"
      "env_vars z = env_vars c"
proof -
  note cf = conf [unfolded tftp_configured_def]
  define x where "x = tftp_asking now server name c"
  have "server \<notin> {0, 0xFFFFFFFF}" using cf by blast
  from TftpSend_asks [OF this x_def] obtain req pkt where send: "TftpSend now x =
      eth_send req (x\<lparr>NetIPID := NetIPID x + 1, NetArpWaitPacketIP := server, NetArpWaitReplyIP := arp_target c server,
        NetArpWaitPacketMAC := Ether_server, NetArpWaitTxPacket := pkt, NetArpWaitTry := 1, NetArpWaitTimerStart := now\<rparr>)"
    by blast
  define f where "f = arp_answer p c"
  define v where "v = w\<lparr>ram := overwrite (ram w) (NetRxPackets w) (stored f pad)\<rparr>"
  have frame: "load (ram v) (NetRxPackets w) (length f) = f"
    using load_stored [OF pad] by (simp add: v_def f_def)
  have vf: "NetOurEther v = NetOurEther c" "NetOurIP v = NetOurIP c" "NetOurVLAN v = NetOurVLAN c"
      "NetArpWaitPacketIP v = server" "NetArpWaitPacketMAC v = Ether_server" "NetArpWaitReplyIP v = NetOurIP p"
    using cf by (simp_all add: v_def w send x_def [symmetric] eth_send_def) (simp_all add: x_def tftp_asking_def)
  define z where "z = (eth_send (NetOurEther p @ drop 6 (NetArpWaitTxPacket v)) (set_ether_at v (NetArpWaitPacketMAC v) (NetOurEther p)))
      \<lparr>NetArpWaitPacketIP := 0, NetArpWaitTxPacket := [], NetArpWaitPacketMAC := Ether_null\<rparr>"
  have "NetReceive (net_handler t1) (NetRxPackets w) (int (length (f @ pad))) v = Some z"
    unfolding z_def
    by (rule arp_reply_accepted [OF frame, where p = p and tha = "NetOurEther c"])
      (use cf in \<open>auto simp: f_def arp_answer_def vf same_vlan_def net_check_prereq_def split: if_splits\<close>)
  then have rx: "eth_rx 1 [wire t1 f pad] w = Some z"
    by (simp only: eth_rx_wire [OF pad [folded f_def]] v_def)
  have zv: "z = v\<lparr>eth_sent := eth_sent z, NetServerEther := NetOurEther p, NetArpWaitPacketIP := 0, NetArpWaitTxPacket := [],
      NetArpWaitPacketMAC := Ether_null\<rparr>"
    by (simp add: z_def vf set_ether_at_def eth_send_def)
  have wx: "w = x\<lparr>NetIPID := NetIPID x + 1, NetArpWaitPacketIP := server, NetArpWaitReplyIP := arp_target c server,
        NetArpWaitPacketMAC := Ether_server, NetArpWaitTxPacket := pkt, NetArpWaitTry := 1, NetArpWaitTimerStart := now,
        eth_sent := eth_sent w, NetBootFileXferSize := 0\<rparr>"
    by (simp add: w x_def [symmetric] send eth_send_def)
  show thesis
  proof (rule that [OF rx [unfolded f_def]])
    show "tftp_waiting port z"
      using cf cont by (subst zv, unfold v_def, subst wx) (simp add: tftp_waiting_def x_def tftp_asking_def)
  qed (subst zv, unfold v_def, subst wx, simp add: x_def tftp_asking_def cont)+
qed

lemma prompt_server_cong:
  assumes "prompt_server port contents s0 k t d is"
    and "NetOurEther s = NetOurEther s0" "NetOurIP s = NetOurIP s0" "NetOurVLAN s = NetOurVLAN s0"
      "TftpOurPort s = TftpOurPort s0" "TftpBlkSize s = TftpBlkSize s0"
  shows "prompt_server port contents s k t d is"
  using assms(1)
proof induction
  case (all_sent t d "is")
  then show ?case using prompt_server.all_sent [of port contents s t d "is"] assms(6) by simp
next
  case (idle k t d "is" i)
  then show ?case by (blast intro: prompt_server.idle)
next
  case (next_block k t' "is" i srv pad t d)
  have "server_ok srv s" using next_block.hyps(3) assms by (simp add: server_ok_def same_vlan_def)
  moreover have "data_frame srv port contents (k + 1) s0 = data_frame srv port contents (k + 1) s"
    using assms by (simp add: data_frame_def udp_frame_def)
  then have "wire_ok (data_frame srv port contents (k + 1) s) pad" "received i [wire t' (data_frame srv port contents (k + 1) s) pad]"
    using next_block.hyps(4,5) by (simp_all only:)
  ultimately show ?case
    using prompt_server.next_block [OF next_block.IH next_block.hyps(2) _ _ _ next_block.hyps(6)] by blast
qed

text \<open>Both variables can be read when 46 bytes are left: two names, two numbers of at most eight digits, four separators.\<close>

lemma length_hex: "length (digit_string True 16 (x :: u32)) \<le> 8"
  by (rule digit_string_length) (use unat_u32_less [of x] in simp_all)

lemma length_env_text_set_var:
  "length (env_text (del_var vars name)) \<le> length (env_text vars)"
  "length (env_text (set_var vars name val)) \<le> length (env_text vars) + length name + length val + 2"
  by (induction vars) (auto simp: del_var_def set_var_def env_text_def entry_def)

lemma downloaded_vars:
  assumes "downloaded contents p vars s"
  shows "contents \<noteq> [] \<and> length (env_text vars) + 46 < ENV_SIZE \<longrightarrow>
    map_of (env_vars s) (ascii ''filesize'') = Some (digit_string True 16 (of_nat (length contents))) \<and>
    map_of (env_vars s) (ascii ''fileaddr'') = Some (digit_string True 16 p)"
proof
  let ?v1 = "digit_string True 16 (of_nat (length contents))" and ?v2 = "digit_string True 16 p"
  let ?vars1 = "set_var vars (ascii ''filesize'') ?v1"
  assume c: "contents \<noteq> [] \<and> length (env_text vars) + 46 < ENV_SIZE"
  have n: "length (ascii ''filesize'') = 8" "length (ascii ''fileaddr'') = 8" by (simp_all add: ascii_def)
  have fits1: "var_fits vars (ascii ''filesize'') ?v1"
    using c n length_hex [of "of_nat (length contents)"] length_env_text_set_var(1) [of vars "ascii ''filesize''"]
    by (simp add: var_fits_def env_text_def entry_def)
  moreover have "var_fits ?vars1 (ascii ''fileaddr'') ?v2"
    using c n length_hex [of "of_nat (length contents)"] length_hex [of p] length_env_text_set_var(1) [of ?vars1 "ascii ''fileaddr''"]
      length_env_text_set_var(2) [of vars "ascii ''filesize''" ?v1]
    by (simp add: var_fits_def env_text_def entry_def)
  ultimately show "map_of (env_vars s) (ascii ''filesize'') = Some ?v1 \<and> map_of (env_vars s) (ascii ''fileaddr'') = Some ?v2"
    using assms c by (simp add: downloaded_def map_of_set_var) (simp add: ascii_def)
qed

lemmas sample_defs = sample_configured_def sample_tftp_def net_reset_def tftp_ports_def TFTP_BLOCK_SIZE_def TIMEOUT_def

lemma sample_apart: "rx_apart [1, 2, 3] (tftp_ports 0 sample_configured)"
proof -
  have "a \<notin> area 0x2000000 1536 \<or> a \<notin> area 0x100000 3" for a
    by (simp add: area_nowrap)
  then have "area 0x2000000 1536 \<inter> area 0x100000 3 = {}" by blast
  then show ?thesis by (simp add: rx_apart_def sample_defs numeral_3_eq_3)
qed

lemma sample_is_configured: "tftp_configured 0 [1, 2, 3] 0xc0a80264 sample_server sample_configured"
  unfolding tftp_configured_def
  by (simp only: sample_apart)
    (simp add: zero_mac sample_defs net_check_prereq_def tftp_source_def ascii_def arp_target_def
      sample_server_def sample_host_def same_vlan_def NetEtherNullAddr_def MAX_LEN_def)

lemma sample_frames:
  "wire_ok (arp_answer sample_server sample_configured) (replicate 22 0)"
  "wire_ok (data_frame sample_server 4000 [1, 2, 3] 1 (tftp_ports 0 sample_configured)) (replicate 22 0)"
  by (simp_all add: wire_ok_def arp_answer_def data_frame_def udp_frame_def data_packet_def file_block_def NetSetEther_def
      sample_defs sample_server_def sample_host_def)

lemma sample_prompt: "prompt_server 4000 [1, 2, 3] (tftp_ports 0 sample_configured) 0 0 (TftpRRQTimeoutMSecs sample_configured) (tl sample_inputs)"
proof -
  have n: "block_count (blksize (tftp_ports 0 sample_configured)) [1, 2, 3 :: u8] = 0 + 1"
    by (simp add: block_count_def sample_defs)
  have "server_ok sample_server (tftp_ports 0 sample_configured)"
    by (simp add: server_ok_def sample_defs sample_server_def sample_host_def same_vlan_def)
  moreover note prompt_server.all_sent [of 4000 "[1, 2, 3]" "tftp_ports 0 sample_configured" 7 TIMEOUT "[]", unfolded n]
  ultimately show ?thesis
    unfolding sample_inputs_def list.sel using sample_frames(2)
    by (intro prompt_server.next_block [where t' = 7 and srv = sample_server and pad = "replicate 22 0"])
      (simp_all add: TIMEOUT_def received_def)
qed

section \<open>Properties\<close>

text \<open>
  C6: In every run of a transfer made of these steps: the blocks in order; the last block repeated, unless its number is 0
  modulo 65536; packets for other ports; damaged packets; and timeouts while retries are left; after \<open>k\<close> blocks
  the memory at \<open>load_addr\<close> holds the first \<open>k\<close> blocks of the file and the size counts them, also beyond the wrap of the
  16-bit block numbers; as long as blocks are missing the loop goes on and accepts the next one, and with the
  last block it ends successfully with the whole file in memory. Packets come through the driver. A repeated
  block with number 0 is excluded because it is stored too high, as \<open>tftp_block_zero_again\<close> shows.
\<close>

theorem tftp_transfer:
  assumes start: "tftp_waiting port s0" "rx_apart contents s0" and run: "tftp_run contents port s0 k s"
  shows "load (ram s) (load_addr s0) (min (k * blksize s0) (length contents)) = take (k * blksize s0) contents \<and>
    NetBootFileXferSize s = of_nat (min (k * blksize s0) (length contents)) \<and>
    (k < block_count (blksize s0) contents \<longrightarrow> NetState s = NETLOOP_CONTINUE \<and>
      (\<forall>srv now pad. server_ok (srv :: net_state) s \<and> wire_ok (data_frame srv port contents (k + 1) s) pad \<longrightarrow>
        (\<exists>s'. eth_rx 1 [wire now (data_frame srv port contents (k + 1) s) pad] s = Some s' \<and>
          tftp_run contents port s0 (k + 1) s'))) \<and>
    (k = block_count (blksize s0) contents \<longrightarrow> NetState s = NETLOOP_SUCCESS \<and>
      load (ram s) (load_addr s0) (length contents) = contents \<and> NetBootFileXferSize s = of_nat (length contents))"
proof -
  define B where "B = blksize s0"
  have inv: "run_inv contents port s0 k s" by (rule tftp_run_inv [OF run start])
  then have con: "same_connection s0 s" and rec: "tftp_received contents k s" by (simp_all add: run_inv_def)
  note c = connection_facts [OF con]
  have B: "0 < B" using start(2) by (simp add: rx_apart_def B_def)
  have r: "load (ram s) (load_addr s0) (min (k * B) (length contents)) = take (k * B) contents"
    "NetBootFileXferSize s = of_nat (min (k * B) (length contents))"
    "NetState s = (if length contents < k * B then NETLOOP_SUCCESS else NETLOOP_CONTINUE)"
    using rec by (simp_all add: tftp_received_def c B_def)
  have "NetState s = NETLOOP_CONTINUE" if "k < block_count B contents"
    using r(3) file_block_facts(1) [OF B that] by simp
  moreover have "\<exists>s'. eth_rx 1 [wire now (data_frame srv port contents (k + 1) s) pad] s = Some s' \<and>
      tftp_run contents port s0 (k + 1) s'"
    if "k < block_count B contents" "server_ok (srv :: net_state) s" "wire_ok (data_frame srv port contents (k + 1) s) pad" for srv now pad
    using run_data_step [OF inv _ that(2) start(2) that(3), of now] tftp_run.run_data [OF run _ that(2,3), of now] that(1)
    unfolding B_def by metis
  moreover have "length contents < k * B" if "k = block_count B contents"
    using that B by (simp add: block_count_def dividend_less_div_times add.commute)
  ultimately show ?thesis
    using r unfolding B_def [symmetric] by (auto simp: min_def)
qed

theorem tftp_transfer_witness:
  "\<exists>s. tftp_run [1, 2, 3] 4000 sample_waiting 1 s \<and> NetState s = NETLOOP_SUCCESS \<and>
    load (ram s) (load_addr sample_waiting) (length [1, 2, 3 :: u8]) = [1, 2, 3]"
proof -
  have w: "tftp_waiting 4000 sample_waiting"
    by (simp add: tftp_waiting_def sample_waiting_def sample_defs)
  have a: "rx_apart [1, 2, 3] sample_waiting"
    using sample_apart by (simp add: rx_apart_def sample_waiting_def)
  have n: "block_count (blksize sample_waiting) [1, 2, 3 :: u8] = 1"
    by (simp add: block_count_def sample_waiting_def sample_defs)
  have ok: "server_ok sample_server sample_waiting"
    by (simp add: server_ok_def sample_waiting_def sample_defs sample_server_def sample_host_def same_vlan_def)
  have pad: "wire_ok (data_frame sample_server 4000 [1, 2, 3] (0 + 1) sample_waiting) (replicate 22 0)"
    using sample_frames(2) by (simp add: sample_waiting_def data_frame_def udp_frame_def)
  from tftp_transfer [OF w a tftp_run.run_start] n ok pad
  obtain s where "tftp_run [1, 2, 3] 4000 sample_waiting (0 + 1) s" by force
  with tftp_transfer [OF w a this] n show ?thesis by auto
qed

text \<open>
  C7: A download ends: on a board configured for the network, when the answer for the hardware address and then the blocks
  of the file come through the driver in time, with idle iterations in between, \<open>NetLoop\<close> returns the length of the
  file, and the file is in memory at \<open>load_addr\<close>. The environment is the old one with \<open>filesize\<close> and then
  \<open>fileaddr\<close> set, so that both can be read from it if they fit; a variable that does not fit is deleted.
\<close>

theorem tftp_download:
  assumes init: "NetInitLoop TFTP ((net_reset s)\<lparr>NetOurEther := bi_enetaddr s, NetState := NETLOOP_CONTINUE\<rparr>) = Some c"
    and conf: "tftp_configured now contents server p c"
    and arp: "received i [wire ta (arp_answer p c) pad]" "\<not> in_ctrlc i" "in_time i - now \<le> TftpRRQTimeoutMSecs c"
    and pad: "wire_ok (arp_answer p c) pad"
    and blocks: "prompt_server port contents (tftp_ports now c) 0 now (TftpRRQTimeoutMSecs c) is"
  shows "\<exists>s'. NetLoop True TFTP now (i # is) s = Some (Some (sint (of_nat (length contents) :: u32)), s') \<and>
    downloaded contents (load_addr s) (env_vars s) s' \<and>
    (contents \<noteq> [] \<and> length (env_text (env_vars s)) + 46 < ENV_SIZE \<longrightarrow>
      map_of (env_vars s') (ascii ''filesize'') = Some (digit_string True 16 (of_nat (length contents))) \<and>
      map_of (env_vars s') (ascii ''fileaddr'') = Some (digit_string True 16 (load_addr s)))"
proof -
  obtain name where name: "tftp_source c = Some (server, name)"
    and cf: "net_check_prereq TFTP c = 0" "TftpRRQTimeoutMSecs c \<noteq> 0" "rx_apart contents (tftp_ports now c)"
      "NetOurEther p \<noteq> NetEtherNullAddr" "server \<notin> {0, 0xFFFFFFFF}"
    using conf unfolding tftp_configured_def by blast
  have cont: "NetState c = NETLOOP_CONTINUE" and load: "load_addr c = load_addr s" and env: "env_vars c = env_vars s"
    using NetInitLoop_keeps [OF init] by (simp_all add: net_reset_def)
  define w where "w = (TftpSend now (tftp_asking now server name c))\<lparr>NetBootFileXferSize := 0\<rparr>"
  have start: "net_restart TFTP now (net_reset s) = Some (None, w)"
    using init cf(1) TftpStart_asks [OF name cf(2), of now] by (simp add: net_restart_def net_start_def net_reset_def w_def)
  obtain z where z: "eth_rx 1 [wire ta (arp_answer p c) pad] w = Some z" "tftp_waiting port z" "NetArpWaitPacketIP z = 0"
    "timeStart z = now" "timeDelta z = TftpRRQTimeoutMSecs c" "NetServerEther z = NetOurEther p" "TftpServerIP z = server"
    "NetOurEther z = NetOurEther c" "NetOurIP z = NetOurIP c" "NetOurVLAN z = NetOurVLAN c" "TftpOurPort z = 1024 + now mod 3072"
    "TftpBlkSize z = TFTP_BLOCK_SIZE" "load_addr z = load_addr c" "tftp_state.more z = tftp_state.more c" "NetState z = NETLOOP_CONTINUE"
    "env_vars z = env_vars c"
    using arp_answered [OF conf name w_def cont pad, of ta port] by metis
  have "run_timeout (in_time i) (ArpTimeoutCheck (in_time i) z) = Some z"
    using arp(3) z(3-5) by (intro calm_checks) simp_all
  then have first: "net_iteration TFTP i w = Some (None, z)"
    using z(1,15) arp(2) by (simp add: net_iteration_def eth_rx_received [OF arp(1)])
  have apart: "rx_apart contents z"
    using cf(3) z more_board [OF z(14)] by (simp add: rx_apart_def tftp_ports_def)
  then have "run_inv contents port z 0 z"
    by (rule tftp_run_inv [OF tftp_run.run_start z(2)])
  moreover have "prompt_server port contents z 0 now (TftpRRQTimeoutMSecs c) is"
    using z by (intro prompt_server_cong [OF blocks]) (simp_all add: tftp_ports_def)
  moreover have "0 < block_count (blksize z) contents" by (simp add: block_count_def)
  ultimately obtain s' where s': "net_wait TFTP is z = Some (Some (sint (of_nat (length contents) :: u32)), s')"
      "downloaded contents (load_addr z) (env_vars z) s'"
    using net_wait_downloads [OF _ apart, of port 0 now "TftpRRQTimeoutMSecs c" "is" z] z(3-7) cf(4,5) by auto
  then have d: "downloaded contents (load_addr s) (env_vars s) s'"
    using z(13,16) load env by simp
  moreover have "NetLoop True TFTP now (i # is) s = Some (Some (sint (of_nat (length contents) :: u32)), s')"
    using start first s'(1) by (simp add: NetLoop_def)
  ultimately show ?thesis using downloaded_vars [OF d] by blast
qed

theorem tftp_download_witness:
  "\<exists>s'. NetLoop True TFTP 0 sample_inputs sample_tftp = Some (Some (sint (of_nat (length [1, 2, 3 :: u8]) :: u32)), s') \<and>
    downloaded [1, 2, 3] (load_addr sample_tftp) (env_vars sample_tftp) s'"
proof -
  have "sample_inputs = hd sample_inputs # tl sample_inputs" by (simp add: sample_inputs_def)
  moreover have "\<exists>s'. NetLoop True TFTP 0 (hd sample_inputs # tl sample_inputs) sample_tftp =
      Some (Some (sint (of_nat (length [1, 2, 3 :: u8]) :: u32)), s') \<and>
      downloaded [1, 2, 3] (load_addr sample_tftp) (env_vars sample_tftp) s' \<and>
      ([1, 2, 3 :: u8] \<noteq> [] \<and> length (env_text (env_vars sample_tftp)) + 46 < ENV_SIZE \<longrightarrow>
        map_of (env_vars s') (ascii ''filesize'') = Some (digit_string True 16 (of_nat (length [1, 2, 3 :: u8]))) \<and>
        map_of (env_vars s') (ascii ''fileaddr'') = Some (digit_string True 16 (load_addr sample_tftp)))"
    by (rule tftp_download [OF _ sample_is_configured _ _ _ sample_frames(1) sample_prompt, where ta = 3])
      (simp_all add: sample_inputs_def NetInitLoop_def received_def, simp_all add: sample_defs)
  ultimately show ?thesis by auto
qed

end
