(* ===== verification/Nfs_Transfer.thy ===== *)
theory Nfs_Transfer
  imports Tftp_Transfer
begin

text \<open>
  What the NFS client does with a server. The server is specified by what it reads in the calls: it answers every call
  from the call alone. The runs of a transfer are all interleavings of its answers with packets for other ports and
  timeouts; an invariant says, by the number of answers, which call is pending and which part of the file is in
  memory. The second part is about what goes wrong: a silent server and a relative link.
\<close>

section \<open>Specification\<close>

text \<open>What a server exports: one file in one directory, their handles, and the ports of its two services.\<close>

record nfs_export =
  exp_dir :: "u8 list"
  exp_name :: "u8 list"
  exp_contents :: "u8 list"
  exp_dirfh :: "u8 list"
  exp_filefh :: "u8 list"
  exp_mount_port :: u32
  exp_nfs_port :: u32

definition rpc_call :: "u32 \<Rightarrow> u32 \<Rightarrow> u32 \<Rightarrow> u8 list \<Rightarrow> u8 list" where
  "rpc_call ident prog proc data =
     bytes_be32 ident @ bytes_be32 0 @ bytes_be32 2 @ bytes_be32 prog @ bytes_be32 2 @ bytes_be32 proc @ data"

definition rpc_reply :: "u32 \<Rightarrow> u8 list \<Rightarrow> u8 list" where
  "rpc_reply ident body =
     bytes_be32 ident @ bytes_be32 1 @ bytes_be32 0 @ bytes_be32 0 @ bytes_be32 0 @ bytes_be32 0 @ body"

text \<open>The string at word \<open>i\<close> of a call.\<close>

definition rpc_str :: "u8 list \<Rightarrow> nat \<Rightarrow> u8 list option" where
  "rpc_str call i = do { len \<leftarrow> rpc_word call i; rpc_bytes call (i + 1) (unat len) }"

text \<open>A piece of the file with its length and 17 words of attributes.\<close>

definition read_reply :: "u8 list \<Rightarrow> u8 list" where
  "read_reply chunk = bytes_be32 0 @ replicate 68 0 @ bytes_be32 (of_nat (length chunk)) @ chunk"

text \<open>The answer to a call of the port mapper, of the mount service and of the NFS service.\<close>

definition nfs_serve :: "nfs_export \<Rightarrow> u8 list \<Rightarrow> u8 list option" where
  "nfs_serve e call = do {
     ident \<leftarrow> rpc_word call 0;
     prog \<leftarrow> rpc_word call 3;
     proc \<leftarrow> rpc_word call 5;
     body \<leftarrow>
       (if prog = PROG_PORTMAP then do {
          service \<leftarrow> rpc_word call 10;
          Some (bytes_be32 (if service = PROG_MOUNT then exp_mount_port e else exp_nfs_port e)) }
        else if prog = PROG_MOUNT then
          if proc = 1 then do {
            dir \<leftarrow> rpc_str call 15;
            Some (if dir = exp_dir e then bytes_be32 0 @ exp_dirfh e else bytes_be32 2) }
          else Some []
        else do {
          fh \<leftarrow> rpc_bytes call 15 NFS_FHSIZE;
          if proc = 4 then do {
            name \<leftarrow> rpc_str call 23;
            Some (if fh = exp_dirfh e \<and> name = exp_name e then bytes_be32 0 @ exp_filefh e else bytes_be32 2) }
          else do {
            ofs \<leftarrow> rpc_word call 23;
            count \<leftarrow> rpc_word call 24;
            Some (if fh = exp_filefh e
                  then read_reply (take (unat count) (drop (unat ofs) (exp_contents e))) else bytes_be32 70) } });
     Some (rpc_reply ident body) }"

text \<open>The last call the client sent.\<close>

definition nfs_call :: "'a net_state_scheme \<Rightarrow> u8 list" where
  "nfs_call s = drop (nat (NetEthHdrSize s) + 28) (last (eth_sent s))"

text \<open>
  A client connected to a server that exports the file it wants, on the board configured as \<open>a\<close>: the hardware address of the server is known, the receive buffer is
  apart from the place the file is loaded to, and the names fit a packet.
\<close>

definition nfs_linked :: "'b board_state_scheme \<Rightarrow> nfs_export \<Rightarrow> 'a board_state_scheme \<Rightarrow> bool" where
  "nfs_linked a e s \<longleftrightarrow>
     load_addr s = load_addr a \<and> NetOurEther s = NetOurEther a \<and> NetOurIP s = NetOurIP a \<and> NetOurVLAN s = NetOurVLAN a \<and>
     NetArpWaitPacketIP s = 0 \<and> packetHandler s = Rx_nfs \<and> (timeHandler s = None \<or> timeHandler s = Some Th_nfs) \<and> NfsOurPort s = 1000 \<and>
     NetServerEther s \<noteq> NetEtherNullAddr \<and> length (NetServerEther s) = 6 \<and> length (NetOurEther a) = 6 \<and>
     NfsServerIP s \<notin> {0, 0xFFFFFFFF} \<and>
     array_str (nfs_path_buff s) 0 = Some (exp_dir e) \<and> array_str (nfs_path_buff s) (nfs_filename s) = Some (exp_name e) \<and>
     length (exp_dir e) \<le> 1000 \<and> length (exp_name e) \<le> 1000 \<and>
     length (exp_dirfh e) = 32 \<and> length (exp_filefh e) = 32 \<and> exp_mount_port e \<noteq> - 1 \<and>
     length (exp_contents e) < 2 ^ 31 \<and>
     area (NetRxPackets s) 1536 \<inter> area (load_addr a) (length (exp_contents e)) = {}"

text \<open>The runs: \<open>k\<close> counts the answers.\<close>

inductive nfs_run :: "nfs_export \<Rightarrow> 'a board_state_scheme \<Rightarrow> nat \<Rightarrow> 'a board_state_scheme \<Rightarrow> bool"
  for e :: nfs_export and s0 :: "'a board_state_scheme" where
  nfs_start: "nfs_run e s0 0 s0"
| nfs_answer: "nfs_run e s0 k s \<Longrightarrow> NetState s = NETLOOP_CONTINUE \<Longrightarrow> server_ok (srv :: net_state) s \<Longrightarrow>
    nfs_serve e (nfs_call s) = Some reply \<Longrightarrow> wire_ok (udp_frame srv 1000 sport reply s) pad \<Longrightarrow>
    eth_rx 1 [wire now (udp_frame srv 1000 sport reply s) pad] s = Some s' \<Longrightarrow> nfs_run e s0 (k + 1) s'"
| nfs_foreign: "nfs_run e s0 k s \<Longrightarrow> server_ok (srv :: net_state) s \<Longrightarrow> dport \<noteq> 1000 \<Longrightarrow>
    wire_ok (udp_frame srv dport sport data s) pad \<Longrightarrow>
    eth_rx 1 [wire now (udp_frame srv dport sport data s) pad] s = Some s' \<Longrightarrow> nfs_run e s0 k s'"
| nfs_tick: "nfs_run e s0 k s \<Longrightarrow> NetState s = NETLOOP_CONTINUE \<Longrightarrow> NfsTimeoutCount s < NFS_RETRY_COUNT \<Longrightarrow>
    run_timeout now s = Some s' \<Longrightarrow> nfs_run e s0 k s'"

text \<open>The number of answers with data, and the number of bytes loaded after \<open>k\<close> answers.\<close>

definition read_count :: "nfs_export \<Rightarrow> nat" where
  "read_count e = (length (exp_contents e) + 1023) div 1024"

definition loaded :: "nfs_export \<Rightarrow> nat \<Rightarrow> nat" where
  "loaded e k = min ((k - 4) * 1024) (length (exp_contents e))"

text \<open>The call that is pending after \<open>k\<close> answers.\<close>

definition nfs_asks :: "nfs_export \<Rightarrow> nat \<Rightarrow> u32 \<times> u32 \<times> u8 list" where
  "nfs_asks e k =
     (let lookup = (\<lambda>prog ver. bytes_be32 0 @ bytes_be32 0 @ bytes_be32 0 @ bytes_be32 0 @ bytes_be32 prog @
            bytes_be32 ver @ bytes_be32 17 @ bytes_be32 0)
      in if k = 0 then (PROG_PORTMAP, 3, lookup PROG_MOUNT 1)
         else if k = 1 then (PROG_PORTMAP, 3, lookup PROG_NFS 2)
         else if k = 2 then (PROG_MOUNT, 1, rpc_add_credentials @ rpc_string (exp_dir e))
         else if k = 3 then (PROG_NFS, 4, rpc_add_credentials @ exp_dirfh e @ rpc_string (exp_name e))
         else if k \<le> 4 + read_count e then
           (PROG_NFS, 6, rpc_add_credentials @ exp_filefh e @ bytes_be32 (of_nat (loaded e k)) @ bytes_be32 1024 @ bytes_be32 0)
         else (PROG_MOUNT, 4, rpc_add_credentials))"

definition nfs_expects :: "nfs_export \<Rightarrow> nat \<Rightarrow> nfs_phase" where
  "nfs_expects e k =
     (if k = 0 then STATE_PRCLOOKUP_PROG_MOUNT_REQ else if k = 1 then STATE_PRCLOOKUP_PROG_NFS_REQ
      else if k = 2 then STATE_MOUNT_REQ else if k = 3 then STATE_LOOKUP_REQ
      else if k \<le> 4 + read_count e then STATE_READ_REQ else STATE_UMOUNT_REQ)"

text \<open>The variables of the client after \<open>k\<close> answers.\<close>

definition nfs_vars :: "nfs_export \<Rightarrow> nat \<Rightarrow> 'a board_state_scheme \<Rightarrow> bool" where
  "nfs_vars e k s \<longleftrightarrow>
     NfsState s = nfs_expects e k \<and> (1 \<le> k \<longrightarrow> NfsSrvMountPort s = exp_mount_port e) \<and>
     (3 \<le> k \<longrightarrow> fs_mounted s \<and> dirfh s = exp_dirfh e) \<and> (4 \<le> k \<longrightarrow> filefh s = exp_filefh e) \<and>
     (4 \<le> k \<and> k \<le> 4 + read_count e \<longrightarrow> nfs_offset s = of_nat (loaded e k) \<and> nfs_len s = 1024) \<and>
     (4 + read_count e < k \<longrightarrow> NfsDownloadState s = NETLOOP_SUCCESS) \<and>
     NetBootFileXferSize s = of_nat (loaded e k) \<and>
     load (ram s) (load_addr s) (loaded e k) = take (loaded e k) (exp_contents e)"

definition nfs_pending :: "nfs_export \<Rightarrow> nat \<Rightarrow> 'a net_state_scheme \<Rightarrow> u32 \<Rightarrow> bool" where
  "nfs_pending e k s ident \<longleftrightarrow> (\<exists>prog proc data. nfs_asks e k = (prog, proc, data) \<and> nfs_call s = rpc_call ident prog proc data)"

definition nfs_inv :: "'b board_state_scheme \<Rightarrow> nfs_export \<Rightarrow> nat \<Rightarrow> 'a board_state_scheme \<Rightarrow> bool" where
  "nfs_inv a e k s \<longleftrightarrow>
     nfs_linked a e s \<and>
     (if k \<le> 5 + read_count e then nfs_vars e k s \<and> nfs_pending e k s (rpc_id s) \<and> NetState s = NETLOOP_CONTINUE
      else k = 6 + read_count e \<and> NetState s = NETLOOP_SUCCESS \<and>
        NetBootFileXferSize s = of_nat (length (exp_contents e)) \<and>
        load (ram s) (load_addr s) (length (exp_contents e)) = exp_contents e)"

text \<open>A file to try the code on.\<close>

definition sample_export :: nfs_export where
  "sample_export =
     \<lparr>exp_dir = ascii ''/d'', exp_name = ascii ''f'', exp_contents = [1, 2, 3], exp_dirfh = replicate 32 1,
      exp_filefh = replicate 32 2, exp_mount_port = 700, exp_nfs_port = 2049\<rparr>"

definition sample_nfs :: board_state where
  "sample_nfs = sample_configured\<lparr>BootFile := ascii ''/d/f''\<rparr>"

section \<open>Words of a message\<close>

lemma length_credentials [simp]: "length rpc_add_credentials = 36"
  by (simp add: rpc_add_credentials_def)

lemma rpc_word_here [simp]: "rpc_word (bytes_be32 w @ xs) 0 = Some w"
  by (simp add: rpc_word_def bytes_be32_def)

lemma rpc_word_skip: "length xs = 4 * k \<Longrightarrow> k \<le> i \<Longrightarrow> rpc_word (xs @ ys) i = rpc_word ys (i - k)"
  by (auto simp: rpc_word_def nth_append le_iff_add)

lemma rpc_word_next [simp]: "0 < i \<Longrightarrow> rpc_word (bytes_be32 w @ xs) i = rpc_word xs (i - 1)"
  by (rule rpc_word_skip) simp_all

lemma rpc_bytes_skip: "length xs = 4 * k \<Longrightarrow> k \<le> i \<Longrightarrow> rpc_bytes (xs @ ys) i n = rpc_bytes ys (i - k) n"
  by (auto simp: rpc_bytes_def le_iff_add)

lemma rpc_bytes_next [simp]: "0 < i \<Longrightarrow> rpc_bytes (bytes_be32 w @ xs) i n = rpc_bytes xs (i - 1) n"
  by (rule rpc_bytes_skip) simp_all

lemma rpc_bytes_here: "length xs = n \<Longrightarrow> rpc_bytes (xs @ ys) 0 n = Some xs"
  by (simp add: rpc_bytes_def)

lemma credentials_skip:
  "9 \<le> i \<Longrightarrow> rpc_word (rpc_add_credentials @ ys) i = rpc_word ys (i - 9)"
  "9 \<le> i \<Longrightarrow> rpc_bytes (rpc_add_credentials @ ys) i n = rpc_bytes ys (i - 9) n"
  by (simp_all add: rpc_word_skip rpc_bytes_skip)

lemma handle_skip:
  "length fh = 32 \<Longrightarrow> 8 \<le> i \<Longrightarrow> rpc_word (fh @ ys) i = rpc_word ys (i - 8)"
  "length fh = 32 \<Longrightarrow> 8 \<le> i \<Longrightarrow> rpc_bytes (fh @ ys) i n = rpc_bytes ys (i - 8) n"
  by (simp_all add: rpc_word_skip rpc_bytes_skip)

lemma rpc_call_words:
  "rpc_word (rpc_call ident prog proc data) 0 = Some ident" "rpc_word (rpc_call ident prog proc data) 3 = Some prog"
  "rpc_word (rpc_call ident prog proc data) 5 = Some proc"
  "6 \<le> i \<Longrightarrow> rpc_word (rpc_call ident prog proc data) i = rpc_word data (i - 6)"
  "6 \<le> i \<Longrightarrow> rpc_bytes (rpc_call ident prog proc data) i n = rpc_bytes data (i - 6) n"
  by (auto simp: rpc_call_def le_iff_add)

lemma rpc_string_read: "length str < 2 ^ 32 \<Longrightarrow> rpc_str (rpc_string str @ ys) 0 = Some str"
  by (simp add: rpc_str_def rpc_string_def rpc_bytes_here unat_of_nat)

lemma rpc_string_read_end: "length str < 2 ^ 32 \<Longrightarrow> rpc_str (rpc_string str) 0 = Some str"
  using rpc_string_read [of str "[]"] by simp

lemma rpc_str_skip:
  "6 \<le> i \<Longrightarrow> rpc_str (rpc_call ident prog proc data) i = rpc_str data (i - 6)"
  "9 \<le> i \<Longrightarrow> rpc_str (rpc_add_credentials @ ys) i = rpc_str ys (i - 9)"
  "length fh = 32 \<Longrightarrow> 8 \<le> i \<Longrightarrow> rpc_str (fh @ ys) i = rpc_str ys (i - 8)"
  by (auto simp: rpc_str_def rpc_call_words credentials_skip handle_skip le_iff_add)

lemma length_rpc_reply [simp]: "length (rpc_reply ident body) = 24 + length body"
  by (simp add: rpc_reply_def)

lemma rpc_reply_words:
  "rpc_word (rpc_reply ident body) 0 = Some ident" "rpc_word (rpc_reply ident body) 2 = Some 0"
  "rpc_word (rpc_reply ident body) 3 = Some 0" "rpc_word (rpc_reply ident body) 5 = Some 0"
  "6 \<le> i \<Longrightarrow> rpc_word (rpc_reply ident body) i = rpc_word body (i - 6)"
  "6 \<le> i \<Longrightarrow> rpc_bytes (rpc_reply ident body) i n = rpc_bytes body (i - 6) n"
  by (auto simp: rpc_reply_def le_iff_add)

text \<open>The answers, by the number of answers before.\<close>

definition nfs_body :: "nfs_export \<Rightarrow> nat \<Rightarrow> u8 list" where
  "nfs_body e k =
     (if k = 0 then bytes_be32 (exp_mount_port e) else if k = 1 then bytes_be32 (exp_nfs_port e)
      else if k = 2 then bytes_be32 0 @ exp_dirfh e else if k = 3 then bytes_be32 0 @ exp_filefh e
      else if k \<le> 4 + read_count e then read_reply (take 1024 (drop (loaded e k) (exp_contents e)))
      else [])"

lemma progs_differ:
  "PROG_NFS \<noteq> PROG_PORTMAP" "PROG_MOUNT \<noteq> PROG_PORTMAP" "PROG_NFS \<noteq> PROG_MOUNT"
  by (simp_all add: PROG_NFS_def PROG_PORTMAP_def PROG_MOUNT_def)

lemma loaded_bound: "loaded e k \<le> length (exp_contents e)"
  by (simp add: loaded_def)

lemma nfs_serve_asked:
  assumes "nfs_linked a e s" and "nfs_asks e k = (prog, proc, data)"
  shows "nfs_serve e (rpc_call ident prog proc data) = Some (rpc_reply ident (nfs_body e k))"
proof -
  have l: "length (exp_dirfh e) = 32" "length (exp_filefh e) = 32" "length (exp_dir e) < 2 ^ 32" "length (exp_name e) < 2 ^ 32"
      "length (exp_contents e) < 2 ^ 31"
    using assms(1) by (simp_all add: nfs_linked_def)
  have u: "unat (of_nat (loaded e k) :: u32) = loaded e k"
    using loaded_bound [of e k] l(5) by (simp add: unat_of_nat)
  note words = rpc_call_words credentials_skip handle_skip [OF l(1)] handle_skip [OF l(2)] rpc_str_skip(1,2)
    rpc_str_skip(3) [OF l(1)] rpc_string_read_end [OF l(3)] rpc_string_read_end [OF l(4)] rpc_bytes_here [OF l(1)] rpc_bytes_here [OF l(2)]
  consider "k = 0" | "k = 1" | "k = 2" | "k = 3" | "4 \<le> k" "k \<le> 4 + read_count e" | "4 + read_count e < k" by linarith
  then show ?thesis
  proof cases
    case 1
    then show ?thesis using assms(2) by (auto simp: nfs_asks_def nfs_serve_def nfs_body_def words)
  next
    case 2
    then show ?thesis using assms(2) progs_differ by (auto simp: nfs_asks_def nfs_serve_def nfs_body_def words)
  next
    case 3
    then show ?thesis using assms(2) progs_differ by (auto simp: nfs_asks_def nfs_serve_def nfs_body_def words)
  next
    case 4
    then show ?thesis using assms(2) progs_differ by (auto simp: nfs_asks_def nfs_serve_def nfs_body_def NFS_FHSIZE_def words)
  next
    case 5
    then show ?thesis using assms(2) progs_differ u by (auto simp: nfs_asks_def nfs_serve_def nfs_body_def NFS_FHSIZE_def words)
  next
    case 6
    then show ?thesis using assms(2) progs_differ by (auto simp: nfs_asks_def nfs_serve_def nfs_body_def words)
  qed
qed

section \<open>Sending\<close>

text \<open>The state after a call was sent in the given frame.\<close>

definition nfs_sent :: "u8 list \<Rightarrow> 'a nfs_state_scheme \<Rightarrow> 'a nfs_state_scheme" where
  "nfs_sent frame s = s\<lparr>rpc_id := rpc_id s + 1, NetIPID := NetIPID s + 1, eth_sent := eth_sent s @ [frame]\<rparr>"

lemma rpc_req_sends:
  assumes link: "nfs_linked a e s" and len: "length data \<le> 1400"
  shows "\<exists>frame. rpc_req now prog proc data s = Some (nfs_sent frame s) \<and>
    nfs_call (nfs_sent frame s) = rpc_call (rpc_id s + 1) prog proc data"
proof -
  define port where "port = (if prog = PROG_PORTMAP then SUNRPC_PORT else if prog = PROG_MOUNT then NfsSrvMountPort s
    else NfsSrvNfsPort s)"
  define s1 where "s1 = s\<lparr>rpc_id := rpc_id s + 1\<rparr>"
  define call where "call = rpc_call (rpc_id s + 1) prog proc data"
  define frame where "frame = NetSetEther s1 (NetServerEther s) PROT_IP @
    fst (NetSetIP s1 (NfsServerIP s) (ucast port) (ucast (NfsOurPort s)) (length call)) @ call"
  have l: "NetServerEther s \<noteq> NetEtherNullAddr" "length (NetServerEther s) = 6" "length (NetOurEther s) = 6"
      "NfsServerIP s \<notin> {0, 0xFFFFFFFF}"
    using link by (simp_all add: nfs_linked_def)
  have h: "NetEthHdrSize s1 = NetEthHdrSize s" by (simp add: s1_def NetEthHdrSize_def)
  have clen: "length call = 24 + length data" by (simp add: call_def rpc_call_def)
  have "\<not> NetEthHdrSize s1 + int IP_HDR_SIZE + int (length call) > PKTSIZE_ALIGN"
    using NetEthHdrSize_cases [of s1] len clen by (auto simp: IP_HDR_SIZE_def PKTSIZE_ALIGN_def)
  then have "rpc_req now prog proc data s =
      Some (NetSendUDPPacket now s1 Ether_server (NfsServerIP s1) (ucast port) (ucast (NfsOurPort s1)) call)"
    unfolding rpc_req_def Let_def by (simp add: s1_def call_def rpc_call_def port_def)
  also have "NetSendUDPPacket now s1 Ether_server (NfsServerIP s1) (ucast port) (ucast (NfsOurPort s1)) call = nfs_sent frame s"
    using l unfolding NetSendUDPPacket_def Let_def
    by (simp add: s1_def ether_at_def split_beta NetSetIP_state eth_send_def nfs_sent_def frame_def)
  finally have "rpc_req now prog proc data s = Some (nfs_sent frame s)" .
  moreover have "nfs_call (nfs_sent frame s) = call"
    using length_NetSetEther [of "NetServerEther s" s1 PROT_IP] l h
    by (simp add: nfs_call_def nfs_sent_def frame_def NetEthHdrSize_def s1_def)
  ultimately show ?thesis unfolding call_def by blast
qed

lemma rpc_string_length: "length (rpc_string str) \<le> 7 + length str"
  by (simp add: rpc_string_def)

lemma nfs_sent_keeps:
  "nfs_linked a e (nfs_sent frame s) \<longleftrightarrow> nfs_linked a e s" "nfs_vars e k (nfs_sent frame s) \<longleftrightarrow> nfs_vars e k s"
  "NetState (nfs_sent frame s) = NetState s" "rpc_id (nfs_sent frame s) = rpc_id s + 1"
  by (simp_all add: nfs_sent_def nfs_linked_def nfs_vars_def)

lemma NfsSend_asks:
  assumes link: "nfs_linked a e s" and vars: "nfs_vars e k s" and k: "k \<le> 5 + read_count e"
  shows "\<exists>frame. NfsSend now s = Some (nfs_sent frame s) \<and> nfs_pending e k (nfs_sent frame s) (rpc_id s + 1)"
proof -
  obtain prog proc data where a: "nfs_asks e k = (prog, proc, data)" by (metis prod_cases3)
  have l: "length (exp_dirfh e) = 32" "length (exp_filefh e) = 32" "length (exp_dir e) \<le> 1000" "length (exp_name e) \<le> 1000"
      "array_str (nfs_path_buff s) 0 = Some (exp_dir e)" "array_str (nfs_path_buff s) (nfs_filename s) = Some (exp_name e)"
      "exp_mount_port e \<noteq> - 1"
    using link by (simp_all add: nfs_linked_def)
  have "NfsSend now s = rpc_req now prog proc data s \<and> length data \<le> 1400"
  proof -
    consider "k = 0" | "k = 1" | "k = 2" | "k = 3" | "4 \<le> k" "k \<le> 4 + read_count e" | "k = 5 + read_count e"
      using k by linarith
    then show ?thesis
    proof cases
      case 1
      then show ?thesis using a vars
        by (auto simp: NfsSend_def nfs_vars_def nfs_expects_def nfs_asks_def rpc_lookup_req_def)
    next
      case 2
      then show ?thesis using a vars
        by (auto simp: NfsSend_def nfs_vars_def nfs_expects_def nfs_asks_def rpc_lookup_req_def)
    next
      case 3
      then show ?thesis using a vars l rpc_string_length [of "exp_dir e"]
        by (auto simp: NfsSend_def nfs_vars_def nfs_expects_def nfs_asks_def nfs_mount_req_def)
    next
      case 4
      then show ?thesis using a vars l rpc_string_length [of "exp_name e"]
        by (auto simp: NfsSend_def nfs_vars_def nfs_expects_def nfs_asks_def nfs_lookup_req_def)
    next
      case 5
      then show ?thesis using a vars l
        by (auto simp: NfsSend_def nfs_vars_def nfs_expects_def nfs_asks_def nfs_read_req_def)
    next
      case 6
      then show ?thesis using a vars l
        by (auto simp: NfsSend_def nfs_vars_def nfs_expects_def nfs_asks_def nfs_umountall_req_def)
    qed
  qed
  with rpc_req_sends [OF link, of data now prog proc] a show ?thesis
    unfolding nfs_pending_def by auto
qed

section \<open>Answers\<close>

lemma NetReadIP_word:
  assumes "load m pkt n = xs" and "rpc_word xs i = Some w"
  shows "NetReadIP m (pkt + of_nat (4 * i)) = w"
proof -
  have n: "4 * i + 4 \<le> n" and w: "w = be32 (xs ! (4 * i)) (xs ! (4 * i + 1)) (xs ! (4 * i + 2)) (xs ! (4 * i + 3))"
    using assms by (auto simp: rpc_word_def split: if_splits)
  have "xs ! (4 * i + j) = m (pkt + of_nat (4 * i) + of_nat j)" if "j < 4" for j
    using load_nth_eq [OF assms(1), of "4 * i + j"] n that by (simp add: add.assoc)
  from this [of 0] this [of 1] this [of 2] this [of 3] show ?thesis
    by (simp add: w NetReadIP_def)
qed

lemma rpc_refused_reply:
  assumes "set is \<subseteq> {2, 3, 5}"
  shows "rpc_refused (rpc_reply (rpc_id s) body) is s = Some False"
proof -
  have "rpc_failed (rpc_reply (rpc_id s) body) is = Some False"
    using assms by (induction "is") (auto simp: rpc_reply_words)
  then show ?thesis by (simp add: rpc_refused_def rpc_reply_words)
qed

lemma rpc_refused_data:
  "rpc_refused (rpc_reply (rpc_id s) (bytes_be32 0 @ fh)) [2, 3, 5, 6] s = Some False"
  by (simp add: rpc_refused_def rpc_reply_words)

lemma rpc_copy_reply:
  "load m pkt (length xs) = xs \<Longrightarrow> length xs \<le> 2048 \<Longrightarrow> rpc_copy m pkt (of_nat (length xs)) = Some xs"
  by (simp add: rpc_copy_def RPC_SIZE_def unat_of_nat)

lemma read_count_iff: "4 \<le> k \<Longrightarrow> k < 4 + read_count e \<longleftrightarrow> loaded e k < length (exp_contents e)"
  unfolding read_count_def loaded_def by (auto simp: le_iff_add)

lemma loaded_next:
  assumes "4 \<le> k"
  shows "loaded e (k + 1) = loaded e k + length (take 1024 (drop (loaded e k) (exp_contents e)))"
proof -
  obtain c where "k = 4 + c" using assms by (auto simp: le_iff_add)
  then show ?thesis by (simp add: loaded_def min_def) arith
qed

lemma nfs_stores:
  assumes old: "load (ram s) (load_addr s) (loaded e k) = take (loaded e k) (exp_contents e)"
      "NetBootFileXferSize s = of_nat (loaded e k)" "nfs_offset s = of_nat (loaded e k)"
    and chunk: "chunk = take 1024 (drop (loaded e k) (exp_contents e))" "4 \<le> k"
    and src: "load (ram s) src (length chunk) = chunk"
      "area src (length chunk) \<inter> area (load_addr s) (length (exp_contents e)) = {}"
    and size: "length (exp_contents e) < 2 ^ 31"
  shows "\<exists>m. nfs_store_block src (nfs_offset s) (of_nat (length chunk)) s =
      s\<lparr>ram := m, NetBootFileXferSize := of_nat (loaded e (k + 1))\<rparr> \<and>
    load m (load_addr s) (loaded e (k + 1)) = take (loaded e (k + 1)) (exp_contents e)"
proof -
  define m where "m = snd (memcpy (ram s) (load_addr s + of_nat (loaded e k)) src (of_nat (length chunk)))"
  have nx: "loaded e (k + 1) = loaded e k + length chunk"
    unfolding chunk(1) by (rule loaded_next [OF chunk(2)])
  have le: "loaded e (k + 1) \<le> length (exp_contents e)" by (rule loaded_bound)
  have len: "length (take (loaded e k) (exp_contents e)) = loaded e k" by (simp add: loaded_bound)
  have "area (load_addr s) (loaded e k + length chunk) \<subseteq> area (load_addr s) (length (exp_contents e))"
    using le nx by (auto simp: area_def)
  then have "load m (load_addr s) (loaded e k + length chunk) = take (loaded e k) (exp_contents e) @ chunk"
    using memcpy_next_block [of "ram s" "load_addr s" "take (loaded e k) (exp_contents e)" src chunk, unfolded len]
      old(1) src nx le size unfolding m_def by auto
  moreover have "take (loaded e (k + 1)) (exp_contents e) = take (loaded e k) (exp_contents e) @ chunk"
    unfolding nx chunk(1) by (simp add: take_add min_def)
  moreover have "nfs_store_block src (nfs_offset s) (of_nat (length chunk)) s =
      s\<lparr>ram := m, NetBootFileXferSize := of_nat (loaded e (k + 1))\<rparr>"
  proof -
    have u: "unat (of_nat (loaded e k) :: u32) = loaded e k" "unat (of_nat (loaded e (k + 1)) :: u32) = loaded e (k + 1)"
      using le loaded_bound [of e k] size by (simp_all add: unat_of_nat)
    have "(of_nat (loaded e k) :: u32) + of_nat (length chunk) = of_nat (loaded e (k + 1))"
      unfolding nx by simp
    moreover have "(of_nat (loaded e k) :: u32) < of_nat (loaded e (k + 1)) \<or> loaded e k = loaded e (k + 1)"
      using nx u by (auto simp: word_less_nat_alt)
    ultimately show ?thesis
      using old by (auto simp: nfs_store_block_def Let_def m_def)
  qed
  ultimately show ?thesis unfolding nx by metis
qed

lemma nfs_read_reply_stores:
  assumes reply: "load (ram t) pkt (length reply) = reply" "reply = rpc_reply (rpc_id t) (read_reply chunk)"
    and len: "length chunk \<le> 1024"
  shows "nfs_read_reply pkt t = (int (length chunk), nfs_store_block (pkt + 100) (nfs_offset t) (of_nat (length chunk)) t)"
    and "load (ram t) (pkt + 100) (length chunk) = chunk"
proof -
  have body: "rpc_word (read_reply chunk) 18 = Some (of_nat (length chunk))"
    using rpc_word_skip [of "replicate 68 0" 17 17 "bytes_be32 (of_nat (length chunk)) @ chunk"] by (simp add: read_reply_def)
  note w = NetReadIP_word [OF reply(1)]
  have words: "NetReadIP (ram t) pkt = rpc_id t" "NetReadIP (ram t) (pkt + 8) = 0" "NetReadIP (ram t) (pkt + 12) = 0"
      "NetReadIP (ram t) (pkt + 20) = 0" "NetReadIP (ram t) (pkt + 24) = 0" "NetReadIP (ram t) (pkt + 96) = of_nat (length chunk)"
    using w [of 0 "rpc_id t"] w [of 2 0] w [of 3 0] w [of 5 0] w [of 6 0] w [of 24 "of_nat (length chunk)"] body
    by (simp_all add: reply(2) rpc_reply_words) (simp add: read_reply_def)
  have "sint (of_nat (length chunk) :: u32) = int (length chunk)"
    using len by (simp add: sint_uint uint_nat unat_of_nat signed_take_bit_int_eq_self)
  then show "nfs_read_reply pkt t = (int (length chunk), nfs_store_block (pkt + 100) (nfs_offset t) (of_nat (length chunk)) t)"
    using words by (simp add: nfs_read_reply_def Let_def)
  have split: "reply = (rpc_reply (rpc_id t) (take 76 (read_reply chunk))) @ chunk"
    by (simp add: reply(2) rpc_reply_def read_reply_def)
  have "length (rpc_reply (rpc_id t) (take 76 (read_reply chunk))) = 100"
    by (simp add: read_reply_def)
  with load_prefix(2) [OF reply(1) [unfolded split]] show "load (ram t) (pkt + 100) (length chunk) = chunk"
    by simp
qed

lemma nfs_read_answer:
  assumes link: "nfs_linked a e t" and vars: "nfs_vars e k t" and k: "4 \<le> k" "k \<le> 4 + read_count e"
    and cont: "NetState t = NETLOOP_CONTINUE"
    and reply: "reply = rpc_reply (rpc_id t) (nfs_body e k)" "load (ram t) pkt (length reply) = reply"
    and apart: "area pkt (length reply) \<inter> area (load_addr t) (length (exp_contents e)) = {}"
  shows "\<exists>u. nfs_read_step now pkt t = NfsSend now u \<and> nfs_linked a e u \<and> nfs_vars e (k + 1) u \<and> NetState u = NETLOOP_CONTINUE"
proof -
  define chunk where "chunk = take 1024 (drop (loaded e k) (exp_contents e))"
  have size: "length (exp_contents e) < 2 ^ 31" using link by (simp add: nfs_linked_def)
  have body: "nfs_body e k = read_reply chunk" using k by (simp add: nfs_body_def chunk_def)
  have len: "length chunk \<le> 1024" by (simp add: chunk_def)
  note rd = nfs_read_reply_stores [OF reply(2) reply(1) [unfolded body] len]
  have v: "load (ram t) (load_addr t) (loaded e k) = take (loaded e k) (exp_contents e)"
      "NetBootFileXferSize t = of_nat (loaded e k)" "nfs_offset t = of_nat (loaded e k)" "nfs_len t = 1024"
    using vars k by (simp_all add: nfs_vars_def)
  have "length reply = 100 + length chunk" by (simp add: reply(1) body read_reply_def)
  then have "area (pkt + 100) (length chunk) \<subseteq> area pkt (length reply)"
    using area_inside [of 100 "length chunk" "length reply" pkt] len by simp
  then have "area (pkt + 100) (length chunk) \<inter> area (load_addr t) (length (exp_contents e)) = {}"
    using apart by blast
  from nfs_stores [OF v(1-3) chunk_def k(1) rd(2) this size] obtain m
    where m: "nfs_store_block (pkt + 100) (nfs_offset t) (of_nat (length chunk)) t =
        t\<lparr>ram := m, NetBootFileXferSize := of_nat (loaded e (k + 1))\<rparr>"
      "load m (load_addr t) (loaded e (k + 1)) = take (loaded e (k + 1)) (exp_contents e)" by blast
  define u where "u = t\<lparr>ram := m, NetBootFileXferSize := of_nat (loaded e (k + 1)), timeHandler := Some Th_nfs,
    timeStart := now, timeDelta := NFS_TIMEOUT\<rparr>"
  have st: "NetSetTimeout now NFS_TIMEOUT Th_nfs (t\<lparr>ram := m, NetBootFileXferSize := of_nat (loaded e (k + 1))\<rparr>) = u"
    by (simp add: NetSetTimeout_def NFS_TIMEOUT_def u_def)
  have nx: "loaded e (k + 1) = loaded e k + length chunk" unfolding chunk_def by (rule loaded_next [OF k(1)])
  show ?thesis
  proof (cases "chunk = []")
    case True
    then have k': "k = 4 + read_count e"
      using read_count_iff [OF k(1), of e] k(2) loaded_bound [of e k] by (auto simp: chunk_def)
    have "nfs_read_step now pkt t = NfsSend now (u\<lparr>NfsDownloadState := NETLOOP_SUCCESS, NfsState := STATE_UMOUNT_REQ\<rparr>)"
      unfolding nfs_read_step_def rd(1) Let_def m(1) by (simp only: prod.case st) (simp add: True)
    then show ?thesis
      using k' vars link cont m(2) nx True
      by (intro exI [of _ "u\<lparr>NfsDownloadState := NETLOOP_SUCCESS, NfsState := STATE_UMOUNT_REQ\<rparr>"])
        (simp add: u_def nfs_linked_def nfs_vars_def nfs_expects_def)
  next
    case False
    then have "loaded e k < length (exp_contents e)" by (simp add: chunk_def)
    then have k': "k < 4 + read_count e" using read_count_iff [OF k(1)] by blast
    have pos: "0 < length chunk" using False by simp
    have o: "nfs_offset u + word_of_int (int (length chunk)) = of_nat (loaded e (k + 1))"
      by (simp add: u_def v(3)) (simp add: nx [simplified])
    have "nfs_read_step now pkt t = NfsSend now (u\<lparr>nfs_offset := of_nat (loaded e (k + 1))\<rparr>)"
      unfolding nfs_read_step_def rd(1) Let_def m(1) using pos by (simp only: prod.case st o) simp
    then show ?thesis
      using k k' vars link cont m(2)
      by (intro exI [of _ "u\<lparr>nfs_offset := of_nat (loaded e (k + 1))\<rparr>"])
        (simp add: u_def nfs_linked_def nfs_vars_def nfs_expects_def)
  qed
qed

lemma nfs_answer_state:
  assumes link: "nfs_linked a e t" and vars: "nfs_vars e k t" and k: "k \<le> 4 + read_count e" and cont: "NetState t = NETLOOP_CONTINUE"
    and reply: "reply = rpc_reply (rpc_id t) (nfs_body e k)" "load (ram t) pkt (length reply) = reply"
    and apart: "area pkt (length reply) \<inter> area (load_addr t) (length (exp_contents e)) = {}"
  shows "\<exists>u. NfsHandler now pkt 1000 src (of_nat (length reply)) t = NfsSend now u \<and> nfs_linked a e u \<and> nfs_vars e (k + 1) u \<and>
    NetState u = NETLOOP_CONTINUE"
proof -
  have l: "length (exp_dirfh e) = 32" "length (exp_filefh e) = 32" "NfsOurPort t = 1000" "length (exp_contents e) < 2 ^ 31"
    using link by (simp_all add: nfs_linked_def)
  consider "k = 0" | "k = 1" | "k = 2" | "k = 3" | "4 \<le> k" using k by linarith
  then show ?thesis
  proof cases
    case 1
    have c: "rpc_copy (ram t) pkt (of_nat (length reply)) = Some reply"
      using rpc_copy_reply [OF reply(2)] 1 by (simp add: reply(1) nfs_body_def)
    define u where "u = t\<lparr>NfsSrvMountPort := exp_mount_port e, NfsState := STATE_PRCLOOKUP_PROG_NFS_REQ\<rparr>"
    have "NfsHandler now pkt 1000 src (of_nat (length reply)) t = NfsSend now u"
      using 1 vars c l(3) unfolding NfsHandler_def rpc_lookup_reply_def u_def
      by (simp add: nfs_vars_def nfs_expects_def reply(1) rpc_refused_reply nfs_body_def rpc_reply_words rpc_word_here [of _ "[]", simplified])
    then show ?thesis
      using 1 vars link cont by (intro exI [of _ u]) (simp add: u_def nfs_linked_def nfs_vars_def nfs_expects_def loaded_def)
  next
    case 2
    have c: "rpc_copy (ram t) pkt (of_nat (length reply)) = Some reply"
      using rpc_copy_reply [OF reply(2)] 2 by (simp add: reply(1) nfs_body_def)
    define u where "u = t\<lparr>NfsSrvNfsPort := exp_nfs_port e, NfsState := STATE_MOUNT_REQ\<rparr>"
    have "NfsHandler now pkt 1000 src (of_nat (length reply)) t = NfsSend now u"
      using 2 vars c l(3) progs_differ unfolding NfsHandler_def rpc_lookup_reply_def u_def
      by (simp add: nfs_vars_def nfs_expects_def reply(1) rpc_refused_reply nfs_body_def rpc_reply_words rpc_word_here [of _ "[]", simplified])
    then show ?thesis
      using 2 vars link cont by (intro exI [of _ u]) (simp add: u_def nfs_linked_def nfs_vars_def nfs_expects_def loaded_def)
  next
    case 3
    have c: "rpc_copy (ram t) pkt (of_nat (length reply)) = Some reply"
      using rpc_copy_reply [OF reply(2)] 3 l by (simp add: reply(1) nfs_body_def)
    define u where "u = t\<lparr>fs_mounted := True, dirfh := exp_dirfh e, NfsState := STATE_LOOKUP_REQ\<rparr>"
    have "NfsHandler now pkt 1000 src (of_nat (length reply)) t = NfsSend now u"
      using 3 vars c l rpc_bytes_here [OF l(1), of "[]"] unfolding NfsHandler_def nfs_mount_reply_def u_def
      by (simp add: nfs_vars_def nfs_expects_def reply(1) rpc_refused_data nfs_body_def rpc_reply_words NFS_FHSIZE_def)
    then show ?thesis
      using 3 vars link cont by (intro exI [of _ u]) (simp add: u_def nfs_linked_def nfs_vars_def nfs_expects_def loaded_def)
  next
    case 4
    have c: "rpc_copy (ram t) pkt (of_nat (length reply)) = Some reply"
      using rpc_copy_reply [OF reply(2)] 4 l by (simp add: reply(1) nfs_body_def)
    define u where "u = t\<lparr>filefh := exp_filefh e, NfsState := STATE_READ_REQ, nfs_offset := 0, nfs_len := NFS_READ_SIZE\<rparr>"
    have "NfsHandler now pkt 1000 src (of_nat (length reply)) t = NfsSend now u"
      using 4 vars c l rpc_bytes_here [OF l(2), of "[]"] unfolding NfsHandler_def nfs_lookup_reply_def u_def
      by (simp add: nfs_vars_def nfs_expects_def reply(1) rpc_refused_data nfs_body_def rpc_reply_words NFS_FHSIZE_def)
    then show ?thesis
      using 4 vars link cont
      by (intro exI [of _ u]) (simp add: u_def nfs_linked_def nfs_vars_def nfs_expects_def loaded_def NFS_READ_SIZE_def)
  next
    case 5
    have "NfsHandler now pkt 1000 src (of_nat (length reply)) t = nfs_read_step now pkt t"
      using 5 k vars l(3) by (simp add: NfsHandler_def nfs_vars_def nfs_expects_def)
    then show ?thesis using nfs_read_answer [OF link vars 5 k cont reply apart, of now] by simp
  qed
qed

lemma loaded_all: "4 + read_count e \<le> k \<Longrightarrow> loaded e k = length (exp_contents e)"
  by (auto simp: loaded_def read_count_def le_iff_add min_def)

lemma nfs_last_answer:
  assumes inv: "nfs_inv a e k t" and k: "k = 5 + read_count e"
    and reply: "reply = rpc_reply (rpc_id t) (nfs_body e k)" "load (ram t) pkt (length reply) = reply"
  shows "\<exists>u. NfsHandler now pkt 1000 src (of_nat (length reply)) t = Some u \<and> nfs_inv a e (k + 1) u"
proof -
  have i: "nfs_linked a e t" "nfs_vars e k t" using inv k by (simp_all add: nfs_inv_def)
  define u where "u = t\<lparr>fs_mounted := False, dirfh := replicate NFS_FHSIZE 0, NetState := NETLOOP_SUCCESS\<rparr>"
  have c: "rpc_copy (ram t) pkt (of_nat (length reply)) = Some reply"
    using rpc_copy_reply [OF reply(2)] k by (simp add: reply(1) nfs_body_def)
  have "NfsHandler now pkt 1000 src (of_nat (length reply)) t = Some u"
    using i k c unfolding NfsHandler_def nfs_umountall_reply_def u_def
    by (simp add: nfs_linked_def nfs_vars_def nfs_expects_def reply(1) rpc_refused_reply)
  moreover have "nfs_inv a e (k + 1) u"
    using i k loaded_all [of e k] by (simp add: nfs_inv_def u_def nfs_linked_def nfs_vars_def)
  ultimately show ?thesis by blast
qed

lemma nfs_inv_step:
  assumes inv: "nfs_inv a e k t" and k: "k \<le> 5 + read_count e"
    and reply: "reply = rpc_reply (rpc_id t) (nfs_body e k)" "load (ram t) pkt (length reply) = reply"
    and apart: "area pkt (length reply) \<inter> area (load_addr t) (length (exp_contents e)) = {}"
  shows "\<exists>u. NfsHandler now pkt 1000 src (of_nat (length reply)) t = Some u \<and> nfs_inv a e (k + 1) u"
proof (cases "k = 5 + read_count e")
  case True
  then show ?thesis by (rule nfs_last_answer [OF inv _ reply])
next
  case False
  then have k': "k \<le> 4 + read_count e" using k by simp
  have i: "nfs_linked a e t" "nfs_vars e k t" "NetState t = NETLOOP_CONTINUE" using inv k by (simp_all add: nfs_inv_def)
  from nfs_answer_state [OF i(1,2) k' i(3) reply apart] obtain u
    where u: "NfsHandler now pkt 1000 src (of_nat (length reply)) t = NfsSend now u" "nfs_linked a e u" "nfs_vars e (k + 1) u"
      "NetState u = NETLOOP_CONTINUE" by blast
  have k1: "k + 1 \<le> 5 + read_count e" using k' by simp
  from NfsSend_asks [OF u(2,3) k1, of now] obtain frame
    where "NfsSend now u = Some (nfs_sent frame u)" "nfs_pending e (k + 1) (nfs_sent frame u) (rpc_id u + 1)" by blast
  then show ?thesis
    using u k1 by (intro exI [of _ "nfs_sent frame u"]) (simp add: nfs_inv_def nfs_sent_keeps)
qed

section \<open>Runs\<close>

lemma nfs_inv_rx:
  assumes inv: "nfs_inv a e k s" and f: "length f \<le> 1536"
  shows "nfs_inv a e k (s\<lparr>ram := overwrite (ram s) (NetRxPackets s) f\<rparr>)"
proof -
  define t where "t = s\<lparr>ram := overwrite (ram s) (NetRxPackets s) f\<rparr>"
  have link: "nfs_linked a e s" using inv by (simp add: nfs_inv_def)
  have keep: "load (ram t) (load_addr s) n = load (ram s) (load_addr s) n" if "n \<le> length (exp_contents e)" for n
  proof -
    have "area (load_addr s) n \<subseteq> area (load_addr s) (length (exp_contents e))"
        "area (NetRxPackets s) (length f) \<subseteq> area (NetRxPackets s) 1536"
      using that f by (auto simp: area_def)
    moreover have "area (NetRxPackets s) 1536 \<inter> area (load_addr s) (length (exp_contents e)) = {}"
        "length (exp_contents e) < 2 ^ 31"
      using link by (simp_all add: nfs_linked_def)
    ultimately show ?thesis
      unfolding t_def using that by (simp, intro load_overwrite_disjoint) auto
  qed
  have "nfs_linked a e t" using link by (simp add: t_def nfs_linked_def)
  moreover have "nfs_vars e k t \<longleftrightarrow> nfs_vars e k s"
    using keep [OF loaded_bound, of k] by (simp add: nfs_vars_def t_def)
  moreover have "nfs_pending e k t ident \<longleftrightarrow> nfs_pending e k s ident" for ident
    by (simp add: nfs_pending_def nfs_call_def NetEthHdrSize_def t_def)
  ultimately show ?thesis
    using inv keep [of "length (exp_contents e)"] unfolding t_def [symmetric] nfs_inv_def by (simp add: t_def)
qed

lemma nfs_rx:
  fixes s :: "'a board_state_scheme"
  assumes inv: "nfs_inv a e k s" and ok: "server_ok srv s" and pad: "wire_ok (udp_frame srv dport sport data s) pad"
    and t: "t = s\<lparr>ram := overwrite (ram s) (NetRxPackets s) (stored (udp_frame srv dport sport data s) pad)\<rparr>"
  obtains pkt where "eth_rx 1 [wire now (udp_frame srv dport sport data s) pad] s =
      NfsHandler now pkt (ucast dport) (ucast sport) (of_nat (length data)) t"
    and "load (ram t) pkt (length data) = data" and "area pkt (length data) \<subseteq> area (NetRxPackets s) 1536"
    and "nfs_inv a e k t"
proof -
  define pkt where "pkt = NetRxPackets s + word_of_int (NetEthHdrSize srv) + 28"
  have "packetHandler t = Rx_nfs" using inv by (simp add: t nfs_inv_def nfs_linked_def)
  then have "eth_rx 1 [wire now (udp_frame srv dport sport data s) pad] s =
      NfsHandler now pkt (ucast dport) (ucast sport) (of_nat (length data)) t"
    using eth_rx_udp(1) [OF ok pad t pkt_def, of now] by (simp add: net_handler_def)
  moreover have "load (ram t) pkt (length data) = data"
    by (rule eth_rx_udp(2) [OF ok pad t pkt_def])
  moreover have "area pkt (length data) \<subseteq> area (NetRxPackets s) 1536"
  proof -
    have "pkt = NetRxPackets s + of_nat (nat (NetEthHdrSize srv) + 28)"
      using NetEthHdrSize_cases [of srv] by (auto simp: pkt_def)
    moreover have "nat (NetEthHdrSize srv) + 28 + length data \<le> 1536"
      using length_udp_frame [OF ok, of dport sport data] NetEthHdrSize_cases [of srv] pad by (auto simp: wire_ok_def)
    ultimately show ?thesis using area_inside [of "nat (NetEthHdrSize srv) + 28" "length data" 1536 "NetRxPackets s"] by simp
  qed
  moreover have "nfs_inv a e k t" unfolding t by (rule nfs_inv_rx [OF inv stored_prefix(2) [OF pad]])
  ultimately show thesis by (rule that)
qed

lemma nfs_body_length: "nfs_linked a e s \<Longrightarrow> length (nfs_body e k) \<le> 1100"
  by (simp add: nfs_body_def nfs_linked_def read_reply_def)

lemma nfs_answer_step:
  fixes s :: "'a board_state_scheme"
  assumes inv: "nfs_inv a e k s" and cont: "NetState s = NETLOOP_CONTINUE" and ok: "server_ok srv s"
    and reply: "nfs_serve e (nfs_call s) = Some reply" and pad: "wire_ok (udp_frame srv 1000 sport reply s) pad"
  shows "\<exists>s'. eth_rx 1 [wire now (udp_frame srv 1000 sport reply s) pad] s = Some s' \<and> nfs_inv a e (k + 1) s'"
proof -
  have k: "k \<le> 5 + read_count e" using inv cont by (auto simp: nfs_inv_def split: if_splits)
  have link: "nfs_linked a e s" and pend: "nfs_pending e k s (rpc_id s)" using inv k by (simp_all add: nfs_inv_def)
  obtain prog proc data where "nfs_asks e k = (prog, proc, data)" "nfs_call s = rpc_call (rpc_id s) prog proc data"
    using pend unfolding nfs_pending_def by blast
  then have r: "reply = rpc_reply (rpc_id s) (nfs_body e k)"
    using nfs_serve_asked [OF link, of k prog proc data "rpc_id s"] reply by simp
  define t where "t = s\<lparr>ram := overwrite (ram s) (NetRxPackets s) (stored (udp_frame srv 1000 sport reply s) pad)\<rparr>"
  obtain pkt where rx: "eth_rx 1 [wire now (udp_frame srv 1000 sport reply s) pad] s =
      NfsHandler now pkt (ucast (1000 :: u16)) (ucast sport) (of_nat (length reply)) t"
    "load (ram t) pkt (length reply) = reply" "area pkt (length reply) \<subseteq> area (NetRxPackets s) 1536" "nfs_inv a e k t"
    by (rule nfs_rx [OF inv ok pad t_def])
  have r': "reply = rpc_reply (rpc_id t) (nfs_body e k)" by (simp add: r t_def)
  have "area pkt (length reply) \<inter> area (load_addr t) (length (exp_contents e)) = {}"
    using rx(3) link by (auto simp: nfs_linked_def t_def)
  from nfs_inv_step [OF rx(4) k r' rx(2) this, of now "ucast sport"] rx(1) show ?thesis by simp
qed

lemma nfs_foreign_step:
  fixes s :: "'a board_state_scheme"
  assumes inv: "nfs_inv a e k s" and ok: "server_ok srv s" and port: "dport \<noteq> 1000" and pad: "wire_ok (udp_frame srv dport sport data s) pad"
    and rx: "eth_rx 1 [wire now (udp_frame srv dport sport data s) pad] s = Some s'"
  shows "nfs_inv a e k s'"
proof -
  define t where "t = s\<lparr>ram := overwrite (ram s) (NetRxPackets s) (stored (udp_frame srv dport sport data s) pad)\<rparr>"
  obtain pkt where h: "eth_rx 1 [wire now (udp_frame srv dport sport data s) pad] s =
      NfsHandler now pkt (ucast dport) (ucast sport) (of_nat (length data)) t" "nfs_inv a e k t"
    by (rule nfs_rx [OF inv ok pad t_def]) blast
  have "ucast dport \<noteq> (1000 :: u32)"
  proof
    assume "ucast dport = (1000 :: u32)"
    then have "unat (ucast dport :: u32) = 1000" by simp
    moreover have "take_bit 32 (unat dport) = unat dport"
      using unsigned_less [of dport, where ?'a = nat] by (intro take_bit_nat_eq_self) simp
    ultimately have "unat dport = unat (1000 :: u16)" by (simp add: unsigned_ucast_eq)
    then show False using port by (simp only: word_unat_eq_iff)
  qed
  then have "s' = t"
    using h rx by (simp add: NfsHandler_def nfs_inv_def nfs_linked_def)
  then show ?thesis using h(2) by simp
qed

lemma nfs_tick_step:
  assumes inv: "nfs_inv a e k s" and cont: "NetState s = NETLOOP_CONTINUE" and left: "NfsTimeoutCount s < NFS_RETRY_COUNT"
    and tick: "run_timeout now s = Some s'"
  shows "nfs_inv a e k s'"
proof (cases "timeHandler s = Some Th_nfs \<and> now - timeStart s > timeDelta s")
  case True
  define u where "u = s\<lparr>timeHandler := None, NfsTimeoutCount := NfsTimeoutCount s + 1\<rparr>"
  have k: "k \<le> 5 + read_count e" using inv cont by (auto simp: nfs_inv_def split: if_splits)
  have "run_timeout now s = NfsSend now u"
    using True left by (simp add: run_timeout_def call_time_handler_def NfsTimeout_def Let_def u_def)
  moreover have i: "nfs_linked a e s" "nfs_vars e k s" using inv k by (simp_all add: nfs_inv_def)
  then have u: "nfs_linked a e u" "nfs_vars e k u" "NetState u = NETLOOP_CONTINUE"
    using cont by (simp_all add: u_def) (simp_all add: nfs_linked_def nfs_vars_def)
  moreover obtain frame where "NfsSend now u = Some (nfs_sent frame u)" "nfs_pending e k (nfs_sent frame u) (rpc_id u + 1)"
    using NfsSend_asks [OF u(1,2) k, of now] by blast
  ultimately show ?thesis
    using tick k by (auto simp: nfs_inv_def nfs_sent_keeps)
next
  case False
  then have "s' = s" using tick inv by (auto simp: run_timeout_def nfs_inv_def nfs_linked_def)
  then show ?thesis using inv by simp
qed

lemma nfs_run_inv:
  assumes "nfs_run e s0 k s" and "nfs_inv a e 0 s0"
  shows "nfs_inv a e k s"
  using assms(1)
proof induction
  case nfs_start
  then show ?case by (rule assms(2))
next
  case (nfs_answer k s srv reply sport pad now s')
  from nfs_answer_step [OF nfs_answer.IH nfs_answer.hyps(2-5), of now] nfs_answer.hyps(6) show ?case by auto
next
  case (nfs_foreign k s srv dport sport data pad now s')
  from nfs_foreign_step [OF nfs_foreign.IH nfs_foreign.hyps(2-5)] show ?case .
next
  case (nfs_tick k s now s')
  from nfs_tick_step [OF nfs_tick.IH nfs_tick.hyps(2-4)] show ?case .
qed

lemma nfs_inv_facts:
  assumes "nfs_inv a e k s"
  shows "k \<le> 6 + read_count e" "NetBootFileXferSize s = of_nat (loaded e k)"
    "load (ram s) (load_addr a) (loaded e k) = take (loaded e k) (exp_contents e)"
    "NetState s = (if k = 6 + read_count e then NETLOOP_SUCCESS else NETLOOP_CONTINUE)"
    "k < 6 + read_count e \<Longrightarrow> \<exists>reply. nfs_serve e (nfs_call s) = Some reply \<and> length reply \<le> 1124"
proof -
  have link: "nfs_linked a e s" using assms by (simp add: nfs_inv_def)
  then have a: "load_addr s = load_addr a" by (simp add: nfs_linked_def)
  have "k \<le> 6 + read_count e \<and> NetState s = (if k = 6 + read_count e then NETLOOP_SUCCESS else NETLOOP_CONTINUE) \<and>
    NetBootFileXferSize s = of_nat (loaded e k) \<and> load (ram s) (load_addr s) (loaded e k) = take (loaded e k) (exp_contents e)"
  proof (cases "k \<le> 5 + read_count e")
    case True
    then have "nfs_vars e k s" "NetState s = NETLOOP_CONTINUE" using assms by (simp_all add: nfs_inv_def)
    then show ?thesis using True by (simp add: nfs_vars_def)
  next
    case False
    then show ?thesis using assms loaded_all [of e k] by (simp add: nfs_inv_def)
  qed
  then show "k \<le> 6 + read_count e" "NetState s = (if k = 6 + read_count e then NETLOOP_SUCCESS else NETLOOP_CONTINUE)"
    "NetBootFileXferSize s = of_nat (loaded e k)" "load (ram s) (load_addr a) (loaded e k) = take (loaded e k) (exp_contents e)"
    using a by simp_all
  assume "k < 6 + read_count e"
  then have "nfs_pending e k s (rpc_id s)" using assms by (simp add: nfs_inv_def)
  then have "nfs_serve e (nfs_call s) = Some (rpc_reply (rpc_id s) (nfs_body e k))"
    using nfs_serve_asked [OF link] unfolding nfs_pending_def by metis
  then show "\<exists>reply. nfs_serve e (nfs_call s) = Some reply \<and> length reply \<le> 1124"
    using nfs_body_length [OF link, of k] by simp
qed

section \<open>From the command to the first answer\<close>

lemma basename_last:
  assumes "0x2f \<notin> set name"
  shows "j \<le> length name \<Longrightarrow> basename_loop (dir @ 0x2f # name) (length dir + 1 + j) = Some (length dir + 1)"
proof (induction j)
  case (Suc j)
  then have "name ! j \<noteq> 0x2f" using assms by (metis Suc_le_lessD nth_mem)
  then show ?case using Suc by (simp add: nth_append)
qed (simp add: nth_append)

lemma array_str_at: "0 \<notin> set xs \<Longrightarrow> drop i buf = xs @ 0 # ys \<Longrightarrow> array_str buf i = Some xs"
  by (auto simp: array_str_def takeWhile_append)

lemma split_path:
  assumes dir: "0 \<notin> set dir" and name: "0 \<notin> set name" "0x2f \<notin> set name"
    and buf: "nfs_path_buff s = (dir @ 0x2f # name) @ 0 # rest"
  shows "nfs_split_path s = Some (s\<lparr>nfs_filename := length dir + 1, nfs_path_buff := dir @ 0 # name @ 0 # rest\<rparr>)"
proof -
  have "array_str (nfs_path_buff s) 0 = Some (dir @ 0x2f # name)"
    using dir name(1) buf by (intro array_str_at [where ys = rest]) auto
  then have "basename (nfs_path_buff s) = Some (length dir + 1)"
    using basename_last [OF name(2), of "length name" dir] by (simp add: basename_def)
  then show ?thesis
    by (simp add: nfs_split_path_def dirname_def array_put_def buf)
qed

text \<open>The answer to the ARP request that a packet to the server waits for.\<close>

lemma eth_rx_arp_answer:
  fixes w :: "'a board_state_scheme"
  assumes w: "NetOurEther w = NetOurEther c" "NetOurIP w = NetOurIP c" "NetOurVLAN w = NetOurVLAN c"
      "NetArpWaitPacketIP w \<noteq> 0" "NetArpWaitPacketMAC w = Ether_server" "NetArpWaitReplyIP w = NetOurIP p"
    and c: "NetOurIP c \<noteq> 0" "length (NetOurEther c) = 6" "same_vlan c p" "length (NetOurEther p) = 6"
    and pad: "wire_ok (arp_answer p c) pad"
  shows "eth_rx 1 [wire now (arp_answer p c) pad] w =
    Some (w\<lparr>ram := overwrite (ram w) (NetRxPackets w) (stored (arp_answer p c) pad), NetServerEther := NetOurEther p,
      eth_sent := eth_sent w @ [NetOurEther p @ drop 6 (NetArpWaitTxPacket w)], NetArpWaitPacketIP := 0,
      NetArpWaitTxPacket := [], NetArpWaitPacketMAC := Ether_null\<rparr>)"
proof -
  define f where "f = arp_answer p c"
  define v where "v = w\<lparr>ram := overwrite (ram w) (NetRxPackets w) (stored f pad)\<rparr>"
  have frame: "load (ram v) (NetRxPackets w) (length f) = f"
    using load_stored [OF pad] by (simp add: v_def f_def)
  have "NetReceive (net_handler now) (NetRxPackets w) (int (length (f @ pad))) v =
      Some ((eth_send (NetOurEther p @ drop 6 (NetArpWaitTxPacket v)) (set_ether_at v (NetArpWaitPacketMAC v) (NetOurEther p)))
        \<lparr>NetArpWaitPacketIP := 0, NetArpWaitTxPacket := [], NetArpWaitPacketMAC := Ether_null\<rparr>)"
    by (rule arp_reply_accepted [OF frame, where p = p and tha = "NetOurEther c"])
      (use w c in \<open>auto simp: f_def arp_answer_def v_def same_vlan_def\<close>)
  then show ?thesis
    unfolding f_def [symmetric] eth_rx_wire [OF pad, folded f_def] v_def [symmetric]
    by (simp add: v_def w(5) set_ether_at_def eth_send_def)
qed

text \<open>
  A board configured for the network, state \<open>c\<close>, that asks \<open>server\<close> for the file exported; \<open>p\<close> answers for the
  hardware address.
\<close>

definition nfs_configured :: "nfs_export \<Rightarrow> u32 \<Rightarrow> 'b net_state_scheme \<Rightarrow> 'a board_state_scheme \<Rightarrow> bool" where
  "nfs_configured e server p c \<longleftrightarrow>
     net_check_prereq NFS c = 0 \<and> nfs_source c = Some (server, exp_dir e @ 0x2f # exp_name e) \<and> server \<notin> {0, 0xFFFFFFFF} \<and>
     0 \<notin> set (exp_dir e) \<and> 0 \<notin> set (exp_name e) \<and> 0x2f \<notin> set (exp_name e) \<and>
     length (exp_dir e) \<le> 1000 \<and> length (exp_name e) \<le> 1000 \<and> length (nfs_path_buff c) = NFS_PATH_SIZE \<and>
     length (exp_dirfh e) = 32 \<and> length (exp_filefh e) = 32 \<and> exp_mount_port e \<noteq> - 1 \<and>
     length (exp_contents e) < 2 ^ 31 \<and> area (NetRxPackets c) 1536 \<inter> area (load_addr c) (length (exp_contents e)) = {} \<and>
     length (NetOurEther c) = 6 \<and> NetOurIP p = arp_target c server \<and> NetOurIP p \<noteq> 0 \<and> same_vlan c p \<and>
     length (NetOurEther p) = 6 \<and> NetOurEther p \<noteq> NetEtherNullAddr"

definition nfs_asking :: "u32 \<Rightarrow> nfs_export \<Rightarrow> u32 \<Rightarrow> u8 list \<Rightarrow> 'a board_state_scheme \<Rightarrow> 'a board_state_scheme" where
  "nfs_asking now e server rest c =
     c\<lparr>NfsDownloadState := NETLOOP_FAIL, NfsServerIP := server, nfs_filename := length (exp_dir e) + 1,
       nfs_path_buff := exp_dir e @ 0 # exp_name e @ 0 # rest, timeHandler := Some Th_nfs, timeStart := now,
       timeDelta := NFS_TIMEOUT, packetHandler := Rx_nfs, NfsTimeoutCount := 0,
       NfsState := STATE_PRCLOOKUP_PROG_MOUNT_REQ, NfsOurPort := 1000, NetServerEther := replicate 6 0\<rparr>"

lemma NfsStart_asks:
  assumes conf: "nfs_configured e server p c"
  obtains rest where "NfsStart now c = NfsSend now (nfs_asking now e server rest c)"
proof -
  note cf = conf [unfolded nfs_configured_def]
  define path where "path = exp_dir e @ 0x2f # exp_name e"
  define rest where "rest = drop (length path + 1) (nfs_path_buff c)"
  define s where "s = c\<lparr>NfsDownloadState := NETLOOP_FAIL, NfsServerIP := server, nfs_path_buff := path @ 0 # rest\<rparr>"
  have "array_put (nfs_path_buff c) 0 (path @ [0]) = Some (path @ 0 # rest)"
    using cf by (simp add: array_put_def path_def rest_def NFS_PATH_SIZE_def)
  moreover have "nfs_split_path s =
      Some (s\<lparr>nfs_filename := length (exp_dir e) + 1, nfs_path_buff := exp_dir e @ 0 # exp_name e @ 0 # rest\<rparr>)"
    using cf by (intro split_path) (simp_all add: s_def path_def)
  ultimately have "NfsStart now c = NfsSend now (nfs_asking now e server rest c)"
    using cf unfolding NfsStart_def path_def [symmetric]
    by (simp add: s_def [symmetric] path_def [symmetric] NetSetHandler_def NetSetTimeout_def NFS_TIMEOUT_def)
      (simp add: s_def nfs_asking_def NFS_TIMEOUT_def)
  then show thesis by (rule that)
qed

lemma nfs_first_call:
  assumes x: "x = nfs_asking now e server rest c" and server: "server \<notin> {0, 0xFFFFFFFF}" and mac: "length (NetOurEther c) = 6"
    and asks: "nfs_asks e 0 = (prog, proc, data)"
  obtains req hdr where "NfsSend now x =
      Some (x\<lparr>rpc_id := rpc_id x + 1, NetIPID := NetIPID x + 1, eth_sent := eth_sent x @ [req], NetArpWaitPacketIP := server,
        NetArpWaitReplyIP := arp_target c server, NetArpWaitPacketMAC := Ether_server,
        NetArpWaitTxPacket := NetSetEther c NetEtherNullAddr PROT_IP @ hdr @ rpc_call (rpc_id x + 1) prog proc data,
        NetArpWaitTry := 1, NetArpWaitTimerStart := now\<rparr>)"
    and "length hdr = 28"
proof -
  define s1 where "s1 = x\<lparr>rpc_id := rpc_id x + 1\<rparr>"
  define call where "call = rpc_call (rpc_id x + 1) prog proc data"
  define hdr where "hdr = fst (NetSetIP s1 server (ucast SUNRPC_PORT) (ucast (NfsOurPort s1)) (length call))"
  define req where "req = NetSetEther s1 NetBcastAddr PROT_ARP @
        arp_packet 1 (NetOurEther s1) (NetOurIP s1) (replicate 6 0) (arp_target s1 server)"
  have p: "prog = PROG_PORTMAP" "length data = 32" using asks by (auto simp: nfs_asks_def)
  have "length call = 56" using p(2) by (simp add: call_def rpc_call_def)
  then have fits: "\<not> NetEthHdrSize s1 + int IP_HDR_SIZE + int (length call) > PKTSIZE_ALIGN"
    using NetEthHdrSize_cases [of s1] by (auto simp: IP_HDR_SIZE_def PKTSIZE_ALIGN_def)
  have "NfsSend now x = rpc_req now prog proc data x"
    using asks by (auto simp: NfsSend_def x nfs_asking_def rpc_lookup_req_def nfs_asks_def)
  also have "\<dots> = Some (NetSendUDPPacket now s1 Ether_server (NfsServerIP s1) (ucast SUNRPC_PORT) (ucast (NfsOurPort s1)) call)"
    using fits unfolding rpc_req_def Let_def by (simp add: s1_def call_def rpc_call_def p(1))
  also have "NfsServerIP s1 = server" by (simp add: s1_def x nfs_asking_def)
  also have "NetSendUDPPacket now s1 Ether_server server (ucast SUNRPC_PORT) (ucast (NfsOurPort s1)) call =
      eth_send req (s1\<lparr>NetIPID := NetIPID s1 + 1, NetArpWaitPacketIP := server, NetArpWaitReplyIP := arp_target s1 server,
        NetArpWaitPacketMAC := Ether_server, NetArpWaitTxPacket := NetSetEther s1 NetEtherNullAddr PROT_IP @ hdr @ call,
        NetArpWaitTry := 1, NetArpWaitTimerStart := now\<rparr>)"
    unfolding hdr_def req_def using server
    by (intro NetSendUDPPacket_waits) (simp_all add: s1_def x nfs_asking_def ether_at_def NetEtherNullAddr_def)
  finally have send: "NfsSend now x = Some (eth_send req (s1\<lparr>NetIPID := NetIPID s1 + 1, NetArpWaitPacketIP := server,
        NetArpWaitReplyIP := arp_target s1 server, NetArpWaitPacketMAC := Ether_server,
        NetArpWaitTxPacket := NetSetEther s1 NetEtherNullAddr PROT_IP @ hdr @ call,
        NetArpWaitTry := 1, NetArpWaitTimerStart := now\<rparr>))" .
  have same: "arp_target s1 server = arp_target c server" "NetSetEther s1 NetEtherNullAddr PROT_IP = NetSetEther c NetEtherNullAddr PROT_IP"
    by (simp_all add: s1_def x nfs_asking_def arp_target_def NetSetEther_def)
  show thesis
  proof (rule that)
    show "NfsSend now x =
      Some (x\<lparr>rpc_id := rpc_id x + 1, NetIPID := NetIPID x + 1, eth_sent := eth_sent x @ [req], NetArpWaitPacketIP := server,
        NetArpWaitReplyIP := arp_target c server, NetArpWaitPacketMAC := Ether_server,
        NetArpWaitTxPacket := NetSetEther c NetEtherNullAddr PROT_IP @ hdr @ rpc_call (rpc_id x + 1) prog proc data,
        NetArpWaitTry := 1, NetArpWaitTimerStart := now\<rparr>)"
      unfolding send same call_def [symmetric] by (simp add: s1_def eth_send_def)
    show "length hdr = 28" by (simp add: hdr_def)
  qed
qed

lemma nfs_connected:
  fixes s :: "'a board_state_scheme"
  assumes init: "NetInitLoop NFS ((net_reset s)\<lparr>NetOurEther := bi_enetaddr s, NetState := NETLOOP_CONTINUE\<rparr>) = Some c"
    and conf: "nfs_configured e server p c"
    and arp: "received i [wire ta (arp_answer p c) pad]" "\<not> in_ctrlc i" "in_time i - now \<le> NFS_TIMEOUT"
      "wire_ok (arp_answer p c) pad"
  shows "\<exists>z. NetLoop True NFS now [i] s = Some (None, z) \<and> nfs_inv c e 0 z \<and>
    timeHandler z = Some Th_nfs \<and> NfsTimeoutCount z = 0"
proof -
  note cf = conf [unfolded nfs_configured_def]
  have kept: "NetState c = NETLOOP_CONTINUE" "load_addr c = load_addr s"
    using NetInitLoop_keeps [OF init] by (simp_all add: net_reset_def)
  obtain rest where st: "NfsStart now c = NfsSend now (nfs_asking now e server rest c)" by (rule NfsStart_asks [OF conf])
  define x where "x = nfs_asking now e server rest c"
  obtain prog proc data where asks: "nfs_asks e 0 = (prog, proc, data)" by (metis prod_cases3)
  have server: "server \<notin> {0, 0xFFFFFFFF}" and mac: "length (NetOurEther c) = 6" using cf by auto
  obtain req hdr where x1: "NfsSend now x =
      Some (x\<lparr>rpc_id := rpc_id x + 1, NetIPID := NetIPID x + 1, eth_sent := eth_sent x @ [req], NetArpWaitPacketIP := server,
        NetArpWaitReplyIP := arp_target c server, NetArpWaitPacketMAC := Ether_server,
        NetArpWaitTxPacket := NetSetEther c NetEtherNullAddr PROT_IP @ hdr @ rpc_call (rpc_id x + 1) prog proc data,
        NetArpWaitTry := 1, NetArpWaitTimerStart := now\<rparr>)" and hdr: "length hdr = 28"
    by (rule nfs_first_call [OF x_def server mac asks])
  define w where "w = x\<lparr>rpc_id := rpc_id x + 1, NetIPID := NetIPID x + 1, eth_sent := eth_sent x @ [req], NetArpWaitPacketIP := server,
        NetArpWaitReplyIP := arp_target c server, NetArpWaitPacketMAC := Ether_server,
        NetArpWaitTxPacket := NetSetEther c NetEtherNullAddr PROT_IP @ hdr @ rpc_call (rpc_id x + 1) prog proc data,
        NetArpWaitTry := 1, NetArpWaitTimerStart := now, NetBootFileXferSize := 0\<rparr>"
  have start: "net_restart NFS now (net_reset s) = Some (None, w)"
    using init cf by (simp add: net_restart_def net_start_def net_reset_def st x1 [unfolded x_def] w_def x_def)
  have wc: "NetOurEther w = NetOurEther c" "NetOurIP w = NetOurIP c" "NetOurVLAN w = NetOurVLAN c"
    by (simp_all add: w_def x_def nfs_asking_def)
  have ip: "NetOurIP c \<noteq> 0" using cf by (auto simp: net_check_prereq_def split: if_splits)
  define z where "z = w\<lparr>ram := overwrite (ram w) (NetRxPackets w) (stored (arp_answer p c) pad), NetServerEther := NetOurEther p,
      eth_sent := eth_sent w @ [NetOurEther p @ drop 6 (NetArpWaitTxPacket w)], NetArpWaitPacketIP := 0,
      NetArpWaitTxPacket := [], NetArpWaitPacketMAC := Ether_null\<rparr>"
  have rx: "eth_rx 1 [wire ta (arp_answer p c) pad] w = Some z"
    unfolding z_def using cf ip server arp(4) by (intro eth_rx_arp_answer wc) (auto simp: w_def)
  have calm: "run_timeout (in_time i) (ArpTimeoutCheck (in_time i) z) = Some z"
    using arp(3) by (intro calm_checks) (simp_all add: z_def w_def x_def nfs_asking_def)
  have cont: "NetState z = NETLOOP_CONTINUE" by (simp add: z_def w_def x_def nfs_asking_def kept)
  have "net_iteration NFS i w = Some (None, z)"
    using rx calm cont arp(2) by (simp add: net_iteration_def eth_rx_received [OF arp(1)])
  then have loop: "NetLoop True NFS now [i] s = Some (None, z)"
    using start by (simp add: NetLoop_def)
  have "nfs_linked c e z"
  proof -
    have "array_str (nfs_path_buff z) 0 = Some (exp_dir e)" "array_str (nfs_path_buff z) (nfs_filename z) = Some (exp_name e)"
      using cf by (auto intro!: array_str_at simp: z_def w_def x_def nfs_asking_def)
    then show ?thesis using cf kept(2) by (simp add: nfs_linked_def) (simp add: z_def w_def x_def nfs_asking_def)
  qed
  moreover have "nfs_vars e 0 z"
    by (simp add: nfs_vars_def nfs_expects_def loaded_def) (simp add: z_def w_def x_def nfs_asking_def)
  moreover have "nfs_pending e 0 z (rpc_id z)"
  proof -
    have h: "NetEthHdrSize z = NetEthHdrSize c" by (simp add: z_def w_def x_def nfs_asking_def NetEthHdrSize_def)
    have l: "length (NetSetEther c NetEtherNullAddr PROT_IP) = nat (NetEthHdrSize c)"
      using mac by (intro length_NetSetEther) (simp_all add: NetEtherNullAddr_def)
    have "nfs_call z = rpc_call (rpc_id x + 1) prog proc data"
      using l hdr NetEthHdrSize_cases [of c] cf
      by (auto simp: nfs_call_def h) (auto simp: z_def w_def)
    moreover have "rpc_id z = rpc_id x + 1" by (simp add: z_def w_def)
    ultimately show ?thesis using asks by (auto simp: nfs_pending_def)
  qed
  ultimately have "nfs_inv c e 0 z" using cont by (simp add: nfs_inv_def)
  then show ?thesis
    using loop kept by (intro exI [of _ z]) (simp add: z_def w_def x_def nfs_asking_def)
qed

section \<open>Silence\<close>

text \<open>Iterations of the loop without packets and without ctrl-C.\<close>

definition silent :: "net_input list \<Rightarrow> bool" where
  "silent is \<longleftrightarrow> list_all (\<lambda>i. (in_isr i AND 1 = 0 \<or> in_packets i = []) \<and> \<not> in_ctrlc i) is"

lemma no_timer_waits:
  assumes "NetArpWaitPacketIP x = 0" and "timeHandler x = None" and "NetState x = NETLOOP_CONTINUE"
  shows "silent is \<Longrightarrow> net_wait protocol is x = Some (None, x)"
proof (induction "is")
  case (Cons i "is")
  then have "net_iteration protocol i x = Some (None, x)"
    using assms by (auto simp: silent_def net_iteration_def eth_rx_def ArpTimeoutCheck_def run_timeout_def)
  then show ?case using Cons by (simp add: silent_def)
qed simp

lemma one_retry:
  assumes inv: "nfs_inv a e k x" and cont: "NetState x = NETLOOP_CONTINUE" and left: "NfsTimeoutCount x < NFS_RETRY_COUNT"
  shows "silent is \<Longrightarrow> \<exists>y. net_wait NFS is x = Some (None, y) \<and> (eth_sent y = eth_sent x \<or> (\<exists>frame. eth_sent y = eth_sent x @ [frame]))"
proof (induction "is")
  case (Cons i "is")
  have k: "k \<le> 5 + read_count e" using inv cont by (auto simp: nfs_inv_def split: if_splits)
  have link: "nfs_linked a e x" and vars: "nfs_vars e k x" using inv k by (simp_all add: nfs_inv_def)
  have arp: "NetArpWaitPacketIP x = 0" and th: "timeHandler x = None \<or> timeHandler x = Some Th_nfs"
    using link by (simp_all add: nfs_linked_def)
  have i: "eth_rx (in_isr i) (in_packets i) x = Some x" "\<not> in_ctrlc i" "silent is"
    using Cons.prems by (auto simp: silent_def eth_rx_def)
  show ?case
  proof (cases "timeHandler x = Some Th_nfs \<and> in_time i - timeStart x > timeDelta x")
    case True
    define u where "u = x\<lparr>timeHandler := None, NfsTimeoutCount := NfsTimeoutCount x + 1\<rparr>"
    have "nfs_linked a e u" "nfs_vars e k u"
      using link vars by (simp_all add: u_def) (simp_all add: nfs_linked_def nfs_vars_def)
    then obtain frame where send: "NfsSend (in_time i) u = Some (nfs_sent frame u)"
      using NfsSend_asks [OF _ _ k] by blast
    have "run_timeout (in_time i) x = Some (nfs_sent frame u)"
      using True left send by (simp add: run_timeout_def call_time_handler_def NfsTimeout_def Let_def u_def)
    moreover have "NetState (nfs_sent frame u) = NETLOOP_CONTINUE" by (simp add: nfs_sent_def u_def cont)
    ultimately have "net_iteration NFS i x = Some (None, nfs_sent frame u)"
      using i(1,2) arp by (simp add: net_iteration_def ArpTimeoutCheck_def)
    moreover have "net_wait NFS is (nfs_sent frame u) = Some (None, nfs_sent frame u)"
      by (rule no_timer_waits [OF _ _ _ i(3)]) (simp_all add: nfs_sent_def u_def cont arp)
    ultimately show ?thesis by (simp add: nfs_sent_def u_def)
  next
    case False
    then have "run_timeout (in_time i) x = Some x" using th by (auto simp: run_timeout_def)
    then have "net_iteration NFS i x = Some (None, x)"
      using i(1,2) arp cont by (simp add: net_iteration_def ArpTimeoutCheck_def)
    then show ?thesis using Cons.IH [OF i(3)] by simp
  qed
qed simp

lemma sample_nfs_configured: "nfs_configured sample_export 0xc0a80264 sample_server sample_nfs"
proof -
  have "b \<notin> area 0x2000000 1536 \<or> b \<notin> area 0x100000 3" for b
    by (simp add: area_nowrap)
  then have "area 0x2000000 1536 \<inter> area 0x100000 3 = {}" by blast
  then show ?thesis
    by (simp add: nfs_configured_def sample_nfs_def sample_export_def sample_defs net_check_prereq_def zero_mac nfs_source_def
        ascii_def arp_target_def sample_server_def sample_host_def same_vlan_def NetEtherNullAddr_def numeral_3_eq_3)
qed

lemma sample_nfs_frames: "wire_ok (arp_answer sample_server sample_nfs) (replicate 22 0)"
  by (simp add: wire_ok_def arp_answer_def NetSetEther_def sample_nfs_def sample_defs sample_server_def sample_host_def)

section \<open>Properties\<close>

text \<open>
  An NFS transfer: on a board configured for the network, once the hardware address is answered, in every run (answers
  of a server that exports the file, each to the last call and read from it alone, with packets for other ports and
  timeouts in between while retries are left) the client has after \<open>k\<close> answers the first \<open>(k - 4) * 1024\<close> bytes of the file in
  memory; as long as the transfer goes on the server can answer the pending call and the answer is accepted; and it ends,
  successfully and with the whole file in memory, with exactly the answer of number \<open>6\<close> plus the number of pieces.
\<close>

theorem nfs_transfer:
  fixes s :: "'a board_state_scheme"
  assumes init: "NetInitLoop NFS ((net_reset s)\<lparr>NetOurEther := bi_enetaddr s, NetState := NETLOOP_CONTINUE\<rparr>) = Some c"
    and conf: "nfs_configured e server p c"
    and arp: "received i [wire ta (arp_answer p c) pad]" "\<not> in_ctrlc i" "in_time i - now \<le> NFS_TIMEOUT"
      "wire_ok (arp_answer p c) pad"
  shows "\<exists>z. NetLoop True NFS now [i] s = Some (None, z) \<and>
    (\<forall>k x. nfs_run e z k x \<longrightarrow>
      k \<le> 6 + read_count e \<and> NetBootFileXferSize x = of_nat (loaded e k) \<and>
      load (ram x) (load_addr s) (loaded e k) = take (loaded e k) (exp_contents e) \<and>
      NetState x = (if k = 6 + read_count e then NETLOOP_SUCCESS else NETLOOP_CONTINUE) \<and>
      (k < 6 + read_count e \<longrightarrow>
        (\<exists>reply. nfs_serve e (nfs_call x) = Some reply \<and> length reply \<le> 1124 \<and>
          (\<forall>srv sport t q. server_ok (srv :: net_state) c \<and> wire_ok (udp_frame srv 1000 sport reply c) q \<longrightarrow>
            (\<exists>x'. eth_rx 1 [wire t (udp_frame srv 1000 sport reply c) q] x = Some x' \<and> nfs_run e z (k + 1) x')))))"
proof -
  obtain z where z: "NetLoop True NFS now [i] s = Some (None, z)" "nfs_inv c e 0 z"
    using nfs_connected [OF init conf arp] by blast
  have "k \<le> 6 + read_count e \<and> NetBootFileXferSize x = of_nat (loaded e k) \<and>
      load (ram x) (load_addr s) (loaded e k) = take (loaded e k) (exp_contents e) \<and>
      NetState x = (if k = 6 + read_count e then NETLOOP_SUCCESS else NETLOOP_CONTINUE) \<and>
      (k < 6 + read_count e \<longrightarrow>
        (\<exists>reply. nfs_serve e (nfs_call x) = Some reply \<and> length reply \<le> 1124 \<and>
          (\<forall>srv sport t q. server_ok (srv :: net_state) c \<and> wire_ok (udp_frame srv 1000 sport reply c) q \<longrightarrow>
            (\<exists>x'. eth_rx 1 [wire t (udp_frame srv 1000 sport reply c) q] x = Some x' \<and> nfs_run e z (k + 1) x'))))"
    if run: "nfs_run e z k x" for k x
  proof -
    have inv: "nfs_inv c e k x" by (rule nfs_run_inv [OF run z(2)])
    note facts = nfs_inv_facts [OF inv]
    have addr: "load_addr c = load_addr s" using NetInitLoop_keeps(2) [OF init] by (simp add: net_reset_def)
    have "\<exists>reply. nfs_serve e (nfs_call x) = Some reply \<and> length reply \<le> 1124 \<and>
          (\<forall>srv sport t q. server_ok (srv :: net_state) c \<and> wire_ok (udp_frame srv 1000 sport reply c) q \<longrightarrow>
            (\<exists>x'. eth_rx 1 [wire t (udp_frame srv 1000 sport reply c) q] x = Some x' \<and> nfs_run e z (k + 1) x'))"
      if k: "k < 6 + read_count e"
    proof -
      have cont: "NetState x = NETLOOP_CONTINUE" using facts(4) k by simp
      obtain reply where reply: "nfs_serve e (nfs_call x) = Some reply" "length reply \<le> 1124" using facts(5) [OF k] by blast
      have "\<exists>x'. eth_rx 1 [wire t (udp_frame srv 1000 sport reply c) q] x = Some x' \<and> nfs_run e z (k + 1) x'"
        if "server_ok (srv :: net_state) c" "wire_ok (udp_frame srv 1000 sport reply c) q" for srv sport t q
      proof -
        have same: "udp_frame srv 1000 sport reply x = udp_frame srv 1000 sport reply c"
          using inv by (simp add: udp_frame_def nfs_inv_def nfs_linked_def)
        have ok: "server_ok srv x" using that(1) inv by (simp add: server_ok_def same_vlan_def nfs_inv_def nfs_linked_def)
        show ?thesis
          using nfs_answer_step [OF inv cont ok reply(1), of sport q t] nfs_run.nfs_answer [OF run cont ok reply(1), of sport q t] that(2)
          unfolding same by blast
      qed
      with reply show ?thesis by blast
    qed
    with facts(1-4) addr show ?thesis by simp
  qed
  with z(1) show ?thesis by blast
qed

theorem nfs_transfer_witness:
  "\<exists>z x. NetLoop True NFS 0 [\<lparr>in_isr = 1, in_packets = [wire 3 (arp_answer sample_server sample_nfs) (replicate 22 0)], in_ctrlc = False, in_time = 4\<rparr>]
      (sample_tftp\<lparr>BootFile := ascii ''/d/f''\<rparr>) = Some (None, z) \<and>
    nfs_run sample_export z 7 x \<and> NetState x = NETLOOP_SUCCESS \<and> load (ram x) 0x100000 3 = [1, 2, 3]"
proof -
  let ?i = "\<lparr>in_isr = 1, in_packets = [wire 3 (arp_answer sample_server sample_nfs) (replicate 22 0)], in_ctrlc = False, in_time = 4\<rparr>"
  let ?s = "sample_tftp\<lparr>BootFile := ascii ''/d/f''\<rparr>"
  have n: "read_count sample_export = 1" by (simp add: read_count_def sample_export_def)
  have init: "NetInitLoop NFS ((net_reset ?s)\<lparr>NetOurEther := bi_enetaddr ?s, NetState := NETLOOP_CONTINUE\<rparr>) = Some sample_nfs"
    by (simp add: NetInitLoop_def sample_nfs_def sample_defs)
  have ok: "server_ok sample_server sample_nfs"
    by (simp add: server_ok_def sample_nfs_def sample_defs sample_server_def sample_host_def same_vlan_def)
  obtain z where z: "NetLoop True NFS 0 [?i] ?s = Some (None, z)"
    and all: "\<And>k x. nfs_run sample_export z k x \<Longrightarrow>
      k \<le> 6 + read_count sample_export \<and> NetBootFileXferSize x = of_nat (loaded sample_export k) \<and>
      load (ram x) (load_addr ?s) (loaded sample_export k) = take (loaded sample_export k) (exp_contents sample_export) \<and>
      NetState x = (if k = 6 + read_count sample_export then NETLOOP_SUCCESS else NETLOOP_CONTINUE) \<and>
      (k < 6 + read_count sample_export \<longrightarrow>
        (\<exists>reply. nfs_serve sample_export (nfs_call x) = Some reply \<and> length reply \<le> 1124 \<and>
          (\<forall>srv sport t q. server_ok (srv :: net_state) sample_nfs \<and> wire_ok (udp_frame srv 1000 sport reply sample_nfs) q \<longrightarrow>
            (\<exists>x'. eth_rx 1 [wire t (udp_frame srv 1000 sport reply sample_nfs) q] x = Some x' \<and> nfs_run sample_export z (k + 1) x'))))"
    using nfs_transfer [OF init sample_nfs_configured, of ?i 3 "replicate 22 0" 0] sample_nfs_frames
    by (auto simp: NFS_TIMEOUT_def received_def)
  have "k \<le> 7 \<Longrightarrow> \<exists>x. nfs_run sample_export z k x" for k
  proof (induction k)
    case 0
    show ?case using nfs_run.nfs_start by blast
  next
    case (Suc k)
    then obtain x where x: "nfs_run sample_export z k x" by auto
    have "k < 6 + read_count sample_export" using Suc.prems n by simp
    with all [OF x] obtain reply where len: "length reply \<le> 1124"
      and next_step: "\<And>srv sport t q. server_ok (srv :: net_state) sample_nfs \<Longrightarrow> wire_ok (udp_frame srv 1000 sport reply sample_nfs) q \<Longrightarrow>
        \<exists>x'. nfs_run sample_export z (k + 1) x'"
      by blast
    have mac: "length (NetOurEther sample_server) = 6" by (simp add: sample_server_def sample_host_def)
    have mac2: "length (NetOurEther sample_nfs) = 6" by (simp add: sample_nfs_def sample_defs)
    have "\<exists>q. wire_ok (udp_frame sample_server 1000 7 reply sample_nfs) q"
      by (rule exI [of _ "replicate (1536 - length (udp_frame sample_server 1000 7 reply sample_nfs)) 0"])
        (use len mac mac2 in \<open>simp add: wire_ok_def udp_frame_def NetSetEther_def\<close>)
    then show ?case unfolding Suc_eq_plus1 using ok next_step by blast
  qed
  then obtain x where x: "nfs_run sample_export z 7 x" by blast
  have "loaded sample_export 7 = 3" by (simp add: loaded_def sample_export_def)
  with all [OF x] n have "NetState x = NETLOOP_SUCCESS" "load (ram x) 0x100000 3 = [1, 2, 3]"
    by (simp_all add: sample_export_def sample_tftp_def)
  with z x show ?thesis by blast
qed

text \<open>
  A server that falls silent blocks the board: at every point of an NFS transfer at which retries are left, if nothing more is received and
  ctrl-C is not pressed, \<open>NetLoop\<close> sends at most one more packet and waits, however long it takes. The loop
  clears the timer before it calls \<open>NfsTimeout\<close>, which does not set it again, so that the limit of 30 retries is never
  reached.
\<close>

theorem nfs_silent_server:
  fixes s :: "'a board_state_scheme"
  assumes init: "NetInitLoop NFS ((net_reset s)\<lparr>NetOurEther := bi_enetaddr s, NetState := NETLOOP_CONTINUE\<rparr>) = Some c"
    and conf: "nfs_configured e server p c"
    and arp: "received i [wire ta (arp_answer p c) pad]" "\<not> in_ctrlc i" "in_time i - now \<le> NFS_TIMEOUT"
      "wire_ok (arp_answer p c) pad"
    and loop: "NetLoop True NFS now [i] s = Some (None, z)"
    and run: "nfs_run e z k x" "k < 6 + read_count e" "NfsTimeoutCount x < NFS_RETRY_COUNT" and silent: "silent is"
  shows "\<exists>y. net_wait NFS is x = Some (None, y) \<and> (eth_sent y = eth_sent x \<or> (\<exists>frame. eth_sent y = eth_sent x @ [frame]))"
proof -
  have "nfs_inv c e 0 z" using nfs_connected [OF init conf arp] loop by auto
  then have inv: "nfs_inv c e k x" by (rule nfs_run_inv [OF run(1)])
  then have "NetState x = NETLOOP_CONTINUE" using nfs_inv_facts(4) [OF inv] run(2) by simp
  from one_retry [OF inv this run(3) silent] show ?thesis .
qed

theorem nfs_silent_server_witness:
  "\<exists>z y. NetLoop True NFS 0 [\<lparr>in_isr = 1, in_packets = [wire 3 (arp_answer sample_server sample_nfs) (replicate 22 0)], in_ctrlc = False, in_time = 4\<rparr>]
      (sample_tftp\<lparr>BootFile := ascii ''/d/f''\<rparr>) = Some (None, z) \<and>
    net_wait NFS [\<lparr>in_isr = 0, in_packets = [], in_ctrlc = False, in_time = 2001\<rparr>, \<lparr>in_isr = 0, in_packets = [], in_ctrlc = False, in_time = 0xffffffff\<rparr>] z =
      Some (None, y) \<and> (eth_sent y = eth_sent z \<or> (\<exists>frame. eth_sent y = eth_sent z @ [frame]))"
proof -
  let ?i = "\<lparr>in_isr = 1, in_packets = [wire 3 (arp_answer sample_server sample_nfs) (replicate 22 0)], in_ctrlc = False, in_time = 4\<rparr>"
  let ?s = "sample_tftp\<lparr>BootFile := ascii ''/d/f''\<rparr>"
  have init: "NetInitLoop NFS ((net_reset ?s)\<lparr>NetOurEther := bi_enetaddr ?s, NetState := NETLOOP_CONTINUE\<rparr>) = Some sample_nfs"
    by (simp add: NetInitLoop_def sample_nfs_def sample_defs)
  have arp: "received ?i [wire 3 (arp_answer sample_server sample_nfs) (replicate 22 0)]" "\<not> in_ctrlc ?i"
      "in_time ?i - 0 \<le> NFS_TIMEOUT" "wire_ok (arp_answer sample_server sample_nfs) (replicate 22 0)"
    using sample_nfs_frames by (simp_all add: NFS_TIMEOUT_def received_def)
  obtain z where z: "NetLoop True NFS 0 [?i] ?s = Some (None, z)" "NfsTimeoutCount z = 0"
    using nfs_connected [OF init sample_nfs_configured arp] by blast
  from nfs_silent_server [OF init sample_nfs_configured arp z(1) nfs_run.nfs_start, of
      "[\<lparr>in_isr = 0, in_packets = [], in_ctrlc = False, in_time = 2001\<rparr>, \<lparr>in_isr = 0, in_packets = [], in_ctrlc = False, in_time = 0xffffffff\<rparr>]"] z
  show ?thesis by (auto simp: silent_def NFS_RETRY_COUNT_def simp del: net_wait.simps)
qed

text \<open>
  A relative symbolic link with a target shorter than its own name leads to a wrong file: \<open>nfs_readlink_reply\<close> ends the new
  path one byte too late, and one character of the old name, which was left in the array, stays behind the
  target. A target as long as the name is followed correctly.
\<close>

theorem nfs_link_target:
  assumes path: "0 \<notin> set dir" "0 \<notin> set name" "buf = dir @ 0 # name @ 0 # rest" "rest \<noteq> []"
    and target: "target \<noteq> []" "0 \<notin> set target" "hd target \<noteq> 0x2f" "length target \<le> length name"
  shows "\<exists>buf'. nfs_follow (hd target) target buf = Some buf' \<and>
    array_str buf' 0 = Some (dir @ 0x2f # target @
      (if length target < length name then [name ! length target] else []))"
proof -
  obtain c cs where t: "target = c # cs" using target(1) by (cases target) auto
  obtain n ns where n: "name = n # ns" using target(4) t by (cases name) auto
  define tail where "tail = drop (length target) (name @ 0 # rest)"
  have "array_str buf 0 = Some dir" using path by (intro array_str_at) simp_all
  moreover have "array_put buf (length dir) [0x2f, 0] = Some (dir @ 0x2f # 0 # ns @ 0 # rest)"
    by (simp add: array_put_def path(3) n)
  moreover have "array_put (dir @ 0x2f # 0 # ns @ 0 # rest) (length dir + 1) target = Some (dir @ 0x2f # target @ tail)"
    using target(4) by (simp add: array_put_def t n tail_def)
  moreover obtain b bs where tail: "tail = (if length target < length name then name ! length target else 0) # b # bs"
  proof -
    have "tail = drop (length target) name @ 0 # rest" using target(4) by (simp add: tail_def)
    moreover obtain q qs where "rest = q # qs" using path(4) by (cases rest) auto
    ultimately obtain x ys where ys: "tail = x # ys" "ys \<noteq> []"
        "x = (if length target < length name then name ! length target else 0)"
      using target(4) by (cases "length target < length name") (simp_all add: Cons_nth_drop_Suc [symmetric])
    then show thesis using that by (cases ys) simp_all
  qed
  moreover have "array_put (dir @ 0x2f # target @ tail) (length dir + 1 + length target + 1) [0] =
      Some (dir @ 0x2f # target @ hd tail # 0 # bs)"
    by (simp add: array_put_def tail numeral_3_eq_3)
  ultimately have "nfs_follow (hd target) target buf = Some (dir @ 0x2f # target @ hd tail # 0 # bs)"
    using target(3) by (simp add: nfs_follow_def)
  moreover have "array_str (dir @ 0x2f # target @ hd tail # 0 # bs) 0 = Some (dir @ 0x2f # target @
      (if length target < length name then [name ! length target] else []))"
  proof (cases "length target < length name")
    case True
    then have "name ! length target \<noteq> 0" using path(2) by (metis nth_mem)
    then show ?thesis using path target True
      by (intro array_str_at [where ys = bs]) (auto simp: tail)
  next
    case False
    then show ?thesis using path target
      by (intro array_str_at [where ys = "0 # bs"]) (auto simp: tail)
  qed
  ultimately show ?thesis by blast
qed

theorem nfs_link_target_witness:
  "\<exists>buf'. nfs_follow 0x6b (ascii ''k2'') (ascii ''/boot'' @ 0 # ascii ''kernel'' @ 0 # [0, 0]) = Some buf' \<and>
    array_str buf' 0 = Some (ascii ''/boot/k2r'')"
  using nfs_link_target [of "ascii ''/boot''" "ascii ''kernel''" _ "[0, 0]" "ascii ''k2''"] by (simp add: ascii_def)

end
