(* ===== verification/Dhcp.thy ===== *)
theory Dhcp
  imports Tftp_Transfer
begin

text \<open>
  What the DHCP client does with the messages of a server. Options are specified as a list of codes and values, their
  encoding and their effect; the client's scanning of a message refines this list. The main theorem follows
  \<open>NetLoop\<close> through the four messages of an exchange. The last part is about messages the client misreads.
\<close>

section \<open>Specification\<close>

type_synonym dhcp_opt = "u8 \<times> u8 list"

text \<open>An option is a code, the length of the value and the value; 255 ends the list.\<close>

definition encode_opt :: "dhcp_opt \<Rightarrow> u8 list" where
  "encode_opt opt = fst opt # of_nat (length (snd opt)) # snd opt"

definition encode_opts :: "dhcp_opt list \<Rightarrow> u8 list" where
  "encode_opts opts = concat (map encode_opt opts) @ [255]"

text \<open>The address in the first four bytes of a value.\<close>

definition opt_ip :: "u8 list \<Rightarrow> u32" where
  "opt_ip v = be32 (v ! 0) (v ! 1) (v ! 2) (v ! 3)"

text \<open>Options whose value is an address or a number.\<close>

definition word_opt :: "u8 \<Rightarrow> bool" where
  "word_opt c \<longleftrightarrow> c \<in> {1, 3, 6, 51, 54}"

definition opt_ok :: "dhcp_opt \<Rightarrow> bool" where
  "opt_ok opt \<longleftrightarrow> fst opt \<noteq> 255 \<and> fst opt \<noteq> 67 \<and> length (snd opt) < 256 \<and> (word_opt (fst opt) \<longrightarrow> 4 \<le> length (snd opt))"

text \<open>What an option sets; strings are cut to the size of the variable.\<close>

definition opt_effect :: "dhcp_opt \<Rightarrow> 'a bootp_state_scheme \<Rightarrow> 'a bootp_state_scheme" where
  "opt_effect opt s =
     (case opt of (c, v) \<Rightarrow>
        if c = 1 then s\<lparr>NetOurSubnetMask := opt_ip v\<rparr>
        else if c = 3 then s\<lparr>NetOurGatewayIP := opt_ip v\<rparr>
        else if c = 6 then s\<lparr>NetOurDNSIP := opt_ip v\<rparr>
        else if c = 12 then s\<lparr>NetOurHostName := takeWhile (\<lambda>b. b \<noteq> 0) (take 31 v)\<rparr>
        else if c = 17 then s\<lparr>NetOurRootPath := takeWhile (\<lambda>b. b \<noteq> 0) (take 63 v)\<rparr>
        else if c = 51 then s\<lparr>dhcp_leasetime := opt_ip v\<rparr>
        else if c = 54 then s\<lparr>NetDHCPServerIP := opt_ip v\<rparr>
        else s)"

text \<open>A message of a server.\<close>

record dhcp_message =
  msg_id :: u32
  msg_yiaddr :: u32
  msg_siaddr :: u32
  msg_chaddr :: "u8 list"
  msg_sname :: "u8 list"
  msg_file :: "u8 list"
  msg_opts :: "dhcp_opt list"

definition encode_msg :: "dhcp_message \<Rightarrow> u8 list" where
  "encode_msg d =
     [2, 1, 6, 0] @ bytes_be32 (msg_id d) @ bytes_be32 0 @ bytes_be32 0 @ bytes_be32 (msg_yiaddr d) @
     bytes_be32 (msg_siaddr d) @ bytes_be32 0 @ msg_chaddr d @ msg_sname d @ msg_file d @
     bytes_be32 BOOTP_VENDOR_MAGIC @ encode_opts (msg_opts d)"

text \<open>A well-formed message: the sizes of its fields, its options, and its type, which only one option gives.\<close>

definition msg_ok :: "u8 \<Rightarrow> dhcp_message \<Rightarrow> bool" where
  "msg_ok type d \<longleftrightarrow>
     length (msg_chaddr d) = 16 \<and> length (msg_sname d) = 64 \<and> length (msg_file d) = 128 \<and>
     list_all opt_ok (msg_opts d) \<and> length (encode_opts (msg_opts d)) \<le> BOOTP_HDR_SIZE \<and>
     (\<exists>front back. msg_opts d = front @ (53, [type]) # back \<and> 53 \<notin> fst ` set front)"

section \<open>Options\<close>

lemma length_encode_opt [simp]: "length (encode_opt opt) = length (snd opt) + 2"
  by (simp add: encode_opt_def)

lemma load_at:
  assumes "load m p n = xs" and "k + l \<le> n"
  shows "load m (p + of_nat k) l = take l (drop k xs)"
  using load_part [OF assms(2), of m p] assms(1) by simp

lemma NetReadIP_load: "load m p 4 = bytes_be32 w \<Longrightarrow> NetReadIP m p = w"
proof -
  assume a: "load m p 4 = bytes_be32 w"
  have "m p = bytes_be32 w ! 0" "m (p + 1) = bytes_be32 w ! 1" "m (p + 2) = bytes_be32 w ! 2" "m (p + 3) = bytes_be32 w ! 3"
    using load_nth_eq [OF a, of 0] load_nth_eq [OF a, of 1] load_nth_eq [OF a, of 2] load_nth_eq [OF a, of 3] by simp_all
  then show ?thesis by (simp add: NetReadIP_def bytes_be32_def)
qed

lemma NetReadIP_opt:
  assumes "load m p (length v) = v" and "4 \<le> length v"
  shows "NetReadIP m p = opt_ip v"
proof -
  have "v \<noteq> []" using assms(2) by auto
  then show ?thesis
  using load_nth_eq [OF assms(1), of 0] load_nth_eq [OF assms(1), of 1] load_nth_eq [OF assms(1), of 2]
    load_nth_eq [OF assms(1), of 3] assms(2)
  by (simp add: NetReadIP_def opt_ip_def)
qed

lemma opt_string_load:
  "load m p (length v) = v \<Longrightarrow> 0 < maxlen \<Longrightarrow> opt_string m p maxlen (length v) = takeWhile (\<lambda>b. b \<noteq> 0) (take (maxlen - 1) v)"
  using load_take [of m p "length v" v "maxlen - 1"]
  by (auto simp: opt_string_def truncate_sz_def)

lemma dhcp_option_effect:
  assumes at: "load (ram s) p (length (encode_opt opt)) = encode_opt opt" and ok: "opt_ok opt"
  shows "dhcp_option p bp s = opt_effect opt s" "ram (opt_effect opt s) = ram s"
    "ram s p = fst opt" "unat (ram s (p + 1)) = length (snd opt)"
proof -
  obtain c v where opt: "opt = (c, v)" by (cases opt)
  have split: "encode_opt opt = [c, of_nat (length v)] @ v" by (simp add: opt encode_opt_def)
  have two: "load (ram s) p 2 = [c, of_nat (length v)]" and v: "load (ram s) (p + 2) (length v) = v"
    using load_prefix [OF at [unfolded split]] by (simp_all add: numeral_2_eq_2)
  have b: "ram s p = c" "ram s (p + 1) = of_nat (length v)"
    using load_nth_eq [OF two, of 0] load_nth_eq [OF two, of 1] by simp_all
  have len: "unat (of_nat (length v) :: u8) = length v"
    using ok by (simp add: opt opt_ok_def unat_of_nat)
  show "ram s p = fst opt" "unat (ram s (p + 1)) = length (snd opt)" using b len by (simp_all add: opt)
  show "ram (opt_effect opt s) = ram s" by (simp add: opt opt_effect_def)
  have "word_opt c \<Longrightarrow> NetReadIP (ram s) (p + 2) = opt_ip v"
    using NetReadIP_opt [OF v] ok by (simp add: opt opt_ok_def)
  then show "dhcp_option p bp s = opt_effect opt s"
    using ok opt_string_load [OF v, of 32] opt_string_load [OF v, of 64] unfolding dhcp_option_def Let_def b len
    by (simp add: opt opt_effect_def word_opt_def opt_ok_def)
qed

lemma encode_opts_Cons: "encode_opts (opt # opts) = encode_opt opt @ encode_opts opts"
  by (simp add: encode_opts_def)

lemma dhcp_options_fold:
  assumes "load (ram s) (popt + of_nat i) (length (encode_opts opts)) = encode_opts opts" and "list_all opt_ok opts"
    and "i + length (encode_opts opts) \<le> BOOTP_HDR_SIZE"
  shows "dhcp_options popt bp i s = fold opt_effect opts s \<and> ram (fold opt_effect opts s) = ram s"
  using assms
proof (induction opts arbitrary: i s)
  case Nil
  then have "ram s (popt + of_nat i) = 255" by (simp add: encode_opts_def load_Suc)
  then show ?case by (simp add: dhcp_options.simps)
next
  case (Cons opt opts)
  have bytes: "load (ram s) (popt + of_nat i) (length (encode_opt opt @ encode_opts opts)) = encode_opt opt @ encode_opts opts"
    using Cons.prems(1) by (simp only: encode_opts_Cons)
  note here = load_prefix [OF bytes]
  have ok: "opt_ok opt" "list_all opt_ok opts" using Cons.prems(2) by simp_all
  note e = dhcp_option_effect [OF here(1) ok(1)]
  have i: "i < BOOTP_HDR_SIZE" using Cons.prems(3) by (simp add: encode_opts_Cons)
  have code: "ram s (popt + of_nat i) \<noteq> 255" using e(3) ok(1) by (simp add: opt_ok_def)
  have step: "dhcp_options popt bp i s = dhcp_options popt bp (i + length (snd opt) + 2) (opt_effect opt s)"
    using i code e(1) [of bp] e(4) by (subst dhcp_options.simps) simp
  have "load (ram (opt_effect opt s)) (popt + of_nat (i + length (snd opt) + 2)) (length (encode_opts opts)) = encode_opts opts"
    using here(2) by (simp add: e(2) ac_simps)
  moreover have "i + length (snd opt) + 2 + length (encode_opts opts) \<le> BOOTP_HDR_SIZE"
    using Cons.prems(3) by (simp add: encode_opts_Cons)
  ultimately have "dhcp_options popt bp (i + length (snd opt) + 2) (opt_effect opt s) = fold opt_effect opts (opt_effect opt s) \<and>
      ram (fold opt_effect opts (opt_effect opt s)) = ram (opt_effect opt s)"
    using Cons.IH [OF _ ok(2)] by blast
  then show ?case unfolding step by (simp add: e(2))
qed

lemma dhcp_type_found:
  assumes "load m popt (length (encode_opts opts)) = encode_opts opts" and "list_all opt_ok opts"
    and "opts = front @ (53, [type]) # back" and "53 \<notin> fst ` set front"
  shows "dhcp_type_loop m popt = Some (uint type)"
  using assms
proof (induction front arbitrary: opts popt)
  case Nil
  then have "m popt = 53" "m (popt + 2) = type"
    using load_nth_eq [OF Nil(1), of 0] load_nth_eq [OF Nil(1), of 2]
    by (simp_all add: encode_opts_def encode_opt_def)
  then show ?case by (simp add: dhcp_type_loop.simps)
next
  case (Cons opt front)
  define tail where "tail = front @ (53, [type]) # back"
  have opts: "opts = opt # tail" using Cons.prems(3) by (simp add: tail_def)
  have bytes: "load m popt (length (encode_opt opt @ encode_opts tail)) = encode_opt opt @ encode_opts tail"
    using Cons.prems(1) by (simp only: opts encode_opts_Cons)
  note here = load_prefix [OF bytes]
  have ok: "opt_ok opt" "list_all opt_ok tail" using Cons.prems(2) by (simp_all add: opts)
  have b: "m popt = fst opt" "m (popt + 1) = of_nat (length (snd opt))"
    using load_nth_eq [OF here(1), of 0] load_nth_eq [OF here(1), of 1] by (simp_all add: encode_opt_def)
  have "m popt \<noteq> 255" "m popt \<noteq> 53" using ok(1) Cons.prems(4) b(1) by (auto simp: opt_ok_def)
  moreover have "(ucast (of_nat (length (snd opt)) :: u8) :: u32) = of_nat (length (snd opt))"
    using ok(1) by (simp add: opt_ok_def word_unat_eq_iff unsigned_ucast_eq unat_of_nat take_bit_eq_mod)
  ultimately have "dhcp_type_loop m popt = dhcp_type_loop m (popt + of_nat (length (encode_opt opt)))"
    by (subst dhcp_type_loop.simps) (simp add: b(2) add.assoc, simp add: ac_simps)
  then show ?case
    using Cons.IH [OF here(2) ok(2) tail_def] Cons.prems(4) by simp
qed

text \<open>What the options do not change.\<close>

definition same_dialogue :: "'a bootp_state_scheme \<Rightarrow> 'a bootp_state_scheme \<Rightarrow> bool" where
  "same_dialogue s s' \<longleftrightarrow>
     ram s' = ram s \<and> NetOurEther s' = NetOurEther s \<and> NetOurIP s' = NetOurIP s \<and> NetServerIP s' = NetServerIP s \<and>
     NetOurVLAN s' = NetOurVLAN s \<and> NetIPID s' = NetIPID s \<and> NetState s' = NetState s \<and>
     NetArpWaitPacketIP s' = NetArpWaitPacketIP s \<and> timeHandler s' = timeHandler s \<and> timeStart s' = timeStart s \<and>
     timeDelta s' = timeDelta s \<and> packetHandler s' = packetHandler s \<and> NetBootFileXferSize s' = NetBootFileXferSize s \<and>
     env_vars s' = env_vars s \<and> eth_sent s' = eth_sent s \<and> BootpID s' = BootpID s \<and> dhcp_state s' = dhcp_state s \<and>
     BootFile s' = BootFile s \<and> bootp_state.more s' = bootp_state.more s"

lemma opt_effect_same: "same_dialogue s (opt_effect opt s)"
  by (cases opt) (simp add: same_dialogue_def opt_effect_def)

lemma opt_effects_same: "same_dialogue s (fold opt_effect opts s)"
proof (induction opts arbitrary: s)
  case (Cons opt opts)
  from Cons [of "opt_effect opt s"] opt_effect_same [of s opt] show ?case by (simp add: same_dialogue_def)
qed (simp add: same_dialogue_def)

text \<open>The last value given for a code.\<close>

definition opt_value :: "u8 \<Rightarrow> dhcp_opt list \<Rightarrow> u8 list option" where
  "opt_value c opts =
     (let given = filter (\<lambda>opt. fst opt = c) opts in if given = [] then None else Some (snd (last given)))"

definition opt_or :: "('b \<Rightarrow> 'c) \<Rightarrow> 'c \<Rightarrow> 'b option \<Rightarrow> 'c" where
  "opt_or f d v = (case v of None \<Rightarrow> d | Some x \<Rightarrow> f x)"

lemma opt_value_simps [simp]:
  "opt_value c [] = None" "opt_value c (opts @ [(d, v)]) = (if d = c then Some v else opt_value c opts)"
  by (simp_all add: opt_value_def Let_def)

text \<open>The parameters that the options \<open>opts\<close> set, in a state that was \<open>s\<close> before.\<close>

definition leased :: "dhcp_opt list \<Rightarrow> 'b bootp_state_scheme \<Rightarrow> 'a bootp_state_scheme \<Rightarrow> bool" where
  "leased opts s s' \<longleftrightarrow>
     NetOurSubnetMask s' = opt_or opt_ip (NetOurSubnetMask s) (opt_value 1 opts) \<and>
     NetOurGatewayIP s' = opt_or opt_ip (NetOurGatewayIP s) (opt_value 3 opts) \<and>
     NetOurDNSIP s' = opt_or opt_ip (NetOurDNSIP s) (opt_value 6 opts) \<and>
     NetOurHostName s' = opt_or (\<lambda>v. takeWhile (\<lambda>b. b \<noteq> 0) (take 31 v)) (NetOurHostName s) (opt_value 12 opts) \<and>
     NetOurRootPath s' = opt_or (\<lambda>v. takeWhile (\<lambda>b. b \<noteq> 0) (take 63 v)) (NetOurRootPath s) (opt_value 17 opts) \<and>
     dhcp_leasetime s' = opt_or opt_ip (dhcp_leasetime s) (opt_value 51 opts) \<and>
     NetDHCPServerIP s' = opt_or opt_ip (NetDHCPServerIP s) (opt_value 54 opts)"

lemma leased_fold: "leased opts s (fold opt_effect opts s)"
proof (induction opts rule: rev_induct)
  case Nil
  show ?case by (simp add: leased_def opt_or_def)
next
  case (snoc opt opts)
  obtain c v where opt: "opt = (c, v)" by (cases opt)
  from snoc show ?case by (simp add: leased_def opt_or_def opt_effect_def opt)
qed

section \<open>Messages\<close>

lemma length_encode_msg: "msg_ok type d \<Longrightarrow> length (encode_msg d) = 240 + length (encode_opts (msg_opts d))"
  by (simp add: encode_msg_def msg_ok_def)

lemma msg_fields:
  assumes at: "load m bp (length (encode_msg d)) = encode_msg d" and ok: "msg_ok type d"
  shows "m bp = 2" "m (bp + 1) = 1" "m (bp + 2) = 6" "NetReadIP m (bp + bp_id) = msg_id d"
    "NetReadIP m (bp + bp_yiaddr) = msg_yiaddr d" "NetReadIP m (bp + bp_siaddr) = msg_siaddr d"
    "load m (bp + bp_file) 128 = msg_file d" "NetReadIP m (bp + bp_vend) = BOOTP_VENDOR_MAGIC"
    "load m (bp + bp_vend + 4) (length (encode_opts (msg_opts d))) = encode_opts (msg_opts d)"
proof -
  have len: "length (encode_msg d) = 240 + length (encode_opts (msg_opts d))" by (rule length_encode_msg [OF ok])
  have l: "length (msg_chaddr d) = 16" "length (msg_sname d) = 64" "length (msg_file d) = 128"
    using ok by (simp_all add: msg_ok_def)
  show "m bp = 2" "m (bp + 1) = 1" "m (bp + 2) = 6"
    using load_nth_eq [OF at, of 0] load_nth_eq [OF at, of 1] load_nth_eq [OF at, of 2] len by (simp_all add: encode_msg_def)
  have part: "load m (bp + of_nat k) n = take n (drop k (encode_msg d))" if "k + n \<le> 240" for k n
    using load_at [OF at, of k n] that len by simp
  show "NetReadIP m (bp + bp_id) = msg_id d"
    using part [of 4 4] by (intro NetReadIP_load) (simp add: bp_id_def encode_msg_def l)
  show "NetReadIP m (bp + bp_yiaddr) = msg_yiaddr d"
    using part [of 16 4] by (intro NetReadIP_load) (simp add: bp_yiaddr_def encode_msg_def l)
  show "NetReadIP m (bp + bp_siaddr) = msg_siaddr d"
    using part [of 20 4] by (intro NetReadIP_load) (simp add: bp_siaddr_def encode_msg_def l)
  show "load m (bp + bp_file) 128 = msg_file d"
    using part [of 108 128] by (simp add: bp_file_def encode_msg_def l)
  show "NetReadIP m (bp + bp_vend) = BOOTP_VENDOR_MAGIC"
    using part [of 236 4] by (intro NetReadIP_load) (simp add: bp_vend_def encode_msg_def l)
  have "load m (bp + of_nat 240) (length (encode_opts (msg_opts d))) =
      take (length (encode_opts (msg_opts d))) (drop 240 (encode_msg d))"
    using load_at [OF at, of 240 "length (encode_opts (msg_opts d))"] len by simp
  moreover have "drop 240 (encode_msg d) = encode_opts (msg_opts d)"
    by (simp add: encode_msg_def l)
  moreover have "bp + bp_vend + 4 = bp + of_nat 240" by (simp add: bp_vend_def)
  ultimately show "load m (bp + bp_vend + 4) (length (encode_opts (msg_opts d))) = encode_opts (msg_opts d)"
    by (simp only: take_all order_refl)
qed

lemma msg_accepted:
  assumes at: "load (ram s) bp (length (encode_msg d)) = encode_msg d" and ok: "msg_ok type d" and ident: "BootpID s = msg_id d"
  shows "BootpCheckPkt bp 68 67 (of_nat (length (encode_msg d))) s = 0"
proof -
  have "length (encode_msg d) \<le> 240 + BOOTP_HDR_SIZE" "236 \<le> length (encode_msg d)"
    using length_encode_msg [OF ok] ok by (simp_all add: msg_ok_def)
  then have "\<not> (of_nat (length (encode_msg d)) :: u32) < of_nat (BOOTP_HDR_SIZE - OPT_SIZE)"
    by (simp add: word_less_nat_alt unat_of_nat BOOTP_HDR_SIZE_def OPT_SIZE_def)
  moreover have "(ucast PORT_BOOTPC :: u32) = 68" "(ucast PORT_BOOTPS :: u32) = 67"
    by (simp_all add: PORT_BOOTPC_def PORT_BOOTPS_def)
  ultimately show ?thesis
    using msg_fields [OF at ok] ident by (simp add: BootpCheckPkt_def)
qed

lemma DhcpOptionsProcess_msg:
  assumes "load (ram s) bp (length (encode_msg d)) = encode_msg d" and "msg_ok type d"
  shows "DhcpOptionsProcess (bp + bp_vend + 4) bp s = fold opt_effect (msg_opts d) s"
    "ram (fold opt_effect (msg_opts d) s) = ram s"
  using dhcp_options_fold [of s "bp + bp_vend + 4" 0 "msg_opts d" bp] msg_fields(9) [OF assms] assms(2)
  by (simp_all add: DhcpOptionsProcess_def msg_ok_def)

lemma DhcpMessageType_msg:
  assumes at: "load m bp (length (encode_msg d)) = encode_msg d" and ok: "msg_ok type d"
  shows "DhcpMessageType m (bp + bp_vend) = Some (uint type)"
proof -
  obtain front tail where f: "msg_opts d = front @ (53, [type]) # tail" "53 \<notin> fst ` set front" "list_all opt_ok (msg_opts d)"
    using ok by (auto simp: msg_ok_def)
  from dhcp_type_found [OF msg_fields(9) [OF at ok] f(3,1,2)] msg_fields(8) [OF at ok] show ?thesis
    by (simp add: DhcpMessageType_def)
qed

text \<open>The frame of a message; without an address of its own the board takes any destination.\<close>

definition dhcp_frame :: "'b net_state_scheme \<Rightarrow> u8 list \<Rightarrow> u32 \<Rightarrow> dhcp_message \<Rightarrow> u8 list" where
  "dhcp_frame srv mac dest d =
     NetSetEther srv mac PROT_IP @ fst (NetSetIP srv dest PORT_BOOTPC PORT_BOOTPS (length (encode_msg d))) @ encode_msg d"

text \<open>A server that can reach the board.\<close>

definition dhcp_server :: "'b net_state_scheme \<Rightarrow> u8 list \<Rightarrow> 'a net_state_scheme \<Rightarrow> bool" where
  "dhcp_server srv mac s \<longleftrightarrow> length mac = 6 \<and> length (NetOurEther srv) = 6 \<and> same_vlan s srv"

lemma eth_rx_dhcp:
  fixes s :: "'a board_state_scheme"
  assumes srv: "dhcp_server srv mac s" and wire: "wire_ok (dhcp_frame srv mac dest d) pad" and ok: "msg_ok type d" and s: "NetOurIP s = 0" "packetHandler s = Rx_dhcp"
    and t: "t = s\<lparr>ram := overwrite (ram s) (NetRxPackets s) (stored (dhcp_frame srv mac dest d) pad)\<rparr>"
  obtains bp where "eth_rx 1 [wire now (dhcp_frame srv mac dest d) pad] s =
      DhcpHandler now (NetRxPackets s) bp 68 67 (of_nat (length (encode_msg d))) t"
    and "load (ram t) bp (length (encode_msg d)) = encode_msg d"
    and "load (ram t) (NetRxPackets s + 6) 6 = NetOurEther srv"
proof -
  let ?f = "dhcp_frame srv mac dest d" and ?data = "encode_msg d"
  define bp where "bp = NetRxPackets s + word_of_int (NetEthHdrSize srv) + 28"
  have sz: "length ?data \<le> 1000" using length_encode_msg [OF ok] ok by (simp add: msg_ok_def BOOTP_HDR_SIZE_def OPT_SIZE_def)
  have macs: "length mac = 6" "length (NetOurEther srv) = 6" and vlan: "same_vlan t srv"
    using srv by (simp_all add: dhcp_server_def t same_vlan_def)
  have l: "length ?f = nat (NetEthHdrSize srv) + 28 + length ?data"
    using length_NetSetEther [OF macs, of PROT_IP] by (simp add: dhcp_frame_def)
  have fl: "length ?f \<le> 1046" "12 \<le> length ?f" using l sz NetEthHdrSize_cases [of srv] by auto
  have f: "load (ram t) (NetRxPackets s) (length ?f) = ?f"
    using load_stored [OF wire] by (simp add: t)
  have "28 + length ?data < 65536" "int (length ?f) \<le> int (length (?f @ pad))" "int (length (?f @ pad)) < 2 ^ 31" "NetOurIP t = 0 \<or> dest = NetOurIP t \<or> dest = 0xFFFFFFFF"
    using sz fl s wire by (simp_all add: t wire_ok_def)
  note r = NetReceive_udp [OF f dhcp_frame_def macs vlan this]
  have "eth_rx 1 [wire now ?f pad] s = DhcpHandler now (NetRxPackets s) bp 68 67 (of_nat (length ?data)) t"
    using r(1) [of "net_handler now"] s(2) unfolding eth_rx_wire [OF wire] t [symmetric] bp_def
    by (simp add: net_handler_def t PORT_BOOTPC_def PORT_BOOTPS_def)
  moreover have "load (ram t) bp (length ?data) = ?data" using r(2) by (simp add: bp_def)
  moreover have "load (ram t) (NetRxPackets s + of_nat 6) 6 = take 6 (drop 6 ?f)"
    by (rule load_at [OF f]) (use fl in simp)
  moreover have "take 6 (drop 6 ?f) = NetOurEther srv"
    using macs by (simp add: dhcp_frame_def NetSetEther_def)
  ultimately show thesis using that by simp
qed

lemma bootp_send_eq:
  assumes "NetEthHdrSize s = 14" and "length (NetOurEther s) = 6"
  obtains frame where "bootp_send bp s = s\<lparr>NetIPID := NetIPID s + 1, eth_sent := eth_sent s @ [frame]\<rparr>"
    and "drop 42 frame = bp"
proof -
  define hdr where "hdr = fst (NetSetIP s 0xFFFFFFFF PORT_BOOTPS PORT_BOOTPC (length bp))"
  define ether where "ether = NetSetEther s NetBcastAddr PROT_IP"
  have l: "length ether = 14" "length hdr = 28"
    using length_NetSetEther [of NetBcastAddr s PROT_IP] assms by (simp_all add: ether_def hdr_def NetBcastAddr_def)
  have "take (nat ETHER_HDR_SIZE + IP_HDR_SIZE + length bp) (ether @ hdr @ bp) = ether @ hdr @ bp"
    using l by (simp add: ETHER_HDR_SIZE_def IP_HDR_SIZE_def)
  then have "bootp_send bp s = s\<lparr>NetIPID := NetIPID s + 1, eth_sent := eth_sent s @ [ether @ hdr @ bp]\<rparr>"
    unfolding bootp_send_def Let_def ether_def [symmetric]
    by (simp add: split_beta hdr_def [symmetric] NetSetIP_state eth_send_def)
  moreover have "drop 42 (ether @ hdr @ bp) = bp" using l by simp
  ultimately show thesis by (rule that)
qed

text \<open>An offer is answered with a request for the address offered.\<close>

lemma offer_answered:
  fixes s :: "'a board_state_scheme"
  assumes srv: "dhcp_server srv mac s" and wire: "wire_ok (dhcp_frame srv mac dest d) pad" and ok: "msg_ok type d" and s: "NetOurIP s = 0" "packetHandler s = Rx_dhcp"
      "dhcp_state s = SELECTING" "BootpID s = msg_id d" "NetEthHdrSize s = 14" "length (NetOurEther s) = 6"
  shows "\<exists>s' frame. eth_rx 1 [wire now (dhcp_frame srv mac dest d) pad] s = Some s' \<and> dhcp_state s' = REQUESTING \<and>
    leased (msg_opts d) s s' \<and> eth_sent s' = eth_sent s @ [frame] \<and>
    drop 42 frame = bootp_header now (msg_id d) (NetOurEther s) [] @ DhcpExtended DHCP_REQUEST (NetDHCPServerIP s') (msg_yiaddr d) \<and>
    timeHandler s' = Some Th_bootp \<and> timeStart s' = now \<and> timeDelta s' = BOOTP_TIMEOUT \<and>
    NetOurIP s' = 0 \<and> NetServerIP s' = NetServerIP s \<and> packetHandler s' = Rx_dhcp \<and> BootpID s' = BootpID s \<and>
    NetOurVLAN s' = NetOurVLAN s \<and> NetOurEther s' = NetOurEther s \<and>
    NetArpWaitPacketIP s' = NetArpWaitPacketIP s \<and> NetState s' = NetState s \<and>
    NetBootFileXferSize s' = NetBootFileXferSize s \<and> env_vars s' = env_vars s \<and> bootp_state.more s' = bootp_state.more s"
proof -
  define t where "t = s\<lparr>ram := overwrite (ram s) (NetRxPackets s) (stored (dhcp_frame srv mac dest d) pad)\<rparr>"
  obtain bp where rx: "eth_rx 1 [wire now (dhcp_frame srv mac dest d) pad] s =
      DhcpHandler now (NetRxPackets s) bp 68 67 (of_nat (length (encode_msg d))) t"
    "load (ram t) bp (length (encode_msg d)) = encode_msg d"
    by (rule eth_rx_dhcp [OF srv wire ok s(1,2) t_def]) blast
  define t1 where "t1 = t\<lparr>dhcp_state := REQUESTING\<rparr>"
  define u where "u = fold opt_effect (msg_opts d) t1"
  define v where "v = u\<lparr>timeHandler := Some Th_bootp, timeStart := now, timeDelta := BOOTP_TIMEOUT\<rparr>"
  have same: "same_dialogue t1 u" unfolding u_def by (rule opt_effects_same)
  have at: "load (ram t1) bp (length (encode_msg d)) = encode_msg d" using rx(2) by (simp add: t1_def)
  have "BootpCheckPkt bp 68 67 (of_nat (length (encode_msg d))) t = 0"
    using msg_accepted [OF rx(2) ok] s by (simp add: t_def)
  moreover have "NetReadIP (ram t1) (bp + bp_vend) = BOOTP_VENDOR_MAGIC" by (rule msg_fields(8) [OF at ok])
  moreover have "DhcpOptionsProcess (bp + bp_vend + 4) bp t1 = u" unfolding u_def by (rule DhcpOptionsProcess_msg(1) [OF at ok])
  moreover have "NetSetTimeout now BOOTP_TIMEOUT Th_bootp u = v" by (simp add: NetSetTimeout_def BOOTP_TIMEOUT_def v_def)
  moreover have "dhcp_state t = SELECTING" using s by (simp add: t_def)
  ultimately have h: "DhcpHandler now (NetRxPackets s) bp 68 67 (of_nat (length (encode_msg d))) t = Some (DhcpSendRequestPkt now bp v)"
    by (simp add: DhcpHandler_def t1_def [symmetric])
  have ram: "ram v = ram t1" using same by (simp add: v_def same_dialogue_def)
  have b: "NetReadIP (ram v) (bp + bp_yiaddr) = msg_yiaddr d" "NetReadIP (ram v) (bp + bp_id) = msg_id d"
    unfolding ram by (rule msg_fields [OF at ok])+
  have v14: "NetEthHdrSize v = 14" "length (NetOurEther v) = 6"
    using same s by (simp_all add: v_def t1_def t_def same_dialogue_def NetEthHdrSize_def)
  obtain frame where fr: "bootp_send (bootp_header now (msg_id d) (NetOurEther v) [] @ DhcpExtended DHCP_REQUEST (NetDHCPServerIP v) (msg_yiaddr d)) v =
      v\<lparr>NetIPID := NetIPID v + 1, eth_sent := eth_sent v @ [frame]\<rparr>"
    "drop 42 frame = bootp_header now (msg_id d) (NetOurEther v) [] @ DhcpExtended DHCP_REQUEST (NetDHCPServerIP v) (msg_yiaddr d)"
    by (rule bootp_send_eq [OF v14])
  define s' where "s' = v\<lparr>NetIPID := NetIPID v + 1, eth_sent := eth_sent v @ [frame]\<rparr>"
  have rcv: "eth_rx 1 [wire now (dhcp_frame srv mac dest d) pad] s = Some s'"
    unfolding rx(1) h DhcpSendRequestPkt_def Let_def b fr(1) s'_def ..
  have "leased (msg_opts d) t1 u" unfolding u_def by (rule leased_fold)
  then have "leased (msg_opts d) s s'"
    by (simp add: leased_def s'_def v_def t1_def t_def)
  then show ?thesis
    using rcv fr(2) same s
    by (intro exI [of _ s'] exI [of _ frame]) (simp add: s'_def v_def t1_def t_def same_dialogue_def)
qed

lemma autoload_not_bootfile: "ascii ''autoload'' \<noteq> ascii ''bootfile''"
  by (simp add: ascii_def)

text \<open>An acknowledgement is taken over.\<close>

lemma BootpCopyNetParams_fields:
  fixes s :: "'a board_state_scheme"
  assumes "s' = BootpCopyNetParams rxpkt bp s"
  shows "NetOurIP s' = NetReadIP (ram s) (bp + bp_yiaddr)"
    "NetServerIP s' = (if NetReadIP (ram s) (bp + bp_siaddr) \<noteq> 0 then NetReadIP (ram s) (bp + bp_siaddr) else NetServerIP s)"
    "NetServerEther s' = load (ram s) (rxpkt + 6) 6" "leased opts t s' = leased opts t s"
    "map_of (env_vars s') (ascii ''autoload'') = map_of (env_vars s) (ascii ''autoload'')"
    "eth_sent s' = eth_sent s" "timeHandler s' = timeHandler s" "timeStart s' = timeStart s" "timeDelta s' = timeDelta s"
    "NetArpWaitPacketIP s' = NetArpWaitPacketIP s" "NetState s' = NetState s" "NetBootFileXferSize s' = NetBootFileXferSize s"
    "load_addr s' = load_addr s"
  using autoload_not_bootfile
  by (simp_all add: assms BootpCopyNetParams_def Let_def set_bootfile_def setenv_net_def leased_def map_of_set_var)

lemma ack_binds:
  fixes s :: "'a board_state_scheme"
  assumes srv: "dhcp_server srv mac s" and wire: "wire_ok (dhcp_frame srv mac dest d) pad" and ok: "msg_ok DHCP_ACK d" and s: "NetOurIP s = 0" "packetHandler s = Rx_dhcp"
      "dhcp_state s = REQUESTING" "BootpID s = msg_id d"
  shows "\<exists>v. eth_rx 1 [wire now (dhcp_frame srv mac dest d) pad] s = autoload_start now v \<and> dhcp_state v = BOUND \<and>
    NetOurIP v = msg_yiaddr d \<and> NetServerIP v = (if msg_siaddr d \<noteq> 0 then msg_siaddr d else NetServerIP s) \<and>
    NetServerEther v = NetOurEther srv \<and> leased (msg_opts d) s v \<and>
    map_of (env_vars v) (ascii ''autoload'') = map_of (env_vars s) (ascii ''autoload'') \<and> eth_sent v = eth_sent s \<and>
    timeHandler v = timeHandler s \<and> timeStart v = timeStart s \<and> timeDelta v = timeDelta s \<and>
    NetArpWaitPacketIP v = NetArpWaitPacketIP s \<and> NetState v = NetState s \<and> NetBootFileXferSize v = NetBootFileXferSize s"
proof -
  define t where "t = s\<lparr>ram := overwrite (ram s) (NetRxPackets s) (stored (dhcp_frame srv mac dest d) pad)\<rparr>"
  obtain bp where rx: "eth_rx 1 [wire now (dhcp_frame srv mac dest d) pad] s =
      DhcpHandler now (NetRxPackets s) bp 68 67 (of_nat (length (encode_msg d))) t"
    "load (ram t) bp (length (encode_msg d)) = encode_msg d" "load (ram t) (NetRxPackets s + 6) 6 = NetOurEther srv"
    by (rule eth_rx_dhcp [OF srv wire ok s(1,2) t_def])
  define u where "u = fold opt_effect (msg_opts d) t"
  define v where "v = BootpCopyNetParams (NetRxPackets s) bp u"
  have same: "same_dialogue t u" unfolding u_def by (rule opt_effects_same)
  then have ram: "ram u = ram t" by (simp add: same_dialogue_def)
  have "BootpCheckPkt bp 68 67 (of_nat (length (encode_msg d))) t = 0"
    using msg_accepted [OF rx(2) ok] s by (simp add: t_def)
  moreover note DhcpMessageType_msg [OF rx(2) ok] msg_fields(8) [OF rx(2) ok]
  moreover have "DhcpOptionsProcess (bp + bp_vend + 4) bp t = u" unfolding u_def by (rule DhcpOptionsProcess_msg(1) [OF rx(2) ok])
  moreover have "dhcp_state t = REQUESTING" using s by (simp add: t_def)
  ultimately have h: "DhcpHandler now (NetRxPackets s) bp 68 67 (of_nat (length (encode_msg d))) t =
      autoload_start now (v\<lparr>dhcp_state := BOUND\<rparr>)"
    by (simp add: DhcpHandler_def v_def)
  note f = BootpCopyNetParams_fields [OF v_def]
  have "leased (msg_opts d) t u" unfolding u_def by (rule leased_fold)
  then have "leased (msg_opts d) s v" unfolding f(4) by (simp add: leased_def t_def)
  then have "leased (msg_opts d) s (v\<lparr>dhcp_state := BOUND\<rparr>)" by (simp add: leased_def)
  moreover have "NetReadIP (ram u) (bp + bp_yiaddr) = msg_yiaddr d" "NetReadIP (ram u) (bp + bp_siaddr) = msg_siaddr d"
    unfolding ram by (rule msg_fields [OF rx(2) ok])+
  ultimately show ?thesis
    unfolding rx(1) h using f(1-3,5-12) rx(3) ram same
    by (intro exI [of _ "v\<lparr>dhcp_state := BOUND\<rparr>"]) (simp add: same_dialogue_def t_def)
qed

lemma leased_trans: "leased a s t \<Longrightarrow> leased b t u \<Longrightarrow> leased (a @ b) s u"
  by (auto simp: leased_def opt_or_def opt_value_def Let_def split: if_splits)

text \<open>The state after the first request: the identifier is made of the hardware address and the time.\<close>

definition bootp_ident :: "u32 \<Rightarrow> u8 list \<Rightarrow> u32" where
  "bootp_ident now ether = be32 (ether ! 2) (ether ! 3) (ether ! 4) (ether ! 5) + now"

lemma dhcp_started:
  fixes s :: "'a board_state_scheme"
  assumes mac: "length (bi_enetaddr s) = 6" "bi_enetaddr s \<noteq> replicate 6 0"
    and server: "getenv_IPaddr (map_of (env_vars s)) ''serverip'' = Some server" and vlan: "NetEthHdrSize s = 14"
  shows "\<exists>w frame. net_restart DHCP now (net_reset s) = Some (None, w) \<and> eth_sent w = eth_sent s @ [frame] \<and>
    drop 42 frame = bootp_header now (bootp_ident now (bi_enetaddr s)) (bi_enetaddr s) (copy_filename (BootFile s) 128) @
      DhcpExtended DHCP_DISCOVER 0 0 \<and>
    dhcp_state w = SELECTING \<and> packetHandler w = Rx_dhcp \<and> BootpID w = bootp_ident now (bi_enetaddr s) \<and>
    timeHandler w = Some Th_bootp \<and> timeStart w = now \<and> timeDelta w = SELECT_TIMEOUT \<and> NetOurIP w = 0 \<and>
    NetServerIP w = server \<and> NetOurEther w = bi_enetaddr s \<and> NetOurVLAN w = NetOurVLAN s \<and> NetArpWaitPacketIP w = 0 \<and>
    NetState w = NETLOOP_CONTINUE \<and> NetBootFileXferSize w = 0 \<and> env_vars w = env_vars s \<and> leased [] s w"
proof -
  define c where "c = (net_reset s)\<lparr>NetOurEther := bi_enetaddr s, NetState := NETLOOP_CONTINUE, env_changed_id := env_id s\<rparr>"
  have init: "NetInitLoop DHCP ((net_reset s)\<lparr>NetOurEther := bi_enetaddr s, NetState := NETLOOP_CONTINUE\<rparr>) = Some c"
    by (simp add: NetInitLoop_def c_def net_reset_def)
  have pre: "net_check_prereq DHCP c \<noteq> 1" using mac by (simp add: net_check_prereq_def c_def)
  define v where "v = c\<lparr>NetOurIP := 0, NetServerIP := server, BootpTry := 1, BootpID := bootp_ident now (bi_enetaddr s),
    timeHandler := Some Th_bootp, timeStart := now, timeDelta := SELECT_TIMEOUT, dhcp_state := SELECTING, packetHandler := Rx_dhcp\<rparr>"
  define bp where "bp = bootp_header now (bootp_ident now (bi_enetaddr s)) (bi_enetaddr s) (copy_filename (BootFile s) 128) @
      DhcpExtended DHCP_DISCOVER 0 0"
  have req: "DhcpRequest now (c\<lparr>BootpTry := 0, NetOurIP := 0, NetServerIP := server\<rparr>) = bootp_send bp v"
    by (simp add: DhcpRequest_def BootpRequest_def Let_def NetSetTimeout_def SELECT_TIMEOUT_def NetSetHandler_def v_def bp_def
        bootp_ident_def c_def net_reset_def)
  have "NetEthHdrSize v = 14" "length (NetOurEther v) = 6"
    using vlan mac by (simp_all add: v_def c_def net_reset_def NetEthHdrSize_def)
  then obtain frame where fr: "bootp_send bp v = v\<lparr>NetIPID := NetIPID v + 1, eth_sent := eth_sent v @ [frame]\<rparr>" "drop 42 frame = bp"
    by (rule bootp_send_eq)
  have env: "getenv_IPaddr (map_of (env_vars c)) ''serverip'' = Some server" using server by (simp add: c_def net_reset_def)
  have "net_restart DHCP now (net_reset s) =
      Some (None, v\<lparr>NetIPID := NetIPID v + 1, eth_sent := eth_sent v @ [frame], NetBootFileXferSize := 0\<rparr>)"
    using init pre env by (simp add: net_restart_def net_start_def net_reset_def req fr(1))
  then show ?thesis
    using fr(2) unfolding bp_def
    by (intro exI [of _ "v\<lparr>NetIPID := NetIPID v + 1, eth_sent := eth_sent v @ [frame], NetBootFileXferSize := 0\<rparr>"] exI [of _ frame])
      (simp add: v_def c_def net_reset_def leased_def opt_or_def)
qed

section \<open>Messages that are misread\<close>

text \<open>
  The code 0 is padding of one byte, without a length. The client reads the byte behind it as a length: a padding byte
  before a subnet mask hides the mask and all that follows, the message type included.
\<close>

lemma dhcp_pad_hides_options:
  assumes at: "load (ram s) popt (length (0 # encode_opts ((1, 255 # v) # opts))) = 0 # encode_opts ((1, 255 # v) # opts)"
  shows "DhcpOptionsProcess popt bp s = s" "dhcp_type_loop (ram s) popt = Some (- 1)"
proof -
  have len: "4 \<le> length (0 # encode_opts ((1, 255 # v) # opts))" by (simp add: encode_opts_def encode_opt_def)
  have b: "ram s popt = 0" "ram s (popt + 1) = 1" "ram s (popt + 3) = 255"
    using load_nth_eq [OF at, of 0] load_nth_eq [OF at, of 1] load_nth_eq [OF at, of 3] len
    by (simp_all add: encode_opts_def encode_opt_def)
  have "dhcp_options popt bp 0 s = dhcp_options popt bp 3 s"
    using b by (subst dhcp_options.simps) (simp add: dhcp_option_def Let_def BOOTP_HDR_SIZE_def numeral_3_eq_3)
  also have "\<dots> = s" using b by (subst dhcp_options.simps) simp
  finally show "DhcpOptionsProcess popt bp s = s" by (simp add: DhcpOptionsProcess_def)
  have "dhcp_type_loop (ram s) popt = dhcp_type_loop (ram s) (popt + 3)"
    using b by (subst dhcp_type_loop.simps) (simp add: add.assoc)
  then show "dhcp_type_loop (ram s) popt = Some (- 1)" using b by (simp add: dhcp_type_loop.simps)
qed

text \<open>While a board waits for the answer to a RARP request, any UDP packet ends the protocol.\<close>

lemma rarp_takes_any_packet:
  assumes "server_ok srv s" and "packetHandler s = Rx_rarp"
    and "map_of (env_vars s) (ascii ''autoload'') = Some (0x6e # v)" and "wire_ok (udp_frame srv dport sport data s) pad"
  shows "eth_rx 1 [wire now (udp_frame srv dport sport data s) pad] s =
    Some (s\<lparr>ram := overwrite (ram s) (NetRxPackets s) (stored (udp_frame srv dport sport data s) pad), NetState := NETLOOP_SUCCESS\<rparr>)"
  using eth_rx_udp(1) [OF assms(1,4) refl refl, of now] assms(2,3)
  by (simp add: net_handler_def RarpHandler_def autoload_start_def)

text \<open>An exchange to try the code on.\<close>

definition sample_dhcp :: board_state where
  "sample_dhcp = sample_tftp\<lparr>env_vars := [(ascii ''autoload'', ascii ''n'')]\<rparr>"

definition sample_message :: "u32 \<Rightarrow> dhcp_opt list \<Rightarrow> dhcp_message" where
  "sample_message yiaddr opts =
     \<lparr>msg_id = 0x3e260a5b, msg_yiaddr = yiaddr, msg_siaddr = 0, msg_chaddr = replicate 16 0, msg_sname = replicate 64 0,
      msg_file = replicate 128 0, msg_opts = opts\<rparr>"

definition sample_offer :: dhcp_message where
  "sample_offer = sample_message 0xc0a80250 [(53, [2]), (54, [192, 168, 2, 100]), (51, [0, 0, 14, 16])]"

definition sample_ack :: dhcp_message where
  "sample_ack = sample_message 0xc0a80250
     [(53, [5]), (54, [192, 168, 2, 100]), (1, [255, 255, 255, 0]), (3, [192, 168, 2, 1])]"

lemma msg_okI:
  assumes "d = sample_message yiaddr ((53, [type]) # opts)" and "list_all opt_ok opts" and "length (encode_opts opts) \<le> 500"
  shows "msg_ok type d"
proof -
  have "msg_opts d = [] @ (53, [type]) # opts" by (simp add: assms(1) sample_message_def)
  then have "\<exists>front rest. msg_opts d = front @ (53, [type]) # rest \<and> 53 \<notin> fst ` set front" by fastforce
  then show ?thesis
    using assms by (simp add: msg_ok_def sample_message_def opt_ok_def word_opt_def encode_opts_def BOOTP_HDR_SIZE_def OPT_SIZE_def)
qed

lemma sample_messages_ok: "msg_ok DHCP_OFFER sample_offer" "msg_ok DHCP_ACK sample_ack"
  by (rule msg_okI, simp add: sample_offer_def DHCP_OFFER_def, simp_all add: opt_ok_def word_opt_def encode_opts_def)
    (rule msg_okI, simp add: sample_ack_def DHCP_ACK_def, simp_all add: opt_ok_def word_opt_def encode_opts_def)

lemma sample_frames_ok:
  "wire_ok (dhcp_frame sample_server NetBcastAddr 0xffffffff sample_offer) []"
  "wire_ok (dhcp_frame sample_server NetBcastAddr 0xffffffff sample_ack) []"
  by (simp_all add: wire_ok_def dhcp_frame_def encode_msg_def
      NetSetEther_def NetBcastAddr_def sample_server_def sample_host_def sample_offer_def sample_ack_def sample_message_def
      encode_opts_def)

section \<open>An exchange\<close>

text \<open>
  A DHCP exchange configures the board: \<open>NetLoop\<close> broadcasts a DISCOVER message, answers the first message it gets,
  whatever its type, as an offer, with a REQUEST for the address and the server in it, and on the acknowledgement returns 0, bound to the address in it, with the
  server, mask, gateway, name server, host name, root path, lease time and server identifier that the options of both
  messages give, the last value of each. Here \<open>autoload\<close> is set so that no file is loaded afterwards.
\<close>

theorem dhcp_exchange:
  fixes s :: "'a board_state_scheme"
  assumes board: "length (bi_enetaddr s) = 6" "bi_enetaddr s \<noteq> replicate 6 0" "NetEthHdrSize s = 14"
      "getenv_IPaddr (map_of (env_vars s)) ''serverip'' = Some server" "map_of (env_vars s) (ascii ''autoload'') = Some (0x6e # v)"
    and srv: "dhcp_server srv mac s"
    and offer: "msg_ok type off" "msg_id off = bootp_ident now (bi_enetaddr s)"
      "received i [wire t1 (dhcp_frame srv mac dest off) pad1]" "wire_ok (dhcp_frame srv mac dest off) pad1" "\<not> in_ctrlc i" "in_time i - t1 \<le> BOOTP_TIMEOUT"
    and ack: "msg_ok DHCP_ACK ackn" "msg_id ackn = bootp_ident now (bi_enetaddr s)"
      "received j [wire t2 (dhcp_frame srv mac dest ackn) pad2]" "wire_ok (dhcp_frame srv mac dest ackn) pad2" "\<not> in_ctrlc j" "in_time j - t1 \<le> BOOTP_TIMEOUT"
  shows "\<exists>s' discover request. NetLoop True DHCP now [i, j] s = Some (Some 0, s') \<and>
    eth_sent s' = eth_sent s @ [discover, request] \<and>
    drop 42 discover = bootp_header now (msg_id off) (bi_enetaddr s) (copy_filename (BootFile s) 128) @
      DhcpExtended DHCP_DISCOVER 0 0 \<and>
    drop 42 request = bootp_header t1 (msg_id off) (bi_enetaddr s) [] @
      DhcpExtended DHCP_REQUEST (opt_or opt_ip (NetDHCPServerIP s) (opt_value 54 (msg_opts off))) (msg_yiaddr off) \<and>
    dhcp_state s' = BOUND \<and> NetOurIP s' = msg_yiaddr ackn \<and>
    NetServerIP s' = (if msg_siaddr ackn \<noteq> 0 then msg_siaddr ackn else server) \<and> NetServerEther s' = NetOurEther srv \<and>
    leased (msg_opts off @ msg_opts ackn) s s'"
proof -
  obtain w f1 where w: "net_restart DHCP now (net_reset s) = Some (None, w)" "eth_sent w = eth_sent s @ [f1]"
    "drop 42 f1 = bootp_header now (bootp_ident now (bi_enetaddr s)) (bi_enetaddr s) (copy_filename (BootFile s) 128) @
      DhcpExtended DHCP_DISCOVER 0 0"
    "dhcp_state w = SELECTING" "packetHandler w = Rx_dhcp" "BootpID w = bootp_ident now (bi_enetaddr s)" "NetOurIP w = 0"
    "NetServerIP w = server" "NetOurEther w = bi_enetaddr s" "NetOurVLAN w = NetOurVLAN s" "NetArpWaitPacketIP w = 0"
    "NetState w = NETLOOP_CONTINUE" "NetBootFileXferSize w = 0" "env_vars w = env_vars s" "leased [] s w"
    using dhcp_started [OF board(1,2,4,3), of now] by blast
  have sw: "dhcp_server srv mac w" using srv w(10) by (simp add: dhcp_server_def same_vlan_def)
  have w14: "NetEthHdrSize w = 14" "length (NetOurEther w) = 6" using board w(9,10) by (simp_all add: NetEthHdrSize_def)
  have wid: "BootpID w = msg_id off" using w(6) offer(2) by simp
  obtain x f2 where x: "eth_rx 1 [wire t1 (dhcp_frame srv mac dest off) pad1] w = Some x" "dhcp_state x = REQUESTING"
    "leased (msg_opts off) w x" "eth_sent x = eth_sent w @ [f2]"
    "drop 42 f2 = bootp_header t1 (msg_id off) (NetOurEther w) [] @ DhcpExtended DHCP_REQUEST (NetDHCPServerIP x) (msg_yiaddr off)"
    "timeHandler x = Some Th_bootp" "timeStart x = t1" "timeDelta x = BOOTP_TIMEOUT" "NetOurIP x = 0" "NetServerIP x = NetServerIP w"
    "packetHandler x = Rx_dhcp" "BootpID x = BootpID w" "NetOurVLAN x = NetOurVLAN w"
    "NetArpWaitPacketIP x = NetArpWaitPacketIP w" "NetState x = NetState w"
    "NetBootFileXferSize x = NetBootFileXferSize w" "env_vars x = env_vars w"
    using offer_answered [OF sw offer(4,1) w(7,5,4) wid w14, of t1] by blast
  have calm: "run_timeout (in_time i) (ArpTimeoutCheck (in_time i) x) = Some x"
    using offer(6) x w(11) by (intro calm_checks) simp_all
  have first: "net_iteration DHCP i w = Some (None, x)"
    using x(1,15) calm w(12) offer(5) unfolding net_iteration_def eth_rx_received [OF offer(3)] by simp
  have sx: "dhcp_server srv mac x" using sw x(13) by (simp add: dhcp_server_def same_vlan_def)
  have xid: "BootpID x = msg_id ackn" using x(12) w(6) ack(2) by simp
  obtain y where y: "eth_rx 1 [wire t2 (dhcp_frame srv mac dest ackn) pad2] x = autoload_start t2 y" "dhcp_state y = BOUND"
    "NetOurIP y = msg_yiaddr ackn" "NetServerIP y = (if msg_siaddr ackn \<noteq> 0 then msg_siaddr ackn else NetServerIP x)"
    "NetServerEther y = NetOurEther srv" "leased (msg_opts ackn) x y"
    "map_of (env_vars y) (ascii ''autoload'') = map_of (env_vars x) (ascii ''autoload'')" "eth_sent y = eth_sent x"
    "timeHandler y = timeHandler x" "timeStart y = timeStart x" "timeDelta y = timeDelta x"
    "NetArpWaitPacketIP y = NetArpWaitPacketIP x" "NetBootFileXferSize y = NetBootFileXferSize x"
    using ack_binds [OF sx ack(4,1) x(9,11,2) xid, of t2] by blast
  define s' where "s' = y\<lparr>NetState := NETLOOP_SUCCESS\<rparr>"
  have rx: "eth_rx (in_isr j) (in_packets j) x = Some s'"
    unfolding eth_rx_received [OF ack(3)] y(1) using y(7) x(17) w(14) board(5) by (simp add: autoload_start_def s'_def)
  have calm2: "run_timeout (in_time j) (ArpTimeoutCheck (in_time j) s') = Some s'"
    using ack(6) x y w(11) by (intro calm_checks) (simp_all add: s'_def)
  have "net_iteration DHCP j x = Some (Some 0, s')"
    using rx calm2 ack(5) y(13) x(16) w(13) by (simp add: net_iteration_def net_success_def s'_def)
  with first w(1) have "NetLoop True DHCP now [i, j] s = Some (Some 0, s')" by (simp add: NetLoop_def)
  moreover have l: "leased (msg_opts off) s x" using leased_trans [OF w(15) x(3)] by simp
  moreover have "leased (msg_opts off @ msg_opts ackn) s s'"
    using leased_trans [OF l y(6)] by (simp add: s'_def leased_def)
  moreover have "NetDHCPServerIP x = opt_or opt_ip (NetDHCPServerIP s) (opt_value 54 (msg_opts off))"
    using l by (simp add: leased_def)
  ultimately show ?thesis
    using w(2,3,8,9) x(4,5,10) y offer(2) by (intro exI [of _ s'] exI [of _ f1] exI [of _ f2]) (simp add: s'_def)
qed

theorem dhcp_exchange_witness:
  "\<exists>s' discover request. NetLoop True DHCP 0
      [\<lparr>in_isr = 1, in_packets = [wire 1 (dhcp_frame sample_server NetBcastAddr 0xffffffff sample_offer) []], in_ctrlc = False, in_time = 2\<rparr>,
       \<lparr>in_isr = 1, in_packets = [wire 3 (dhcp_frame sample_server NetBcastAddr 0xffffffff sample_ack) []], in_ctrlc = False, in_time = 4\<rparr>]
      sample_dhcp = Some (Some 0, s') \<and>
    eth_sent s' = [discover, request] \<and> dhcp_state s' = BOUND \<and> NetOurIP s' = 0xc0a80250 \<and>
    NetOurSubnetMask s' = 0xffffff00 \<and> NetOurGatewayIP s' = 0xc0a80201 \<and> dhcp_leasetime s' = 3600"
proof -
  let ?i = "\<lparr>in_isr = 1, in_packets = [wire 1 (dhcp_frame sample_server NetBcastAddr 0xffffffff sample_offer) []], in_ctrlc = False, in_time = 2\<rparr>"
  let ?j = "\<lparr>in_isr = 1, in_packets = [wire 3 (dhcp_frame sample_server NetBcastAddr 0xffffffff sample_ack) []], in_ctrlc = False, in_time = 4\<rparr>"
  have ident: "bootp_ident 0 (bi_enetaddr sample_dhcp) = 0x3e260a5b"
    by (simp add: bootp_ident_def sample_dhcp_def sample_tftp_def be32_def)
  have board: "length (bi_enetaddr sample_dhcp) = 6" "bi_enetaddr sample_dhcp \<noteq> replicate 6 0" "NetEthHdrSize sample_dhcp = 14"
      "getenv_IPaddr (map_of (env_vars sample_dhcp)) ''serverip'' = Some 0" "map_of (env_vars sample_dhcp) (ascii ''autoload'') = Some (0x6e # [])"
    by (simp_all add: sample_dhcp_def sample_tftp_def zero_mac NetEthHdrSize_def our_vlan_def VLAN_NONE_def VLAN_IDMASK_def
        ETHER_HDR_SIZE_def getenv_IPaddr_def string_to_ip_def ascii_def)
  have srv: "dhcp_server sample_server NetBcastAddr sample_dhcp"
    by (simp add: dhcp_server_def sample_server_def sample_host_def sample_dhcp_def sample_tftp_def same_vlan_def NetBcastAddr_def)
  have ids: "msg_id sample_offer = bootp_ident 0 (bi_enetaddr sample_dhcp)" "msg_id sample_ack = bootp_ident 0 (bi_enetaddr sample_dhcp)"
    by (simp_all add: ident sample_offer_def sample_ack_def sample_message_def)
  have times: "in_time ?i - 1 \<le> BOOTP_TIMEOUT" "in_time ?j - 1 \<le> BOOTP_TIMEOUT" by (simp_all add: BOOTP_TIMEOUT_def)
  have sz: "wire_ok (dhcp_frame sample_server NetBcastAddr 0xffffffff sample_offer) []"
    "wire_ok (dhcp_frame sample_server NetBcastAddr 0xffffffff sample_ack) []"
    by (rule sample_frames_ok)+
  have rcv: "received ?i [wire 1 (dhcp_frame sample_server NetBcastAddr 0xffffffff sample_offer) []]"
    "received ?j [wire 3 (dhcp_frame sample_server NetBcastAddr 0xffffffff sample_ack) []]"
    by (simp_all add: received_def)
  obtain s' discover request where s': "NetLoop True DHCP 0 [?i, ?j] sample_dhcp = Some (Some 0, s')"
    "eth_sent s' = eth_sent sample_dhcp @ [discover, request]" "dhcp_state s' = BOUND" "NetOurIP s' = msg_yiaddr sample_ack"
    "leased (msg_opts sample_offer @ msg_opts sample_ack) sample_dhcp s'"
    using dhcp_exchange [OF board srv sample_messages_ok(1) ids(1) rcv(1) sz(1) _ times(1) sample_messages_ok(2) ids(2) rcv(2) sz(2) _ times(2)]
    by auto
  have "NetOurSubnetMask s' = 0xffffff00 \<and> NetOurGatewayIP s' = 0xc0a80201 \<and> dhcp_leasetime s' = 3600"
    using s'(5) by (simp add: leased_def sample_offer_def sample_ack_def sample_message_def opt_value_def Let_def opt_or_def
        opt_ip_def be32_def)
  with s' show ?thesis
    by (intro exI [of _ s'] exI [of _ discover] exI [of _ request])
      (simp add: sample_ack_def sample_message_def, simp add: sample_dhcp_def sample_tftp_def)
qed

end
