(* ===== verification/Kermit.thy ===== *)
theory Kermit
  imports C_Memory
begin

text \<open>
  The Kermit receiver of \<^verbatim>\<open>common/cmd_load.c\<close>, behind the command \<open>loadb\<close>: the packets that it sends, the layers
  \<open>os_data_*\<close> and \<open>k_data_*\<close> that take the received characters, and the receiver \<open>k_recv\<close> itself. The globals
  of the file and the local variables of \<open>k_recv\<close> are the fields of one record; the characters still to come over the
  serial line are a list, and a function that waits for a character when the list is empty has the result
  \<open>None\<close>. The sender and the line are in \<^verbatim>\<open>Kermit_Line\<close>.
\<close>

section \<open>The code\<close>

definition START_CHAR :: u8 where "START_CHAR = 0x01"
definition ETX_CHAR :: u8 where "ETX_CHAR = 0x03"
definition END_CHAR :: u8 where "END_CHAR = 0x0D"
definition K_SPACE :: int where "K_SPACE = 0x20"
definition K_ESCAPE :: u8 where "K_ESCAPE = 0x23"
definition SEND_TYPE :: u8 where "SEND_TYPE = 0x53"
definition DATA_TYPE :: u8 where "DATA_TYPE = 0x44"
definition ACK_TYPE :: u8 where "ACK_TYPE = 0x59"
definition NACK_TYPE :: u8 where "NACK_TYPE = 0x4E"
definition BREAK_TYPE :: u8 where "BREAK_TYPE = 0x42"
definition SEND_DATA_SIZE :: nat where "SEND_DATA_SIZE = 20"

definition tochar :: "int \<Rightarrow> u8" where "tochar x = word_of_int (x + K_SPACE)"
definition untochar :: "u8 \<Rightarrow> int" where "untochar x = (uint x - K_SPACE) mod 256"

record kermit =
  k_in :: "u8 list"
  k_out :: "u8 list"
  k_mem :: mem
  his_eol :: u8
  his_pad_count :: int
  his_pad_char :: u8
  his_quote :: u8
  os_data_state :: int
  os_data_state_saved :: int
  os_data_addr :: addr
  os_data_addr_saved :: addr
  bin_start_address :: addr
  k_data_escape :: bool
  k_data_escape_saved :: bool
  send_parms :: "u8 list"
  send_ptr :: nat
  k_state :: u8
  k_state_saved :: u8
  k_sum :: int
  k_length :: int
  k_n :: int
  k_last_n :: int

subsection \<open>Sending\<close>

definition putc :: "u8 \<Rightarrow> kermit \<Rightarrow> kermit" where
  "putc c s = s\<lparr>k_out := k_out s @ [c]\<rparr>"

definition send_pad :: "kermit \<Rightarrow> kermit" where
  "send_pad s = (putc (his_pad_char s) ^^ nat (his_pad_count s)) s"

definition ktrans :: "u8 \<Rightarrow> u8" where
  "ktrans c = (if c AND 0x60 = 0x40 then c AND NOT 0x40 else if c AND 0x7f = 0x3f then c OR 0x40 else c)"

text \<open>The check of a string; \<open>sum_check\<close> is the expression that \<open>k_recv\<close> writes out as well.\<close>

definition sum_check :: "int \<Rightarrow> int" where
  "sum_check sm = (sm + ((sm div 64) mod 4)) mod 64"

fun chk1_sum :: "u8 list \<Rightarrow> int \<Rightarrow> int" where
  "chk1_sum [] n = n"
| "chk1_sum (c # buffer) n = (if c = 0 then n else chk1_sum buffer (n + uint c))"

definition chk1 :: "u8 list \<Rightarrow> int" where
  "chk1 buffer = sum_check (chk1_sum buffer 0)"

definition s1_sendpacket :: "u8 list \<Rightarrow> kermit \<Rightarrow> kermit" where
  "s1_sendpacket packet s = fold putc (takeWhile (\<lambda>c. c \<noteq> 0) packet) (send_pad s)"

text \<open>The buffer \<open>a_b\<close> with its terminating zero, before and after the check and the end of line are put in.\<close>

definition close_packet :: "u8 list \<Rightarrow> kermit \<Rightarrow> u8 list" where
  "close_packet a_b s = a_b @ [tochar (chk1 (tl a_b @ [0])), his_eol s, 0]"

definition send_ack :: "int \<Rightarrow> kermit \<Rightarrow> kermit" where
  "send_ack n s = s1_sendpacket (close_packet [START_CHAR, tochar 3, tochar n, ACK_TYPE] s) s"

definition send_nack :: "int \<Rightarrow> kermit \<Rightarrow> kermit" where
  "send_nack n s = s1_sendpacket (close_packet [START_CHAR, tochar 3, tochar n, NACK_TYPE] s) s"

subsection \<open>The received characters\<close>

definition bin_data_init :: "kermit \<Rightarrow> kermit" where
  "bin_data_init s = s\<lparr>os_data_state := 0, os_data_addr := bin_start_address s\<rparr>"

definition os_data_save :: "kermit \<Rightarrow> kermit" where
  "os_data_save s = s\<lparr>os_data_state_saved := os_data_state s, os_data_addr_saved := os_data_addr s\<rparr>"

definition os_data_restore :: "kermit \<Rightarrow> kermit" where
  "os_data_restore s = s\<lparr>os_data_state := os_data_state_saved s, os_data_addr := os_data_addr_saved s\<rparr>"

definition bin_data_char :: "u8 \<Rightarrow> kermit \<Rightarrow> kermit" where
  "bin_data_char new_char s =
     (if os_data_state s = 0
      then s\<lparr>k_mem := (k_mem s)(os_data_addr s := new_char), os_data_addr := os_data_addr s + 1\<rparr>
      else s)"

definition set_kerm_bin_mode :: "addr \<Rightarrow> kermit \<Rightarrow> kermit" where
  "set_kerm_bin_mode a s = s\<lparr>bin_start_address := a\<rparr>"

text \<open>The pointers \<open>os_data_init\<close> and \<open>os_data_char\<close> are always those that \<open>set_kerm_bin_mode\<close> has put in.\<close>

definition k_data_init :: "kermit \<Rightarrow> kermit" where
  "k_data_init s = bin_data_init (s\<lparr>k_data_escape := False\<rparr>)"

definition k_data_save :: "kermit \<Rightarrow> kermit" where
  "k_data_save s = os_data_save (s\<lparr>k_data_escape_saved := k_data_escape s\<rparr>)"

definition k_data_restore :: "kermit \<Rightarrow> kermit" where
  "k_data_restore s = os_data_restore (s\<lparr>k_data_escape := k_data_escape_saved s\<rparr>)"

definition k_data_char :: "u8 \<Rightarrow> kermit \<Rightarrow> kermit" where
  "k_data_char new_char s =
     (if k_data_escape s then (bin_data_char (ktrans new_char) s)\<lparr>k_data_escape := False\<rparr>
      else if new_char = his_quote s then s\<lparr>k_data_escape := True\<rparr>
      else bin_data_char new_char s)"

subsection \<open>The first packet\<close>

definition k_defaults :: "kermit \<Rightarrow> kermit" where
  "k_defaults s = s\<lparr>his_eol := END_CHAR, his_pad_count := 0, his_pad_char := 0, his_quote := K_ESCAPE\<rparr>"

text \<open>What the answer to \<open>bytes\<close> parameters holds: the last one, CAPAS, is answered with four characters.\<close>

definition send_answer :: "nat \<Rightarrow> u8 list" where
  "send_answer bytes =
     take bytes [tochar 94, tochar 1, tochar 0, 0x40, tochar (uint END_CHAR), 0x23, 0x4E, 0x31, 0x4E] @
     (if 10 \<le> bytes then [tochar 2, tochar 0, tochar 94, tochar 94] else [])"

definition handle_send_packet :: "int \<Rightarrow> kermit \<Rightarrow> kermit" where
  "handle_send_packet n s =
     (let s = k_defaults s;
          s = (if send_ptr s = SEND_DATA_SIZE - 1 then s\<lparr>send_ptr := send_ptr s - 1\<rparr> else s);
          bytes = send_ptr s;
          s = (if 3 \<le> bytes then s\<lparr>his_pad_count := untochar (send_parms s ! 2)\<rparr> else s);
          s = (if 4 \<le> bytes then s\<lparr>his_pad_char := ktrans (send_parms s ! 3)\<rparr> else s);
          s = (if 5 \<le> bytes then s\<lparr>his_eol := word_of_int (untochar (send_parms s ! 4))\<rparr> else s);
          s = (if 6 \<le> bytes then s\<lparr>his_quote := send_parms s ! 5\<rparr> else s);
          answer = send_answer bytes
      in s1_sendpacket
           (close_packet ([START_CHAR, tochar (3 + int (length answer)), tochar n, ACK_TYPE] @ answer) s) s)"

subsection \<open>The receiver\<close>

text \<open>
  Each part of \<open>k_recv\<close> ends in one of three ways: it waits for ever (\<open>None\<close>), it jumps to \<open>packet_error\<close>
  (\<open>Inl\<close>), or it goes on (\<open>Inr\<close>).
\<close>

type_synonym 'a part = "(kermit + 'a) option"

definition k_then :: "'a part \<Rightarrow> ('a \<Rightarrow> 'b part) \<Rightarrow> 'b part" where
  "k_then p f = (case p of None \<Rightarrow> None | Some (Inl s) \<Rightarrow> Some (Inl s) | Some (Inr x) \<Rightarrow> f x)"

text \<open>A character, an error when it is a control character; and the same with the character added to the sum.\<close>

definition k_char :: "kermit \<Rightarrow> (u8 \<times> kermit) part" where
  "k_char s =
     (case k_in s of
        [] \<Rightarrow> None
      | c # cs \<Rightarrow> if c AND 0xE0 = 0 then Some (Inl (s\<lparr>k_in := cs\<rparr>)) else Some (Inr (c, s\<lparr>k_in := cs\<rparr>)))"

definition k_sum_char :: "kermit \<Rightarrow> (u8 \<times> kermit) part" where
  "k_sum_char s = k_then (k_char s) (\<lambda>(c, s). Some (Inr (c, s\<lparr>k_sum := k_sum s + uint c\<rparr>)))"

text \<open>A packet with the sequence number of the last one starts where that one did.\<close>

definition k_sequence :: "kermit \<Rightarrow> kermit" where
  "k_sequence s =
     (if k_n s = k_last_n s then k_data_restore (s\<lparr>k_state := k_state_saved s\<rparr>)
      else k_data_save (s\<lparr>k_last_n := k_n s, k_state_saved := k_state s\<rparr>))"

definition k_header :: "kermit \<Rightarrow> kermit part" where
  "k_header s =
     k_then (k_sum_char (s\<lparr>k_sum := 0\<rparr>)) (\<lambda>(c, s).
     k_then (k_sum_char (s\<lparr>k_length := untochar c\<rparr>)) (\<lambda>(c, s).
     k_then (k_sum_char (k_sequence (s\<lparr>k_n := untochar c, k_length := k_length s - 1\<rparr>))) (\<lambda>(c, s).
     Some (Inr (s\<lparr>k_state := c, k_length := k_length s - 1\<rparr>)))))"

definition k_extended :: "kermit \<Rightarrow> kermit part" where
  "k_extended s =
     (if k_length s \<noteq> - 2 then Some (Inr s)
      else
        k_then (k_sum_char s) (\<lambda>(hi, s).
        k_then (k_sum_char s) (\<lambda>(lo, s).
        k_then (k_char (s\<lparr>k_length := untochar hi * 95 + untochar lo\<rparr>)) (\<lambda>(c, s).
        if c \<noteq> tochar (sum_check (k_sum s)) then Some (Inl s)
        else Some (Inr (s\<lparr>k_sum := k_sum s + uint c\<rparr>))))))"

definition k_take :: "u8 \<Rightarrow> kermit \<Rightarrow> kermit" where
  "k_take c s =
     (if k_state s = DATA_TYPE then k_data_char c s
      else if k_state s = SEND_TYPE then
        (let s = s\<lparr>send_parms := (send_parms s)[send_ptr s := c], send_ptr := send_ptr s + 1\<rparr>
         in if SEND_DATA_SIZE \<le> send_ptr s then s\<lparr>send_ptr := send_ptr s - 1\<rparr> else s)
      else s)"

fun k_body :: "nat \<Rightarrow> kermit \<Rightarrow> kermit part" where
  "k_body 0 s = Some (Inr s)"
| "k_body (Suc n) s =
     k_then (k_sum_char s) (\<lambda>(c, s). k_body n (k_take c (s\<lparr>k_length := k_length s - 1\<rparr>)))"

definition k_trailer :: "kermit \<Rightarrow> kermit part" where
  "k_trailer s =
     k_then (k_char s) (\<lambda>(c, s).
     if c \<noteq> tochar (sum_check (k_sum s)) then Some (Inl s)
     else case k_in s of
            [] \<Rightarrow> None
          | e # cs \<Rightarrow> if e \<noteq> END_CHAR then Some (Inl (s\<lparr>k_in := cs\<rparr>)) else Some (Inr (s\<lparr>k_in := cs\<rparr>)))"

text \<open>The loop \<open>while (length > 1)\<close> takes one character less than the length.\<close>

definition k_packet :: "kermit \<Rightarrow> kermit part" where
  "k_packet s =
     k_then (k_header s) (\<lambda>s. k_then (k_extended s) (\<lambda>s. k_then (k_body (nat (k_length s - 1)) s) k_trailer))"

definition packet_error :: "kermit \<Rightarrow> kermit" where
  "packet_error s = (let s = k_data_restore (s\<lparr>k_state := k_state_saved s\<rparr>) in send_nack (k_n s) s)"

text \<open>Wait for the start of a packet (\<open>True\<close>) or for Control-C.\<close>

fun k_wait :: "u8 list \<Rightarrow> (bool \<times> u8 list) option" where
  "k_wait [] = None"
| "k_wait (c # cs) =
     (if c = START_CHAR then Some (True, cs) else if c = ETX_CHAR then Some (False, cs) else k_wait cs)"

text \<open>One turn of the loop: the value that is returned, or \<open>None\<close> in the first component to go on.\<close>

definition k_turn :: "kermit \<Rightarrow> (u32 option \<times> kermit) option" where
  "k_turn s =
     (case k_wait (k_in s) of
        None \<Rightarrow> None
      | Some (False, cs) \<Rightarrow> Some (Some 0, s\<lparr>send_ptr := 0, k_in := cs\<rparr>)
      | Some (True, cs) \<Rightarrow>
          (case k_packet (s\<lparr>send_ptr := 0, k_in := cs\<rparr>) of
             None \<Rightarrow> None
           | Some (Inl s) \<Rightarrow> Some (None, packet_error s)
           | Some (Inr s) \<Rightarrow>
               Some (if k_state s = SEND_TYPE then (None, handle_send_packet (k_n s) s)
                     else (let s = send_ack (k_n s) s
                           in (if k_state s = BREAK_TYPE then Some (os_data_addr s - bin_start_address s) else None, s)))))"

text \<open>Every turn takes at least one character off the line, so that the loop ends or waits.\<close>

lemma k_in_frame [simp]:
  "k_in (k_data_save s) = k_in s" "k_in (k_data_restore s) = k_in s" "k_in (k_data_char c s) = k_in s"
  "k_in (k_take c s) = k_in s" "k_in (k_sequence s) = k_in s"
  by (simp_all add: k_data_save_def os_data_save_def k_data_restore_def os_data_restore_def k_data_char_def bin_data_char_def
      k_take_def Let_def k_sequence_def)

lemma putc_pad: "(putc c ^^ n) s = s\<lparr>k_out := k_out s @ replicate n c\<rparr>"
  by (induction n arbitrary: s) (simp_all add: putc_def replicate_append_same)

lemma fold_putc: "fold putc cs s = s\<lparr>k_out := k_out s @ cs\<rparr>"
  by (induction cs arbitrary: s) (simp_all add: putc_def)

lemma s1_sendpacket_out:
  "s1_sendpacket packet s = s\<lparr>k_out := k_out s @ replicate (nat (his_pad_count s)) (his_pad_char s) @
    takeWhile (\<lambda>c. c \<noteq> 0) packet\<rparr>"
  by (simp add: s1_sendpacket_def send_pad_def putc_pad fold_putc)

lemmas sending = send_ack_def send_nack_def s1_sendpacket_out

text \<open>The line after a part of the receiver is no longer than before.\<close>

definition shortens :: "nat \<Rightarrow> ('a \<Rightarrow> kermit) \<Rightarrow> 'a part \<Rightarrow> bool" where
  "shortens n st p = (case p of None \<Rightarrow> True | Some (Inl s) \<Rightarrow> length (k_in s) \<le> n | Some (Inr x) \<Rightarrow> length (k_in (st x)) \<le> n)"

lemma shortens_then:
  assumes "shortens n st p" and "\<And>x. length (k_in (st x)) \<le> n \<Longrightarrow> shortens n st' (f x)"
  shows "shortens n st' (k_then p f)"
proof (cases p)
  case (Some q)
  show ?thesis
  proof (cases q)
    case (Inr x)
    with assms(1) Some have "shortens n st' (f x)" by (intro assms(2)) (simp add: shortens_def)
    with Some Inr show ?thesis by (simp add: k_then_def)
  qed (use assms(1) Some in \<open>simp add: shortens_def k_then_def\<close>)
qed (simp add: shortens_def k_then_def)

lemma shortens_char:
  "length (k_in s) \<le> n \<Longrightarrow> shortens n snd (k_char s)" "length (k_in s) \<le> n \<Longrightarrow> shortens n snd (k_sum_char s)"
  by (auto simp: shortens_def k_char_def k_sum_char_def k_then_def split: list.splits)

lemma shortens_end: "length (k_in (st x)) \<le> n \<Longrightarrow> shortens n st (Some (Inr x))" "length (k_in s) \<le> n \<Longrightarrow> shortens n st (Some (Inl s))"
  by (simp_all add: shortens_def)

lemma shortens_body: "length (k_in s) \<le> n \<Longrightarrow> shortens n (\<lambda>s. s) (k_body m s)"
  by (induction m arbitrary: s) (auto intro!: shortens_then [OF shortens_char(2)] shortens_end)

lemma shortens_packet: "length (k_in s) \<le> n \<Longrightarrow> shortens n (\<lambda>s. s) (k_packet s)"
proof -
  assume n: "length (k_in s) \<le> n"
  have header: "shortens n (\<lambda>s. s) (k_header s)"
    using n unfolding k_header_def by (auto intro!: shortens_then [OF shortens_char(2)] shortens_end)
  have extended: "shortens n (\<lambda>s. s) (k_extended s)" if "length (k_in s) \<le> n" for s
    using that unfolding k_extended_def by (auto intro!: shortens_then [OF shortens_char(2)] shortens_then [OF shortens_char(1)] shortens_end)
  have trailer: "shortens n (\<lambda>s. s) (k_trailer s)" if "length (k_in s) \<le> n" for s
    using that unfolding k_trailer_def
    by (auto intro!: shortens_then [OF shortens_char(1)] shortens_end simp: shortens_def [of _ _ None] split: list.splits)
  show ?thesis
    unfolding k_packet_def by (intro shortens_then [OF header] shortens_then [OF extended] shortens_then [OF shortens_body] trailer)
qed

lemma k_wait_shorter: "k_wait cs = Some (b, ds) \<Longrightarrow> length ds < length cs"
  by (induction cs) (auto split: if_splits)

lemma k_turn_shorter:
  assumes "k_turn s = Some (r, s')"
  shows "length (k_in s') < length (k_in s)"
proof -
  obtain b cs where w: "k_wait (k_in s) = Some (b, cs)"
    using assms by (cases "k_wait (k_in s)") (auto simp: k_turn_def)
  have "shortens (length cs) (\<lambda>s. s) (k_packet (s\<lparr>send_ptr := 0, k_in := cs\<rparr>))"
    by (rule shortens_packet) simp
  then have "length (k_in s') \<le> length cs"
    using assms w
    by (cases b) (auto simp: k_turn_def packet_error_def handle_send_packet_def k_defaults_def Let_def sending shortens_def
        split: option.splits sum.splits if_splits)
  with k_wait_shorter [OF w] show ?thesis by simp
qed

function k_loop :: "kermit \<Rightarrow> (u32 \<times> kermit) option" where
  "k_loop s =
     (case k_turn s of
        None \<Rightarrow> None
      | Some (Some n, s') \<Rightarrow> Some (n, s')
      | Some (None, s') \<Rightarrow> k_loop s')"
  by pat_completeness auto
termination
  by (relation "measure (\<lambda>s. length (k_in s))") (auto dest: k_turn_shorter)

declare k_loop.simps [simp del]

definition k_recv :: "kermit \<Rightarrow> (u32 \<times> kermit) option" where
  "k_recv s =
     (let s = k_data_init ((k_defaults s)\<lparr>k_state := 0\<rparr>);
          s = k_data_save (s\<lparr>k_state_saved := k_state s\<rparr>)
      in k_loop (s\<lparr>k_n := 0, k_last_n := - 1\<rparr>))"

end
