(* ===== verification/Serial_Load.thy ===== *)
theory Serial_Load
  imports Kermit S_Record Env_Store
begin

text \<open>
  The commands \<open>loads\<close>, \<open>saves\<close> and \<open>loadb\<close> of \<^verbatim>\<open>common/cmd_load.c\<close>: S-records read from the serial line into memory or
  flash, memory written to the line as S-records, and the Kermit download. What comes over the line is a list of
  characters and pauses; a pause is a moment at which \<open>tstc\<close> finds no character. What the commands print for the
  user, other than records and echoed characters, is left out, and so are the local buffers, which are lists.
\<close>

section \<open>The code\<close>

subsection \<open>The console\<close>

type_synonym serial_line = "u8 option list"

fun line_getc :: "serial_line \<Rightarrow> (u8 \<times> serial_line) option" where
  "line_getc [] = None"
| "line_getc (None # line) = line_getc line"
| "line_getc (Some c # line) = Some (c, line)"

definition line_tstc :: "serial_line \<Rightarrow> bool" where
  "line_tstc line = (case line of Some c # _ \<Rightarrow> True | _ \<Rightarrow> False)"

record 'c loader =
  ld_env :: "'c env_state"
  ld_ram :: mem
  ld_line :: serial_line
  ld_out :: "u8 list"
  do_echo :: bool
  ctrlc_was_pressed :: bool
  ld_kermit :: kermit

text \<open>The console is there and Control-C is not disabled; any other character that has come in is lost.\<close>

definition ctrlc :: "'c loader \<Rightarrow> bool \<times> 'c loader" where
  "ctrlc s =
     (if line_tstc (ld_line s) then
        (case line_getc (ld_line s) of
           None \<Rightarrow> (False, s)
         | Some (c, line) \<Rightarrow>
             if c = 0x03 then (True, s\<lparr>ld_line := line, ctrlc_was_pressed := True\<rparr>) else (False, s\<lparr>ld_line := line\<rparr>))
      else (False, s))"

text \<open>\<open>for (;;) if (getc() == c) break;\<close>\<close>

fun wait_char :: "u8 \<Rightarrow> serial_line \<Rightarrow> serial_line option" where
  "wait_char c [] = None"
| "wait_char c (None # line) = wait_char c line"
| "wait_char c (Some x # line) = (if x = c then Some line else wait_char c line)"

subsection \<open>Loading S-records\<close>

definition SREC_MAXRECLEN :: nat where "SREC_MAXRECLEN = 512 + 4"

text \<open>
  The loop of \<open>read_record\<close>: the line read, or \<open>None\<close> for the result -1. With \<open>hangup\<close>, which says that \<open>gd->jt[XF_getc]\<close> is not
  \<open>getc\<close>, the console is polled behind every character.
\<close>

fun read_chars :: "bool \<Rightarrow> nat \<Rightarrow> u8 list \<Rightarrow> 'c loader \<Rightarrow> (u8 list option \<times> 'c loader) option" where
  "read_chars hangup 0 buf s = Some (Some buf, s)"
| "read_chars hangup (Suc n) buf s = do {
     (c, line) \<leftarrow> line_getc (ld_line s);
     let s = s\<lparr>ld_line := line, ld_out := (if do_echo s then ld_out s @ [c] else ld_out s)\<rparr>;
     if c = 0x0d \<or> c = 0x0a then Some (Some buf, s)
     else if c = 0 \<or> c = 0x03 then Some (None, s)
     else if hangup then
       (case ctrlc s of (True, s) \<Rightarrow> Some (None, s) | (False, s) \<Rightarrow> read_chars hangup n (buf @ [c]) s)
     else read_chars hangup n (buf @ [c]) s }"

definition read_record :: "bool \<Rightarrow> nat \<Rightarrow> 'c loader \<Rightarrow> (u8 list option \<times> 'c loader) option" where
  "read_record hangup len s = read_chars hangup (len - 1) [] s"

record load_vars =
  lv_binlen :: int
  lv_addr :: u32
  start_addr :: u32
  end_addr :: u32
  line_count :: nat

text \<open>
  Storing the data of a record: into flash, with the result of \<open>flash_write\<close>, or into memory. A record whose length is
  too short for its address has a negative number of data bytes, which \<open>memcpy\<close> takes for almost
  4 Gbyte: no result is given then.
\<close>

definition store_record :: "'c bus \<Rightarrow> u32 \<Rightarrow> int \<Rightarrow> u8 list \<Rightarrow> 'c loader \<Rightarrow> (int \<times> 'c loader) option" where
  "store_record bus store_addr binlen data s =
     (let env = ld_env s
      in if addr2info (fl_info env) store_addr then do {
           (rc, c) \<leftarrow> flash_write bus (fl_info env) (overwrite (\<lambda>_. 0) 0 data) 0 store_addr (word_of_int binlen) (fl_chip env);
           Some (rc, s\<lparr>ld_env := env\<lparr>fl_chip := c\<rparr>\<rparr>) }
         else if binlen < 0 then None
         else Some (0, s\<lparr>ld_ram := overwrite (ld_ram s) store_addr data\<rparr>))"

definition setenv_hex_of :: "('c \<Rightarrow> mem) \<Rightarrow> (int \<Rightarrow> u8 list \<Rightarrow> int) \<Rightarrow> u8 list \<Rightarrow> u32 \<Rightarrow> 'c loader \<Rightarrow> 'c loader option" where
  "setenv_hex_of view console_assign fmt n s = do {
     (buf, _) \<leftarrow> vsprintf_loop (\<lambda>_. 0) fmt [n] [] [];
     (_, env) \<leftarrow> setenv view console_assign (ld_env s) (ascii ''filesize'') (Some buf);
     Some (s\<lparr>ld_env := env\<rparr>) }"

text \<open>The body of the loop for one record: a value to return, or the variables for the next.\<close>

definition load_record ::
    "'c bus \<Rightarrow> ('c \<Rightarrow> mem) \<Rightarrow> (int \<Rightarrow> u8 list \<Rightarrow> int) \<Rightarrow> u32 \<Rightarrow> u8 list \<Rightarrow> load_vars \<Rightarrow> 'c loader \<Rightarrow>
      ((u32 + load_vars) \<times> 'c loader) option" where
  "load_record bus view console_assign off line v s =
     (case srec_decode line (lv_binlen v) (lv_addr v) of
        (ty, binlen, addr, data) \<Rightarrow>
          let v = v\<lparr>lv_binlen := binlen, lv_addr := addr\<rparr>;
              next_line = (\<lambda>v s.
                let n = line_count v + 1
                in if do_echo s then (Inr v, s)
                   else (Inr (v\<lparr>line_count := n\<rparr>), if n mod 100 = 0 then s\<lparr>ld_out := ld_out s @ [0x2e]\<rparr> else s))
          in if ty < 0 then Some (Inl (NOT 0), s)
             else if ty \<in> {SREC_DATA2, SREC_DATA3, SREC_DATA4} then do {
               let store_addr = addr + off;
               (rc, s) \<leftarrow> store_record bus store_addr binlen data s;
               if rc \<noteq> 0 then Some (Inl (NOT 0), s)
               else
                 (let v = (if store_addr < start_addr v then v\<lparr>start_addr := store_addr\<rparr> else v);
                      last_addr = store_addr + word_of_int binlen - 1;
                      v = (if last_addr > end_addr v then v\<lparr>end_addr := last_addr\<rparr> else v)
                  in Some (next_line v s)) }
             else if ty \<in> {SREC_END2, SREC_END3, SREC_END4} then
               map_option (\<lambda>s. (Inl addr, s))
                 (setenv_hex_of view console_assign (ascii ''%lX'') (end_addr v - start_addr v + 1) s)
             else Some (next_line v s))"

text \<open>Every call of \<open>read_record\<close> takes at least one character off the line.\<close>

lemma line_getc_shorter: "line_getc line = Some (c, line') \<Longrightarrow> length line' < length line"
  by (induction line rule: line_getc.induct) auto

lemma ctrlc_shorter: "ctrlc s = (b, s') \<Longrightarrow> length (ld_line s') \<le> length (ld_line s)"
  by (auto simp: ctrlc_def dest!: line_getc_shorter split: if_splits option.splits)

lemma read_chars_shorter:
  "read_chars hangup n buf s = Some (r, s') \<Longrightarrow> length (ld_line s') + (if n = 0 then 0 else 1) \<le> length (ld_line s)"
proof (induction n arbitrary: buf s)
  case (Suc n)
  from Suc.prems obtain c line where g: "line_getc (ld_line s) = Some (c, line)"
    by (cases "line_getc (ld_line s)") auto
  let ?s = "s\<lparr>ld_line := line, ld_out := (if do_echo s then ld_out s @ [c] else ld_out s)\<rparr>"
  note less = line_getc_shorter [OF g]
  consider "s' = ?s" | "read_chars hangup n (buf @ [c]) ?s = Some (r, s')"
    | s1 where "ctrlc ?s = (True, s1)" "s' = s1"
    | s1 where "ctrlc ?s = (False, s1)" "read_chars hangup n (buf @ [c]) s1 = Some (r, s')"
    using Suc.prems by (auto simp: g Let_def split: if_splits prod.splits bool.splits)
  then show ?case
    using less Suc.IH ctrlc_shorter by cases fastforce+
qed simp

lemma setenv_hex_of_line: "setenv_hex_of view ca fmt n s = Some s' \<Longrightarrow> ld_line s' = ld_line s"
  by (auto simp: setenv_hex_of_def bind_eq_Some_conv)

lemma store_record_line: "store_record bus a n data s = Some (rc, s') \<Longrightarrow> ld_line s' = ld_line s"
  by (auto simp: store_record_def Let_def bind_eq_Some_conv split: if_splits)

lemma load_record_line:
  "load_record bus view ca off line v s = Some (r, s') \<Longrightarrow> ld_line s' = ld_line s"
  by (auto simp: load_record_def Let_def bind_eq_Some_conv dest!: store_record_line setenv_hex_of_line
      split: prod.splits if_splits)

function load_loop ::
    "bool \<Rightarrow> 'c bus \<Rightarrow> ('c \<Rightarrow> mem) \<Rightarrow> (int \<Rightarrow> u8 list \<Rightarrow> int) \<Rightarrow> u32 \<Rightarrow> load_vars \<Rightarrow> 'c loader \<Rightarrow>
      (u32 \<times> 'c loader) option" where
  "load_loop hangup bus view console_assign off v s =
     (case read_record hangup (SREC_MAXRECLEN + 1) s of
        None \<Rightarrow> None
      | Some (None, s1) \<Rightarrow> Some (NOT 0, s1)
      | Some (Some line, s1) \<Rightarrow>
          (case load_record bus view console_assign off line v s1 of
             None \<Rightarrow> None
           | Some (Inl a, s2) \<Rightarrow> Some (a, s2)
           | Some (Inr v2, s2) \<Rightarrow> load_loop hangup bus view console_assign off v2 s2))"
  by pat_completeness auto
termination
  by (relation "measure (\<lambda>(hangup, bus, view, console_assign, off, v, s). length (ld_line s))")
    (auto simp: read_record_def SREC_MAXRECLEN_def dest!: read_chars_shorter load_record_line)

declare load_loop.simps [simp del]

definition load_serial ::
    "bool \<Rightarrow> 'c bus \<Rightarrow> ('c \<Rightarrow> mem) \<Rightarrow> (int \<Rightarrow> u8 list \<Rightarrow> int) \<Rightarrow> u32 \<Rightarrow> 'c loader \<Rightarrow> (u32 \<times> 'c loader) option" where
  "load_serial hangup bus view console_assign off s =
     load_loop hangup bus view console_assign off
       \<lparr>lv_binlen = 0, lv_addr = 0, start_addr = NOT 0, end_addr = 0, line_count = 0\<rparr> s"

text \<open>The polls of the line at the end see a character or a pause each.\<close>

definition gather_trailing :: "'c loader \<Rightarrow> 'c loader" where
  "gather_trailing s = s\<lparr>ld_line := drop 100 (ld_line s)\<rparr>"

text \<open>The arguments are those behind the name of the command.\<close>

definition do_load_serial ::
    "bool \<Rightarrow> 'c bus \<Rightarrow> ('c \<Rightarrow> mem) \<Rightarrow> (int \<Rightarrow> u8 list \<Rightarrow> int) \<Rightarrow> u8 list list \<Rightarrow> 'c loader \<Rightarrow> (int \<times> 'c loader) option" where
  "do_load_serial hangup bus view console_assign args s = do {
     env_echo \<leftarrow> getenv view (ld_env s) (ascii ''loads_echo'');
     let s = s\<lparr>do_echo := (case env_echo of Some (c # _) \<Rightarrow> c = 0x31 | _ \<Rightarrow> False)\<rparr>;
     off \<leftarrow> (if length args = 1 then map_option fst (simple_strtol (string_mem (hd args)) 0 16) else Some 0);
     (addr, s) \<leftarrow> load_serial hangup bus view console_assign off s;
     let s = gather_trailing s;
     Some (if addr = NOT 0 then (1, s) else (0, s\<lparr>ld_env := (ld_env s)\<lparr>load_addr := addr\<rparr>\<rparr>)) }"

subsection \<open>Saving S-records\<close>

text \<open>A byte of memory as the processor reads it, flash included.\<close>

definition read_byte :: "('c \<Rightarrow> mem) \<Rightarrow> 'c loader \<Rightarrow> addr \<Rightarrow> u8" where
  "read_byte view s a = (if addr2info (fl_info (ld_env s)) a then view (fl_chip (ld_env s)) a else ld_ram s a)"

definition SREC3_START :: "u8 list" where "SREC3_START = ascii ''S0030000FC'' @ [0x0a]"
definition SREC3_FORMAT :: "u8 list" where "SREC3_FORMAT = ascii ''S3%02X%08lX%s%02X'' @ [0x0a]"
definition SREC3_END :: "u8 list" where "SREC3_END = ascii ''S70500000000FA'' @ [0x0a]"
definition SREC_BYTES_PER_RECORD :: nat where "SREC_BYTES_PER_RECORD = 16"

definition write_record :: "u8 list \<Rightarrow> 'c loader \<Rightarrow> int \<times> 'c loader" where
  "write_record buf s =
     (case ctrlc (s\<lparr>ld_out := ld_out s @ buf\<rparr>) of (pressed, s) \<Rightarrow> (if pressed then - 1 else 0, s))"

record save_vars =
  sv_address :: u32
  sv_reclen :: nat
  sv_checksum :: int
  sv_data :: "u8 list"

definition hex_digits :: "u8 list" where "hex_digits = ascii ''0123456789ABCDEF''"

definition save_byte :: "u8 \<Rightarrow> save_vars \<Rightarrow> save_vars" where
  "save_byte c v =
     v\<lparr>sv_checksum := sv_checksum v + uint c,
       sv_data := take (2 * sv_reclen v) (sv_data v) @
         [hex_digits ! unat (drop_bit 4 c AND 0x0f), hex_digits ! unat (c AND 0x0f)],
       sv_reclen := sv_reclen v + 1\<rparr>"

text \<open>The record of the collected data; the string \<open>data\<close> is given to \<open>sprintf\<close> at an address of its own.\<close>

definition save_text :: "save_vars \<Rightarrow> u8 list option" where
  "save_text v =
     (let len = 4 + int (sv_reclen v) + 1;
          checksum = sv_checksum v + sum_list (map (\<lambda>i. len div 2 ^ (8 * i) mod 256) [0..<2]);
          checksum = checksum + sum_list (map (\<lambda>i. uint (drop_bit (8 * i) (sv_address v) AND 0xff)) [0..<4]);
          checksum = NOT (word_of_int checksum :: u32) AND 0xff
      in map_option fst
           (vsprintf_loop (overwrite (\<lambda>_. 0) 1 (sv_data v @ [0])) SREC3_FORMAT
             [word_of_int len, sv_address v, 1, checksum] [] []))"

text \<open>What happens behind the collection of a byte, \<open>count\<close> bytes being left: \<open>Inl\<close> is the early return of -1.\<close>

definition save_flush :: "nat \<Rightarrow> save_vars \<Rightarrow> 'c loader \<Rightarrow> ((save_vars option) \<times> 'c loader) option" where
  "save_flush count v s =
     (if sv_reclen v = SREC_BYTES_PER_RECORD \<or> count = 0 then do {
        (rc, s) \<leftarrow> (if sv_reclen v \<noteq> 0 then map_option (\<lambda>text. write_record text s) (save_text v) else Some (0, s));
        Some (if rc \<noteq> 0 then None
              else Some (v\<lparr>sv_address := sv_address v + of_nat (sv_reclen v), sv_checksum := 0, sv_reclen := 0\<rparr>), s) }
      else Some (Some v, s))"

fun save_loop :: "('c \<Rightarrow> mem) \<Rightarrow> nat \<Rightarrow> save_vars \<Rightarrow> 'c loader \<Rightarrow> (bool \<times> 'c loader) option" where
  "save_loop view 0 v s = do { (v, s) \<leftarrow> save_flush 0 v s; Some (v \<noteq> None, s) }"
| "save_loop view (Suc count) v s = do {
     (v, s) \<leftarrow> save_flush count (save_byte (read_byte view s (sv_address v + of_nat (sv_reclen v))) v) s;
     case v of
       None \<Rightarrow> Some (False, s)
     | Some v \<Rightarrow> if count = 0 then Some (True, s) else save_loop view count v s }"

definition save_serial :: "('c \<Rightarrow> mem) \<Rightarrow> u32 \<Rightarrow> u32 \<Rightarrow> 'c loader \<Rightarrow> (int \<times> 'c loader) option" where
  "save_serial view address count s =
     (case write_record SREC3_START s of
        (rc, s) \<Rightarrow>
          if rc \<noteq> 0 then Some (- 1, s)
          else do {
            (ok, s) \<leftarrow> save_loop view (unat count) \<lparr>sv_address = address, sv_reclen = 0, sv_checksum = 0, sv_data = []\<rparr> s;
            if \<not> ok then Some (- 1, s)
            else (case write_record SREC3_END s of (rc, s) \<Rightarrow> Some (if rc \<noteq> 0 then - 1 else 0, s)) })"

definition do_save_serial :: "('c \<Rightarrow> mem) \<Rightarrow> u8 list list \<Rightarrow> 'c loader \<Rightarrow> (int \<times> 'c loader) option" where
  "do_save_serial view args s = do {
     off \<leftarrow> (if 1 \<le> length args then map_option fst (str_strtoul (args ! 0) 16) else Some 0);
     n \<leftarrow> (if length args = 2 then map_option fst (str_strtoul (args ! 1) 16) else Some 0);
     line \<leftarrow> wait_char 0x0d (ld_line s);
     (_, s) \<leftarrow> save_serial view off n (s\<lparr>ld_line := line\<rparr>);
     Some (0, s) }"

subsection \<open>The Kermit download\<close>

text \<open>The characters of a line without the pauses, and the line behind the first \<open>n\<close> characters.\<close>

definition line_chars :: "serial_line \<Rightarrow> u8 list" where
  "line_chars line = List.map_filter (\<lambda>x. x) line"

fun drop_chars :: "nat \<Rightarrow> serial_line \<Rightarrow> serial_line" where
  "drop_chars 0 line = line"
| "drop_chars (Suc n) line = (case line_getc line of None \<Rightarrow> [] | Some (_, line) \<Rightarrow> drop_chars n line)"

text \<open>\<open>k_recv\<close> on the line, the memory and the console of the board; the globals of the receiver are kept.\<close>

definition k_recv_line :: "addr \<Rightarrow> 'c loader \<Rightarrow> (u32 \<times> 'c loader) option" where
  "k_recv_line a s =
     (let cs = line_chars (ld_line s)
      in do {
           (n, k) \<leftarrow> k_recv (set_kerm_bin_mode a ((ld_kermit s)\<lparr>k_in := cs, k_out := ld_out s, k_mem := ld_ram s\<rparr>));
           Some (n, s\<lparr>ld_kermit := k, ld_ram := k_mem k, ld_out := k_out k,
             ld_line := drop_chars (length cs - length (k_in k)) (ld_line s)\<rparr>) })"

definition load_serial_bin ::
    "('c \<Rightarrow> mem) \<Rightarrow> (int \<Rightarrow> u8 list \<Rightarrow> int) \<Rightarrow> addr \<Rightarrow> 'c loader \<Rightarrow> (u32 \<times> 'c loader) option" where
  "load_serial_bin view console_assign off s = do {
     (n, s) \<leftarrow> k_recv_line off s;
     s \<leftarrow> setenv_hex_of view console_assign (ascii ''%X'') n (gather_trailing s);
     Some (off, s) }"

text \<open>The load address of the configuration is the base of the SDRAM.\<close>

definition CONFIG_SYS_LOAD_ADDR :: addr where "CONFIG_SYS_LOAD_ADDR = 0"

definition switch_baudrate :: "u32 \<Rightarrow> u8 \<Rightarrow> 'c loader \<Rightarrow> 'c loader option" where
  "switch_baudrate rate c s =
     map_option (\<lambda>line. s\<lparr>ld_env := (ld_env s)\<lparr>gd_baudrate := rate\<rparr>, ld_line := line\<rparr>) (wait_char c (ld_line s))"

text \<open>\<open>do_load_serial_bin\<close> for the command \<open>loadb\<close>.\<close>

definition do_load_serial_bin ::
    "('c \<Rightarrow> mem) \<Rightarrow> (int \<Rightarrow> u8 list \<Rightarrow> int) \<Rightarrow> u8 list list \<Rightarrow> 'c loader \<Rightarrow> (int \<times> 'c loader) option" where
  "do_load_serial_bin view console_assign args s = do {
     loadaddr \<leftarrow> getenv view (ld_env s) (ascii ''loadaddr'');
     off \<leftarrow> (case loadaddr of
       None \<Rightarrow> Some CONFIG_SYS_LOAD_ADDR | Some text \<Rightarrow> map_option fst (str_strtoul text 16));
     let current_baudrate = gd_baudrate (ld_env s);
     off \<leftarrow> (if 1 \<le> length args then map_option fst (str_strtoul (args ! 0) 16) else Some off);
     load_baudrate \<leftarrow> (if length args = 2 then map_option fst (str_strtoul (args ! 1) 10) else Some current_baudrate);
     let load_baudrate = (if load_baudrate = 0 then current_baudrate else load_baudrate);
     s \<leftarrow> (if load_baudrate \<noteq> current_baudrate then switch_baudrate load_baudrate 0x0d s else Some s);
     (addr, s) \<leftarrow> load_serial_bin view console_assign off s;
     let (rcode, s) =
       (if addr = NOT 0 then (1, s\<lparr>ld_env := (ld_env s)\<lparr>load_addr := 0\<rparr>\<rparr>)
        else (0, s\<lparr>ld_env := (ld_env s)\<lparr>load_addr := addr\<rparr>\<rparr>));
     s \<leftarrow> (if load_baudrate \<noteq> current_baudrate then switch_baudrate current_baudrate 0x1b s else Some s);
     Some (rcode, s) }"

end
