(* ===== verification/Kermit_Line.thy ===== *)
theory Kermit_Line
  imports Kermit
begin

text \<open>
  A Kermit sender and a noisy line for the receiver of \<^verbatim>\<open>Kermit\<close>: quoting, the packets in their short and long form, what
  damage the line may do to them, and the sessions in which every packet is repeated until it has come
  through. The layers that take the characters are given as a \<open>data_sink\<close>; the property is that a file
  sent in such a session is in memory when the receiver returns.
\<close>

section \<open>The sender and the line\<close>

subsection \<open>Quoting\<close>

text \<open>What a text stands for: whether it ends in a quote character, and the bytes.\<close>

definition unquote_char :: "u8 \<Rightarrow> bool \<times> u8 list \<Rightarrow> u8 \<Rightarrow> bool \<times> u8 list" where
  "unquote_char q st c =
     (if fst st then (False, snd st @ [ktrans c]) else if c = q then (True, snd st) else (False, snd st @ [c]))"

definition unquote :: "u8 \<Rightarrow> u8 list \<Rightarrow> bool \<times> u8 list" where
  "unquote q raw = foldl (unquote_char q) (False, []) raw"

text \<open>The sender quotes control characters, with and without the eighth bit, and the quote character.\<close>

definition quote_byte :: "u8 \<Rightarrow> u8 \<Rightarrow> u8 list" where
  "quote_byte q b =
     (if b AND 0x60 = 0 then [q, b OR 0x40] else if b AND 0x7f = 0x7f then [q, b AND NOT 0x40]
      else if b = q then [q, q] else [b])"

definition kermit_encode :: "u8 \<Rightarrow> u8 list \<Rightarrow> u8 list" where
  "kermit_encode q bs = concat (map (quote_byte q) bs)"

subsection \<open>Packets\<close>

definition printable :: "u8 \<Rightarrow> bool" where
  "printable c \<longleftrightarrow> c AND 0xE0 \<noteq> 0"

definition sum_of :: "u8 list \<Rightarrow> int" where
  "sum_of cs = sum_list (map uint cs)"

definition check_of :: "u8 list \<Rightarrow> u8" where
  "check_of cs = tochar (sum_check (sum_of cs))"

text \<open>The header of a packet with a given sequence number and type, and the number of data characters it announces.\<close>

inductive header :: "int \<Rightarrow> u8 \<Rightarrow> nat \<Rightarrow> u8 list \<Rightarrow> bool" where
  short_header: "printable l \<Longrightarrow> untochar l \<noteq> 0 \<Longrightarrow> printable ty \<Longrightarrow>
    header seq ty (nat (untochar l - 3)) [l, tochar seq, ty]"
| long_header: "printable ty \<Longrightarrow> printable hi \<Longrightarrow> printable lo \<Longrightarrow> h = [tochar 0, tochar seq, ty, hi, lo] \<Longrightarrow>
    header seq ty (nat (untochar hi * 95 + untochar lo - 1)) (h @ [check_of h])"

inductive packet :: "int \<Rightarrow> u8 \<Rightarrow> u8 list \<Rightarrow> u8 list \<Rightarrow> bool" where
  packet: "header seq ty (length d) h \<Longrightarrow> \<forall>c \<in> set d. printable c \<Longrightarrow>
    packet seq ty d (START_CHAR # h @ d @ [check_of (h @ d), END_CHAR])"

text \<open>
  A damaged packet: up to the sequence number it is as it was sent; then a control character comes in where none may be,
  or a check is wrong, or the end.
\<close>

inductive damaged :: "int \<Rightarrow> u8 list \<Rightarrow> bool" where
  cut_type: "printable l \<Longrightarrow> \<not> printable c \<Longrightarrow> damaged seq [START_CHAR, l, tochar seq, c]"
| cut_length: "printable ty \<Longrightarrow> \<forall>c \<in> set hs. printable c \<Longrightarrow> length hs \<le> 2 \<Longrightarrow> \<not> printable c \<Longrightarrow>
    damaged seq ([START_CHAR, tochar 0, tochar seq, ty] @ hs @ [c])"
| bad_header: "printable ty \<Longrightarrow> printable hi \<Longrightarrow> printable lo \<Longrightarrow> printable k \<Longrightarrow>
    h = [tochar 0, tochar seq, ty, hi, lo] \<Longrightarrow> k \<noteq> check_of h \<Longrightarrow> damaged seq (START_CHAR # h @ [k])"
| cut_data: "header seq ty n h \<Longrightarrow> \<forall>c \<in> set d. printable c \<Longrightarrow> length d \<le> n \<Longrightarrow> \<not> printable c \<Longrightarrow>
    damaged seq (START_CHAR # h @ d @ [c])"
| bad_check: "header seq ty (length d) h \<Longrightarrow> \<forall>c \<in> set d. printable c \<Longrightarrow> printable k \<Longrightarrow> k \<noteq> check_of (h @ d) \<Longrightarrow>
    damaged seq (START_CHAR # h @ d @ [k])"
| bad_end: "header seq ty (length d) h \<Longrightarrow> \<forall>c \<in> set d. printable c \<Longrightarrow> e \<noteq> END_CHAR \<Longrightarrow>
    damaged seq (START_CHAR # h @ d @ [check_of (h @ d), e])"

text \<open>Between packets anything may come in that is neither the start of a packet nor Control-C.\<close>

definition quiet :: "u8 list \<Rightarrow> bool" where
  "quiet cs \<longleftrightarrow> START_CHAR \<notin> set cs \<and> ETX_CHAR \<notin> set cs"

text \<open>
  A packet is delivered by any number of damaged and good copies; the last one is good. A good copy comes again
  when its acknowledgement has been lost, except for the one that ends the transmission.
\<close>

inductive delivered :: "int \<Rightarrow> u8 \<Rightarrow> u8 list \<Rightarrow> u8 list \<Rightarrow> bool" where
  arrives: "packet seq ty d cs \<Longrightarrow> quiet junk \<Longrightarrow> delivered seq ty d (junk @ cs)"
| is_damaged: "damaged seq cs \<Longrightarrow> quiet junk \<Longrightarrow> delivered seq ty d line \<Longrightarrow> delivered seq ty d (junk @ cs @ line)"
| comes_again: "packet seq ty d cs \<Longrightarrow> ty \<noteq> BREAK_TYPE \<Longrightarrow> quiet junk \<Longrightarrow> delivered seq ty d line \<Longrightarrow>
    delivered seq ty d (junk @ cs @ line)"

inductive session :: "int \<Rightarrow> (u8 \<times> u8 list) list \<Rightarrow> u8 list \<Rightarrow> bool" where
  session_end: "session seq [] []"
| session_step: "delivered seq ty d line \<Longrightarrow> session ((seq + 1) mod 64) ps lines \<Longrightarrow>
    session seq ((ty, d) # ps) (line @ lines)"

text \<open>The text that the data packets of a session carry, and the quote character that the first packet asks for.\<close>

definition data_text :: "(u8 \<times> u8 list) list \<Rightarrow> u8 list" where
  "data_text ps = concat (map snd (filter (\<lambda>(ty, d). ty = DATA_TYPE) ps))"

definition quote_of :: "u8 list \<Rightarrow> u8" where
  "quote_of parms = (if 6 \<le> length parms then parms ! 5 else K_ESCAPE)"

text \<open>A short packet as a sender writes it, and a session to try the receiver on: the data packet comes damaged first.\<close>

definition kermit_packet :: "int \<Rightarrow> u8 \<Rightarrow> u8 list \<Rightarrow> u8 list" where
  "kermit_packet seq ty d =
     (let h = [tochar (int (length d) + 3), tochar seq, ty] in START_CHAR # h @ d @ [check_of (h @ d), END_CHAR])"

definition sample_damaged :: "u8 list" where
  "sample_damaged = START_CHAR # [tochar 6, tochar 1, DATA_TYPE] @ [0x41, 0x23, 0x42] @
     [check_of [tochar 6, tochar 1, DATA_TYPE, 0x41, 0x23, 0x40]]"

definition sample_line :: "u8 list" where
  "sample_line = kermit_packet 0 SEND_TYPE [] @ sample_damaged @ [0x0d] @ kermit_packet 1 DATA_TYPE [0x41, 0x23, 0x40] @
     kermit_packet 2 BREAK_TYPE []"

definition sample_lossy_line :: "u8 list" where
  "sample_lossy_line = kermit_packet 0 SEND_TYPE [] @ kermit_packet 1 DATA_TYPE [0x41] @ [START_CHAR, 0] @
     kermit_packet 2 DATA_TYPE [0x43] @ kermit_packet 3 BREAK_TYPE []"

definition sample_kermit :: "u8 list \<Rightarrow> kermit" where
  "sample_kermit line =
     \<lparr>k_in = line, k_out = [], k_mem = (\<lambda>_. 0), his_eol = 0, his_pad_count = 0, his_pad_char = 0, his_quote = 0,
      os_data_state = 0, os_data_state_saved = 0, os_data_addr = 0, os_data_addr_saved = 0, bin_start_address = 0,
      k_data_escape = False, k_data_escape_saved = False, send_parms = replicate 20 0, send_ptr = 0, k_state = 0,
      k_state_saved = 0, k_sum = 0, k_length = 0, k_n = 0, k_last_n = 0\<rparr>"

section \<open>Taking characters, with a checkpoint\<close>

text \<open>
  What the receiver expects of the layer that takes the characters: \<open>holds ck xs s\<close> says that \<open>xs\<close> has been taken and that
  \<open>ck\<close> had been taken at the last checkpoint.
\<close>

locale data_sink =
  fixes put :: "'c \<Rightarrow> 's \<Rightarrow> 's" and save :: "'s \<Rightarrow> 's" and restore :: "'s \<Rightarrow> 's"
    and holds :: "'c list \<Rightarrow> 'c list \<Rightarrow> 's \<Rightarrow> bool" and room :: nat
  assumes put: "holds ck xs s \<Longrightarrow> length xs < room \<Longrightarrow> holds ck (xs @ [c]) (put c s)"
    and save: "holds ck xs s \<Longrightarrow> holds xs xs (save s)"
    and restore: "holds ck xs s \<Longrightarrow> holds ck ck (restore s)"
begin

lemma put_all: "holds ck xs s \<Longrightarrow> length xs + length cs \<le> room \<Longrightarrow> holds ck (xs @ cs) (fold put cs s)"
proof (induction cs arbitrary: xs s)
  case (Cons c cs)
  then have "holds ck (xs @ [c]) (put c s)" by (intro put) simp_all
  from Cons.IH [OF this] Cons.prems(2) show ?case by simp
qed simp

lemma retry:
  assumes "holds ck xs s" and "length xs + length cs \<le> room"
  shows "holds xs xs (restore (fold put cs (save s)))"
  using put_all [OF save [OF assms(1)] assms(2)] by (rule restore)

end

definition os_holds :: "addr \<Rightarrow> u8 list \<Rightarrow> u8 list \<Rightarrow> kermit \<Rightarrow> bool" where
  "os_holds base ck xs s \<longleftrightarrow>
     os_data_state s = 0 \<and> os_data_state_saved s = 0 \<and> bin_start_address s = base \<and>
     os_data_addr s = base + of_nat (length xs) \<and> os_data_addr_saved s = base + of_nat (length ck) \<and>
     load (k_mem s) base (length xs) = xs \<and> take (length ck) xs = ck"

definition k_holds :: "u8 \<Rightarrow> addr \<Rightarrow> u8 list \<Rightarrow> u8 list \<Rightarrow> kermit \<Rightarrow> bool" where
  "k_holds q base ck raw s \<longleftrightarrow>
     os_holds base (snd (unquote q ck)) (snd (unquote q raw)) s \<and> k_data_escape s = fst (unquote q raw) \<and>
     k_data_escape_saved s = fst (unquote q ck) \<and> his_quote s = q"

lemma load_put:
  assumes "load m p n = xs" and "n < 2 ^ 32"
  shows "load (m(p + of_nat n := c)) p (Suc n) = xs @ [c]"
proof (rule nth_equalityI)
  show "length (load (m(p + of_nat n := c)) p (Suc n)) = length (xs @ [c])" using assms(1) by auto
  fix i assume "i < length (load (m(p + of_nat n := c)) p (Suc n))"
  then have i: "i < Suc n" by simp
  then have "(of_nat i :: u32) = of_nat n \<longleftrightarrow> i = n" using assms(2) by (intro of_nat_eq32) simp_all
  with i assms(1) show "load (m(p + of_nat n := c)) p (Suc n) ! i = (xs @ [c]) ! i"
    by (auto simp: nth_append less_Suc_eq)
qed

interpretation os_sink: data_sink bin_data_char os_data_save os_data_restore "os_holds base" "2 ^ 32" for base
proof
  fix ck xs s c
  assume h: "os_holds base ck xs s"
  then have "length ck \<le> length xs" by (auto simp: os_holds_def dest: arg_cong [where f = length])
  then show "os_holds base ck (xs @ [c]) (bin_data_char c s)" if "length xs < 2 ^ 32"
    using h that load_put [of "k_mem s" base "length xs" xs c]
    by (auto simp: os_holds_def bin_data_char_def ac_simps)
  show "os_holds base xs xs (os_data_save s)"
    using h by (simp add: os_holds_def os_data_save_def)
  show "os_holds base ck ck (os_data_restore s)"
    using h load_take [of "k_mem s" base "length xs" xs "length ck"] \<open>length ck \<le> length xs\<close>
    by (simp add: os_holds_def os_data_restore_def)
qed

lemma unquote_Nil [simp]: "unquote q [] = (False, [])"
  by (simp add: unquote_def)

lemma unquote_snoc: "unquote q (raw @ [c]) = unquote_char q (unquote q raw) c"
  by (simp add: unquote_def)

lemma length_unquote: "length (snd (unquote q raw)) \<le> length raw"
  by (induction raw rule: rev_induct) (auto simp: unquote_snoc unquote_char_def)

interpretation k_sink: data_sink k_data_char k_data_save k_data_restore "k_holds q base" "2 ^ 32" for q base
proof
  fix ck xs s c
  assume h: "k_holds q base ck xs s"
  have put: "os_holds base (snd (unquote q ck)) (snd (unquote q xs) @ [b]) (bin_data_char b s)" if "length xs < 2 ^ 32" for b
    using h that length_unquote [of q xs] by (intro os_sink.put) (simp_all add: k_holds_def)
  show "k_holds q base ck (xs @ [c]) (k_data_char c s)" if "length xs < 2 ^ 32"
    using h put [OF that, of c] put [OF that, of "ktrans c"]
    by (auto simp: k_holds_def unquote_snoc unquote_char_def k_data_char_def os_holds_def bin_data_char_def split: if_splits)
  show "k_holds q base xs xs (k_data_save s)"
    using h os_sink.save [of base "snd (unquote q ck)" "snd (unquote q xs)" s]
    by (auto simp: k_holds_def k_data_save_def os_holds_def os_data_save_def)
  show "k_holds q base ck ck (k_data_restore s)"
    using h os_sink.restore [of base "snd (unquote q ck)" "snd (unquote q xs)" s]
    by (auto simp: k_holds_def k_data_restore_def os_holds_def os_data_restore_def)
qed

text \<open>Only the fields of the two layers matter.\<close>

lemma k_holds_frame [simp]:
  "k_holds q base ck xs (s\<lparr>k_in := x\<rparr>) = k_holds q base ck xs s"
  "k_holds q base ck xs (s\<lparr>k_out := x\<rparr>) = k_holds q base ck xs s"
  "k_holds q base ck xs (s\<lparr>k_sum := i\<rparr>) = k_holds q base ck xs s"
  "k_holds q base ck xs (s\<lparr>k_length := i\<rparr>) = k_holds q base ck xs s"
  "k_holds q base ck xs (s\<lparr>k_n := i\<rparr>) = k_holds q base ck xs s"
  "k_holds q base ck xs (s\<lparr>k_last_n := i\<rparr>) = k_holds q base ck xs s"
  "k_holds q base ck xs (s\<lparr>k_state := c\<rparr>) = k_holds q base ck xs s"
  "k_holds q base ck xs (s\<lparr>k_state_saved := c\<rparr>) = k_holds q base ck xs s"
  "k_holds q base ck xs (s\<lparr>send_ptr := n\<rparr>) = k_holds q base ck xs s"
  "k_holds q base ck xs (s\<lparr>send_parms := x\<rparr>) = k_holds q base ck xs s"
  by (simp_all add: k_holds_def os_holds_def)

section \<open>Quoting and its inverse\<close>

lemma quote_byte_inverse:
  assumes "ktrans q = q"
  shows "foldl (unquote_char q) (False, bs) (quote_byte q b) = (False, bs @ [b])"
proof -
  have "ktrans (b OR 0x40) = b" if "b AND 0x60 = 0"
  proof -
    have "(b OR 0x40) AND 0x60 = 0x40" "(b OR 0x40) AND NOT 0x40 = b"
      using that unfolding u8_eq by (simp_all add: bit_simps)
    then show ?thesis by (simp add: ktrans_def)
  qed
  moreover have "ktrans (b AND NOT 0x40) = b" if "b AND 0x7f = 0x7f"
  proof -
    have "(b AND NOT 0x40) AND 0x60 \<noteq> 0x40" "(b AND NOT 0x40) AND 0x7f = 0x3f" "(b AND NOT 0x40) OR 0x40 = b"
      using that unfolding u8_eq by (simp_all add: bit_simps)
    then show ?thesis by (simp add: ktrans_def)
  qed
  ultimately show ?thesis
    using assms by (simp add: quote_byte_def unquote_char_def)
qed

lemma unquote_encode:
  assumes "ktrans q = q"
  shows "unquote q (kermit_encode q bs) = (False, bs)"
proof -
  have "foldl (unquote_char q) (False, as) (kermit_encode q bs) = (False, as @ bs)" for as
  proof (induction bs arbitrary: as)
    case (Cons b bs)
    have "foldl (unquote_char q) (False, as) (quote_byte q b) = (False, as @ [b])"
      by (rule quote_byte_inverse [OF assms])
    with Cons show ?case by (simp add: kermit_encode_def)
  qed (simp add: kermit_encode_def)
  then show ?thesis by (simp add: unquote_def)
qed

section \<open>Reading a packet\<close>

lemma k_then_simps [simp]:
  "k_then None f = None" "k_then (Some (Inl s)) f = Some (Inl s)" "k_then (Some (Inr x)) f = f x"
  by (simp_all add: k_then_def)

lemma k_then_assoc: "k_then (k_then p f) g = k_then p (\<lambda>x. k_then (f x) g)"
  by (simp add: k_then_def split: option.split sum.split)

lemma k_char_cases:
  "k_char s = (case k_in s of [] \<Rightarrow> None
    | c # cs \<Rightarrow> if printable c then Some (Inr (c, s\<lparr>k_in := cs\<rparr>)) else Some (Inl (s\<lparr>k_in := cs\<rparr>)))"
  "k_sum_char s = (case k_in s of [] \<Rightarrow> None
    | c # cs \<Rightarrow> if printable c then Some (Inr (c, s\<lparr>k_in := cs, k_sum := k_sum s + uint c\<rparr>)) else Some (Inl (s\<lparr>k_in := cs\<rparr>)))"
  by (auto simp: k_char_def k_sum_char_def printable_def split: list.split)

lemma tochar_inverse [simp]:
  assumes "0 \<le> n" and "n < 256"
  shows "untochar (tochar n) = n"
proof -
  have "uint (tochar n) = (n + 32) mod 256"
    unfolding tochar_def K_SPACE_def by (subst uint_word_of_int) simp
  with assms show ?thesis by (simp add: untochar_def K_SPACE_def mod_diff_left_eq)
qed

lemma printable_tochar: "0 \<le> n \<Longrightarrow> n < 95 \<Longrightarrow> printable (tochar n)"
proof -
  assume n: "0 \<le> n" "n < 95"
  have "\<forall>i \<in> set [0..94]. printable (tochar i)" by code_simp
  with n show ?thesis by simp
qed

lemma k_sequence_frame:
  "k_sequence (s\<lparr>k_in := x\<rparr>) = (k_sequence s)\<lparr>k_in := x\<rparr>"
  "k_sequence (s\<lparr>k_sum := i\<rparr>) = (k_sequence s)\<lparr>k_sum := i\<rparr>"
  "k_sequence (s\<lparr>k_length := i\<rparr>) = (k_sequence s)\<lparr>k_length := i\<rparr>"
  "k_sum (k_sequence s) = k_sum s" "k_length (k_sequence s) = k_length s" "k_n (k_sequence s) = k_n s"
  "k_last_n (k_sequence s) = k_n s" "send_ptr (k_sequence s) = send_ptr s" "send_parms (k_sequence s) = send_parms s"
  by (simp_all add: k_sequence_def k_data_save_def os_data_save_def k_data_restore_def os_data_restore_def)

lemma k_take_frame:
  "k_take c (s\<lparr>k_in := x\<rparr>) = (k_take c s)\<lparr>k_in := x\<rparr>"
  "k_take c (s\<lparr>k_sum := i\<rparr>) = (k_take c s)\<lparr>k_sum := i\<rparr>"
  "k_take c (s\<lparr>k_length := i\<rparr>) = (k_take c s)\<lparr>k_length := i\<rparr>"
  "k_sum (k_take c s) = k_sum s" "k_length (k_take c s) = k_length s" "k_n (k_take c s) = k_n s"
  "k_last_n (k_take c s) = k_last_n s" "k_state (k_take c s) = k_state s"
  by (simp_all add: k_take_def k_data_char_def bin_data_char_def Let_def)

lemma fold_k_take_frame:
  "fold k_take d (s\<lparr>k_in := x\<rparr>) = (fold k_take d s)\<lparr>k_in := x\<rparr>"
  "fold k_take d (s\<lparr>k_sum := i\<rparr>) = (fold k_take d s)\<lparr>k_sum := i\<rparr>"
  "fold k_take d (s\<lparr>k_length := i\<rparr>) = (fold k_take d s)\<lparr>k_length := i\<rparr>"
  "k_sum (fold k_take d s) = k_sum s" "k_length (fold k_take d s) = k_length s" "k_n (fold k_take d s) = k_n s"
  "k_last_n (fold k_take d s) = k_last_n s" "k_state (fold k_take d s) = k_state s"
  by (induction d arbitrary: s) (simp_all add: k_take_frame)

lemma sum_of_simps [simp]: "sum_of [] = 0" "sum_of (c # cs) = uint c + sum_of cs" "sum_of (as @ bs) = sum_of as + sum_of bs"
  by (simp_all add: sum_of_def)

text \<open>The state when the header has been read, and when \<open>d\<close> has been read as well.\<close>

definition after_header :: "int \<Rightarrow> u8 \<Rightarrow> kermit \<Rightarrow> kermit" where
  "after_header seq ty s = (k_sequence (s\<lparr>k_n := seq\<rparr>))\<lparr>k_state := ty\<rparr>"

lemma k_header_read:
  assumes "0 \<le> seq" "seq < 64" "printable l" "printable ty" "k_in s = l # tochar seq # ty # rest"
  shows "k_header s = Some (Inr ((after_header seq ty s)
    \<lparr>k_in := rest, k_sum := sum_of [l, tochar seq, ty], k_length := untochar l - 2\<rparr>))"
proof -
  have "k_header s = Some (Inr ((k_sequence (s\<lparr>k_length := untochar l, k_in := ty # rest,
      k_sum := uint l + uint (tochar seq), k_n := seq\<rparr>))
    \<lparr>k_in := rest, k_sum := uint l + uint (tochar seq) + uint ty, k_state := ty, k_length := untochar l - 2\<rparr>))"
    using assms printable_tochar [of seq] by (simp add: k_header_def k_char_cases k_sequence_frame)
  also have "\<dots> = Some (Inr ((after_header seq ty s)
    \<lparr>k_in := rest, k_sum := sum_of [l, tochar seq, ty], k_length := untochar l - 2\<rparr>))"
    by (auto intro!: kermit.equality simp: after_header_def k_sequence_def k_data_save_def os_data_save_def
        k_data_restore_def os_data_restore_def)
  finally show ?thesis .
qed

lemma k_header_cut:
  assumes "0 \<le> seq" "seq < 64" "printable l" "\<not> printable c" "k_in s = l # tochar seq # c # rest"
  shows "k_header s = Some (Inl ((after_header seq ty s)
    \<lparr>k_in := rest, k_sum := sum_of [l, tochar seq], k_length := untochar l - 1, k_state := k_state (k_sequence (s\<lparr>k_n := seq\<rparr>))\<rparr>))"
proof -
  have "k_header s = Some (Inl ((k_sequence (s\<lparr>k_length := untochar l, k_in := c # rest,
      k_sum := uint l + uint (tochar seq), k_n := seq\<rparr>))\<lparr>k_length := untochar l - 1, k_in := rest\<rparr>))"
    using assms printable_tochar [of seq] by (simp add: k_header_def k_char_cases k_sequence_frame)
  also have "\<dots> = Some (Inl ((after_header seq ty s)
    \<lparr>k_in := rest, k_sum := sum_of [l, tochar seq], k_length := untochar l - 1, k_state := k_state (k_sequence (s\<lparr>k_n := seq\<rparr>))\<rparr>))"
    by (auto intro!: kermit.equality simp: after_header_def k_sequence_def k_data_save_def os_data_save_def
        k_data_restore_def os_data_restore_def)
  finally show ?thesis .
qed

lemma header_read:
  assumes "header seq ty n h" and seq: "0 \<le> seq" "seq < 64" and "k_in s = h @ rest"
  shows "\<exists>l. nat (l - 1) = n \<and>
    k_then (k_header s) k_extended = Some (Inr ((after_header seq ty s)\<lparr>k_in := rest, k_sum := sum_of h, k_length := l\<rparr>))"
  using assms
proof cases
  case (short_header l)
  then have "k_in s = l # tochar seq # ty # rest" using assms(4) by simp
  from k_header_read [OF seq _ _ this] short_header show ?thesis
    by (intro exI [of _ "untochar l - 2"]) (simp add: k_extended_def)
next
  case (long_header hi lo h')
  then have "k_in s = tochar 0 # tochar seq # ty # hi # lo # check_of h' # rest" using assms(4) by simp
  note k_header_read [OF seq _ _ this]
  moreover have "printable (check_of h')"
    unfolding check_of_def sum_check_def by (rule printable_tochar) auto
  ultimately show ?thesis
    using long_header printable_tochar [of 0]
    by (intro exI [of _ "untochar hi * 95 + untochar lo"])
      (simp add: k_extended_def k_char_cases check_of_def add.assoc)
qed

lemma k_body_read:
  assumes "k_in s = d @ rest" and "\<forall>c \<in> set d. printable c"
  shows "k_body (length d + m) s = k_body m ((fold k_take d s)
    \<lparr>k_in := rest, k_sum := k_sum s + sum_of d, k_length := k_length s - int (length d)\<rparr>)"
  using assms
proof (induction d arbitrary: s)
  case (Cons c d)
  let ?s = "(k_take c s)\<lparr>k_in := d @ rest, k_sum := k_sum s + uint c, k_length := k_length s - 1\<rparr>"
  have "k_body (length (c # d) + m) s = k_body (length d + m) ?s"
    using Cons.prems by (simp add: k_char_cases k_take_frame)
  also have "\<dots> = k_body m ((fold k_take d ?s)
      \<lparr>k_in := rest, k_sum := k_sum ?s + sum_of d, k_length := k_length ?s - int (length d)\<rparr>)"
    using Cons.prems by (intro Cons.IH) simp_all
  finally show ?case by (simp add: fold_k_take_frame add.assoc diff_diff_eq)
next
  case Nil
  then have "s\<lparr>k_in := rest\<rparr> = s" by (cases s) simp
  then show ?case by simp
qed

text \<open>What a packet adds to the text received.\<close>

definition gain :: "u8 \<Rightarrow> u8 list \<Rightarrow> u8 list" where
  "gain ty d = (if ty = DATA_TYPE then d else [])"

lemma k_holds_taken:
  assumes "k_holds q base ck xs s" and "length xs + length d \<le> 2 ^ 32"
  shows "k_holds q base ck (xs @ gain (k_state s) d) (fold k_take d s)"
proof (cases "k_state s = DATA_TYPE")
  case True
  then have "fold k_take d s = fold k_data_char d s"
  proof (induction d arbitrary: s)
    case (Cons c d)
    have "k_state (k_data_char c s) = k_state s" by (simp add: k_data_char_def bin_data_char_def)
    with Cons show ?case by (simp add: k_take_def)
  qed simp
  with k_sink.put_all [OF assms] True show ?thesis by (simp add: gain_def)
next
  case False
  then have "k_holds q base ck xs (fold k_take d s) = k_holds q base ck xs s"
  proof (induction d arbitrary: s)
    case (Cons c d)
    then have "k_holds q base ck xs (k_take c s) = k_holds q base ck xs s" by (simp add: k_take_def Let_def)
    with Cons show ?case by (simp add: k_take_frame)
  qed simp
  with False assms show ?thesis by (simp add: gain_def)
qed

text \<open>A copy of packet \<open>seq\<close> may come: the text in front of this packet is \<open>before\<close>.\<close>

definition at_start :: "u8 \<Rightarrow> addr \<Rightarrow> int \<Rightarrow> u8 list \<Rightarrow> kermit \<Rightarrow> bool" where
  "at_start q base seq before s \<longleftrightarrow>
     (if k_last_n s = seq then \<exists>xs. k_holds q base before xs s else \<exists>ck. k_holds q base ck before s)"

lemma at_start_frame [simp]:
  "at_start q base seq before (s\<lparr>k_in := x\<rparr>) = at_start q base seq before s"
  "at_start q base seq before (s\<lparr>send_ptr := n\<rparr>) = at_start q base seq before s"
  by (simp_all add: at_start_def)

lemma after_header_holds:
  assumes "at_start q base seq before s"
  shows "k_holds q base before before (after_header seq ty s)"
  using assms k_sink.save [of q base _ before "s\<lparr>k_n := seq, k_last_n := seq, k_state_saved := k_state s\<rparr>"]
    k_sink.restore [of q base before _ "s\<lparr>k_n := seq, k_state := k_state_saved s\<rparr>"]
  by (auto simp: at_start_def after_header_def k_sequence_def split: if_splits)

lemma after_header_simps [simp]:
  "k_n (after_header seq ty s) = seq" "k_last_n (after_header seq ty s) = seq" "k_state (after_header seq ty s) = ty"
  "send_ptr (after_header seq ty s) = send_ptr s" "send_parms (after_header seq ty s) = send_parms s"
  by (simp_all add: after_header_def k_sequence_frame)

lemma k_packet_read:
  assumes h: "header seq ty n h" and seq: "0 \<le> seq" "seq < 64" and "k_in s = h @ d @ rest"
    and "\<forall>c \<in> set d. printable c" and n: "length d \<le> n"
  obtains l where "k_packet s = k_then (k_body (n - length d) ((fold k_take d (after_header seq ty s))
    \<lparr>k_in := rest, k_sum := sum_of (h @ d), k_length := l\<rparr>)) k_trailer"
proof -
  obtain l where l: "nat (l - 1) = n" "k_then (k_header s) k_extended =
      Some (Inr ((after_header seq ty s)\<lparr>k_in := d @ rest, k_sum := sum_of h, k_length := l\<rparr>))"
    using header_read [OF h seq assms(4)] by blast
  then have "k_packet s = k_then (k_body n ((after_header seq ty s)\<lparr>k_in := d @ rest, k_sum := sum_of h, k_length := l\<rparr>)) k_trailer"
    by (simp add: k_packet_def k_then_assoc [symmetric])
  then show ?thesis
    using that k_body_read [of "(after_header seq ty s)\<lparr>k_in := d @ rest, k_sum := sum_of h, k_length := l\<rparr>" d rest "n - length d"]
      assms(5) n by (simp add: fold_k_take_frame)
qed

lemma printable_check: "printable (check_of cs)"
  unfolding check_of_def sum_check_def by (rule printable_tochar) auto

lemma k_packet_good:
  assumes p: "packet seq ty d (START_CHAR # cs)" and seq: "0 \<le> seq" "seq < 64" and "k_in s = cs @ rest"
  obtains l sm where "k_packet s = Some (Inr ((fold k_take d (after_header seq ty s))\<lparr>k_sum := sm, k_length := l, k_in := rest\<rparr>))"
  using p
proof cases
  case (packet h)
  then have "k_in s = h @ d @ check_of (h @ d) # END_CHAR # rest" using assms(4) by simp
  from k_packet_read [OF packet(2) seq this packet(3) order_refl]
  obtain l where "k_packet s = k_then (k_body (length d - length d) ((fold k_take d (after_header seq ty s))
    \<lparr>k_in := check_of (h @ d) # END_CHAR # rest, k_sum := sum_of (h @ d), k_length := l\<rparr>)) k_trailer" .
  then show ?thesis
    using that printable_check [of "h @ d"] by (simp add: k_trailer_def k_char_cases check_of_def)
qed

text \<open>After a damaged copy the text at the checkpoint is the one in front of the packet.\<close>

lemma length_send_parms [simp]: "length (send_parms (fold k_take d s)) = length (send_parms s)"
proof (induction d arbitrary: s)
  case (Cons c d)
  have "length (send_parms (k_take c s)) = length (send_parms s)"
    by (simp add: k_take_def Let_def k_data_char_def bin_data_char_def)
  with Cons show ?case by simp
qed simp

definition after_damage :: "u8 \<Rightarrow> addr \<Rightarrow> int \<Rightarrow> u8 list \<Rightarrow> u8 list \<Rightarrow> kermit \<Rightarrow> kermit \<Rightarrow> bool" where
  "after_damage q base seq before rest s s' \<longleftrightarrow>
     k_in s' = rest \<and> k_n s' = seq \<and> k_last_n s' = seq \<and> length (send_parms s') = length (send_parms s) \<and>
     (\<exists>xs. k_holds q base before xs s')"

lemma k_packet_damaged:
  assumes dam: "damaged seq (START_CHAR # cs)" and seq: "0 \<le> seq" "seq < 64" and line: "k_in s = cs @ rest"
    and start: "at_start q base seq before s" and room: "length before + length (k_in s) \<le> 2 ^ 32"
  shows "\<exists>s'. k_packet s = Some (Inl s') \<and> after_damage q base seq before rest s s'"
proof -
  have held: "\<exists>xs. k_holds q base before xs (fold k_take d (after_header seq ty s))"
    if "length d \<le> length (k_in s)" for d ty
    using k_holds_taken [OF after_header_holds [OF start], of d ty] that room by fastforce
  have read: "\<exists>s'. k_packet s = Some (Inl s') \<and> after_damage q base seq before rest s s'"
    if h: "header seq ty n h" and d: "\<forall>c \<in> set d. printable c" "length d \<le> n" and cs: "cs = h @ d @ e"
      and e: "\<And>l. \<exists>sm l'. k_then (k_body (n - length d) ((fold k_take d (after_header seq ty s))
          \<lparr>k_in := e @ rest, k_sum := sum_of (h @ d), k_length := l\<rparr>)) k_trailer =
        Some (Inl ((fold k_take d (after_header seq ty s))\<lparr>k_sum := sm, k_length := l', k_in := rest\<rparr>))"
    for ty n h d e
  proof -
    have "k_in s = h @ d @ e @ rest" using line cs by simp
    from k_packet_read [OF h seq this d] e obtain sm l' where
      "k_packet s = Some (Inl ((fold k_take d (after_header seq ty s))\<lparr>k_sum := sm, k_length := l', k_in := rest\<rparr>))"
      by metis
    moreover have "length d \<le> length (k_in s)" using line cs by simp
    ultimately show ?thesis
      using held [of d ty] by (simp add: after_damage_def fold_k_take_frame)
  qed
  show ?thesis
    using dam
  proof cases
    case (cut_data ty n h d c)
    show ?thesis
    proof (rule read [OF cut_data(2,3,4)])
      show "cs = h @ d @ [c]" using cut_data(1) by simp
      show "\<exists>sm l'. k_then (k_body (n - length d) ((fold k_take d (after_header seq ty s))
          \<lparr>k_in := [c] @ rest, k_sum := sum_of (h @ d), k_length := l\<rparr>)) k_trailer =
        Some (Inl ((fold k_take d (after_header seq ty s))\<lparr>k_sum := sm, k_length := l', k_in := rest\<rparr>))" for l
        using cut_data(5) by (cases "n - length d") (auto simp: k_char_cases k_trailer_def)
    qed
  next
    case (bad_check ty d h k)
    show ?thesis
      by (rule read [OF bad_check(2,3) order_refl, of "[k]"])
        (use bad_check in \<open>auto simp: k_trailer_def k_char_cases check_of_def\<close>)
  next
    case (bad_end ty d h e)
    show ?thesis
      by (rule read [OF bad_end(2,3) order_refl, of "[check_of (h @ d), e]"])
        (use bad_end printable_check [of "h @ d"] in \<open>auto simp: k_trailer_def k_char_cases check_of_def\<close>)
  next
    case (cut_type l c)
    then have "k_in s = l # tochar seq # c # rest" using line by simp
    from k_header_cut [OF seq cut_type(2,3) this, of 0] show ?thesis
      using after_header_holds [OF start, of 0] by (auto simp: k_packet_def after_damage_def)
  next
    case (cut_length ty hs c)
    then have "k_in s = tochar 0 # tochar seq # ty # hs @ c # rest" using line by simp
    from k_header_read [OF seq printable_tochar [of 0] cut_length(2) this]
    have "k_packet s = k_then (k_extended ((after_header seq ty s)
        \<lparr>k_in := hs @ c # rest, k_sum := sum_of [tochar 0, tochar seq, ty], k_length := - 2\<rparr>))
      (\<lambda>s. k_then (k_body (nat (k_length s - 1)) s) k_trailer)"
      by (simp add: k_packet_def)
    moreover have "hs = [] \<or> (\<exists>x. hs = [x]) \<or> (\<exists>x y. hs = [x, y])"
      using cut_length(4) by (auto simp: le_Suc_eq numeral_2_eq_2 length_Suc_conv)
    ultimately show ?thesis
      using cut_length(3,5) after_header_holds [OF start, of ty]
      by (auto simp: k_extended_def k_char_cases after_damage_def)
  next
    case (bad_header ty hi lo k h)
    then have "k_in s = tochar 0 # tochar seq # ty # hi # lo # k # rest" using line by simp
    from k_header_read [OF seq printable_tochar [of 0] bad_header(2) this]
    have "k_packet s = k_then (k_extended ((after_header seq ty s)
        \<lparr>k_in := hi # lo # k # rest, k_sum := sum_of [tochar 0, tochar seq, ty], k_length := - 2\<rparr>))
      (\<lambda>s. k_then (k_body (nat (k_length s - 1)) s) k_trailer)"
      by (simp add: k_packet_def)
    then show ?thesis
      using bad_header after_header_holds [OF start, of ty]
      by (auto simp: k_extended_def k_char_cases after_damage_def check_of_def add.assoc)
  qed
qed

section \<open>One turn of the receiver\<close>

lemma k_wait_quiet: "quiet junk \<Longrightarrow> k_wait (junk @ START_CHAR # cs) = Some (True, cs)"
  by (induction junk) (auto simp: quiet_def)

lemma starts:
  "packet seq ty d cs \<Longrightarrow> \<exists>cs'. cs = START_CHAR # cs'" "damaged seq cs \<Longrightarrow> \<exists>cs'. cs = START_CHAR # cs'"
  by (auto elim!: packet.cases damaged.cases)

lemma k_data_frame:
  "k_n (k_data_restore s) = k_n s" "k_last_n (k_data_restore s) = k_last_n s" "send_parms (k_data_restore s) = send_parms s"
  by (simp_all add: k_data_restore_def os_data_restore_def)

lemma turn_damaged:
  assumes dam: "damaged seq cs" "quiet junk" and seq: "0 \<le> seq" "seq < 64" and line: "k_in s = junk @ cs @ rest"
    and start: "at_start q base seq before s" and room: "length before + length (k_in s) \<le> 2 ^ 32"
  shows "\<exists>s'. k_turn s = Some (None, s') \<and> k_in s' = rest \<and> at_start q base seq before s' \<and>
    length (send_parms s') = length (send_parms s)"
proof -
  obtain cs' where cs: "cs = START_CHAR # cs'" using starts(2) [OF dam(1)] by blast
  let ?s = "s\<lparr>send_ptr := 0, k_in := cs' @ rest\<rparr>"
  obtain s' where s': "k_packet ?s = Some (Inl s')" "after_damage q base seq before rest ?s s'"
    using k_packet_damaged [of seq cs' ?s rest q base before] dam(1) seq start room line cs by auto
  then obtain xs where "k_holds q base before xs (s'\<lparr>k_state := k_state_saved s'\<rparr>)" by (auto simp: after_damage_def)
  from k_sink.restore [OF this] s' show ?thesis
    using k_wait_quiet [OF dam(2), of "cs' @ rest"] line cs
    by (auto simp: k_turn_def packet_error_def Let_def sending after_damage_def at_start_def k_data_frame)
qed

lemma packet_length: "packet seq ty d cs \<Longrightarrow> length d \<le> length cs"
  by (auto elim: packet.cases)

lemma turn_read:
  assumes p: "packet seq ty d cs" "quiet junk" and seq: "0 \<le> seq" "seq < 64" and line: "k_in s = junk @ cs @ rest"
    and start: "at_start q base seq before s" and room: "length before + length (k_in s) \<le> 2 ^ 32"
  obtains s' where "k_turn s = Some (if ty = SEND_TYPE then (None, handle_send_packet seq s')
      else (if ty = BREAK_TYPE then Some (os_data_addr s' - bin_start_address s') else None, send_ack seq s'))"
    and "k_in s' = rest" and "k_last_n s' = seq" and "k_holds q base before (before @ gain ty d) s'"
    and "send_ptr s' = send_ptr (fold k_take d (after_header seq ty (s\<lparr>send_ptr := 0\<rparr>)))"
    and "send_parms s' = send_parms (fold k_take d (after_header seq ty (s\<lparr>send_ptr := 0\<rparr>)))"
proof -
  obtain cs' where cs: "cs = START_CHAR # cs'" using starts(1) [OF p(1)] by blast
  let ?s = "s\<lparr>send_ptr := 0, k_in := cs' @ rest\<rparr>"
  obtain l sm where r: "k_packet ?s =
      Some (Inr ((fold k_take d (after_header seq ty ?s))\<lparr>k_sum := sm, k_length := l, k_in := rest\<rparr>))"
    using k_packet_good [of seq ty d cs' ?s rest] p(1) seq cs by auto
  define s' where "s' = (fold k_take d (after_header seq ty ?s))\<lparr>k_sum := sm, k_length := l, k_in := rest\<rparr>"
  have h: "after_header seq ty ?s = (after_header seq ty (s\<lparr>send_ptr := 0\<rparr>))\<lparr>k_in := cs' @ rest\<rparr>"
    by (auto intro!: kermit.equality simp: after_header_def k_sequence_def k_data_save_def os_data_save_def
        k_data_restore_def os_data_restore_def)
  have "k_holds q base before before (after_header seq ty ?s)"
    using start by (intro after_header_holds) simp
  from k_holds_taken [OF this, of d] have "k_holds q base before (before @ gain ty d) s'"
    using room line packet_length [OF p(1)] by (simp add: s'_def)
  moreover have "k_turn s = Some (if ty = SEND_TYPE then (None, handle_send_packet seq s')
      else (if ty = BREAK_TYPE then Some (os_data_addr s' - bin_start_address s') else None, send_ack seq s'))"
    using r k_wait_quiet [OF p(2), of "cs' @ rest"] line cs
    by (simp add: k_turn_def s'_def fold_k_take_frame sending Let_def)
  moreover have "send_ptr s' = send_ptr (fold k_take d (after_header seq ty (s\<lparr>send_ptr := 0\<rparr>)))"
    "send_parms s' = send_parms (fold k_take d (after_header seq ty (s\<lparr>send_ptr := 0\<rparr>)))"
    by (simp_all add: s'_def h fold_k_take_frame)
  moreover have "k_in s' = rest" "k_last_n s' = seq"
    by (simp_all add: s'_def fold_k_take_frame)
  ultimately show ?thesis using that [of s'] by blast
qed

text \<open>The parameters of the first packet, of which at most 18 are looked at.\<close>

lemma take_parms:
  assumes "k_state s = SEND_TYPE" "send_ptr s = 0" "length (send_parms s) = SEND_DATA_SIZE"
  shows "send_ptr (fold k_take d s) = min 19 (length d) \<and>
    (\<forall>i < min 19 (length d). send_parms (fold k_take d s) ! i = d ! i)"
proof (induction d rule: rev_induct)
  case (snoc c d)
  define t where "t = fold k_take d s"
  have t: "k_state t = SEND_TYPE" "length (send_parms t) = 20" "fold k_take (d @ [c]) s = k_take c t"
    using assms by (simp_all add: fold_k_take_frame SEND_DATA_SIZE_def t_def)
  have "SEND_TYPE \<noteq> DATA_TYPE" by (simp add: SEND_TYPE_def DATA_TYPE_def)
  with snoc t(1,2) show ?case
    unfolding t(3) t_def [symmetric]
    by (auto simp: k_take_def Let_def SEND_DATA_SIZE_def nth_list_update nth_append)
qed (use assms in simp)

lemma handle_send_packet_quote:
  assumes "send_ptr s = min 19 (length d)" "\<forall>i < min 19 (length d). send_parms s ! i = d ! i" "k_holds q base [] [] s"
  shows "k_holds (quote_of d) base [] [] (handle_send_packet n s)"
  using assms
  by (auto simp: handle_send_packet_def Let_def k_defaults_def s1_sendpacket_out SEND_DATA_SIZE_def k_holds_def os_holds_def
      quote_of_def)

lemma handle_send_packet_frame:
  "k_in (handle_send_packet n s) = k_in s" "k_last_n (handle_send_packet n s) = k_last_n s"
  "send_parms (handle_send_packet n s) = send_parms s"
  by (simp_all add: handle_send_packet_def Let_def k_defaults_def s1_sendpacket_out)

section \<open>Delivery of a packet\<close>

lemma k_loop_turn: "k_turn s = Some (None, s') \<Longrightarrow> k_loop s = k_loop s'"
  by (subst k_loop.simps) simp

lemma at_start_again: "k_holds q base before xs s \<Longrightarrow> k_last_n s = seq \<Longrightarrow> at_start q base seq before s"
  by (auto simp: at_start_def)

lemma send_ack_frame:
  "k_holds q base ck xs (send_ack n s) = k_holds q base ck xs s" "k_in (send_ack n s) = k_in s"
  "k_last_n (send_ack n s) = k_last_n s" "send_parms (send_ack n s) = send_parms s" "k_mem (send_ack n s) = k_mem s"
  by (simp_all add: sending)

lemma turn_ordinary:
  assumes "packet seq ty d cs" "quiet junk" "0 \<le> seq" "seq < 64" "k_in s = junk @ cs @ rest"
    "at_start q base seq before s" "length before + length (k_in s) \<le> 2 ^ 32" "ty \<noteq> SEND_TYPE" "ty \<noteq> BREAK_TYPE"
  shows "\<exists>s'. k_turn s = Some (None, s') \<and> k_in s' = rest \<and> k_last_n s' = seq \<and>
    k_holds q base before (before @ gain ty d) s'"
  by (rule turn_read [OF assms(1-7)]) (use assms(8,9) in \<open>auto simp: send_ack_frame\<close>)

lemma turn_first:
  assumes "packet seq SEND_TYPE d cs" "quiet junk" "0 \<le> seq" "seq < 64" "k_in s = junk @ cs @ rest"
    "at_start q base seq [] s" "length (k_in s) \<le> 2 ^ 32" "length (send_parms s) = SEND_DATA_SIZE"
  shows "\<exists>s'. k_turn s = Some (None, s') \<and> k_in s' = rest \<and> k_last_n s' = seq \<and>
    k_holds (quote_of d) base [] [] s' \<and> length (send_parms s') = SEND_DATA_SIZE"
proof -
  have "length ([] :: u8 list) + length (k_in s) \<le> 2 ^ 32" using assms(7) by simp
  then show ?thesis
  proof (rule turn_read [OF assms(1-6)])
    fix s'
    assume turn: "k_turn s = Some (if SEND_TYPE = SEND_TYPE then (None, handle_send_packet seq s')
        else (if SEND_TYPE = BREAK_TYPE then Some (os_data_addr s' - bin_start_address s') else None, send_ack seq s'))"
      and state: "k_in s' = rest" "k_last_n s' = seq" and held: "k_holds q base [] ([] @ gain SEND_TYPE d) s'"
      and parms: "send_ptr s' = send_ptr (fold k_take d (after_header seq SEND_TYPE (s\<lparr>send_ptr := 0\<rparr>)))"
        "send_parms s' = send_parms (fold k_take d (after_header seq SEND_TYPE (s\<lparr>send_ptr := 0\<rparr>)))"
    have "k_holds q base [] [] s'" using held by (simp add: gain_def SEND_TYPE_def DATA_TYPE_def)
    moreover have "send_ptr s' = min 19 (length d) \<and> (\<forall>i < min 19 (length d). send_parms s' ! i = d ! i)"
      unfolding parms using assms(8) by (intro take_parms) simp_all
    ultimately have "k_holds (quote_of d) base [] [] (handle_send_packet seq s')"
      using handle_send_packet_quote by blast
    moreover have "length (send_parms s') = SEND_DATA_SIZE" using assms(8) by (simp add: parms)
    ultimately show ?thesis
      using turn state by (auto simp: handle_send_packet_frame)
  qed
qed

lemma delivered_length: "delivered seq ty d line \<Longrightarrow> length d \<le> length line"
  by (induction rule: delivered.induct) (use packet_length in fastforce)+

lemma delivered_ordinary:
  assumes "delivered seq ty d line" "0 \<le> seq" "seq < 64" "k_in s = line @ rest" "at_start q base seq before s"
    "length before + length (k_in s) \<le> 2 ^ 32" "ty \<noteq> SEND_TYPE" "ty \<noteq> BREAK_TYPE"
  shows "\<exists>s'. k_loop s = k_loop s' \<and> k_in s' = rest \<and> k_last_n s' = seq \<and> k_holds q base before (before @ gain ty d) s'"
  using assms
proof (induction arbitrary: s rule: delivered.induct)
  case (arrives seq ty d cs junk)
  then show ?case
    using turn_ordinary [of seq ty d cs junk s rest q base before] k_loop_turn by fastforce
next
  case (is_damaged seq cs junk ty d line)
  then obtain s1 where s1: "k_turn s = Some (None, s1)" "k_in s1 = line @ rest" "at_start q base seq before s1"
    using turn_damaged [of seq cs junk s "line @ rest" q base before] by auto
  with is_damaged.prems have "length before + length (k_in s1) \<le> 2 ^ 32" by simp
  from is_damaged.IH [OF is_damaged.prems(1,2) s1(2,3) this is_damaged.prems(6,7)] show ?case
    using k_loop_turn [OF s1(1)] by simp
next
  case (comes_again seq ty d cs junk line)
  then obtain s1 where s1: "k_turn s = Some (None, s1)" "k_in s1 = line @ rest" "k_last_n s1 = seq"
    "k_holds q base before (before @ gain ty d) s1"
    using turn_ordinary [of seq ty d cs junk s "line @ rest" q base before] by auto
  with comes_again.prems have "length before + length (k_in s1) \<le> 2 ^ 32" by simp
  from comes_again.IH [OF comes_again.prems(1,2) s1(2) at_start_again [OF s1(4,3)] this comes_again.prems(6,7)] show ?case
    using k_loop_turn [OF s1(1)] by simp
qed

lemma delivered_first:
  assumes "delivered seq ty d line" "ty = SEND_TYPE" "0 \<le> seq" "seq < 64" "k_in s = line @ rest" "at_start q base seq [] s"
    "length (k_in s) \<le> 2 ^ 32" "length (send_parms s) = SEND_DATA_SIZE"
  shows "\<exists>s'. k_loop s = k_loop s' \<and> k_in s' = rest \<and> k_last_n s' = seq \<and> k_holds (quote_of d) base [] [] s'"
  using assms
proof (induction arbitrary: s q rule: delivered.induct)
  case (arrives seq ty d cs junk)
  then show ?case
    using turn_first [of seq d cs junk s rest q base] k_loop_turn by fastforce
next
  case (is_damaged seq cs junk ty d line)
  then obtain s1 where s1: "k_turn s = Some (None, s1)" "k_in s1 = line @ rest" "at_start q base seq [] s1"
    "length (send_parms s1) = SEND_DATA_SIZE"
    using turn_damaged [of seq cs junk s "line @ rest" q base "[]"] by auto
  with is_damaged.prems have "length (k_in s1) \<le> 2 ^ 32" by simp
  from is_damaged.IH [OF is_damaged.prems(1-3) s1(2,3) this s1(4)] show ?case
    using k_loop_turn [OF s1(1)] by simp
next
  case (comes_again seq ty d cs junk line)
  then obtain s1 where s1: "k_turn s = Some (None, s1)" "k_in s1 = line @ rest" "k_last_n s1 = seq"
    "k_holds (quote_of d) base [] [] s1" "length (send_parms s1) = SEND_DATA_SIZE"
    using turn_first [of seq d cs junk s "line @ rest" q base] by auto
  with comes_again.prems have "length (k_in s1) \<le> 2 ^ 32" by simp
  from comes_again.IH [OF comes_again.prems(1-3) s1(2) at_start_again [OF s1(4,3)] this s1(5)] show ?case
    using k_loop_turn [OF s1(1)] by simp
qed

text \<open>The result: the size of a file and its bytes in memory.\<close>

definition file_received :: "addr \<Rightarrow> u8 list \<Rightarrow> u8 list \<Rightarrow> (u32 \<times> kermit) option \<Rightarrow> bool" where
  "file_received base contents rest r \<longleftrightarrow>
     (\<exists>s'. r = Some (of_nat (length contents), s') \<and> k_in s' = rest \<and> load (k_mem s') base (length contents) = contents)"

lemma delivered_break:
  assumes "delivered seq ty d line" "ty = BREAK_TYPE" "0 \<le> seq" "seq < 64" "k_in s = line @ rest" "at_start q base seq before s"
    "length before + length (k_in s) \<le> 2 ^ 32"
  shows "file_received base (snd (unquote q before)) rest (k_loop s)"
  using assms
proof (induction arbitrary: s rule: delivered.induct)
  case (arrives seq ty d cs junk)
  then have "k_in s = junk @ cs @ rest" by simp
  then show ?case
  proof (rule turn_read [OF arrives(1,2) arrives.prems(2,3) _ arrives.prems(5,6)])
    fix s'
    assume turn: "k_turn s = Some (if ty = SEND_TYPE then (None, handle_send_packet seq s')
        else (if ty = BREAK_TYPE then Some (os_data_addr s' - bin_start_address s') else None, send_ack seq s'))"
      and "k_in s' = rest" and held: "k_holds q base before (before @ gain ty d) s'"
    have ty: "ty \<noteq> SEND_TYPE" "ty \<noteq> DATA_TYPE" "ty = BREAK_TYPE"
      using arrives.prems(1) by (simp_all add: BREAK_TYPE_def SEND_TYPE_def DATA_TYPE_def)
    have "k_loop s = Some (os_data_addr s' - bin_start_address s', send_ack seq s')"
      using turn ty by (subst k_loop.simps) simp
    with held \<open>k_in s' = rest\<close> ty show ?case
      by (simp add: file_received_def gain_def k_holds_def os_holds_def send_ack_frame)
  qed
next
  case (is_damaged seq cs junk ty d line)
  then obtain s1 where s1: "k_turn s = Some (None, s1)" "k_in s1 = line @ rest" "at_start q base seq before s1"
    using turn_damaged [of seq cs junk s "line @ rest" q base before] by auto
  with is_damaged.prems have "length before + length (k_in s1) \<le> 2 ^ 32" by simp
  from is_damaged.IH [OF is_damaged.prems(1-3) s1(2,3) this] show ?case
    using k_loop_turn [OF s1(1)] by simp
next
  case (comes_again seq ty d cs junk line)
  then show ?case by simp
qed

section \<open>A whole session\<close>

inductive_cases session_ConsE: "session seq ((ty, d) # ps) lines"
inductive_cases session_NilE: "session seq [] lines"

lemma next_seq: "0 \<le> seq \<Longrightarrow> seq < 64 \<Longrightarrow> 0 \<le> (seq + 1) mod 64 \<and> (seq + 1) mod 64 < 64 \<and> (seq + 1) mod 64 \<noteq> (seq :: int)"
  by presburger

lemma data_text_Cons: "data_text ((ty, d) # ps) = gain ty d @ data_text ps"
  by (simp add: data_text_def gain_def)

lemma session_append:
  assumes "session seq (ps @ qs) line"
  shows "\<exists>l1 l2. line = l1 @ l2 \<and> session seq ps l1 \<and> (0 \<le> seq \<and> seq < 64 \<longrightarrow> session ((seq + int (length ps)) mod 64) qs l2)"
  using assms
proof (induction ps arbitrary: seq line)
  case Nil
  then show ?case by (intro exI [of _ "[]"] exI [of _ line]) (auto intro: session.intros)
next
  case (Cons p ps)
  obtain ty d where p: "p = (ty, d)" by (cases p)
  with Cons.prems obtain l l' where l: "line = l @ l'" "delivered seq ty d l" "session ((seq + 1) mod 64) (ps @ qs) l'"
    by (auto elim: session_ConsE)
  from Cons.IH [OF l(3)] obtain l1 l2 where "l' = l1 @ l2" "session ((seq + 1) mod 64) ps l1"
    "session (((seq + 1) mod 64 + int (length ps)) mod 64) qs l2" by auto
  moreover have "((seq + 1) mod 64 + int (length ps)) mod 64 = (seq + int (length (p # ps))) mod 64"
    by (simp add: mod_add_left_eq add.assoc)
  ultimately show ?case
    using l p by (intro exI [of _ "l @ l1"] exI [of _ l2]) (auto intro: session.intros)
qed

lemma session_prefix:
  assumes "session seq ps line" "0 \<le> seq" "seq < 64" "k_in s = line @ rest"
    "at_start q base seq before s" "length before + length (k_in s) \<le> 2 ^ 32"
    "\<forall>(ty, d) \<in> set ps. ty \<noteq> SEND_TYPE \<and> ty \<noteq> BREAK_TYPE"
  shows "\<exists>s'. k_loop s = k_loop s' \<and> k_in s' = rest \<and> length (before @ data_text ps) + length rest \<le> 2 ^ 32 \<and>
    at_start q base ((seq + int (length ps)) mod 64) (before @ data_text ps) s'"
  using assms
proof (induction ps arbitrary: seq line s before)
  case Nil
  then show ?case by (auto elim!: session_NilE intro!: exI [of _ s] simp: data_text_def)
next
  case (Cons p ps)
  obtain ty d where p: "p = (ty, d)" by (cases p)
  with Cons.prems(1) obtain l1 l2 where l: "line = l1 @ l2" "delivered seq ty d l1" "session ((seq + 1) mod 64) ps l2"
    by (auto elim: session_ConsE)
  have ty: "ty \<noteq> SEND_TYPE" "ty \<noteq> BREAK_TYPE" using Cons.prems(7) p by auto
  have "k_in s = l1 @ l2 @ rest" using Cons.prems(4) l(1) by simp
  from delivered_ordinary [OF l(2) Cons.prems(2,3) this Cons.prems(5,6) ty]
  obtain s1 where s1: "k_loop s = k_loop s1" "k_in s1 = l2 @ rest" "k_last_n s1 = seq"
    "k_holds q base before (before @ gain ty d) s1" by blast
  note nx = next_seq [OF Cons.prems(2,3)]
  have "at_start q base ((seq + 1) mod 64) (before @ gain ty d) s1"
    using s1(3,4) nx by (auto simp: at_start_def)
  moreover have "length (gain ty d) \<le> length l1" using delivered_length [OF l(2)] by (simp add: gain_def)
  then have "length (before @ gain ty d) + length (k_in s1) \<le> 2 ^ 32"
    using Cons.prems(4,6) l(1) s1(2) by simp
  moreover have "\<forall>(ty, d) \<in> set ps. ty \<noteq> SEND_TYPE \<and> ty \<noteq> BREAK_TYPE" using Cons.prems(7) by simp
  ultimately have "\<exists>s'. k_loop s1 = k_loop s' \<and> k_in s' = rest \<and>
      length ((before @ gain ty d) @ data_text ps) + length rest \<le> 2 ^ 32 \<and>
      at_start q base (((seq + 1) mod 64 + int (length ps)) mod 64) ((before @ gain ty d) @ data_text ps) s'"
    using nx by (intro Cons.IH [OF l(3) _ _ s1(2)]) simp_all
  moreover have "((seq + 1) mod 64 + int (length ps)) mod 64 = (seq + int (length (p # ps))) mod 64"
    by (simp add: mod_add_left_eq add.assoc)
  ultimately show ?case
    using s1(1) by (simp add: p data_text_Cons)
qed

lemma session_received:
  assumes ses: "session seq (ps @ [(BREAK_TYPE, bx)]) line" and seq: "0 \<le> seq" "seq < 64" and line: "k_in s = line @ rest"
    and start: "at_start q base seq before s" and room: "length before + length (k_in s) \<le> 2 ^ 32"
    and ps: "\<forall>(ty, d) \<in> set ps. ty \<noteq> SEND_TYPE \<and> ty \<noteq> BREAK_TYPE"
  shows "file_received base (snd (unquote q (before @ data_text ps))) rest (k_loop s)"
proof -
  obtain l1 l2 where l: "line = l1 @ l2" "session seq ps l1" "session ((seq + int (length ps)) mod 64) [(BREAK_TYPE, bx)] l2"
    using session_append [OF ses] seq by blast
  have "k_in s = l1 @ l2 @ rest" using line l(1) by simp
  from session_prefix [OF l(2) seq this start room ps]
  obtain s' where s': "k_loop s = k_loop s'" "k_in s' = l2 @ rest" "length (before @ data_text ps) + length (l2 @ rest) \<le> 2 ^ 32"
    "at_start q base ((seq + int (length ps)) mod 64) (before @ data_text ps) s'" by blast
  have "delivered ((seq + int (length ps)) mod 64) BREAK_TYPE bx l2"
    using l(3) by (auto elim!: session_ConsE session_NilE)
  from delivered_break [OF this refl _ _ s'(2,4)] s' show ?thesis by simp
qed

text \<open>The receiver after the first packet.\<close>

lemma k_recv_first:
  assumes del: "delivered 0 SEND_TYPE parms line" and line: "k_in s = line @ rest" and room: "length (k_in s) \<le> 2 ^ 32"
    and buf: "length (send_parms s) = SEND_DATA_SIZE"
  shows "\<exists>s'. k_recv (set_kerm_bin_mode base s) = k_loop s' \<and> k_in s' = rest \<and> at_start (quote_of parms) base 1 [] s'"
proof -
  define s0 where "s0 = (k_data_save ((k_data_init ((k_defaults (set_kerm_bin_mode base s))\<lparr>k_state := 0\<rparr>))
    \<lparr>k_state_saved := 0\<rparr>))\<lparr>k_n := 0, k_last_n := - 1\<rparr>"
  note defs = s0_def k_data_save_def os_data_save_def k_data_init_def bin_data_init_def k_defaults_def set_kerm_bin_mode_def
  have r: "k_recv (set_kerm_bin_mode base s) = k_loop s0"
    by (simp add: k_recv_def defs)
  have s0: "k_in s0 = line @ rest" "length (k_in s0) \<le> 2 ^ 32" "length (send_parms s0) = SEND_DATA_SIZE"
    using line room buf by (simp_all add: defs)
  have "k_holds K_ESCAPE base [] [] s0" "k_last_n s0 \<noteq> 0" by (simp_all add: defs k_holds_def os_holds_def)
  then have "at_start K_ESCAPE base 0 [] s0" by (auto simp: at_start_def)
  from delivered_first [OF del refl _ _ s0(1) this s0(2,3)]
  obtain s1 where "k_loop s0 = k_loop s1" "k_in s1 = rest" "k_last_n s1 = 0" "k_holds (quote_of parms) base [] [] s1"
    by auto
  with r show ?thesis by (auto simp: at_start_def)
qed

lemma kermit_session_received:
  assumes ses: "session 0 ((SEND_TYPE, parms) # ps @ [(BREAK_TYPE, bx)]) line" and line: "k_in s = line @ rest"
    and ps: "\<forall>(ty, d) \<in> set ps. ty \<noteq> SEND_TYPE \<and> ty \<noteq> BREAK_TYPE" and room: "length (k_in s) \<le> 2 ^ 32"
    and buf: "length (send_parms s) = SEND_DATA_SIZE"
  shows "file_received base (snd (unquote (quote_of parms) (data_text ps))) rest (k_recv (set_kerm_bin_mode base s))"
proof -
  obtain l1 l2 where l: "line = l1 @ l2" "delivered 0 SEND_TYPE parms l1" "session 1 (ps @ [(BREAK_TYPE, bx)]) l2"
    using ses by (auto elim: session_ConsE)
  have "k_in s = l1 @ l2 @ rest" using line l(1) by simp
  from k_recv_first [OF l(2) this room buf] obtain s1 where s1: "k_recv (set_kerm_bin_mode base s) = k_loop s1"
    "k_in s1 = l2 @ rest" "at_start (quote_of parms) base 1 [] s1" by blast
  with session_received [OF l(3) _ _ s1(2,3) _ ps] line room l(1) show ?thesis by simp
qed

text \<open>A packet whose length or sequence number does not come through takes the packet before it away.\<close>

lemma turn_bad_length:
  assumes "k_in s = START_CHAR # c # rest" and "\<not> printable c" and "k_holds q base before xs s"
  shows "\<exists>s'. k_turn s = Some (None, s') \<and> k_in s' = rest \<and> k_last_n s' = k_last_n s \<and> k_holds q base before before s'"
proof -
  have "k_holds q base before before (k_data_restore (s\<lparr>send_ptr := 0, k_sum := 0, k_in := rest, k_state := k_state_saved s\<rparr>))"
    using assms(3) by (intro k_sink.restore) simp
  then show ?thesis
    using assms(1,2)
    by (auto simp: k_turn_def k_packet_def k_header_def k_char_cases packet_error_def Let_def sending k_data_frame)
qed

text \<open>The packets of the sender, and the sample session.\<close>

lemma kermit_packet_ok:
  assumes "length d \<le> 91" "\<forall>c \<in> set d. printable c" "printable ty"
  shows "packet seq ty d (kermit_packet seq ty d)"
proof -
  have "header seq ty (nat (untochar (tochar (int (length d) + 3)) - 3)) [tochar (int (length d) + 3), tochar seq, ty]"
    using assms(1,3) by (intro short_header printable_tochar) simp_all
  then show ?thesis
    using assms(1,2) unfolding kermit_packet_def Let_def by (intro packet) simp_all
qed

lemma sample_damaged_ok: "damaged 1 sample_damaged"
proof -
  have "header 1 DATA_TYPE (nat (untochar (tochar 6) - 3)) [tochar 6, tochar 1, DATA_TYPE]"
    by (intro short_header printable_tochar) (simp_all add: printable_def DATA_TYPE_def)
  then have "header 1 DATA_TYPE (length [0x41, 0x23, 0x42 :: u8]) [tochar 6, tochar 1, DATA_TYPE]" by (simp add: numeral_3_eq_3)
  moreover have "check_of [tochar 6, tochar 1, DATA_TYPE, 0x41, 0x23, 0x40] \<noteq>
      check_of ([tochar 6, tochar 1, DATA_TYPE] @ [0x41, 0x23, 0x42])" by code_simp
  ultimately show ?thesis
    unfolding sample_damaged_def by (intro bad_check printable_check) (simp_all add: printable_def)
qed

lemma sample_session:
  "session 0 ((SEND_TYPE, []) # [(DATA_TYPE, [0x41, 0x23, 0x40])] @ [(BREAK_TYPE, [])]) sample_line"
proof -
  have ok: "packet 0 SEND_TYPE [] (kermit_packet 0 SEND_TYPE [])" "packet 2 BREAK_TYPE [] (kermit_packet 2 BREAK_TYPE [])"
    "packet 1 DATA_TYPE [0x41, 0x23, 0x40] (kermit_packet 1 DATA_TYPE [0x41, 0x23, 0x40])"
    by (rule kermit_packet_ok; simp add: printable_def SEND_TYPE_def BREAK_TYPE_def DATA_TYPE_def)+
  have quiet: "quiet []" "quiet [0x0d]" by (simp_all add: quiet_def START_CHAR_def ETX_CHAR_def)
  have "delivered 1 DATA_TYPE [0x41, 0x23, 0x40] ([0x0d] @ kermit_packet 1 DATA_TYPE [0x41, 0x23, 0x40])"
    by (rule arrives [OF ok(3) quiet(2)])
  from is_damaged [OF sample_damaged_ok quiet(1) this]
  have data: "delivered 1 DATA_TYPE [0x41, 0x23, 0x40]
    ([] @ sample_damaged @ [0x0d] @ kermit_packet 1 DATA_TYPE [0x41, 0x23, 0x40])" .
  have "session 0 ((SEND_TYPE, []) # [(DATA_TYPE, [0x41, 0x23, 0x40])] @ [(BREAK_TYPE, [])])
    (([] @ kermit_packet 0 SEND_TYPE []) @
     ([] @ sample_damaged @ [0x0d] @ kermit_packet 1 DATA_TYPE [0x41, 0x23, 0x40]) @
     ([] @ kermit_packet 2 BREAK_TYPE []) @ [])"
    unfolding append_Cons [of _ "[]"] append_Nil [of "[(BREAK_TYPE, [])]"]
    using data arrives [OF ok(1) quiet(1)] arrives [OF ok(2) quiet(1)]
    by (intro session_step session_end) simp_all
  then show ?thesis by (simp add: sample_line_def)
qed

section \<open>Properties\<close>

text \<open>
  C10: A Kermit session puts the file into memory: the first packet names a quote character, the data packets carry the
  file, quoted with it, cut at any places, and a packet of type B ends the session; each packet is
  sent again as often as the line damages it behind its sequence number or its acknowledgement is lost, with
  noise between the packets. Then \<open>k_recv\<close> returns the length of the file, and the file stands at the load address.
\<close>

theorem kermit_transfer:
  assumes "session 0 ((SEND_TYPE, parms) # ps @ [(BREAK_TYPE, bx)]) line"
    and "\<forall>(ty, d) \<in> set ps. ty \<noteq> SEND_TYPE \<and> ty \<noteq> BREAK_TYPE"
    and "data_text ps = kermit_encode (quote_of parms) contents" and "ktrans (quote_of parms) = quote_of parms"
    and "k_in s = line @ rest" and "length (k_in s) \<le> 2 ^ 32" and "length (send_parms s) = SEND_DATA_SIZE"
  shows "\<exists>s'. k_recv (set_kerm_bin_mode base s) = Some (of_nat (length contents), s') \<and>
    load (k_mem s') base (length contents) = contents \<and> k_in s' = rest"
  using kermit_session_received [OF assms(1,5,2,6,7), of base] unquote_encode [OF assms(4), of contents]
  by (auto simp: file_received_def assms(3))

theorem kermit_transfer_witness:
  "\<exists>s'. k_recv (set_kerm_bin_mode 0x100000 (sample_kermit sample_line)) = Some (of_nat (length [0x41, 0 :: u8]), s') \<and>
    load (k_mem s') 0x100000 (length [0x41, 0 :: u8]) = [0x41, 0] \<and> k_in s' = []"
proof (rule kermit_transfer [where parms = "[]" and bx = "[]" and line = sample_line and ps = "[(DATA_TYPE, [0x41, 0x23, 0x40])]"])
  show "session 0 ((SEND_TYPE, []) # [(DATA_TYPE, [0x41, 0x23, 0x40])] @ [(BREAK_TYPE, [])]) sample_line"
    by (rule sample_session)
  show "data_text [(DATA_TYPE, [0x41, 0x23, 0x40])] = kermit_encode (quote_of []) [0x41, 0]"
    "ktrans (quote_of []) = quote_of []" by code_simp+
qed (simp_all add: sample_kermit_def SEND_TYPE_def DATA_TYPE_def BREAK_TYPE_def SEND_DATA_SIZE_def sample_line_def
    kermit_packet_def sample_damaged_def Let_def)


text \<open>
  C40: The packet before a damaged one can be lost: when a packet, acknowledged, is followed by a packet whose length
  comes in as a control character, and the sender repeats that one, \<open>k_recv\<close> returns as if all
  were well, but the data of the acknowledged packet are not in the file.
\<close>

theorem kermit_bad_length_loses_packet:
  assumes "delivered 0 SEND_TYPE parms l0" and "session 1 ps l1" and "\<not> printable c"
    and "delivered ((1 + int (length ps)) mod 64) DATA_TYPE d l2"
    and "session ((2 + int (length ps)) mod 64) (qs @ [(BREAK_TYPE, bx)]) l3"
    and "\<forall>(ty, d) \<in> set (ps @ qs). ty \<noteq> SEND_TYPE \<and> ty \<noteq> BREAK_TYPE"
    and "k_in s = l0 @ l1 @ l2 @ [START_CHAR, c] @ l3" and "length (k_in s) \<le> 2 ^ 32"
    and "length (send_parms s) = SEND_DATA_SIZE"
  shows "\<exists>s'. k_recv (set_kerm_bin_mode base s) =
      Some (of_nat (length (snd (unquote (quote_of parms) (data_text ps @ data_text qs)))), s') \<and>
    load (k_mem s') base (length (snd (unquote (quote_of parms) (data_text ps @ data_text qs)))) =
      snd (unquote (quote_of parms) (data_text ps @ data_text qs))"
proof -
  let ?q = "quote_of parms" and ?n = "(1 + int (length ps)) mod 64" and ?before = "data_text ps"
  have m: "(?n + 1) mod 64 = (2 + int (length ps)) mod 64" by (simp add: mod_simps)
  obtain s1 where s1: "k_recv (set_kerm_bin_mode base s) = k_loop s1" "k_in s1 = l1 @ l2 @ [START_CHAR, c] @ l3"
    "at_start ?q base 1 [] s1"
    using k_recv_first [OF assms(1,7,8,9)] by blast
  obtain s2 where s2: "k_loop s1 = k_loop s2" "k_in s2 = l2 @ [START_CHAR, c] @ l3" "at_start ?q base ?n ?before s2"
    "length ?before + length (k_in s2) \<le> 2 ^ 32"
    using session_prefix [OF assms(2) _ _ s1(2,3)] s1(2) assms(6-8) by fastforce
  obtain s3 where s3: "k_loop s2 = k_loop s3" "k_in s3 = START_CHAR # c # l3" "k_last_n s3 = ?n"
    "k_holds ?q base ?before (?before @ gain DATA_TYPE d) s3"
    using delivered_ordinary [OF assms(4) _ _ s2(2-4)] by (auto simp: SEND_TYPE_def DATA_TYPE_def BREAK_TYPE_def)
  obtain s4 where s4: "k_turn s3 = Some (None, s4)" "k_in s4 = l3 @ []" "k_last_n s4 = ?n" "k_holds ?q base ?before ?before s4"
    using turn_bad_length [OF s3(2) assms(3) s3(4)] s3(3) by auto
  have "at_start ?q base ((2 + int (length ps)) mod 64) ?before s4"
    using s4(3,4) next_seq [of ?n] m by (auto simp: at_start_def)
  moreover have "length ?before + length (k_in s4) \<le> 2 ^ 32" using s2(2,4) s4(2) by simp
  moreover have "\<forall>(ty, d) \<in> set qs. ty \<noteq> SEND_TYPE \<and> ty \<noteq> BREAK_TYPE" using assms(6) by simp
  ultimately have "file_received base (snd (unquote ?q (?before @ data_text qs))) [] (k_loop s4)"
    by (intro session_received [OF assms(5) _ _ s4(2)]) simp_all
  then show ?thesis
    using s1(1) s2(1) s3(1) k_loop_turn [OF s4(1)] by (auto simp: file_received_def)
qed

theorem kermit_bad_length_loses_packet_witness:
  "\<exists>s'. k_recv (set_kerm_bin_mode 0x100000 (sample_kermit sample_lossy_line)) =
      Some (of_nat (length (snd (unquote (quote_of []) (data_text [] @ data_text [(DATA_TYPE, [0x43])])))), s') \<and>
    load (k_mem s') 0x100000 (length (snd (unquote (quote_of []) (data_text [] @ data_text [(DATA_TYPE, [0x43])])))) =
      snd (unquote (quote_of []) (data_text [] @ data_text [(DATA_TYPE, [0x43])]))"
proof (rule kermit_bad_length_loses_packet [where ?l0.0 = "kermit_packet 0 SEND_TYPE []" and ?l1.0 = "[]" and
      ?l2.0 = "kermit_packet 1 DATA_TYPE [0x41]" and d = "[0x41]" and c = 0 and bx = "[]" and
      ?l3.0 = "kermit_packet 2 DATA_TYPE [0x43] @ kermit_packet 3 BREAK_TYPE [] @ []"])
  have ok: "delivered seq ty d (kermit_packet seq ty d)" if "length d \<le> 91" "\<forall>c \<in> set d. printable c" "printable ty" for seq ty d
    using arrives [OF kermit_packet_ok [OF that], of "[]" seq] by (simp add: quiet_def)
  note types = printable_def SEND_TYPE_def BREAK_TYPE_def DATA_TYPE_def
  show "delivered 0 SEND_TYPE [] (kermit_packet 0 SEND_TYPE [])"
    "delivered ((1 + int (length [])) mod 64) DATA_TYPE [0x41] (kermit_packet 1 DATA_TYPE [0x41])"
    using ok [of "[]" SEND_TYPE 0] ok [of "[0x41]" DATA_TYPE 1] by (simp_all add: types)
  show "session ((2 + int (length [])) mod 64) ([(DATA_TYPE, [0x43])] @ [(BREAK_TYPE, [])])
      (kermit_packet 2 DATA_TYPE [0x43] @ kermit_packet 3 BREAK_TYPE [] @ [])"
    using ok [of "[0x43]" DATA_TYPE 2] ok [of "[]" BREAK_TYPE 3]
      session_step [OF _ session_step [OF _ session_end], of 2 DATA_TYPE "[0x43]" "kermit_packet 2 DATA_TYPE [0x43]" BREAK_TYPE "[]"
        "kermit_packet 3 BREAK_TYPE []"]
    by (simp add: types)
qed (simp_all add: sample_kermit_def SEND_TYPE_def DATA_TYPE_def BREAK_TYPE_def SEND_DATA_SIZE_def sample_lossy_line_def
    kermit_packet_def Let_def printable_def session_end)

end
