(* ===== verification/Serial_Roundtrip.thy ===== *)
theory Serial_Roundtrip
  imports Serial_Load Kermit_Line
begin

text \<open>
  The commands of \<^verbatim>\<open>Serial_Load\<close> on a line: the text that \<open>save_serial\<close> writes for an area of memory, what
  \<open>load_serial\<close> does with this text, and the Kermit download as a command.
\<close>

section \<open>Specification\<close>

text \<open>A record of type S3, and an area as such records of 16 bytes each.\<close>

definition s3_line :: "u32 \<Rightarrow> u8 list \<Rightarrow> u8 list" where
  "s3_line a data = srec_line (bytes_be32 a) data (NOT (sum_list (srec_body (bytes_be32 a) data)))"

function srec_dump :: "u32 \<Rightarrow> u8 list \<Rightarrow> u8 list" where
  "srec_dump a bs =
     (if bs = [] then []
      else s3_line a (take 16 bs) @ 0x0a # srec_dump (a + of_nat (length (take 16 bs))) (drop 16 bs))"
  by pat_completeness auto
termination
  by (relation "measure (\<lambda>(a, bs). length bs)") auto

declare srec_dump.simps [simp del]

definition srec_text :: "u32 \<Rightarrow> u8 list \<Rightarrow> u8 list" where
  "srec_text a bs = SREC3_START @ srec_dump a bs @ SREC3_END"

text \<open>A line on which characters come in, with a pause in front of each or without.\<close>

definition line_of :: "bool \<Rightarrow> u8 list \<Rightarrow> serial_line" where
  "line_of paced cs = concat (map (\<lambda>c. if paced then [None, Some c] else [Some c]) cs)"

text \<open>A board to try the commands on: every byte of memory is the low byte of its address.\<close>

definition sample_bus :: "unit bus" where
  "sample_bus =
     \<lparr>bus_readb = (\<lambda>_ c. (0, c)), bus_readw = (\<lambda>_ c. (0, c)), bus_writew = (\<lambda>_ _ c. c), bus_get_timer = (\<lambda>_ c. (0, c)),
      bus_udelay = (\<lambda>_ c. c)\<rparr>"

definition sample_loader :: "serial_line \<Rightarrow> unit loader" where
  "sample_loader line =
     \<lparr>ld_env = default_state (), ld_ram = (\<lambda>a. ucast a), ld_line = line, ld_out = [], do_echo = False,
      ctrlc_was_pressed = False,
      ld_kermit = \<lparr>k_in = [], k_out = [], k_mem = (\<lambda>_. 0), his_eol = 0, his_pad_count = 0, his_pad_char = 0, his_quote = 0,
        os_data_state = 0, os_data_state_saved = 0, os_data_addr = 0, os_data_addr_saved = 0, bin_start_address = 0,
        k_data_escape = False, k_data_escape_saved = False, send_parms = replicate 20 0, send_ptr = 0, k_state = 0,
        k_state_saved = 0, k_sum = 0, k_length = 0, k_n = 0, k_last_n = 0\<rparr>\<rparr>"

section \<open>Hexadecimal digits\<close>

fun hex_fixed :: "nat \<Rightarrow> nat \<Rightarrow> u8 list" where
  "hex_fixed 0 n = []"
| "hex_fixed (Suc k) n = hex_fixed k (n div 16) @ [digit_char True (n mod 16)]"

lemma hex_fixed_digits:
  "n < 16 ^ k \<Longrightarrow>
    replicate (k - length (num_digits 16 n)) 0x30 @ rev (map (digit_char True) (num_digits 16 n)) = hex_fixed k n"
proof (induction k arbitrary: n)
  case 0
  then show ?case by (simp add: num_digits.simps)
next
  case (Suc k)
  then have "n div 16 < 16 ^ k" by (simp add: less_mult_imp_div_less mult.commute)
  note ih = Suc.IH [OF this]
  show ?case
  proof (cases "n = 0")
    case True
    then have "hex_fixed k 0 = replicate k 0x30" using ih by (simp add: num_digits.simps)
    with True show ?thesis by (simp add: num_digits.simps digit_char_def replicate_append_same)
  next
    case False
    then have "num_digits 16 n = n mod 16 # num_digits 16 (n div 16)" by (subst num_digits.simps) simp
    then show ?thesis using ih by simp
  qed
qed

lemma number_hex_fixed:
  assumes n: "unat num < 16 ^ w" and "0 < w"
  shows "number num 16 (int w) (- 1) (ZEROPAD OR LARGE) = Some (hex_fixed w (unat num))"
proof -
  define t where "t = ZEROPAD OR LARGE"
  define tmp where "tmp = (if num = 0 then [0x30] else map (digit_char True) (num_digits 16 (unat num)))"
  have t: "flag_set t ZEROPAD" "\<not> flag_set t SIGN" "flag_set t LARGE" "\<not> flag_set t LEFT"
    "\<not> flag_set t SPECIAL" "flag_set t (ZEROPAD + LEFT)"
    by (simp_all add: SIGN_def LARGE_def LEFT_def SPECIAL_def ZEROPAD_def t_def)
  have b: "\<not> ((16 :: u32) < 2 \<or> (16 :: u32) > 36)" by simp
  have len: "length tmp \<le> w"
    using num_digits_length [OF _ n] assms(2) by (simp add: tmp_def)
  have "number num 16 (int w) (- 1) t = Some (replicate (w - length tmp) 0x30 @ rev tmp)"
    unfolding number_def Let_def using t b len
    by (cases "num = 0") (auto simp: tmp_def pad_loop_def nat_diff_distrib)
  moreover have "replicate (w - length tmp) 0x30 @ rev tmp = hex_fixed w (unat num)"
  proof (cases "num = 0")
    case True
    then show ?thesis
      using hex_fixed_digits [OF n] assms(2) by (simp add: tmp_def num_digits.simps [of _ 0]) (metis Suc_pred replicate_append_same replicate_Suc)
  next
    case False
    then show ?thesis using hex_fixed_digits [OF n] by (simp add: tmp_def)
  qed
  ultimately show ?thesis by (simp add: t_def)
qed

lemma digit_char_hex: "k < 16 \<Longrightarrow> digit_char True k = hex_char (of_nat k)"
  by (auto simp: digit_char_def hex_char_def word_less_nat_alt unat_of_nat of_nat_diff)

lemma hex_fixed_byte: "hex_fixed (Suc (Suc k)) n = hex_fixed k (n div 256) @ hex_byte (of_nat n)"
proof -
  have w: "x = of_nat k" if "unat x = k" for x :: u8 and k by (simp flip: that)
  have m: "n mod 256 = 16 * (n div 16 mod 16) + n mod 16" using mod_mult2_eq [of n 16 16] by simp
  have "unat (drop_bit 4 (of_nat n :: u8)) = n div 16 mod 16"
    unfolding unat_high_nibble by (simp add: unat_of_nat m)
  then have "drop_bit 4 (of_nat n :: u8) = of_nat (n div 16 mod 16)" by (rule w)
  moreover have "unat (of_nat n AND 0xf :: u8) = n mod 16"
    unfolding unat_low_nibble by (simp add: unat_of_nat m)
  then have "(of_nat n AND 0xf :: u8) = of_nat (n mod 16)" by (rule w)
  moreover have "n div 16 div 16 = n div 256" by (simp add: div_mult2_eq [symmetric])
  ultimately show ?thesis
    by (simp add: hex_byte_def digit_char_hex)
qed

lemma hex_fixed_2: "hex_fixed 2 n = hex_byte (of_nat n)"
  using hex_fixed_byte [of 0 n] by (simp only: numeral_2_eq_2 hex_fixed.simps(1) append_Nil)

lemma bytes_be32_nat:
  fixes a :: u32
  defines "n \<equiv> unat a"
  shows "bytes_be32 a = map of_nat [n div 256 div 256 div 256, n div 256 div 256, n div 256, n]"
proof -
  have u: "(ucast x :: u8) = of_nat (unat (x :: u32))" for x by simp
  have d: "unat (drop_bit k a) = n div 2 ^ k" for k
  proof -
    have "unat (drop_bit k a) = drop_bit k (take_bit LENGTH(32) (unat a))" by (rule unsigned_drop_bit_eq)
    also have "take_bit LENGTH(32) (unat a) = unat a"
      by (simp add: take_bit_nat_eq_self_iff unsigned_less [of a, where ?'a = nat, simplified])
    finally show ?thesis by (simp only: drop_bit_eq_div n_def)
  qed
  have "n div 256 div 256 div 256 = n div 2 ^ 24" "n div 256 div 256 = n div 2 ^ 16" "n div 256 = n div 2 ^ 8"
    by (simp_all add: div_mult2_eq [symmetric])
  then show ?thesis by (simp only: bytes_be32_def u d list.map n_def [symmetric])
qed

lemma hex_fixed_word: "hex_fixed 8 (unat a) = hex_bytes (bytes_be32 a)"
proof -
  have "hex_fixed 8 n = hex_byte (of_nat (n div 256 div 256 div 256)) @ hex_byte (of_nat (n div 256 div 256)) @
      hex_byte (of_nat (n div 256)) @ hex_byte (of_nat n)" for n
    using hex_fixed_byte [of 6 n] hex_fixed_byte [of 4 "n div 256"] hex_fixed_byte [of 2 "n div 256 div 256"]
      hex_fixed_2 [of "n div 256 div 256 div 256"] by simp
  then show ?thesis
    by (simp only: bytes_be32_nat list.map hex_bytes_Cons hex_bytes_Nil append_Nil2)
qed

section \<open>Writing records\<close>

lemma conversion_02X:
  "conversion m (0x30 # 0x32 # 0x58 # rest) (x # args) out =
    do { s \<leftarrow> number x 16 2 (- 1) (ZEROPAD OR LARGE); Some (s, [], args, rest) }"
  by (simp add: conversion_def fmt_width_def fmt_precision_def fmt_qualifier_def conv_base_def conv_num_def Let_def)

lemma conversion_08lX:
  "conversion m (0x30 # 0x38 # 0x6c # 0x58 # rest) (x # args) out =
    do { s \<leftarrow> number x 16 8 (- 1) (ZEROPAD OR LARGE); Some (s, [], args, rest) }"
  by (simp add: conversion_def fmt_width_def fmt_precision_def fmt_qualifier_def conv_base_def conv_num_def Let_def)

lemma conversion_s:
  assumes "str_at m a text" and "length text < 2 ^ 31" and "a \<noteq> NULL" and "0 < length fmt"
  shows "conversion m (0x73 # fmt) (a # args) out = Some (text, [], args, fmt)"
proof -
  have "strnlen m a (word_of_int (- 1)) = of_nat (length text)"
    using strnlen_eq [OF assms(1), of "- 1"] assms(2) by (simp add: unsigned_minus_1_eq_mask mask_eq_exp_minus_1 min_def)
  moreover have "sint (of_nat (length text) :: u32) = int (length text)"
  proof -
    have "uint (of_nat (length text) :: u32) = int (length text)"
      using assms(2) by (simp add: uint_nat unat_of_nat)
    then show ?thesis
      using assms(2) by (simp add: sint_uint signed_take_bit_int_eq_self)
  qed
  moreover have "load m a (length text) = text" using assms(1) by (simp add: str_at_iff)
  ultimately have "conv_string m a (- 1) (- 1) 0 = text"
    using assms(3) by (simp add: conv_string_def)
  then show ?thesis
    by (simp add: conversion_def fmt_width_def fmt_precision_def fmt_qualifier_def Let_def)
qed

lemma nibble_digit:
  "hex_digits ! unat (drop_bit 4 c AND 0x0f) = hex_char (drop_bit 4 c)" "hex_digits ! unat (c AND 0x0f) = hex_char (c AND 0xf)"
proof -
  have d: "hex_digits ! k = hex_char (of_nat k)" if "k < 16" for k
  proof -
    have "\<forall>k \<in> set [0..<16]. hex_digits ! k = hex_char (of_nat k)" by code_simp
    with that show ?thesis by simp
  qed
  have c: "unat c < 256" using unsigned_less [of c, where ?'a = nat] by simp
  have a: "unat (drop_bit 4 c AND 0x0f) = unat (drop_bit 4 c)" "unat (drop_bit 4 c) < 16"
    using c by (simp_all add: unat_low_nibble unat_high_nibble less_mult_imp_div_less)
  have b: "unat (c AND 0x0f) < 16" by (simp add: unat_low_nibble)
  show "hex_digits ! unat (drop_bit 4 c AND 0x0f) = hex_char (drop_bit 4 c)"
    unfolding a(1) using d [OF a(2)] by simp
  show "hex_digits ! unat (c AND 0x0f) = hex_char (c AND 0xf)"
    using d [OF b] by simp
qed

text \<open>The data collected for the next record.\<close>

definition collected :: "u32 \<Rightarrow> u8 list \<Rightarrow> save_vars \<Rightarrow> bool" where
  "collected a d v \<longleftrightarrow>
     sv_address v = a \<and> sv_reclen v = length d \<and> sv_checksum v = sum_list (map uint d) \<and>
     (d = [] \<or> sv_data v = hex_bytes d)"

lemma length_hex_bytes [simp]: "length (hex_bytes d) = 2 * length d"
  by (induction d) simp_all

lemma save_byte_collected:
  assumes "collected a d v"
  shows "collected a (d @ [c]) (save_byte c v)"
proof -
  have "[hex_digits ! unat (drop_bit 4 c AND 0x0f), hex_digits ! unat (c AND 0x0f)] = hex_byte c"
    unfolding hex_byte_def nibble_digit(1) [of c] nibble_digit(2) [of c] ..
  with assms show ?thesis by (auto simp: collected_def save_byte_def)
qed

lemma hex_bytes_chars: "c \<in> set (hex_bytes d) \<Longrightarrow> c \<noteq> 0 \<and> c \<noteq> 0x0a \<and> c \<noteq> 0x0d \<and> c \<noteq> 0x03 \<and> c \<noteq> 0x53"
proof -
  have "\<forall>k \<in> set [0..<16]. hex_char (of_nat k) \<noteq> 0 \<and> hex_char (of_nat k) \<noteq> 0x0a \<and> hex_char (of_nat k) \<noteq> 0x0d \<and>
      hex_char (of_nat k) \<noteq> 0x03 \<and> hex_char (of_nat k) \<noteq> 0x53"
    by code_simp
  then have n: "hex_char n \<noteq> 0 \<and> hex_char n \<noteq> 0x0a \<and> hex_char n \<noteq> 0x0d \<and> hex_char n \<noteq> 0x03 \<and> hex_char n \<noteq> 0x53"
    if "unat n < 16" for n
    using that by (auto dest: bspec [where x = "unat n"])
  have "unat b < 256" for b :: u8 using unsigned_less [of b, where ?'a = nat] by simp
  then have "unat (drop_bit 4 b) < 16" "unat (b AND 0xf) < 16" for b :: u8
    unfolding unat_high_nibble unat_low_nibble by (simp_all add: less_mult_imp_div_less)
  then have "\<forall>c \<in> set (hex_byte b). c \<noteq> 0 \<and> c \<noteq> 0x0a \<and> c \<noteq> 0x0d \<and> c \<noteq> 0x03 \<and> c \<noteq> 0x53" for b
    using n by (simp add: hex_byte_def)
  then show "c \<in> set (hex_bytes d) \<Longrightarrow> c \<noteq> 0 \<and> c \<noteq> 0x0a \<and> c \<noteq> 0x0d \<and> c \<noteq> 0x03 \<and> c \<noteq> 0x53"
    by (auto simp: hex_bytes_def)
qed

lemma low_byte:
  "(ucast (x AND 0xff :: u32) :: u8) = ucast x" "(word_of_int (uint (x AND 0xff)) :: u8) = ucast x"
  "(ucast (NOT x AND 0xff) :: u8) = NOT (ucast x)"
proof -
  have m: "(0xff :: u32) = mask 8" by (simp add: mask_eq_exp_minus_1)
  show "(ucast (x AND 0xff :: u32) :: u8) = ucast x" "(ucast (NOT x AND 0xff) :: u8) = NOT (ucast x)"
    unfolding m by (rule bit_word_eqI; simp add: bit_simps)+
  then show "(word_of_int (uint (x AND 0xff)) :: u8) = ucast x" by simp
qed

lemma save_text_line:
  assumes v: "collected a d v" and d: "d \<noteq> []" "length d \<le> 16"
  shows "save_text v = Some (s3_line a d @ [0x0a])"
proof -
  let ?m = "overwrite (\<lambda>_. 0) 1 (sv_data v @ [0])"
  define len where "len = 4 + int (length d) + 1"
  define csum where "csum = sum_list (map uint d) + sum_list (map (\<lambda>i. len div 2 ^ (8 * i) mod 256) [0..<2]) +
    sum_list (map (\<lambda>i. uint (drop_bit (8 * i) a AND 0xff)) [0..<4])"
  define k where "k = NOT (word_of_int csum :: u32) AND 0xff"
  have data: "sv_data v = hex_bytes d" using v d by (simp add: collected_def)
  have out: "save_text v = map_option fst (vsprintf_loop ?m SREC3_FORMAT [word_of_int len, a, 1, k] [] [])"
    using v by (simp add: save_text_def collected_def Let_def len_def csum_def k_def)
  have str: "str_at ?m 1 (hex_bytes d)"
    unfolding data using d(2) hex_bytes_chars [of 0 d] by (intro str_at_overwrite) auto
  have ul: "unat (word_of_int len :: u32) = length d + 5" "(of_nat (length d + 5) :: u8) = of_nat (4 + length d + 1)"
  proof -
    have "(word_of_int len :: u32) = of_nat (length d + 5)" by (simp add: len_def)
    then show "unat (word_of_int len :: u32) = length d + 5" using d(2) by (simp add: unat_of_nat del: of_nat_add)
  qed simp
  have uk: "unat k < 256" using word_and_le1 [of "NOT (word_of_int csum)" "0xff :: u32"] by (simp add: k_def word_le_nat_alt)
  have n1: "number (word_of_int len) 16 2 (- 1) (ZEROPAD OR LARGE) = Some (hex_byte (of_nat (length d + 5)))"
    using number_hex_fixed [of "word_of_int len" 2] ul(1) d(2) hex_fixed_2 [of "length d + 5"] by simp
  have n2: "number a 16 8 (- 1) (ZEROPAD OR LARGE) = Some (hex_bytes (bytes_be32 a))"
    using number_hex_fixed [of a 8] unat_u32_less [of a] hex_fixed_word [of a] by simp
  have n3: "number k 16 2 (- 1) (ZEROPAD OR LARGE) = Some (hex_byte (of_nat (unat k)))"
    using number_hex_fixed [of k 2] uk hex_fixed_2 [of "unat k"] by simp
  have "vsprintf_loop ?m SREC3_FORMAT [word_of_int len, a, 1, k] [] [] =
      Some ([0x53, 0x33] @ hex_byte (of_nat (length d + 5)) @ hex_bytes (bytes_be32 a) @ hex_bytes d @ hex_byte (of_nat (unat k)) @ [0x0a], [])"
    using conversion_s [OF str, of "[0x25, 0x30, 0x32, 0x58, 0x0a]"] d(2)
    by (simp add: SREC3_FORMAT_def ascii_def conversion_02X conversion_08lX n1 n2 n3)
  moreover have "(of_nat (unat k) :: u8) = NOT (sum_list (srec_body (bytes_be32 a) d))"
  proof -
    have ds: "(word_of_int (sum_list (map uint d)) :: u8) = sum_list d"
      by (induction d) (simp_all del: wi_hom_syms add: wi_hom_add [symmetric])
    have "(word_of_int csum :: u8) = sum_list (srec_body (bytes_be32 a) d)"
      using d(2) by (simp add: csum_def len_def srec_body_def bytes_be32_def numeral_eq_Suc ds low_byte)
    moreover have "(ucast (word_of_int csum :: u32) :: u8) = word_of_int csum"
      by (rule bit_word_eqI) (simp add: bit_simps)
    ultimately have "(ucast k :: u8) = NOT (sum_list (srec_body (bytes_be32 a) d))"
      unfolding k_def low_byte(3) by simp
    then show ?thesis by simp
  qed
  ultimately show ?thesis
    unfolding out by (simp add: s3_line_def srec_line_def srec_body_def add.commute)
qed

text \<open>Writing: without Control-C on the line every record is written.\<close>

definition no_break :: "'c loader \<Rightarrow> bool" where
  "no_break s \<longleftrightarrow> Some 0x03 \<notin> set (ld_line s)"

text \<open>Two states of the sender that differ only in the line and in what has been written.\<close>

definition wrote :: "u8 list \<Rightarrow> 'c loader \<Rightarrow> 'c loader \<Rightarrow> bool" where
  "wrote out s s' \<longleftrightarrow> ld_env s' = ld_env s \<and> ld_ram s' = ld_ram s \<and> ld_out s' = ld_out s @ out \<and> no_break s'"

lemma write_record_ok: "no_break s \<Longrightarrow> \<exists>s'. write_record buf s = (0, s') \<and> wrote buf s s'"
  by (auto simp: write_record_def ctrlc_def no_break_def wrote_def line_tstc_def split: list.split option.split)

lemma wrote_trans: "wrote a s s' \<Longrightarrow> wrote b s' s'' \<Longrightarrow> wrote (a @ b) s s''"
  by (simp add: wrote_def)

lemma wrote_refl: "no_break s \<Longrightarrow> wrote [] s s"
  by (simp add: wrote_def)

lemma read_byte_wrote: "wrote a s s' \<Longrightarrow> read_byte view s' = read_byte view s"
  by (simp add: wrote_def read_byte_def fun_eq_iff)

lemma srec_dump_short: "d \<noteq> [] \<Longrightarrow> length d \<le> 16 \<Longrightarrow> srec_dump a d = s3_line a d @ [0x0a]"
  by (subst srec_dump.simps) (simp add: srec_dump.simps [of _ "[]"])

lemma srec_dump_full: "length d = 16 \<Longrightarrow> srec_dump a (d @ bs) = (s3_line a d @ [0x0a]) @ srec_dump (a + 16) bs"
  by (subst srec_dump.simps) (auto simp: srec_dump.simps [of _ "[]"])

lemma save_loop_writes:
  assumes "collected a d v" "length d < 16" "no_break s" "0 < count"
    "bs = map (\<lambda>i. read_byte view s (a + of_nat (length d) + of_nat i)) [0..<count]"
  shows "\<exists>s'. save_loop view count v s = Some (True, s') \<and> wrote (srec_dump a (d @ bs)) s s'"
  using assms
proof (induction count arbitrary: a d v s bs)
  case (Suc n)
  define c where "c = read_byte view s (a + of_nat (length d))"
  define v1 where "v1 = save_byte c v"
  define cs where "cs = map (\<lambda>i. read_byte view s (a + of_nat (length (d @ [c])) + of_nat i)) [0..<n]"
  have v1: "collected a (d @ [c]) v1" unfolding v1_def by (rule save_byte_collected [OF Suc.prems(1)])
  have c: "read_byte view s (sv_address v + of_nat (sv_reclen v)) = c"
    using Suc.prems(1) by (simp add: collected_def c_def)
  have bs: "bs = c # cs"
    unfolding Suc.prems(5) cs_def c_def by (simp add: upt_conv_Cons map_Suc_upt [symmetric] ac_simps del: upt_Suc)
  have r: "sv_reclen v1 = length (d @ [c])" using v1 by (simp add: collected_def)
  show ?case
  proof (cases "length (d @ [c]) = 16 \<or> n = 0")
    case True
    obtain s1 where s1: "write_record (s3_line a (d @ [c]) @ [0x0a]) s = (0, s1)" "wrote (s3_line a (d @ [c]) @ [0x0a]) s s1"
      using write_record_ok [OF Suc.prems(3)] by blast
    define v2 where "v2 = v1\<lparr>sv_address := sv_address v1 + of_nat (sv_reclen v1), sv_checksum := 0, sv_reclen := 0\<rparr>"
    have flush: "save_flush n v1 s = Some (Some v2, s1)"
      using True r save_text_line [OF v1] Suc.prems(2) s1(1)
      by (auto simp: save_flush_def SREC_BYTES_PER_RECORD_def v2_def)
    show ?thesis
    proof (cases "n = 0")
      case True
      then show ?thesis
        using flush s1(2) c srec_dump_short [of "d @ [c]" a] Suc.prems(2) by (simp add: bs cs_def v1_def)
    next
      case False
      then have l: "length (d @ [c]) = 16" using \<open>length (d @ [c]) = 16 \<or> n = 0\<close> by simp
      have "collected (a + 16) [] v2" using v1 r l by (simp add: collected_def v2_def)
      moreover have "cs = map (\<lambda>i. read_byte view s1 (a + 16 + of_nat (length ([] :: u8 list)) + of_nat i)) [0..<n]"
        unfolding cs_def l read_byte_wrote [OF s1(2)] by simp
      ultimately obtain s2 where "save_loop view n v2 s1 = Some (True, s2)" "wrote (srec_dump (a + 16) ([] @ cs)) s1 s2"
        using Suc.IH [of "a + 16" "[]" v2 s1 cs] False s1(2) by (auto simp: wrote_def)
      with flush s1(2) c False wrote_trans show ?thesis
        using srec_dump_full [OF l, of a cs] by (fastforce simp: bs v1_def)
    qed
  next
    case False
    then have "save_flush n v1 s = Some (Some v1, s)"
      using r by (simp add: save_flush_def SREC_BYTES_PER_RECORD_def)
    moreover obtain s' where "save_loop view n v1 s = Some (True, s')" "wrote (srec_dump a ((d @ [c]) @ cs)) s s'"
      using Suc.IH [OF v1 _ Suc.prems(3) _ cs_def] False Suc.prems(2) by auto
    ultimately show ?thesis
      using c False by (simp add: bs v1_def)
  qed
qed simp

lemma save_serial_writes:
  assumes "no_break s" and "bs = map (\<lambda>i. read_byte view s (a + of_nat i)) [0..<unat count]"
  shows "\<exists>s'. save_serial view a count s = Some (0, s') \<and> wrote (srec_text a bs) s s'"
proof -
  let ?v = "\<lparr>sv_address = a, sv_reclen = 0, sv_checksum = 0, sv_data = []\<rparr>"
  obtain s1 where s1: "write_record SREC3_START s = (0, s1)" "wrote SREC3_START s s1"
    using write_record_ok [OF assms(1)] by blast
  have "\<exists>s2. save_loop view (unat count) ?v s1 = Some (True, s2) \<and> wrote (srec_dump a bs) s1 s2"
  proof (cases "unat count")
    case 0
    then show ?thesis
      using s1(2) assms(2) by (simp add: save_flush_def wrote_def srec_dump.simps)
  next
    case (Suc n)
    have "bs = map (\<lambda>i. read_byte view s1 (a + of_nat (length ([] :: u8 list)) + of_nat i)) [0..<unat count]"
      unfolding assms(2) read_byte_wrote [OF s1(2)] by simp
    moreover have "no_break s1" using s1(2) by (simp add: wrote_def)
    ultimately have "\<exists>s2. save_loop view (unat count) ?v s1 = Some (True, s2) \<and> wrote (srec_dump a ([] @ bs)) s1 s2"
      using Suc by (intro save_loop_writes) (simp_all add: collected_def)
    then show ?thesis by simp
  qed
  then obtain s2 where s2: "save_loop view (unat count) ?v s1 = Some (True, s2)" "wrote (srec_dump a bs) s1 s2" by blast
  then have "no_break s2" by (simp add: wrote_def)
  from write_record_ok [OF this] obtain s3 where s3: "write_record SREC3_END s2 = (0, s3)" "wrote SREC3_END s2 s3" by blast
  show ?thesis
    using s1(1) s2(1) s3(1) wrote_trans [OF s1(2) wrote_trans [OF s2(2) s3(2)]]
    by (simp add: save_serial_def srec_text_def)
qed

section \<open>Reading records\<close>

lemma line_of_append [simp]: "line_of p (xs @ ys) = line_of p xs @ line_of p ys"
  by (simp add: line_of_def)

lemma line_getc_of: "line_getc (line_of p (c # cs) @ rest) = Some (c, line_of p cs @ rest)"
  by (simp add: line_of_def)

lemma line_tstc_of: "cs \<noteq> [] \<Longrightarrow> line_tstc (line_of True cs @ rest) = False"
  by (cases cs) (simp_all add: line_of_def line_tstc_def)

text \<open>The console is polled behind the characters only if they come in with pauses.\<close>

lemma read_chars_line:
  assumes "ld_line s = line_of p (cs @ [0x0a]) @ rest" "length cs < n" "hangup \<longrightarrow> p"
    "\<forall>c \<in> set cs. c \<noteq> 0 \<and> c \<noteq> 0x0a \<and> c \<noteq> 0x0d \<and> c \<noteq> 0x03"
  shows "read_chars hangup n buf s = Some (Some (buf @ cs),
    s\<lparr>ld_line := rest, ld_out := ld_out s @ (if do_echo s then cs @ [0x0a] else [])\<rparr>)"
  using assms
proof (induction cs arbitrary: n buf s)
  case Nil
  then obtain k where n: "n = Suc k" by (cases n) auto
  have "line_getc (ld_line s) = Some (0x0a, rest)" using Nil.prems(1) line_getc_of [of p "0x0a" "[]" rest] by (simp add: line_of_def)
  with n show ?case by simp
next
  case (Cons c cs)
  then obtain k where n: "n = Suc k" by (cases n) auto
  have g: "line_getc (ld_line s) = Some (c, line_of p (cs @ [0x0a]) @ rest)"
    using Cons.prems(1) line_getc_of [of p c "cs @ [0x0a]" rest] by simp
  define s1 where "s1 = s\<lparr>ld_line := line_of p (cs @ [0x0a]) @ rest, ld_out := (if do_echo s then ld_out s @ [c] else ld_out s)\<rparr>"
  have "ctrlc s1 = (False, s1)" if hangup
    using Cons.prems(3) that line_tstc_of [of "cs @ [0x0a]" rest] by (simp add: ctrlc_def s1_def)
  then have "read_chars hangup n buf s = read_chars hangup k (buf @ [c]) s1"
    using g Cons.prems(4) n by (simp add: s1_def Let_def)
  also have "\<dots> = Some (Some ((buf @ [c]) @ cs), s1\<lparr>ld_line := rest, ld_out := ld_out s1 @ (if do_echo s1 then cs @ [0x0a] else [])\<rparr>)"
    using Cons.prems n by (intro Cons.IH) (simp_all add: s1_def)
  finally show ?case by (simp add: s1_def)
qed

lemma be_value_address: "(of_nat (be_value (bytes_be32 a)) :: u32) = a"
proof -
  define n where "n = unat a"
  have "n div 256 div 256 div 256 < 256" using unat_u32_less [of a] by (simp add: n_def div_mult2_eq [symmetric] less_mult_imp_div_less)
  then have "be_value (bytes_be32 a) = 256 * (256 * (256 * (n div 256 div 256 div 256) + n div 256 div 256 mod 256) +
      n div 256 mod 256) + n mod 256"
    by (simp add: bytes_be32_nat n_def [symmetric] be_value_def unat_of_nat)
  also have "\<dots> = n" by simp
  finally show ?thesis by (simp add: n_def)
qed

lemma decode_s3_line:
  assumes "length d \<le> 16"
  shows "srec_decode (s3_line a d) n0 a0 = (SREC_DATA4, int (length d), a, d)"
  using srec_decode_line [of "bytes_be32 a" d "[]" "NOT (sum_list (srec_body (bytes_be32 a) d))" n0 a0] assms
  by (simp add: s3_line_def be_value_address SREC_DATA4_def)

lemma decode_start: "srec_decode (ascii ''S0030000FC'') n0 a0 = (SREC_START, 0, 0, [])"
proof -
  have "skip_to_S (ascii ''S0030000FC'') = 0x30 # hex_byte 3 @ hex_bytes [0, 0] @ hex_bytes [] @ hex_byte 0xFC" by code_simp
  from srec_decode_fields [OF this, of SREC_START n0 a0] show ?thesis
    by (simp add: srec_kind_def srec_addr_bytes_def be_value_def)
qed

lemma decode_end: "srec_decode (ascii ''S70500000000FA'') n0 a0 = (SREC_END4, 0, 0, [])"
proof -
  have "skip_to_S (ascii ''S70500000000FA'') = 0x37 # hex_byte 5 @ hex_bytes [0, 0, 0, 0] @ hex_bytes [] @ hex_byte 0xFA"
    by code_simp
  from srec_decode_fields [OF this, of SREC_END4 n0 a0] show ?thesis
    by (simp add: srec_kind_def srec_addr_bytes_def be_value_def)
qed

text \<open>One record of a dump: \<open>xs\<close> has been stored at \<open>base\<close>.\<close>

definition loaded_range :: "u32 \<Rightarrow> nat \<Rightarrow> load_vars \<Rightarrow> bool" where
  "loaded_range base n v \<longleftrightarrow>
     (if n = 0 then start_addr v = NOT 0 \<and> end_addr v = 0 else start_addr v = base \<and> end_addr v = base + of_nat n - 1)"

definition loaded :: "u32 \<Rightarrow> u8 list \<Rightarrow> serial_line \<Rightarrow> 'c loader \<Rightarrow> 'c loader \<Rightarrow> bool" where
  "loaded base xs line t t' \<longleftrightarrow>
     ld_env t' = ld_env t \<and> ld_ram t' = overwrite (ld_ram t) base xs \<and> ld_line t' = line \<and> do_echo t' = do_echo t"

lemma loaded_range_step:
  assumes "loaded_range base n v" "unat base + n + k \<le> 2 ^ 32" "0 < k"
  shows "loaded_range base (n + k)
    (let v = (if base + of_nat n < start_addr v then v\<lparr>start_addr := base + of_nat n\<rparr> else v);
         e = base + of_nat n + of_nat k - 1
     in if e > end_addr v then v\<lparr>end_addr := e\<rparr> else v)"
proof -
  have e: "base + of_nat n + of_nat k - 1 = base + of_nat (n + k - 1)"
    using assms(3) by (cases k) simp_all
  have u: "unat (base + of_nat i) = unat base + i" if "i < n + k" for i
    using that assms(2) by (intro unat_plus_of_nat) simp
  show ?thesis
  proof (cases "n = 0")
    case True
    have m: "\<not> base < start_addr v \<longleftrightarrow> base = start_addr v"
      using assms(1) True by (auto simp: loaded_range_def not_less word_order.extremum_unique)
    have z: "base + (of_nat k - 1) = 0 \<longleftrightarrow> base + of_nat k = 1" unfolding add_diff_eq by simp
    show ?thesis
      using assms(1,3) True m unfolding e by (auto simp: loaded_range_def Let_def not_less z)
  next
    case False
    then have l: "base + of_nat n - 1 = base + of_nat (n - 1)" by (cases n) simp_all
    have "\<not> base + of_nat n < base" using u [of n] assms(3) by (simp add: word_less_nat_alt)
    moreover have "base + of_nat (n - 1) < base + of_nat (n + k - 1)"
      using u [of "n - 1"] u [of "n + k - 1"] False assms(3) by (simp add: word_less_nat_alt)
    ultimately show ?thesis
      using assms(1,3) False l unfolding e by (auto simp: loaded_range_def Let_def)
  qed
qed

lemma load_record_data:
  assumes "length d \<le> 16" "d \<noteq> []" "\<not> addr2info (fl_info (ld_env t)) (a + off)" "loaded_range base n v"
    "a + off = base + of_nat n" "unat base + n + length d \<le> 2 ^ 32"
  shows "\<exists>v' t'. load_record bus view ca off (s3_line a d) v t = Some (Inr v', t') \<and> loaded_range base (n + length d) v' \<and>
    loaded (a + off) d (ld_line t) t t'"
proof -
  define v1 where "v1 = v\<lparr>lv_binlen := int (length d), lv_addr := a\<rparr>"
  define v2 where "v2 = (let v = (if base + of_nat n < start_addr v1 then v1\<lparr>start_addr := base + of_nat n\<rparr> else v1);
         e = base + of_nat n + of_nat (length d) - 1
     in if e > end_addr v then v\<lparr>end_addr := e\<rparr> else v)"
  have "loaded_range base n v1" using assms(4) by (simp add: loaded_range_def v1_def)
  then have v2: "loaded_range base (n + length d) v2"
    unfolding v2_def using assms(2,6) by (intro loaded_range_step) simp_all
  define t1 where "t1 = t\<lparr>ld_ram := overwrite (ld_ram t) (a + off) d\<rparr>"
  have st: "store_record bus (a + off) (int (length d)) d t = Some (0, t1)"
    using assms(3) by (simp add: store_record_def Let_def t1_def)
  have ty: "\<not> SREC_DATA4 < 0" "SREC_DATA4 \<in> {SREC_DATA2, SREC_DATA3, SREC_DATA4}" by (simp_all add: SREC_DATA4_def)
  have "load_record bus view ca off (s3_line a d) v t =
      Some (let m = line_count v2 + 1
            in if do_echo t1 then (Inr v2, t1)
               else (Inr (v2\<lparr>line_count := m\<rparr>), if m mod 100 = 0 then t1\<lparr>ld_out := ld_out t1 @ [0x2e]\<rparr> else t1))"
    unfolding load_record_def decode_s3_line [OF assms(1)] prod.case Let_def v1_def [symmetric]
    using ty st by (simp add: assms(5) [symmetric] v2_def Let_def)
  then show ?thesis
    using v2 by (auto simp: Let_def loaded_def t1_def loaded_range_def)
qed

lemma s3_line_chars:
  assumes "length d \<le> 16"
  shows "\<forall>c \<in> set (s3_line a d). c \<noteq> 0 \<and> c \<noteq> 0x0a \<and> c \<noteq> 0x0d \<and> c \<noteq> 0x03" "length (s3_line a d) < SREC_MAXRECLEN"
  using assms hex_bytes_chars
  by (auto simp: s3_line_def srec_line_def srec_body_def SREC_MAXRECLEN_def simp del: hex_bytes_append hex_bytes_Cons)

text \<open>The loop up to the next record.\<close>

lemma load_loop_line:
  assumes "ld_line t = line_of p (cs @ [0x0a]) @ rest" "length cs < SREC_MAXRECLEN" "hangup \<longrightarrow> p"
    "\<forall>c \<in> set cs. c \<noteq> 0 \<and> c \<noteq> 0x0a \<and> c \<noteq> 0x0d \<and> c \<noteq> 0x03"
  shows "\<exists>t1. loaded base [] rest t t1 \<and> load_loop hangup bus view ca off v t =
    (case load_record bus view ca off cs v t1 of
       None \<Rightarrow> None | Some (Inl a, s2) \<Rightarrow> Some (a, s2) | Some (Inr v2, s2) \<Rightarrow> load_loop hangup bus view ca off v2 s2)"
proof -
  let ?t = "t\<lparr>ld_line := rest, ld_out := ld_out t @ (if do_echo t then cs @ [0x0a] else [])\<rparr>"
  have "read_record hangup (SREC_MAXRECLEN + 1) t = Some (Some cs, ?t)"
    using read_chars_line [OF assms(1,2,3,4), of "[]"] by (simp add: read_record_def)
  then show ?thesis
    by (intro exI [of _ ?t]) (subst load_loop.simps, simp add: loaded_def)
qed

lemma overwrite_overwrite:
  assumes "length xs + length ys \<le> 2 ^ 32"
  shows "overwrite (overwrite m p xs) (p + of_nat (length xs)) ys = overwrite m p (xs @ ys)"
proof (cases "ys = []")
  case False
  show ?thesis
  proof
    fix a
    define i where "i = offset p a"
    have i: "i < 2 ^ 32" unfolding i_def by (rule offset_less)
    have "length xs < 2 ^ 32" using assms False by (cases ys) simp_all
    from offset_between [OF i this, of p]
    have o: "offset (p + of_nat (length xs)) a = (if length xs \<le> i then i - length xs else 2 ^ 32 - (length xs - i))"
      by (simp add: i_def)
    show "overwrite (overwrite m p xs) (p + of_nat (length xs)) ys a = overwrite m p (xs @ ys) a"
      unfolding overwrite_def o i_def [symmetric] using assms by (auto simp: nth_append)
  qed
qed simp

lemma loaded_trans:
  assumes "loaded base xs line t t1" "loaded (base + of_nat (length xs)) ys line' t1 t2" "length xs + length ys \<le> 2 ^ 32"
  shows "loaded base (xs @ ys) line' t t2"
  using assms by (simp add: loaded_def overwrite_overwrite)

lemma load_loop_dump:
  assumes "ld_line t = line_of p (srec_dump a bs @ tail) @ rest" "hangup \<longrightarrow> p" "loaded_range base n v"
    "a + off = base + of_nat n" "unat base + n + length bs \<le> 2 ^ 32"
    "\<forall>x \<in> area base (n + length bs). \<not> addr2info (fl_info (ld_env t)) x"
  shows "\<exists>v' t'. load_loop hangup bus view ca off v t = load_loop hangup bus view ca off v' t' \<and>
    loaded_range base (n + length bs) v' \<and> loaded (a + off) bs (line_of p tail @ rest) t t'"
  using assms
proof (induction a bs arbitrary: n v t rule: srec_dump.induct)
  case (1 a bs)
  show ?case
  proof (cases "bs = []")
    case True
    then have "loaded (a + off) bs (line_of p tail @ rest) t t"
      using "1.prems"(1) by (simp add: loaded_def srec_dump.simps)
    then show ?thesis using "1.prems"(3) True by auto
  next
    case False
    define d where "d = take 16 bs"
    define r where "r = drop 16 bs"
    have d: "length d \<le> 16" "d \<noteq> []" "bs = d @ r" using False by (simp_all add: d_def r_def)
    have "srec_dump a bs = s3_line a d @ 0x0a # srec_dump (a + of_nat (length d)) r"
      using False by (subst srec_dump.simps) (simp add: d_def r_def)
    then have line: "ld_line t = line_of p (s3_line a d @ [0x0a]) @ line_of p (srec_dump (a + of_nat (length d)) r @ tail) @ rest"
      using "1.prems"(1) by (simp add: line_of_def)
    obtain t1 where t1: "loaded (a + off) [] (line_of p (srec_dump (a + of_nat (length d)) r @ tail) @ rest) t t1"
      "load_loop hangup bus view ca off v t = (case load_record bus view ca off (s3_line a d) v t1 of
         None \<Rightarrow> None | Some (Inl a, s2) \<Rightarrow> Some (a, s2) | Some (Inr v2, s2) \<Rightarrow> load_loop hangup bus view ca off v2 s2)"
      using load_loop_line [OF line s3_line_chars(2) [OF d(1)] "1.prems"(2) s3_line_chars(1) [OF d(1)], of "a + off"] by blast
    have "unat base + n < 2 ^ 32" using "1.prems"(5) d by (cases d) simp_all
    then have "a + off \<in> area base (n + length bs)"
      using d by (simp add: "1.prems"(4) area_def)
    then have flash: "\<not> addr2info (fl_info (ld_env t1)) (a + off)"
      using "1.prems"(6) t1(1) by (simp add: loaded_def)
    obtain v2 t2 where t2: "load_record bus view ca off (s3_line a d) v t1 = Some (Inr v2, t2)"
      "loaded_range base (n + length d) v2" "loaded (a + off) d (ld_line t1) t1 t2"
      using load_record_data [OF d(1,2) flash "1.prems"(3,4), of bus view ca] "1.prems"(5) d(3) by auto
    have t: "loaded (a + off) d (line_of p (srec_dump (a + of_nat (length d)) r @ tail) @ rest) t t2"
      using t1(1) t2(3) by (simp add: loaded_def)
    have "\<exists>v' t'. load_loop hangup bus view ca off v2 t2 = load_loop hangup bus view ca off v' t' \<and>
        loaded_range base ((n + length d) + length r) v' \<and>
        loaded ((a + of_nat (length d)) + off) r (line_of p tail @ rest) t2 t'"
      using "1.IH" [OF False, folded d_def r_def, of t2 "n + length d" v2] t t2(2) "1.prems" d(3)
      by (simp add: loaded_def ac_simps)
    then obtain v' t' where t': "load_loop hangup bus view ca off v2 t2 = load_loop hangup bus view ca off v' t'"
      "loaded_range base (n + length bs) v'" "loaded ((a + off) + of_nat (length d)) r (line_of p tail @ rest) t2 t'"
      using d(3) by (auto simp: ac_simps)
    have "length d + length r \<le> 2 ^ 32" using "1.prems"(5) d(3) by simp
    from loaded_trans [OF t t'(3) this] show ?thesis
      using t1(2) t2(1) t'(1,2) d(3) by (intro exI [of _ v'] exI [of _ t']) simp
  qed
qed

text \<open>The variable \<open>filesize\<close>, in upper case hexadecimal digits.\<close>

definition with_filesize :: "vars \<Rightarrow> nat \<Rightarrow> vars" where
  "with_filesize vars n =
     del_var vars (ascii ''filesize'') @ [(ascii ''filesize'', digit_string True 16 (of_nat n))]"

lemma setenv_filesize:
  assumes "env_ok (ld_env t) vars" "length (env_text (with_filesize vars n)) < ENV_SIZE"
    "fmt = ascii ''%lX'' \<or> fmt = ascii ''%X''"
  shows "\<exists>env. setenv_hex_of view ca fmt (of_nat n) t = Some (t\<lparr>ld_env := env\<rparr>) \<and> env_ok env (with_filesize vars n)"
proof -
  let ?d = "digit_string True 16 (of_nat n)"
  have "number (of_nat n) 16 (- 1) (- 1) LARGE = Some ?d"
    using number_plain [of 16 LARGE False True "of_nat n"] by (simp add: LARGE_def)
  then have f: "vsprintf_loop (\<lambda>_. 0) fmt [of_nat n] [] [] = Some (?d, [])"
    using assms(3)
    by (auto simp: ascii_def conversion_def fmt_width_def fmt_precision_def fmt_qualifier_def conv_base_def conv_num_def Let_def)
  have name: "ok_name (ascii ''filesize'')" "plain_name (ascii ''filesize'')"
    by (simp_all add: ok_name_def plain_name_def ascii_def)
  have "\<forall>v \<in> set [?d]. 0 \<notin> set v" using digit_string_props(1) [of 16] by simp
  from do_setenv_result [OF assms(1) name this, of view ca] obtain env where
    "do_setenv_env view ca (ld_env t) (ascii ''filesize'') [?d] = Some (0, env)" "env_ok env (with_filesize vars n)"
    using assms(2) by (auto simp: with_filesize_def)
  then show ?thesis
    by (auto simp: setenv_hex_of_def f setenv_def)
qed

lemma load_record_start:
  assumes "loaded_range base n v"
  shows "\<exists>v' t'. load_record bus view ca off (ascii ''S0030000FC'') v t = Some (Inr v', t') \<and> loaded_range base n v' \<and>
    loaded base [] (ld_line t) t t'"
  using assms
  by (cases "do_echo t")
    (auto simp: load_record_def decode_start SREC_START_def SREC_DATA2_def SREC_DATA3_def SREC_DATA4_def SREC_END2_def
      SREC_END3_def SREC_END4_def Let_def loaded_range_def loaded_def)

lemma load_serial_reads:
  assumes line: "ld_line t = line_of p (srec_text a bs) @ rest" and p: "hangup \<longrightarrow> p" and bs: "bs \<noteq> []"
    and room: "unat (a + off) + length bs \<le> 2 ^ 32"
    and flash: "\<forall>x \<in> area (a + off) (length bs). \<not> addr2info (fl_info (ld_env t)) x"
    and env: "env_ok (ld_env t) vars" "length (env_text (with_filesize vars (length bs))) < ENV_SIZE"
  shows "\<exists>t'. load_serial hangup bus view ca off t = Some (0, t') \<and>
    ld_ram t' = overwrite (ld_ram t) (a + off) bs \<and> ld_line t' = rest \<and> env_ok (ld_env t') (with_filesize vars (length bs))"
proof -
  let ?loop = "load_loop hangup bus view ca off" and ?base = "a + off"
  let ?v = "\<lparr>lv_binlen = 0, lv_addr = 0, start_addr = NOT 0, end_addr = 0, line_count = 0\<rparr> :: load_vars"
  note plain = ascii_def SREC_MAXRECLEN_def
  have l0: "ld_line t = line_of p (ascii ''S0030000FC'' @ [0x0a]) @ line_of p (srec_dump a bs @ SREC3_END) @ rest"
    using line by (simp add: srec_text_def SREC3_START_def line_of_def)
  obtain t1 where t1: "loaded ?base [] (line_of p (srec_dump a bs @ SREC3_END) @ rest) t t1"
    "?loop ?v t = (case load_record bus view ca off (ascii ''S0030000FC'') ?v t1 of
       None \<Rightarrow> None | Some (Inl a, s2) \<Rightarrow> Some (a, s2) | Some (Inr v2, s2) \<Rightarrow> ?loop v2 s2)"
    using load_loop_line [OF l0 _ p, of ?base bus view ca off ?v] by (auto simp: plain)
  obtain v2 t2 where t2: "load_record bus view ca off (ascii ''S0030000FC'') ?v t1 = Some (Inr v2, t2)"
    "loaded_range ?base 0 v2" "loaded ?base [] (ld_line t1) t1 t2"
    using load_record_start [of ?base 0 ?v bus view ca off t1] by (auto simp: loaded_range_def)
  have "ld_line t2 = line_of p (srec_dump a bs @ SREC3_END) @ rest" "a + off = ?base + of_nat 0"
    using t1(1) t2(3) by (simp_all add: loaded_def)
  from load_loop_dump [OF this(1) p t2(2) this(2), of bus view ca] room flash t1(1) t2(3)
  obtain v3 t3 where t3: "?loop v2 t2 = ?loop v3 t3" "loaded_range ?base (length bs) v3"
    "loaded ?base bs (line_of p SREC3_END @ rest) t2 t3"
    by (auto simp: loaded_def)
  have "ld_line t3 = line_of p (ascii ''S70500000000FA'' @ [0x0a]) @ rest" using t3(3) by (simp add: loaded_def SREC3_END_def)
  from load_loop_line [OF this _ p, of ?base bus view ca off v3]
  obtain t4 where t4: "loaded ?base [] rest t3 t4"
    "?loop v3 t3 = (case load_record bus view ca off (ascii ''S70500000000FA'') v3 t4 of
       None \<Rightarrow> None | Some (Inl a, s2) \<Rightarrow> Some (a, s2) | Some (Inr v2, s2) \<Rightarrow> ?loop v2 s2)"
    by (auto simp: plain)
  have same: "ld_env t4 = ld_env t" "ld_ram t4 = overwrite (ld_ram t) ?base bs" "ld_line t4 = rest"
    using t1(1) t2(3) t3(3) t4(1) by (simp_all add: loaded_def)
  have sz: "end_addr v3 - start_addr v3 + 1 = of_nat (length bs)" using t3(2) bs by (simp add: loaded_range_def)
  obtain env where env': "setenv_hex_of view ca (ascii ''%lX'') (of_nat (length bs)) t4 = Some (t4\<lparr>ld_env := env\<rparr>)"
    "env_ok env (with_filesize vars (length bs))"
    using setenv_filesize [of t4 vars "length bs" "ascii ''%lX''" view ca] env same(1) by auto
  then have "load_record bus view ca off (ascii ''S70500000000FA'') v3 t4 = Some (Inl 0, t4\<lparr>ld_env := env\<rparr>)"
    using sz by (simp add: load_record_def decode_end SREC_START_def SREC_DATA2_def SREC_DATA3_def SREC_DATA4_def SREC_END2_def
        SREC_END3_def SREC_END4_def Let_def)
  then have "load_serial hangup bus view ca off t = Some (0, t4\<lparr>ld_env := env\<rparr>)"
    using t1(2) t2(1) t3(1) t4(2) by (simp add: load_serial_def)
  then show ?thesis using same env'(2) by simp
qed

section \<open>The Kermit download as a command\<close>

text \<open>A file sent in a Kermit session is loaded at the address given, and \<open>filesize\<close> is set.\<close>

lemma loadb_receives:
  assumes ses: "session 0 ((SEND_TYPE, parms) # ps @ [(BREAK_TYPE, bx)]) line"
    and ps: "\<forall>(ty, d) \<in> set ps. ty \<noteq> SEND_TYPE \<and> ty \<noteq> BREAK_TYPE"
    and enc: "data_text ps = kermit_encode (quote_of parms) contents" "ktrans (quote_of parms) = quote_of parms"
    and line: "line_chars (ld_line s) = line @ rest" "length (line @ rest) \<le> 2 ^ 32"
    and buf: "length (send_parms (ld_kermit s)) = SEND_DATA_SIZE" and arg: "str_strtoul arg 16 = Some (off, r)" "off \<noteq> NOT 0"
    and env: "env_ok (ld_env s) vars" "map_of vars (ascii ''loadaddr'') = None"
      "length (env_text (with_filesize vars (length contents))) < ENV_SIZE"
  shows "\<exists>s'. do_load_serial_bin view ca [arg] s = Some (0, s') \<and> load (ld_ram s') off (length contents) = contents \<and>
    load_addr (ld_env s') = off \<and> env_ok (ld_env s') (with_filesize vars (length contents))"
proof -
  let ?k = "(ld_kermit s)\<lparr>k_in := line @ rest, k_out := ld_out s, k_mem := ld_ram s\<rparr>"
  obtain k' where k': "k_recv (set_kerm_bin_mode off ?k) = Some (of_nat (length contents), k')"
    "load (k_mem k') off (length contents) = contents"
    using kermit_session_received [OF ses, of ?k rest off] ps line(2) buf unquote_encode [OF enc(2), of contents]
    by (auto simp: file_received_def enc(1))
  then obtain s1 where s1: "k_recv_line off s = Some (of_nat (length contents), s1)" "ld_ram s1 = k_mem k'" "ld_env s1 = ld_env s"
    using line(1) by (auto simp: k_recv_line_def Let_def)
  obtain e where e: "setenv_hex_of view ca (ascii ''%X'') (of_nat (length contents)) (gather_trailing s1) =
      Some ((gather_trailing s1)\<lparr>ld_env := e\<rparr>)" "env_ok e (with_filesize vars (length contents))"
    using setenv_filesize [of "gather_trailing s1" vars "length contents" "ascii ''%X''" view ca] env(1,3) s1(3)
    by (auto simp: gather_trailing_def)
  have "getenv view (ld_env s) (ascii ''loadaddr'') = Some None"
    using getenv_lookup [OF env(1), of "ascii ''loadaddr''" view] env(2) by (simp add: ok_name_def ascii_def)
  then have "do_load_serial_bin view ca [arg] s = Some (0, (gather_trailing s1)\<lparr>ld_env := e\<lparr>load_addr := off\<rparr>\<rparr>)"
    using arg s1(1) e(1) by (simp add: do_load_serial_bin_def load_serial_bin_def Let_def)
  then show ?thesis
    using k'(2) s1(2) e(2) by (simp add: gather_trailing_def env_ok_def)
qed

text \<open>Control-C ends the download; the command takes it for a success with no bytes.\<close>

lemma loadb_abort_unnoticed:
  assumes "k_recv_line off s = Some (n, s1)" and "off \<noteq> NOT 0"
    and "getenv view (ld_env s) (ascii ''loadaddr'') = Some None" and "str_strtoul arg 16 = Some (off, r)"
    and "do_load_serial_bin view ca [arg] s = Some (rcode, s')"
  shows "rcode = 0"
  using assms by (auto simp: do_load_serial_bin_def load_serial_bin_def bind_eq_Some_conv Let_def split: if_splits)

text \<open>
  What is loaded when no data record comes: \<open>filesize\<close> is set to 2.
\<close>

lemma loads_without_data:
  assumes "ld_line t = line_of p (SREC3_START @ SREC3_END) @ rest" and "hangup \<longrightarrow> p" and "env_ok (ld_env t) vars"
    and "length (env_text (with_filesize vars 2)) < ENV_SIZE"
  shows "\<exists>t'. load_serial hangup bus view ca off t = Some (0, t') \<and> ld_ram t' = ld_ram t \<and>
    env_ok (ld_env t') (with_filesize vars 2)"
proof -
  let ?loop = "load_loop hangup bus view ca off"
  let ?v = "\<lparr>lv_binlen = 0, lv_addr = 0, start_addr = NOT 0, end_addr = 0, line_count = 0\<rparr> :: load_vars"
  note plain = ascii_def SREC_MAXRECLEN_def
  have l0: "ld_line t = line_of p (ascii ''S0030000FC'' @ [0x0a]) @ line_of p SREC3_END @ rest"
    using assms(1) by (simp add: SREC3_START_def line_of_def)
  obtain t1 where t1: "loaded 0 [] (line_of p SREC3_END @ rest) t t1"
    "?loop ?v t = (case load_record bus view ca off (ascii ''S0030000FC'') ?v t1 of
       None \<Rightarrow> None | Some (Inl a, s2) \<Rightarrow> Some (a, s2) | Some (Inr v2, s2) \<Rightarrow> ?loop v2 s2)"
    using load_loop_line [OF l0 _ assms(2), of 0 bus view ca off ?v] by (auto simp: plain)
  obtain v2 t2 where t2: "load_record bus view ca off (ascii ''S0030000FC'') ?v t1 = Some (Inr v2, t2)"
    "loaded_range 0 0 v2" "loaded 0 [] (ld_line t1) t1 t2"
    using load_record_start [of 0 0 ?v bus view ca off t1] by (auto simp: loaded_range_def)
  have "ld_line t2 = line_of p (ascii ''S70500000000FA'' @ [0x0a]) @ rest"
    using t1(1) t2(3) by (simp add: loaded_def SREC3_END_def)
  from load_loop_line [OF this _ assms(2), of 0 bus view ca off v2]
  obtain t4 where t4: "loaded 0 [] rest t2 t4"
    "?loop v2 t2 = (case load_record bus view ca off (ascii ''S70500000000FA'') v2 t4 of
       None \<Rightarrow> None | Some (Inl a, s2) \<Rightarrow> Some (a, s2) | Some (Inr v2, s2) \<Rightarrow> ?loop v2 s2)"
    by (auto simp: plain)
  have same: "ld_env t4 = ld_env t" "ld_ram t4 = ld_ram t" using t1(1) t2(3) t4(1) by (simp_all add: loaded_def)
  have sz: "end_addr v2 - start_addr v2 + 1 = of_nat 2" using t2(2) by (simp add: loaded_range_def)
  obtain env where env: "setenv_hex_of view ca (ascii ''%lX'') (of_nat 2) t4 = Some (t4\<lparr>ld_env := env\<rparr>)"
    "env_ok env (with_filesize vars 2)"
    using setenv_filesize [of t4 vars 2 "ascii ''%lX''" view ca] assms(3,4) same(1) by auto
  then have "load_record bus view ca off (ascii ''S70500000000FA'') v2 t4 = Some (Inl 0, t4\<lparr>ld_env := env\<rparr>)"
    using sz by (simp add: load_record_def decode_end SREC_START_def SREC_DATA2_def SREC_DATA3_def SREC_DATA4_def SREC_END2_def
        SREC_END3_def SREC_END4_def Let_def)
  then have "load_serial hangup bus view ca off t = Some (0, t4\<lparr>ld_env := env\<rparr>)"
    using t1(2) t2(1) t4(2) by (simp add: load_serial_def)
  then show ?thesis using same env(2) by simp
qed

text \<open>Characters that come in without pauses: the poll behind each character takes the next one away.\<close>

lemma read_record_drops_characters:
  assumes "ld_line s = map Some (concat (map (\<lambda>(c, x). [c, x]) ps) @ [0x0a]) @ rest" and "length ps < n" and "\<not> do_echo s"
    and "\<forall>(c, x) \<in> set ps. c \<noteq> 0 \<and> c \<noteq> 0x0a \<and> c \<noteq> 0x0d \<and> c \<noteq> 0x03 \<and> x \<noteq> 0x03"
  shows "read_record True (n + 1) s = Some (Some (map fst ps), s\<lparr>ld_line := rest\<rparr>)"
proof -
  have "read_chars True n buf s = Some (Some (buf @ map fst ps), s\<lparr>ld_line := rest\<rparr>)" for buf
    using assms
  proof (induction ps arbitrary: n buf s)
    case Nil
    then show ?case by (cases n) auto
  next
    case (Cons q ps)
    obtain c x where q: "q = (c, x)" by (cases q)
    obtain k where n: "n = Suc k" using Cons.prems(2) by (cases n) auto
    let ?s = "s\<lparr>ld_line := map Some (concat (map (\<lambda>(c, x). [c, x]) ps) @ [0x0a]) @ rest\<rparr>"
    have "read_chars True n buf s = read_chars True k (buf @ [c]) ?s"
      using Cons.prems q n by (simp add: ctrlc_def line_tstc_def Let_def)
    also have "\<dots> = Some (Some ((buf @ [c]) @ map fst ps), ?s\<lparr>ld_line := rest\<rparr>)"
      using Cons.prems n by (intro Cons.IH) auto
    finally show ?case by (simp add: q)
  qed
  then show ?thesis by (simp add: read_record_def)
qed

section \<open>Properties\<close>

text \<open>
  C11: Saving and loading are inverse: the records that \<open>save_serial\<close> writes for an area of memory, sent to a board that
  runs \<open>loads\<close>, are stored there at the same addresses plus the offset; the bytes are those that were read,
  nothing else in memory changes, \<open>filesize\<close> is set to their number and the start address is 0. The area must not
  touch the flash, and when the console is polled behind each character, the characters must come with pauses.
\<close>

theorem saves_loads_roundtrip:
  assumes "no_break s" and "0 < count" and "bs = map (\<lambda>i. read_byte view s (address + of_nat i)) [0..<unat count]"
    and "ld_line t = line_of paced (srec_text address bs) @ rest" and "hangup \<longrightarrow> paced"
    and "unat (address + off) + unat count \<le> 2 ^ 32"
    and "\<forall>x \<in> area (address + off) (unat count). \<not> addr2info (fl_info (ld_env t)) x"
    and "env_ok (ld_env t) vars" and "length (env_text (with_filesize vars (unat count))) < ENV_SIZE"
  shows "(\<exists>s'. save_serial view address count s = Some (0, s') \<and> ld_out s' = ld_out s @ srec_text address bs) \<and>
    (\<exists>t'. load_serial hangup bus view' ca off t = Some (0, t') \<and> ld_ram t' = overwrite (ld_ram t) (address + off) bs \<and>
      ld_line t' = rest \<and> env_ok (ld_env t') (with_filesize vars (unat count)))"
proof -
  have l: "length bs = unat count" by (simp add: assms(3))
  then have "bs \<noteq> []" using assms(2) by (auto simp: word_less_nat_alt)
  from load_serial_reads [OF assms(4,5) this, of off vars bus view' ca] assms(6-9) l
  show ?thesis
    using save_serial_writes [OF assms(1,3)] by (auto simp: wrote_def)
qed

theorem saves_loads_roundtrip_witness:
  "(\<exists>s'. save_serial (\<lambda>_ _. 0) 0x1001 2 (sample_loader []) = Some (0, s') \<and>
      ld_out s' = ld_out (sample_loader []) @ srec_text 0x1001 [1, 2]) \<and>
    (\<exists>t'. load_serial True sample_bus (\<lambda>_ _. 0) (\<lambda>_ _. 0) 0 (sample_loader (line_of True (srec_text 0x1001 [1, 2]) @ [])) = Some (0, t') \<and>
      ld_ram t' = overwrite (ld_ram (sample_loader (line_of True (srec_text 0x1001 [1, 2]) @ []))) (0x1001 + 0) [1, 2] \<and>
      ld_line t' = [] \<and> env_ok (ld_env t') (with_filesize default_vars (unat (2 :: u32))))"
proof (rule saves_loads_roundtrip [where paced = True])
  have low: "\<not> addr2info (fl_info (ld_env (sample_loader line))) x" if "unat x < 0x2000" for line x
    using that by (simp add: sample_loader_def default_state_def addr2info_def word_le_nat_alt unat_flash_start)
  show "[1, 2] = map (\<lambda>i. read_byte (\<lambda>_ _. 0) (sample_loader []) (0x1001 + of_nat i)) [0..<unat (2 :: u32)]"
  proof -
    have r: "read_byte (\<lambda>_ _. 0) (sample_loader []) x = ucast x" if "unat x < 0x2000" for x
      using low [OF that, of "[]"] by (simp add: read_byte_def) (simp add: sample_loader_def)
    have "[0..<unat (2 :: u32)] = [0, 1]" by (simp add: upt_rec)
    then show ?thesis by (simp add: r)
  qed
  show "\<forall>x \<in> area (0x1001 + 0) (unat (2 :: u32)).
      \<not> addr2info (fl_info (ld_env (sample_loader (line_of True (srec_text 0x1001 [1, 2]) @ [])))) x"
    using low by (auto simp: area_nowrap)
  have "length (digit_string True 16 (of_nat (unat (2 :: u32)))) \<le> 8"
    using unat_u32_less by (intro digit_string_length) simp_all
  then show "length (env_text (with_filesize default_vars (unat (2 :: u32)))) < ENV_SIZE"
    by (simp add: with_filesize_def default_vars_def del_var_def env_text_def entry_def ascii_def ENV_SIZE_def CONFIG_ENV_SIZE_def
        ENV_HEADER_SIZE_def)
qed (simp_all add: no_break_def sample_loader_def default_state_ok)

end
