(* ===== verification/Spec2Isabelle.thy ===== *)
theory Spec2Isabelle
  imports Prelude Lib_Crc Lib_Sha1 Lib_Sha256 Lib_Md5 Lib_String Lib_Lmb Lib_Vsprintf S_Record Circbuf Env_Flash Bootm Net_Ping Tftp_Transfer Nfs_Transfer Dhcp
    Serial_Roundtrip
begin

text \<open>
  This development verifies the core of the boot monitor of the OpenRISC system in this repository: the
  port of U-Boot 2009.03 to the board \<^verbatim>\<open>de2_ep2c70_or1k\<close>, under
  \<^verbatim>\<open>src/sw/u-boot-2009.03-orsoc-de2-2c70\<close> (paths below are relative to it). The target is a big-endian
  32-bit OpenRISC processor without a watchdog; the configuration is
  \<^verbatim>\<open>include/configs/de2_ep2c70_or1k.h\<close>.

  \<^bold>\<open>Conventions.\<close> Machine integers are words of their width, so that overflow is part of the model.
  Memory is a total map from 32-bit addresses to bytes (\<open>C_Memory\<close>); loops that walk through memory are
  \<open>partial_function (option)\<close> and the theorems say that they return. Arrays with a bound are lists, and an
  access outside of them is \<open>None\<close>. Loops with an obvious bound are recursive functions; nothing has
  artificial fuel. Messages, delays and progress codes are left out of the models.

  \<^bold>\<open>Shared theories.\<close> \<open>Prelude\<close> has the types, the conversion between bytes and words and generic lemmas;
  \<open>Chunked\<close> the chunk loop of the watchdog variants with the locale \<open>incremental\<close> (feeding a message in
  pieces); \<open>Block_Hash\<close> the buffering of block hashes with the locale \<open>digest\<close>; \<open>C_Memory\<close> areas and strings
  in memory.

  \<^bold>\<open>Library routines\<close> (\<^verbatim>\<open>lib_generic\<close>).
  \<^item> \<open>Lib_Crc\<close>: \<^verbatim>\<open>crc32.c\<close> and \<^verbatim>\<open>crc16.c\<close>. The literal table is the generated one, the unrolled loops compute
    the bit-serial division register (locale \<open>linear_register\<close>, interpreted for both polynomials), and a
    change within four bytes is always detected.
  \<^item> \<open>Lib_Sha1\<close>, \<open>Lib_Sha256\<close>, \<open>Lib_Md5\<close>: the context machinery of \<^verbatim>\<open>sha1.c\<close>, \<^verbatim>\<open>sha256.c\<close>, \<^verbatim>\<open>md5.c\<close>
    against FIPS 180 and RFC 1321 written over whole messages; each is an interpretation of \<open>digest\<close>.
    \<open>Md5_Sines\<close> has the table of RFC 1321 and the proof that it is \<open>2 ^ 32 * |sin i|\<close>; the constants of SHA-256
    are shown to be the cube roots of the primes.
  \<^item> \<open>Lib_String\<close>: \<^verbatim>\<open>string.c\<close> on memory, with overlap (locale \<open>block_copy\<close>), termination and results.
  \<^item> \<open>Lib_Lmb\<close>: \<^verbatim>\<open>lmb.c\<close>, the table of memory regions: sortedness, disjointness, the set of addresses, and
    the allocator.
  \<^item> \<open>Lib_Ctype\<close>, \<open>Lib_Vsprintf\<close>: character classes, number parsing and formatted output, with round trips.

  \<^bold>\<open>Data formats and buffers\<close> (\<^verbatim>\<open>common\<close>).
  \<^item> \<open>S_Record\<close>: \<^verbatim>\<open>s_record.c\<close>, decoding and encoding of Motorola records.
  \<^item> \<open>Circbuf\<close>: \<^verbatim>\<open>circbuf.c\<close>, a ring in memory that refines a bounded queue (locale \<open>bounded_fifo\<close>).

  \<^bold>\<open>Flash and environment.\<close>
  \<^item> \<open>Flash_Driver\<close>: \<^verbatim>\<open>board/sdust/common/S29GL064A_04.c\<close> over a device given by its bus operations;
    \<open>Flash_Sect\<close>: \<^verbatim>\<open>common/flash.c\<close> and \<^verbatim>\<open>common/cmd_flash.c\<close>. What the driver relies on of the device is the
    hypothesis \<open>nor_chip\<close>: how the chip answers single bus cycles, by the command table of its data sheet (unlock
    cycles, sector erase 0x30, chip erase 0x10, program 0xA0, inverted DQ7 until an operation is over); that the
    cycles the driver sends erase a sector or program a word is proved from it. An operation is over within 4000
    ticks of the 20 Hz timer, below both limits of the driver, and the driver's delays take at most five times as long as asked.
    \<open>Nor_Model\<close> is a concrete device for which the hypothesis holds.
  \<^item> \<open>Env_Area\<close>, \<open>Env_Store\<close>, \<open>Env_Flash\<close>: \<^verbatim>\<open>cmd_nvedit.c\<close>, \<^verbatim>\<open>env_common.c\<close>, \<^verbatim>\<open>env_flash.c\<close>. The byte array
    refines a list of variables (locale \<open>variable_store\<close>; \<open>set_var\<close> is the update of the list, overflow included), and a saved variable survives a reset, through
    the flash layer and the checksum.

  \<^bold>\<open>Images and booting.\<close>
  \<^item> \<open>Image_Legacy\<close>: the image header, its checks (locale \<open>image_checker\<close>, interpreted for kernels and
    ramdisks) and multi-component images of \<^verbatim>\<open>common/image.c\<close>; \<open>Mkimage\<close>: \<^verbatim>\<open>tools/mkimage.c\<close>, which writes
    them; \<open>Command_Table\<close>: command lookup of \<^verbatim>\<open>common/command.c\<close>; \<open>Bootm\<close>: the command \<open>bootm\<close> of
    \<^verbatim>\<open>common/cmd_bootm.c\<close> with its state machine of subcommands and \<^verbatim>\<open>lib_or1k/bootm.c\<close>.

  \<^bold>\<open>Network\<close> (\<^verbatim>\<open>net\<close>).
  \<^item> \<open>Net_Packet\<close>: the packet layer of \<^verbatim>\<open>net.c\<close>: checksums, headers, ARP, \<open>NetReceive\<close>; the state is an
    extensible record, packets sent are collected, a received packet lies in memory. A packet sent is
    received by a host that runs the same code, and ARP resolves an unknown address. The locale
    \<open>packet_invariant\<close> says what a protocol has to show for an invariant to survive every packet; it extends
    \<open>packet_kept\<close>, the same for a set of packets.
  \<^item> \<open>Net_Addr\<close>: addresses as text; \<open>Tftp\<close>: the client of \<^verbatim>\<open>tftp.c\<close>, whose record extends that of the packet layer.
    \<open>Nfs\<close> and \<open>Bootp\<close>: the clients of \<^verbatim>\<open>nfs.c\<close>, \<^verbatim>\<open>bootp.c\<close> (DHCP) and \<^verbatim>\<open>rarp.c\<close>, whose records extend it further.
  \<^item> \<open>Net_Loop\<close>: \<open>NetLoop\<close> with these protocols and ping over a list of iterations (packets, ctrl-C, time); running
    out of iterations means that the loop still waits. Packets come through \<open>eth_rx\<close> of \<^verbatim>\<open>drivers/net/dm9000x.c\<close>,
    which checks readiness, status and length; \<open>wire\<close> is an intact frame with its padding and check sequence.
    \<open>Net_Ping\<close>: a ping of a host that runs this code succeeds. \<open>Tftp_Transfer\<close>: the inductive relation of all
    runs of a transfer with its invariant, and the download of a file from the command to the result.
  \<^item> \<open>Nfs_Transfer\<close>: the same for NFS with a server that answers from the calls alone; what a silent server and a
    relative link lead to. \<open>Dhcp\<close>: options as a list that the scanning of a message refines, and the exchange
    of four messages.

  \<^bold>\<open>Serial downloads\<close> (\<^verbatim>\<open>common/cmd_load.c\<close>).
  \<^item> \<open>Kermit\<close>: the Kermit receiver behind \<open>loadb\<close>; the characters still to come are a list, and waiting for one
    more than there are is \<open>None\<close>. \<open>Kermit_Line\<close>: senders and noisy lines as inductive relations; a file whose
    packets are repeated until they come through arrives, by way of the locale \<open>data_sink\<close>, which states what a
    layer with a checkpoint promises; and the damage that does lose data.
  \<^item> \<open>Serial_Load\<close>: the commands \<open>loads\<close>, \<open>saves\<close> and \<open>loadb\<close> over a line of characters and pauses;
    \<open>Serial_Roundtrip\<close>: what is saved is loaded again.

  \<^bold>\<open>Parameters.\<close> The flash device (bus operations), what the processor reads from flash (\<open>view\<close>), the
  allocator, \<open>console_assign\<close>, \<open>gunzip\<close>, the clock and the registers of the ethernet controller are arguments of the
  definitions that use them.

  \<^bold>\<open>Not modelled.\<close> The Verilog of \<^verbatim>\<open>src/rtl\<close>; the Linux kernel, busybox, and other third-party code in
  the repository; the other boards and processors of U-Boot; drivers for hardware other than the flash, of the ethernet driver all but reception;
  the network protocols that the board does not compile;
  code that only prints; the shell \<^verbatim>\<open>common/hush.c\<close>, the allocator \<^verbatim>\<open>common/dlmalloc.c\<close>, the decompressors
  and \<^verbatim>\<open>libfdt\<close>, which come from other projects; images in the FIT format. The components of the
  manifest list them with the reasons.
\<close>

end
